(* ===== verification/Prelude.thy ===== *)
theory Prelude
  imports Main "HOL-Library.Word"
begin

text \<open>
  Shared material of the development: the return codes of \<^verbatim>\<open>src/observer/common/rc.h\<close>, the integer
  and memory types every component uses, little-endian access to 32-bit integers inside a page, and
  the generic lemmas on lists, options and byte memory that the component theories share.

  Page and slot numbers are 32-bit integers in the code. They are never negative where they name a
  page or a slot, so they are natural numbers here; the places where the code uses \<open>-1\<close> as a
  "nothing" answer keep an \<^typ>\<open>int\<close> result.
\<close>

named_theorems mem_simps \<open>reads of a memory after writes to it\<close>
named_theorems rc_simps \<open>return-code tests\<close>


section \<open>Return codes\<close>

datatype (plugins only: code) RC =
    SUCCESS | INVALID_ARGUMENT | UNIMPLENMENT | SQL_SYNTAX | INTERNAL | NOMEM | NOTFOUND | EMPTY
  | BUFFERPOOL_OPEN | BUFFERPOOL_NOBUF | BUFFERPOOL_INVALID_PAGE_NUM
  | RECORD_OPENNED | RECORD_INVALID_RID | RECORD_INVALID_KEY | RECORD_DUPLICATE_KEY | RECORD_NOMEM
  | RECORD_EOF | RECORD_NOT_EXIST | RECORD_INVISIBLE
  | SCHEMA_DB_EXIST | SCHEMA_DB_NOT_EXIST | TUPLE_NOT_EXIST | SCHEMA_DB_NOT_OPENED
  | SCHEMA_TABLE_NOT_EXIST | SCHEMA_TABLE_EXIST | SCHEMA_FIELD_NOT_EXIST | SCHEMA_FIELD_MISSING
  | SCHEMA_FIELD_TYPE_MISMATCH | SCHEMA_INDEX_NAME_REPEAT
  | IOERR_READ | IOERR_WRITE | IOERR_ACCESS | IOERR_OPEN | IOERR_CLOSE | IOERR_SEEK
  | IOERR_TOO_LONG | IOERR_SYNC
  | LOCKED_UNLOCK | LOCKED_NEED_WAIT | LOCKED_CONCURRENCY_CONFLICT
  | FILE_EXIST | FILE_NOT_EXIST | FILE_NAME | FILE_BOUND | FILE_CREATE | FILE_OPEN
  | FILE_NOT_OPENED | FILE_CLOSE | FILE_REMOVE | FILE_SEEK | FILE_READ | FILE_WRITE
  | VARIABLE_NOT_EXISTS | VARIABLE_NOT_VALID | LOGBUF_FULL | FAILURE | FAIL_TO_DELETE_FILE
  | SCHEMA_FIELD_NOT_NULLABLE | NEED_TUPLE

definition OB_SUCC :: "RC \<Rightarrow> bool" where
  "OB_SUCC rc \<longleftrightarrow> rc = SUCCESS"

definition OB_FAIL :: "RC \<Rightarrow> bool" where
  "OB_FAIL rc \<longleftrightarrow> rc \<noteq> SUCCESS"

lemma OB_simps [simp, rc_simps]:
  "OB_SUCC SUCCESS" "\<not> OB_FAIL SUCCESS" "OB_FAIL rc \<longleftrightarrow> \<not> OB_SUCC rc"
  "rc \<noteq> SUCCESS \<Longrightarrow> \<not> OB_SUCC rc"
  by (auto simp: OB_SUCC_def OB_FAIL_def)


section \<open>Types\<close>

type_synonym byte = "8 word"

text \<open>The data area of a page, addressed by byte offset.\<close>

type_synonym mem = "nat \<Rightarrow> byte"

type_synonym PageNum = nat
type_synonym SlotNum = nat


section \<open>Bytes in memory\<close>

text \<open>\<^verbatim>\<open>memcpy\<close> out of and into a memory, and \<^verbatim>\<open>memset\<close>.\<close>

definition read_bytes :: "mem \<Rightarrow> nat \<Rightarrow> nat \<Rightarrow> byte list" where
  "read_bytes m a n = map m [a ..< a + n]"

definition write_bytes :: "mem \<Rightarrow> nat \<Rightarrow> byte list \<Rightarrow> mem" where
  "write_bytes m a xs = (\<lambda>i. if a \<le> i \<and> i < a + length xs then xs ! (i - a) else m i)"

definition fill_bytes :: "mem \<Rightarrow> nat \<Rightarrow> byte \<Rightarrow> nat \<Rightarrow> mem" where
  "fill_bytes m a v n = (\<lambda>i. if a \<le> i \<and> i < a + n then v else m i)"

lemma length_read_bytes [simp]: "length (read_bytes m a n) = n"
  by (simp add: read_bytes_def)

lemma read_bytes_cong: "(\<And>i. a \<le> i \<Longrightarrow> i < a + n \<Longrightarrow> m i = m' i) \<Longrightarrow> read_bytes m a n = read_bytes m' a n"
  by (simp add: read_bytes_def)

lemma read_write_bytes_same [simp, mem_simps]: "length xs = n \<Longrightarrow> read_bytes (write_bytes m a xs) a n = xs"
  by (auto simp: read_bytes_def write_bytes_def intro: nth_equalityI)

lemma read_write_bytes_disjoint [mem_simps]:
  "a + length xs \<le> b \<or> b + n \<le> a \<Longrightarrow> read_bytes (write_bytes m a xs) b n = read_bytes m b n"
  by (rule read_bytes_cong) (auto simp: write_bytes_def)

lemma write_bytes_outside [mem_simps]:
  "i < a \<or> a + length xs \<le> i \<Longrightarrow> write_bytes m a xs i = m i"
  by (auto simp: write_bytes_def)

lemma fill_bytes_outside [mem_simps]: "i < a \<or> a + n \<le> i \<Longrightarrow> fill_bytes m a v n i = m i"
  by (auto simp: fill_bytes_def)

lemma fill_bytes_inside [mem_simps]: "a \<le> i \<Longrightarrow> i < a + n \<Longrightarrow> fill_bytes m a v n i = v"
  by (simp add: fill_bytes_def)


section \<open>Little-endian 32-bit integers in memory\<close>

definition i32_range :: "int \<Rightarrow> bool" where
  "i32_range v \<longleftrightarrow> - 2147483648 \<le> v \<and> v < 2147483648"

definition load_i32 :: "mem \<Rightarrow> nat \<Rightarrow> int" where
  "load_i32 m a =
     (let u = uint (m a) + 256 * (uint (m (a + 1)) + 256 * (uint (m (a + 2)) + 256 * uint (m (a + 3))))
      in if u < 2147483648 then u else u - 4294967296)"

definition i32_bytes :: "int \<Rightarrow> byte list" where
  "i32_bytes v = map (\<lambda>k. word_of_int (v div 256 ^ k)) [0, 1, 2, 3]"

definition store_i32 :: "mem \<Rightarrow> nat \<Rightarrow> int \<Rightarrow> mem" where
  "store_i32 m a v = write_bytes m a (i32_bytes v)"

lemma length_i32_bytes [simp]: "length (i32_bytes v) = 4"
  by (simp add: i32_bytes_def)

lemma base256_digits:
  fixes v :: int
  shows "v mod 4294967296 = v mod 256 + 256 * (v div 256 mod 256 + 256 * (v div 256 ^ 2 mod 256 + 256 * (v div 256 ^ 3 mod 256)))"
proof -
  have "v mod 4294967296 = v mod (256 * (256 * (256 * 256)))" by simp
  also have "\<dots> = v mod 256 + 256 * (v div 256 mod 256 + 256 * (v div 256 div 256 mod 256 + 256 * (v div 256 div 256 div 256 mod 256)))"
    by (subst zmod_zmult2_eq, simp)+ simp
  finally have *: "v mod 4294967296 = v mod 256 + 256 * (v div 256 mod 256 + 256 *
      (v div 256 div 256 mod 256 + 256 * (v div 256 div 256 div 256 mod 256)))" .
  have "v div 256 div 256 = v div 256 ^ 2" "v div 256 div 256 div 256 = v div 256 ^ 3"
    using zdiv_zmult2_eq [of 256 v 256] zdiv_zmult2_eq [of 256 v "256 * 256"]
      zdiv_zmult2_eq [of 256 "v div 256" 256] by simp_all
  with * show ?thesis by (simp only:)
qed

lemma store_i32_bytes:
  "store_i32 m a v a = word_of_int v" "store_i32 m a v (a + 1) = word_of_int (v div 256)"
  "store_i32 m a v (a + 2) = word_of_int (v div 256 ^ 2)" "store_i32 m a v (a + 3) = word_of_int (v div 256 ^ 3)"
  by (simp_all add: store_i32_def write_bytes_def i32_bytes_def)

lemma load_store_i32 [simp, mem_simps]: "i32_range v \<Longrightarrow> load_i32 (store_i32 m a v) a = v"
proof -
  assume r: "i32_range v"
  have u: "uint (store_i32 m a v a) + 256 * (uint (store_i32 m a v (a + 1)) + 256 *
      (uint (store_i32 m a v (a + 2)) + 256 * uint (store_i32 m a v (a + 3)))) = v mod 4294967296"
    unfolding store_i32_bytes base256_digits by (simp add: uint_word_of_int)
  show ?thesis
  proof (cases "v < 0")
    case True
    with r have "v mod 4294967296 = v + 4294967296"
      using mod_add_self2 [of v 4294967296] mod_pos_pos_trivial [of "v + 4294967296" 4294967296]
      by (simp add: i32_range_def)
    with True r u show ?thesis
      by (simp only: load_i32_def Let_def u) (simp add: i32_range_def)
  next
    case False
    with r have "v mod 4294967296 = v"
      by (simp add: i32_range_def)
    with r u show ?thesis
      by (simp only: load_i32_def Let_def u) (simp add: i32_range_def)
  qed
qed

lemma load_i32_cong:
  "(\<And>i. a \<le> i \<Longrightarrow> i < a + 4 \<Longrightarrow> m i = m' i) \<Longrightarrow> load_i32 m a = load_i32 m' a"
  by (simp add: load_i32_def)

lemma load_write_bytes_disjoint [mem_simps]:
  "a + length xs \<le> b \<or> b + 4 \<le> a \<Longrightarrow> load_i32 (write_bytes m a xs) b = load_i32 m b"
  by (rule load_i32_cong) (auto simp: write_bytes_def)

lemma load_fill_bytes_disjoint [mem_simps]:
  "a + n \<le> b \<or> b + 4 \<le> a \<Longrightarrow> load_i32 (fill_bytes m a v n) b = load_i32 m b"
  by (rule load_i32_cong) (auto simp: fill_bytes_def)

lemma load_upd_disjoint [mem_simps]:
  "a < b \<or> b + 4 \<le> a \<Longrightarrow> load_i32 (m(a := x)) b = load_i32 m b"
  by (rule load_i32_cong) auto

lemma load_store_i32_disjoint [mem_simps]:
  "a + 4 \<le> b \<or> b + 4 \<le> a \<Longrightarrow> load_i32 (store_i32 m a v) b = load_i32 m b"
  by (simp add: store_i32_def mem_simps)

lemma store_i32_outside [mem_simps]: "i < a \<or> a + 4 \<le> i \<Longrightarrow> store_i32 m a v i = m i"
  by (simp add: store_i32_def mem_simps)

lemma read_store_i32_disjoint [mem_simps]:
  "a + 4 \<le> b \<or> b + n \<le> a \<Longrightarrow> read_bytes (store_i32 m a v) b n = read_bytes m b n"
  by (simp add: store_i32_def mem_simps)

lemma read_fill_bytes_disjoint [mem_simps]:
  "a + k \<le> b \<or> b + n \<le> a \<Longrightarrow> read_bytes (fill_bytes m a v k) b n = read_bytes m b n"
  by (rule read_bytes_cong) (auto simp: fill_bytes_def)

lemma read_upd_disjoint [mem_simps]:
  "a < b \<or> b + n \<le> a \<Longrightarrow> read_bytes (m(a := x)) b n = read_bytes m b n"
  by (rule read_bytes_cong) auto

lemma base256_bounds:
  fixes b0 b1 b2 b3 :: int
  assumes "0 \<le> b0" "b0 < 256" "0 \<le> b1" "b1 < 256" "0 \<le> b2" "b2 < 256" "0 \<le> b3" "b3 < 256"
  shows "0 \<le> b0 + 256 * (b1 + 256 * (b2 + 256 * b3))"
    and "b0 + 256 * (b1 + 256 * (b2 + 256 * b3)) < 4294967296"
  using assms by simp_all

lemma load_i32_range: "i32_range (load_i32 m a)"
proof -
  have b: "0 \<le> uint w" "uint w < 256" for w :: byte
    using uint_ge_0 [of w] uint_lt2p [of w] by simp_all
  define u where "u = uint (m a) + 256 * (uint (m (a + 1)) + 256 * (uint (m (a + 2)) + 256 * uint (m (a + 3))))"
  have "0 \<le> u" "u < 4294967296"
    unfolding u_def by (intro base256_bounds b)+
  moreover have "load_i32 m a = (if u < 2147483648 then u else u - 4294967296)"
    by (simp only: load_i32_def Let_def u_def)
  ultimately show ?thesis
    by (auto simp: i32_range_def)
qed

end
