(* ===== verification/Bitmap.thy ===== *)
theory Bitmap
  imports Prelude
begin

text \<open>
  \<^verbatim>\<open>deps/common/lang/bitmap.cpp\<close>: a bitmap laid over bytes it does not own. The C++ class holds a
  pointer into a page and a size in bits; here it is the offset of its first byte in the page's
  memory and the size, and the operations take and return that memory. The record pages keep their
  slot allocation in such a bitmap and the buffer pool file keeps its page allocation in one.

  The interface the clients rely on is the locale \<open>slot_bitmap\<close>: the effect of setting and clearing a
  bit, and that the two searches return the first free and the next used bit.
\<close>

unbundle bit_operations_syntax

record Bitmap =
  bm_base :: nat
  bm_size :: nat


section \<open>Searching inside one byte\<close>

function find_first_zero :: "byte \<Rightarrow> nat \<Rightarrow> int" where
  "find_first_zero byte i =
     (if i < 8 then if byte AND push_bit i 1 = 0 then int i else find_first_zero byte (Suc i) else -1)"
  by pat_completeness auto
termination
  by (relation "measure (\<lambda>(_, i). 8 - i)") auto

function find_first_setted :: "byte \<Rightarrow> nat \<Rightarrow> int" where
  "find_first_setted byte i =
     (if i < 8 then if byte AND push_bit i 1 \<noteq> 0 then int i else find_first_setted byte (Suc i) else -1)"
  by pat_completeness auto
termination
  by (relation "measure (\<lambda>(_, i). 8 - i)") auto

declare find_first_zero.simps [simp del] find_first_setted.simps [simp del]

definition bitmap_bytes :: "nat \<Rightarrow> nat" where
  "bitmap_bytes n = (if n mod 8 = 0 then n div 8 else n div 8 + 1)"


section \<open>The operations of the class\<close>

definition Bitmap_get_bit :: "mem \<Rightarrow> Bitmap \<Rightarrow> nat \<Rightarrow> bool" where
  "Bitmap_get_bit m bm index \<longleftrightarrow> m (bm_base bm + index div 8) AND push_bit (index mod 8) 1 \<noteq> 0"

definition Bitmap_set_bit :: "mem \<Rightarrow> Bitmap \<Rightarrow> nat \<Rightarrow> mem" where
  "Bitmap_set_bit m bm index =
     (let a = bm_base bm + index div 8 in m(a := m a OR push_bit (index mod 8) 1))"

definition Bitmap_clear_bit :: "mem \<Rightarrow> Bitmap \<Rightarrow> nat \<Rightarrow> mem" where
  "Bitmap_clear_bit m bm index =
     (let a = bm_base bm + index div 8 in m(a := m a AND NOT (push_bit (index mod 8) 1)))"

text \<open>
  The loops over the bytes. \<open>start_in_byte\<close> is reset only after a byte that was searched, exactly as
  in the code: a byte that is skipped leaves it as it was.
\<close>

function next_unsetted_loop :: "mem \<Rightarrow> Bitmap \<Rightarrow> nat \<Rightarrow> nat \<Rightarrow> int" where
  "next_unsetted_loop m bm iter start_in_byte =
     (if iter < bitmap_bytes (bm_size bm) then
        let byte = m (bm_base bm + iter) in
        if byte \<noteq> -1 then
          let index_in_byte = find_first_zero byte start_in_byte in
          if index_in_byte \<ge> 0 then int (iter * 8) + index_in_byte
          else next_unsetted_loop m bm (Suc iter) 0
        else next_unsetted_loop m bm (Suc iter) start_in_byte
      else -1)"
  by pat_completeness auto
termination
  by (relation "measure (\<lambda>(_, bm, iter, _). bitmap_bytes (bm_size bm) - iter)") auto

function next_setted_loop :: "mem \<Rightarrow> Bitmap \<Rightarrow> nat \<Rightarrow> nat \<Rightarrow> int" where
  "next_setted_loop m bm iter start_in_byte =
     (if iter < bitmap_bytes (bm_size bm) then
        let byte = m (bm_base bm + iter) in
        if byte \<noteq> 0 then
          let index_in_byte = find_first_setted byte start_in_byte in
          if index_in_byte \<ge> 0 then int (iter * 8) + index_in_byte
          else next_setted_loop m bm (Suc iter) 0
        else next_setted_loop m bm (Suc iter) start_in_byte
      else -1)"
  by pat_completeness auto
termination
  by (relation "measure (\<lambda>(_, bm, iter, _). bitmap_bytes (bm_size bm) - iter)") auto

declare next_unsetted_loop.simps [simp del] next_setted_loop.simps [simp del]

definition next_unsetted_bit :: "mem \<Rightarrow> Bitmap \<Rightarrow> nat \<Rightarrow> int" where
  "next_unsetted_bit m bm start =
     (let ret = next_unsetted_loop m bm (start div 8) (start mod 8)
      in if ret \<ge> int (bm_size bm) then -1 else ret)"

definition next_setted_bit :: "mem \<Rightarrow> Bitmap \<Rightarrow> nat \<Rightarrow> int" where
  "next_setted_bit m bm start =
     (let ret = next_setted_loop m bm (start div 8) (start mod 8)
      in if ret \<ge> int (bm_size bm) then -1 else ret)"


section \<open>Single bits\<close>

lemma and_exp_eq_0_iff: "(w :: byte) AND 2 ^ i = 0 \<longleftrightarrow> \<not> bit w i"
  by (simp add: bit_iff_and_push_bit_not_eq_0)

lemma bit_exp_byte_iff: "bit (2 ^ n :: byte) k \<longleftrightarrow> k = n \<and> k < 8"
  by (auto simp: bit_exp_iff)

lemma Bitmap_get_bit_iff: "Bitmap_get_bit m bm i \<longleftrightarrow> bit (m (bm_base bm + i div 8)) (i mod 8)"
  by (simp add: Bitmap_get_bit_def and_exp_eq_0_iff)

lemma Bitmap_get_bit_byte:
  "k < 8 \<Longrightarrow> Bitmap_get_bit m bm (8 * iter + k) \<longleftrightarrow> bit (m (bm_base bm + iter)) k"
  by (simp add: Bitmap_get_bit_iff)

lemma same_bit_iff: "i div 8 = j div 8 \<and> i mod 8 = j mod 8 \<longleftrightarrow> i = (j::nat)"
  by (metis div_mult_mod_eq)

lemma get_set_bit [simp]: "Bitmap_get_bit (Bitmap_set_bit m bm i) bm j \<longleftrightarrow> j = i \<or> Bitmap_get_bit m bm j"
  by (auto simp: Bitmap_get_bit_iff Bitmap_set_bit_def Let_def bit_or_iff bit_exp_byte_iff
      intro: same_bit_iff [THEN iffD1])

lemma get_clear_bit [simp]: "Bitmap_get_bit (Bitmap_clear_bit m bm i) bm j \<longleftrightarrow> j \<noteq> i \<and> Bitmap_get_bit m bm j"
  by (auto simp: Bitmap_get_bit_iff Bitmap_clear_bit_def Let_def bit_and_iff bit_not_iff bit_exp_byte_iff
      dest: same_bit_iff [THEN iffD1, OF conjI])

lemma bitmap_bytes_alt: "bitmap_bytes n = (n + 7) div 8"
proof -
  obtain q r where n: "n = 8 * q + r" "r < 8"
    by (metis div_mult_mod_eq mod_less_divisor mult.commute zero_less_numeral)
  have "(8 * q + r + 7) div 8 = (if r = 0 then q else q + 1)"
    using n(2) by (cases "r = 0"; simp only: if_True if_False simp_thms; linarith)
  with n show ?thesis by (simp add: bitmap_bytes_def)
qed

lemma bitmap_bytes_bound: "i < n \<Longrightarrow> i div 8 < bitmap_bytes n"
  unfolding bitmap_bytes_alt by linarith

lemma bitmap_bytes_covers: "n \<le> 8 * bitmap_bytes n"
  unfolding bitmap_bytes_alt by linarith

lemma Bitmap_set_bit_outside [mem_simps]:
  "a < bm_base bm \<or> bm_base bm + bitmap_bytes (bm_size bm) \<le> a \<Longrightarrow> i < bm_size bm \<Longrightarrow> Bitmap_set_bit m bm i a = m a"
  using bitmap_bytes_bound [of i "bm_size bm"] by (auto simp: Bitmap_set_bit_def Let_def)

lemma Bitmap_clear_bit_outside [mem_simps]:
  "a < bm_base bm \<or> bm_base bm + bitmap_bytes (bm_size bm) \<le> a \<Longrightarrow> i < bm_size bm \<Longrightarrow> Bitmap_clear_bit m bm i a = m a"
  using bitmap_bytes_bound [of i "bm_size bm"] by (auto simp: Bitmap_clear_bit_def Let_def)

lemma Bitmap_get_bit_cong:
  "(\<And>a. bm_base bm \<le> a \<Longrightarrow> a < bm_base bm + bitmap_bytes (bm_size bm) \<Longrightarrow> m a = m' a) \<Longrightarrow> i < bm_size bm \<Longrightarrow>
   Bitmap_get_bit m bm i = Bitmap_get_bit m' bm i"
  using bitmap_bytes_bound [of i "bm_size bm"] by (simp add: Bitmap_get_bit_iff)


section \<open>What a search promises\<close>

text \<open>
  \<open>is_first P a b r\<close>: \<open>r\<close> is the least index in \<open>[a, b)\<close> that satisfies \<open>P\<close>, or \<open>-1\<close> when there is
  none.
\<close>

definition is_first :: "(nat \<Rightarrow> bool) \<Rightarrow> nat \<Rightarrow> nat \<Rightarrow> int \<Rightarrow> bool" where
  "is_first P a b r \<longleftrightarrow>
     (r = -1 \<and> (\<forall>j. a \<le> j \<and> j < b \<longrightarrow> \<not> P j)) \<or>
     (\<exists>i. r = int i \<and> a \<le> i \<and> i < b \<and> P i \<and> (\<forall>j. a \<le> j \<and> j < i \<longrightarrow> \<not> P j))"

lemma is_first_none: "is_first P a b (-1) \<longleftrightarrow> (\<forall>j. a \<le> j \<and> j < b \<longrightarrow> \<not> P j)"
  by (auto simp: is_first_def)

lemma is_first_some: "is_first P a b (int i) \<longleftrightarrow> a \<le> i \<and> i < b \<and> P i \<and> (\<forall>j. a \<le> j \<and> j < i \<longrightarrow> \<not> P j)"
  by (auto simp: is_first_def)

lemma is_first_cases:
  assumes "is_first P a b r"
  obtains (none) "r = -1" "\<And>j. a \<le> j \<Longrightarrow> j < b \<Longrightarrow> \<not> P j"
  | (some) i where "r = int i" "a \<le> i" "i < b" "P i" "\<And>j. a \<le> j \<Longrightarrow> j < i \<Longrightarrow> \<not> P j"
  using assms by (auto simp: is_first_def)

lemma is_first_unique: "is_first P a b r \<Longrightarrow> is_first P a b r' \<Longrightarrow> r = r'"
  by (auto simp: is_first_def) (metis linorder_neqE_nat)

lemma is_first_skip:
  "is_first P b c r \<Longrightarrow> (\<And>j. a \<le> j \<Longrightarrow> j < b \<Longrightarrow> \<not> P j) \<Longrightarrow> a \<le> b \<Longrightarrow> is_first P a c r"
  by (auto simp: is_first_def) (metis le_trans not_le_imp_less)+

lemma is_first_clip:
  "is_first P a b r \<Longrightarrow> c \<le> b \<Longrightarrow> is_first P a c (if r \<ge> int c then -1 else r)"
  by (auto simp: is_first_def)

lemma is_first_filter:
  assumes "is_first P a b r"
  shows "filter P [a..<b] = (if r = -1 then [] else nat r # filter P [Suc (nat r)..<b])"
  using assms
proof (cases rule: is_first_cases)
  case none
  then show ?thesis by (simp add: filter_empty_conv)
next
  case (some i)
  from some have "[a..<b] = [a..<i] @ i # [Suc i..<b]"
    by (metis le_add_diff_inverse less_or_eq_imp_le upt_add_eq_append upt_conv_Cons)
  moreover from some have "filter P [a..<i] = []"
    by (simp add: filter_empty_conv)
  ultimately show ?thesis using some by simp
qed

lemma is_first_step: "is_first P (Suc i) b r \<Longrightarrow> \<not> P i \<Longrightarrow> is_first P i b r"
  by (erule is_first_skip) (auto dest: le_antisym)

lemma find_first_zero_first: "is_first (\<lambda>k. \<not> bit byte k) i 8 (find_first_zero byte i)"
proof (induction byte i rule: find_first_zero.induct)
  case (1 byte i)
  then show ?case
    by (subst find_first_zero.simps)
      (auto simp: is_first_none is_first_some and_exp_eq_0_iff intro: is_first_step)
qed

lemma find_first_setted_first: "is_first (bit byte) i 8 (find_first_setted byte i)"
proof (induction byte i rule: find_first_setted.induct)
  case (1 byte i)
  then show ?case
    by (subst find_first_setted.simps)
      (auto simp: is_first_none is_first_some and_exp_eq_0_iff intro: is_first_step)
qed


section \<open>The searches over the whole bitmap\<close>

lemma get_bit_window:
  "8 * iter \<le> j \<Longrightarrow> j < 8 * Suc iter \<Longrightarrow> Bitmap_get_bit m bm j = bit (m (bm_base bm + iter)) (j - 8 * iter)"
  using Bitmap_get_bit_byte [of "j - 8 * iter" m bm iter] by simp

text \<open>
  A search is exact as long as the byte it starts in is not skipped half way: it starts at a byte
  boundary, or that byte has something to find.
\<close>

lemma next_setted_loop_first:
  assumes "s < 8" "s = 0 \<or> m (bm_base bm + iter) \<noteq> 0"
  shows "is_first (Bitmap_get_bit m bm) (8 * iter + s) (8 * bitmap_bytes (bm_size bm)) (next_setted_loop m bm iter s)"
  using assms
proof (induction m bm iter s rule: next_setted_loop.induct)
  case (1 m bm iter s)
  let ?byte = "m (bm_base bm + iter)"
  show ?case
  proof (cases "iter < bitmap_bytes (bm_size bm)")
    case False
    then show ?thesis by (subst next_setted_loop.simps) (auto simp: is_first_none)
  next
    case in_range: True
    show ?thesis
    proof (cases "?byte \<noteq> 0 \<and> find_first_setted ?byte s \<ge> 0")
      case True
      with find_first_setted_first [of ?byte s] obtain k where k: "find_first_setted ?byte s = int k"
        "s \<le> k" "k < 8" "bit ?byte k" "\<And>j. s \<le> j \<Longrightarrow> j < k \<Longrightarrow> \<not> bit ?byte j"
        by (auto elim: is_first_cases)
      have "is_first (Bitmap_get_bit m bm) (8 * iter + s) (8 * bitmap_bytes (bm_size bm)) (int (8 * iter + k))"
        unfolding is_first_some using k in_range by (auto simp: get_bit_window [of iter])
      with True in_range k show ?thesis
        by (subst next_setted_loop.simps) (simp add: Let_def mult.commute)
    next
      case False
      have skip: "\<not> Bitmap_get_bit m bm j" if "8 * iter + s \<le> j" "j < 8 * Suc iter" for j
      proof (cases "?byte = 0")
        case True
        with that show ?thesis by (simp add: get_bit_window [of iter])
      next
        case nz: False
        with False find_first_setted_first [of ?byte s] that show ?thesis
          by (auto simp: get_bit_window [of iter] elim!: is_first_cases)
      qed
      have "is_first (Bitmap_get_bit m bm) (8 * Suc iter + 0) (8 * bitmap_bytes (bm_size bm)) (next_setted_loop m bm iter s)"
        using "1.IH" [OF in_range refl] "1.prems" False in_range
        by (subst next_setted_loop.simps) (auto simp: Let_def)
      with skip "1.prems"(1) show ?thesis
        by (auto intro: is_first_skip)
    qed
  qed
qed

lemma next_unsetted_loop_first:
  assumes "s < 8" "s = 0 \<or> m (bm_base bm + iter) \<noteq> -1"
  shows "is_first (\<lambda>j. \<not> Bitmap_get_bit m bm j) (8 * iter + s) (8 * bitmap_bytes (bm_size bm)) (next_unsetted_loop m bm iter s)"
  using assms
proof (induction m bm iter s rule: next_unsetted_loop.induct)
  case (1 m bm iter s)
  let ?byte = "m (bm_base bm + iter)"
  show ?case
  proof (cases "iter < bitmap_bytes (bm_size bm)")
    case False
    then show ?thesis by (subst next_unsetted_loop.simps) (auto simp: is_first_none)
  next
    case in_range: True
    show ?thesis
    proof (cases "?byte \<noteq> -1 \<and> find_first_zero ?byte s \<ge> 0")
      case True
      with find_first_zero_first [of ?byte s] obtain k where k: "find_first_zero ?byte s = int k"
        "s \<le> k" "k < 8" "\<not> bit ?byte k" "\<And>j. s \<le> j \<Longrightarrow> j < k \<Longrightarrow> bit ?byte j"
        by (auto elim: is_first_cases)
      have "is_first (\<lambda>j. \<not> Bitmap_get_bit m bm j) (8 * iter + s) (8 * bitmap_bytes (bm_size bm)) (int (8 * iter + k))"
        unfolding is_first_some using k in_range by (auto simp: get_bit_window [of iter])
      with True in_range k show ?thesis
        by (subst next_unsetted_loop.simps) (simp add: Let_def mult.commute)
    next
      case False
      have skip: "Bitmap_get_bit m bm j" if "8 * iter + s \<le> j" "j < 8 * Suc iter" for j
      proof (cases "?byte = -1")
        case True
        with that show ?thesis by (simp add: get_bit_window [of iter] bit_minus_1_iff)
      next
        case nz: False
        with False find_first_zero_first [of ?byte s] that show ?thesis
          by (auto simp: get_bit_window [of iter] elim!: is_first_cases)
      qed
      have "is_first (\<lambda>j. \<not> Bitmap_get_bit m bm j) (8 * Suc iter + 0) (8 * bitmap_bytes (bm_size bm)) (next_unsetted_loop m bm iter s)"
        using "1.IH" [OF in_range refl] "1.prems" False in_range
        by (subst next_unsetted_loop.simps) (auto simp: Let_def)
      with skip "1.prems"(1) show ?thesis
        by (auto intro: is_first_skip)
    qed
  qed
qed

lemma next_setted_bit_first:
  assumes "start mod 8 = 0 \<or> m (bm_base bm + start div 8) \<noteq> 0"
  shows "is_first (Bitmap_get_bit m bm) start (bm_size bm) (next_setted_bit m bm start)"
  using is_first_clip [OF next_setted_loop_first [of "start mod 8" m bm "start div 8"] bitmap_bytes_covers [of "bm_size bm"]] assms
  by (simp add: next_setted_bit_def Let_def)

lemma next_unsetted_bit_first:
  assumes "start mod 8 = 0 \<or> m (bm_base bm + start div 8) \<noteq> -1"
  shows "is_first (\<lambda>j. \<not> Bitmap_get_bit m bm j) start (bm_size bm) (next_unsetted_bit m bm start)"
  using is_first_clip [OF next_unsetted_loop_first [of "start mod 8" m bm "start div 8"] bitmap_bytes_covers [of "bm_size bm"]] assms
  by (simp add: next_unsetted_bit_def Let_def)

text \<open>The way the iterators call the search: from 0, or from just behind a used slot.\<close>

lemma next_setted_bit_from_used:
  assumes "start = 0 \<or> Bitmap_get_bit m bm (start - 1)"
  shows "is_first (Bitmap_get_bit m bm) start (bm_size bm) (next_setted_bit m bm start)"
proof (rule next_setted_bit_first)
  show "start mod 8 = 0 \<or> m (bm_base bm + start div 8) \<noteq> 0"
  proof (cases "start mod 8 = 0")
    case False
    then have "start \<noteq> 0" by auto
    from False have "(start - 1) div 8 = start div 8"
      using div_mult_mod_eq [of start 8] by linarith
    with \<open>start \<noteq> 0\<close> assms show ?thesis by (auto simp: Bitmap_get_bit_iff)
  qed simp
qed


section \<open>The interface of the bitmap\<close>

definition used_slots :: "(nat \<Rightarrow> bool) \<Rightarrow> nat \<Rightarrow> nat set" where
  "used_slots P n = {i. i < n \<and> P i}"

lemma finite_used_slots [simp]: "finite (used_slots P n)"
  by (simp add: used_slots_def)

lemma card_used_slots_le: "card (used_slots P n) \<le> n"
  using card_mono [of "{..<n}" "used_slots P n"] by (auto simp: used_slots_def)

lemma card_used_slots_full: "card (used_slots P n) = n \<longleftrightarrow> (\<forall>i<n. P i)"
proof
  assume c: "card (used_slots P n) = n"
  have "used_slots P n = {..<n}"
    by (rule card_subset_eq) (use c in \<open>auto simp: used_slots_def\<close>)
  then show "\<forall>i<n. P i" by (auto simp: used_slots_def)
next
  assume "\<forall>i<n. P i"
  then have "used_slots P n = {..<n}" by (auto simp: used_slots_def)
  then show "card (used_slots P n) = n" by simp
qed

lemma used_slots_cong: "(\<And>i. i < n \<Longrightarrow> P i = Q i) \<Longrightarrow> used_slots P n = used_slots Q n"
  by (auto simp: used_slots_def)

locale slot_bitmap =
  fixes get :: "'m \<Rightarrow> nat \<Rightarrow> bool"
    and mark :: "'m \<Rightarrow> nat \<Rightarrow> 'm"
    and unmark :: "'m \<Rightarrow> nat \<Rightarrow> 'm"
    and next_free :: "'m \<Rightarrow> int"
    and next_used :: "'m \<Rightarrow> nat \<Rightarrow> int"
    and cap :: nat
  assumes get_mark: "get (mark m i) j \<longleftrightarrow> j = i \<or> get m j"
    and get_unmark: "get (unmark m i) j \<longleftrightarrow> j \<noteq> i \<and> get m j"
    and next_free_first: "is_first (\<lambda>i. \<not> get m i) 0 cap (next_free m)"
    and next_used_first: "start = 0 \<or> get m (start - 1) \<Longrightarrow> is_first (get m) start cap (next_used m start)"
begin

lemma card_mark:
  assumes "i < cap" "\<not> get m i"
  shows "card (used_slots (get (mark m i)) cap) = Suc (card (used_slots (get m) cap))"
proof -
  have "used_slots (get (mark m i)) cap = insert i (used_slots (get m) cap)"
    using assms(1) by (auto simp: used_slots_def get_mark)
  with assms(2) show ?thesis by (simp add: used_slots_def)
qed

lemma mark_used: "get m i \<Longrightarrow> used_slots (get (mark m i)) cap = used_slots (get m) cap"
  by (auto simp: used_slots_def get_mark)

lemma card_unmark:
  assumes "i < cap" "get m i"
  shows "Suc (card (used_slots (get (unmark m i)) cap)) = card (used_slots (get m) cap)"
proof -
  have "used_slots (get m) cap = insert i (used_slots (get (unmark m i)) cap)"
    using assms by (auto simp: used_slots_def get_unmark)
  moreover have "i \<notin> used_slots (get (unmark m i)) cap"
    by (simp add: used_slots_def get_unmark)
  ultimately show ?thesis by simp
qed

lemma next_free_none_iff: "next_free m = -1 \<longleftrightarrow> card (used_slots (get m) cap) = cap"
  using next_free_first [of m] by (auto simp: card_used_slots_full is_first_none elim: is_first_cases)

lemma next_free_someE:
  assumes "card (used_slots (get m) cap) < cap"
  obtains i where "next_free m = int i" "i < cap" "\<not> get m i" "\<And>j. j < i \<Longrightarrow> get m j"
  using next_free_first [of m]
proof (cases rule: is_first_cases)
  case none
  with assms next_free_none_iff [of m] show ?thesis by simp
next
  case (some i)
  with that show ?thesis by auto
qed

lemma next_used_filter:
  "start = 0 \<or> get m (start - 1) \<Longrightarrow>
   filter (get m) [start..<cap] =
     (if next_used m start = -1 then [] else nat (next_used m start) # filter (get m) [Suc (nat (next_used m start))..<cap])"
  by (rule is_first_filter [OF next_used_first])

lemma next_used_slot:
  assumes "start = 0 \<or> get m (start - 1)" "next_used m start \<noteq> -1"
  shows "next_used m start = int (nat (next_used m start))" "start \<le> nat (next_used m start)"
    "nat (next_used m start) < cap" "get m (nat (next_used m start))"
  using next_used_first [OF assms(1)] assms(2) by (auto elim: is_first_cases)

end

interpretation page_bits: slot_bitmap
  "\<lambda>m. Bitmap_get_bit m bm" "\<lambda>m. Bitmap_set_bit m bm" "\<lambda>m. Bitmap_clear_bit m bm"
  "\<lambda>m. next_unsetted_bit m bm 0" "\<lambda>m. next_setted_bit m bm" "bm_size bm"
  for bm :: Bitmap
  by unfold_locales (simp_all add: next_unsetted_bit_first next_setted_bit_from_used)


section \<open>Properties\<close>

text \<open>
  searching for the next used slot from 0, or from the position right behind a used slot, which
  is how the page and the file iterators call it, returns the least used index at or after the start
  and below the size, and \<open>-1\<close> exactly when there is none.
\<close>

lemma next_setted_bit_exact:
  assumes "start = 0 \<or> Bitmap_get_bit m bm (start - 1)"
  shows "next_setted_bit m bm start = -1 \<and> (\<forall>j. start \<le> j \<and> j < bm_size bm \<longrightarrow> \<not> Bitmap_get_bit m bm j) \<or>
    (\<exists>i. next_setted_bit m bm start = int i \<and> start \<le> i \<and> i < bm_size bm \<and> Bitmap_get_bit m bm i \<and>
       (\<forall>j. start \<le> j \<and> j < i \<longrightarrow> \<not> Bitmap_get_bit m bm j))"
  using page_bits.next_used_first [OF assms] by (simp add: is_first_def)

lemma next_setted_bit_exact_witness:
  "next_setted_bit (\<lambda>a. if a = 9 then 5 else 0) \<lparr>bm_base = 8, bm_size = 20\<rparr> 9 = 10 \<and>
   Bitmap_get_bit (\<lambda>a. if a = 9 then 5 else 0) \<lparr>bm_base = 8, bm_size = 20\<rparr> 8"
proof -
  let ?m = "\<lambda>a::nat. if a = 9 then 5 else (0::byte)" and ?bm = "\<lparr>bm_base = 8, bm_size = 20\<rparr>"
  have b: "Bitmap_get_bit ?m ?bm 8" "\<not> Bitmap_get_bit ?m ?bm 9" "Bitmap_get_bit ?m ?bm 10"
    by code_simp+
  then have start: "9 = 0 \<or> Bitmap_get_bit ?m ?bm (9 - 1)" by simp
  have "next_setted_bit ?m ?bm 9 = 10"
    using next_setted_bit_exact [OF start]
  proof (elim disjE exE conjE)
    assume "\<forall>j. 9 \<le> j \<and> j < bm_size ?bm \<longrightarrow> \<not> Bitmap_get_bit ?m ?bm j"
    then show ?thesis using b(3) by auto
  next
    fix i assume i: "next_setted_bit ?m ?bm 9 = int i" "9 \<le> i" "Bitmap_get_bit ?m ?bm i"
      "\<forall>j. 9 \<le> j \<and> j < i \<longrightarrow> \<not> Bitmap_get_bit ?m ?bm j"
    then have "i \<noteq> 9" "\<not> 10 < i" using b by auto
    with i have "i = 10" by simp
    with i(1) show ?thesis by simp
  qed
  with b show ?thesis by simp
qed

text \<open>
  The search is not exact for an arbitrary start, although its comment promises the first set
  bit with the start included: the offset inside the first byte is not reset when that byte is
  skipped for being empty, so a bit of a later byte below that offset is missed.
\<close>

lemma next_setted_bit_misses:
  "\<exists>m bm start. Bitmap_get_bit m bm 8 \<and> start \<le> 8 \<and> 8 < bm_size bm \<and> next_setted_bit m bm start = -1"
proof (intro exI conjI)
  let ?m = "\<lambda>a::nat. if a = 1 then 1 else (0::byte)" and ?bm = "\<lparr>bm_base = 0, bm_size = 16\<rparr>"
  show "Bitmap_get_bit ?m ?bm 8" by code_simp
  show "next_setted_bit ?m ?bm 1 = -1" by code_simp
qed simp_all

end
