(* ===== verification/LruCache.thy ===== *)
theory LruCache
  imports Prelude
begin

text \<open>
  \<^verbatim>\<open>deps/common/lang/lru_cache.h\<close>: the cache that maps a key to a value and keeps its nodes in a
  doubly linked list, most recently used first. The nodes live in an explicit heap, addressed by
  natural numbers, because every operation relinks \<open>prev_\<close>/\<open>next_\<close> pointers of nodes it shares with
  the list; \<open>searcher_\<close>, an \<^verbatim>\<open>unordered_set\<close> of node pointers compared by key, is the list of the
  pointers it holds. \<open>new ListNode\<close> takes the next unused address.

  The list of entries, most recent first, is the abstract value; \<open>lru_abs\<close> relates a cache to it, and
  the locale \<open>lru_spec\<close> states what a client of the cache may rely on.
\<close>

record ('k, 'v) ListNode =
  ln_key :: 'k
  ln_value :: 'v
  ln_prev :: "nat option"
  ln_next :: "nat option"

record ('k, 'v) LruCache =
  lru_heap :: "nat \<Rightarrow> ('k, 'v) ListNode"
  lru_fresh :: nat
  searcher :: "nat list"
  lru_front :: "nat option"
  lru_tail :: "nat option"

definition LruCache_empty :: "('k, 'v) LruCache" where
  "LruCache_empty = \<lparr>lru_heap = (\<lambda>_. undefined), lru_fresh = 0, searcher = [], lru_front = None, lru_tail = None\<rparr>"

definition searcher_find :: "('k, 'v) LruCache \<Rightarrow> 'k \<Rightarrow> nat option" where
  "searcher_find c k = find (\<lambda>p. ln_key (lru_heap c p) = k) (searcher c)"


section \<open>Relinking nodes\<close>

text \<open>Assignments through a pointer: \<^verbatim>\<open>p->prev_ = q\<close> and \<^verbatim>\<open>p->next_ = q\<close>.\<close>

definition set_prev :: "(nat \<Rightarrow> ('k, 'v) ListNode) \<Rightarrow> nat \<Rightarrow> nat option \<Rightarrow> nat \<Rightarrow> ('k, 'v) ListNode" where
  "set_prev h p q = h(p := (h p)\<lparr>ln_prev := q\<rparr>)"

definition set_next :: "(nat \<Rightarrow> ('k, 'v) ListNode) \<Rightarrow> nat \<Rightarrow> nat option \<Rightarrow> nat \<Rightarrow> ('k, 'v) ListNode" where
  "set_next h p q = h(p := (h p)\<lparr>ln_next := q\<rparr>)"

definition lru_touch :: "('k, 'v) LruCache \<Rightarrow> nat \<Rightarrow> ('k, 'v) LruCache" where
  "lru_touch c node =
     (case ln_prev (lru_heap c node) of
        None \<Rightarrow> c
      | Some prev \<Rightarrow>
          let h = lru_heap c;
              h = set_next h prev (ln_next (h node));
              (h, tail) = (case ln_next (h node) of
                  Some nxt \<Rightarrow> (set_prev h nxt (ln_prev (h node)), lru_tail c)
                | None \<Rightarrow> (h, ln_prev (h node)));
              h = set_prev h node None;
              h = set_next h node (lru_front c);
              h = (case lru_front c of Some front \<Rightarrow> set_prev h front (Some node) | None \<Rightarrow> h)
          in c\<lparr>lru_heap := h, lru_tail := tail, lru_front := Some node\<rparr>)"

definition lru_push :: "('k, 'v) LruCache \<Rightarrow> nat \<Rightarrow> ('k, 'v) LruCache" where
  "lru_push c node =
     (let tail = (case lru_tail c of None \<Rightarrow> Some node | Some t \<Rightarrow> Some t);
          h = set_prev (lru_heap c) node None;
          h = set_next h node (lru_front c);
          h = (case lru_front c of Some front \<Rightarrow> set_prev h front (Some node) | None \<Rightarrow> h)
      in c\<lparr>lru_heap := h, lru_tail := tail, lru_front := Some node, searcher := node # searcher c\<rparr>)"

definition lru_remove :: "('k, 'v) LruCache \<Rightarrow> nat \<Rightarrow> ('k, 'v) LruCache" where
  "lru_remove c node =
     (let h = lru_heap c;
          h = (case ln_prev (h node) of Some prev \<Rightarrow> set_next h prev (ln_next (h node)) | None \<Rightarrow> h);
          h = (case ln_next (h node) of Some nxt \<Rightarrow> set_prev h nxt (ln_prev (h node)) | None \<Rightarrow> h);
          front = (if lru_front c = Some node then ln_next (h node) else lru_front c);
          tail = (if lru_tail c = Some node then ln_prev (h node) else lru_tail c)
      in c\<lparr>lru_heap := h, lru_front := front, lru_tail := tail, searcher := remove1 node (searcher c)\<rparr>)"


section \<open>The public operations\<close>

definition LruCache_destroy :: "('k, 'v) LruCache \<Rightarrow> ('k, 'v) LruCache" where
  "LruCache_destroy c = c\<lparr>searcher := [], lru_front := None, lru_tail := None\<rparr>"

definition LruCache_count :: "('k, 'v) LruCache \<Rightarrow> nat" where
  "LruCache_count c = length (searcher c)"

definition LruCache_get :: "('k, 'v) LruCache \<Rightarrow> 'k \<Rightarrow> 'v option \<times> ('k, 'v) LruCache" where
  "LruCache_get c k =
     (case searcher_find c k of
        None \<Rightarrow> (None, c)
      | Some node \<Rightarrow> let c = lru_touch c node in (Some (ln_value (lru_heap c node)), c))"

definition LruCache_put :: "('k, 'v) LruCache \<Rightarrow> 'k \<Rightarrow> 'v \<Rightarrow> ('k, 'v) LruCache" where
  "LruCache_put c k v =
     (case searcher_find c k of
        Some ln \<Rightarrow>
          lru_touch (c\<lparr>lru_heap := (lru_heap c)(ln := (lru_heap c ln)\<lparr>ln_value := v\<rparr>)\<rparr>) ln
      | None \<Rightarrow>
          let ln = lru_fresh c;
              node = \<lparr>ln_key = k, ln_value = v, ln_prev = None, ln_next = None\<rparr>
          in lru_push (c\<lparr>lru_heap := (lru_heap c)(ln := node), lru_fresh := Suc ln\<rparr>) ln)"

definition LruCache_remove :: "('k, 'v) LruCache \<Rightarrow> 'k \<Rightarrow> ('k, 'v) LruCache" where
  "LruCache_remove c k = (case searcher_find c k of Some node \<Rightarrow> lru_remove c node | None \<Rightarrow> c)"

text \<open>
  \<open>foreach\<close> and \<open>foreach_reverse\<close> follow the pointers and stop when the callback returns false. The
  callback works on a state of its own, and the loop answers \<^const>\<open>None\<close> if the pointers never end.
\<close>

partial_function (option) foreach_loop ::
  "('k \<Rightarrow> 'v \<Rightarrow> 's \<Rightarrow> bool \<times> 's) \<Rightarrow> ('k, 'v) LruCache \<Rightarrow> nat option \<Rightarrow> 's \<Rightarrow> 's option" where
  "foreach_loop func c node s =
     (case node of
        None \<Rightarrow> Some s
      | Some p \<Rightarrow>
          (case func (ln_key (lru_heap c p)) (ln_value (lru_heap c p)) s of
             (ret, s') \<Rightarrow> if \<not> ret then Some s' else foreach_loop func c (ln_next (lru_heap c p)) s'))"

partial_function (option) foreach_reverse_loop ::
  "('k \<Rightarrow> 'v \<Rightarrow> 's \<Rightarrow> bool \<times> 's) \<Rightarrow> ('k, 'v) LruCache \<Rightarrow> nat option \<Rightarrow> 's \<Rightarrow> 's option" where
  "foreach_reverse_loop func c node s =
     (case node of
        None \<Rightarrow> Some s
      | Some p \<Rightarrow>
          (case func (ln_key (lru_heap c p)) (ln_value (lru_heap c p)) s of
             (ret, s') \<Rightarrow> if \<not> ret then Some s' else foreach_reverse_loop func c (ln_prev (lru_heap c p)) s'))"

definition LruCache_foreach where
  "LruCache_foreach func c s = foreach_loop func c (lru_front c) s"

definition LruCache_foreach_reverse where
  "LruCache_foreach_reverse func c s = foreach_reverse_loop func c (lru_tail c) s"

text \<open>What the callback sees when it is run over a list of entries.\<close>

fun visit_entries :: "('k \<Rightarrow> 'v \<Rightarrow> 's \<Rightarrow> bool \<times> 's) \<Rightarrow> ('k \<times> 'v) list \<Rightarrow> 's \<Rightarrow> 's" where
  "visit_entries func [] s = s"
| "visit_entries func ((k, v) # es) s =
     (case func k v s of (ret, s') \<Rightarrow> if \<not> ret then s' else visit_entries func es s')"


section \<open>Doubly linked segments\<close>

definition hd_or :: "nat list \<Rightarrow> nat option \<Rightarrow> nat option" where
  "hd_or xs n = (case xs of [] \<Rightarrow> n | x # _ \<Rightarrow> Some x)"

definition last_or :: "nat option \<Rightarrow> nat list \<Rightarrow> nat option" where
  "last_or p xs = (if xs = [] then p else Some (last xs))"

lemma hd_or_simps [simp]: "hd_or [] n = n" "hd_or (x # xs) n = Some x"
  by (simp_all add: hd_or_def)

lemma last_or_simps [simp]: "last_or p [] = p" "last_or p (xs @ [x]) = Some x" "last_or p (x # xs) = last_or (Some x) xs"
  by (simp_all add: last_or_def)

lemma hd_or_append: "hd_or (xs @ ys) n = hd_or xs (hd_or ys n)"
  by (cases xs) auto

fun dll :: "(nat \<Rightarrow> ('k, 'v) ListNode) \<Rightarrow> nat option \<Rightarrow> nat list \<Rightarrow> nat option \<Rightarrow> bool" where
  "dll h p [] n \<longleftrightarrow> True"
| "dll h p (x # xs) n \<longleftrightarrow> ln_prev (h x) = p \<and> ln_next (h x) = hd_or xs n \<and> dll h (Some x) xs n"

lemma dll_append: "dll h p (xs @ ys) n \<longleftrightarrow> dll h p xs (hd_or ys n) \<and> dll h (last_or p xs) ys n"
  by (induction xs arbitrary: p) (auto simp: hd_or_append)

lemma dll_cong:
  "(\<And>x. x \<in> set xs \<Longrightarrow> ln_prev (h x) = ln_prev (h' x) \<and> ln_next (h x) = ln_next (h' x)) \<Longrightarrow>
   dll h p xs n = dll h' p xs n"
  by (induction xs arbitrary: p) auto

lemma ln_set [simp]:
  "ln_key (set_prev h p q x) = ln_key (h x)" "ln_value (set_prev h p q x) = ln_value (h x)"
  "ln_next (set_prev h p q x) = ln_next (h x)" "ln_prev (set_prev h p q x) = (if x = p then q else ln_prev (h x))"
  "ln_key (set_next h p q x) = ln_key (h x)" "ln_value (set_next h p q x) = ln_value (h x)"
  "ln_prev (set_next h p q x) = ln_prev (h x)" "ln_next (set_next h p q x) = (if x = p then q else ln_next (h x))"
  by (simp_all add: set_prev_def set_next_def)

lemma dll_set_outside [simp]:
  "x \<notin> set xs \<Longrightarrow> dll (set_prev h x q) p xs n = dll h p xs n"
  "x \<notin> set xs \<Longrightarrow> dll (set_next h x q) p xs n = dll h p xs n"
  by (rule dll_cong; auto)+

lemma dll_set_prev_hd: "dll h p (x # xs) n \<Longrightarrow> x \<notin> set xs \<Longrightarrow> dll (set_prev h x q) q (x # xs) n"
  by simp

lemma dll_set_next_last: "dll h p (xs @ [x]) n \<Longrightarrow> x \<notin> set xs \<Longrightarrow> dll (set_next h x q) p (xs @ [x]) q"
  by (simp add: dll_append)

text \<open>Unlinking a node that has a predecessor, and pushing a node in front.\<close>

lemma dll_unlink:
  assumes d: "dll h None (as @ x # bs) None" and dist: "distinct (as @ x # bs)" and ne: "as \<noteq> []"
  defines "h1 \<equiv> set_next h (last as) (hd_or bs None)"
  shows "dll (case bs of [] \<Rightarrow> h1 | b # _ \<Rightarrow> set_prev h1 b (Some (last as))) None (as @ bs) None"
proof -
  obtain as' a where as: "as = as' @ [a]" using ne by (metis append_butlast_last_id)
  have "dll h None as (Some x)" "dll h (Some x) bs None" using d by (simp_all add: dll_append)
  then have "dll h1 None as (hd_or bs None)" "dll h1 (Some x) bs None"
    using dist by (auto simp: as h1_def intro: dll_set_next_last)
  then show ?thesis
    using dist by (cases bs) (auto simp: as dll_append last_or_def)
qed

lemma dll_push_front:
  assumes "dll h None xs None" "x \<notin> set xs" "distinct xs"
  defines "h1 \<equiv> set_next (set_prev h x None) x (hd_or xs None)"
  shows "dll (case xs of [] \<Rightarrow> h1 | y # _ \<Rightarrow> set_prev h1 y (Some x)) None (x # xs) None"
  using assms(1-3) by (cases xs) (auto simp: h1_def)


section \<open>Invariant and abstraction\<close>

definition lru_inv :: "('k, 'v) LruCache \<Rightarrow> nat list \<Rightarrow> bool" where
  "lru_inv c xs \<longleftrightarrow>
     dll (lru_heap c) None xs None \<and> distinct xs \<and> lru_front c = hd_or xs None \<and> lru_tail c = last_or None xs \<and>
     set (searcher c) = set xs \<and> distinct (searcher c) \<and> (\<forall>x \<in> set xs. x < lru_fresh c) \<and>
     inj_on (\<lambda>x. ln_key (lru_heap c x)) (set xs)"

definition node_entries :: "(nat \<Rightarrow> ('k, 'v) ListNode) \<Rightarrow> nat list \<Rightarrow> ('k \<times> 'v) list" where
  "node_entries h xs = map (\<lambda>x. (ln_key (h x), ln_value (h x))) xs"

definition lru_abs :: "('k, 'v) LruCache \<Rightarrow> ('k \<times> 'v) list \<Rightarrow> bool" where
  "lru_abs c es \<longleftrightarrow> (\<exists>xs. lru_inv c xs \<and> es = node_entries (lru_heap c) xs)"

text \<open>The abstract operations: forget a key, and put an entry in front.\<close>

definition drop_key :: "'k \<Rightarrow> ('k \<times> 'v) list \<Rightarrow> ('k \<times> 'v) list" where
  "drop_key k es = filter (\<lambda>e. fst e \<noteq> k) es"

lemma node_entries_simps [simp]:
  "node_entries h [] = []" "node_entries h (x # xs) = (ln_key (h x), ln_value (h x)) # node_entries h xs"
  "node_entries h (xs @ ys) = node_entries h xs @ node_entries h ys"
  by (simp_all add: node_entries_def)

lemma node_entries_keys [simp]:
  "map fst (node_entries h xs) = map (\<lambda>x. ln_key (h x)) xs"
  "fst ` set (node_entries h xs) = (\<lambda>x. ln_key (h x)) ` set xs"
  by (simp_all add: node_entries_def comp_def image_image)

lemma lru_abs_distinct: "lru_abs c es \<Longrightarrow> distinct (map fst es)"
  by (clarsimp simp: lru_abs_def) (simp only: node_entries_keys distinct_map lru_inv_def)

lemma find_key_Some:
  "inj_on key (set ys) \<Longrightarrow> find (\<lambda>p. key p = k) ys = Some x \<longleftrightarrow> x \<in> set ys \<and> key x = k"
  by (induction ys) (auto simp: image_iff)

lemma searcher_find_Some:
  "lru_inv c xs \<Longrightarrow> searcher_find c k = Some x \<longleftrightarrow> x \<in> set xs \<and> ln_key (lru_heap c x) = k"
  unfolding searcher_find_def lru_inv_def by (subst find_key_Some) auto

lemma searcher_find_None:
  "lru_inv c xs \<Longrightarrow> searcher_find c k = None \<longleftrightarrow> k \<notin> fst ` set (node_entries (lru_heap c) xs)"
  by (auto simp: searcher_find_def find_None_iff lru_inv_def)

lemma node_entries_split:
  assumes "lru_inv c (as @ x # bs)" "ln_key (lru_heap c x) = k"
  shows "drop_key k (node_entries (lru_heap c) (as @ x # bs)) = node_entries (lru_heap c) (as @ bs)"
    and "map_of (node_entries (lru_heap c) (as @ x # bs)) k = Some (ln_value (lru_heap c x))"
proof -
  have ne: "ln_key (lru_heap c y) \<noteq> k" if "y \<in> set as \<union> set bs" for y
    using assms that by (auto simp: lru_inv_def inj_on_def)
  then show "drop_key k (node_entries (lru_heap c) (as @ x # bs)) = node_entries (lru_heap c) (as @ bs)"
    using assms(2) by (auto simp: drop_key_def node_entries_def filter_map comp_def filter_id_conv)
  show "map_of (node_entries (lru_heap c) (as @ x # bs)) k = Some (ln_value (lru_heap c x))"
  proof -
    from ne have "map_of (node_entries (lru_heap c) as) k = None"
      by (auto simp: map_of_eq_None_iff)
    with assms(2) show ?thesis by (simp add: node_entries_def map_add_def)
  qed
qed

lemma lru_touch_inv:
  assumes "lru_inv c (as @ x # bs)"
  shows "lru_inv (lru_touch c x) (x # as @ bs)"
    and "node_entries (lru_heap (lru_touch c x)) ys = node_entries (lru_heap c) ys"
    and "ln_value (lru_heap (lru_touch c x) x) = ln_value (lru_heap c x)"
proof -
  let ?h = "lru_heap c"
  have d: "dll ?h None (as @ x # bs) None" "distinct (as @ x # bs)" using assms by (auto simp: lru_inv_def)
  have prev: "ln_prev (?h x) = last_or None as" and nxt: "ln_next (?h x) = hd_or bs None"
    using d by (simp_all add: dll_append)
  show "node_entries (lru_heap (lru_touch c x)) ys = node_entries ?h ys"
    by (simp add: lru_touch_def node_entries_def Let_def split: option.splits)
  show "ln_value (lru_heap (lru_touch c x) x) = ln_value (lru_heap c x)"
    by (simp add: lru_touch_def Let_def split: option.splits)
  have keys: "ln_key (lru_heap (lru_touch c x) y) = ln_key (?h y)" for y
    by (simp add: lru_touch_def Let_def split: option.splits)
  show "lru_inv (lru_touch c x) (x # as @ bs)"
  proof (cases "as = []")
    case True
    with assms prev show ?thesis by (simp add: lru_touch_def)
  next
    case False
    define h1 where "h1 = set_next ?h (last as) (hd_or bs None)"
    define h2 where "h2 = (case bs of [] \<Rightarrow> h1 | b # _ \<Rightarrow> set_prev h1 b (Some (last as)))"
    define h3 where "h3 = set_next (set_prev h2 x None) x (hd_or (as @ bs) None)"
    have prev': "ln_prev (?h x) = Some (last as)" using prev False by (simp add: last_or_def)
    have xl: "x \<noteq> last as" using d False by (metis disjoint_iff distinct_append last_in_set list.set_intros(1))
    have "dll h2 None (as @ bs) None"
      unfolding h2_def h1_def by (rule dll_unlink [OF d False])
    then have *: "dll (case as @ bs of [] \<Rightarrow> h3 | y # _ \<Rightarrow> set_prev h3 y (Some x)) None (x # as @ bs) None"
      unfolding h3_def by (rule dll_push_front) (use d in auto)
    have front: "lru_front c = Some (hd as)" using assms False by (cases as) (auto simp: lru_inv_def)
    have n1: "ln_next (h1 x) = hd_or bs None" "ln_prev (h1 x) = Some (last as)"
      using xl nxt prev' by (simp_all add: h1_def)
    have heap: "lru_heap (lru_touch c x) = (case as @ bs of [] \<Rightarrow> h3 | y # _ \<Rightarrow> set_prev h3 y (Some x))"
      using prev' False front nxt n1
      by (cases bs; cases as) (simp_all add: lru_touch_def Let_def h1_def h2_def h3_def)
    have tail: "lru_tail (lru_touch c x) = last_or None (x # as @ bs)"
      using prev' False nxt n1 assms
      by (cases bs) (auto simp: lru_touch_def Let_def h1_def last_or_def lru_inv_def)
    have rest: "lru_front (lru_touch c x) = Some x" "searcher (lru_touch c x) = searcher c"
      "lru_fresh (lru_touch c x) = lru_fresh c"
      using prev' by (simp_all add: lru_touch_def Let_def split: option.splits prod.splits)
    have "set (x # as @ bs) = set (as @ x # bs)" by auto
    with assms have "inj_on (\<lambda>y. ln_key (?h y)) (set (x # as @ bs))"
      by (simp only: lru_inv_def)
    with * heap tail rest assms keys show ?thesis
      by (auto simp: lru_inv_def)
  qed
qed

lemma lru_remove_inv:
  assumes "lru_inv c (as @ x # bs)"
  shows "lru_inv (lru_remove c x) (as @ bs)"
    and "node_entries (lru_heap (lru_remove c x)) ys = node_entries (lru_heap c) ys"
proof -
  let ?h = "lru_heap c"
  have d: "dll ?h None (as @ x # bs) None" "distinct (as @ x # bs)" using assms by (auto simp: lru_inv_def)
  have prev: "ln_prev (?h x) = last_or None as" and nxt: "ln_next (?h x) = hd_or bs None"
    using d by (simp_all add: dll_append)
  show "node_entries (lru_heap (lru_remove c x)) ys = node_entries ?h ys"
    by (simp add: lru_remove_def node_entries_def Let_def split: option.splits)
  have keys: "ln_key (lru_heap (lru_remove c x) y) = ln_key (?h y)" for y
    by (simp add: lru_remove_def Let_def split: option.splits)
  have heap: "dll (lru_heap (lru_remove c x)) None (as @ bs) None"
  proof (cases "as = []")
    case True
    with d prev nxt show ?thesis
      by (cases bs) (auto simp: lru_remove_def Let_def)
  next
    case False
    then have prev': "ln_prev (?h x) = Some (last as)" using prev by (simp add: last_or_def)
    have xl: "x \<noteq> last as" using d False by (metis disjoint_iff distinct_append last_in_set list.set_intros(1))
    show ?thesis
      using dll_unlink [OF d False] prev' nxt xl
      by (cases bs) (simp_all add: lru_remove_def Let_def)
  qed
  have ends: "lru_front (lru_remove c x) = hd_or (as @ bs) None" "lru_tail (lru_remove c x) = last_or None (as @ bs)"
    using assms prev nxt d
    by (cases as; cases bs; auto simp: lru_remove_def Let_def lru_inv_def last_or_def split: option.splits if_splits)+
  have "searcher (lru_remove c x) = remove1 x (searcher c)" "lru_fresh (lru_remove c x) = lru_fresh c"
    by (simp_all add: lru_remove_def Let_def)
  with heap ends assms keys show "lru_inv (lru_remove c x) (as @ bs)"
    by (auto simp: lru_inv_def set_remove1_eq inj_on_def)
qed


section \<open>The operations refine operations on the list of entries\<close>

lemma lru_abs_obtain:
  assumes "lru_abs c es" "map_of es k = Some v"
  obtains as x bs where "lru_inv c (as @ x # bs)" "es = node_entries (lru_heap c) (as @ x # bs)"
    "ln_key (lru_heap c x) = k" "ln_value (lru_heap c x) = v" "searcher_find c k = Some x"
proof -
  obtain xs where xs: "lru_inv c xs" "es = node_entries (lru_heap c) xs"
    using assms(1) by (auto simp: lru_abs_def)
  with assms(2) obtain x where x: "x \<in> set xs" "ln_key (lru_heap c x) = k"
    by (auto dest!: map_of_SomeD simp: node_entries_def)
  then obtain as bs where sp: "xs = as @ x # bs" by (auto dest: split_list)
  have "ln_value (lru_heap c x) = v"
    using node_entries_split(2) [of c as x bs k] xs x sp assms(2) by simp
  then show ?thesis
    using that xs x sp searcher_find_Some [OF xs(1)] by blast
qed

lemma drop_key_fresh: "k \<notin> fst ` set es \<Longrightarrow> drop_key k es = es"
  by (auto simp: drop_key_def filter_id_conv)

lemma lru_empty_abs: "lru_abs LruCache_empty []"
  by (auto simp: lru_abs_def lru_inv_def LruCache_empty_def node_entries_def intro: exI [of _ "[]"])

lemma lru_destroy_abs: "lru_abs c es \<Longrightarrow> lru_abs (LruCache_destroy c) []"
  by (auto simp: lru_abs_def lru_inv_def LruCache_destroy_def node_entries_def intro: exI [of _ "[]"])

lemma lru_count_abs: "lru_abs c es \<Longrightarrow> LruCache_count c = length es"
  by (auto simp: lru_abs_def lru_inv_def LruCache_count_def node_entries_def simp flip: distinct_card)

lemma lru_get_miss: "lru_abs c es \<Longrightarrow> map_of es k = None \<Longrightarrow> LruCache_get c k = (None, c)"
  by (auto simp: lru_abs_def LruCache_get_def searcher_find_None map_of_eq_None_iff split: option.splits)
    (metis image_eqI option.distinct(1) searcher_find_None node_entries_keys(2))

lemma lru_get_hit:
  assumes "lru_abs c es" "map_of es k = Some v"
  shows "fst (LruCache_get c k) = Some v" and "lru_abs (snd (LruCache_get c k)) ((k, v) # drop_key k es)"
proof -
  obtain as x bs where x: "lru_inv c (as @ x # bs)" "es = node_entries (lru_heap c) (as @ x # bs)"
    "ln_key (lru_heap c x) = k" "ln_value (lru_heap c x) = v" "searcher_find c k = Some x"
    by (rule lru_abs_obtain [OF assms])
  note t = lru_touch_inv [OF x(1)]
  show "fst (LruCache_get c k) = Some v"
    using x t by (simp add: LruCache_get_def Let_def)
  have "node_entries (lru_heap (lru_touch c x)) (x # as @ bs) = (k, v) # drop_key k es"
    unfolding t(2) using x node_entries_split(1) [OF x(1,3)] by simp
  then show "lru_abs (snd (LruCache_get c k)) ((k, v) # drop_key k es)"
    using x(5) t(1) by (auto simp: LruCache_get_def Let_def lru_abs_def)
qed

lemma lru_inv_set_value:
  assumes "lru_inv c xs"
  shows "lru_inv (c\<lparr>lru_heap := (lru_heap c)(x := (lru_heap c x)\<lparr>ln_value := v\<rparr>)\<rparr>) xs"
proof -
  let ?h' = "(lru_heap c)(x := (lru_heap c x)\<lparr>ln_value := v\<rparr>)"
  have "dll ?h' None xs None = dll (lru_heap c) None xs None"
    by (rule dll_cong) simp
  moreover have "(\<lambda>y. ln_key (?h' y)) = (\<lambda>y. ln_key (lru_heap c y))" by auto
  ultimately show ?thesis using assms by (simp add: lru_inv_def)
qed

lemma lru_put_hit:
  assumes "lru_abs c es" "map_of es k = Some w"
  shows "lru_abs (LruCache_put c k v) ((k, v) # drop_key k es)"
proof -
  obtain as x bs where x: "lru_inv c (as @ x # bs)" "es = node_entries (lru_heap c) (as @ x # bs)"
    "ln_key (lru_heap c x) = k" "searcher_find c k = Some x"
    by (rule lru_abs_obtain [OF assms]) blast
  let ?c = "c\<lparr>lru_heap := (lru_heap c)(x := (lru_heap c x)\<lparr>ln_value := v\<rparr>)\<rparr>"
  note inv = lru_inv_set_value [OF x(1), of x v]
  note t = lru_touch_inv [OF inv]
  have "x \<notin> set (as @ bs)" using x(1) by (simp add: lru_inv_def)
  then have "node_entries (lru_heap ?c) (as @ bs) = node_entries (lru_heap c) (as @ bs)"
    by (auto simp: node_entries_def)
  then have "node_entries (lru_heap (lru_touch ?c x)) (x # as @ bs) = (k, v) # drop_key k es"
    unfolding t(2) using x node_entries_split(1) [OF x(1,3)] by simp
  with x(4) t(1) show ?thesis by (auto simp: LruCache_put_def lru_abs_def)
qed

lemma lru_push_inv:
  fixes c :: "('k, 'v) LruCache" and v :: 'v
  assumes "lru_inv c xs" "k \<notin> fst ` set (node_entries (lru_heap c) xs)"
  defines "x \<equiv> lru_fresh c"
  defines "c' \<equiv> c\<lparr>lru_heap := (lru_heap c)(x := \<lparr>ln_key = k, ln_value = v, ln_prev = None, ln_next = None\<rparr>), lru_fresh := Suc x\<rparr>"
  shows "lru_inv (lru_push c' x) (x # xs)"
    and "node_entries (lru_heap (lru_push c' x)) (x # xs) = (k, v) # node_entries (lru_heap c) xs"
proof -
  have x: "x \<notin> set xs" and dist: "distinct xs" using assms by (auto simp: lru_inv_def)
  have keep: "lru_heap c' y = lru_heap c y" if "y \<in> set xs" for y using that x by (auto simp: c'_def)
  have front: "lru_front c' = hd_or xs None" "lru_tail c' = last_or None xs" using assms(1) by (simp_all add: c'_def lru_inv_def)
  have "dll (lru_heap c') None xs None"
    using assms(1) keep dll_cong [of xs "lru_heap c'" "lru_heap c"] by (simp add: lru_inv_def)
  from dll_push_front [OF this x dist]
  have d: "dll (lru_heap (lru_push c' x)) None (x # xs) None"
    by (cases xs) (simp_all add: lru_push_def Let_def front)
  have kv: "ln_key (lru_heap (lru_push c' x) y) = ln_key (lru_heap c' y)"
    "ln_value (lru_heap (lru_push c' x) y) = ln_value (lru_heap c' y)" for y
    by (simp_all add: lru_push_def Let_def split: option.splits)
  have new: "ln_key (lru_heap c' x) = k" "ln_value (lru_heap c' x) = v" by (simp_all add: c'_def)
  have "inj_on (\<lambda>y. ln_key (lru_heap c' y)) (set xs)"
    using assms(1) keep by (simp add: lru_inv_def inj_on_def)
  moreover have "k \<notin> (\<lambda>y. ln_key (lru_heap c' y)) ` set xs"
    using assms(2) keep by (auto simp: image_iff)
  ultimately have "inj_on (\<lambda>y. ln_key (lru_heap (lru_push c' x) y)) (set (x # xs))"
    using x new by (simp add: kv)
  moreover have "lru_front (lru_push c' x) = Some x" "lru_tail (lru_push c' x) = last_or None (x # xs)"
    "searcher (lru_push c' x) = x # searcher c" "lru_fresh (lru_push c' x) = Suc x"
    using front by (auto simp: lru_push_def Let_def c'_def last_or_def split: option.splits)
  ultimately show "lru_inv (lru_push c' x) (x # xs)"
    using d x assms(1) by (auto simp: lru_inv_def x_def less_Suc_eq)
  show "node_entries (lru_heap (lru_push c' x)) (x # xs) = (k, v) # node_entries (lru_heap c) xs"
    using keep new by (simp add: node_entries_def kv)
qed

lemma lru_put_miss:
  assumes "lru_abs c es" "map_of es k = None"
  shows "lru_abs (LruCache_put c k v) ((k, v) # es)"
proof -
  obtain xs where xs: "lru_inv c xs" "es = node_entries (lru_heap c) xs"
    using assms(1) by (auto simp: lru_abs_def)
  have k: "k \<notin> fst ` set (node_entries (lru_heap c) xs)" using assms(2) xs(2) by (simp add: map_of_eq_None_iff)
  have "searcher_find c k = None" by (simp add: searcher_find_None [OF xs(1)] k [simplified])
  then show ?thesis
    unfolding LruCache_put_def lru_abs_def
    using lru_push_inv [OF xs(1) k, of v] xs(2) by (auto simp: Let_def intro!: exI)
qed

lemma lru_put_abs: "lru_abs c es \<Longrightarrow> lru_abs (LruCache_put c k v) ((k, v) # drop_key k es)"
  by (cases "map_of es k") (auto simp: lru_put_hit lru_put_miss drop_key_fresh map_of_eq_None_iff dest: lru_put_miss)

lemma lru_remove_abs:
  assumes "lru_abs c es"
  shows "lru_abs (LruCache_remove c k) (drop_key k es)"
proof (cases "map_of es k")
  case None
  then have "k \<notin> fst ` set es" by (simp add: map_of_eq_None_iff)
  with assms show ?thesis
    by (auto simp: lru_abs_def LruCache_remove_def drop_key_fresh searcher_find_None [THEN iffD2])
next
  case (Some v)
  obtain as x bs where x: "lru_inv c (as @ x # bs)" "es = node_entries (lru_heap c) (as @ x # bs)"
    "ln_key (lru_heap c x) = k" "searcher_find c k = Some x"
    by (rule lru_abs_obtain [OF assms Some]) blast
  with lru_remove_inv [OF x(1)] node_entries_split(1) [OF x(1,3)] show ?thesis
    by (auto simp: LruCache_remove_def lru_abs_def)
qed

lemma foreach_loop_dll:
  "dll (lru_heap c) p xs None \<Longrightarrow>
   foreach_loop func c (hd_or xs None) s = Some (visit_entries func (node_entries (lru_heap c) xs) s)"
proof (induction xs arbitrary: p s)
  case Nil
  then show ?case by (simp add: foreach_loop.simps node_entries_def)
next
  case (Cons x xs)
  from Cons.prems have "dll (lru_heap c) (Some x) xs None" "ln_next (lru_heap c x) = hd_or xs None" by simp_all
  with Cons.IH [of "Some x"] show ?case
    by (simp add: foreach_loop.simps [of _ _ "Some x"] split: prod.split)
qed

lemma foreach_reverse_loop_dll:
  "dll (lru_heap c) None xs n \<Longrightarrow>
   foreach_reverse_loop func c (last_or None xs) s = Some (visit_entries func (rev (node_entries (lru_heap c) xs)) s)"
proof (induction xs arbitrary: n s rule: rev_induct)
  case Nil
  then show ?case by (simp add: foreach_reverse_loop.simps node_entries_def)
next
  case (snoc x xs)
  from snoc.prems have "dll (lru_heap c) None xs (Some x)" "ln_prev (lru_heap c x) = last_or None xs"
    by (simp_all add: dll_append)
  with snoc.IH [of "Some x"] show ?case
    by (simp add: foreach_reverse_loop.simps [of _ _ "Some x"] split: prod.split)
qed

lemma lru_foreach_abs: "lru_abs c es \<Longrightarrow> LruCache_foreach func c s = Some (visit_entries func es s)"
  by (auto simp: lru_abs_def lru_inv_def LruCache_foreach_def foreach_loop_dll)

lemma lru_foreach_reverse_abs:
  "lru_abs c es \<Longrightarrow> LruCache_foreach_reverse func c s = Some (visit_entries func (rev es) s)"
  by (auto simp: lru_abs_def lru_inv_def LruCache_foreach_reverse_def foreach_reverse_loop_dll)


section \<open>The interface of the cache\<close>

locale lru_spec =
  fixes rel :: "'c \<Rightarrow> ('k \<times> 'v) list \<Rightarrow> bool"
    and create :: 'c
    and count :: "'c \<Rightarrow> nat"
    and get :: "'c \<Rightarrow> 'k \<Rightarrow> 'v option \<times> 'c"
    and put :: "'c \<Rightarrow> 'k \<Rightarrow> 'v \<Rightarrow> 'c"
    and remove :: "'c \<Rightarrow> 'k \<Rightarrow> 'c"
  assumes rel_distinct: "rel c es \<Longrightarrow> distinct (map fst es)"
    and rel_create: "rel create []"
    and rel_count: "rel c es \<Longrightarrow> count c = length es"
    and rel_get_miss: "rel c es \<Longrightarrow> map_of es k = None \<Longrightarrow> get c k = (None, c)"
    and rel_get_value: "rel c es \<Longrightarrow> map_of es k = Some v \<Longrightarrow> fst (get c k) = Some v"
    and rel_get_hit: "rel c es \<Longrightarrow> map_of es k = Some v \<Longrightarrow> rel (snd (get c k)) ((k, v) # drop_key k es)"
    and rel_put: "rel c es \<Longrightarrow> rel (put c k v) ((k, v) # drop_key k es)"
    and rel_remove: "rel c es \<Longrightarrow> rel (remove c k) (drop_key k es)"
begin

lemma get_lookup: "rel c es \<Longrightarrow> fst (get c k) = map_of es k"
  by (cases "map_of es k") (auto simp: rel_get_miss rel_get_value)

lemma map_of_drop_key: "map_of (drop_key k es) = (map_of es)(k := None)"
  by (induction es) (auto simp: drop_key_def fun_eq_iff)

lemma set_promote: "rel c es \<Longrightarrow> map_of es k = Some v \<Longrightarrow> set ((k, v) # drop_key k es) = set es"
  using rel_distinct [of c es] by (auto simp: drop_key_def dest: map_of_SomeD eq_key_imp_eq_value)

text \<open>A lookup reorders the entries and changes none of them.\<close>

lemma get_keeps:
  assumes "rel c es"
  obtains es' where "rel (snd (get c k)) es'" "map_of es' = map_of es" "set es' = set es" "length es' = length es"
proof (cases "map_of es k")
  case None
  then show ?thesis using that [of es] assms by (simp add: rel_get_miss)
next
  case (Some v)
  note hit = rel_get_hit [OF assms Some]
  have "length ((k, v) # drop_key k es) = length es"
    using set_promote [OF assms Some] rel_distinct [OF assms] rel_distinct [OF hit]
    by (metis distinct_card distinct_map)
  then show ?thesis
    using that [OF hit] Some set_promote [OF assms Some] by (auto simp: map_of_drop_key fun_upd_idem)
qed

lemma lookup_put: "rel c es \<Longrightarrow> fst (get (put c k v) k') = (if k' = k then Some v else fst (get c k'))"
  by (simp add: get_lookup [OF rel_put] get_lookup map_of_drop_key)

lemma lookup_remove: "rel c es \<Longrightarrow> fst (get (remove c k) k') = (if k' = k then None else fst (get c k'))"
  by (simp add: get_lookup [OF rel_remove] get_lookup map_of_drop_key)

end

interpretation lru: lru_spec lru_abs LruCache_empty LruCache_count LruCache_get LruCache_put LruCache_remove
  by unfold_locales
    (simp_all add: lru_abs_distinct lru_empty_abs lru_count_abs lru_get_miss lru_get_hit lru_put_abs lru_remove_abs)


section \<open>Properties\<close>

datatype ('k, 'v) lru_op = OpGet 'k | OpPut 'k 'v | OpRemove 'k

fun lru_exec :: "('k, 'v) LruCache \<Rightarrow> ('k, 'v) lru_op list \<Rightarrow> 'v option list \<times> ('k, 'v) LruCache" where
  "lru_exec c [] = ([], c)"
| "lru_exec c (OpGet k # ops) =
     (let (r, c) = LruCache_get c k; (rs, c) = lru_exec c ops in (r # rs, c))"
| "lru_exec c (OpPut k v # ops) = lru_exec (LruCache_put c k v) ops"
| "lru_exec c (OpRemove k # ops) = lru_exec (LruCache_remove c k) ops"

text \<open>The same operations on a plain list of entries, most recently used first.\<close>

fun lru_list_exec :: "('k \<times> 'v) list \<Rightarrow> ('k, 'v) lru_op list \<Rightarrow> 'v option list \<times> ('k \<times> 'v) list" where
  "lru_list_exec es [] = ([], es)"
| "lru_list_exec es (OpGet k # ops) =
     (let r = map_of es k;
          es = (case r of None \<Rightarrow> es | Some v \<Rightarrow> (k, v) # drop_key k es);
          (rs, es) = lru_list_exec es ops in (r # rs, es))"
| "lru_list_exec es (OpPut k v # ops) = lru_list_exec ((k, v) # drop_key k es) ops"
| "lru_list_exec es (OpRemove k # ops) = lru_list_exec (drop_key k es) ops"

lemma lru_exec_refines:
  "lru_abs c es \<Longrightarrow> fst (lru_exec c ops) = fst (lru_list_exec es ops) \<and>
     lru_abs (snd (lru_exec c ops)) (snd (lru_list_exec es ops))"
proof (induction c ops arbitrary: es rule: lru_exec.induct)
  case (2 c k ops)
  show ?case
  proof (cases "map_of es k")
    case None
    with 2 lru.rel_get_miss [OF 2(2) None] show ?thesis by (auto simp: split_beta)
  next
    case (Some v)
    from "2.IH" [OF prod.collapse refl lru.rel_get_hit [OF "2.prems" Some]] show ?thesis
      using lru.rel_get_value [OF "2.prems" Some] Some by (simp add: split_beta Let_def)
  qed
qed (auto simp: lru.rel_put lru.rel_remove)

text \<open>
  C17: the pointer-based cache implements an LRU list. After any sequence of lookups, insertions and
  removals from the empty cache, the lookups have returned what the list would return, walking the
  \<open>next_\<close> pointers from the front visits exactly the list's entries in order of last use, and walking
  the \<open>prev_\<close> pointers from the tail visits them in the opposite order; both walks end.
\<close>

theorem lru_cache_refines_list:
  fixes ops :: "('k, 'v) lru_op list" and func :: "'k \<Rightarrow> 'v \<Rightarrow> 's \<Rightarrow> bool \<times> 's"
  shows "let (rs, c) = lru_exec LruCache_empty ops; (rs', es) = lru_list_exec [] ops in
    rs = rs' \<and> LruCache_count c = length es \<and> distinct (map fst es) \<and>
    LruCache_foreach func c s = Some (visit_entries func es s) \<and>
    LruCache_foreach_reverse func c s = Some (visit_entries func (rev es) s)"
proof -
  obtain rs c rs' es where e: "lru_exec LruCache_empty ops = (rs, c)" "lru_list_exec [] ops = (rs', es)"
    by fastforce
  with lru_exec_refines [OF lru_empty_abs, of ops] have "rs = rs'" and "lru_abs c es" by simp_all
  with e show ?thesis
    by (simp add: lru_foreach_abs lru_foreach_reverse_abs lru.rel_count lru.rel_distinct del: distinct_map)
qed

end
