(* ===== verification/BufferPool.thy ===== *)
theory BufferPool
  imports Bitmap LruCache "HOL-Library.Monad_Syntax"
begin

text \<open>
  \<^verbatim>\<open>src/observer/storage/buffer\<close>: pages, page frames, the frame manager with its LRU cache and
  fixed-size frame pool, the buffer pool of one file, and the manager of all open files.

  \<^item> A \<open>Frame*\<close> is an address in the frame pool (\<open>fm_frame\<close>).
  \<^item> A file is its number of pages and their contents. Reading a page past the end of the file fails.
    A write fails where \<open>sys_writable\<close> says so: that field is the operating system's choice and no
    operation changes it.
  \<^item> The code of the default build is modelled, in which mutexes and latches do nothing and \<open>ASSERT\<close>
    only evaluates its argument. \<open>Frame::access\<close> stores a time stamp nothing reads and is left out.
  \<^item> A function whose C++ original can loop for ever returns an option; \<^const>\<open>None\<close> means that it
    does not return. A function that returns an \<open>RC\<close> and an object returns \<open>Inl rc\<close> on failure and
    \<open>Inr\<close> of the object on success.
\<close>

section \<open>Pages, frames, files\<close>

record Page =
  pg_num :: PageNum
  pg_lsn :: int
  pg_data :: mem

definition zero_page :: Page where
  "zero_page = \<lparr>pg_num = 0, pg_lsn = 0, pg_data = (\<lambda>_. 0)\<rparr>"

definition BP_PAGE_SIZE :: nat where "BP_PAGE_SIZE = 524288"
definition BP_PAGE_DATA_SIZE :: nat where "BP_PAGE_DATA_SIZE = BP_PAGE_SIZE - 4 - 4"
definition BP_HEADER_PAGE :: PageNum where "BP_HEADER_PAGE = 0"

text \<open>\<open>BPFileHeader\<close>: the overlay of the data of page 0. Its bitmap starts behind the two counters.\<close>

definition MAX_PAGE_NUM :: nat where "MAX_PAGE_NUM = (BP_PAGE_DATA_SIZE - 4 - 4) * 8"

definition hdr_page_count :: "mem \<Rightarrow> int" where "hdr_page_count m = load_i32 m 0"
definition hdr_allocated_pages :: "mem \<Rightarrow> int" where "hdr_allocated_pages m = load_i32 m 4"
definition hdr_bitmap :: "mem \<Rightarrow> Bitmap" where
  "hdr_bitmap m = \<lparr>bm_base = 8, bm_size = nat (hdr_page_count m)\<rparr>"

record FrameId =
  fid_fd :: int
  fid_page :: PageNum

record Frame =
  f_dirty :: bool
  f_pin :: int
  f_fd :: int
  f_page :: Page

definition frame_id :: "Frame \<Rightarrow> FrameId" where
  "frame_id f = \<lparr>fid_fd = f_fd f, fid_page = pg_num (f_page f)\<rparr>"

definition can_purge :: "Frame \<Rightarrow> bool" where
  "can_purge f \<longleftrightarrow> f_pin f = 0"

record File =
  file_len :: nat
  file_page :: "nat \<Rightarrow> Page"

record BPFrameManager =
  fm_frame :: "nat \<Rightarrow> Frame"
  fm_cache :: "(FrameId, nat) LruCache"
  fm_used :: "nat list"
  fm_frees :: "nat list"

record DiskBufferPool =
  bp_file_name :: string
  bp_fd :: int
  bp_hdr :: nat

record Sys =
  sys_fm :: BPFrameManager
  sys_fd :: "int \<Rightarrow> string option"
  sys_file :: "string \<Rightarrow> File option"
  sys_writable :: "string \<Rightarrow> nat \<Rightarrow> bool"
  buffer_pools :: "(string \<times> DiskBufferPool) list"
  fd_buffer_pools :: "(int \<times> DiskBufferPool) list"

definition fm_upd :: "BPFrameManager \<Rightarrow> nat \<Rightarrow> (Frame \<Rightarrow> Frame) \<Rightarrow> BPFrameManager" where
  "fm_upd fm p g = fm\<lparr>fm_frame := (fm_frame fm)(p := g (fm_frame fm p))\<rparr>"

abbreviation frame_of :: "Sys \<Rightarrow> nat \<Rightarrow> Frame" where
  "frame_of s p \<equiv> fm_frame (sys_fm s) p"

definition frame_upd :: "Sys \<Rightarrow> nat \<Rightarrow> (Frame \<Rightarrow> Frame) \<Rightarrow> Sys" where
  "frame_upd s p g = s\<lparr>sys_fm := fm_upd (sys_fm s) p g\<rparr>"

abbreviation frame_data :: "Sys \<Rightarrow> nat \<Rightarrow> mem" where
  "frame_data s p \<equiv> pg_data (f_page (frame_of s p))"

definition set_data :: "mem \<Rightarrow> Frame \<Rightarrow> Frame" where
  "set_data m f = f\<lparr>f_page := (f_page f)\<lparr>pg_data := m\<rparr>\<rparr>"

definition mark_dirty :: "Frame \<Rightarrow> Frame" where
  "mark_dirty f = f\<lparr>f_dirty := True\<rparr>"

definition clear_dirty :: "Frame \<Rightarrow> Frame" where
  "clear_dirty f = f\<lparr>f_dirty := False\<rparr>"

definition frame_pin :: "Frame \<Rightarrow> Frame" where
  "frame_pin f = f\<lparr>f_pin := f_pin f + 1\<rparr>"

definition frame_unpin :: "Frame \<Rightarrow> Frame" where
  "frame_unpin f = f\<lparr>f_pin := f_pin f - 1\<rparr>"

definition clear_page :: "Frame \<Rightarrow> Frame" where
  "clear_page f = f\<lparr>f_page := zero_page\<rparr>"

definition set_page_num :: "PageNum \<Rightarrow> Frame \<Rightarrow> Frame" where
  "set_page_num n f = f\<lparr>f_page := (f_page f)\<lparr>pg_num := n\<rparr>\<rparr>"

definition set_file_desc :: "int \<Rightarrow> Frame \<Rightarrow> Frame" where
  "set_file_desc fd f = f\<lparr>f_fd := fd\<rparr>"


section \<open>The frame pool\<close>

text \<open>\<open>MemPoolSimple<Frame>\<close>, which the frame manager initialises as not extensible.\<close>

definition new_frame :: Frame where
  "new_frame = \<lparr>f_dirty = False, f_pin = 0, f_fd = -1, f_page = zero_page\<rparr>"

definition BPFrameManager_init :: "int \<Rightarrow> RC \<times> BPFrameManager" where
  "BPFrameManager_init pool_num =
     (let fm = \<lparr>fm_frame = (\<lambda>_. new_frame), fm_cache = LruCache_empty, fm_used = [], fm_frees = []\<rparr>
      in if pool_num \<le> 0 then (NOMEM, fm)
         else (SUCCESS, fm\<lparr>fm_frees := [0 ..< nat pool_num * 128]\<rparr>))"

definition MemPool_alloc :: "BPFrameManager \<Rightarrow> nat option \<times> BPFrameManager" where
  "MemPool_alloc fm =
     (case fm_frees fm of
        [] \<Rightarrow> (None, fm)
      | p # ps \<Rightarrow> (Some p, fm\<lparr>fm_frees := ps, fm_used := p # fm_used fm\<rparr>))"

definition MemPool_free :: "BPFrameManager \<Rightarrow> nat \<Rightarrow> BPFrameManager" where
  "MemPool_free fm p =
     (if p \<in> set (fm_used fm) then fm\<lparr>fm_used := remove1 p (fm_used fm), fm_frees := fm_frees fm @ [p]\<rparr> else fm)"


section \<open>The frame manager\<close>

definition get_internal :: "BPFrameManager \<Rightarrow> FrameId \<Rightarrow> nat option \<times> BPFrameManager" where
  "get_internal fm fid =
     (let (r, c) = LruCache_get (fm_cache fm) fid; fm = fm\<lparr>fm_cache := c\<rparr>
      in case r of None \<Rightarrow> (None, fm) | Some p \<Rightarrow> (Some p, fm_upd fm p frame_pin))"

definition BPFrameManager_get :: "BPFrameManager \<Rightarrow> int \<Rightarrow> PageNum \<Rightarrow> nat option \<times> BPFrameManager" where
  "BPFrameManager_get fm fd n = get_internal fm \<lparr>fid_fd = fd, fid_page = n\<rparr>"

definition BPFrameManager_alloc :: "BPFrameManager \<Rightarrow> int \<Rightarrow> PageNum \<Rightarrow> nat option \<times> BPFrameManager" where
  "BPFrameManager_alloc fm fd n =
     (let fid = \<lparr>fid_fd = fd, fid_page = n\<rparr> in
      case get_internal fm fid of
        (Some p, fm) \<Rightarrow> (Some p, fm)
      | (None, fm) \<Rightarrow>
          (case MemPool_alloc fm of
             (None, fm) \<Rightarrow> (None, fm)
           | (Some p, fm) \<Rightarrow>
               let fm = fm_upd fm p (set_page_num n);
                   fm = fm_upd fm p frame_pin
               in (Some p, fm\<lparr>fm_cache := LruCache_put (fm_cache fm) fid p\<rparr>)))"

definition free_internal :: "BPFrameManager \<Rightarrow> FrameId \<Rightarrow> nat \<Rightarrow> BPFrameManager" where
  "free_internal fm fid p =
     (let (_, c) = LruCache_get (fm_cache fm) fid;
          fm = fm_upd (fm\<lparr>fm_cache := c\<rparr>) p frame_unpin;
          fm = fm\<lparr>fm_cache := LruCache_remove (fm_cache fm) fid\<rparr>
      in MemPool_free fm p)"

definition BPFrameManager_free :: "BPFrameManager \<Rightarrow> int \<Rightarrow> PageNum \<Rightarrow> nat \<Rightarrow> BPFrameManager" where
  "BPFrameManager_free fm fd n p = free_internal fm \<lparr>fid_fd = fd, fid_page = n\<rparr> p"

text \<open>The callbacks of \<open>find_list\<close> and \<open>purge_frames\<close>: they pin the frames they collect.\<close>

definition fetcher :: "int \<Rightarrow> FrameId \<Rightarrow> nat \<Rightarrow> nat list \<times> (nat \<Rightarrow> Frame) \<Rightarrow> bool \<times> nat list \<times> (nat \<Rightarrow> Frame)" where
  "fetcher fd fid p = (\<lambda>(ps, fr).
     if fd = fid_fd fid then (True, ps @ [p], fr(p := frame_pin (fr p))) else (True, ps, fr))"

definition find_list :: "BPFrameManager \<Rightarrow> int \<Rightarrow> (nat list \<times> BPFrameManager) option" where
  "find_list fm fd =
     do { (ps, fr) \<leftarrow> LruCache_foreach (fetcher fd) (fm_cache fm) ([], fm_frame fm);
          Some (ps, fm\<lparr>fm_frame := fr\<rparr>) }"

definition purge_finder :: "nat \<Rightarrow> FrameId \<Rightarrow> nat \<Rightarrow> nat list \<times> (nat \<Rightarrow> Frame) \<Rightarrow> bool \<times> nat list \<times> (nat \<Rightarrow> Frame)" where
  "purge_finder count fid p = (\<lambda>(ps, fr).
     if can_purge (fr p) then
       (let ps = ps @ [p] in (length ps < count, ps, fr(p := frame_pin (fr p))))
     else (True, ps, fr))"

definition BPFrameManager_cleanup :: "BPFrameManager \<Rightarrow> RC \<times> BPFrameManager" where
  "BPFrameManager_cleanup fm =
     (if LruCache_count (fm_cache fm) > 0 then (INTERNAL, fm)
      else (SUCCESS, fm\<lparr>fm_cache := LruCache_destroy (fm_cache fm)\<rparr>))"

fun purge_all :: "(Sys \<Rightarrow> nat \<Rightarrow> RC \<times> Sys) \<Rightarrow> Sys \<Rightarrow> nat list \<Rightarrow> nat \<Rightarrow> nat \<times> Sys" where
  "purge_all purger s [] freed = (freed, s)"
| "purge_all purger s (p # ps) freed =
     (let (rc, s) = purger s p in
      if rc = SUCCESS
      then purge_all purger (s\<lparr>sys_fm := free_internal (sys_fm s) (frame_id (frame_of s p)) p\<rparr>) ps (Suc freed)
      else purge_all purger (frame_upd s p frame_unpin) ps freed)"

definition purge_frames :: "Sys \<Rightarrow> int \<Rightarrow> (Sys \<Rightarrow> nat \<Rightarrow> RC \<times> Sys) \<Rightarrow> (nat \<times> Sys) option" where
  "purge_frames s count purger =
     do { let count = (if count \<le> 0 then 1 else count);
          (ps, fr) \<leftarrow> LruCache_foreach_reverse (purge_finder (nat count)) (fm_cache (sys_fm s)) ([], fm_frame (sys_fm s));
          Some (purge_all purger (s\<lparr>sys_fm := (sys_fm s)\<lparr>fm_frame := fr\<rparr>\<rparr>) ps 0) }"


section \<open>Reading and writing pages of a file\<close>

text \<open>\<open>lseek\<close> and \<open>writen\<close>/\<open>readn\<close> of one page on an open file descriptor.\<close>

definition write_file_page :: "Sys \<Rightarrow> int \<Rightarrow> PageNum \<Rightarrow> Page \<Rightarrow> Sys option" where
  "write_file_page s fd n page =
     (case sys_fd s fd of
        None \<Rightarrow> None
      | Some name \<Rightarrow>
          (case sys_file s name of
             None \<Rightarrow> None
           | Some f \<Rightarrow>
               if sys_writable s name n
               then Some (s\<lparr>sys_file := (sys_file s)(name \<mapsto>
                      \<lparr>file_len = max (file_len f) (Suc n), file_page = (file_page f)(n := page)\<rparr>)\<rparr>)
               else None))"

definition read_file_page :: "Sys \<Rightarrow> int \<Rightarrow> PageNum \<Rightarrow> Page option" where
  "read_file_page s fd n =
     (case sys_fd s fd of
        None \<Rightarrow> None
      | Some name \<Rightarrow>
          (case sys_file s name of
             None \<Rightarrow> None
           | Some f \<Rightarrow> if n < file_len f then Some (file_page f n) else None))"


section \<open>The buffer pool of one file\<close>

definition flush_page_internal :: "Sys \<Rightarrow> DiskBufferPool \<Rightarrow> nat \<Rightarrow> RC \<times> Sys" where
  "flush_page_internal s bp p =
     (let page = f_page (frame_of s p) in
      case write_file_page s (bp_fd bp) (pg_num page) page of
        None \<Rightarrow> (IOERR_WRITE, s)
      | Some s \<Rightarrow> (SUCCESS, frame_upd s p clear_dirty))"

definition flush_page :: "Sys \<Rightarrow> DiskBufferPool \<Rightarrow> nat \<Rightarrow> RC \<times> Sys" where
  "flush_page s bp p = flush_page_internal s bp p"

definition BufferPoolManager_flush_page :: "Sys \<Rightarrow> nat \<Rightarrow> RC \<times> Sys" where
  "BufferPoolManager_flush_page s p =
     (case map_of (fd_buffer_pools s) (f_fd (frame_of s p)) of
        None \<Rightarrow> (INTERNAL, s)
      | Some bp \<Rightarrow> flush_page s bp p)"

definition load_page :: "Sys \<Rightarrow> DiskBufferPool \<Rightarrow> PageNum \<Rightarrow> nat \<Rightarrow> RC \<times> Sys" where
  "load_page s bp n p =
     (case read_file_page s (bp_fd bp) n of
        None \<Rightarrow> (IOERR_READ, s)
      | Some page \<Rightarrow> (SUCCESS, frame_upd s p (\<lambda>f. f\<lparr>f_page := page\<rparr>)))"

definition frame_purger :: "DiskBufferPool \<Rightarrow> Sys \<Rightarrow> nat \<Rightarrow> RC \<times> Sys" where
  "frame_purger bp s p =
     (if \<not> f_dirty (frame_of s p) then (SUCCESS, s)
      else if f_fd (frame_of s p) = bp_fd bp then flush_page_internal s bp p
      else BufferPoolManager_flush_page s p)"

partial_function (option) allocate_frame :: "Sys \<Rightarrow> DiskBufferPool \<Rightarrow> PageNum \<Rightarrow> (nat \<times> Sys) option" where
  "allocate_frame s bp n =
     (case BPFrameManager_alloc (sys_fm s) (bp_fd bp) n of
        (Some p, fm) \<Rightarrow> Some (p, s\<lparr>sys_fm := fm\<rparr>)
      | (None, fm) \<Rightarrow>
          do { (_, s) \<leftarrow> purge_frames (s\<lparr>sys_fm := fm\<rparr>) 1 (frame_purger bp);
               allocate_frame s bp n })"

definition purge_frame :: "Sys \<Rightarrow> DiskBufferPool \<Rightarrow> PageNum \<Rightarrow> nat \<Rightarrow> RC \<times> Sys" where
  "purge_frame s bp n buf =
     (if f_pin (frame_of s buf) \<noteq> 1 then (LOCKED_UNLOCK, s)
      else
        let (rc, s) = (if f_dirty (frame_of s buf) then flush_page_internal s bp buf else (SUCCESS, s))
        in if rc \<noteq> SUCCESS then (rc, s)
           else (SUCCESS, s\<lparr>sys_fm := BPFrameManager_free (sys_fm s) (bp_fd bp) n buf\<rparr>))"

definition get_this_page :: "Sys \<Rightarrow> DiskBufferPool \<Rightarrow> PageNum \<Rightarrow> ((RC + nat) \<times> Sys) option" where
  "get_this_page s bp n =
     (case BPFrameManager_get (sys_fm s) (bp_fd bp) n of
        (Some p, fm) \<Rightarrow> Some (Inr p, s\<lparr>sys_fm := fm\<rparr>)
      | (None, fm) \<Rightarrow>
          do { (p, s) \<leftarrow> allocate_frame (s\<lparr>sys_fm := fm\<rparr>) bp n;
               let s = frame_upd s p (set_file_desc (bp_fd bp));
               let (rc, s) = load_page s bp n p;
               if rc \<noteq> SUCCESS
               then (let (_, s) = purge_frame s bp n p in Some (Inl rc, s))
               else Some (Inr p, s) })"

text \<open>The loop of \<open>allocate_page\<close> over the bits of the header's bitmap.\<close>

function find_unallocated :: "mem \<Rightarrow> nat \<Rightarrow> nat \<Rightarrow> nat option" where
  "find_unallocated m i cnt =
     (if i < cnt then if \<not> Bitmap_get_bit m (hdr_bitmap m) i then Some i else find_unallocated m (Suc i) cnt
      else None)"
  by pat_completeness auto
termination
  by (relation "measure (\<lambda>(_, i, cnt). cnt - i)") auto

declare find_unallocated.simps [simp del]

text \<open>A change of the data of a frame, with the \<open>mark_dirty\<close> that goes with it.\<close>

definition frame_write :: "Sys \<Rightarrow> nat \<Rightarrow> (mem \<Rightarrow> mem) \<Rightarrow> Sys" where
  "frame_write s p g = frame_upd s p (\<lambda>f. mark_dirty (set_data (g (pg_data (f_page f))) f))"

definition hdr_upd :: "Sys \<Rightarrow> DiskBufferPool \<Rightarrow> (mem \<Rightarrow> mem) \<Rightarrow> Sys" where
  "hdr_upd s bp g = frame_write s (bp_hdr bp) g"

definition alloc_existing :: "nat \<Rightarrow> mem \<Rightarrow> mem" where
  "alloc_existing i m =
     Bitmap_set_bit (store_i32 m 4 (hdr_allocated_pages m + 1)) (hdr_bitmap m) i"

definition alloc_new :: "nat \<Rightarrow> mem \<Rightarrow> mem" where
  "alloc_new n m =
     Bitmap_set_bit
       (store_i32 (store_i32 m 4 (hdr_allocated_pages m + 1)) 0 (hdr_page_count m + 1)) (hdr_bitmap m) n"

text \<open>The result of the flush that extends the file is ignored.\<close>

definition extend_file :: "Sys \<Rightarrow> DiskBufferPool \<Rightarrow> nat \<Rightarrow> nat \<Rightarrow> Sys" where
  "extend_file s bp n p =
     (let s = hdr_upd s bp (alloc_new n);
          s = frame_upd s p (set_file_desc (bp_fd bp));
          s = frame_upd s p clear_page;
          s = frame_upd s p (set_page_num (nat (hdr_page_count (frame_data s (bp_hdr bp))) - 1))
      in snd (flush_page_internal s bp p))"

definition allocate_page :: "Sys \<Rightarrow> DiskBufferPool \<Rightarrow> ((RC + nat) \<times> Sys) option" where
  "allocate_page s bp =
     (let m = frame_data s (bp_hdr bp);
          free = (if hdr_allocated_pages m < hdr_page_count m
                  then find_unallocated m 0 (nat (hdr_page_count m)) else None)
      in case free of
        Some i \<Rightarrow> get_this_page (hdr_upd s bp (alloc_existing i)) bp i
      | None \<Rightarrow>
          if hdr_page_count m \<ge> int MAX_PAGE_NUM then Some (Inl BUFFERPOOL_NOBUF, s)
          else
            let n = nat (hdr_page_count m) in
            do { (p, s) \<leftarrow> allocate_frame s bp n; Some (Inr p, extend_file s bp n p) })"

definition dispose_hdr :: "nat \<Rightarrow> mem \<Rightarrow> mem" where
  "dispose_hdr n m = Bitmap_clear_bit (store_i32 m 4 (hdr_allocated_pages m - 1)) (hdr_bitmap m) n"

definition dispose_page :: "Sys \<Rightarrow> DiskBufferPool \<Rightarrow> PageNum \<Rightarrow> RC \<times> Sys" where
  "dispose_page s bp n =
     (case BPFrameManager_get (sys_fm s) (bp_fd bp) n of
        (None, fm) \<Rightarrow> (NOTFOUND, s\<lparr>sys_fm := fm\<rparr>)
      | (Some p, fm) \<Rightarrow>
          let s = s\<lparr>sys_fm := BPFrameManager_free fm (bp_fd bp) n p\<rparr>
          in (SUCCESS, hdr_upd s bp (dispose_hdr n)))"

definition unpin_page :: "Sys \<Rightarrow> nat \<Rightarrow> RC \<times> Sys" where
  "unpin_page s p = (SUCCESS, frame_upd s p frame_unpin)"

definition purge_page :: "Sys \<Rightarrow> DiskBufferPool \<Rightarrow> PageNum \<Rightarrow> RC \<times> Sys" where
  "purge_page s bp n =
     (case BPFrameManager_get (sys_fm s) (bp_fd bp) n of
        (Some p, fm) \<Rightarrow> purge_frame (s\<lparr>sys_fm := fm\<rparr>) bp n p
      | (None, fm) \<Rightarrow> (SUCCESS, s\<lparr>sys_fm := fm\<rparr>))"

fun purge_list :: "Sys \<Rightarrow> DiskBufferPool \<Rightarrow> nat list \<Rightarrow> Sys" where
  "purge_list s bp [] = s"
| "purge_list s bp (p # ps) =
     (let (_, s) = purge_frame s bp (pg_num (f_page (frame_of s p))) p in purge_list s bp ps)"

definition purge_all_pages :: "Sys \<Rightarrow> DiskBufferPool \<Rightarrow> (RC \<times> Sys) option" where
  "purge_all_pages s bp =
     do { (used, fm) \<leftarrow> find_list (sys_fm s) (bp_fd bp);
          Some (SUCCESS, purge_list (s\<lparr>sys_fm := fm\<rparr>) bp used) }"

fun unpin_list :: "Sys \<Rightarrow> nat list \<Rightarrow> Sys" where
  "unpin_list s [] = s"
| "unpin_list s (p # ps) = unpin_list (frame_upd s p frame_unpin) ps"

text \<open>Apart from its warnings, \<open>check_all_pages_unpinned\<close> pins the frames and unpins them again.\<close>

definition check_all_pages_unpinned :: "Sys \<Rightarrow> DiskBufferPool \<Rightarrow> (RC \<times> Sys) option" where
  "check_all_pages_unpinned s bp =
     do { (used, fm) \<leftarrow> find_list (sys_fm s) (bp_fd bp);
          Some (SUCCESS, unpin_list (s\<lparr>sys_fm := fm\<rparr>) used) }"

fun flush_list :: "Sys \<Rightarrow> DiskBufferPool \<Rightarrow> nat list \<Rightarrow> RC \<times> Sys" where
  "flush_list s bp [] = (SUCCESS, s)"
| "flush_list s bp (p # ps) =
     (let (rc, s) = flush_page s bp p in if rc \<noteq> SUCCESS then (rc, s) else flush_list s bp ps)"

definition flush_all_pages :: "Sys \<Rightarrow> DiskBufferPool \<Rightarrow> (RC \<times> Sys) option" where
  "flush_all_pages s bp =
     do { (used, fm) \<leftarrow> find_list (sys_fm s) (bp_fd bp);
          Some (flush_list (s\<lparr>sys_fm := fm\<rparr>) bp used) }"

definition recover_page :: "Sys \<Rightarrow> DiskBufferPool \<Rightarrow> PageNum \<Rightarrow> RC \<times> Sys" where
  "recover_page s bp n =
     (let m = frame_data s (bp_hdr bp) in
      if \<not> Bitmap_get_bit m (hdr_bitmap m) n then
        (SUCCESS, hdr_upd s bp (\<lambda>m.
           let m = Bitmap_set_bit m (hdr_bitmap m) n;
               m = store_i32 m 4 (hdr_allocated_pages m + 1)
           in store_i32 m 0 (hdr_page_count m + 1)))
      else (SUCCESS, s))"

definition check_page_num :: "Sys \<Rightarrow> DiskBufferPool \<Rightarrow> PageNum \<Rightarrow> RC" where
  "check_page_num s bp n =
     (let m = frame_data s (bp_hdr bp) in
      if int n \<ge> hdr_page_count m then BUFFERPOOL_INVALID_PAGE_NUM
      else if \<not> Bitmap_get_bit m (hdr_bitmap m) n then BUFFERPOOL_INVALID_PAGE_NUM
      else SUCCESS)"


section \<open>Opening and closing files\<close>

text \<open>
  \<open>fd\<close> is what the system call \<open>open\<close> returned: a descriptor that is not in use, or a negative number
  when it failed.
\<close>

definition DiskBufferPool_open_file :: "Sys \<Rightarrow> string \<Rightarrow> int \<Rightarrow> ((RC + DiskBufferPool) \<times> Sys) option" where
  "DiskBufferPool_open_file s name fd =
     (if fd < 0 then Some (Inl IOERR_ACCESS, s)
      else
        let s = s\<lparr>sys_fd := (sys_fd s)(fd \<mapsto> name)\<rparr>;
            bp = \<lparr>bp_file_name = name, bp_fd = fd, bp_hdr = 0\<rparr> in
        do { (p, s) \<leftarrow> allocate_frame s bp BP_HEADER_PAGE;
             let s = frame_upd s p (set_file_desc fd);
             let (rc, s) = load_page s bp BP_HEADER_PAGE p;
             if rc \<noteq> SUCCESS
             then (let (_, s) = purge_frame s bp BP_HEADER_PAGE p
                   in Some (Inl rc, s\<lparr>sys_fd := (sys_fd s)(fd := None)\<rparr>))
             else Some (Inr (bp\<lparr>bp_hdr := p\<rparr>), s) })"

definition BufferPoolManager_create_file :: "Sys \<Rightarrow> string \<Rightarrow> RC \<times> Sys" where
  "BufferPoolManager_create_file s name =
     (if sys_file s name \<noteq> None then (SCHEMA_DB_EXIST, s)
      else
        let s = s\<lparr>sys_file := (sys_file s)(name \<mapsto> \<lparr>file_len = 0, file_page = (\<lambda>_. zero_page)\<rparr>)\<rparr>;
            m = store_i32 (\<lambda>_. 0) 4 1;
            m = store_i32 m 0 1;
            m = m(8 := or (m 8) 1);
            page = zero_page\<lparr>pg_data := m\<rparr>
        in if sys_writable s name 0
           then (SUCCESS, s\<lparr>sys_file := (sys_file s)(name \<mapsto>
                   \<lparr>file_len = 1, file_page = (\<lambda>_. zero_page)(0 := page)\<rparr>)\<rparr>)
           else (IOERR_WRITE, s))"

definition BufferPoolManager_open_file :: "Sys \<Rightarrow> string \<Rightarrow> int \<Rightarrow> ((RC + DiskBufferPool) \<times> Sys) option" where
  "BufferPoolManager_open_file s name fd =
     (if map_of (buffer_pools s) name \<noteq> None then Some (Inl BUFFERPOOL_OPEN, s)
      else
        do { (r, s) \<leftarrow> DiskBufferPool_open_file s name fd;
             case r of
               Inl rc \<Rightarrow> Some (Inl rc, s)
             | Inr bp \<Rightarrow>
                 Some (Inr bp, s\<lparr>buffer_pools := (name, bp) # buffer_pools s,
                                 fd_buffer_pools := (bp_fd bp, bp) # fd_buffer_pools s\<rparr>) })"

text \<open>
  \<open>BufferPoolManager::close_file\<close> as \<open>DiskBufferPool::close_file\<close> calls it, when the descriptor is
  already closed: it forgets the pool under its name and under its descriptor. The destructor it then
  runs finds the pool closed and does nothing.
\<close>

definition BufferPoolManager_close_file :: "Sys \<Rightarrow> DiskBufferPool \<Rightarrow> RC \<times> Sys" where
  "BufferPoolManager_close_file s bp =
     (case map_of (buffer_pools s) (bp_file_name bp) of
        None \<Rightarrow> (INTERNAL, s)
      | Some _ \<Rightarrow> (SUCCESS, s\<lparr>buffer_pools := filter (\<lambda>e. fst e \<noteq> bp_file_name bp) (buffer_pools s),
                              fd_buffer_pools := filter (\<lambda>e. fst e \<noteq> bp_fd bp) (fd_buffer_pools s)\<rparr>))"

definition DiskBufferPool_close_file :: "Sys \<Rightarrow> DiskBufferPool \<Rightarrow> (RC \<times> Sys) option" where
  "DiskBufferPool_close_file s bp =
     (if bp_fd bp < 0 then Some (SUCCESS, s)
      else
        do { (rc, s) \<leftarrow> purge_all_pages (frame_upd s (bp_hdr bp) frame_unpin) bp;
             if rc \<noteq> SUCCESS then Some (rc, s)
             else
               let (_, s) = BufferPoolManager_close_file (s\<lparr>sys_fd := (sys_fd s)(bp_fd bp := None)\<rparr>) bp
               in Some (SUCCESS, s) })"


section \<open>Iterating over the allocated pages\<close>

record BufferPoolIterator =
  bpi_bitmap :: Bitmap
  bpi_current :: int

definition BufferPoolIterator_init :: "Sys \<Rightarrow> DiskBufferPool \<Rightarrow> int \<Rightarrow> BufferPoolIterator" where
  "BufferPoolIterator_init s bp start_page =
     \<lparr>bpi_bitmap = hdr_bitmap (frame_data s (bp_hdr bp)), bpi_current = (if start_page \<le> 0 then 0 else start_page)\<rparr>"

definition BufferPoolIterator_has_next :: "mem \<Rightarrow> BufferPoolIterator \<Rightarrow> bool" where
  "BufferPoolIterator_has_next m it \<longleftrightarrow> next_setted_bit m (bpi_bitmap it) (nat (bpi_current it + 1)) \<noteq> -1"

definition BufferPoolIterator_next :: "mem \<Rightarrow> BufferPoolIterator \<Rightarrow> int \<times> BufferPoolIterator" where
  "BufferPoolIterator_next m it =
     (let next_page = next_setted_bit m (bpi_bitmap it) (nat (bpi_current it + 1))
      in (next_page, if next_page \<noteq> -1 then it\<lparr>bpi_current := next_page\<rparr> else it))"

definition BufferPoolIterator_reset :: "BufferPoolIterator \<Rightarrow> BufferPoolIterator" where
  "BufferPoolIterator_reset it = it\<lparr>bpi_current := 0\<rparr>"

end
