(* ===== verification/RecordPage.thy ===== *)
theory RecordPage
  imports BufferPool
begin

text \<open>
  \<^verbatim>\<open>src/observer/storage/record/record_manager.cpp\<close>, the part that works on one page: the layout of a
  page of fixed-size records (a header of five 32-bit integers, the bitmap of used slots, the slots)
  and the operations of \<open>RecordPageHandler\<close> and \<open>RecordPageIterator\<close> on the data of the page's frame.

  The abstract value of a page is the map \<open>page_slots\<close> from slot numbers to records; \<open>page_ok\<close> is the
  invariant of its bytes. Slot numbers are natural numbers: the code never makes a negative one, and
  it does not check for one.
\<close>

record RID =
  rid_page :: PageNum
  rid_slot :: SlotNum


section \<open>The layout of a page\<close>

definition PAGE_HEADER_SIZE :: nat where "PAGE_HEADER_SIZE = 20"

definition ph_record_num :: "mem \<Rightarrow> int" where "ph_record_num m = load_i32 m 0"
definition ph_record_real_size :: "mem \<Rightarrow> int" where "ph_record_real_size m = load_i32 m 4"
definition ph_record_size :: "mem \<Rightarrow> int" where "ph_record_size m = load_i32 m 8"
definition ph_record_capacity :: "mem \<Rightarrow> int" where "ph_record_capacity m = load_i32 m 12"
definition ph_first_record_offset :: "mem \<Rightarrow> int" where "ph_first_record_offset m = load_i32 m 16"

definition align8 :: "int \<Rightarrow> int" where
  "align8 n = (n + 7) div 8 * 8"

text \<open>
  The code divides in floating point by \<open>record_size + 0.125\<close> and cuts off the fraction. The divisor is
  exact, and a quotient below the next integer is at least \<open>1 / (8 * record_size + 1)\<close> away from it, far
  more than the rounding error at these sizes, so the result is the integer quotient.
\<close>

definition page_record_capacity :: "int \<Rightarrow> int \<Rightarrow> int" where
  "page_record_capacity page_size record_size = (page_size - int PAGE_HEADER_SIZE - 1) * 8 div (record_size * 8 + 1)"

definition page_bitmap_size :: "int \<Rightarrow> int" where
  "page_bitmap_size record_capacity = (record_capacity + 7) div 8"

text \<open>The loop of \<open>fix_record_capacity\<close>; it ends when a record takes any space at all.\<close>

partial_function (option) fix_capacity_loop :: "int \<Rightarrow> int \<Rightarrow> int \<Rightarrow> int option" where
  "fix_capacity_loop record_size capacity last_record_offset =
     (if last_record_offset > int BP_PAGE_DATA_SIZE
      then fix_capacity_loop record_size (capacity - 1) (last_record_offset - record_size)
      else Some capacity)"

definition fix_record_capacity :: "mem \<Rightarrow> mem option" where
  "fix_record_capacity m =
     do { c \<leftarrow> fix_capacity_loop (ph_record_size m) (ph_record_capacity m)
                 (ph_first_record_offset m + ph_record_capacity m * ph_record_size m);
          Some (store_i32 m 12 c) }"

text \<open>What \<open>init_empty_page\<close> writes into the page.\<close>

definition init_empty_data :: "int \<Rightarrow> mem \<Rightarrow> mem option" where
  "init_empty_data record_size m =
     (let m = store_i32 m 0 0;
          m = store_i32 m 4 record_size;
          m = store_i32 m 8 (align8 record_size);
          m = store_i32 m 12 (page_record_capacity (int BP_PAGE_DATA_SIZE) (ph_record_size m));
          m = store_i32 m 16 (align8 (int PAGE_HEADER_SIZE + page_bitmap_size (ph_record_capacity m)))
      in do { m \<leftarrow> fix_record_capacity m;
              Some (fill_bytes m PAGE_HEADER_SIZE 0 (nat (page_bitmap_size (ph_record_capacity m)))) })"

definition page_bitmap :: "mem \<Rightarrow> Bitmap" where
  "page_bitmap m = \<lparr>bm_base = PAGE_HEADER_SIZE, bm_size = nat (ph_record_capacity m)\<rparr>"

definition get_record_data :: "mem \<Rightarrow> SlotNum \<Rightarrow> nat" where
  "get_record_data m slot = nat (ph_first_record_offset m + ph_record_size m * int slot)"

definition is_full :: "mem \<Rightarrow> bool" where
  "is_full m \<longleftrightarrow> ph_record_num m \<ge> ph_record_capacity m"


section \<open>The operations on a page\<close>

text \<open>\<open>memcpy (get_record_data slot, data, record_real_size)\<close>\<close>

definition put_record_data :: "mem \<Rightarrow> SlotNum \<Rightarrow> byte list \<Rightarrow> mem" where
  "put_record_data m slot data = write_bytes m (get_record_data m slot) (take (nat (ph_record_real_size m)) data)"

definition page_insert_record :: "mem \<Rightarrow> byte list \<Rightarrow> (RC + SlotNum) \<times> mem" where
  "page_insert_record m data =
     (if ph_record_num m = ph_record_capacity m then (Inl RECORD_NOMEM, m)
      else
        let index = nat (next_unsetted_bit m (page_bitmap m) 0);
            m = Bitmap_set_bit m (page_bitmap m) index;
            m = store_i32 m 0 (ph_record_num m + 1)
        in (Inr index, put_record_data m index data))"

definition page_update_record :: "mem \<Rightarrow> byte list \<Rightarrow> SlotNum \<Rightarrow> RC \<times> mem" where
  "page_update_record m data slot =
     (if int slot \<ge> ph_record_capacity m then (INVALID_ARGUMENT, m)
      else if \<not> Bitmap_get_bit m (page_bitmap m) slot then (RECORD_NOT_EXIST, m)
      else (SUCCESS, put_record_data m slot data))"

definition page_recover_insert_record :: "mem \<Rightarrow> byte list \<Rightarrow> SlotNum \<Rightarrow> RC \<times> mem" where
  "page_recover_insert_record m data slot =
     (if int slot \<ge> ph_record_capacity m then (RECORD_INVALID_RID, m)
      else
        let m = (if \<not> Bitmap_get_bit m (page_bitmap m) slot
                 then let m = Bitmap_set_bit m (page_bitmap m) slot in store_i32 m 0 (ph_record_num m + 1)
                 else m)
        in (SUCCESS, put_record_data m slot data))"

definition page_delete_record :: "mem \<Rightarrow> SlotNum \<Rightarrow> RC \<times> mem" where
  "page_delete_record m slot =
     (if int slot \<ge> ph_record_capacity m then (INVALID_ARGUMENT, m)
      else if Bitmap_get_bit m (page_bitmap m) slot
      then (let m = Bitmap_clear_bit m (page_bitmap m) slot in (SUCCESS, store_i32 m 0 (ph_record_num m - 1)))
      else (RECORD_NOT_EXIST, m))"

definition page_get_record :: "mem \<Rightarrow> SlotNum \<Rightarrow> RC + byte list" where
  "page_get_record m slot =
     (if int slot \<ge> ph_record_capacity m then Inl RECORD_INVALID_RID
      else if \<not> Bitmap_get_bit m (page_bitmap m) slot then Inl RECORD_NOT_EXIST
      else Inr (read_bytes m (get_record_data m slot) (nat (ph_record_real_size m))))"


section \<open>Iterating over a page\<close>

record RecordPageIterator =
  rpi_page_num :: PageNum
  rpi_bitmap :: Bitmap
  rpi_next_slot :: int

definition RecordPageIterator_init :: "mem \<Rightarrow> PageNum \<Rightarrow> SlotNum \<Rightarrow> RecordPageIterator" where
  "RecordPageIterator_init m page_num start =
     \<lparr>rpi_page_num = page_num, rpi_bitmap = page_bitmap m, rpi_next_slot = next_setted_bit m (page_bitmap m) start\<rparr>"

definition RecordPageIterator_has_next :: "RecordPageIterator \<Rightarrow> bool" where
  "RecordPageIterator_has_next it \<longleftrightarrow> -1 \<noteq> rpi_next_slot it"

text \<open>The record that \<open>next\<close> hands out is the slot it stands on; the data is a pointer into the page.\<close>

definition RecordPageIterator_next :: "mem \<Rightarrow> RecordPageIterator \<Rightarrow> RC \<times> int \<times> RecordPageIterator" where
  "RecordPageIterator_next m it =
     (let slot = rpi_next_slot it;
          it = (if slot \<ge> 0 then it\<lparr>rpi_next_slot := next_setted_bit m (rpi_bitmap it) (nat (slot + 1))\<rparr> else it)
      in (if slot \<noteq> -1 then SUCCESS else RECORD_EOF, slot, it))"


section \<open>The invariant of a page\<close>

definition page_used :: "mem \<Rightarrow> nat \<Rightarrow> bool" where
  "page_used m i \<longleftrightarrow> Bitmap_get_bit m (page_bitmap m) i"

abbreviation "page_cap m \<equiv> nat (ph_record_capacity m)"
abbreviation "page_rec_len m \<equiv> nat (ph_record_real_size m)"

text \<open>
  The bitmap lies between the header and the first slot, the slots lie inside the page and a record
  fits its slot, and the header counts the used slots.
\<close>

definition page_layout :: "mem \<Rightarrow> bool" where
  "page_layout m \<longleftrightarrow>
     0 \<le> ph_record_capacity m \<and> 0 \<le> ph_record_real_size m \<and> ph_record_real_size m \<le> ph_record_size m \<and>
     int PAGE_HEADER_SIZE + int (bitmap_bytes (page_cap m)) \<le> ph_first_record_offset m \<and>
     ph_first_record_offset m + ph_record_capacity m * ph_record_size m \<le> int BP_PAGE_DATA_SIZE"

definition page_ok :: "mem \<Rightarrow> bool" where
  "page_ok m \<longleftrightarrow> page_layout m \<and> ph_record_num m = int (card (used_slots (page_used m) (page_cap m)))"

definition page_slots :: "mem \<Rightarrow> nat \<rightharpoonup> byte list" where
  "page_slots m i =
     (if i < page_cap m \<and> page_used m i then Some (read_bytes m (get_record_data m i) (page_rec_len m)) else None)"


section \<open>Where the parts of a page lie\<close>

text \<open>A page and its change that leaves the layout fields of the header alone.\<close>

definition same_layout :: "mem \<Rightarrow> mem \<Rightarrow> bool" where
  "same_layout m m' \<longleftrightarrow> (\<forall>i. 4 \<le> i \<and> i < PAGE_HEADER_SIZE \<longrightarrow> m' i = m i)"

lemma same_layout_fields:
  assumes "same_layout m m'"
  shows "ph_record_real_size m' = ph_record_real_size m" "ph_record_size m' = ph_record_size m"
    "ph_record_capacity m' = ph_record_capacity m" "ph_first_record_offset m' = ph_first_record_offset m"
    "page_bitmap m' = page_bitmap m" "get_record_data m' i = get_record_data m i" "page_layout m' = page_layout m"
proof -
  show f: "ph_record_real_size m' = ph_record_real_size m" "ph_record_size m' = ph_record_size m"
    "ph_record_capacity m' = ph_record_capacity m" "ph_first_record_offset m' = ph_first_record_offset m"
    unfolding ph_record_real_size_def ph_record_size_def ph_record_capacity_def ph_first_record_offset_def
    by (rule load_i32_cong; use assms in \<open>simp add: same_layout_def PAGE_HEADER_SIZE_def\<close>)+
  then show "page_bitmap m' = page_bitmap m" "get_record_data m' i = get_record_data m i" "page_layout m' = page_layout m"
    by (simp_all add: page_bitmap_def get_record_data_def page_layout_def)
qed

lemma same_layout_trans: "same_layout m m' \<Longrightarrow> same_layout m' m'' \<Longrightarrow> same_layout m m''"
  by (simp add: same_layout_def)

lemma page_layoutD:
  assumes "page_layout m"
  shows "PAGE_HEADER_SIZE + bitmap_bytes (page_cap m) \<le> get_record_data m i"
    "i < page_cap m \<Longrightarrow> get_record_data m i + page_rec_len m \<le> BP_PAGE_DATA_SIZE"
    "i < j \<Longrightarrow> get_record_data m i + page_rec_len m \<le> get_record_data m j"
proof -
  have l: "0 \<le> ph_record_capacity m" "0 \<le> ph_record_real_size m" "ph_record_real_size m \<le> ph_record_size m"
    "int PAGE_HEADER_SIZE + int (bitmap_bytes (page_cap m)) \<le> ph_first_record_offset m"
    "ph_first_record_offset m + ph_record_capacity m * ph_record_size m \<le> int BP_PAGE_DATA_SIZE"
    using assms by (simp_all add: page_layout_def)
  have off: "int (get_record_data m k) = ph_first_record_offset m + ph_record_size m * int k" for k
    using l by (simp add: get_record_data_def)
  have "0 \<le> ph_record_size m * int i" using l by simp
  then show "PAGE_HEADER_SIZE + bitmap_bytes (page_cap m) \<le> get_record_data m i"
    using l(4) off [of i] by linarith
  have step: "ph_record_size m * int i + ph_record_size m \<le> ph_record_size m * int j" if "i < j" for j
  proof -
    have "ph_record_size m * (int i + 1) \<le> ph_record_size m * int j" using l that by (intro mult_left_mono) auto
    then show ?thesis by (simp add: algebra_simps)
  qed
  show "get_record_data m i + page_rec_len m \<le> BP_PAGE_DATA_SIZE" if i: "i < page_cap m"
  proof -
    have "int (page_cap m) = ph_record_capacity m" using l(1) by simp
    then have "ph_record_size m * int i + ph_record_size m \<le> ph_record_capacity m * ph_record_size m"
      using step [OF i] by (simp add: mult.commute)
    then show ?thesis using l off [of i] by linarith
  qed
  show "get_record_data m i + page_rec_len m \<le> get_record_data m j" if "i < j"
    using step [OF that] l(2,3) off [of i] off [of j] by linarith
qed


lemma bit_ops_layout:
  "same_layout m (Bitmap_set_bit m (page_bitmap m0) i)" "same_layout m (Bitmap_clear_bit m (page_bitmap m0) i)"
  by (simp_all add: same_layout_def Bitmap_set_bit_def Bitmap_clear_bit_def page_bitmap_def Let_def)

lemma bit_ops_num [simp]:
  "ph_record_num (Bitmap_set_bit m (page_bitmap m0) i) = ph_record_num m"
  "ph_record_num (Bitmap_clear_bit m (page_bitmap m0) i) = ph_record_num m"
  unfolding ph_record_num_def
  by (rule load_i32_cong; simp add: Bitmap_set_bit_def Bitmap_clear_bit_def page_bitmap_def PAGE_HEADER_SIZE_def Let_def)+

lemma num_layout: "same_layout m (store_i32 m 0 v)"
  by (simp add: same_layout_def store_i32_outside)

lemma num_store [simp]: "i32_range v \<Longrightarrow> ph_record_num (store_i32 m 0 v) = v"
  by (simp add: ph_record_num_def)

lemma page_used_store [simp]: "page_used (store_i32 m 0 v) i = page_used m i"
  unfolding page_used_def same_layout_fields(5) [OF num_layout]
  by (simp add: Bitmap_get_bit_def page_bitmap_def store_i32_outside PAGE_HEADER_SIZE_def)

lemma page_used_bits [simp]:
  "page_used (Bitmap_set_bit m (page_bitmap m) i) j \<longleftrightarrow> j = i \<or> page_used m j"
  "page_used (Bitmap_clear_bit m (page_bitmap m) i) j \<longleftrightarrow> j \<noteq> i \<and> page_used m j"
  unfolding page_used_def same_layout_fields(5) [OF bit_ops_layout(1)] same_layout_fields(5) [OF bit_ops_layout(2)]
  by simp_all

lemma bit_ops_slot:
  assumes "page_layout m" "i < page_cap m" "PAGE_HEADER_SIZE + bitmap_bytes (page_cap m) \<le> a"
  shows "Bitmap_set_bit m (page_bitmap m) i a = m a" "Bitmap_clear_bit m (page_bitmap m) i a = m a"
  using assms Bitmap_set_bit_outside [where bm = "page_bitmap m" and a = a and i = i and m = m]
    Bitmap_clear_bit_outside [where bm = "page_bitmap m" and a = a and i = i and m = m]
  by (simp_all add: page_bitmap_def)

text \<open>The slots of a page that differs only in its header, in its bitmap, or inside one slot.\<close>

lemma page_slots_same_data:
  assumes l: "page_layout m" "same_layout m m'" and d: "\<And>a. PAGE_HEADER_SIZE + bitmap_bytes (page_cap m) \<le> a \<Longrightarrow> m' a = m a"
  shows "page_slots m' i = (if i < page_cap m \<and> page_used m' i then Some (read_bytes m (get_record_data m i) (page_rec_len m)) else None)"
proof -
  have "read_bytes m' (get_record_data m i) (page_rec_len m) = read_bytes m (get_record_data m i) (page_rec_len m)"
    using page_layoutD(1) [OF l(1), of i] by (intro read_bytes_cong) (simp add: d)
  then show ?thesis by (simp add: page_slots_def same_layout_fields [OF l(2)])
qed

lemma put_record_layout:
  assumes "page_layout m"
  shows "same_layout m (put_record_data m i data)" "ph_record_num (put_record_data m i data) = ph_record_num m"
    "j < page_cap m \<Longrightarrow> page_used (put_record_data m i data) j = page_used m j"
proof -
  have off: "PAGE_HEADER_SIZE + bitmap_bytes (page_cap m) \<le> get_record_data m i" by (rule page_layoutD(1) [OF assms])
  then have keep: "put_record_data m i data a = m a" if "a < PAGE_HEADER_SIZE + bitmap_bytes (page_cap m)" for a
    using that by (simp add: put_record_data_def write_bytes_outside)
  then show l: "same_layout m (put_record_data m i data)" by (simp add: same_layout_def)
  show "ph_record_num (put_record_data m i data) = ph_record_num m"
    unfolding ph_record_num_def by (rule load_i32_cong) (simp add: keep PAGE_HEADER_SIZE_def)
  show "page_used (put_record_data m i data) j = page_used m j" if "j < page_cap m"
  proof -
    have "j div 8 < bitmap_bytes (page_cap m)" using that by (rule bitmap_bytes_bound)
    then show ?thesis
      by (simp add: page_used_def same_layout_fields [OF l] Bitmap_get_bit_def page_bitmap_def keep)
  qed
qed

lemma put_record_slots:
  assumes l: "page_layout m" and i: "i < page_cap m" "page_used m i" and len: "length data = page_rec_len m"
  shows "page_slots (put_record_data m i data) = (page_slots m)(i \<mapsto> data)"
proof
  fix j
  note pl = put_record_layout [OF l, where i = i and data = data]
  note f = same_layout_fields [OF pl(1)]
  show "page_slots (put_record_data m i data) j = ((page_slots m)(i \<mapsto> data)) j"
  proof (cases "j = i")
    case True
    have "read_bytes (put_record_data m i data) (get_record_data m i) (page_rec_len m) = data"
      using len by (simp add: put_record_data_def)
    with True i pl(3) show ?thesis by (simp add: page_slots_def f)
  next
    case False
    then have "get_record_data m i + page_rec_len m \<le> get_record_data m j \<or> get_record_data m j + page_rec_len m \<le> get_record_data m i"
      using page_layoutD(3) [OF l, of i j] page_layoutD(3) [OF l, of j i] by linarith
    then have "read_bytes (put_record_data m i data) (get_record_data m j) (page_rec_len m) = read_bytes m (get_record_data m j) (page_rec_len m)"
      using len by (simp add: put_record_data_def read_write_bytes_disjoint)
    with False pl(3) [of j] show ?thesis by (auto simp: page_slots_def f)
  qed
qed

lemma page_ok_put_record: "page_ok m \<Longrightarrow> page_ok (put_record_data m i data)"
proof -
  assume ok: "page_ok m"
  then have l: "page_layout m" by (simp add: page_ok_def)
  note pl = put_record_layout [OF l, where i = i and data = data]
  note f = same_layout_fields [OF pl(1)]
  have "used_slots (page_used (put_record_data m i data)) (page_cap m) = used_slots (page_used m) (page_cap m)"
    using pl(3) by (intro used_slots_cong) simp
  then show ?thesis using ok pl(2) by (simp add: page_ok_def f)
qed

lemma page_ok_num:
  assumes "page_ok m"
  shows "0 \<le> ph_record_num m" "ph_record_num m \<le> ph_record_capacity m" "i32_range (ph_record_num m - 1)"
    "ph_record_num m < ph_record_capacity m \<Longrightarrow> i32_range (ph_record_num m + 1)"
  using assms card_used_slots_le [of "page_used m" "page_cap m"] load_i32_range [of m 12]
  by (auto simp: page_ok_def page_layout_def i32_range_def ph_record_capacity_def)


section \<open>What the operations do to the slots\<close>

text \<open>Marking a free slot and counting it, the step that insertion and recovery share.\<close>

lemma mark_slot:
  assumes ok: "page_ok m" and i: "i < page_cap m" "\<not> page_used m i"
  defines "m' \<equiv> store_i32 (Bitmap_set_bit m (page_bitmap m) i) 0 (ph_record_num m + 1)"
  shows "page_ok m'" "same_layout m m'" "page_used m' j \<longleftrightarrow> j = i \<or> page_used m j" "j \<noteq> i \<Longrightarrow> page_slots m' j = page_slots m j"
proof -
  let ?b = "Bitmap_set_bit m (page_bitmap m) i"
  have l: "page_layout m" using ok by (simp add: page_ok_def)
  show sl: "same_layout m m'" unfolding m'_def by (rule same_layout_trans [OF bit_ops_layout(1) num_layout])
  note f = same_layout_fields [OF sl]
  show u: "page_used m' j \<longleftrightarrow> j = i \<or> page_used m j" for j by (simp add: m'_def)
  have us: "used_slots (page_used m') (page_cap m) = insert i (used_slots (page_used m) (page_cap m))"
    using i(1) u by (auto simp: used_slots_def)
  have c: "card (used_slots (page_used m') (page_cap m)) = Suc (card (used_slots (page_used m) (page_cap m)))"
    unfolding us using i(2) by (simp add: used_slots_def)
  have "ph_record_num m < ph_record_capacity m"
    using card_used_slots_le [of "page_used m'" "page_cap m"] c ok by (simp add: page_ok_def page_layout_def)
  then have "ph_record_num m' = ph_record_num m + 1" using page_ok_num(4) [OF ok] by (simp add: m'_def)
  then show "page_ok m'" using ok c by (simp add: page_ok_def f)
  have d: "page_slots m' j = (if j < page_cap m \<and> page_used m' j then Some (read_bytes m (get_record_data m j) (page_rec_len m)) else None)" for j
  proof (rule page_slots_same_data [OF l sl])
    show "m' a = m a" if "PAGE_HEADER_SIZE + bitmap_bytes (page_cap m) \<le> a" for a
      using bit_ops_slot(1) [OF l i(1) that] that by (simp add: m'_def store_i32_outside PAGE_HEADER_SIZE_def)
  qed
  show "page_slots m' j = page_slots m j" if "j \<noteq> i" for j
    unfolding d using u that by (simp add: page_slots_def)
qed

lemma page_insert_ok:
  assumes ok: "page_ok m" and room: "ph_record_num m < ph_record_capacity m" and len: "length data = page_rec_len m"
  shows "\<exists>i m'. page_insert_record m data = (Inr i, m') \<and> page_ok m' \<and> same_layout m m' \<and> i < page_cap m \<and>
    page_slots m i = None \<and> (\<forall>j < i. page_slots m j \<noteq> None) \<and> page_slots m' = (page_slots m)(i \<mapsto> data) \<and>
    ph_record_num m' = ph_record_num m + 1"
proof -
  let ?bm = "page_bitmap m"
  have sz: "bm_size ?bm = page_cap m" by (simp add: page_bitmap_def)
  have "card (used_slots (Bitmap_get_bit m ?bm) (bm_size ?bm)) < bm_size ?bm"
    using ok room unfolding sz by (simp add: page_ok_def page_used_def [abs_def])
  then obtain i where i: "next_unsetted_bit m ?bm 0 = int i" "i < page_cap m" "\<not> page_used m i" "\<And>j. j < i \<Longrightarrow> page_used m j"
    using page_bits.next_free_someE [of m ?bm] unfolding sz page_used_def by blast
  let ?m1 = "store_i32 (Bitmap_set_bit m ?bm i) 0 (ph_record_num m + 1)"
  note mk = mark_slot [OF ok i(2,3)]
  note f = same_layout_fields [OF mk(2)]
  let ?m2 = "put_record_data ?m1 i data"
  have run: "page_insert_record m data = (Inr i, ?m2)"
    using room i(1) by (simp add: page_insert_record_def Let_def)
  have l1: "page_layout ?m1" using mk(1) by (simp add: page_ok_def)
  have "page_slots ?m2 = (page_slots ?m1)(i \<mapsto> data)"
    using i(2) mk(3) len by (intro put_record_slots [OF l1]) (simp_all add: f)
  also have "\<dots> = (page_slots m)(i \<mapsto> data)" using mk(4) by auto
  finally have sl: "page_slots ?m2 = (page_slots m)(i \<mapsto> data)" .
  have "page_ok ?m2" by (rule page_ok_put_record [OF mk(1)])
  moreover have "same_layout m ?m2" by (rule same_layout_trans [OF mk(2) put_record_layout(1) [OF l1]])
  moreover have "page_slots m i = None" "\<forall>j < i. page_slots m j \<noteq> None"
    using i by (auto simp: page_slots_def)
  moreover have "ph_record_num ?m2 = ph_record_num m + 1"
    using put_record_layout(2) [OF l1] page_ok_num(4) [OF ok room] by simp
  ultimately show ?thesis using run sl i(2) by blast
qed

lemma page_update_ok:
  assumes ok: "page_ok m" and len: "length data = page_rec_len m"
  shows "page_slots m i \<noteq> None \<Longrightarrow> \<exists>m'. page_update_record m data i = (SUCCESS, m') \<and> page_ok m' \<and> same_layout m m' \<and>
      page_slots m' = (page_slots m)(i \<mapsto> data)"
    and "page_slots m i = None \<Longrightarrow> page_update_record m data i = (if i < page_cap m then RECORD_NOT_EXIST else INVALID_ARGUMENT, m)"
proof -
  have l: "page_layout m" using ok by (simp add: page_ok_def)
  have c: "int i \<ge> ph_record_capacity m \<longleftrightarrow> \<not> i < page_cap m" using l by (auto simp: page_layout_def)
  show "\<exists>m'. page_update_record m data i = (SUCCESS, m') \<and> page_ok m' \<and> same_layout m m' \<and> page_slots m' = (page_slots m)(i \<mapsto> data)"
    if "page_slots m i \<noteq> None"
  proof -
    have u: "i < page_cap m" "page_used m i" using that by (auto simp: page_slots_def split: if_splits)
    then have "page_update_record m data i = (SUCCESS, put_record_data m i data)"
      using c by (simp add: page_update_record_def page_used_def)
    then show ?thesis
      using page_ok_put_record [OF ok] put_record_layout(1) [OF l] put_record_slots [OF l u len] by blast
  qed
  show "page_update_record m data i = (if i < page_cap m then RECORD_NOT_EXIST else INVALID_ARGUMENT, m)" if "page_slots m i = None"
    using that c by (auto simp: page_update_record_def page_slots_def page_used_def split: if_splits)
qed

lemma page_delete_ok:
  assumes ok: "page_ok m"
  shows "page_slots m i \<noteq> None \<Longrightarrow> \<exists>m'. page_delete_record m i = (SUCCESS, m') \<and> page_ok m' \<and> same_layout m m' \<and>
      page_slots m' = (page_slots m)(i := None) \<and> ph_record_num m' = ph_record_num m - 1"
    and "page_slots m i = None \<Longrightarrow> page_delete_record m i = (if i < page_cap m then RECORD_NOT_EXIST else INVALID_ARGUMENT, m)"
proof -
  have l: "page_layout m" using ok by (simp add: page_ok_def)
  have c: "int i \<ge> ph_record_capacity m \<longleftrightarrow> \<not> i < page_cap m" using l by (auto simp: page_layout_def)
  show "\<exists>m'. page_delete_record m i = (SUCCESS, m') \<and> page_ok m' \<and> same_layout m m' \<and>
      page_slots m' = (page_slots m)(i := None) \<and> ph_record_num m' = ph_record_num m - 1" if "page_slots m i \<noteq> None"
  proof -
    have u: "i < page_cap m" "page_used m i" using that by (auto simp: page_slots_def split: if_splits)
    let ?b = "Bitmap_clear_bit m (page_bitmap m) i" and ?m = "store_i32 (Bitmap_clear_bit m (page_bitmap m) i) 0 (ph_record_num m - 1)"
    have run: "page_delete_record m i = (SUCCESS, ?m)"
      using u c by (simp add: page_delete_record_def page_used_def Let_def)
    have sl: "same_layout m ?m" by (rule same_layout_trans [OF bit_ops_layout(2) num_layout])
    note f = same_layout_fields [OF sl]
    have us: "used_slots (page_used m) (page_cap m) = insert i (used_slots (page_used ?m) (page_cap m))"
      using u by (auto simp: used_slots_def)
    have "card (used_slots (page_used m) (page_cap m)) = Suc (card (used_slots (page_used ?m) (page_cap m)))"
      unfolding us by (simp add: used_slots_def)
    moreover have num: "ph_record_num ?m = ph_record_num m - 1" using page_ok_num(3) [OF ok] by simp
    ultimately have "page_ok ?m" using ok by (simp add: page_ok_def f)
    moreover have "page_slots ?m = (page_slots m)(i := None)"
    proof
      fix j
      have "page_slots ?m j = (if j < page_cap m \<and> page_used ?m j then Some (read_bytes m (get_record_data m j) (page_rec_len m)) else None)"
      proof (rule page_slots_same_data [OF l sl])
        show "?m a = m a" if "PAGE_HEADER_SIZE + bitmap_bytes (page_cap m) \<le> a" for a
          using bit_ops_slot(2) [OF l u(1) that] that by (simp add: store_i32_outside PAGE_HEADER_SIZE_def)
      qed
      also have "\<dots> = ((page_slots m)(i := None)) j" by (simp add: page_slots_def)
      finally show "page_slots ?m j = ((page_slots m)(i := None)) j" .
    qed
    ultimately show ?thesis using run sl num by blast
  qed
  show "page_delete_record m i = (if i < page_cap m then RECORD_NOT_EXIST else INVALID_ARGUMENT, m)" if "page_slots m i = None"
    using that c by (auto simp: page_delete_record_def page_slots_def page_used_def split: if_splits)
qed

lemma page_recover_ok:
  assumes ok: "page_ok m" and len: "length data = page_rec_len m" and i: "i < page_cap m"
  shows "\<exists>m'. page_recover_insert_record m data i = (SUCCESS, m') \<and> page_ok m' \<and> same_layout m m' \<and>
    page_slots m' = (page_slots m)(i \<mapsto> data)"
proof -
  have l: "page_layout m" using ok by (simp add: page_ok_def)
  have c: "\<not> int i \<ge> ph_record_capacity m" using l i by (auto simp: page_layout_def)
  show ?thesis
  proof (cases "page_used m i")
    case True
    then have "page_recover_insert_record m data i = (SUCCESS, put_record_data m i data)"
      using c by (simp add: page_recover_insert_record_def page_used_def)
    then show ?thesis
      using page_ok_put_record [OF ok] put_record_layout(1) [OF l] put_record_slots [OF l i True len] by blast
  next
    case False
    let ?m1 = "store_i32 (Bitmap_set_bit m (page_bitmap m) i) 0 (ph_record_num m + 1)"
    note mk = mark_slot [OF ok i False]
    note f = same_layout_fields [OF mk(2)]
    have l1: "page_layout ?m1" using mk(1) by (simp add: page_ok_def)
    have run: "page_recover_insert_record m data i = (SUCCESS, put_record_data ?m1 i data)"
      using c False by (simp add: page_recover_insert_record_def page_used_def Let_def)
    have "page_slots (put_record_data ?m1 i data) = (page_slots ?m1)(i \<mapsto> data)"
      using i mk(3) len by (intro put_record_slots [OF l1]) (simp_all add: f)
    also have "\<dots> = (page_slots m)(i \<mapsto> data)" using mk(4) by auto
    finally show ?thesis
      using run page_ok_put_record [OF mk(1)] same_layout_trans [OF mk(2) put_record_layout(1) [OF l1]] by blast
  qed
qed

lemma page_get_ok:
  "page_ok m \<Longrightarrow> page_get_record m i =
     (case page_slots m i of Some d \<Rightarrow> Inr d | None \<Rightarrow> Inl (if i < page_cap m then RECORD_NOT_EXIST else RECORD_INVALID_RID))"
  by (auto simp: page_get_record_def page_slots_def page_used_def page_ok_def page_layout_def)



section \<open>A new page\<close>

lemma fix_capacity_loop_ok:
  assumes "0 < rs"
  shows "\<exists>c'. fix_capacity_loop rs c lst = Some c' \<and> c' \<le> c \<and> lst - (c - c') * rs \<le> int BP_PAGE_DATA_SIZE \<and>
    (c' < c \<longrightarrow> lst - (c - c' - 1) * rs > int BP_PAGE_DATA_SIZE)"
proof (induction "nat (lst - int BP_PAGE_DATA_SIZE)" arbitrary: c lst rule: less_induct)
  case less
  show ?case
  proof (cases "lst > int BP_PAGE_DATA_SIZE")
    case False
    then show ?thesis by (subst fix_capacity_loop.simps) simp
  next
    case True
    then have "nat (lst - rs - int BP_PAGE_DATA_SIZE) < nat (lst - int BP_PAGE_DATA_SIZE)" using assms by linarith
    from less [OF this, of "c - 1"] obtain c' where c': "fix_capacity_loop rs (c - 1) (lst - rs) = Some c'" "c' \<le> c - 1"
      "lst - rs - (c - 1 - c') * rs \<le> int BP_PAGE_DATA_SIZE"
      "c' < c - 1 \<longrightarrow> lst - rs - (c - 1 - c' - 1) * rs > int BP_PAGE_DATA_SIZE"
      by blast
    have "lst - rs - (c - 1 - c') * rs = lst - (c - c') * rs" "lst - rs - (c - 1 - c' - 1) * rs = lst - (c - c' - 1) * rs"
      by (simp_all add: algebra_simps)
    with c' True show ?thesis by (subst fix_capacity_loop.simps) (cases "c' = c - 1"; simp)
  qed
qed

lemma align8_bounds: "n \<le> align8 n" "align8 n \<le> n + 7" "align8 n mod 8 = 0"
  unfolding align8_def by presburger+

lemma BP_PAGE_DATA_SIZE_eq: "BP_PAGE_DATA_SIZE = 524280"
  by (simp add: BP_PAGE_DATA_SIZE_def BP_PAGE_SIZE_def)

text \<open>The numbers \<open>init_empty_page\<close> computes: the estimated capacity and the offset of the first slot.\<close>

lemma capacity_estimate:
  fixes rs :: int
  assumes "8 \<le> rs"
  defines "c \<equiv> page_record_capacity (int BP_PAGE_DATA_SIZE) rs"
  defines "off \<equiv> align8 (int PAGE_HEADER_SIZE + page_bitmap_size c)"
  shows "0 \<le> c" "c \<le> 64524" "c * (rs * 8 + 1) \<le> 4194072" "4194072 < (c + 1) * (rs * 8 + 1)"
    "int PAGE_HEADER_SIZE + page_bitmap_size c \<le> off" "off \<le> 8100"
proof -
  have c: "c = 4194072 div (rs * 8 + 1)" by (simp add: c_def page_record_capacity_def BP_PAGE_DATA_SIZE_eq PAGE_HEADER_SIZE_def)
  have "4194072 = c * (rs * 8 + 1) + 4194072 mod (rs * 8 + 1)" unfolding c by (rule div_mult_mod_eq [symmetric])
  moreover have "0 \<le> 4194072 mod (rs * 8 + 1)" "4194072 mod (rs * 8 + 1) < rs * 8 + 1" using assms(1) by (simp, intro pos_mod_bound) simp
  ultimately show "c * (rs * 8 + 1) \<le> 4194072" "4194072 < (c + 1) * (rs * 8 + 1)"
    by (linarith, simp add: distrib_right)
  show "0 \<le> c" unfolding c using assms(1) by (intro div_int_pos_iff [THEN iffD2]) simp
  have "c \<le> 4194072 div 65" unfolding c using assms(1) by (intro zdiv_mono2) simp_all
  then show c64: "c \<le> 64524" by simp
  show "int PAGE_HEADER_SIZE + page_bitmap_size c \<le> off" unfolding off_def by (rule align8_bounds(1))
  have "page_bitmap_size c \<le> 8066" unfolding page_bitmap_size_def using c64 by presburger
  then show "off \<le> 8100" unfolding off_def PAGE_HEADER_SIZE_def using align8_bounds(2) [of "20 + page_bitmap_size c"] by simp
qed

lemma page_bitmap_size_bytes: "0 \<le> c \<Longrightarrow> page_bitmap_size c = int (bitmap_bytes (nat c))"
  by (simp add: page_bitmap_size_def bitmap_bytes_alt zdiv_int nat_add_distrib)

lemma capacity_fixed:
  fixes rs :: int
  assumes rs: "8 \<le> rs"
  defines "c \<equiv> page_record_capacity (int BP_PAGE_DATA_SIZE) rs"
  defines "off \<equiv> align8 (int PAGE_HEADER_SIZE + page_bitmap_size c)"
  shows "\<exists>c'. fix_capacity_loop rs c (off + c * rs) = Some c' \<and> 0 \<le> c' \<and> c' \<le> c \<and>
    int PAGE_HEADER_SIZE + int (bitmap_bytes (nat c')) \<le> off \<and> off + c' * rs \<le> int BP_PAGE_DATA_SIZE \<and>
    (0 < c' \<longleftrightarrow> rs \<le> 524256)"
proof -
  note e = capacity_estimate [OF rs, folded c_def, folded off_def]
  obtain c' where c': "fix_capacity_loop rs c (off + c * rs) = Some c'" "c' \<le> c"
    "off + c * rs - (c - c') * rs \<le> int BP_PAGE_DATA_SIZE"
    "c' < c \<longrightarrow> off + c * rs - (c - c' - 1) * rs > int BP_PAGE_DATA_SIZE"
    using fix_capacity_loop_ok [of rs c "off + c * rs"] rs by auto
  have le: "off + c' * rs \<le> int BP_PAGE_DATA_SIZE" using c'(3) by (simp add: left_diff_distrib)
  have gt: "off + (c' + 1) * rs > int BP_PAGE_DATA_SIZE" if "c' < c" using c'(4) that by (simp add: algebra_simps)
  have nonneg: "0 \<le> c'"
  proof (rule ccontr)
    assume "\<not> 0 \<le> c'"
    then have "(c' + 1) * rs \<le> 0" "c' < c" using rs e(1) by (simp_all add: mult_nonpos_nonneg)
    with gt e(6) show False by (simp add: BP_PAGE_DATA_SIZE_eq)
  qed
  have "page_bitmap_size c' \<le> page_bitmap_size c" unfolding page_bitmap_size_def using c'(2) by (intro zdiv_mono1) simp_all
  then have "int PAGE_HEADER_SIZE + int (bitmap_bytes (nat c')) \<le> off"
    using e(5) page_bitmap_size_bytes [OF nonneg] by linarith
  moreover have "0 < c' \<longleftrightarrow> rs \<le> 524256"
  proof
    assume "0 < c'"
    then have "1 * rs \<le> c' * rs" using rs by (intro mult_right_mono) simp_all
    moreover have "24 \<le> off"
    proof -
      have "1 \<le> page_bitmap_size c" unfolding page_bitmap_size_def using \<open>0 < c'\<close> c'(2) by presburger
      then have "21 \<le> int PAGE_HEADER_SIZE + page_bitmap_size c" by (simp add: PAGE_HEADER_SIZE_def)
      then show ?thesis unfolding off_def align8_def by presburger
    qed
    ultimately show "rs \<le> 524256" using le by (simp add: BP_PAGE_DATA_SIZE_eq)
  next
    assume small: "rs \<le> 524256"
    show "0 < c'"
    proof (rule ccontr)
      assume "\<not> 0 < c'"
      then have z: "c' = 0" using nonneg by simp
      have "c \<noteq> 0" using e(4) small by auto
      then have big: "off + rs > 524280" using gt z e(1) by (simp add: BP_PAGE_DATA_SIZE_eq)
      have "c \<noteq> 1"
      proof
        assume "c = 1"
        then have "off = 24" by (simp add: off_def page_bitmap_size_def PAGE_HEADER_SIZE_def align8_def)
        with big small show False by simp
      qed
      then have "2 \<le> c" using \<open>c \<noteq> 0\<close> e(1) by simp
      then have "2 * (rs * 8 + 1) \<le> c * (rs * 8 + 1)" using rs by (intro mult_right_mono) simp_all
      then have "2 * (rs * 8 + 1) \<le> 4194072" using e(3) by (rule order_trans)
      with e(6) big show False by simp
    qed
  qed
  ultimately show ?thesis using c'(1,2) nonneg le by blast
qed

lemma init_empty_ok:
  assumes rs: "0 < rs" "rs \<le> 2147483640"
  shows "\<exists>m'. init_empty_data rs m = Some m' \<and> page_ok m' \<and> page_slots m' = Map.empty \<and> ph_record_real_size m' = rs \<and>
    (0 < ph_record_capacity m' \<longleftrightarrow> rs \<le> 524256) \<and> ph_record_num m' = 0"
proof -
  define r where "r = align8 rs"
  define c where "c = page_record_capacity (int BP_PAGE_DATA_SIZE) r"
  define off where "off = align8 (int PAGE_HEADER_SIZE + page_bitmap_size c)"
  have r: "rs \<le> r" "r \<le> rs + 7" "r mod 8 = 0" unfolding r_def by (rule align8_bounds)+
  have r8: "8 \<le> r" using rs(1) r by presburger
  have rmax: "r \<le> 2147483640" using rs(2) r by presburger
  have small: "r \<le> 524256 \<longleftrightarrow> rs \<le> 524256" using r by presburger
  note e = capacity_estimate [OF r8, folded c_def, folded off_def]
  obtain c' where c': "fix_capacity_loop r c (off + c * r) = Some c'" "0 \<le> c'" "c' \<le> c"
    "int PAGE_HEADER_SIZE + int (bitmap_bytes (nat c')) \<le> off" "off + c' * r \<le> int BP_PAGE_DATA_SIZE" "0 < c' \<longleftrightarrow> r \<le> 524256"
    using capacity_fixed [OF r8, folded c_def, folded off_def] by blast
  define m1 where "m1 = store_i32 (store_i32 (store_i32 m 0 0) 4 rs) 8 r"
  define m2 where "m2 = store_i32 (store_i32 m1 12 c) 16 off"
  define m3 where "m3 = store_i32 m2 12 c'"
  define m' where "m' = fill_bytes m3 20 0 (bitmap_bytes (nat c'))"
  have rng: "i32_range rs" "i32_range r" "i32_range c" "i32_range off" "i32_range c'" "i32_range 0"
    using rs r8 rmax e(1,2,5,6) c'(2,3) by (simp_all add: i32_range_def PAGE_HEADER_SIZE_def page_bitmap_size_bytes)
  have f1: "ph_record_size m1 = r" using rng by (simp add: m1_def ph_record_size_def)
  have f2: "ph_record_capacity (store_i32 m1 12 c) = c" "ph_record_size m2 = r" "ph_record_capacity m2 = c" "ph_first_record_offset m2 = off"
    using rng by (simp_all add: m1_def m2_def ph_record_size_def ph_record_capacity_def ph_first_record_offset_def mem_simps)
  have f3: "ph_record_num m3 = 0" "ph_record_real_size m3 = rs" "ph_record_size m3 = r" "ph_record_capacity m3 = c'" "ph_first_record_offset m3 = off"
    using rng by (simp_all add: m1_def m2_def m3_def ph_record_num_def ph_record_real_size_def ph_record_size_def
        ph_record_capacity_def ph_first_record_offset_def mem_simps)
  have f': "ph_record_num m' = 0" "ph_record_real_size m' = rs" "ph_record_size m' = r" "ph_record_capacity m' = c'" "ph_first_record_offset m' = off"
    using f3 by (simp_all add: m'_def ph_record_num_def ph_record_real_size_def ph_record_size_def
        ph_record_capacity_def ph_first_record_offset_def mem_simps)
  have run: "init_empty_data rs m = Some m'"
  proof -
    have "fix_record_capacity m2 = Some m3" using c'(1) by (simp add: fix_record_capacity_def f2 m3_def)
    moreover have "nat (page_bitmap_size c') = bitmap_bytes (nat c')" using page_bitmap_size_bytes [OF c'(2)] by simp
    ultimately show ?thesis
      unfolding init_empty_data_def Let_def r_def [symmetric] m1_def [symmetric] f1 c_def [symmetric] f2 off_def [symmetric] m2_def [symmetric]
      by (simp add: f3 m'_def PAGE_HEADER_SIZE_def)
  qed
  have free: "\<not> page_used m' i" if "i < page_cap m'" for i
  proof -
    have "i div 8 < bitmap_bytes (nat c')" using that f'(4) by (intro bitmap_bytes_bound) simp
    then show ?thesis by (simp add: page_used_def Bitmap_get_bit_def page_bitmap_def PAGE_HEADER_SIZE_def m'_def fill_bytes_def)
  qed
  have "page_layout m'" unfolding page_layout_def f' using rs(1) r(1) c'(2,4,5) by simp
  moreover have "used_slots (page_used m') (page_cap m') = {}" using free by (auto simp: used_slots_def)
  ultimately have "page_ok m'" using f'(1) by (simp add: page_ok_def)
  moreover have "page_slots m' = Map.empty" using free by (auto simp: page_slots_def)
  ultimately show ?thesis using run f'(1,2,4) c'(6) small by blast
qed



section \<open>Iterating over a page\<close>

text \<open>The slots that the loop over an iterator visits, and what it visits from the first slot on.\<close>

definition iter_at :: "mem \<Rightarrow> RecordPageIterator \<Rightarrow> nat \<Rightarrow> bool" where
  "iter_at m it k \<longleftrightarrow> rpi_bitmap it = page_bitmap m \<and>
     is_first (page_used m) k (page_cap m) (rpi_next_slot it)"

lemma iter_init: "iter_at m (RecordPageIterator_init m n 0) 0"
  using next_setted_bit_from_used [of 0 m "page_bitmap m"]
  by (simp add: iter_at_def RecordPageIterator_init_def page_used_def [abs_def] page_bitmap_def)

lemma iter_step:
  assumes "iter_at m it k" "RecordPageIterator_has_next it"
  obtains i it' where "RecordPageIterator_next m it = (SUCCESS, int i, it')" "k \<le> i" "i < page_cap m" "page_used m i"
    "iter_at m it' (Suc i)" "rpi_page_num it' = rpi_page_num it"
    "filter (page_used m) [k..<page_cap m] = i # filter (page_used m) [Suc i..<page_cap m]"
proof -
  from assms obtain i where i: "rpi_next_slot it = int i" "k \<le> i" "i < page_cap m" "page_used m i"
    by (auto simp: iter_at_def RecordPageIterator_has_next_def elim: is_first_cases)
  let ?it = "it\<lparr>rpi_next_slot := next_setted_bit m (page_bitmap m) (Suc i)\<rparr>"
  have "RecordPageIterator_next m it = (SUCCESS, int i, ?it)"
    using assms(1) i(1) by (simp add: RecordPageIterator_next_def iter_at_def nat_add_distrib)
  moreover have "iter_at m ?it (Suc i)"
    using next_setted_bit_from_used [of "Suc i" m "page_bitmap m"] i(4) assms(1)
    by (simp add: iter_at_def page_used_def [abs_def] page_bitmap_def)
  moreover have "filter (page_used m) [k..<page_cap m] = i # filter (page_used m) [Suc i..<page_cap m]"
    using is_first_filter [of "page_used m" k "page_cap m" "rpi_next_slot it"] assms(1) i(1) by (simp add: iter_at_def)
  ultimately show ?thesis using that i by simp
qed

lemma iter_end:
  "iter_at m it k \<Longrightarrow> \<not> RecordPageIterator_has_next it \<Longrightarrow> filter (page_used m) [k..<page_cap m] = []"
  using is_first_filter [of "page_used m" k "page_cap m" "rpi_next_slot it"]
  by (simp add: iter_at_def RecordPageIterator_has_next_def)


section \<open>Properties\<close>

text \<open>
  C23: formatting a page for any record size ends and gives a page whose slots lie behind the header
  and the bitmap, inside the page, and apart from each other, for every slot the header counts. The
  page has a slot at all exactly when a record is at most 524256 bytes long.
\<close>

theorem new_page_layout:
  assumes "0 < rs" "rs \<le> 2147483640"
  shows "\<exists>m'. init_empty_data rs m = Some m' \<and> page_slots m' = Map.empty \<and> ph_record_num m' = 0 \<and> (0 < page_cap m' \<longleftrightarrow> rs \<le> 524256) \<and>
    (\<forall>i < page_cap m'. PAGE_HEADER_SIZE + bitmap_bytes (page_cap m') \<le> get_record_data m' i \<and>
       get_record_data m' i + nat rs \<le> BP_PAGE_DATA_SIZE \<and> (\<forall>j < i. get_record_data m' j + nat rs \<le> get_record_data m' i))"
proof -
  obtain m' where m': "init_empty_data rs m = Some m'" "page_ok m'" "page_slots m' = Map.empty" "ph_record_real_size m' = rs"
    "0 < ph_record_capacity m' \<longleftrightarrow> rs \<le> 524256" "ph_record_num m' = 0"
    using init_empty_ok [OF assms, of m] by blast
  have l: "page_layout m'" using m'(2) by (simp add: page_ok_def)
  have "0 < page_cap m' \<longleftrightarrow> rs \<le> 524256" using m'(5) by simp
  then show ?thesis using m'(1,3,6) page_layoutD [OF l, unfolded m'(4)]
    by (intro exI [of _ m'] conjI allI impI) simp_all
qed

theorem new_page_layout_witness:
  "\<exists>m'. init_empty_data 20 (\<lambda>_. 0) = Some m' \<and> get_record_data m' 0 + 20 \<le> BP_PAGE_DATA_SIZE"
proof -
  have "(0::int) < 20" "(20::int) \<le> 2147483640" by simp_all
  from new_page_layout [OF this, of "\<lambda>_. 0"] show ?thesis by (elim exE conjE) auto
qed

end
