(* ===== verification/BufferPoolInv.thy ===== *)
theory BufferPoolInv
  imports BufferPool
begin

text \<open>
  The invariant of the buffer pool and what it guarantees. \<open>fm_rel\<close> relates the frame manager to the
  list of its cached frames, most recently used first; \<open>bp_inv\<close> says that every cached frame belongs to
  an open file and that a frame that is not dirty equals its page on disk. \<open>page_view\<close> is the content
  of a page as a client sees it: the cached frame if there is one, the page on disk otherwise. The
  locale \<open>page_store\<close> states the contract the record manager and the index rely on.
\<close>

section \<open>The frame manager\<close>

definition fm_rel :: "BPFrameManager \<Rightarrow> (FrameId \<times> nat) list \<Rightarrow> bool" where
  "fm_rel fm es \<longleftrightarrow> lru_abs (fm_cache fm) es \<and> distinct (map snd es) \<and> snd ` set es = set (fm_used fm) \<and>
     distinct (fm_used fm @ fm_frees fm) \<and> (\<forall>p \<in> set (fm_frees fm). f_pin (fm_frame fm p) = 0)"

definition cached :: "Sys \<Rightarrow> int \<Rightarrow> PageNum \<Rightarrow> nat option" where
  "cached s fd n = fst (LruCache_get (fm_cache (sys_fm s)) \<lparr>fid_fd = fd, fid_page = n\<rparr>)"

lemma fm_upd_simps [simp]:
  "fm_frame (fm_upd fm p g) = (fm_frame fm)(p := g (fm_frame fm p))"
  "fm_cache (fm_upd fm p g) = fm_cache fm" "fm_used (fm_upd fm p g) = fm_used fm" "fm_frees (fm_upd fm p g) = fm_frees fm"
  by (simp_all add: fm_upd_def)

lemma frame_upd_simps [simp]:
  "sys_fm (frame_upd s p g) = fm_upd (sys_fm s) p g" "sys_fd (frame_upd s p g) = sys_fd s"
  "sys_file (frame_upd s p g) = sys_file s" "sys_writable (frame_upd s p g) = sys_writable s"
  "buffer_pools (frame_upd s p g) = buffer_pools s" "fd_buffer_pools (frame_upd s p g) = fd_buffer_pools s"
  by (simp_all add: frame_upd_def)

lemma frame_ops_simps [simp]:
  "f_pin (frame_pin f) = f_pin f + 1" "f_dirty (frame_pin f) = f_dirty f" "f_fd (frame_pin f) = f_fd f" "f_page (frame_pin f) = f_page f"
  "f_pin (frame_unpin f) = f_pin f - 1" "f_dirty (frame_unpin f) = f_dirty f" "f_fd (frame_unpin f) = f_fd f" "f_page (frame_unpin f) = f_page f"
  "f_pin (clear_dirty f) = f_pin f" "\<not> f_dirty (clear_dirty f)" "f_fd (clear_dirty f) = f_fd f" "f_page (clear_dirty f) = f_page f"
  "f_pin (mark_dirty f) = f_pin f" "f_dirty (mark_dirty f)" "f_fd (mark_dirty f) = f_fd f" "f_page (mark_dirty f) = f_page f"
  "f_pin (set_data m f) = f_pin f" "f_dirty (set_data m f) = f_dirty f" "f_fd (set_data m f) = f_fd f"
  "f_page (set_data m f) = (f_page f)\<lparr>pg_data := m\<rparr>"
  "f_pin (set_page_num n f) = f_pin f" "f_dirty (set_page_num n f) = f_dirty f" "f_fd (set_page_num n f) = f_fd f"
  "f_page (set_page_num n f) = (f_page f)\<lparr>pg_num := n\<rparr>"
  "f_pin (set_file_desc fd f) = f_pin f" "f_dirty (set_file_desc fd f) = f_dirty f" "f_fd (set_file_desc fd f) = fd"
  "f_page (set_file_desc fd f) = f_page f"
  "f_pin (clear_page f) = f_pin f" "f_dirty (clear_page f) = f_dirty f" "f_fd (clear_page f) = f_fd f" "f_page (clear_page f) = zero_page"
  by (simp_all add: frame_pin_def frame_unpin_def clear_dirty_def mark_dirty_def set_data_def set_page_num_def
      set_file_desc_def clear_page_def)

lemma frame_pin_unpin [simp]: "frame_unpin (frame_pin f) = f"
  by (simp add: frame_pin_def frame_unpin_def)

lemma frame_id_simps [simp]:
  "frame_id (frame_pin f) = frame_id f" "frame_id (frame_unpin f) = frame_id f" "frame_id (clear_dirty f) = frame_id f"
  "frame_id (mark_dirty f) = frame_id f" "frame_id (set_data m f) = frame_id f"
  by (simp_all add: frame_id_def)

lemma fm_relD:
  assumes "fm_rel fm es"
  shows "lru_abs (fm_cache fm) es" "distinct (map fst es)" "distinct (map snd es)" "snd ` set es = set (fm_used fm)"
    "distinct (fm_used fm)" "distinct (fm_frees fm)" "set (fm_used fm) \<inter> set (fm_frees fm) = {}"
    "\<And>p. p \<in> set (fm_frees fm) \<Longrightarrow> f_pin (fm_frame fm p) = 0"
  using assms lru_abs_distinct [of "fm_cache fm" es] by (auto simp: fm_rel_def)

lemma cached_map_of: "fm_rel (sys_fm s) es \<Longrightarrow> cached s fd n = map_of es \<lparr>fid_fd = fd, fid_page = n\<rparr>"
  by (simp add: cached_def fm_rel_def lru.get_lookup)

lemma fm_rel_entry_unique:
  "fm_rel fm es \<Longrightarrow> (fid, p) \<in> set es \<Longrightarrow> (fid', p) \<in> set es \<Longrightarrow> fid' = fid"
  using fm_relD(3) [of fm es] by (metis (no_types, lifting) distinct_map fst_conv inj_onD snd_conv)

lemma get_internal_miss:
  "fm_rel fm es \<Longrightarrow> map_of es fid = None \<Longrightarrow> get_internal fm fid = (None, fm)"
  by (simp add: get_internal_def lru.rel_get_miss [OF fm_relD(1)] Let_def)

lemma get_internal_hit:
  assumes "fm_rel fm es" "map_of es fid = Some p"
  shows "\<exists>fm'. get_internal fm fid = (Some p, fm') \<and> fm_rel fm' ((fid, p) # drop_key fid es) \<and>
    fm_frame fm' = (fm_frame fm)(p := frame_pin (fm_frame fm p)) \<and> fm_used fm' = fm_used fm \<and> fm_frees fm' = fm_frees fm"
proof -
  note d = fm_relD [OF assms(1)]
  obtain c where g: "LruCache_get (fm_cache fm) fid = (Some p, c)"
    using lru.rel_get_value [OF d(1) assms(2)] by (metis prod.collapse)
  let ?fm = "fm_upd (fm\<lparr>fm_cache := c\<rparr>) p frame_pin"
  from g have eq: "get_internal fm fid = (Some p, ?fm)" by (simp add: get_internal_def Let_def)
  have abs: "lru_abs c ((fid, p) # drop_key fid es)" using lru.rel_get_hit [OF d(1) assms(2)] g by simp
  have set: "set ((fid, p) # drop_key fid es) = set es" by (rule lru.set_promote [OF d(1) assms(2)])
  have "distinct (map snd ((fid, p) # drop_key fid es))"
    using d(3) map_of_SomeD [OF assms(2)] fm_rel_entry_unique [OF assms(1)]
    by (auto simp: drop_key_def distinct_map inj_on_def)
  moreover have "p \<in> set (fm_used fm)" using d(4) map_of_SomeD [OF assms(2)] by force
  moreover have "snd ` set ((fid, p) # drop_key fid es) = set (fm_used fm)" using set d(4) by simp
  ultimately have "fm_rel ?fm ((fid, p) # drop_key fid es)"
    using abs d by (auto simp: fm_rel_def)
  with eq show ?thesis by simp
qed

lemma fm_rel_frames:
  "fm_rel fm es \<Longrightarrow> (\<And>p. p \<in> set (fm_frees fm) \<Longrightarrow> f_pin (fr p) = 0) \<Longrightarrow> fm_rel (fm\<lparr>fm_frame := fr\<rparr>) es"
  by (simp add: fm_rel_def)

lemma fm_rel_upd_used:
  "fm_rel fm es \<Longrightarrow> p \<in> snd ` set es \<Longrightarrow> fm_rel (fm_upd fm p g) es"
  by (auto simp: fm_rel_def)

lemma alloc_free_frame:
  assumes "fm_rel fm es" "map_of es \<lparr>fid_fd = fd, fid_page = n\<rparr> = None" "fm_frees fm = p # ps"
  shows "\<exists>fm'. BPFrameManager_alloc fm fd n = (Some p, fm') \<and> fm_rel fm' ((\<lparr>fid_fd = fd, fid_page = n\<rparr>, p) # es) \<and>
    fm_frame fm' = (fm_frame fm)(p := frame_pin (set_page_num n (fm_frame fm p)))"
proof -
  let ?fid = "\<lparr>fid_fd = fd, fid_page = n\<rparr>"
  let ?fm = "fm_upd (fm_upd (fm\<lparr>fm_frees := ps, fm_used := p # fm_used fm\<rparr>) p (set_page_num n)) p frame_pin"
  let ?fm' = "?fm\<lparr>fm_cache := LruCache_put (fm_cache fm) ?fid p\<rparr>"
  note d = fm_relD [OF assms(1)]
  have eq: "BPFrameManager_alloc fm fd n = (Some p, ?fm')"
    by (simp add: BPFrameManager_alloc_def get_internal_miss [OF assms(1,2)] MemPool_alloc_def assms(3) Let_def)
  have "lru_abs (LruCache_put (fm_cache fm) ?fid p) ((?fid, p) # es)"
    by (rule lru_put_miss [OF d(1) assms(2)])
  moreover have "p \<notin> snd ` set es" using d(4,7) assms(3) by auto
  ultimately have "fm_rel ?fm' ((?fid, p) # es)"
    using d assms(3) by (auto simp: fm_rel_def)
  moreover have "fm_frame ?fm' = (fm_frame fm)(p := frame_pin (set_page_num n (fm_frame fm p)))" by auto
  ultimately show ?thesis using eq by blast
qed

lemma alloc_full:
  "fm_rel fm es \<Longrightarrow> map_of es \<lparr>fid_fd = fd, fid_page = n\<rparr> = None \<Longrightarrow> fm_frees fm = [] \<Longrightarrow>
   BPFrameManager_alloc fm fd n = (None, fm)"
  by (simp add: BPFrameManager_alloc_def get_internal_miss MemPool_alloc_def Let_def)

lemma free_internal_spec:
  assumes "fm_rel fm es" "(fid, p) \<in> set es" "f_pin (fm_frame fm p) = 1"
  shows "fm_rel (free_internal fm fid p) (drop_key fid es)"
    and "fm_frame (free_internal fm fid p) = (fm_frame fm)(p := frame_unpin (fm_frame fm p))"
    and "fm_frees (free_internal fm fid p) = fm_frees fm @ [p]"
    and "fm_used (free_internal fm fid p) = remove1 p (fm_used fm)"
proof -
  note d = fm_relD [OF assms(1)]
  let ?g = "LruCache_get (fm_cache fm) fid"
  have m: "map_of es fid = Some p" using assms(2) d(2) by simp
  have p: "p \<in> set (fm_used fm)" using d(4) assms(2) by force
  have eq: "free_internal fm fid p = (fm_upd fm p frame_unpin)
      \<lparr>fm_cache := LruCache_remove (snd ?g) fid, fm_used := remove1 p (fm_used fm), fm_frees := fm_frees fm @ [p]\<rparr>"
    using p by (simp add: free_internal_def MemPool_free_def Let_def split_beta fm_upd_def)
  then show "fm_frame (free_internal fm fid p) = (fm_frame fm)(p := frame_unpin (fm_frame fm p))"
    "fm_frees (free_internal fm fid p) = fm_frees fm @ [p]" "fm_used (free_internal fm fid p) = remove1 p (fm_used fm)"
    by simp_all
  have "drop_key fid ((fid, p) # drop_key fid es) = drop_key fid es" by (simp add: drop_key_def)
  then have abs: "lru_abs (LruCache_remove (snd ?g) fid) (drop_key fid es)"
    using lru.rel_remove [OF lru.rel_get_hit [OF d(1) m], of fid] by simp
  have "set (drop_key fid es) = set es - {(fid, p)}"
    using d(2) assms(2) by (auto simp: drop_key_def dest: eq_key_imp_eq_value)
  then have "snd ` set (drop_key fid es) = set (fm_used fm) - {p}"
    using d(3) inj_on_image_set_diff [of snd "set es" "set es" "{(fid, p)}"] assms(2)
    by (simp add: distinct_map flip: d(4))
  then show "fm_rel (free_internal fm fid p) (drop_key fid es)"
    using abs d p assms(3) by (auto simp: eq fm_rel_def drop_key_def distinct_map_filter)
qed


section \<open>The invariant\<close>

text \<open>
  No two descriptors name the same file, every open file exists, and a page on disk carries its own
  number.
\<close>

definition files_ok :: "Sys \<Rightarrow> bool" where
  "files_ok s \<longleftrightarrow>
     (\<forall>fd fd' name. sys_fd s fd = Some name \<and> sys_fd s fd' = Some name \<longrightarrow> fd = fd') \<and>
     (\<forall>fd name. sys_fd s fd = Some name \<longrightarrow> sys_file s name \<noteq> None) \<and>
     (\<forall>fd n page. read_file_page s fd n = Some page \<longrightarrow> pg_num page = n)"

definition registered :: "Sys \<Rightarrow> int \<Rightarrow> bool" where
  "registered s fd \<longleftrightarrow> (\<exists>bp. map_of (fd_buffer_pools s) fd = Some bp \<and> bp_fd bp = fd)"

definition disk_ok :: "Sys \<Rightarrow> bool" where
  "disk_ok s \<longleftrightarrow> (\<forall>name n. sys_writable s name n)"

definition frame_ok :: "Sys \<Rightarrow> FrameId \<Rightarrow> nat \<Rightarrow> bool" where
  "frame_ok s fid p \<longleftrightarrow>
     frame_id (frame_of s p) = fid \<and> f_pin (frame_of s p) \<ge> 0 \<and> registered s (fid_fd fid) \<and>
     read_file_page s (fid_fd fid) (fid_page fid) \<noteq> None \<and>
     (\<not> f_dirty (frame_of s p) \<longrightarrow> read_file_page s (fid_fd fid) (fid_page fid) = Some (f_page (frame_of s p)))"

definition frames_ok :: "Sys \<Rightarrow> (FrameId \<times> nat) list \<Rightarrow> bool" where
  "frames_ok s es \<longleftrightarrow> (\<forall>(fid, p) \<in> set es. frame_ok s fid p)"

definition bp_inv :: "Sys \<Rightarrow> bool" where
  "bp_inv s \<longleftrightarrow> files_ok s \<and> (\<exists>es. fm_rel (sys_fm s) es \<and> frames_ok s es)"

text \<open>The content of a page, wherever it is.\<close>

definition page_view :: "Sys \<Rightarrow> int \<Rightarrow> PageNum \<Rightarrow> Page option" where
  "page_view s fd n = (case cached s fd n of Some p \<Rightarrow> Some (f_page (frame_of s p)) | None \<Rightarrow> read_file_page s fd n)"

text \<open>What no page access changes: the descriptors, the open pools and the behaviour of the disk.\<close>

definition sys_env :: "Sys \<Rightarrow> Sys \<Rightarrow> bool" where
  "sys_env s s' \<longleftrightarrow> sys_fd s' = sys_fd s \<and> sys_writable s' = sys_writable s \<and>
     buffer_pools s' = buffer_pools s \<and> fd_buffer_pools s' = fd_buffer_pools s"

lemma sys_env_refl [simp, intro]: "sys_env s s"
  by (simp add: sys_env_def)

lemma sys_env_trans: "sys_env s s' \<Longrightarrow> sys_env s' s'' \<Longrightarrow> sys_env s s''"
  by (simp add: sys_env_def)

lemma sys_env_simps [simp]:
  "sys_env s (frame_upd s' p g) = sys_env s s'" "sys_env s (s'\<lparr>sys_fm := fm\<rparr>) = sys_env s s'"
  by (simp_all add: sys_env_def)

lemma registered_cong: "fd_buffer_pools s' = fd_buffer_pools s \<Longrightarrow> registered s' fd = registered s fd"
  by (simp add: registered_def)

lemma disk_ok_cong: "sys_writable s' = sys_writable s \<Longrightarrow> disk_ok s' = disk_ok s"
  by (simp add: disk_ok_def)

lemma read_file_page_cong:
  "sys_fd s' = sys_fd s \<Longrightarrow> sys_file s' = sys_file s \<Longrightarrow> read_file_page s' fd n = read_file_page s fd n"
  by (simp add: read_file_page_def cong: option.case_cong)

lemma read_file_page_fm [simp]:
  "read_file_page (s\<lparr>sys_fm := fm\<rparr>) fd n = read_file_page s fd n"
  "read_file_page (frame_upd s p g) fd n = read_file_page s fd n"
  by (rule read_file_page_cong; simp)+

lemma files_ok_fm [simp]: "files_ok (s\<lparr>sys_fm := fm\<rparr>) = files_ok s" "files_ok (frame_upd s p g) = files_ok s"
  by (simp_all add: files_ok_def)

lemma registered_fm [simp]:
  "registered (s\<lparr>sys_fm := fm\<rparr>) fd = registered s fd" "registered (frame_upd s p g) fd = registered s fd"
  by (rule registered_cong; simp)+

lemma disk_ok_fm [simp]: "disk_ok (s\<lparr>sys_fm := fm\<rparr>) = disk_ok s" "disk_ok (frame_upd s p g) = disk_ok s"
  by (rule disk_ok_cong; simp)+

lemma frame_ok_cong:
  assumes "frame_ok s fid p" "read_file_page s' (fid_fd fid) (fid_page fid) = read_file_page s (fid_fd fid) (fid_page fid)"
    "registered s' (fid_fd fid)" "frame_of s' p = frame_of s p"
  shows "frame_ok s' fid p"
  using assms by (simp add: frame_ok_def)

lemma frames_okD: "frames_ok s es \<Longrightarrow> (fid, p) \<in> set es \<Longrightarrow> frame_ok s fid p"
  by (auto simp: frames_ok_def)


section \<open>Writing a page back\<close>

lemma write_file_page_ok:
  assumes "files_ok s" "disk_ok s" "sys_fd s fd \<noteq> None"
  shows "\<exists>s'. write_file_page s fd n page = Some s' \<and> sys_env s s' \<and> sys_fm s' = sys_fm s"
proof -
  obtain name where "sys_fd s fd = Some name" using assms(3) by auto
  moreover from this assms(1) obtain f where "sys_file s name = Some f" by (fastforce simp: files_ok_def)
  ultimately show ?thesis using assms(2) by (simp add: disk_ok_def write_file_page_def sys_env_def)
qed

definition fd_len :: "Sys \<Rightarrow> int \<Rightarrow> nat" where
  "fd_len s fd = (case sys_fd s fd of None \<Rightarrow> 0 | Some name \<Rightarrow> (case sys_file s name of None \<Rightarrow> 0 | Some f \<Rightarrow> file_len f))"

lemma read_file_page_len: "read_file_page s fd n \<noteq> None \<longleftrightarrow> n < fd_len s fd"
  by (simp add: read_file_page_def fd_len_def split: option.split)

lemma fd_len_fm [simp]: "fd_len (s\<lparr>sys_fm := fm\<rparr>) fd = fd_len s fd" "fd_len (frame_upd s p g) fd = fd_len s fd"
  by (simp_all add: fd_len_def cong: option.case_cong)

lemma write_file_page_read:
  assumes "write_file_page s fd n page = Some s'" "files_ok s" "n \<le> fd_len s fd"
  shows "read_file_page s' fd' n' = (if fd' = fd \<and> n' = n then Some page else read_file_page s fd' n')"
    and "fd_len s' fd' = (if fd' = fd then max (fd_len s fd) (Suc n) else fd_len s fd')"
proof -
  have inj: "sys_fd s fd = Some nm \<Longrightarrow> sys_fd s fd' = Some nm \<Longrightarrow> fd = fd'" for nm
    using assms(2) by (auto simp: files_ok_def)
  from assms(1) obtain name f where f: "sys_fd s fd = Some name" "sys_file s name = Some f"
    and s': "s' = s\<lparr>sys_file := (sys_file s)(name \<mapsto>
      \<lparr>file_len = max (file_len f) (Suc n), file_page = (file_page f)(n := page)\<rparr>)\<rparr>"
    by (auto simp: write_file_page_def split: option.splits if_splits)
  have fd': "sys_fd s fd' = Some name \<Longrightarrow> fd' = fd" using inj [OF f(1)] by blast
  show "read_file_page s' fd' n' = (if fd' = fd \<and> n' = n then Some page else read_file_page s fd' n')"
    using f fd' assms(3) by (cases "sys_fd s fd'") (auto simp: s' read_file_page_def fd_len_def)
  show "fd_len s' fd' = (if fd' = fd then max (fd_len s fd) (Suc n) else fd_len s fd')"
    using f fd' by (cases "sys_fd s fd'") (auto simp: s' fd_len_def)
qed

lemma write_file_page_files_ok:
  assumes "write_file_page s fd n page = Some s'" "files_ok s" "n \<le> fd_len s fd" "pg_num page = n"
  shows "files_ok s'"
proof -
  note r = write_file_page_read(1) [OF assms(1-3)]
  have "sys_fd s' = sys_fd s" "\<And>name. sys_file s name \<noteq> None \<Longrightarrow> sys_file s' name \<noteq> None"
    using assms(1) by (auto simp: write_file_page_def split: option.splits if_splits)
  with assms(2) show ?thesis
    unfolding files_ok_def using assms(4) by (auto simp: r split: if_splits)
qed

lemma flush_page_internal_ok:
  assumes "files_ok s" "disk_ok s" "f_fd (frame_of s p) = bp_fd bp" "sys_fd s (bp_fd bp) \<noteq> None"
    and n: "n = pg_num (f_page (frame_of s p))" "n \<le> fd_len s (bp_fd bp)"
  shows "\<exists>s'. flush_page_internal s bp p = (SUCCESS, s') \<and> files_ok s' \<and> sys_env s s' \<and>
    sys_fm s' = fm_upd (sys_fm s) p clear_dirty \<and>
    (\<forall>fd' n'. read_file_page s' fd' n' =
       (if fd' = bp_fd bp \<and> n' = n then Some (f_page (frame_of s p)) else read_file_page s fd' n')) \<and>
    (\<forall>fd'. fd_len s' fd' = (if fd' = bp_fd bp then max (fd_len s fd') (Suc n) else fd_len s fd'))"
proof -
  let ?page = "f_page (frame_of s p)"
  obtain s1 where w: "write_file_page s (bp_fd bp) n ?page = Some s1" "sys_env s s1" "sys_fm s1 = sys_fm s"
    using write_file_page_ok [OF assms(1,2,4)] by blast
  have "flush_page_internal s bp p = (SUCCESS, frame_upd s1 p clear_dirty)"
    using w(1) by (simp add: flush_page_internal_def n(1))
  with w write_file_page_read [OF w(1) assms(1) n(2)] write_file_page_files_ok [OF w(1) assms(1) n(2)] show ?thesis
    by (intro exI [of _ "frame_upd s1 p clear_dirty"]) (simp add: n(1))
qed

lemma frame_okD:
  assumes "frame_ok s fid p"
  shows "f_fd (frame_of s p) = fid_fd fid" "pg_num (f_page (frame_of s p)) = fid_page fid"
    "fid_page fid < fd_len s (fid_fd fid)" "sys_fd s (fid_fd fid) \<noteq> None" "registered s (fid_fd fid)"
    "f_pin (frame_of s p) \<ge> 0"
    "\<not> f_dirty (frame_of s p) \<Longrightarrow> read_file_page s (fid_fd fid) (fid_page fid) = Some (f_page (frame_of s p))"
  using assms by (auto simp: frame_ok_def frame_id_def simp flip: read_file_page_len)
    (auto simp: read_file_page_def split: option.splits)

text \<open>Flushing a good frame changes nothing but its dirty flag and its page on disk.\<close>

lemma frame_purger_ok:
  assumes "files_ok s" "disk_ok s" "frame_ok s fid p"
  shows "\<exists>s'. frame_purger bp s p = (SUCCESS, s') \<and> files_ok s' \<and> sys_env s s' \<and>
    sys_fm s' = (if f_dirty (frame_of s p) then fm_upd (sys_fm s) p clear_dirty else sys_fm s) \<and>
    (\<forall>fd' n'. read_file_page s' fd' n' =
       (if fd' = fid_fd fid \<and> n' = fid_page fid then Some (f_page (frame_of s p)) else read_file_page s fd' n'))"
proof (cases "f_dirty (frame_of s p)")
  case False
  with frame_okD(7) [OF assms(3)] assms(1) show ?thesis
    by (auto simp: frame_purger_def)
next
  case True
  note d = frame_okD [OF assms(3)]
  obtain bp1 where "map_of (fd_buffer_pools s) (fid_fd fid) = Some bp1" "bp_fd bp1 = fid_fd fid"
    using d(5) by (auto simp: registered_def)
  then have "frame_purger bp s p = flush_page_internal s (if fid_fd fid = bp_fd bp then bp else bp1) p"
    "bp_fd (if fid_fd fid = bp_fd bp then bp else bp1) = fid_fd fid"
    using True d(1) by (simp_all add: frame_purger_def BufferPoolManager_flush_page_def flush_page_def)
  then obtain bp' where bp': "frame_purger bp s p = flush_page_internal s bp' p" "bp_fd bp' = fid_fd fid" by blast
  with flush_page_internal_ok [OF assms(1,2), of p bp' "fid_page fid"] d True show ?thesis
    by auto
qed


section \<open>Evicting frames\<close>

lemma visit_purge_finder:
  "visit_entries (purge_finder (Suc 0)) xs ([], fr) =
     (case find (\<lambda>(fid, p). can_purge (fr p)) xs of
        None \<Rightarrow> ([], fr) | Some (fid, p) \<Rightarrow> ([p], fr(p := frame_pin (fr p))))"
  by (induction xs) (auto simp: purge_finder_def)

text \<open>The states an eviction may lead to: one frame less in the cache, every page as it was.\<close>

definition evicted :: "Sys \<Rightarrow> (FrameId \<times> nat) list \<Rightarrow> FrameId \<Rightarrow> nat \<Rightarrow> Sys \<Rightarrow> bool" where
  "evicted s es fid p s' \<longleftrightarrow>
     files_ok s' \<and> sys_env s s' \<and> fm_rel (sys_fm s') (drop_key fid es) \<and> frames_ok s' (drop_key fid es) \<and>
     fm_frees (sys_fm s') = fm_frees (sys_fm s) @ [p] \<and> (\<forall>q. q \<noteq> p \<longrightarrow> frame_of s' q = frame_of s q) \<and>
     (\<forall>fd n. read_file_page s' fd n =
        (if fid = \<lparr>fid_fd = fd, fid_page = n\<rparr> then Some (f_page (frame_of s p)) else read_file_page s fd n))"

lemma fid_eq_iff: "fid = \<lparr>fid_fd = fd, fid_page = n\<rparr> \<longleftrightarrow> fid_fd fid = fd \<and> fid_page fid = n"
  by (cases fid) auto

lemma drop_key_set: "distinct (map fst es) \<Longrightarrow> (k, v) \<in> set es \<Longrightarrow> set (drop_key k es) = set es - {(k, v)}"
  by (auto simp: drop_key_def dest: eq_key_imp_eq_value)

lemma fm_rel_other_frame:
  "fm_rel fm es \<Longrightarrow> (fid, p) \<in> set es \<Longrightarrow> (fid', q) \<in> set es \<Longrightarrow> fid' \<noteq> fid \<Longrightarrow> q \<noteq> p"
  using fm_rel_entry_unique by blast

text \<open>Flushing a frame that only its evictor has pinned and returning it to the pool.\<close>

lemma evict_pinned:
  assumes inv: "files_ok s" "disk_ok s" "fm_rel (sys_fm s) es" "frames_ok s es"
    and e: "(fid, p) \<in> set es" "f_pin (frame_of s p) = 1"
  shows "\<exists>s2. frame_purger bp s p = (SUCCESS, s2) \<and> frame_id (frame_of s2 p) = fid \<and>
    evicted s es fid p (s2\<lparr>sys_fm := free_internal (sys_fm s2) fid p\<rparr>)"
proof -
  have ok: "frame_ok s fid p" using frames_okD [OF inv(4) e(1)] .
  obtain s2 where s2: "frame_purger bp s p = (SUCCESS, s2)" "files_ok s2" "sys_env s s2"
    "sys_fm s2 = (if f_dirty (frame_of s p) then fm_upd (sys_fm s) p clear_dirty else sys_fm s)"
    "\<And>fd n. read_file_page s2 fd n =
       (if fd = fid_fd fid \<and> n = fid_page fid then Some (f_page (frame_of s p)) else read_file_page s fd n)"
    using frame_purger_ok [OF inv(1,2) ok] by blast
  have fid: "frame_id (frame_of s2 p) = fid" using ok s2(4) by (simp add: frame_ok_def)
  have pin: "f_pin (frame_of s2 p) = 1" using s2(4) e(2) by simp
  have keep: "frame_of s2 q = frame_of s q" if "q \<noteq> p" for q using s2(4) that by simp
  have "p \<in> snd ` set es" using e(1) by force
  then have rel: "fm_rel (sys_fm s2) es" using inv(3) s2(4) by (auto intro!: fm_rel_upd_used)
  let ?s3 = "s2\<lparr>sys_fm := free_internal (sys_fm s2) fid p\<rparr>"
  note free = free_internal_spec [OF rel e(1) pin]
  have "frame_ok ?s3 fid' q" if m: "(fid', q) \<in> set (drop_key fid es)" for fid' q
  proof (rule frame_ok_cong)
    have m': "(fid', q) \<in> set es" "fid' \<noteq> fid" using m by (auto simp: drop_key_def)
    then show "frame_ok s fid' q" using frames_okD [OF inv(4)] by blast
    then show "registered ?s3 (fid_fd fid')" using s2(3) by (auto simp: frame_ok_def sys_env_def registered_def)
    show "frame_of ?s3 q = frame_of s q"
      using fm_rel_other_frame [OF inv(3) e(1) m'] keep free(2) by simp
    show "read_file_page ?s3 (fid_fd fid') (fid_page fid') = read_file_page s (fid_fd fid') (fid_page fid')"
      using m'(2) by (cases fid, cases fid') (auto simp: s2(5))
  qed
  moreover have "fm_frees (sys_fm s2) = fm_frees (sys_fm s)" using s2(4) by simp
  ultimately have "evicted s es fid p ?s3"
    unfolding evicted_def frames_ok_def using s2(2,3) free keep
    by (auto simp: s2(5) fid_eq_iff)
  with s2(1) fid show ?thesis by blast
qed

lemma purge_one:
  assumes inv: "files_ok s" "disk_ok s" "fm_rel (sys_fm s) es" "frames_ok s es"
    and e: "(fid, p) \<in> set es" "f_pin (frame_of s p) = 0"
  shows "\<exists>s'. purge_all (frame_purger bp) (frame_upd s p frame_pin) [p] 0 = (1, s') \<and> evicted s es fid p s'"
proof -
  let ?s1 = "frame_upd s p frame_pin"
  have "p \<in> snd ` set es" using e(1) by force
  then have rel: "fm_rel (sys_fm ?s1) es" using inv(3) by (simp add: fm_rel_upd_used)
  have "frame_ok ?s1 fid' q" if "(fid', q) \<in> set es" for fid' q
    using frames_okD [OF inv(4) that] by (cases "q = p") (simp_all add: frame_ok_def)
  then have "frames_ok ?s1 es" by (auto simp: frames_ok_def)
  then obtain s2 where s2: "frame_purger bp ?s1 p = (SUCCESS, s2)" "frame_id (frame_of s2 p) = fid"
    "evicted ?s1 es fid p (s2\<lparr>sys_fm := free_internal (sys_fm s2) fid p\<rparr>)"
    using evict_pinned [of ?s1 es fid p bp] inv(1,2) rel e by auto
  then have "evicted s es fid p (s2\<lparr>sys_fm := free_internal (sys_fm s2) fid p\<rparr>)"
    by (simp add: evicted_def sys_env_def)
  with s2(1,2) show ?thesis by auto
qed

lemma purge_frames_one:
  assumes inv: "files_ok s" "disk_ok s" "fm_rel (sys_fm s) es" "frames_ok s es"
    and ex: "\<exists>(fid, p) \<in> set es. f_pin (frame_of s p) = 0"
  shows "\<exists>fid p s'. (fid, p) \<in> set es \<and> f_pin (frame_of s p) = 0 \<and>
     purge_frames s 1 (frame_purger bp) = Some (1, s') \<and> evicted s es fid p s'"
proof -
  obtain fid p where f: "find (\<lambda>(fid, p). can_purge (frame_of s p)) (rev es) = Some (fid, p)"
    using ex by (cases "find (\<lambda>(fid, p). can_purge (frame_of s p)) (rev es)") (auto simp: find_None_iff can_purge_def)
  then have e: "(fid, p) \<in> set es" "f_pin (frame_of s p) = 0"
    by (auto simp: find_Some_iff can_purge_def) (metis nth_mem length_rev set_rev)
  obtain s' where "purge_all (frame_purger bp) (frame_upd s p frame_pin) [p] 0 = (1, s')" "evicted s es fid p s'"
    using purge_one [OF inv e] by blast
  moreover have "purge_frames s 1 (frame_purger bp) = Some (purge_all (frame_purger bp) (frame_upd s p frame_pin) [p] 0)"
    using f by (simp add: purge_frames_def lru_foreach_reverse_abs [OF fm_relD(1) [OF inv(3)]] visit_purge_finder
        frame_upd_def fm_upd_def Let_def del: purge_all.simps)
  ultimately show ?thesis using e by auto
qed


lemma page_view_entries:
  "fm_rel (sys_fm s) es \<Longrightarrow> page_view s fd n =
     (case map_of es \<lparr>fid_fd = fd, fid_page = n\<rparr> of Some p \<Rightarrow> Some (f_page (frame_of s p)) | None \<Rightarrow> read_file_page s fd n)"
  by (simp add: page_view_def cached_map_of)

lemma evicted_view:
  assumes "evicted s es fid p s'" "fm_rel (sys_fm s) es" "(fid, p) \<in> set es"
  shows "page_view s' fd n = page_view s fd n"
proof -
  have d: "distinct (map fst es)" using fm_relD(2) [OF assms(2)] .
  note m = lru.map_of_drop_key
  have rel: "fm_rel (sys_fm s') (drop_key fid es)" using assms(1) by (simp add: evicted_def)
  show ?thesis
  proof (cases "fid = \<lparr>fid_fd = fd, fid_page = n\<rparr>")
    case True
    then show ?thesis
      using assms(1) d assms(3) by (simp add: page_view_entries [OF rel] page_view_entries [OF assms(2)] m evicted_def)
  next
    case False
    have "frame_of s' q = frame_of s q" if "map_of es \<lparr>fid_fd = fd, fid_page = n\<rparr> = Some q" for q
    proof -
      have "q \<noteq> p" using fm_rel_other_frame [OF assms(2,3) map_of_SomeD [OF that]] False by blast
      then show ?thesis using assms(1) by (simp add: evicted_def)
    qed
    then show ?thesis
      using False assms(1)
      by (auto simp: page_view_entries [OF rel] page_view_entries [OF assms(2)] m evicted_def split: option.split)
  qed
qed

definition evictable :: "Sys \<Rightarrow> bool" where
  "evictable s \<longleftrightarrow> fm_frees (sys_fm s) \<noteq> [] \<or> (\<exists>p \<in> set (fm_used (sys_fm s)). f_pin (frame_of s p) = 0)"

text \<open>What a new frame for an uncached page leaves behind.\<close>

definition frame_allocated :: "Sys \<Rightarrow> (FrameId \<times> nat) list \<Rightarrow> FrameId \<Rightarrow> nat \<Rightarrow> Sys \<Rightarrow> (FrameId \<times> nat) list \<Rightarrow> bool" where
  "frame_allocated s es fid p s' es' \<longleftrightarrow>
     files_ok s' \<and> sys_env s s' \<and> fm_rel (sys_fm s') ((fid, p) # es') \<and> frames_ok s' es' \<and>
     f_pin (frame_of s' p) = 1 \<and> pg_num (f_page (frame_of s' p)) = fid_page fid \<and>
     set es' \<subseteq> set es \<and> (\<forall>(fid', q) \<in> set es. f_pin (frame_of s q) \<noteq> 0 \<longrightarrow> (fid', q) \<in> set es') \<and>
     (\<forall>(fid', q) \<in> set es'. frame_of s' q = frame_of s q) \<and>
     (\<forall>fd n. fid \<noteq> \<lparr>fid_fd = fd, fid_page = n\<rparr> \<longrightarrow> page_view s' fd n = page_view s fd n) \<and>
     (\<forall>fd. fd_len s' fd = fd_len s fd) \<and>
     read_file_page s' (fid_fd fid) (fid_page fid) = read_file_page s (fid_fd fid) (fid_page fid)"

lemma allocate_from_pool:
  assumes inv: "files_ok s" "fm_rel (sys_fm s) es" "frames_ok s es"
    and n: "map_of es \<lparr>fid_fd = bp_fd bp, fid_page = n\<rparr> = None" and free: "fm_frees (sys_fm s) \<noteq> []"
  shows "\<exists>p s'. allocate_frame s bp n = Some (p, s') \<and> frame_allocated s es \<lparr>fid_fd = bp_fd bp, fid_page = n\<rparr> p s' es"
proof -
  let ?fid = "\<lparr>fid_fd = bp_fd bp, fid_page = n\<rparr>"
  note d = fm_relD [OF inv(2)]
  obtain p ps where ps: "fm_frees (sys_fm s) = p # ps" using free by (cases "fm_frees (sys_fm s)") auto
  obtain fm where fm: "BPFrameManager_alloc (sys_fm s) (bp_fd bp) n = (Some p, fm)" "fm_rel fm ((?fid, p) # es)"
    "fm_frame fm = (fm_frame (sys_fm s))(p := frame_pin (set_page_num n (fm_frame (sys_fm s) p)))"
    using alloc_free_frame [OF inv(2) n ps] by blast
  let ?s = "s\<lparr>sys_fm := fm\<rparr>"
  have ne: "q \<noteq> p" if "(fid', q) \<in> set es" for fid' q
    using d(4,7) ps that by force
  then have ne': "(fid', p) \<notin> set es" for fid' by blast
  have "frames_ok ?s es"
    unfolding frames_ok_def
  proof clarify
    fix fid' q assume m: "(fid', q) \<in> set es"
    show "frame_ok ?s fid' q"
      by (rule frame_ok_cong [OF frames_okD [OF inv(3) m]])
        (use frames_okD [OF inv(3) m] ne [OF m] fm(3) in \<open>simp_all add: frame_ok_def\<close>)
  qed
  moreover have "page_view ?s fd' n' = page_view s fd' n'" if "?fid \<noteq> \<lparr>fid_fd = fd', fid_page = n'\<rparr>" for fd' n'
    using that fm(2,3) ne
    by (auto simp: page_view_entries [OF inv(2)] page_view_entries [of ?s "(?fid, p) # es"] dest: map_of_SomeD split: option.split)
  ultimately have "frame_allocated s es ?fid p ?s es"
    unfolding frame_allocated_def using inv(1) fm(2,3) d(8) ps ne' by auto
  moreover have "allocate_frame s bp n = Some (p, ?s)"
    by (subst allocate_frame.simps) (simp add: fm(1))
  ultimately show ?thesis by blast
qed

lemma evicted_len:
  assumes "evicted s es fid p s'" "frame_ok s fid p"
  shows "fd_len s' fd = fd_len s fd"
proof -
  have "n < fd_len s' fd \<longleftrightarrow> n < fd_len s fd" for n
    using assms frame_okD(3) [OF assms(2)]
    by (auto simp: evicted_def fid_eq_iff simp flip: read_file_page_len split: if_splits)
  then show ?thesis by (metis linorder_neqE_nat less_irrefl)
qed

lemma evicted_then_allocated:
  assumes ev: "evicted s es fid0 p0 s1" "fm_rel (sys_fm s) es" "(fid0, p0) \<in> set es" "f_pin (frame_of s p0) = 0"
    and al: "frame_allocated s1 (drop_key fid0 es) fid p s' es'" and ok: "frame_ok s fid0 p0" and ne: "fid \<noteq> fid0"
  shows "frame_allocated s es fid p s' es'"
proof -
  have set: "set (drop_key fid0 es) = set es - {(fid0, p0)}"
    using drop_key_set [OF fm_relD(2) [OF ev(2)] ev(3)] .
  have keep: "frame_of s1 q = frame_of s q" if "(fid', q) \<in> set es - {(fid0, p0)}" for fid' q
  proof -
    have "q \<noteq> p0" using that fm_rel_entry_unique [OF ev(2,3)] by blast
    then show ?thesis using ev(1) by (simp add: evicted_def)
  qed
  have pin: "(fid', q) \<in> set es'" if m: "(fid', q) \<in> set es" "f_pin (frame_of s q) \<noteq> 0" for fid' q
  proof -
    have e: "(fid', q) \<in> set es - {(fid0, p0)}" using m ev(4) by auto
    have "\<forall>(fid', q) \<in> set (drop_key fid0 es). f_pin (frame_of s1 q) \<noteq> 0 \<longrightarrow> (fid', q) \<in> set es'"
      using al by (simp add: frame_allocated_def)
    from bspec [OF this, of "(fid', q)"] e show ?thesis using keep [of fid' q] m(2) by (simp add: set)
  qed
  have fr: "frame_of s' q = frame_of s q" if "(fid', q) \<in> set es'" for fid' q
  proof -
    have e: "(fid', q) \<in> set es - {(fid0, p0)}" using al that by (auto simp: frame_allocated_def set)
    have "\<forall>(fid', q) \<in> set es'. frame_of s' q = frame_of s1 q"
      using al by (simp add: frame_allocated_def)
    from bspec [OF this that] e show ?thesis using keep [of fid' q] by simp
  qed
  have rd: "read_file_page s1 (fid_fd fid) (fid_page fid) = read_file_page s (fid_fd fid) (fid_page fid)"
    using ev(1) ne by (auto simp: evicted_def)
  have "sys_env s s'" using al ev(1) sys_env_trans [of s s1 s'] by (simp add: evicted_def frame_allocated_def)
  moreover have "set es' \<subseteq> set es" using al by (auto simp: frame_allocated_def set)
  ultimately show ?thesis
    using al pin fr unfolding frame_allocated_def rd evicted_view [OF ev(1-3)] evicted_len [OF ev(1) ok]
    by (intro conjI) blast+
qed

lemma allocate_frame_ok:
  assumes inv: "files_ok s" "disk_ok s" "fm_rel (sys_fm s) es" "frames_ok s es" "evictable s"
    and n: "map_of es \<lparr>fid_fd = bp_fd bp, fid_page = n\<rparr> = None"
  shows "\<exists>p s' es'. allocate_frame s bp n = Some (p, s') \<and> frame_allocated s es \<lparr>fid_fd = bp_fd bp, fid_page = n\<rparr> p s' es'"
proof (cases "fm_frees (sys_fm s) = []")
  case False
  then show ?thesis using allocate_from_pool [OF inv(1,3,4) n] by blast
next
  case True
  let ?fid = "\<lparr>fid_fd = bp_fd bp, fid_page = n\<rparr>"
  have "\<exists>(fid, p) \<in> set es. f_pin (frame_of s p) = 0"
    using inv(5) True fm_relD(4) [OF inv(3)] by (fastforce simp: evictable_def)
  then obtain fid p s1 where e: "(fid, p) \<in> set es" "f_pin (frame_of s p) = 0"
    and pf: "purge_frames s 1 (frame_purger bp) = Some (1, s1)" and ev: "evicted s es fid p s1"
    using purge_frames_one [OF inv(1-4)] by blast
  have ev': "files_ok s1" "fm_rel (sys_fm s1) (drop_key fid es)" "frames_ok s1 (drop_key fid es)" "fm_frees (sys_fm s1) \<noteq> []"
    using ev by (simp_all add: evicted_def)
  have "map_of (drop_key fid es) ?fid = None" using n by (simp add: lru.map_of_drop_key)
  then obtain q s2 where a: "allocate_frame s1 bp n = Some (q, s2)" "frame_allocated s1 (drop_key fid es) ?fid q s2 (drop_key fid es)"
    using allocate_from_pool [OF ev'(1-3)] ev'(4) by blast
  have "?fid \<noteq> fid" using n e(1) fm_relD(2) [OF inv(3)] by auto
  then have "frame_allocated s es ?fid q s2 (drop_key fid es)"
    using evicted_then_allocated [OF ev inv(3) e a(2) frames_okD [OF inv(4) e(1)]] by blast
  moreover have "allocate_frame s bp n = Some (q, s2)"
    by (subst allocate_frame.simps) (simp add: alloc_full [OF inv(3) n True] pf a(1))
  ultimately show ?thesis by blast
qed


section \<open>Fetching a page\<close>

definition page_fetched :: "Sys \<Rightarrow> DiskBufferPool \<Rightarrow> PageNum \<Rightarrow> nat \<Rightarrow> Sys \<Rightarrow> bool" where
  "page_fetched s bp n p s' \<longleftrightarrow>
     bp_inv s' \<and> sys_env s s' \<and> cached s' (bp_fd bp) n = Some p \<and>
     (cached s (bp_fd bp) n = None \<or> cached s (bp_fd bp) n = Some p) \<and>
     f_pin (frame_of s' p) = (if cached s (bp_fd bp) n = None then 1 else f_pin (frame_of s p) + 1) \<and>
     page_view s (bp_fd bp) n = Some (f_page (frame_of s' p)) \<and>
     (\<forall>fd' n'. page_view s' fd' n' = page_view s fd' n') \<and> (\<forall>fd'. fd_len s' fd' = fd_len s fd') \<and>
     (\<forall>fd' n' q. cached s fd' n' = Some q \<and> f_pin (frame_of s q) \<noteq> 0 \<longrightarrow>
        cached s' fd' n' = Some q \<and> (q \<noteq> p \<longrightarrow> frame_of s' q = frame_of s q))"

lemma bp_invE:
  assumes "bp_inv s"
  obtains es where "files_ok s" "fm_rel (sys_fm s) es" "frames_ok s es"
  using assms by (auto simp: bp_inv_def)

lemma bp_invI:
  "files_ok s \<Longrightarrow> fm_rel (sys_fm s) es \<Longrightarrow> (\<And>fid p. (fid, p) \<in> set es \<Longrightarrow> frame_ok s fid p) \<Longrightarrow> bp_inv s"
  by (auto simp: bp_inv_def frames_ok_def)

lemma get_cached_page:
  assumes "bp_inv s" "cached s (bp_fd bp) n = Some p"
  shows "\<exists>s'. get_this_page s bp n = Some (Inr p, s') \<and> page_fetched s bp n p s' \<and>
    BPFrameManager_get (sys_fm s) (bp_fd bp) n = (Some p, sys_fm s') \<and> s' = s\<lparr>sys_fm := sys_fm s'\<rparr> \<and>
    fm_frame (sys_fm s') = (fm_frame (sys_fm s))(p := frame_pin (frame_of s p)) \<and>
    (\<forall>fd' n'. cached s' fd' n' = cached s fd' n') \<and> fm_used (sys_fm s') = fm_used (sys_fm s) \<and>
    fm_frees (sys_fm s') = fm_frees (sys_fm s)"
proof -
  let ?fid = "\<lparr>fid_fd = bp_fd bp, fid_page = n\<rparr>"
  obtain es where inv: "files_ok s" "fm_rel (sys_fm s) es" "frames_ok s es" using assms(1) by (rule bp_invE)
  have m: "map_of es ?fid = Some p" using assms(2) by (simp add: cached_map_of [OF inv(2)])
  obtain fm where fm: "get_internal (sys_fm s) ?fid = (Some p, fm)" "fm_rel fm ((?fid, p) # drop_key ?fid es)"
    "fm_frame fm = (fm_frame (sys_fm s))(p := frame_pin (fm_frame (sys_fm s) p))"
    "fm_used fm = fm_used (sys_fm s)" "fm_frees fm = fm_frees (sys_fm s)"
    using get_internal_hit [OF inv(2) m] by blast
  let ?s = "s\<lparr>sys_fm := fm\<rparr>" and ?es = "(?fid, p) # drop_key ?fid es"
  have rel: "fm_rel (sys_fm ?s) ?es" using fm(2) by simp
  have mo: "map_of ?es = map_of es" using m by (auto simp: lru.map_of_drop_key)
  have set: "set ?es = set es" by (rule lru.set_promote [OF fm_relD(1) [OF inv(2)] m])
  have same: "cached ?s fd' n' = cached s fd' n'" for fd' n'
    unfolding cached_map_of [OF rel] cached_map_of [OF inv(2)] mo ..
  have "frame_ok ?s fid' q" if "(fid', q) \<in> set es" for fid' q
    using frames_okD [OF inv(3) that] fm(3) by (cases "q = p") (simp_all add: frame_ok_def)
  then have "bp_inv ?s"
    by (intro bp_invI [OF _ rel]) (use inv(1) in \<open>simp_all only: set files_ok_fm\<close>)
  moreover have view: "page_view ?s fd' n' = page_view s fd' n'" for fd' n'
    using fm(3) by (simp add: page_view_def same split: option.split)
  moreover have "page_view s (bp_fd bp) n = Some (f_page (frame_of ?s p))"
    using assms(2) fm(3) by (simp add: page_view_def)
  ultimately have "page_fetched s bp n p ?s"
    unfolding page_fetched_def same using assms(2) fm(3) by auto
  moreover have "BPFrameManager_get (sys_fm s) (bp_fd bp) n = (Some p, fm)"
    using fm(1) by (simp add: BPFrameManager_get_def)
  moreover from this have "get_this_page s bp n = Some (Inr p, ?s)"
    by (simp add: get_this_page_def)
  ultimately show ?thesis using same fm(3-5) by (intro exI [of _ ?s]) simp
qed

lemma get_uncached_page:
  assumes inv: "bp_inv s" "disk_ok s" "evictable s" "registered s (bp_fd bp)"
    and n: "cached s (bp_fd bp) n = None" "page_view s (bp_fd bp) n \<noteq> None"
  shows "\<exists>p s'. get_this_page s bp n = Some (Inr p, s') \<and> page_fetched s bp n p s'"
proof -
  let ?fid = "\<lparr>fid_fd = bp_fd bp, fid_page = n\<rparr>"
  obtain es where es: "files_ok s" "fm_rel (sys_fm s) es" "frames_ok s es" using inv(1) by (rule bp_invE)
  have m: "map_of es ?fid = None" using n(1) by (simp add: cached_map_of [OF es(2)])
  obtain p s1 es1 where a: "allocate_frame s bp n = Some (p, s1)" and fa: "frame_allocated s es ?fid p s1 es1"
    using allocate_frame_ok [OF es(1) inv(2) es(2,3) inv(3) m] by blast
  obtain page where page: "read_file_page s (bp_fd bp) n = Some page" "page_view s (bp_fd bp) n = Some page"
    using n by (auto simp: page_view_def)
  have fa': "files_ok s1" "sys_env s s1" "fm_rel (sys_fm s1) ((?fid, p) # es1)" "frames_ok s1 es1"
    "f_pin (frame_of s1 p) = 1" "set es1 \<subseteq> set es"
    "\<And>fid' q. (fid', q) \<in> set es \<Longrightarrow> f_pin (frame_of s q) \<noteq> 0 \<Longrightarrow> (fid', q) \<in> set es1"
    "\<And>fid' q. (fid', q) \<in> set es1 \<Longrightarrow> frame_of s1 q = frame_of s q"
    "\<And>fd n. ?fid \<noteq> \<lparr>fid_fd = fd, fid_page = n\<rparr> \<Longrightarrow> page_view s1 fd n = page_view s fd n"
    "\<And>fd. fd_len s1 fd = fd_len s fd" "read_file_page s1 (bp_fd bp) n = Some page"
    using fa page(1) unfolding frame_allocated_def by auto
  note rel1 = fm_relD [OF fa'(3)]
  let ?s2 = "frame_upd (frame_upd s1 p (set_file_desc (bp_fd bp))) p (\<lambda>f. f\<lparr>f_page := page\<rparr>)"
  have run: "get_this_page s bp n = Some (Inr p, ?s2)"
    using n(1) a fa'(11) get_internal_miss [OF es(2) m]
    by (simp add: get_this_page_def BPFrameManager_get_def load_page_def Let_def)
  have ne: "q \<noteq> p" if "(fid', q) \<in> set es1" for fid' q using rel1(3) that by force
  have rel2: "fm_rel (sys_fm ?s2) ((?fid, p) # es1)"
    using fa'(3) by (auto intro!: fm_rel_upd_used)
  have "pg_num page = n" using es(1) page(1) by (auto simp: files_ok_def)
  then have "frame_ok ?s2 ?fid p"
    using fa'(5,11) inv(4) fa'(2) by (simp add: frame_ok_def frame_id_def sys_env_def registered_def)
  moreover have "frame_ok ?s2 fid' q" if "(fid', q) \<in> set es1" for fid' q
    by (rule frame_ok_cong [OF frames_okD [OF fa'(4) that]])
      (use frames_okD [OF fa'(4) that] ne [OF that] in \<open>simp_all add: frame_ok_def\<close>)
  ultimately have inv2: "bp_inv ?s2"
    by (intro bp_invI [OF _ rel2]) (use fa'(1) in auto)
  have c2: "cached ?s2 fd' n' = map_of ((?fid, p) # es1) \<lparr>fid_fd = fd', fid_page = n'\<rparr>" for fd' n'
    by (rule cached_map_of [OF rel2])
  have c1: "cached s1 fd' n' = map_of ((?fid, p) # es1) \<lparr>fid_fd = fd', fid_page = n'\<rparr>" for fd' n'
    by (rule cached_map_of [OF fa'(3)])
  have view: "page_view ?s2 fd' n' = page_view s fd' n'" for fd' n'
  proof (cases "?fid = \<lparr>fid_fd = fd', fid_page = n'\<rparr>")
    case True
    then show ?thesis using page(2) c2 by (simp add: page_view_def)
  next
    case False
    have "q \<noteq> p" if "map_of es1 \<lparr>fid_fd = fd', fid_page = n'\<rparr> = Some q" for q
      using map_of_SomeD [OF that] ne by blast
    then have "page_view ?s2 fd' n' = page_view s1 fd' n'"
      using False by (auto simp: page_view_def c1 c2 split: option.split)
    with fa'(9) [OF False] show ?thesis by simp
  qed
  have keep: "cached ?s2 fd' n' = Some q \<and> frame_of ?s2 q = frame_of s q"
    if "cached s fd' n' = Some q" "f_pin (frame_of s q) \<noteq> 0" for fd' n' q
  proof -
    have "(\<lparr>fid_fd = fd', fid_page = n'\<rparr>, q) \<in> set es"
      using that(1) by (simp add: cached_map_of [OF es(2)] map_of_SomeD)
    then have e: "(\<lparr>fid_fd = fd', fid_page = n'\<rparr>, q) \<in> set es1" using fa'(7) that(2) by blast
    then have "map_of ((?fid, p) # es1) \<lparr>fid_fd = fd', fid_page = n'\<rparr> = Some q"
      using rel1(2) by (intro map_of_is_SomeI) auto
    then show ?thesis using c2 fa'(8) [OF e] ne [OF e] by simp
  qed
  have c: "cached ?s2 (bp_fd bp) n = Some p" using c2 by simp
  have "page_fetched s bp n p ?s2"
    unfolding page_fetched_def view using inv2 fa'(2,5,10) n(1) page(2) c by (intro conjI allI impI keep) (auto dest: keep)
  with run show ?thesis by blast
qed

lemma get_this_page_ok:
  assumes "bp_inv s" "disk_ok s" "registered s (bp_fd bp)" "page_view s (bp_fd bp) n \<noteq> None"
    and "cached s (bp_fd bp) n \<noteq> None \<or> evictable s"
  shows "\<exists>p s'. get_this_page s bp n = Some (Inr p, s') \<and> page_fetched s bp n p s'"
  using assms get_cached_page [OF assms(1)] get_uncached_page [OF assms(1,2) _ assms(3)]
  by (cases "cached s (bp_fd bp) n") blast+


text \<open>Giving a fetched frame back leaves a frame to evict, if there was one before.\<close>

lemma unpinned_room:
  assumes "fm_rel (sys_fm s) es" "cached s fd n = Some p" "f_pin (frame_of s p) = 1"
  shows "evictable (frame_upd s p frame_unpin)"
proof -
  have "(\<lparr>fid_fd = fd, fid_page = n\<rparr>, p) \<in> set es" using assms(1,2) by (simp add: cached_map_of map_of_SomeD)
  then have "p \<in> set (fm_used (sys_fm s))" using fm_relD(4) [OF assms(1)] by force
  then show ?thesis using assms(3) by (auto simp: evictable_def)
qed

lemma fetched_room:
  assumes "bp_inv s" "evictable s" "get_this_page s bp n = Some (Inr p, s')" "page_fetched s bp n p s'"
  shows "evictable (frame_upd s' p frame_unpin)"
proof (cases "cached s (bp_fd bp) n")
  case None
  have "bp_inv s'" "cached s' (bp_fd bp) n = Some p" "f_pin (frame_of s' p) = 1"
    using assms(4) None by (simp_all add: page_fetched_def)
  then show ?thesis by (elim bp_invE) (rule unpinned_room)
next
  case (Some q)
  then have "s' = s\<lparr>sys_fm := sys_fm s'\<rparr>" and fr: "fm_frame (sys_fm s') = (fm_frame (sys_fm s))(q := frame_pin (frame_of s q))"
    and "q = p" and us: "fm_used (sys_fm s') = fm_used (sys_fm s)" "fm_frees (sys_fm s') = fm_frees (sys_fm s)"
    using get_cached_page [OF assms(1) Some] assms(3) by auto
  then have "f_pin (frame_of (frame_upd s' p frame_unpin) x) = f_pin (frame_of s x)" for x by simp
  with us assms(2) show ?thesis unfolding evictable_def by simp
qed


section \<open>Writing through a frame and releasing it\<close>

lemma cached_frame_upd [simp]: "cached (frame_upd s p g) fd n = cached s fd n"
  by (simp add: cached_def)

lemma cached_entry:
  assumes "fm_rel (sys_fm s) es" "cached s fd n = Some p"
  shows "(\<lparr>fid_fd = fd, fid_page = n\<rparr>, p) \<in> set es"
  using assms by (simp add: cached_map_of map_of_SomeD)

lemma cached_frame_ok: "bp_inv s \<Longrightarrow> cached s fd n = Some p \<Longrightarrow> frame_ok s \<lparr>fid_fd = fd, fid_page = n\<rparr> p"
  by (erule bp_invE) (blast dest: cached_entry frames_okD)

lemma cached_inj:
  assumes "bp_inv s" "cached s fd n = Some p" "cached s fd' n' = Some p"
  shows "fd' = fd \<and> n' = n"
  using cached_frame_ok [OF assms(1,2)] cached_frame_ok [OF assms(1,3)] by (simp add: frame_ok_def frame_id_def)

lemma cached_view: "cached s fd n = Some p \<Longrightarrow> page_view s fd n = Some (f_page (frame_of s p))"
  by (simp add: page_view_def)

text \<open>An update of a cached frame that keeps the frame good keeps the invariant.\<close>

lemma bp_inv_frame_upd:
  assumes inv: "bp_inv s" "cached s fd n = Some p" and ok: "frame_ok (frame_upd s p g) \<lparr>fid_fd = fd, fid_page = n\<rparr> p"
  shows "bp_inv (frame_upd s p g)"
proof -
  obtain es where es: "files_ok s" "fm_rel (sys_fm s) es" "frames_ok s es" using inv(1) by (rule bp_invE)
  have e: "(\<lparr>fid_fd = fd, fid_page = n\<rparr>, p) \<in> set es" by (rule cached_entry [OF es(2) inv(2)])
  have "p \<in> snd ` set es" using e by force
  then have rel: "fm_rel (sys_fm (frame_upd s p g)) es"
    using es(2) by (simp add: fm_rel_upd_used)
  show ?thesis
  proof (rule bp_invI [OF _ rel])
    show "files_ok (frame_upd s p g)" using es(1) by simp
  next
    fix fid q assume m: "(fid, q) \<in> set es"
    show "frame_ok (frame_upd s p g) fid q"
    proof (cases "q = p")
      case True
      with fm_rel_entry_unique [OF es(2) e] m ok show ?thesis by blast
    next
      case False
      with frames_okD [OF es(3) m] show ?thesis by (simp add: frame_ok_def)
    qed
  qed
qed

lemma page_view_frame_upd:
  assumes "bp_inv s" "cached s fd n = Some p"
  shows "page_view (frame_upd s p g) fd' n' =
    (if fd' = fd \<and> n' = n then Some (f_page (g (frame_of s p))) else page_view s fd' n')"
proof (cases "cached s fd' n'")
  case None
  with assms(2) show ?thesis by (auto simp: page_view_def)
next
  case (Some q)
  with assms(2) cached_inj [OF assms, of fd' n'] show ?thesis by (cases "q = p") (auto simp: page_view_def)
qed

lemma frame_write_ok:
  assumes "bp_inv s" "cached s fd n = Some p"
  shows "bp_inv (frame_write s p g)"
    and "page_view (frame_write s p g) fd' n' =
      (if fd' = fd \<and> n' = n then map_option (pg_data_update g) (page_view s fd n) else page_view s fd' n')"
proof -
  show "bp_inv (frame_write s p g)"
    unfolding frame_write_def using cached_frame_ok [OF assms]
    by (intro bp_inv_frame_upd [OF assms]) (simp add: frame_ok_def)
  show "page_view (frame_write s p g) fd' n' =
      (if fd' = fd \<and> n' = n then map_option (pg_data_update g) (page_view s fd n) else page_view s fd' n')"
    unfolding frame_write_def page_view_frame_upd [OF assms] using cached_view [OF assms(2)] by simp
qed

lemma frame_write_env [simp]:
  "cached (frame_write s p g) fd n = cached s fd n" "fd_len (frame_write s p g) fd = fd_len s fd"
  "sys_env s' (frame_write s p g) = sys_env s' s" "disk_ok (frame_write s p g) = disk_ok s"
  "registered (frame_write s p g) fd = registered s fd"
  "frame_of (frame_write s p g) q = (if q = p then mark_dirty (set_data (g (frame_data s p)) (frame_of s p)) else frame_of s q)"
  by (simp_all add: frame_write_def)

lemma unpin_ok:
  assumes "bp_inv s" "cached s fd n = Some p" "f_pin (frame_of s p) > 0"
  shows "bp_inv (frame_upd s p frame_unpin)" "page_view (frame_upd s p frame_unpin) fd' n' = page_view s fd' n'"
proof -
  show "bp_inv (frame_upd s p frame_unpin)"
    using cached_frame_ok [OF assms(1,2)] assms(3)
    by (intro bp_inv_frame_upd [OF assms(1,2)]) (simp add: frame_ok_def)
  show "page_view (frame_upd s p frame_unpin) fd' n' = page_view s fd' n'"
    by (simp add: page_view_frame_upd [OF assms(1,2)] cached_view [OF assms(2)])
qed


section \<open>The header page\<close>

definition page_allocated :: "mem \<Rightarrow> nat \<Rightarrow> bool" where
  "page_allocated m i \<longleftrightarrow> Bitmap_get_bit m (hdr_bitmap m) i"

text \<open>The header counts its pages and its allocated pages, and page 0 is allocated.\<close>

definition hdr_ok :: "mem \<Rightarrow> nat \<Rightarrow> bool" where
  "hdr_ok m len \<longleftrightarrow> hdr_page_count m = int len \<and> len \<le> MAX_PAGE_NUM \<and> 0 < len \<and> page_allocated m 0 \<and>
     hdr_allocated_pages m = int (card (used_slots (page_allocated m) len))"

lemma hdr_bit_base: "Bitmap_get_bit m (hdr_bitmap m') i = bit (m (8 + i div 8)) (i mod 8)"
  by (simp add: Bitmap_get_bit_iff hdr_bitmap_def)

lemma page_allocated_iff: "page_allocated m i \<longleftrightarrow> bit (m (8 + i div 8)) (i mod 8)"
  by (simp add: page_allocated_def hdr_bit_base)

lemma hdr_set_bit:
  "Bitmap_set_bit m (hdr_bitmap m') n a = m a" if "a < 8"
  using that by (simp add: Bitmap_set_bit_def hdr_bitmap_def Let_def)

lemma hdr_clear_bit:
  "Bitmap_clear_bit m (hdr_bitmap m') n a = m a" if "a < 8"
  using that by (simp add: Bitmap_clear_bit_def hdr_bitmap_def Let_def)

lemma hdr_counts_bits [simp]:
  "hdr_page_count (Bitmap_set_bit m (hdr_bitmap m') n) = hdr_page_count m"
  "hdr_allocated_pages (Bitmap_set_bit m (hdr_bitmap m') n) = hdr_allocated_pages m"
  "hdr_page_count (Bitmap_clear_bit m (hdr_bitmap m') n) = hdr_page_count m"
  "hdr_allocated_pages (Bitmap_clear_bit m (hdr_bitmap m') n) = hdr_allocated_pages m"
  unfolding hdr_page_count_def hdr_allocated_pages_def
  by (rule load_i32_cong; simp add: hdr_set_bit hdr_clear_bit)+

lemma hdr_counts_store [simp]:
  "hdr_page_count (store_i32 m 4 v) = hdr_page_count m" "hdr_allocated_pages (store_i32 m 0 v) = hdr_allocated_pages m"
  "i32_range v \<Longrightarrow> hdr_page_count (store_i32 m 0 v) = v" "i32_range v \<Longrightarrow> hdr_allocated_pages (store_i32 m 4 v) = v"
  by (simp_all add: hdr_page_count_def hdr_allocated_pages_def mem_simps)

lemma page_allocated_store [simp]:
  "page_allocated (store_i32 m 4 v) i = page_allocated m i" "page_allocated (store_i32 m 0 v) i = page_allocated m i"
  by (simp_all add: page_allocated_iff store_i32_outside)

lemma page_allocated_bits [simp]:
  "page_allocated (Bitmap_set_bit m (hdr_bitmap m') n) i \<longleftrightarrow> i = n \<or> page_allocated m i"
  "page_allocated (Bitmap_clear_bit m (hdr_bitmap m') n) i \<longleftrightarrow> i \<noteq> n \<and> page_allocated m i"
  using get_set_bit [of m "hdr_bitmap m'" n i] get_clear_bit [of m "hdr_bitmap m'" n i]
  by (simp_all add: hdr_bit_base page_allocated_iff)

lemma MAX_PAGE_NUM_eq: "MAX_PAGE_NUM = 4194176"
  by (simp add: MAX_PAGE_NUM_def BP_PAGE_DATA_SIZE_def BP_PAGE_SIZE_def)

lemma hdr_ok_range:
  assumes "hdr_ok m len"
  shows "i32_range (hdr_allocated_pages m + 1)" "i32_range (hdr_page_count m + 1)" "i32_range (hdr_allocated_pages m - 1)"
  using assms card_used_slots_le [of "page_allocated m" len] by (simp_all add: hdr_ok_def i32_range_def MAX_PAGE_NUM_eq)

lemma used_slots_insert: "i < len \<Longrightarrow> used_slots (\<lambda>j. j = i \<or> P j) len = insert i (used_slots P len)"
  by (auto simp: used_slots_def)

lemma used_slots_Suc: "used_slots P (Suc len) = (if P len then insert len (used_slots P len) else used_slots P len)"
  by (auto simp: used_slots_def less_Suc_eq)

lemma alloc_existing_ok:
  assumes "hdr_ok m len" "i < len" "\<not> page_allocated m i"
  shows "hdr_ok (alloc_existing i m) len" "page_allocated (alloc_existing i m) j \<longleftrightarrow> j = i \<or> page_allocated m j"
proof -
  show p: "page_allocated (alloc_existing i m) j \<longleftrightarrow> j = i \<or> page_allocated m j" for j
    by (simp add: alloc_existing_def)
  have "page_allocated (alloc_existing i m) = (\<lambda>j. j = i \<or> page_allocated m j)" using p by blast
  with assms show "hdr_ok (alloc_existing i m) len"
    using hdr_ok_range(1) [OF assms(1)]
    by (simp add: hdr_ok_def alloc_existing_def used_slots_insert) (simp add: used_slots_def)
qed

lemma alloc_new_ok:
  assumes "hdr_ok m len" "len < MAX_PAGE_NUM"
  shows "hdr_ok (alloc_new len m) (Suc len)" "page_allocated (alloc_new len m) j \<longleftrightarrow> j = len \<or> page_allocated m j"
proof -
  show p: "page_allocated (alloc_new len m) j \<longleftrightarrow> j = len \<or> page_allocated m j" for j
    by (simp add: alloc_new_def)
  then have "used_slots (page_allocated (alloc_new len m)) len = used_slots (page_allocated m) len"
    by (intro used_slots_cong) auto
  then have "card (used_slots (page_allocated (alloc_new len m)) (Suc len)) = Suc (card (used_slots (page_allocated m) len))"
    using p [of len] by (simp add: used_slots_Suc) (simp add: used_slots_def)
  with assms p show "hdr_ok (alloc_new len m) (Suc len)"
    using hdr_ok_range [OF assms(1)] by (simp add: hdr_ok_def alloc_new_def)
qed

lemma dispose_hdr_ok:
  assumes "hdr_ok m len" "n < len" "n \<noteq> 0" "page_allocated m n"
  shows "hdr_ok (dispose_hdr n m) len" "page_allocated (dispose_hdr n m) j \<longleftrightarrow> j \<noteq> n \<and> page_allocated m j"
proof -
  show p: "page_allocated (dispose_hdr n m) j \<longleftrightarrow> j \<noteq> n \<and> page_allocated m j" for j
    by (simp add: dispose_hdr_def)
  have "used_slots (page_allocated m) len = insert n (used_slots (page_allocated (dispose_hdr n m)) len)"
    using assms p by (auto simp: used_slots_def)
  moreover have "n \<notin> used_slots (page_allocated (dispose_hdr n m)) len" using p by (simp add: used_slots_def)
  ultimately have "card (used_slots (page_allocated m) len) = Suc (card (used_slots (page_allocated (dispose_hdr n m)) len))"
    by simp
  moreover have "hdr_page_count (dispose_hdr n m) = hdr_page_count m"
    "hdr_allocated_pages (dispose_hdr n m) = hdr_allocated_pages m - 1"
    using hdr_ok_range(3) [OF assms(1)] by (simp_all add: dispose_hdr_def)
  ultimately show "hdr_ok (dispose_hdr n m) len"
    using assms p by (simp add: hdr_ok_def)
qed

lemma find_unallocated_first:
  "(case find_unallocated m i cnt of
      None \<Rightarrow> \<forall>j. i \<le> j \<and> j < cnt \<longrightarrow> page_allocated m j
    | Some k \<Rightarrow> i \<le> k \<and> k < cnt \<and> \<not> page_allocated m k \<and> (\<forall>j. i \<le> j \<and> j < k \<longrightarrow> page_allocated m j))"
proof (induction m i cnt rule: find_unallocated.induct)
  case (1 m i cnt)
  show ?case
  proof (cases "i < cnt \<and> page_allocated m i")
    case True
    then have "find_unallocated m i cnt = find_unallocated m (Suc i) cnt"
      by (subst find_unallocated.simps) (simp add: page_allocated_def)
    with 1 True show ?thesis
      by (auto simp: page_allocated_def Suc_le_eq split: option.splits) (metis le_neq_implies_less)+
  next
    case False
    then show ?thesis by (subst find_unallocated.simps) (auto simp: page_allocated_def)
  qed
qed


section \<open>Allocating and disposing pages\<close>

definition pool_ok :: "Sys \<Rightarrow> DiskBufferPool \<Rightarrow> bool" where
  "pool_ok s bp \<longleftrightarrow> bp_inv s \<and> registered s (bp_fd bp) \<and> cached s (bp_fd bp) 0 = Some (bp_hdr bp) \<and>
     f_pin (frame_of s (bp_hdr bp)) > 0 \<and> hdr_ok (frame_data s (bp_hdr bp)) (fd_len s (bp_fd bp))"

definition pool_allocated :: "Sys \<Rightarrow> DiskBufferPool \<Rightarrow> nat \<Rightarrow> bool" where
  "pool_allocated s bp n \<longleftrightarrow> n < fd_len s (bp_fd bp) \<and> page_allocated (frame_data s (bp_hdr bp)) n"

lemma page_view_defined: "bp_inv s \<Longrightarrow> page_view s fd n \<noteq> None \<longleftrightarrow> n < fd_len s fd"
  using frame_okD(3) [OF cached_frame_ok [of s fd n]]
  by (cases "cached s fd n") (auto simp: page_view_def simp flip: read_file_page_len)

lemma evictable_frame_write [simp]: "evictable (frame_write s p g) = evictable s"
proof -
  have "f_pin (frame_of (frame_write s p g) q) = f_pin (frame_of s q)" for q by simp
  moreover have "fm_frees (sys_fm (frame_write s p g)) = fm_frees (sys_fm s)"
    "fm_used (sys_fm (frame_write s p g)) = fm_used (sys_fm s)" by (simp_all add: frame_write_def)
  ultimately show ?thesis unfolding evictable_def by simp
qed

lemma hdr_upd_simps [simp]:
  "cached (hdr_upd s bp g) fd n = cached s fd n" "fd_len (hdr_upd s bp g) fd = fd_len s fd"
  "disk_ok (hdr_upd s bp g) = disk_ok s" "evictable (hdr_upd s bp g) = evictable s"
  "registered (hdr_upd s bp g) fd = registered s fd" "sys_env s' (hdr_upd s bp g) = sys_env s' s"
  "f_pin (frame_of (hdr_upd s bp g) q) = f_pin (frame_of s q)"
  "frame_data (hdr_upd s bp g) (bp_hdr bp) = g (frame_data s (bp_hdr bp))"
  "files_ok (hdr_upd s bp g) = files_ok s" "sys_fd (hdr_upd s bp g) = sys_fd s"
  "read_file_page (hdr_upd s bp g) fd n = read_file_page s fd n"
  by (simp_all add: hdr_upd_def) (simp_all add: frame_write_def)

lemma hdr_upd_view:
  assumes "pool_ok s bp" "\<not> (fd' = bp_fd bp \<and> n' = 0)"
  shows "page_view (hdr_upd s bp g) fd' n' = page_view s fd' n'"
  using assms frame_write_ok(2) [of s "bp_fd bp" 0 "bp_hdr bp" g fd' n'] by (auto simp: pool_ok_def hdr_upd_def)

lemma hdr_upd_inv: "pool_ok s bp \<Longrightarrow> bp_inv (hdr_upd s bp g)"
  unfolding hdr_upd_def by (rule frame_write_ok(1)) (auto simp: pool_ok_def)

lemma fetched_pool_ok:
  assumes "page_fetched s bp n p s'" "bp_inv s" "registered s (bp_fd bp)" "cached s (bp_fd bp) 0 = Some (bp_hdr bp)"
    "f_pin (frame_of s (bp_hdr bp)) > 0" "hdr_ok (frame_data s (bp_hdr bp)) (fd_len s (bp_fd bp))"
  shows "pool_ok s' bp" "frame_data s' (bp_hdr bp) = frame_data s (bp_hdr bp)" "fd_len s' fd = fd_len s fd"
proof -
  have f: "bp_inv s'" "sys_env s s'" "cached s' (bp_fd bp) n = Some p" "\<And>fd. fd_len s' fd = fd_len s fd"
    "f_pin (frame_of s' p) = (if cached s (bp_fd bp) n = None then 1 else f_pin (frame_of s p) + 1)"
    "page_view s (bp_fd bp) n = Some (f_page (frame_of s' p))"
    "\<And>fd' n'. page_view s' fd' n' = page_view s fd' n'"
    "\<And>fd' n' q. cached s fd' n' = Some q \<Longrightarrow> f_pin (frame_of s q) \<noteq> 0 \<Longrightarrow>
        cached s' fd' n' = Some q \<and> (q \<noteq> p \<longrightarrow> frame_of s' q = frame_of s q)"
    using assms(1) by (simp_all add: page_fetched_def)
  note h = f(8) [OF assms(4)]
  have c: "cached s' (bp_fd bp) 0 = Some (bp_hdr bp) \<and> f_pin (frame_of s' (bp_hdr bp)) > 0"
  proof (cases "bp_hdr bp = p")
    case False
    with h assms(5) show ?thesis by simp
  next
    case True
    with h assms(5) have "cached s' (bp_fd bp) 0 = Some p" by simp
    from cached_inj [OF f(1,3) this] have "n = 0" by simp
    with True h assms(4,5) f(5) show ?thesis by simp
  qed
  moreover have "page_view s' (bp_fd bp) 0 = page_view s (bp_fd bp) 0" by (rule f(7))
  ultimately show d: "frame_data s' (bp_hdr bp) = frame_data s (bp_hdr bp)"
    using assms(4) by (simp add: page_view_def)
  show l: "fd_len s' fd = fd_len s fd" for fd by (rule f(4))
  show "pool_ok s' bp"
    using c d l f(1,2) assms(3,6) by (simp add: pool_ok_def sys_env_def registered_def)
qed


definition page_added :: "Sys \<Rightarrow> DiskBufferPool \<Rightarrow> PageNum \<Rightarrow> nat \<Rightarrow> Sys \<Rightarrow> bool" where
  "page_added s bp n p s' \<longleftrightarrow>
     pool_ok s' bp \<and> sys_env s s' \<and> cached s' (bp_fd bp) n = Some p \<and> f_pin (frame_of s' p) > 0 \<and> n \<noteq> 0 \<and>
     (cached s (bp_fd bp) n = None \<longrightarrow> f_pin (frame_of s' p) = 1) \<and>
     \<not> pool_allocated s bp n \<and> (\<forall>j. pool_allocated s' bp j \<longleftrightarrow> j = n \<or> pool_allocated s bp j) \<and>
     (\<forall>fd' n'. \<not> (fd' = bp_fd bp \<and> n' \<in> {0, n}) \<longrightarrow> page_view s' fd' n' = page_view s fd' n')"

lemma pool_okD:
  assumes "pool_ok s bp"
  shows "bp_inv s" "registered s (bp_fd bp)" "cached s (bp_fd bp) 0 = Some (bp_hdr bp)"
    "f_pin (frame_of s (bp_hdr bp)) > 0" "hdr_ok (frame_data s (bp_hdr bp)) (fd_len s (bp_fd bp))"
  using assms by (simp_all add: pool_ok_def)

lemma allocate_existing_page:
  assumes ok: "pool_ok s bp" "disk_ok s" "evictable s"
    and i: "i < fd_len s (bp_fd bp)" "\<not> page_allocated (frame_data s (bp_hdr bp)) i"
  shows "\<exists>p s'. get_this_page (hdr_upd s bp (alloc_existing i)) bp i = Some (Inr p, s') \<and> page_added s bp i p s' \<and>
    page_view s' (bp_fd bp) i = page_view s (bp_fd bp) i \<and> fd_len s' (bp_fd bp) = fd_len s (bp_fd bp) \<and>
    evictable (frame_upd s' p frame_unpin)"
proof -
  let ?s = "hdr_upd s bp (alloc_existing i)"
  note d = pool_okD [OF ok(1)]
  note h = alloc_existing_ok [OF d(5) i]
  have i0: "i \<noteq> 0" using d(5) i(2) unfolding hdr_ok_def by metis
  have inv: "bp_inv ?s" by (rule hdr_upd_inv [OF ok(1)])
  then have "page_view ?s (bp_fd bp) i \<noteq> None" using page_view_defined [OF inv] i(1) by simp
  then obtain p s' where g: "get_this_page ?s bp i = Some (Inr p, s')" "page_fetched ?s bp i p s'"
    using get_this_page_ok [OF inv, of bp i] ok(2,3) d(2) by auto
  note f = fetched_pool_ok [OF g(2) inv]
  have s': "pool_ok s' bp" "frame_data s' (bp_hdr bp) = alloc_existing i (frame_data s (bp_hdr bp))"
    "fd_len s' (bp_fd bp) = fd_len s (bp_fd bp)"
    using f d h(1) by auto
  have pf: "sys_env s s'" "cached s' (bp_fd bp) i = Some p" "\<And>fd n. page_view s' fd n = page_view ?s fd n"
    using g(2) by (auto simp: page_fetched_def sys_env_def hdr_upd_def frame_write_def)
  have "f_pin (frame_of s' p) > 0"
  proof (cases "cached s (bp_fd bp) i")
    case None
    with g(2) show ?thesis by (simp add: page_fetched_def)
  next
    case (Some q)
    with get_cached_page [OF inv, of bp i q] g(1) have "q = p" by auto
    with Some g(2) frame_okD(6) [OF cached_frame_ok [OF d(1), of "bp_fd bp" i q]] show ?thesis
      by (simp add: page_fetched_def)
  qed
  moreover have "pool_allocated s' bp j \<longleftrightarrow> j = i \<or> pool_allocated s bp j" for j
    using i(1) by (auto simp: pool_allocated_def s' h(2))
  moreover have "page_view s' fd' n' = page_view s fd' n'" if "\<not> (fd' = bp_fd bp \<and> n' \<in> {0, i})" for fd' n'
    using that hdr_upd_view [OF ok(1), of fd' n'] pf(3) by auto
  moreover have "page_view s' (bp_fd bp) i = page_view s (bp_fd bp) i"
    using hdr_upd_view [OF ok(1)] i0 pf(3) by simp
  moreover have "cached s (bp_fd bp) i = None \<longrightarrow> f_pin (frame_of s' p) = 1"
    using g(2) by (simp add: page_fetched_def)
  moreover have "evictable (frame_upd s' p frame_unpin)" using fetched_room [OF inv _ g] ok(3) by simp
  ultimately show ?thesis
    using g(1) s' pf(1,2) i0 i by (auto simp: page_added_def pool_allocated_def)
qed

lemma allocated_frame_hdr:
  assumes "pool_ok s bp" "fm_rel (sys_fm s) es" "frame_allocated s es fid p s1 es1" "fid \<noteq> \<lparr>fid_fd = bp_fd bp, fid_page = 0\<rparr>"
  shows "(\<lparr>fid_fd = bp_fd bp, fid_page = 0\<rparr>, bp_hdr bp) \<in> set es1" "bp_hdr bp \<noteq> p"
    "frame_of s1 (bp_hdr bp) = frame_of s (bp_hdr bp)"
proof -
  note d = pool_okD [OF assms(1)]
  have e: "(\<lparr>fid_fd = bp_fd bp, fid_page = 0\<rparr>, bp_hdr bp) \<in> set es" by (rule cached_entry [OF assms(2) d(3)])
  have "\<forall>(fid', q) \<in> set es. f_pin (frame_of s q) \<noteq> 0 \<longrightarrow> (fid', q) \<in> set es1"
    and fr: "\<forall>(fid', q) \<in> set es1. frame_of s1 q = frame_of s q" and rel: "fm_rel (sys_fm s1) ((fid, p) # es1)"
    using assms(3) by (simp_all add: frame_allocated_def)
  from bspec [OF this(1) e] d(4) show e1: "(\<lparr>fid_fd = bp_fd bp, fid_page = 0\<rparr>, bp_hdr bp) \<in> set es1" by simp
  from bspec [OF fr e1] show "frame_of s1 (bp_hdr bp) = frame_of s (bp_hdr bp)" by simp
  show "bp_hdr bp \<noteq> p" using fm_relD(3) [OF rel] e1 by force
qed

lemma extend_file_ok:
  assumes ok: "pool_ok s bp" "disk_ok s" "fm_rel (sys_fm s) es"
    and fa: "frame_allocated s es \<lparr>fid_fd = bp_fd bp, fid_page = fd_len s (bp_fd bp)\<rparr> p s1 es1"
    and lt: "fd_len s (bp_fd bp) < MAX_PAGE_NUM"
  shows "page_added s bp (fd_len s (bp_fd bp)) p (extend_file s1 bp (fd_len s (bp_fd bp)) p)"
    and "page_view (extend_file s1 bp (fd_len s (bp_fd bp)) p) (bp_fd bp) (fd_len s (bp_fd bp)) =
      Some (zero_page\<lparr>pg_num := fd_len s (bp_fd bp)\<rparr>)"
proof -
  define n where "n = fd_len s (bp_fd bp)"
  let ?fid = "\<lparr>fid_fd = bp_fd bp, fid_page = n\<rparr>" and ?hdr = "bp_hdr bp"
  note d = pool_okD [OF ok(1)]
  have n0: "n \<noteq> 0" using d(5) by (simp add: hdr_ok_def n_def)
  note fa = fa [folded n_def]
  have ne0: "?fid \<noteq> \<lparr>fid_fd = bp_fd bp, fid_page = 0\<rparr>" using n0 by simp
  note hdr = allocated_frame_hdr [OF ok(1,3) fa ne0]
  have a: "files_ok s1" "sys_env s s1" "fm_rel (sys_fm s1) ((?fid, p) # es1)" "frames_ok s1 es1"
    "f_pin (frame_of s1 p) = 1" "\<And>fd n'. ?fid \<noteq> \<lparr>fid_fd = fd, fid_page = n'\<rparr> \<Longrightarrow> page_view s1 fd n' = page_view s fd n'"
    "\<And>fd. fd_len s1 fd = fd_len s fd"
    using fa by (simp_all add: frame_allocated_def)
  note rel1 = fm_relD [OF a(3)]
  have ne: "q \<noteq> p" if "(fid', q) \<in> set es1" for fid' q using rel1(3) that by force
  let ?m = "alloc_new n (frame_data s ?hdr)"
  note h = alloc_new_ok [OF d(5) lt, folded n_def]
  have cnt: "nat (hdr_page_count ?m) - 1 = n" using h(1) by (simp add: hdr_ok_def)
  let ?page = "zero_page\<lparr>pg_num := n\<rparr>"
  let ?s2 = "hdr_upd s1 bp (alloc_new n)"
  let ?s4 = "frame_upd (frame_upd (frame_upd ?s2 p (set_file_desc (bp_fd bp))) p clear_page) p (set_page_num n)"
  have "frame_of ?s4 p = set_page_num n (clear_page (set_file_desc (bp_fd bp) (frame_of s1 p)))"
    using hdr(2) by (simp add: hdr_upd_def)
  then have p4: "f_page (frame_of ?s4 p) = ?page" "f_fd (frame_of ?s4 p) = bp_fd bp" "f_pin (frame_of ?s4 p) = 1"
    using a(5) by simp_all
  have sfd: "sys_fd s1 (bp_fd bp) \<noteq> None"
    using frame_okD(4) [OF cached_frame_ok [OF d(1,3)]] a(2) by (simp add: sys_env_def)
  have "disk_ok s1" using ok(2) a(2) by (simp add: sys_env_def disk_ok_def)
  then obtain s5 where s5: "flush_page_internal ?s4 bp p = (SUCCESS, s5)" "files_ok s5" "sys_env ?s4 s5"
    "sys_fm s5 = fm_upd (sys_fm ?s4) p clear_dirty"
    "\<And>fd' n'. read_file_page s5 fd' n' = (if fd' = bp_fd bp \<and> n' = n then Some ?page else read_file_page ?s4 fd' n')"
    "\<And>fd'. fd_len s5 fd' = (if fd' = bp_fd bp then max (fd_len ?s4 fd') (Suc n) else fd_len ?s4 fd')"
    using flush_page_internal_ok [of ?s4 p bp n] a(1,7) p4 sfd n_def by auto
  have ef: "extend_file s1 bp n p = s5"
    using s5(1) hdr(2,3) cnt by (simp add: extend_file_def Let_def)
  have env: "sys_env s s5" using s5(3) a(2) by (simp add: sys_env_def hdr_upd_def frame_write_def)
  have fp: "frame_of s5 p = clear_dirty (frame_of ?s4 p)" using s5(4) by simp
  have fh: "frame_of s5 ?hdr = mark_dirty (set_data ?m (frame_of s ?hdr))"
    using s5(4) hdr(2,3) by (simp add: hdr_upd_def)
  have fo: "frame_of s5 q = frame_of s1 q" if "q \<noteq> p" "q \<noteq> ?hdr" for q
    using s5(4) that by (simp add: hdr_upd_def)
  have rel5: "fm_rel (sys_fm s5) ((?fid, p) # es1)"
  proof -
    have "fm_rel (sys_fm ?s2) ((?fid, p) # es1)"
      unfolding hdr_upd_def frame_write_def using a(3) hdr(1) by (force intro!: fm_rel_upd_used)
    then show ?thesis unfolding s5(4) by (simp add: fm_rel_upd_used)
  qed
  have reg: "registered s5 (bp_fd bp)" using d(2) env by (simp add: sys_env_def registered_def)
  have "frame_ok s5 fid' q" if m: "(fid', q) \<in> set ((?fid, p) # es1)" for fid' q
  proof (cases "(fid', q) = (?fid, p)")
    case True
    then show ?thesis using p4 reg by (simp add: frame_ok_def frame_id_def fp s5(5))
  next
    case False
    then have m: "(fid', q) \<in> set es1" using m by auto
    note o = frames_okD [OF a(4) m]
    have "fid' \<noteq> ?fid" using rel1(2) m by force
    then have r: "read_file_page s5 (fid_fd fid') (fid_page fid') = read_file_page s1 (fid_fd fid') (fid_page fid')"
      by (cases fid') (auto simp: s5(5))
    have rg: "registered s5 (fid_fd fid')" using o a(2) env by (simp add: frame_ok_def sys_env_def registered_def)
    show ?thesis
      using o rg fo [of q] ne [OF m] fh hdr(3)
      by (cases "q = ?hdr") (simp_all add: frame_ok_def r)
  qed
  then have inv5: "bp_inv s5" using bp_invI [OF s5(2) rel5] by blast
  have c5: "cached s5 fd' n' = map_of ((?fid, p) # es1) \<lparr>fid_fd = fd', fid_page = n'\<rparr>" for fd' n'
    by (rule cached_map_of [OF rel5])
  have ch: "cached s5 (bp_fd bp) 0 = Some ?hdr"
    unfolding c5 using rel1(2) hdr(1) by (intro map_of_is_SomeI) auto
  have len5: "fd_len s5 (bp_fd bp) = Suc n" using a(7) by (simp add: s5(6) n_def)
  have pool: "pool_ok s5 bp"
    unfolding pool_ok_def using inv5 reg ch fh d(4) h(1) len5 by simp
  have alloc: "pool_allocated s5 bp j \<longleftrightarrow> j = n \<or> pool_allocated s bp j" for j
    unfolding pool_allocated_def using len5 fh h(2) by (auto simp: n_def less_Suc_eq)
  have view: "page_view s5 fd' n' = page_view s fd' n'" if other: "\<not> (fd' = bp_fd bp \<and> n' \<in> {0, n})" for fd' n'
  proof -
    have c1: "cached s1 fd' n' = cached s5 fd' n'" unfolding c5 by (rule cached_map_of [OF a(3)])
    have fr: "frame_of s5 q = frame_of s1 q" if c: "cached s5 fd' n' = Some q" for q
    proof (rule fo)
      show "q \<noteq> p" using cached_inj [OF inv5 c, of "bp_fd bp" n] c5 other by auto
      show "q \<noteq> ?hdr" using cached_inj [OF inv5 c, of "bp_fd bp" 0] ch other by auto
    qed
    have "read_file_page s5 fd' n' = read_file_page s1 fd' n'" using other by (auto simp: s5(5))
    then have "page_view s5 fd' n' = page_view s1 fd' n'"
      using fr by (simp add: page_view_def c1 split: option.split)
    also have "\<dots> = page_view s fd' n'" using other by (intro a(6)) auto
    finally show ?thesis .
  qed
  have "\<not> pool_allocated s bp n" by (simp add: pool_allocated_def n_def)
  then show "page_added s bp n p (extend_file s1 bp n p)"
    unfolding ef page_added_def using pool env alloc view n0 p4(3) by (simp add: c5 fp)
  show "page_view (extend_file s1 bp n p) (bp_fd bp) n = Some ?page"
    unfolding ef by (simp add: page_view_def c5 fp p4(1) del: frame_upd_simps)
qed


lemma allocate_page_full:
  assumes "pool_ok s bp" "fd_len s (bp_fd bp) = MAX_PAGE_NUM" "\<forall>i < MAX_PAGE_NUM. page_allocated (frame_data s (bp_hdr bp)) i"
  shows "allocate_page s bp = Some (Inl BUFFERPOOL_NOBUF, s)"
proof -
  let ?m = "frame_data s (bp_hdr bp)"
  have "card (used_slots (page_allocated ?m) MAX_PAGE_NUM) = MAX_PAGE_NUM"
    using assms(3) card_used_slots_full by blast
  with pool_okD(5) [OF assms(1)] have "hdr_allocated_pages ?m = int MAX_PAGE_NUM" "hdr_page_count ?m = int MAX_PAGE_NUM"
    by (simp_all add: hdr_ok_def assms(2))
  then show ?thesis by (simp add: allocate_page_def)
qed

lemma allocate_page_ok:
  assumes ok: "pool_ok s bp" "disk_ok s" "evictable s"
    and room: "fd_len s (bp_fd bp) < MAX_PAGE_NUM \<or> (\<exists>i < fd_len s (bp_fd bp). \<not> page_allocated (frame_data s (bp_hdr bp)) i)"
  shows "\<exists>n p s'. allocate_page s bp = Some (Inr p, s') \<and> page_added s bp n p s' \<and>
    page_view s' (bp_fd bp) n = (if n < fd_len s (bp_fd bp) then page_view s (bp_fd bp) n else Some (zero_page\<lparr>pg_num := n\<rparr>)) \<and>
    (\<forall>j < n. page_allocated (frame_data s (bp_hdr bp)) j) \<and> n \<le> fd_len s (bp_fd bp) \<and>
    evictable (frame_upd s' p frame_unpin)"
proof -
  let ?m = "frame_data s (bp_hdr bp)" and ?len = "fd_len s (bp_fd bp)"
  note d = pool_okD [OF ok(1)]
  have cnt: "hdr_page_count ?m = int ?len" "hdr_allocated_pages ?m = int (card (used_slots (page_allocated ?m) ?len))"
    using d(5) by (simp_all add: hdr_ok_def)
  show ?thesis
  proof (cases "\<forall>i < ?len. page_allocated ?m i")
    case False
    then have "card (used_slots (page_allocated ?m) ?len) < ?len"
      using card_used_slots_full [of "page_allocated ?m" ?len] card_used_slots_le [of "page_allocated ?m" ?len]
      by (blast intro: le_neq_implies_less)
    moreover obtain i where i: "find_unallocated ?m 0 ?len = Some i" "i < ?len" "\<not> page_allocated ?m i"
      "\<And>j. j < i \<Longrightarrow> page_allocated ?m j"
      using find_unallocated_first [where m = ?m and i = 0 and cnt = ?len] False by (auto split: option.splits)
    ultimately have "allocate_page s bp = get_this_page (hdr_upd s bp (alloc_existing i)) bp i"
      by (simp add: allocate_page_def cnt)
    then show ?thesis using allocate_existing_page [OF ok i(2,3)] i(2,4) by fastforce
  next
    case True
    then have full: "card (used_slots (page_allocated ?m) ?len) = ?len" using card_used_slots_full by blast
    have lt: "?len < MAX_PAGE_NUM" using room True by blast
    obtain es where es: "files_ok s" "fm_rel (sys_fm s) es" "frames_ok s es" using d(1) by (rule bp_invE)
    have nc: "cached s (bp_fd bp) ?len = None"
      using frame_okD(3) [OF cached_frame_ok [OF d(1), of "bp_fd bp" ?len]] by (cases "cached s (bp_fd bp) ?len") auto
    then have "map_of es \<lparr>fid_fd = bp_fd bp, fid_page = ?len\<rparr> = None" by (simp add: cached_map_of [OF es(2)])
    then obtain p s1 es1 where a: "allocate_frame s bp ?len = Some (p, s1)"
      "frame_allocated s es \<lparr>fid_fd = bp_fd bp, fid_page = ?len\<rparr> p s1 es1"
      using allocate_frame_ok [OF es(1) ok(2) es(2,3) ok(3)] by blast
    have "allocate_page s bp = Some (Inr p, extend_file s1 bp ?len p)"
      using lt by (simp add: allocate_page_def cnt full a(1))
    moreover note ext = extend_file_ok [OF ok(1,2) es(2) a(2) lt]
    moreover have "evictable (frame_upd (extend_file s1 bp ?len p) p frame_unpin)"
    proof -
      have c: "bp_inv (extend_file s1 bp ?len p)" "cached (extend_file s1 bp ?len p) (bp_fd bp) ?len = Some p"
        "f_pin (frame_of (extend_file s1 bp ?len p) p) = 1"
        using ext(1) nc pool_okD(1) by (auto simp: page_added_def)
      then show ?thesis by (elim bp_invE) (rule unpinned_room)
    qed
    ultimately show ?thesis using True by fastforce
  qed
qed

text \<open>Disposing a page frees its frame and its number; its content on disk does not matter any more.\<close>

lemma dispose_page_missing:
  assumes "bp_inv s" "cached s (bp_fd bp) n = None"
  shows "dispose_page s bp n = (NOTFOUND, s)"
proof -
  obtain es where es: "files_ok s" "fm_rel (sys_fm s) es" "frames_ok s es" using assms(1) by (rule bp_invE)
  have "get_internal (sys_fm s) \<lparr>fid_fd = bp_fd bp, fid_page = n\<rparr> = (None, sys_fm s)"
    using assms(2) by (intro get_internal_miss [OF es(2)]) (simp add: cached_map_of [OF es(2)])
  then show ?thesis by (simp add: dispose_page_def BPFrameManager_get_def)
qed


lemma dispose_page_ok:
  assumes ok: "pool_ok s bp" and n: "n \<noteq> 0" "page_allocated (frame_data s (bp_hdr bp)) n"
    and c: "cached s (bp_fd bp) n = Some p" "f_pin (frame_of s p) = 0"
  shows "\<exists>s'. dispose_page s bp n = (SUCCESS, s') \<and> pool_ok s' bp \<and> cached s' (bp_fd bp) n = None \<and>
    (\<forall>j. pool_allocated s' bp j \<longleftrightarrow> j \<noteq> n \<and> pool_allocated s bp j) \<and>
    (\<forall>fd' n'. \<not> (fd' = bp_fd bp \<and> n' \<in> {0, n}) \<longrightarrow> page_view s' fd' n' = page_view s fd' n')"
proof -
  let ?fid = "\<lparr>fid_fd = bp_fd bp, fid_page = n\<rparr>" and ?hdr = "bp_hdr bp"
  note d = pool_okD [OF ok]
  obtain s1 where g: "BPFrameManager_get (sys_fm s) (bp_fd bp) n = (Some p, sys_fm s1)" "s1 = s\<lparr>sys_fm := sys_fm s1\<rparr>"
    "page_fetched s bp n p s1" "fm_frame (sys_fm s1) = (fm_frame (sys_fm s))(p := frame_pin (frame_of s p))"
    "\<And>fd' n'. cached s1 fd' n' = cached s fd' n'"
    using get_cached_page [OF d(1) c(1)] by blast
  have inv1: "bp_inv s1" "\<And>fd n. page_view s1 fd n = page_view s fd n" "\<And>fd. fd_len s1 fd = fd_len s fd"
    using g(3) by (simp_all add: page_fetched_def)
  obtain es where es: "files_ok s1" "fm_rel (sys_fm s1) es" "frames_ok s1 es" using inv1(1) by (rule bp_invE)
  have e: "(?fid, p) \<in> set es" using cached_entry [OF es(2)] g(5) c(1) by simp
  have pin: "f_pin (frame_of s1 p) = 1" using g(4) c(2) by simp
  note free = free_internal_spec [OF es(2) e pin]
  let ?s2 = "s1\<lparr>sys_fm := free_internal (sys_fm s1) ?fid p\<rparr>"
  have run: "dispose_page s bp n = (SUCCESS, hdr_upd ?s2 bp (dispose_hdr n))"
    using g(1) arg_cong [OF g(2), of "\<lambda>x. x\<lparr>sys_fm := free_internal (sys_fm s1) ?fid p\<rparr>"]
    by (simp add: dispose_page_def BPFrameManager_free_def Let_def)
  have hp: "?hdr \<noteq> p" using cached_inj [OF d(1,3), of "bp_fd bp" n] c(1) n(1) by auto
  have other: "frame_of ?s2 q = frame_of s q" if "q \<noteq> p" for q using that g(4) free(2) by simp
  have keys: "set (drop_key ?fid es) = set es - {(?fid, p)}" by (rule drop_key_set [OF fm_relD(2) [OF es(2)] e])
  have rel2: "fm_rel (sys_fm ?s2) (drop_key ?fid es)" using free(1) by simp
  have inv2: "bp_inv ?s2"
  proof (rule bp_invI [OF _ rel2])
    show "files_ok ?s2" using es(1) by simp
    fix fid' q assume "(fid', q) \<in> set (drop_key ?fid es)"
    then have m: "(fid', q) \<in> set es" "(fid', q) \<noteq> (?fid, p)" by (simp_all add: keys)
    then have "q \<noteq> p" using fm_rel_entry_unique [OF es(2) e] by blast
    with frames_okD [OF es(3) m(1)] free(2) show "frame_ok ?s2 fid' q" by (simp add: frame_ok_def)
  qed
  have c2: "cached ?s2 fd' n' = (if fd' = bp_fd bp \<and> n' = n then None else cached s fd' n')" for fd' n'
    unfolding cached_map_of [OF rel2] lru.map_of_drop_key g(5) [symmetric] cached_map_of [OF es(2)] by simp
  have v2: "page_view ?s2 fd' n' = page_view s fd' n'" if o: "\<not> (fd' = bp_fd bp \<and> n' = n)" for fd' n'
  proof -
    have "q \<noteq> p" if "cached s fd' n' = Some q" for q
      using cached_inj [OF d(1) c(1)] that o by blast
    moreover have "read_file_page s1 fd' n' = read_file_page s fd' n'" by (subst g(2)) simp
    ultimately show ?thesis unfolding page_view_def c2 using other o by (auto split: option.split)
  qed
  have len2: "fd_len ?s2 fd = fd_len s fd" for fd using inv1(3) by simp
  have reg: "registered ?s2 (bp_fd bp)" using d(2) g(3) by (simp add: page_fetched_def sys_env_def registered_def)
  have ok2: "pool_ok ?s2 bp"
    unfolding pool_ok_def len2 using inv2 reg c2 n(1) d(3-5) other [OF hp] by (simp del: fd_len_fm)
  have lt: "n < fd_len s (bp_fd bp)" using frame_okD(3) [OF cached_frame_ok [OF d(1) c(1)]] by simp
  note h = dispose_hdr_ok [OF d(5) lt n]
  let ?s3 = "hdr_upd ?s2 bp (dispose_hdr n)"
  have data: "frame_data ?s3 ?hdr = dispose_hdr n (frame_data s ?hdr)" using other [OF hp] by simp
  have "pool_ok ?s3 bp"
    using pool_okD [OF ok2] hdr_upd_inv [OF ok2] h(1) len2 data by (simp add: pool_ok_def del: fd_len_fm)
  moreover have "pool_allocated ?s3 bp j \<longleftrightarrow> j \<noteq> n \<and> pool_allocated s bp j" for j
    unfolding pool_allocated_def data h(2) using len2 by auto
  moreover have "page_view ?s3 fd' n' = page_view s fd' n'" if "\<not> (fd' = bp_fd bp \<and> n' \<in> {0, n})" for fd' n'
    using hdr_upd_view [OF ok2, of fd' n'] v2 [of fd' n'] that by auto
  moreover have "cached ?s3 (bp_fd bp) n = None" using c2 by simp
  ultimately show ?thesis using run by blast
qed

end
