(* ===== verification/BufferPoolFiles.thy ===== *)
theory BufferPoolFiles
  imports BufferPoolInv
begin

text \<open>
  The life of a buffer pool file: creating it, opening it, closing it with everything written back, and
  the iterator over its pages; then the properties of the whole buffer pool.
\<close>

section \<open>Purging the frames of a file\<close>

lemma purge_frame_ok:
  assumes inv: "files_ok s" "disk_ok s" "fm_rel (sys_fm s) es" "frames_ok s es"
    and e: "(fid, p) \<in> set es" "f_pin (frame_of s p) = 1" "fid_fd fid = bp_fd bp"
  shows "\<exists>s'. purge_frame s bp (fid_page fid) p = (SUCCESS, s') \<and> evicted s es fid p s'"
proof -
  obtain s2 where s2: "frame_purger bp s p = (SUCCESS, s2)" "evicted s es fid p (s2\<lparr>sys_fm := free_internal (sys_fm s2) fid p\<rparr>)"
    using evict_pinned [OF inv e(1,2)] by blast
  have "\<lparr>fid_fd = bp_fd bp, fid_page = fid_page fid\<rparr> = fid" using e(3) by (cases fid) simp
  moreover have "f_fd (frame_of s p) = bp_fd bp" using frame_okD(1) [OF frames_okD [OF inv(4) e(1)]] e(3) by simp
  ultimately have "purge_frame s bp (fid_page fid) p = (SUCCESS, s2\<lparr>sys_fm := free_internal (sys_fm s2) fid p\<rparr>)"
    using e(2) s2(1) by (auto simp: purge_frame_def frame_purger_def BPFrameManager_free_def split: if_splits)
  with s2(2) show ?thesis by blast
qed

lemma visit_fetcher:
  "distinct (map snd es) \<Longrightarrow> visit_entries (fetcher fd) es (ps, fr) =
     (let us = map snd (filter (\<lambda>e. fid_fd (fst e) = fd) es) in
      (ps @ us, \<lambda>q. if q \<in> set us then frame_pin (fr q) else fr q))"
proof (induction es arbitrary: ps fr)
  case (Cons e es)
  obtain fid p where e: "e = (fid, p)" by fastforce
  from Cons.prems e have "p \<notin> set (map snd (filter (\<lambda>e. fid_fd (fst e) = fd) es))" by auto
  with Cons e show ?case by (auto simp: fetcher_def Let_def fun_eq_iff)
qed (simp add: fun_eq_iff)

definition file_frames :: "int \<Rightarrow> (FrameId \<times> nat) list \<Rightarrow> (FrameId \<times> nat) list" where
  "file_frames fd es = filter (\<lambda>e. fid_fd (fst e) = fd) es"

lemma find_list_ok:
  assumes "fm_rel fm es"
  shows "find_list fm fd = Some (map snd (file_frames fd es),
    fm\<lparr>fm_frame := (\<lambda>q. if q \<in> snd ` set (file_frames fd es) then frame_pin (fm_frame fm q) else fm_frame fm q)\<rparr>)"
  using fm_relD(1,3) [OF assms] by (simp add: find_list_def lru_foreach_abs visit_fetcher Let_def file_frames_def)

text \<open>The state after \<open>find_list\<close>: every frame of the file has one pin more.\<close>

definition pin_file :: "Sys \<Rightarrow> int \<Rightarrow> (FrameId \<times> nat) list \<Rightarrow> Sys" where
  "pin_file s fd es = s\<lparr>sys_fm := (sys_fm s)\<lparr>fm_frame :=
     (\<lambda>q. if q \<in> snd ` set (file_frames fd es) then frame_pin (frame_of s q) else frame_of s q)\<rparr>\<rparr>"

lemma file_frames_sub: "set (file_frames fd es) \<subseteq> set es" "(fid, p) \<in> set (file_frames fd es) \<Longrightarrow> fid_fd fid = fd"
  by (auto simp: file_frames_def)

lemma pin_file_simps [simp]:
  "frame_of (pin_file s fd es) q = (if q \<in> snd ` set (file_frames fd es) then frame_pin (frame_of s q) else frame_of s q)"
  "files_ok (pin_file s fd es) = files_ok s" "disk_ok (pin_file s fd es) = disk_ok s" "sys_env s (pin_file s fd es)"
  "cached (pin_file s fd es) fd' n = cached s fd' n" "fd_len (pin_file s fd es) fd' = fd_len s fd'"
  "read_file_page (pin_file s fd es) fd' n = read_file_page s fd' n"
  by (simp_all add: pin_file_def cached_def)

lemma pin_file_view: "page_view (pin_file s fd es) fd' n = page_view s fd' n"
  by (simp add: page_view_def split: option.split)

lemma pin_file_ok:
  assumes "fm_rel (sys_fm s) es" "frames_ok s es"
  shows "fm_rel (sys_fm (pin_file s fd es)) es" "frames_ok (pin_file s fd es) es"
    "find_list (sys_fm s) fd = Some (map snd (file_frames fd es), sys_fm (pin_file s fd es))"
    "s\<lparr>sys_fm := sys_fm (pin_file s fd es)\<rparr> = pin_file s fd es"
proof -
  note d = fm_relD [OF assms(1)]
  have "q \<notin> snd ` set (file_frames fd es)" if "q \<in> set (fm_frees (sys_fm s))" for q
    using file_frames_sub(1) [of fd es] d(4,7) that by blast
  then show "fm_rel (sys_fm (pin_file s fd es)) es"
    using d(8) assms(1) by (auto intro!: fm_rel_frames simp: pin_file_def)
  have "frame_ok (pin_file s fd es) fid q" if "(fid, q) \<in> set es" for fid q
    using frames_okD [OF assms(2) that] unfolding frame_ok_def by (simp add: registered_def pin_file_def)
  then show "frames_ok (pin_file s fd es) es" by (auto simp: frames_ok_def)
  show "find_list (sys_fm s) fd = Some (map snd (file_frames fd es), sys_fm (pin_file s fd es))"
    by (simp add: find_list_ok [OF assms(1)] pin_file_def)
  show "s\<lparr>sys_fm := sys_fm (pin_file s fd es)\<rparr> = pin_file s fd es" by (simp add: pin_file_def)
qed

lemma purge_list_ok:
  assumes "files_ok s" "disk_ok s" "fm_rel (sys_fm s) es" "frames_ok s es"
    and "set xs \<subseteq> set es" "distinct xs" "\<forall>(fid, p) \<in> set xs. fid_fd fid = bp_fd bp \<and> f_pin (frame_of s p) = 1"
  shows "\<exists>es'. let s' = purge_list s bp (map snd xs) in
    files_ok s' \<and> sys_env s s' \<and> fm_rel (sys_fm s') es' \<and> frames_ok s' es' \<and> set es' = set es - set xs \<and>
    (\<forall>fd n. page_view s' fd n = page_view s fd n) \<and> (\<forall>fd. fd_len s' fd = fd_len s fd)"
  using assms
proof (induction xs arbitrary: s es)
  case Nil
  then show ?case by auto
next
  case (Cons x xs)
  obtain fid p where x: "x = (fid, p)" by fastforce
  have e: "(fid, p) \<in> set es" "f_pin (frame_of s p) = 1" "fid_fd fid = bp_fd bp" using Cons.prems(5,7) x by auto
  obtain s1 where s1: "purge_frame s bp (fid_page fid) p = (SUCCESS, s1)" "evicted s es fid p s1"
    using purge_frame_ok [OF Cons.prems(1-4) e] by blast
  note ok = frames_okD [OF Cons.prems(4) e(1)]
  have set: "set (drop_key fid es) = set es - {(fid, p)}" by (rule drop_key_set [OF fm_relD(2) [OF Cons.prems(3)] e(1)])
  have s1': "files_ok s1" "sys_env s s1" "fm_rel (sys_fm s1) (drop_key fid es)" "frames_ok s1 (drop_key fid es)"
    "\<And>q. q \<noteq> p \<Longrightarrow> frame_of s1 q = frame_of s q"
    using s1(2) by (simp_all add: evicted_def)
  have "disk_ok s1" using Cons.prems(2) s1'(2) by (simp add: sys_env_def disk_ok_def)
  moreover have "set xs \<subseteq> set (drop_key fid es)" using Cons.prems(5,6) x by (auto simp: set)
  moreover have "\<forall>(fid', q) \<in> set xs. fid_fd fid' = bp_fd bp \<and> f_pin (frame_of s1 q) = 1"
  proof clarify
    fix fid' q assume m: "(fid', q) \<in> set xs"
    have "q \<noteq> p"
    proof
      assume "q = p"
      then have "fid' = fid" using fm_rel_entry_unique [OF Cons.prems(3) e(1)] m Cons.prems(5) by auto
      with \<open>q = p\<close> m Cons.prems(6) x show False by simp
    qed
    with s1'(5) m Cons.prems(7) show "fid_fd fid' = bp_fd bp \<and> f_pin (frame_of s1 q) = 1" by auto
  qed
  ultimately obtain es' where "let s' = purge_list s1 bp (map snd xs) in
    files_ok s' \<and> sys_env s1 s' \<and> fm_rel (sys_fm s') es' \<and> frames_ok s' es' \<and> set es' = set (drop_key fid es) - set xs \<and>
    (\<forall>fd n. page_view s' fd n = page_view s1 fd n) \<and> (\<forall>fd. fd_len s' fd = fd_len s1 fd)"
    using Cons.IH [OF s1'(1) _ s1'(3,4)] Cons.prems(6) by auto
  moreover have "purge_list s bp (map snd (x # xs)) = purge_list s1 bp (map snd xs)"
    using s1(1) frame_okD(2) [OF ok] x by simp
  ultimately show ?case
    using sys_env_trans [OF s1'(2)] evicted_view [OF s1(2) Cons.prems(3) e(1)] evicted_len [OF s1(2) ok]
    by (intro exI [of _ es']) (auto simp: Let_def set x)
qed


section \<open>Closing a file\<close>

text \<open>Nothing is pinned in the file but its header, which the pool itself holds.\<close>

definition pool_idle :: "Sys \<Rightarrow> DiskBufferPool \<Rightarrow> bool" where
  "pool_idle s bp \<longleftrightarrow> (\<forall>n p. cached s (bp_fd bp) n = Some p \<longrightarrow> f_pin (frame_of s p) = (if n = 0 then 1 else 0))"

lemma purge_all_pages_ok:
  assumes inv: "bp_inv s" "disk_ok s" and idle: "\<And>n p. cached s (bp_fd bp) n = Some p \<Longrightarrow> f_pin (frame_of s p) = 0"
  shows "\<exists>s'. purge_all_pages s bp = Some (SUCCESS, s') \<and> bp_inv s' \<and> sys_env s s' \<and>
    (\<forall>n. cached s' (bp_fd bp) n = None) \<and> (\<forall>fd n. page_view s' fd n = page_view s fd n) \<and> (\<forall>fd. fd_len s' fd = fd_len s fd)"
proof -
  obtain es where es: "files_ok s" "fm_rel (sys_fm s) es" "frames_ok s es" using inv(1) by (rule bp_invE)
  note d = fm_relD [OF es(2)]
  let ?xs = "file_frames (bp_fd bp) es" and ?s1 = "pin_file s (bp_fd bp) es"
  note pf = pin_file_ok [OF es(2,3), of "bp_fd bp"]
  note sub = file_frames_sub(1) [of "bp_fd bp" es]
  have pins: "\<forall>(fid, p) \<in> set ?xs. fid_fd fid = bp_fd bp \<and> f_pin (frame_of ?s1 p) = 1"
  proof clarify
    fix fid p assume m: "(fid, p) \<in> set ?xs"
    then have f: "fid_fd fid = bp_fd bp" "(fid, p) \<in> set es" by (auto simp: file_frames_def)
    then have "cached s (bp_fd bp) (fid_page fid) = Some p"
      using d(2) by (cases fid) (simp add: cached_map_of [OF es(2)])
    then have "f_pin (frame_of s p) = 0" by (rule idle)
    moreover have "p \<in> snd ` set ?xs" using m by force
    ultimately show "fid_fd fid = bp_fd bp \<and> f_pin (frame_of ?s1 p) = 1" using f(1) by simp
  qed
  have dist: "distinct ?xs" using d(2) by (simp add: file_frames_def distinct_map)
  have env: "files_ok ?s1" "disk_ok ?s1" using es(1) inv(2) by simp_all
  let ?s2 = "purge_list ?s1 bp (map snd ?xs)"
  obtain es' where p: "files_ok ?s2" "sys_env ?s1 ?s2" "fm_rel (sys_fm ?s2) es'" "frames_ok ?s2 es'" "set es' = set es - set ?xs"
    "\<And>fd n. page_view ?s2 fd n = page_view ?s1 fd n" "\<And>fd. fd_len ?s2 fd = fd_len ?s1 fd"
    using purge_list_ok [OF env pf(1,2) sub dist pins] unfolding Let_def by blast
  have run: "purge_all_pages s bp = Some (SUCCESS, ?s2)"
    by (simp add: purge_all_pages_def pf(3,4))
  have inv2: "bp_inv ?s2" using p(1,3,4) by (auto simp: bp_inv_def)
  have none: "cached ?s2 (bp_fd bp) n = None" for n
  proof (cases "cached ?s2 (bp_fd bp) n")
    case (Some q)
    then have "(\<lparr>fid_fd = bp_fd bp, fid_page = n\<rparr>, q) \<in> set es'" by (rule cached_entry [OF p(3)])
    then show ?thesis by (auto simp: p(5) file_frames_def)
  qed simp
  have "sys_env s ?s2" using sys_env_trans [OF pin_file_simps(4) p(2)] .
  with run inv2 none p(6,7) show ?thesis by (intro exI [of _ ?s2]) (simp add: pin_file_view)
qed

definition file_ok :: "File \<Rightarrow> bool" where
  "file_ok f \<longleftrightarrow> hdr_ok (pg_data (file_page f 0)) (file_len f) \<and> (\<forall>n < file_len f. pg_num (file_page f n) = n)"

text \<open>The file that holds exactly what the clients of the open pool see.\<close>

definition file_shows :: "Sys \<Rightarrow> int \<Rightarrow> File \<Rightarrow> bool" where
  "file_shows s fd f \<longleftrightarrow> file_len f = fd_len s fd \<and> (\<forall>n < file_len f. Some (file_page f n) = page_view s fd n)"

lemma map_of_erase: "map_of (filter (\<lambda>e. fst e \<noteq> k) xs) = (map_of xs)(k := None)"
  using lru.map_of_drop_key [of k xs] by (simp add: drop_key_def)

lemma close_file_ok:
  assumes ok: "pool_ok s bp" "disk_ok s" "pool_idle s bp" and fd: "bp_fd bp \<ge> 0" "sys_fd s (bp_fd bp) = Some name"
  shows "\<exists>s' f. DiskBufferPool_close_file s bp = Some (SUCCESS, s') \<and> bp_inv s' \<and> sys_fd s' = (sys_fd s)(bp_fd bp := None) \<and>
    sys_file s' name = Some f \<and> file_ok f \<and> file_shows s (bp_fd bp) f \<and> sys_writable s' = sys_writable s \<and>
    buffer_pools s' = filter (\<lambda>e. fst e \<noteq> bp_file_name bp) (buffer_pools s) \<and>
    (\<forall>fd' n'. fd' \<noteq> bp_fd bp \<longrightarrow> page_view s' fd' n' = page_view s fd' n')"
proof -
  note d = pool_okD [OF ok(1)]
  let ?s0 = "frame_upd s (bp_hdr bp) frame_unpin"
  have inv0: "bp_inv ?s0" "\<And>fd n. page_view ?s0 fd n = page_view s fd n" using unpin_ok [OF d(1,3,4)] by simp_all
  have "f_pin (frame_of ?s0 p) = 0" if c: "cached ?s0 (bp_fd bp) n = Some p" for n p
  proof -
    have c': "cached s (bp_fd bp) n = Some p" using c by simp
    have "n = 0 \<longleftrightarrow> p = bp_hdr bp" using cached_inj [OF d(1,3), of "bp_fd bp" n] c' d(3) by auto
    moreover have "f_pin (frame_of s p) = (if n = 0 then 1 else 0)" using ok(3) c' by (auto simp: pool_idle_def)
    ultimately show ?thesis by (cases "p = bp_hdr bp") simp_all
  qed
  then obtain s1 where s1: "purge_all_pages ?s0 bp = Some (SUCCESS, s1)" "bp_inv s1" "sys_env ?s0 s1"
    "\<And>n. cached s1 (bp_fd bp) n = None" "\<And>fd n. page_view s1 fd n = page_view ?s0 fd n" "\<And>fd. fd_len s1 fd = fd_len ?s0 fd"
    using purge_all_pages_ok [OF inv0(1), of bp] ok(2) by auto
  define fds where "fds = (if map_of (buffer_pools s1) (bp_file_name bp) = None then fd_buffer_pools s1
      else filter (\<lambda>e. fst e \<noteq> bp_fd bp) (fd_buffer_pools s1))"
  define s' where "s' = s1\<lparr>sys_fd := (sys_fd s1)(bp_fd bp := None),
      buffer_pools := filter (\<lambda>e. fst e \<noteq> bp_file_name bp) (buffer_pools s1), fd_buffer_pools := fds\<rparr>"
  have "filter (\<lambda>e. fst e \<noteq> bp_file_name bp) (buffer_pools s1) = buffer_pools s1" if "map_of (buffer_pools s1) (bp_file_name bp) = None"
    using that by (force simp: map_of_eq_None_iff filter_id_conv)
  then have mgr: "BufferPoolManager_close_file (s1\<lparr>sys_fd := (sys_fd s1)(bp_fd bp := None)\<rparr>) bp =
      (if map_of (buffer_pools s1) (bp_file_name bp) = None then INTERNAL else SUCCESS, s')"
    by (auto simp: BufferPoolManager_close_file_def s'_def fds_def split: option.split)
  have run: "DiskBufferPool_close_file s bp = Some (SUCCESS, s')"
    using fd(1) s1(1) mgr by (simp add: DiskBufferPool_close_file_def)
  have env: "sys_fd s1 = sys_fd s" "sys_writable s1 = sys_writable s" "buffer_pools s1 = buffer_pools s"
    using s1(3) by (simp_all add: sys_env_def)
  obtain es where es: "files_ok s1" "fm_rel (sys_fm s1) es" "frames_ok s1 es" using s1(2) by (rule bp_invE)
  obtain f where f: "sys_file s1 name = Some f" using es(1) fd(2) env(1) by (fastforce simp: files_ok_def)
  have rd: "read_file_page s' fd' n' = (if fd' = bp_fd bp then None else read_file_page s1 fd' n')" for fd' n'
    by (simp add: s'_def read_file_page_def cong: option.case_cong)
  have c: "cached s' fd' n' = cached s1 fd' n'" "frame_of s' q = frame_of s1 q" for fd' n' q
    by (simp_all add: s'_def cached_def)
  have "frame_ok s' fid q" if m: "(fid, q) \<in> set es" for fid q
  proof -
    have "cached s1 (fid_fd fid) (fid_page fid) = Some q"
      using m fm_relD(2) [OF es(2)] by (cases fid) (simp add: cached_map_of [OF es(2)])
    then have ne: "fid_fd fid \<noteq> bp_fd bp" using s1(4) by auto
    have "registered s' (fid_fd fid)"
      using frame_okD(5) [OF frames_okD [OF es(3) m]] ne by (simp add: s'_def fds_def registered_def map_of_erase)
    with frames_okD [OF es(3) m] ne rd c(2) show ?thesis by (simp add: frame_ok_def)
  qed
  moreover have "files_ok s'"
    using es(1) unfolding files_ok_def rd by (auto simp: s'_def split: if_splits)
  moreover have "fm_rel (sys_fm s') es" using es(2) by (simp add: s'_def)
  ultimately have inv': "bp_inv s'" using bp_invI by blast
  have view: "page_view s' fd' n' = page_view s fd' n'" if "fd' \<noteq> bp_fd bp" for fd' n'
  proof -
    have "page_view s' fd' n' = page_view s1 fd' n'"
      unfolding page_view_def c rd using that by simp
    then show ?thesis unfolding s1(5) inv0(2) .
  qed
  have flen: "file_len f = fd_len s (bp_fd bp)"
    using s1(6) [of "bp_fd bp"] fd(2) env(1) f by (simp add: fd_len_def)
  have fpage: "Some (file_page f n) = page_view s (bp_fd bp) n" if "n < file_len f" for n
  proof -
    have "read_file_page s1 (bp_fd bp) n = Some (file_page f n)"
      using fd(2) env(1) f that by (simp add: read_file_page_def)
    then have "page_view s1 (bp_fd bp) n = Some (file_page f n)" using s1(4) by (simp add: page_view_def)
    then show ?thesis unfolding s1(5) inv0(2) by simp
  qed
  have "file_shows s (bp_fd bp) f" using flen fpage by (simp add: file_shows_def)
  moreover have "file_ok f"
  proof -
    have "0 < file_len f" using d(5) flen by (simp add: hdr_ok_def)
    then have "file_page f 0 = f_page (frame_of s (bp_hdr bp))" using fpage [of 0] cached_view [OF d(3)] by simp
    moreover have "pg_num (file_page f n) = n" if "n < file_len f" for n
    proof -
      have "read_file_page s1 (bp_fd bp) n = Some (file_page f n)"
        using fd(2) env(1) f that by (simp add: read_file_page_def)
      then show ?thesis using es(1) unfolding files_ok_def by blast
    qed
    ultimately show ?thesis using d(5) flen by (simp add: file_ok_def)
  qed
  moreover have "sys_file s' name = Some f" using f by (simp add: s'_def)
  ultimately show ?thesis using run inv' env view by (intro exI [of _ s'] exI [of _ f]) (simp add: s'_def)
qed


section \<open>Creating and opening a file\<close>

definition new_header :: mem where
  "new_header = (let m = store_i32 (store_i32 (\<lambda>_. 0) 4 1) 0 1 in m(8 := or (m 8) 1))"

lemma new_header_ok: "hdr_ok new_header 1"
proof -
  have b: "page_allocated new_header 0"
    by (simp add: page_allocated_iff new_header_def Let_def store_i32_outside bit_or_iff)
  have "used_slots (page_allocated new_header) 1 = {0}" using b by (auto simp: used_slots_def)
  moreover have "hdr_page_count new_header = 1" "hdr_allocated_pages new_header = 1"
    by (simp_all add: new_header_def hdr_page_count_def hdr_allocated_pages_def Let_def mem_simps i32_range_def)
  ultimately show ?thesis using b by (simp add: hdr_ok_def MAX_PAGE_NUM_eq)
qed

lemma create_file_ok:
  assumes "bp_inv s" "disk_ok s" "sys_file s name = None"
  shows "\<exists>s' f. BufferPoolManager_create_file s name = (SUCCESS, s') \<and> bp_inv s' \<and> sys_env s s' \<and> sys_fm s' = sys_fm s \<and>
    sys_file s' = (sys_file s)(name \<mapsto> f) \<and> file_ok f \<and> file_len f = 1 \<and> (\<forall>fd n. page_view s' fd n = page_view s fd n)"
proof -
  let ?f = "\<lparr>file_len = 1, file_page = (\<lambda>_. zero_page)(0 := zero_page\<lparr>pg_data := new_header\<rparr>)\<rparr>"
  let ?s = "s\<lparr>sys_file := (sys_file s)(name \<mapsto> ?f)\<rparr>"
  have run: "BufferPoolManager_create_file s name = (SUCCESS, ?s)"
    using assms(2,3) by (simp add: BufferPoolManager_create_file_def disk_ok_def new_header_def Let_def)
  obtain es where es: "files_ok s" "fm_rel (sys_fm s) es" "frames_ok s es" using assms(1) by (rule bp_invE)
  have closed: "sys_fd s fd \<noteq> Some name" for fd using es(1) assms(3) by (fastforce simp: files_ok_def)
  then have rd: "read_file_page ?s fd n = read_file_page s fd n" for fd n
    by (auto simp: read_file_page_def split: option.split)
  have "files_ok ?s" using es(1) closed unfolding files_ok_def rd by auto
  moreover have "frame_ok ?s fid q" if "(fid, q) \<in> set es" for fid q
    using frames_okD [OF es(3) that] unfolding frame_ok_def rd registered_def by simp
  ultimately have "bp_inv ?s" using bp_invI [of ?s es] es(2) by simp
  moreover have "page_view ?s fd n = page_view s fd n" for fd n
    unfolding page_view_def rd by (simp add: cached_def split: option.split)
  moreover have "file_ok ?f" using new_header_ok by (simp add: file_ok_def zero_page_def)
  ultimately show ?thesis using run by (intro exI [of _ ?s] exI [of _ ?f]) (simp add: sys_env_def)
qed

lemma open_descriptor:
  assumes inv: "bp_inv s" "evictable s" and fd: "sys_fd s fd = None" "\<And>fd'. sys_fd s fd' \<noteq> Some name"
    and f: "sys_file s name = Some f" "file_ok f"
  shows "bp_inv (s\<lparr>sys_fd := (sys_fd s)(fd \<mapsto> name)\<rparr>)" "evictable (s\<lparr>sys_fd := (sys_fd s)(fd \<mapsto> name)\<rparr>)"
    and "cached s fd n = None"
    and "read_file_page (s\<lparr>sys_fd := (sys_fd s)(fd \<mapsto> name)\<rparr>) fd' n' =
      (if fd' = fd then if n' < file_len f then Some (file_page f n') else None else read_file_page s fd' n')"
proof -
  let ?s = "s\<lparr>sys_fd := (sys_fd s)(fd \<mapsto> name)\<rparr>"
  show none: "cached s fd n = None" for n
    using frame_okD(4) [OF cached_frame_ok [OF inv(1), of fd n]] fd(1) by (cases "cached s fd n") auto
  show rd: "read_file_page ?s fd' n' =
      (if fd' = fd then if n' < file_len f then Some (file_page f n') else None else read_file_page s fd' n')" for fd' n'
    using f(1) by (simp add: read_file_page_def cong: option.case_cong)
  show "evictable ?s" using inv(2) by (simp add: evictable_def)
  obtain es where es: "files_ok s" "fm_rel (sys_fm s) es" "frames_ok s es" using inv(1) by (rule bp_invE)
  have "files_ok ?s"
    using es(1) fd f unfolding files_ok_def rd by (auto simp: file_ok_def split: if_splits)
  moreover have "frame_ok ?s fid q" if "(fid, q) \<in> set es" for fid q
  proof -
    have "fid_fd fid \<noteq> fd" using frame_okD(4) [OF frames_okD [OF es(3) that]] fd(1) by auto
    then show ?thesis using frames_okD [OF es(3) that] by (simp add: frame_ok_def rd registered_def)
  qed
  ultimately show "bp_inv ?s" using bp_invI [of ?s es] es(2) by simp
qed

lemma open_file_ok:
  assumes inv: "bp_inv s" "disk_ok s" "evictable s"
    and fd: "fd \<ge> 0" "sys_fd s fd = None" "\<And>fd'. sys_fd s fd' \<noteq> Some name" "map_of (buffer_pools s) name = None"
    and f: "sys_file s name = Some f" "file_ok f"
  shows "\<exists>bp s'. BufferPoolManager_open_file s name fd = Some (Inr bp, s') \<and> pool_ok s' bp \<and> pool_idle s' bp \<and>
    bp_fd bp = fd \<and> bp_file_name bp = name \<and> sys_fd s' fd = Some name \<and> file_shows s' fd f \<and> disk_ok s' \<and>
    map_of (buffer_pools s') name = Some bp \<and> (\<forall>fd' n. fd' \<noteq> fd \<longrightarrow> page_view s' fd' n = page_view s fd' n)"
proof -
  let ?s0 = "s\<lparr>sys_fd := (sys_fd s)(fd \<mapsto> name)\<rparr>" and ?fid = "\<lparr>fid_fd = fd, fid_page = 0\<rparr>"
  let ?bp0 = "\<lparr>bp_file_name = name, bp_fd = fd, bp_hdr = 0\<rparr>"
  note o = open_descriptor [OF inv(1,3) fd(2,3) f]
  have none: "cached ?s0 fd n = None" for n using o(3) by (simp add: cached_def)
  obtain es where es: "files_ok ?s0" "fm_rel (sys_fm ?s0) es" "frames_ok ?s0 es" using o(1) by (rule bp_invE)
  have "map_of es ?fid = None" using none [of 0] cached_map_of [OF es(2), of fd 0] by simp
  then obtain p s1 es1 where a: "allocate_frame ?s0 ?bp0 0 = Some (p, s1)" and fa: "frame_allocated ?s0 es ?fid p s1 es1"
    using allocate_frame_ok [OF es(1) _ es(2,3) o(2), of ?bp0 0] inv(2) by (auto simp: disk_ok_def)
  have len: "0 < file_len f" using f(2) by (simp add: file_ok_def hdr_ok_def)
  let ?page = "file_page f 0"
  have fa': "files_ok s1" "sys_env ?s0 s1" "fm_rel (sys_fm s1) ((?fid, p) # es1)" "frames_ok s1 es1"
    "f_pin (frame_of s1 p) = 1" "set es1 \<subseteq> set es"
    "\<And>fd' n. ?fid \<noteq> \<lparr>fid_fd = fd', fid_page = n\<rparr> \<Longrightarrow> page_view s1 fd' n = page_view ?s0 fd' n"
    "\<And>fd. fd_len s1 fd = fd_len ?s0 fd" "read_file_page s1 fd 0 = Some ?page"
    using fa len unfolding frame_allocated_def by (auto simp: o(4))
  let ?bp = "?bp0\<lparr>bp_hdr := p\<rparr>"
  define s2 where "s2 = frame_upd (frame_upd s1 p (set_file_desc fd)) p (\<lambda>f. f\<lparr>f_page := ?page\<rparr>)"
  define s3 where "s3 = s2\<lparr>buffer_pools := (name, ?bp) # buffer_pools s2, fd_buffer_pools := (fd, ?bp) # fd_buffer_pools s2\<rparr>"
  have run: "BufferPoolManager_open_file s name fd = Some (Inr ?bp, s3)"
    using fd(1,4) a fa'(9)
    by (simp add: BufferPoolManager_open_file_def DiskBufferPool_open_file_def BP_HEADER_PAGE_def load_page_def
        s2_def s3_def Let_def)
  have fr: "frame_of s3 q = (if q = p then (set_file_desc fd (frame_of s1 p))\<lparr>f_page := ?page\<rparr> else frame_of s1 q)" for q
    by (simp add: s3_def s2_def)
  have rd: "read_file_page s3 fd' n = read_file_page s1 fd' n" for fd' n
    by (rule read_file_page_cong) (simp_all add: s3_def s2_def)
  have rel3: "fm_rel (sys_fm s3) ((?fid, p) # es1)"
    using fa'(3) by (auto simp: s3_def s2_def intro!: fm_rel_upd_used)
  note rel1 = fm_relD [OF fa'(3)]
  have reg: "registered s3 fd'" if "fd' = fd \<or> registered s1 fd'" for fd'
    using that by (auto simp: registered_def s3_def s2_def)
  have files: "files_ok s3"
    using fa'(1) unfolding files_ok_def rd by (simp add: s3_def s2_def)
  have "frame_ok s3 ?fid p"
    using fa'(5,9) reg [of fd] f(2) len by (simp add: frame_ok_def frame_id_def fr rd file_ok_def)
  moreover have "frame_ok s3 fid q" if m: "(fid, q) \<in> set es1" for fid q
  proof -
    have "q \<noteq> p" using rel1(3) m by force
    then show ?thesis using frames_okD [OF fa'(4) m] reg by (simp add: frame_ok_def fr rd)
  qed
  ultimately have inv3: "bp_inv s3" by (intro bp_invI [OF files rel3]) auto
  have c3: "cached s3 fd' n = map_of ((?fid, p) # es1) \<lparr>fid_fd = fd', fid_page = n\<rparr>" for fd' n
    by (rule cached_map_of [OF rel3])
  have hdr: "cached s3 fd 0 = Some p" using c3 by simp
  have nofd: "cached s3 fd n = None" if "n \<noteq> 0" for n
  proof -
    have "\<lparr>fid_fd = fd, fid_page = n\<rparr> \<notin> fst ` set es"
      using none [of n] cached_map_of [OF es(2), of fd n] by (simp add: map_of_eq_None_iff)
    then have "\<lparr>fid_fd = fd, fid_page = n\<rparr> \<notin> fst ` set es1" using image_mono [OF fa'(6), of fst] by blast
    then have "map_of es1 \<lparr>fid_fd = fd, fid_page = n\<rparr> = None" by (simp add: map_of_eq_None_iff)
    then show ?thesis using that by (simp add: c3)
  qed
  have len3: "fd_len s3 fd = file_len f"
  proof -
    have "fd_len s3 fd = fd_len s1 fd" by (simp add: s3_def s2_def fd_len_def cong: option.case_cong)
    then show ?thesis using fa'(8) f(1) by (simp add: fd_len_def)
  qed
  have ok3: "pool_ok s3 ?bp"
    unfolding pool_ok_def using inv3 reg [of fd] hdr fa'(5) f(2) len3 by (simp add: fr file_ok_def)
  have idle: "pool_idle s3 ?bp"
  proof -
    have "f_pin (frame_of s3 q) = (if n = 0 then 1 else 0)" if "cached s3 fd n = Some q" for n q
      using that hdr nofd [of n] fa'(5) by (cases "n = 0") (simp_all add: fr)
    then show ?thesis by (simp add: pool_idle_def)
  qed
  have rdf: "read_file_page s1 fd n = Some (file_page f n)" if "n < file_len f" for n
  proof (cases "n = 0")
    case False
    then have "page_view s1 fd n = page_view ?s0 fd n" using fa'(7) by simp
    moreover have "cached s1 fd n = None"
      using nofd [OF False] c3 cached_map_of [OF fa'(3), of fd n] by simp
    ultimately show ?thesis using that none [of n] o(4) [of fd n] by (simp add: page_view_def)
  qed (use fa'(9) in simp)
  have disk: "file_shows s3 fd f"
    unfolding file_shows_def
  proof (intro conjI allI impI)
    fix n assume n: "n < file_len f"
    show "Some (file_page f n) = page_view s3 fd n"
      using rdf [OF n] hdr nofd [of n] by (cases "n = 0") (simp_all add: page_view_def fr rd)
  qed (simp add: len3)
  have view: "page_view s3 fd' n = page_view s fd' n" if "fd' \<noteq> fd" for fd' n
  proof -
    have c1: "cached s1 fd' n = cached s3 fd' n" unfolding c3 by (rule cached_map_of [OF fa'(3)])
    have "q \<noteq> p" if "cached s3 fd' n = Some q" for q
      using cached_inj [OF inv3 hdr] that \<open>fd' \<noteq> fd\<close> by blast
    then have "page_view s3 fd' n = page_view s1 fd' n"
      by (simp add: page_view_def c1 fr rd split: option.split)
    also have "\<dots> = page_view ?s0 fd' n" using that by (intro fa'(7)) simp
    also have "\<dots> = page_view s fd' n"
      using o(4) [of fd' n] that by (simp add: page_view_def cached_def split: option.split)
    finally show ?thesis .
  qed
  have "sys_fd s3 fd = Some name" "disk_ok s3"
    using fa'(2) inv(2) by (simp_all add: s3_def s2_def sys_env_def disk_ok_def)
  with run ok3 idle disk view show ?thesis
    by (intro exI [of _ ?bp] exI [of _ s3]) (simp add: s3_def)
qed


section \<open>The loop of \<open>allocate_frame\<close>\<close>

lemma purge_frames_none:
  assumes "fm_rel (sys_fm s) es" "\<And>fid p. (fid, p) \<in> set es \<Longrightarrow> f_pin (frame_of s p) \<noteq> 0"
  shows "purge_frames s 1 purger = Some (0, s)"
proof -
  have "find (\<lambda>(fid, p). can_purge (frame_of s p)) (rev es) = None"
    using assms(2) by (auto simp: find_None_iff can_purge_def)
  then show ?thesis
    by (simp add: purge_frames_def lru_foreach_reverse_abs [OF fm_relD(1) [OF assms(1)]] visit_purge_finder)
qed

lemma allocate_frame_stuck:
  assumes "bp_inv s0" "cached s0 (bp_fd bp0) n0 = None" "\<not> evictable s0"
  shows "allocate_frame s0 bp0 n0 = None"
proof -
  obtain es where es: "files_ok s0" "fm_rel (sys_fm s0) es" "frames_ok s0 es" using assms(1) by (rule bp_invE)
  have m: "map_of es \<lparr>fid_fd = bp_fd bp0, fid_page = n0\<rparr> = None" using assms(2) by (simp add: cached_map_of [OF es(2)])
  have "fm_frees (sys_fm s0) = []" using assms(3) by (simp add: evictable_def)
  note full = alloc_full [OF es(2) m this]
  have "f_pin (frame_of s0 p) \<noteq> 0" if "(fid, p) \<in> set es" for fid p
    using assms(3) that fm_relD(4) [OF es(2)] by (force simp: evictable_def)
  then have none: "purge_frames s0 1 purger = Some (0, s0)" for purger
    by (rule purge_frames_none [OF es(2)])
  have "\<not> (s = s0 \<and> bp = bp0 \<and> n = n0)" if "allocate_frame s bp n = Some y" for s bp n y
  proof (rule allocate_frame.raw_induct [where P = "\<lambda>s bp n y. \<not> (s = s0 \<and> bp = bp0 \<and> n = n0)", OF _ that])
    fix f s bp n y
    assume IH: "\<And>s bp n y. f s bp n = Some y \<Longrightarrow> \<not> (s = s0 \<and> bp = bp0 \<and> n = n0)"
      and run: "(case BPFrameManager_alloc (sys_fm s) (bp_fd bp) n of
        (None, fm) \<Rightarrow> Option.bind (purge_frames (s\<lparr>sys_fm := fm\<rparr>) 1 (frame_purger bp)) (\<lambda>(_, s). f s bp n)
      | (Some p, fm) \<Rightarrow> Some (p, s\<lparr>sys_fm := fm\<rparr>)) = Some y"
    show "\<not> (s = s0 \<and> bp = bp0 \<and> n = n0)"
    proof
      assume "s = s0 \<and> bp = bp0 \<and> n = n0"
      with run full none have "f s0 bp0 n0 = Some y" by simp
      with IH show False by blast
    qed
  qed
  then have "allocate_frame s0 bp0 n0 \<noteq> Some y" for y by blast
  then show ?thesis by (cases "allocate_frame s0 bp0 n0") blast+
qed


section \<open>Flushing every page of a file\<close>

lemma flush_list_ok:
  assumes "files_ok s" "disk_ok s" "fm_rel (sys_fm s) es" "frames_ok s es"
    and "set xs \<subseteq> set es" "\<forall>(fid, p) \<in> set xs. fid_fd fid = bp_fd bp"
  shows "\<exists>s'. flush_list s bp (map snd xs) = (SUCCESS, s') \<and> files_ok s' \<and> fm_rel (sys_fm s') es \<and> frames_ok s' es \<and>
    sys_env s s' \<and> (\<forall>p. f_pin (frame_of s' p) = f_pin (frame_of s p) \<and> f_page (frame_of s' p) = f_page (frame_of s p)) \<and>
    (\<forall>(fid, p) \<in> set xs. \<not> f_dirty (frame_of s' p)) \<and> (\<forall>p. f_dirty (frame_of s' p) \<longrightarrow> f_dirty (frame_of s p))"
  using assms
proof (induction xs arbitrary: s)
  case Nil
  then show ?case by auto
next
  case (Cons x xs)
  obtain fid p where x: "x = (fid, p)" by fastforce
  have e: "(fid, p) \<in> set es" "fid_fd fid = bp_fd bp" using Cons.prems(5,6) x by auto
  note ok = frames_okD [OF Cons.prems(4) e(1)]
  note d = frame_okD [OF ok]
  obtain s1 where s1: "flush_page_internal s bp p = (SUCCESS, s1)" "files_ok s1" "sys_env s s1"
    "sys_fm s1 = fm_upd (sys_fm s) p clear_dirty"
    "\<And>fd' n'. read_file_page s1 fd' n' =
       (if fd' = bp_fd bp \<and> n' = fid_page fid then Some (f_page (frame_of s p)) else read_file_page s fd' n')"
    using flush_page_internal_ok [OF Cons.prems(1,2), of p bp "fid_page fid"] d e(2) by auto
  have "p \<in> snd ` set es" using e(1) by force
  then have rel: "fm_rel (sys_fm s1) es" unfolding s1(4) using Cons.prems(3) by (rule_tac fm_rel_upd_used)
  have "frame_ok s1 fid' q" if m: "(fid', q) \<in> set es" for fid' q
  proof (cases "q = p")
    case True
    then have "fid' = fid" using fm_rel_entry_unique [OF Cons.prems(3) e(1)] m by blast
    with True ok e(2) s1(3,4) show ?thesis by (simp add: frame_ok_def s1(5) registered_def sys_env_def)
  next
    case False
    then have "fid' \<noteq> fid" using fm_relD(2) [OF Cons.prems(3)] m e(1) by (auto dest: eq_key_imp_eq_value)
    then have "\<not> (fid_fd fid' = bp_fd bp \<and> fid_page fid' = fid_page fid)" using e(2) by (cases fid, cases fid') auto
    then have "read_file_page s1 (fid_fd fid') (fid_page fid') = read_file_page s (fid_fd fid') (fid_page fid')"
      unfolding s1(5) by (rule if_not_P)
    with False frames_okD [OF Cons.prems(4) m] s1(3,4) show ?thesis
      by (simp add: frame_ok_def registered_def sys_env_def)
  qed
  then have ok1: "frames_ok s1 es" by (auto simp: frames_ok_def)
  have "disk_ok s1" using Cons.prems(2) s1(3) by (simp add: sys_env_def disk_ok_def)
  then obtain s2 where s2: "flush_list s1 bp (map snd xs) = (SUCCESS, s2)" "files_ok s2" "fm_rel (sys_fm s2) es"
    "frames_ok s2 es" "sys_env s1 s2" "\<And>p. f_pin (frame_of s2 p) = f_pin (frame_of s1 p)" "\<And>p. f_page (frame_of s2 p) = f_page (frame_of s1 p)"
    "\<forall>(fid, p) \<in> set xs. \<not> f_dirty (frame_of s2 p)" "\<And>p. f_dirty (frame_of s2 p) \<Longrightarrow> f_dirty (frame_of s1 p)"
    using Cons.IH [OF s1(2) _ rel ok1] Cons.prems(5,6) by auto
  have "f_pin (frame_of s1 q) = f_pin (frame_of s q)" "f_page (frame_of s1 q) = f_page (frame_of s q)" for q
    using s1(4) by simp_all
  moreover have "\<not> f_dirty (frame_of s2 p)" using s2(9) [of p] s1(4) by auto
  moreover have "f_dirty (frame_of s2 q) \<Longrightarrow> f_dirty (frame_of s q)" for q
    using s2(9) [of q] s1(4) by (cases "q = p") auto
  moreover have "flush_list s bp (map snd (x # xs)) = (SUCCESS, s2)"
    using s1(1) s2(1) x by (simp add: flush_page_def)
  ultimately show ?case
    using s2 sys_env_trans [OF s1(3) s2(5)] x by auto
qed

lemma flush_all_pages_ok:
  assumes "bp_inv s" "disk_ok s"
  shows "\<exists>s'. flush_all_pages s bp = Some (SUCCESS, s') \<and> bp_inv s' \<and>
    (\<forall>n p. cached s (bp_fd bp) n = Some p \<longrightarrow> cached s' (bp_fd bp) n = Some p \<and>
       read_file_page s' (bp_fd bp) n = page_view s (bp_fd bp) n \<and> f_pin (frame_of s' p) = f_pin (frame_of s p) + 1)"
proof -
  obtain es where es: "files_ok s" "fm_rel (sys_fm s) es" "frames_ok s es" using assms(1) by (rule bp_invE)
  note d = fm_relD [OF es(2)]
  let ?xs = "file_frames (bp_fd bp) es" and ?s1 = "pin_file s (bp_fd bp) es"
  note pf = pin_file_ok [OF es(2,3), of "bp_fd bp"]
  have fd: "\<forall>(fid, p) \<in> set ?xs. fid_fd fid = bp_fd bp" by (auto simp: file_frames_def)
  have env: "files_ok ?s1" "disk_ok ?s1" using es(1) assms(2) by simp_all
  obtain s2 where s2: "flush_list ?s1 bp (map snd ?xs) = (SUCCESS, s2)" "files_ok s2" "fm_rel (sys_fm s2) es" "frames_ok s2 es"
    "\<And>p. f_pin (frame_of s2 p) = f_pin (frame_of ?s1 p)" "\<And>p. f_page (frame_of s2 p) = f_page (frame_of ?s1 p)"
    "\<forall>(fid, p) \<in> set ?xs. \<not> f_dirty (frame_of s2 p)"
    using flush_list_ok [OF env pf(1,2) file_frames_sub(1) fd] by blast
  have run: "flush_all_pages s bp = Some (SUCCESS, s2)"
    using s2(1) by (simp add: flush_all_pages_def pf(3,4))
  have "cached s2 (bp_fd bp) n = Some p \<and> read_file_page s2 (bp_fd bp) n = page_view s (bp_fd bp) n \<and>
      f_pin (frame_of s2 p) = f_pin (frame_of s p) + 1" if c: "cached s (bp_fd bp) n = Some p" for n p
  proof -
    have e: "(\<lparr>fid_fd = bp_fd bp, fid_page = n\<rparr>, p) \<in> set es" by (rule cached_entry [OF es(2) c])
    then have x: "(\<lparr>fid_fd = bp_fd bp, fid_page = n\<rparr>, p) \<in> set ?xs" by (simp add: file_frames_def)
    then have p: "p \<in> snd ` set ?xs" by force
    have "read_file_page s2 (bp_fd bp) n = Some (f_page (frame_of s2 p))"
      using frame_okD(7) [OF frames_okD [OF s2(4) e]] bspec [OF s2(7) x] by simp
    moreover have "f_page (frame_of s2 p) = f_page (frame_of s p)" using p by (simp add: s2(6))
    moreover have "cached s2 (bp_fd bp) n = Some p" using c by (simp add: cached_map_of [OF es(2)] cached_map_of [OF s2(3)])
    ultimately show ?thesis using cached_view [OF c] p by (simp add: s2(5))
  qed
  moreover have "bp_inv s2" using s2(2-4) by (auto simp: bp_inv_def)
  ultimately show ?thesis using run by blast
qed


section \<open>The iterator\<close>

lemma next_setted_loop_ge:
  "next_setted_loop m bm iter st \<noteq> -1 \<Longrightarrow> next_setted_loop m bm iter st \<ge> int (8 * iter + st) \<or> next_setted_loop m bm iter st \<ge> int (8 * Suc iter)"
proof (induction m bm iter st rule: next_setted_loop.induct)
  case (1 m bm iter st)
  let ?byte = "m (bm_base bm + iter)"
  show ?case
  proof (cases "iter < bitmap_bytes (bm_size bm)")
    case False
    with "1.prems" show ?thesis by (simp add: next_setted_loop.simps [of m bm iter st])
  next
    case in_range: True
    show ?thesis
    proof (cases "?byte \<noteq> 0 \<and> find_first_setted ?byte st \<ge> 0")
      case True
      have "find_first_setted ?byte st \<ge> int st"
        using find_first_setted_first [of ?byte st] True by (auto simp: is_first_def)
      with True in_range show ?thesis
        by (simp add: next_setted_loop.simps [of m bm iter st] Let_def mult.commute)
    next
      case False
      then obtain st' where eq: "next_setted_loop m bm iter st = next_setted_loop m bm (Suc iter) st'"
        and IH: "next_setted_loop m bm (Suc iter) st' \<noteq> -1 \<Longrightarrow>
          next_setted_loop m bm (Suc iter) st' \<ge> int (8 * Suc iter + st') \<or> next_setted_loop m bm (Suc iter) st' \<ge> int (8 * Suc (Suc iter))"
        using in_range "1.IH" [OF in_range refl]
        by (cases "?byte = 0") (auto simp: next_setted_loop.simps [of m bm iter st] Let_def)
      from IH "1.prems" eq show ?thesis by auto
    qed
  qed
qed

lemma next_setted_bit_ge:
  assumes "next_setted_bit m bm start \<noteq> -1"
  shows "int start \<le> next_setted_bit m bm start" "next_setted_bit m bm start < int (bm_size bm)"
proof -
  let ?r = "next_setted_loop m bm (start div 8) (start mod 8)"
  from assms have r: "next_setted_bit m bm start = ?r" "?r < int (bm_size bm)" "?r \<noteq> -1"
    by (auto simp: next_setted_bit_def Let_def split: if_splits)
  have "start \<le> 8 * Suc (start div 8)" by simp
  moreover have "8 * (start div 8) + start mod 8 = start" by simp
  ultimately show "int start \<le> next_setted_bit m bm start" "next_setted_bit m bm start < int (bm_size bm)"
    using next_setted_loop_ge [OF r(3)] r by linarith+
qed

text \<open>The loop \<^verbatim>\<open>while (it.has_next()) { n = it.next(); ... }\<close> of the clients, as the list of its page numbers.\<close>

function iterate_pages :: "mem \<Rightarrow> BufferPoolIterator \<Rightarrow> int list" where
  "iterate_pages m it =
     (if BufferPoolIterator_has_next m it
      then let (n, it) = BufferPoolIterator_next m it in n # iterate_pages m it else [])"
  by pat_completeness auto
termination
proof (relation "measure (\<lambda>(_, it). bm_size (bpi_bitmap it) - nat (bpi_current it + 1))")
  fix m it x n it'
  assume h: "BufferPoolIterator_has_next m it" and x: "x = BufferPoolIterator_next m it" "(n, it') = x"
  let ?st = "nat (bpi_current it + 1)"
  from h x have n: "n = next_setted_bit m (bpi_bitmap it) ?st" "it' = it\<lparr>bpi_current := n\<rparr>" "n \<noteq> -1"
    by (auto simp: BufferPoolIterator_has_next_def BufferPoolIterator_next_def Let_def)
  with next_setted_bit_ge [of m "bpi_bitmap it" ?st] have "int ?st \<le> n" "n < int (bm_size (bpi_bitmap it))" by metis+
  then have "?st < nat (n + 1)" "?st < bm_size (bpi_bitmap it)" by linarith+
  with n(2) show "((m, it'), m, it) \<in> measure (\<lambda>(_, it). bm_size (bpi_bitmap it) - nat (bpi_current it + 1))"
    by (simp add: diff_less_mono2)
qed simp

declare iterate_pages.simps [simp del]

lemma iterate_pages_filter:
  assumes "bpi_current it = int c" "Bitmap_get_bit m (bpi_bitmap it) c"
  shows "iterate_pages m it = map int (filter (Bitmap_get_bit m (bpi_bitmap it)) [Suc c..<bm_size (bpi_bitmap it)])"
  using assms
proof (induction "bm_size (bpi_bitmap it) - c" arbitrary: it c rule: less_induct)
  case less
  let ?bm = "bpi_bitmap it" and ?r = "next_setted_bit m (bpi_bitmap it) (Suc c)"
  have st: "nat (bpi_current it + 1) = Suc c" using less.prems(1) by simp
  have start: "Suc c = 0 \<or> Bitmap_get_bit m ?bm (Suc c - 1)" using less.prems(2) by simp
  note fil = page_bits.next_used_filter [OF start]
  show ?case
  proof (cases "?r = -1")
    case True
    then show ?thesis using fil by (simp add: iterate_pages.simps [of m it] BufferPoolIterator_has_next_def st)
  next
    case False
    note slot = page_bits.next_used_slot [OF start False]
    let ?it = "it\<lparr>bpi_current := ?r\<rparr>"
    have "iterate_pages m it = ?r # iterate_pages m ?it"
      using False by (simp add: iterate_pages.simps [of m it] BufferPoolIterator_has_next_def BufferPoolIterator_next_def st Let_def)
    also have "iterate_pages m ?it = map int (filter (Bitmap_get_bit m ?bm) [Suc (nat ?r)..<bm_size ?bm])"
      using less.hyps [of ?it "nat ?r"] slot by simp
    finally show ?thesis unfolding fil using False slot(1) by (simp split: if_splits)
  qed
qed


section \<open>The interface of the buffer pool\<close>

text \<open>
  What the record manager and the index rely on: fetching a page changes no page, a write through a
  held frame changes exactly that page, releasing a frame changes nothing.
\<close>

locale page_store =
  fixes inv :: "'s \<Rightarrow> bool"
    and room :: "'s \<Rightarrow> bool"
    and view :: "'s \<Rightarrow> PageNum \<Rightarrow> Page option"
    and holds :: "'s \<Rightarrow> PageNum \<Rightarrow> nat \<Rightarrow> bool"
    and content :: "'s \<Rightarrow> nat \<Rightarrow> mem"
    and fetch :: "'s \<Rightarrow> PageNum \<Rightarrow> ((RC + nat) \<times> 's) option"
    and put :: "'s \<Rightarrow> nat \<Rightarrow> (mem \<Rightarrow> mem) \<Rightarrow> 's"
    and release :: "'s \<Rightarrow> nat \<Rightarrow> 's"
  assumes fetch_ok: "inv s \<Longrightarrow> room s \<Longrightarrow> view s n \<noteq> None \<Longrightarrow>
      \<exists>p s'. fetch s n = Some (Inr p, s') \<and> inv s' \<and> holds s' n p \<and> view s' = view s"
    and holds_content: "inv s \<Longrightarrow> holds s n p \<Longrightarrow> map_option pg_data (view s n) = Some (content s p)"
    and put_ok: "inv s \<Longrightarrow> holds s n p \<Longrightarrow> inv (put s p g) \<and> holds (put s p g) n p \<and>
      view (put s p g) = (view s)(n := map_option (pg_data_update g) (view s n))"
    and release_ok: "inv s \<Longrightarrow> holds s n p \<Longrightarrow> inv (release s p) \<and> view (release s p) = view s"
    and room_back: "inv s \<Longrightarrow> room s \<Longrightarrow> view s n \<noteq> None \<Longrightarrow> fetch s n = Some (Inr p, s') \<Longrightarrow>
      room (release s' p) \<and> room (release (put s' p g) p)"
begin

lemma read_page:
  assumes "inv s" "room s" "view s n = Some page"
  shows "\<exists>p s'. fetch s n = Some (Inr p, s') \<and> content s' p = pg_data page \<and> inv s' \<and> holds s' n p \<and> view s' = view s \<and>
    inv (release s' p) \<and> view (release s' p) = view s \<and> room (release s' p)"
proof -
  obtain p s' where f: "fetch s n = Some (Inr p, s')" "inv s'" "holds s' n p" "view s' = view s"
    using fetch_ok [OF assms(1,2), of n] assms(3) by auto
  have "content s' p = pg_data page" using holds_content [OF f(2,3)] assms(3) f(4) by simp
  moreover have "inv (release s' p)" "view (release s' p) = view s" using release_ok [OF f(2,3)] f(4) by simp_all
  moreover have "room (release s' p)" using room_back [OF assms(1,2) _ f(1)] assms(3) by simp
  ultimately show ?thesis using f by blast
qed

lemma read_modify_write:
  assumes "inv s" "room s" "view s n = Some page"
  shows "\<exists>p s'. fetch s n = Some (Inr p, s') \<and> content s' p = pg_data page \<and> inv (release (put s' p g) p) \<and>
    view (release (put s' p g) p) = (view s)(n \<mapsto> pg_data_update g page) \<and> room (release (put s' p g) p)"
proof -
  obtain p s' where f: "fetch s n = Some (Inr p, s')" "inv s'" "holds s' n p" "view s' = view s"
    using fetch_ok [OF assms(1,2), of n] assms(3) by auto
  have "content s' p = pg_data page" using holds_content [OF f(2,3)] assms(3) f(4) by simp
  moreover have w: "inv (put s' p g)" "holds (put s' p g) n p" "view (put s' p g) = (view s)(n \<mapsto> pg_data_update g page)"
    using put_ok [OF f(2,3), of g] assms(3) f(4) by simp_all
  moreover have "inv (release (put s' p g) p)" "view (release (put s' p g) p) = view (put s' p g)"
    using release_ok [OF w(1,2)] by simp_all
  moreover have "room (release (put s' p g) p)" using room_back [OF assms(1,2) _ f(1)] assms(3) by simp
  ultimately show ?thesis using f(1) by (intro exI [of _ p] exI [of _ s']) simp
qed

end

text \<open>The data pages of a file: all but its header.\<close>

definition data_view :: "Sys \<Rightarrow> DiskBufferPool \<Rightarrow> PageNum \<Rightarrow> Page option" where
  "data_view s bp n = (if n = 0 then None else page_view s (bp_fd bp) n)"

definition frame_held :: "Sys \<Rightarrow> DiskBufferPool \<Rightarrow> PageNum \<Rightarrow> nat \<Rightarrow> bool" where
  "frame_held s bp n p \<longleftrightarrow> n \<noteq> 0 \<and> cached s (bp_fd bp) n = Some p \<and> f_pin (frame_of s p) > 0"

lemma held_not_header:
  assumes "pool_ok s bp" "frame_held s bp n p"
  shows "p \<noteq> bp_hdr bp"
  using cached_inj [OF pool_okD(1,3) [OF assms(1)], of "bp_fd bp" n] assms(2) by (auto simp: frame_held_def)

lemma fetched_held:
  assumes "page_fetched s bp n p s'" "bp_inv s" "n \<noteq> 0"
  shows "frame_held s' bp n p"
proof -
  have c: "cached s' (bp_fd bp) n = Some p" using assms(1) by (simp add: page_fetched_def)
  moreover have "f_pin (frame_of s' p) > 0"
  proof (cases "cached s (bp_fd bp) n")
    case None
    then show ?thesis using assms(1) by (simp add: page_fetched_def)
  next
    case (Some q)
    then have "q = p" using assms(1) by (simp add: page_fetched_def)
    with Some frame_okD(6) [OF cached_frame_ok [OF assms(2) Some]] assms(1) show ?thesis by (simp add: page_fetched_def)
  qed
  ultimately show ?thesis using assms(3) by (simp add: frame_held_def)
qed

interpretation pool: page_store
  "\<lambda>s. pool_ok s bp \<and> disk_ok s" evictable "\<lambda>s. data_view s bp" "\<lambda>s. frame_held s bp" frame_data
  "\<lambda>s. get_this_page s bp" frame_write "\<lambda>s p. snd (unpin_page s p)"
  for bp :: DiskBufferPool
proof
  fix s n
  assume ok: "pool_ok s bp \<and> disk_ok s" and room: "evictable s" and v: "data_view s bp n \<noteq> None"
  then have n: "n \<noteq> 0" "page_view s (bp_fd bp) n \<noteq> None" by (auto simp: data_view_def split: if_splits)
  note d = pool_okD [of s bp]
  obtain p s' where g: "get_this_page s bp n = Some (Inr p, s')" "page_fetched s bp n p s'"
    using get_this_page_ok [of s bp n] ok d(1,2) room n(2) by blast
  have "pool_ok s' bp" using fetched_pool_ok(1) [OF g(2)] ok d by blast
  moreover have "disk_ok s'" using ok g(2) by (simp add: page_fetched_def sys_env_def disk_ok_def)
  moreover have "frame_held s' bp n p" using fetched_held [OF g(2)] ok d(1) n(1) by blast
  moreover have "data_view s' bp = data_view s bp" using g(2) by (simp add: page_fetched_def data_view_def fun_eq_iff)
  ultimately show "\<exists>p s'. get_this_page s bp n = Some (Inr p, s') \<and> (pool_ok s' bp \<and> disk_ok s') \<and> frame_held s' bp n p \<and>
      data_view s' bp = data_view s bp"
    using g(1) by blast
next
  fix s n p
  assume "pool_ok s bp \<and> disk_ok s" "frame_held s bp n p"
  then show "map_option pg_data (data_view s bp n) = Some (frame_data s p)"
    by (simp add: frame_held_def data_view_def cached_view)
next
  fix s n p g
  assume ok: "pool_ok s bp \<and> disk_ok s" and h: "frame_held s bp n p"
  note d = pool_okD [of s bp]
  have c: "cached s (bp_fd bp) n = Some p" "n \<noteq> 0" using h by (simp_all add: frame_held_def)
  have inv: "bp_inv s" using ok d(1) by blast
  have "p \<noteq> bp_hdr bp" using held_not_header ok h by blast
  then have "pool_ok (frame_write s p g) bp"
    using ok frame_write_ok(1) [OF inv c(1), of g] by (simp add: pool_ok_def)
  moreover have "frame_held (frame_write s p g) bp n p" using h by (simp add: frame_held_def)
  moreover have "data_view (frame_write s p g) bp = (data_view s bp)(n := map_option (pg_data_update g) (data_view s bp n))"
    using c(2) by (auto simp: data_view_def frame_write_ok(2) [OF inv c(1)])
  ultimately show "(pool_ok (frame_write s p g) bp \<and> disk_ok (frame_write s p g)) \<and> frame_held (frame_write s p g) bp n p \<and>
      data_view (frame_write s p g) bp = (data_view s bp)(n := map_option (pg_data_update g) (data_view s bp n))"
    using ok by simp
next
  fix s n p
  assume ok: "pool_ok s bp \<and> disk_ok s" and h: "frame_held s bp n p"
  note d = pool_okD [of s bp]
  have inv: "bp_inv s" "cached s (bp_fd bp) n = Some p" "f_pin (frame_of s p) > 0"
    using ok d(1) h by (auto simp: frame_held_def)
  have "p \<noteq> bp_hdr bp" using held_not_header ok h by blast
  then show "(pool_ok (snd (unpin_page s p)) bp \<and> disk_ok (snd (unpin_page s p))) \<and> data_view (snd (unpin_page s p)) bp = data_view s bp"
    using ok unpin_ok [OF inv] by (simp add: unpin_page_def pool_ok_def data_view_def fun_eq_iff)
next
  fix s n p s' g
  assume ok: "pool_ok s bp \<and> disk_ok s" and room: "evictable s" and v: "data_view s bp n \<noteq> None"
    and g: "get_this_page s bp n = Some (Inr p, s')"
  have "page_view s (bp_fd bp) n \<noteq> None" using v by (auto simp: data_view_def split: if_splits)
  then have pf: "page_fetched s bp n p s'"
    using get_this_page_ok [of s bp n] ok pool_okD(1,2) [of s bp] room g by fastforce
  have r: "evictable (frame_upd s' p frame_unpin)" using fetched_room [OF _ room g pf] ok pool_okD(1) by blast
  moreover have "evictable (frame_upd (frame_write s' p g) p frame_unpin) = evictable (frame_upd s' p frame_unpin)"
  proof -
    have "f_pin (frame_of (frame_upd (frame_write s' p g) p frame_unpin) q) = f_pin (frame_of (frame_upd s' p frame_unpin) q)" for q
      by (simp add: frame_write_def)
    then show ?thesis unfolding evictable_def by (simp add: frame_write_def)
  qed
  ultimately show "evictable (snd (unpin_page s' p)) \<and> evictable (snd (unpin_page (frame_write s' p g) p))"
    by (simp add: unpin_page_def)
qed


section \<open>An opened pool\<close>

text \<open>A system with one pool of frames, right after creating and opening one file: the properties are applied to it below.\<close>

definition start_sys :: Sys where
  "start_sys = \<lparr>sys_fm = snd (BPFrameManager_init 1), sys_fd = (\<lambda>_. None), sys_file = (\<lambda>_. None),
     sys_writable = (\<lambda>_ _. True), buffer_pools = [], fd_buffer_pools = []\<rparr>"

definition created_sys :: Sys where
  "created_sys = snd (BufferPoolManager_create_file start_sys ''t'')"

definition opened :: "DiskBufferPool \<times> Sys" where
  "opened = (case BufferPoolManager_open_file created_sys ''t'' 3 of Some (Inr bp, s) \<Rightarrow> (bp, s))"

abbreviation "opened_bp \<equiv> fst opened"
abbreviation "opened_sys \<equiv> snd opened"

lemma start_inv: "bp_inv start_sys" "disk_ok start_sys" "evictable start_sys"
proof -
  have "fm_rel (sys_fm start_sys) []"
    by (simp add: start_sys_def BPFrameManager_init_def Let_def fm_rel_def lru_empty_abs new_frame_def)
  moreover have "files_ok start_sys" by (simp add: files_ok_def start_sys_def read_file_page_def)
  ultimately show "bp_inv start_sys" by (auto simp: bp_inv_def frames_ok_def)
  show "disk_ok start_sys" "evictable start_sys"
    by (simp_all add: disk_ok_def evictable_def start_sys_def BPFrameManager_init_def Let_def)
qed

lemma opened_ok:
  "pool_ok opened_sys opened_bp" "disk_ok opened_sys" "pool_idle opened_sys opened_bp" "fd_len opened_sys 3 = 1"
  "bp_fd opened_bp = 3" "bp_file_name opened_bp = ''t''" "sys_fd opened_sys 3 = Some ''t''" "evictable opened_sys"
  "sys_fd opened_sys 4 = None" "\<And>fd. sys_fd opened_sys fd = Some ''t'' \<longleftrightarrow> fd = 3"
proof -
  have c: "BufferPoolManager_create_file start_sys ''t'' = (SUCCESS, created_sys)" "bp_inv created_sys"
    "sys_env start_sys created_sys" "sys_fm created_sys = sys_fm start_sys"
    "\<exists>f. sys_file created_sys ''t'' = Some f \<and> file_ok f \<and> file_len f = 1"
    using create_file_ok [OF start_inv(1,2), of "''t''"] by (auto simp: created_sys_def start_sys_def)
  then obtain f where f: "sys_file created_sys ''t'' = Some f" "file_ok f" "file_len f = 1" by blast
  have env: "sys_fd created_sys = (\<lambda>_. None)" "buffer_pools created_sys = []" "disk_ok created_sys" "evictable created_sys"
    using c(3,4) start_inv(2,3) by (simp_all add: sys_env_def disk_ok_def evictable_def start_sys_def)
  have "\<exists>bp s'. BufferPoolManager_open_file created_sys ''t'' 3 = Some (Inr bp, s') \<and> pool_ok s' bp \<and> pool_idle s' bp \<and>
    bp_fd bp = 3 \<and> bp_file_name bp = ''t'' \<and> sys_fd s' 3 = Some ''t'' \<and> file_shows s' 3 f \<and> disk_ok s' \<and>
    map_of (buffer_pools s') ''t'' = Some bp \<and> (\<forall>fd' n. fd' \<noteq> 3 \<longrightarrow> page_view s' fd' n = page_view created_sys fd' n)"
    by (rule open_file_ok [OF c(2) env(3,4) _ _ _ _ f(1,2)]) (simp_all add: env)
  then obtain bp s' where o: "BufferPoolManager_open_file created_sys ''t'' 3 = Some (Inr bp, s')" "pool_ok s' bp"
    "pool_idle s' bp" "bp_fd bp = 3" "bp_file_name bp = ''t''" "sys_fd s' 3 = Some ''t''" "file_shows s' 3 f" "disk_ok s'"
    by blast
  have eq: "opened_bp = bp" "opened_sys = s'" using o(1) by (simp_all add: opened_def)
  then show "pool_ok opened_sys opened_bp" "disk_ok opened_sys" "pool_idle opened_sys opened_bp" "bp_fd opened_bp = 3"
    "bp_file_name opened_bp = ''t''" "sys_fd opened_sys 3 = Some ''t''" "fd_len opened_sys 3 = 1"
    using o f(3) by (simp_all add: file_shows_def)
  have frees: "fm_frees (sys_fm created_sys) = [0..<128]" "fm_cache (sys_fm created_sys) = LruCache_empty"
    unfolding c(4) by (simp_all add: start_sys_def BPFrameManager_init_def Let_def)
  have run: "fm_frees (sys_fm s') = [1..<128] \<and> sys_fd s' = (\<lambda>_. None)(3 \<mapsto> ''t'')"
    using o(1) unfolding BufferPoolManager_open_file_def DiskBufferPool_open_file_def BP_HEADER_PAGE_def
    by (subst (asm) allocate_frame.simps)
      (auto simp: env frees BPFrameManager_alloc_def get_internal_def MemPool_alloc_def upt_rec [of 0] Let_def
        lru_get_miss [OF lru_empty_abs] load_page_def split: option.splits if_splits prod.splits)
  then show "evictable opened_sys" "sys_fd opened_sys 4 = None" "\<And>fd. sys_fd opened_sys fd = Some ''t'' \<longleftrightarrow> fd = 3"
    by (auto simp: eq evictable_def)
qed



section \<open>Properties\<close>

text \<open>
  C13: fetching a page that exists always returns, as long as the page is cached or some frame can be
  evicted. The frame it returns is pinned and holds the page's current content, no page of any file
  changes its content (a dirty frame that has to make room is written back first), and every frame a
  client has pinned stays where it is with its content.
\<close>

theorem get_this_page_transparent:
  assumes "bp_inv s" "disk_ok s" "registered s (bp_fd bp)" "n < fd_len s (bp_fd bp)"
    and "cached s (bp_fd bp) n \<noteq> None \<or> evictable s"
  shows "\<exists>p s'. get_this_page s bp n = Some (Inr p, s') \<and> bp_inv s' \<and> cached s' (bp_fd bp) n = Some p \<and>
    f_pin (frame_of s' p) = (if cached s (bp_fd bp) n = None then 1 else f_pin (frame_of s p) + 1) \<and>
    page_view s (bp_fd bp) n = Some (f_page (frame_of s' p)) \<and>
    (\<forall>fd' n'. page_view s' fd' n' = page_view s fd' n') \<and>
    (\<forall>fd' n' q. cached s fd' n' = Some q \<and> f_pin (frame_of s q) \<noteq> 0 \<longrightarrow>
       cached s' fd' n' = Some q \<and> f_page (frame_of s' q) = f_page (frame_of s q))"
proof -
  have "page_view s (bp_fd bp) n \<noteq> None" using page_view_defined assms(1,4) by blast
  then obtain p s' where g: "get_this_page s bp n = Some (Inr p, s')" "page_fetched s bp n p s'"
    using get_this_page_ok assms(1-3,5) by blast
  have "f_page (frame_of s' q) = f_page (frame_of s q)" if "cached s fd' n' = Some q" "cached s' fd' n' = Some q" for fd' n' q
    using g(2) cached_view [OF that(1)] cached_view [OF that(2)] by (simp add: page_fetched_def)
  moreover have "cached s' fd' n' = Some q" if "cached s fd' n' = Some q" "f_pin (frame_of s q) \<noteq> 0" for fd' n' q
    using g(2) that by (simp add: page_fetched_def)
  ultimately have "\<forall>fd' n' q. cached s fd' n' = Some q \<and> f_pin (frame_of s q) \<noteq> 0 \<longrightarrow>
       cached s' fd' n' = Some q \<and> f_page (frame_of s' q) = f_page (frame_of s q)" by blast
  with g show ?thesis unfolding page_fetched_def by blast
qed

theorem get_this_page_transparent_witness:
  "\<exists>p s'. get_this_page opened_sys opened_bp 0 = Some (Inr p, s') \<and> bp_inv s' \<and> hdr_ok (frame_data s' p) 1"
proof -
  note o = opened_ok pool_okD [OF opened_ok(1)]
  have "registered opened_sys (bp_fd opened_bp)" "0 < fd_len opened_sys (bp_fd opened_bp)" using o by auto
  then obtain p s' where g: "get_this_page opened_sys opened_bp 0 = Some (Inr p, s')" "bp_inv s'"
    "page_view opened_sys (bp_fd opened_bp) 0 = Some (f_page (frame_of s' p))"
    using get_this_page_transparent [of opened_sys opened_bp 0] o(2,8,11) by blast
  moreover have "hdr_ok (frame_data opened_sys (bp_hdr opened_bp)) 1" using o(4,5,15) by simp
  ultimately show ?thesis using cached_view [OF o(13)] by auto
qed

text \<open>
  C15: allocating a page returns a frame for the lowest page number that is not allocated, which is a
  page behind the end of the file when all are, and then it is all zero. The number is counted and
  marked in the header, the header stays well-formed, and all other pages keep their content. When the
  file has reached its largest size with every page allocated, the answer is \<open>BUFFERPOOL_NOBUF\<close> and
  nothing changes.
\<close>

theorem allocate_page_correct:
  assumes "pool_ok s bp" "disk_ok s" "evictable s"
  shows "(allocate_page s bp = Some (Inl BUFFERPOOL_NOBUF, s) \<and> (\<forall>j < MAX_PAGE_NUM. pool_allocated s bp j)) \<or>
    (\<exists>n p s'. allocate_page s bp = Some (Inr p, s') \<and> pool_ok s' bp \<and> cached s' (bp_fd bp) n = Some p \<and>
       f_pin (frame_of s' p) > 0 \<and> (\<forall>j < n. pool_allocated s bp j) \<and> \<not> pool_allocated s bp n \<and>
       (\<forall>j. pool_allocated s' bp j \<longleftrightarrow> j = n \<or> pool_allocated s bp j) \<and>
       page_view s' (bp_fd bp) n =
         (if n < fd_len s (bp_fd bp) then page_view s (bp_fd bp) n else Some (zero_page\<lparr>pg_num := n\<rparr>)) \<and>
       (\<forall>fd' n'. \<not> (fd' = bp_fd bp \<and> n' \<in> {0, n}) \<longrightarrow> page_view s' fd' n' = page_view s fd' n'))"
proof (cases "fd_len s (bp_fd bp) < MAX_PAGE_NUM \<or> (\<exists>i < fd_len s (bp_fd bp). \<not> page_allocated (frame_data s (bp_hdr bp)) i)")
  case True
  obtain n p s' where a: "allocate_page s bp = Some (Inr p, s')" "page_added s bp n p s'"
    "page_view s' (bp_fd bp) n = (if n < fd_len s (bp_fd bp) then page_view s (bp_fd bp) n else Some (zero_page\<lparr>pg_num := n\<rparr>))"
    "\<And>j. j < n \<Longrightarrow> page_allocated (frame_data s (bp_hdr bp)) j" "n \<le> fd_len s (bp_fd bp)"
    using allocate_page_ok [OF assms True] by blast
  then have "\<forall>j < n. pool_allocated s bp j" by (simp add: pool_allocated_def)
  with a(1-3) show ?thesis by (auto simp: page_added_def)
next
  case False
  have "fd_len s (bp_fd bp) \<le> MAX_PAGE_NUM" using pool_okD(5) [OF assms(1)] by (simp add: hdr_ok_def)
  with False have "fd_len s (bp_fd bp) = MAX_PAGE_NUM" "\<forall>i < MAX_PAGE_NUM. page_allocated (frame_data s (bp_hdr bp)) i" by auto
  with allocate_page_full [OF assms(1)] show ?thesis by (simp add: pool_allocated_def)
qed

theorem allocate_page_correct_witness:
  "\<exists>p s'. allocate_page opened_sys opened_bp = Some (Inr p, s') \<and> pool_allocated s' opened_bp 1 \<and>
     page_view s' 3 1 = Some (zero_page\<lparr>pg_num := 1\<rparr>)"
proof -
  have p0: "pool_allocated opened_sys opened_bp j \<longleftrightarrow> j = 0" for j
    using pool_okD(5) [OF opened_ok(1)] opened_ok(4,5) by (auto simp: pool_allocated_def hdr_ok_def)
  have "\<not> (\<forall>j < MAX_PAGE_NUM. pool_allocated opened_sys opened_bp j)"
    using p0 [of 1] by (auto simp: MAX_PAGE_NUM_eq intro: exI [of _ 1])
  then obtain n p s' where a: "allocate_page opened_sys opened_bp = Some (Inr p, s')"
    "\<forall>j < n. pool_allocated opened_sys opened_bp j" "\<not> pool_allocated opened_sys opened_bp n"
    "\<forall>j. pool_allocated s' opened_bp j \<longleftrightarrow> j = n \<or> pool_allocated opened_sys opened_bp j"
    "page_view s' 3 n = (if n < 1 then page_view opened_sys 3 n else Some (zero_page\<lparr>pg_num := n\<rparr>))"
    using allocate_page_correct [OF opened_ok(1,2,8)] opened_ok(4,5) by auto
  from a(2,3) p0 have "n = 1" by (cases n) auto
  with a show ?thesis by auto
qed

text \<open>
  C16: disposing an allocated page whose frame is cached and not in use frees the number and the frame,
  keeps the header well-formed and leaves every other page alone; a page that is not cached is refused
  with \<open>NOTFOUND\<close> and nothing changes.
\<close>

theorem dispose_page_correct:
  assumes "pool_ok s bp" "n \<noteq> 0" "pool_allocated s bp n"
  shows "case cached s (bp_fd bp) n of
      None \<Rightarrow> dispose_page s bp n = (NOTFOUND, s)
    | Some p \<Rightarrow> f_pin (frame_of s p) = 0 \<longrightarrow>
        (\<exists>s'. dispose_page s bp n = (SUCCESS, s') \<and> pool_ok s' bp \<and> cached s' (bp_fd bp) n = None \<and>
           (\<forall>j. pool_allocated s' bp j \<longleftrightarrow> j \<noteq> n \<and> pool_allocated s bp j) \<and>
           (\<forall>fd' n'. \<not> (fd' = bp_fd bp \<and> n' \<in> {0, n}) \<longrightarrow> page_view s' fd' n' = page_view s fd' n'))"
  using dispose_page_missing [OF pool_okD(1) [OF assms(1)]] dispose_page_ok [OF assms(1,2)] assms(3)
  by (auto simp: pool_allocated_def split: option.split)



text \<open>The first page of the opened file, allocated and released again.\<close>

lemma opened_page:
  "\<exists>p s. cached s 3 1 = Some p \<and> f_pin (frame_of s p) = 0 \<and> pool_ok s opened_bp \<and> pool_allocated s opened_bp 1 \<and> disk_ok s \<and>
     bp_inv s"
proof -
  have room: "fd_len opened_sys (bp_fd opened_bp) < MAX_PAGE_NUM" using opened_ok(4,5) by (simp add: MAX_PAGE_NUM_eq)
  obtain n p s1 where a: "page_added opened_sys opened_bp n p s1" "n \<le> fd_len opened_sys (bp_fd opened_bp)"
    using allocate_page_ok [OF opened_ok(1,2,8) disjI1 [OF room]] by blast
  have "n \<noteq> 0" using a(1) by (simp add: page_added_def)
  with a(2) opened_ok(4,5) have n: "n = 1" by simp
  have "cached opened_sys 3 1 = None"
    using frame_okD(3) [OF cached_frame_ok [OF pool_okD(1) [OF opened_ok(1)], of 3 1]] opened_ok(4)
    by (cases "cached opened_sys 3 1") auto
  then have s1: "pool_ok s1 opened_bp" "cached s1 3 1 = Some p" "f_pin (frame_of s1 p) = 1" "pool_allocated s1 opened_bp 1" "disk_ok s1"
    using a(1) n opened_ok(2,5) by (auto simp: page_added_def sys_env_def disk_ok_def)
  let ?s = "frame_upd s1 p frame_unpin"
  have "p \<noteq> bp_hdr opened_bp"
    using cached_inj [OF pool_okD(1,3) [OF s1(1)], of 3 1] s1(2) opened_ok(5) by auto
  moreover have "bp_inv ?s" using unpin_ok(1) [OF pool_okD(1) [OF s1(1)] s1(2)] s1(3) by simp
  ultimately show ?thesis
    using s1 by (intro exI [of _ p] exI [of _ ?s]) (simp add: pool_ok_def pool_allocated_def)
qed

theorem dispose_page_correct_witness:
  "\<exists>s s'. dispose_page s opened_bp 1 = (SUCCESS, s') \<and> pool_allocated s opened_bp 1 \<and> \<not> pool_allocated s' opened_bp 1"
proof -
  obtain p s where s: "cached s 3 1 = Some p" "f_pin (frame_of s p) = 0" "pool_ok s opened_bp" "pool_allocated s opened_bp 1"
    using opened_page by blast
  with dispose_page_correct [OF s(3) _ s(4)] opened_ok(5) show ?thesis by auto
qed

lemma close_reopen_ok:
  assumes "pool_ok s bp" "disk_ok s" "pool_idle s bp" "bp_fd bp \<ge> 0" "sys_fd s (bp_fd bp) = Some (bp_file_name bp)"
    and "fd' \<ge> 0" "fd' = bp_fd bp \<or> sys_fd s fd' = None"
  shows "\<exists>s1. DiskBufferPool_close_file s bp = Some (SUCCESS, s1) \<and> sys_fd s1 (bp_fd bp) = None \<and>
    (\<forall>fd n. fd \<noteq> bp_fd bp \<longrightarrow> page_view s1 fd n = page_view s fd n) \<and>
    (evictable s1 \<longrightarrow>
      (\<exists>bp' s2. BufferPoolManager_open_file s1 (bp_file_name bp) fd' = Some (Inr bp', s2) \<and> pool_ok s2 bp' \<and> bp_fd bp' = fd' \<and>
         fd_len s2 fd' = fd_len s (bp_fd bp) \<and> (\<forall>n. page_view s2 fd' n = page_view s (bp_fd bp) n)))"
proof -
  let ?name = "bp_file_name bp"
  obtain s1 f where c: "DiskBufferPool_close_file s bp = Some (SUCCESS, s1)" "bp_inv s1" "sys_fd s1 = (sys_fd s)(bp_fd bp := None)"
    "sys_file s1 ?name = Some f" "file_ok f" "file_shows s (bp_fd bp) f" "sys_writable s1 = sys_writable s"
    "buffer_pools s1 = filter (\<lambda>e. fst e \<noteq> ?name) (buffer_pools s)"
    "\<And>fd n. fd \<noteq> bp_fd bp \<Longrightarrow> page_view s1 fd n = page_view s fd n"
    using close_file_ok [OF assms(1-5)] by blast
  have "\<exists>bp' s2. BufferPoolManager_open_file s1 ?name fd' = Some (Inr bp', s2) \<and> pool_ok s2 bp' \<and> bp_fd bp' = fd' \<and>
      fd_len s2 fd' = fd_len s (bp_fd bp) \<and> (\<forall>n. page_view s2 fd' n = page_view s (bp_fd bp) n)" if ev: "evictable s1"
  proof -
    have "sys_fd s1 fd \<noteq> Some ?name" for fd
      using c(3) assms(5) pool_okD(1) [OF assms(1)] by (auto simp: bp_inv_def files_ok_def)
    moreover have "sys_fd s1 fd' = None" using c(3) assms(7) by auto
    moreover have "map_of (buffer_pools s1) ?name = None" by (simp add: c(8) map_of_erase)
    moreover have "disk_ok s1" using assms(2) c(7) by (simp add: disk_ok_def)
    ultimately obtain bp' s2 where o: "BufferPoolManager_open_file s1 ?name fd' = Some (Inr bp', s2)" "pool_ok s2 bp'" "bp_fd bp' = fd'"
      "file_shows s2 fd' f"
      using open_file_ok [OF c(2) _ ev assms(6) _ _ _ c(4,5)] by blast
    have len: "fd_len s2 fd' = fd_len s (bp_fd bp)" using o(4) c(6) by (simp add: file_shows_def)
    have "page_view s2 fd' n = page_view s (bp_fd bp) n" for n
    proof (cases "n < file_len f")
      case True
      then show ?thesis using o(4) c(6) unfolding file_shows_def by metis
    next
      case False
      then have "page_view s2 fd' n = None" "page_view s (bp_fd bp) n = None"
        using page_view_defined [OF pool_okD(1) [OF o(2)]] page_view_defined [OF pool_okD(1) [OF assms(1)]] o(4) c(6)
        unfolding file_shows_def by metis+
      then show ?thesis by simp
    qed
    with o len show ?thesis by blast
  qed
  with c(1,3,9) show ?thesis by (intro exI [of _ s1]) simp
qed

text \<open>
  C14: closing a file that no client uses any more and opening it again, under any descriptor, shows
  exactly the pages the clients saw before, and the reopened pool is well-formed: nothing that was
  written through a frame is lost. The pages of the other open files do not change.
\<close>

theorem close_reopen_durable:
  assumes "pool_ok s bp" "disk_ok s" "pool_idle s bp" "bp_fd bp \<ge> 0" "sys_fd s (bp_fd bp) = Some (bp_file_name bp)"
    and "fd' \<ge> 0" "fd' = bp_fd bp \<or> sys_fd s fd' = None"
  shows "\<exists>s1. DiskBufferPool_close_file s bp = Some (SUCCESS, s1) \<and> sys_fd s1 (bp_fd bp) = None \<and>
    (\<forall>fd n. fd \<noteq> bp_fd bp \<longrightarrow> page_view s1 fd n = page_view s fd n) \<and>
    (evictable s1 \<longrightarrow>
      (\<exists>bp' s2. BufferPoolManager_open_file s1 (bp_file_name bp) fd' = Some (Inr bp', s2) \<and> pool_ok s2 bp' \<and> bp_fd bp' = fd' \<and>
         fd_len s2 fd' = fd_len s (bp_fd bp) \<and> (\<forall>n. page_view s2 fd' n = page_view s (bp_fd bp) n)))"
  using close_reopen_ok [OF assms] .

theorem close_reopen_durable_witness:
  "\<exists>s1. DiskBufferPool_close_file opened_sys opened_bp = Some (SUCCESS, s1) \<and> sys_fd s1 3 = None"
  using close_reopen_durable [OF opened_ok(1-3), of 4] opened_ok(5-7,9) by auto

text \<open>
  C18: asking for a frame returns if and only if the page is cached, a frame is free, or some cached
  frame is not pinned. When every frame is pinned the loop never ends: the \<open>BUFFERPOOL_NOBUF\<close> behind
  it is never returned.
\<close>

theorem allocate_frame_returns_iff:
  assumes "bp_inv s" "disk_ok s"
  shows "allocate_frame s bp n \<noteq> None \<longleftrightarrow> cached s (bp_fd bp) n \<noteq> None \<or> evictable s"
proof
  assume "allocate_frame s bp n \<noteq> None"
  then show "cached s (bp_fd bp) n \<noteq> None \<or> evictable s" using allocate_frame_stuck [OF assms(1), of bp n] by argo
next
  assume r: "cached s (bp_fd bp) n \<noteq> None \<or> evictable s"
  show "allocate_frame s bp n \<noteq> None"
  proof (cases "cached s (bp_fd bp) n")
    case None
    obtain es where es: "files_ok s" "fm_rel (sys_fm s) es" "frames_ok s es" using assms(1) by (rule bp_invE)
    from None have m: "map_of es \<lparr>fid_fd = bp_fd bp, fid_page = n\<rparr> = None" by (simp add: cached_map_of [OF es(2)])
    from r None have "evictable s" by blast
    from allocate_frame_ok [OF es(1) assms(2) es(2,3) this m] show ?thesis by (elim exE conjE) simp
  next
    case (Some p)
    obtain fm where "get_internal (sys_fm s) \<lparr>fid_fd = bp_fd bp, fid_page = n\<rparr> = (Some p, fm)"
      using get_cached_page [OF assms(1) Some] by (auto simp: BPFrameManager_get_def)
    then have "BPFrameManager_alloc (sys_fm s) (bp_fd bp) n = (Some p, fm)" by (simp add: BPFrameManager_alloc_def Let_def)
    then show ?thesis by (subst allocate_frame.simps) simp
  qed
qed

theorem allocate_frame_returns_iff_witness: "allocate_frame opened_sys opened_bp 7 \<noteq> None"
  using allocate_frame_returns_iff [OF pool_okD(1) [OF opened_ok(1)] opened_ok(2), of opened_bp 7] opened_ok(8) by blast


text \<open>
  Flushing all pages of a file writes every cached page to disk, but it also leaves one more pin
  on each of them, which no caller gives back: afterwards none of these frames can be evicted.
\<close>

lemma flush_all_pages_leaks_pins:
  assumes "bp_inv s" "disk_ok s"
  shows "\<exists>s'. flush_all_pages s bp = Some (SUCCESS, s') \<and> bp_inv s' \<and>
    (\<forall>n p. cached s (bp_fd bp) n = Some p \<longrightarrow> cached s' (bp_fd bp) n = Some p \<and>
       read_file_page s' (bp_fd bp) n = page_view s (bp_fd bp) n \<and>
       f_pin (frame_of s' p) = f_pin (frame_of s p) + 1 \<and> \<not> can_purge (frame_of s' p))"
proof -
  obtain s' where s': "flush_all_pages s bp = Some (SUCCESS, s')" "bp_inv s'"
    "\<And>n p. cached s (bp_fd bp) n = Some p \<Longrightarrow> cached s' (bp_fd bp) n = Some p \<and>
       read_file_page s' (bp_fd bp) n = page_view s (bp_fd bp) n \<and> f_pin (frame_of s' p) = f_pin (frame_of s p) + 1"
    using flush_all_pages_ok [OF assms] by blast
  have "\<not> can_purge (frame_of s' p)" if "cached s (bp_fd bp) n = Some p" for n p
    using s'(3) [OF that] frame_okD(6) [OF cached_frame_ok [OF assms(1) that]] by (simp add: can_purge_def)
  with s' show ?thesis by blast
qed

lemma flush_all_pages_leaks_pins_witness:
  "\<exists>s'. flush_all_pages opened_sys opened_bp = Some (SUCCESS, s') \<and>
     f_pin (frame_of s' (bp_hdr opened_bp)) = f_pin (frame_of opened_sys (bp_hdr opened_bp)) + 1"
  using flush_all_pages_leaks_pins [OF pool_okD(1) [OF opened_ok(1)] opened_ok(2), of opened_bp]
    pool_okD(3) [OF opened_ok(1)] by blast

text \<open>
  C19: the page iterator, started at the beginning of a well-formed file, visits exactly the allocated
  pages behind the header, each once and in ascending order, and then ends.
\<close>

theorem iterator_visits_allocated:
  assumes "pool_ok s bp"
  shows "iterate_pages (frame_data s (bp_hdr bp)) (BufferPoolIterator_init s bp 0) =
    map int (filter (pool_allocated s bp) [1..<fd_len s (bp_fd bp)])"
proof -
  let ?m = "frame_data s (bp_hdr bp)" and ?it = "BufferPoolIterator_init s bp 0"
  note h = pool_okD(5) [OF assms]
  have it: "bpi_current ?it = int 0" "bpi_bitmap ?it = hdr_bitmap ?m" "bm_size (hdr_bitmap ?m) = fd_len s (bp_fd bp)"
    using h by (simp_all add: BufferPoolIterator_init_def hdr_bitmap_def hdr_ok_def)
  have "Bitmap_get_bit ?m (bpi_bitmap ?it) 0" using h by (simp add: it hdr_ok_def page_allocated_def)
  from iterate_pages_filter [OF it(1) this] show ?thesis
    by (auto simp: it pool_allocated_def page_allocated_def intro: filter_cong)
qed

theorem iterator_visits_allocated_witness:
  "iterate_pages (frame_data opened_sys (bp_hdr opened_bp)) (BufferPoolIterator_init opened_sys opened_bp 0) = []"
  using iterator_visits_allocated [OF opened_ok(1)] opened_ok(4,5) by simp

end
