(* ===== verification/RecordFile.thy ===== *)
theory RecordFile
  imports RecordPage BufferPoolFiles
begin

text \<open>
  \<^verbatim>\<open>src/observer/storage/record/record_manager.cpp\<close>, the part that works on a whole file:
  \<open>RecordPageHandler\<close> as the holder of a pinned frame, \<open>RecordFileHandler\<close> with its set of pages that
  are not full, and \<open>RecordFileScanner\<close>.

  \<^item> A handler is \<^const>\<open>None\<close> when it is closed and \<open>Some p\<close> when it holds frame \<open>p\<close>. A handler that
    is a local variable is cleaned up when the function returns, as its destructor does.
  \<^item> \<open>free_pages_\<close> is an unordered set whose first element is any of its elements; here it is a list
    without duplicates, and the theorems hold for every such list.
  \<^item> Page latches do nothing in the default build.
  \<^item> The filter and the transaction that a scan consults are arguments of the scanner's functions.

  The abstract value of a file is the map \<open>file_records\<close> from record identifiers to records.
\<close>

section \<open>Page handlers\<close>

definition RecordPageHandler_init :: "Sys \<Rightarrow> DiskBufferPool \<Rightarrow> nat option \<Rightarrow> PageNum \<Rightarrow> (RC \<times> nat option \<times> Sys) option" where
  "RecordPageHandler_init s bp h n =
     (case h of
        Some _ \<Rightarrow> Some (RECORD_OPENNED, h, s)
      | None \<Rightarrow>
          do { (r, s) \<leftarrow> get_this_page s bp n;
               case r of Inl rc \<Rightarrow> Some (rc, None, s) | Inr p \<Rightarrow> Some (SUCCESS, Some p, s) })"

definition RecordPageHandler_recover_init ::
  "Sys \<Rightarrow> DiskBufferPool \<Rightarrow> nat option \<Rightarrow> PageNum \<Rightarrow> (RC \<times> nat option \<times> Sys) option" where
  "RecordPageHandler_recover_init s bp h n =
     (case h of
        Some _ \<Rightarrow> Some (RECORD_OPENNED, h, s)
      | None \<Rightarrow>
          do { (r, s) \<leftarrow> get_this_page s bp n;
               case r of Inl rc \<Rightarrow> Some (rc, None, s)
               | Inr p \<Rightarrow> (let (_, s) = recover_page s bp n in Some (SUCCESS, Some p, s)) })"

definition RecordPageHandler_cleanup :: "Sys \<Rightarrow> nat option \<Rightarrow> Sys" where
  "RecordPageHandler_cleanup s h = (case h of Some p \<Rightarrow> snd (unpin_page s p) | None \<Rightarrow> s)"

text \<open>The header is written without marking the frame dirty; the page is flushed right away instead.\<close>

definition init_empty_page :: "Sys \<Rightarrow> DiskBufferPool \<Rightarrow> nat option \<Rightarrow> PageNum \<Rightarrow> int \<Rightarrow> (RC \<times> nat option \<times> Sys) option" where
  "init_empty_page s bp h n record_size =
     do { (rc, h, s) \<leftarrow> RecordPageHandler_init s bp h n;
          if rc \<noteq> SUCCESS then Some (rc, h, s)
          else
            do { m \<leftarrow> init_empty_data record_size (frame_data s (the h));
                 let (rc, s) = flush_page (frame_upd s (the h) (set_data m)) bp (the h);
                 Some (rc, h, s) } }"

text \<open>A page operation with a return code: the frame is changed and marked dirty only on success.\<close>

definition apply_page_op :: "(mem \<Rightarrow> RC \<times> mem) \<Rightarrow> Sys \<Rightarrow> nat \<Rightarrow> RC \<times> Sys" where
  "apply_page_op f s p =
     (let (rc, m) = f (frame_data s p) in if rc = SUCCESS then (rc, frame_write s p (\<lambda>_. m)) else (rc, s))"

definition RecordPageHandler_insert_record :: "Sys \<Rightarrow> nat \<Rightarrow> byte list \<Rightarrow> (RC + RID) \<times> Sys" where
  "RecordPageHandler_insert_record s p data =
     (case page_insert_record (frame_data s p) data of
        (Inl rc, _) \<Rightarrow> (Inl rc, s)
      | (Inr i, m) \<Rightarrow>
          let s = frame_write s p (\<lambda>_. m)
          in (Inr \<lparr>rid_page = pg_num (f_page (frame_of s p)), rid_slot = i\<rparr>, s))"


section \<open>The record file\<close>

text \<open>The loop of \<open>init_free_pages\<close> over the pages the iterator visits.\<close>

partial_function (option) init_free_loop ::
  "Sys \<Rightarrow> DiskBufferPool \<Rightarrow> BufferPoolIterator \<Rightarrow> PageNum list \<Rightarrow> (RC \<times> PageNum list \<times> Sys) option" where
  "init_free_loop s bp it free =
     (let m = frame_data s (bp_hdr bp) in
      if \<not> BufferPoolIterator_has_next m it then Some (SUCCESS, free, s)
      else
        let (n, it) = BufferPoolIterator_next m it in
        do { (rc, h, s) \<leftarrow> RecordPageHandler_init s bp None (nat n);
             if rc \<noteq> SUCCESS then Some (rc, free, s)
             else
               let free = (if is_full (frame_data s (the h)) then free else List.insert (nat n) free)
               in init_free_loop (RecordPageHandler_cleanup s h) bp it free })"

definition RecordFileHandler_init :: "Sys \<Rightarrow> DiskBufferPool \<Rightarrow> (RC \<times> PageNum list \<times> Sys) option" where
  "RecordFileHandler_init s bp =
     do { (_, free, s) \<leftarrow> init_free_loop s bp (BufferPoolIterator_init s bp 0) [];
          Some (SUCCESS, free, s) }"

text \<open>The search for a page with room: a full page is dropped from the set.\<close>

fun find_free_page :: "Sys \<Rightarrow> DiskBufferPool \<Rightarrow> PageNum list \<Rightarrow> ((RC + nat option) \<times> PageNum list \<times> Sys) option" where
  "find_free_page s bp [] = Some (Inr None, [], s)"
| "find_free_page s bp (n # free) =
     do { (rc, h, s) \<leftarrow> RecordPageHandler_init s bp None n;
          if rc \<noteq> SUCCESS then Some (Inl rc, n # free, s)
          else if \<not> is_full (frame_data s (the h)) then Some (Inr h, n # free, s)
          else find_free_page (RecordPageHandler_cleanup s h) bp free }"

definition insert_into_page :: "Sys \<Rightarrow> nat \<Rightarrow> byte list \<Rightarrow> (RC + RID) \<times> Sys" where
  "insert_into_page s p data =
     (let (r, s) = RecordPageHandler_insert_record s p data in (r, RecordPageHandler_cleanup s (Some p)))"

definition RecordFileHandler_insert_record ::
  "Sys \<Rightarrow> DiskBufferPool \<Rightarrow> PageNum list \<Rightarrow> byte list \<Rightarrow> int \<Rightarrow> ((RC + RID) \<times> PageNum list \<times> Sys) option" where
  "RecordFileHandler_insert_record s bp free data record_size =
     do { (r, free, s) \<leftarrow> find_free_page s bp free;
          case r of
            Inl rc \<Rightarrow> Some (Inl rc, free, s)
          | Inr (Some p) \<Rightarrow> (let (r, s) = insert_into_page s p data in Some (r, free, s))
          | Inr None \<Rightarrow>
              do { (r, s) \<leftarrow> allocate_page s bp;
                   case r of
                     Inl rc \<Rightarrow> Some (Inl rc, free, s)
                   | Inr frame \<Rightarrow>
                       let n = pg_num (f_page (frame_of s frame)) in
                       do { (rc, h, s) \<leftarrow> init_empty_page s bp None n record_size;
                            let s = frame_upd s frame frame_unpin;
                            if rc \<noteq> SUCCESS then Some (Inl rc, free, RecordPageHandler_cleanup s h)
                            else
                              let free = List.insert n free;
                                  (r, s) = insert_into_page s (the h) data
                              in Some (r, free, s) } } }"

definition with_page :: "Sys \<Rightarrow> DiskBufferPool \<Rightarrow> PageNum \<Rightarrow> (Sys \<Rightarrow> nat \<Rightarrow> RC \<times> Sys) \<Rightarrow> (RC \<times> Sys) option" where
  "with_page s bp n f =
     do { (rc, h, s) \<leftarrow> RecordPageHandler_init s bp None n;
          if rc \<noteq> SUCCESS then Some (rc, s)
          else (let (rc, s) = f s (the h) in Some (rc, RecordPageHandler_cleanup s h)) }"

definition RecordFileHandler_update_record :: "Sys \<Rightarrow> DiskBufferPool \<Rightarrow> byte list \<Rightarrow> RID \<Rightarrow> (RC \<times> Sys) option" where
  "RecordFileHandler_update_record s bp data rid =
     with_page s bp (rid_page rid) (apply_page_op (\<lambda>m. page_update_record m data (rid_slot rid)))"

definition RecordFileHandler_recover_insert_record :: "Sys \<Rightarrow> DiskBufferPool \<Rightarrow> byte list \<Rightarrow> RID \<Rightarrow> (RC \<times> Sys) option" where
  "RecordFileHandler_recover_insert_record s bp data rid =
     do { (rc, h, s) \<leftarrow> RecordPageHandler_recover_init s bp None (rid_page rid);
          if rc \<noteq> SUCCESS then Some (rc, s)
          else
            let (rc, s) = apply_page_op (\<lambda>m. page_recover_insert_record m data (rid_slot rid)) s (the h)
            in Some (rc, RecordPageHandler_cleanup s h) }"

text \<open>
  Deleting the last record of a page makes the page handler clean itself up, and the cleanup of the
  file handler then finds nothing to do: in either case the frame is released once.
\<close>

definition RecordFileHandler_delete_record ::
  "Sys \<Rightarrow> DiskBufferPool \<Rightarrow> PageNum list \<Rightarrow> RID \<Rightarrow> (RC \<times> PageNum list \<times> Sys) option" where
  "RecordFileHandler_delete_record s bp free rid =
     do { (rc, s) \<leftarrow> with_page s bp (rid_page rid) (apply_page_op (\<lambda>m. page_delete_record m (rid_slot rid)));
          Some (rc, if OB_SUCC rc then List.insert (rid_page rid) free else free, s) }"

text \<open>The record stays in the page and the page stays pinned by the caller's handler.\<close>

definition RecordFileHandler_get_record :: "Sys \<Rightarrow> DiskBufferPool \<Rightarrow> nat option \<Rightarrow> RID \<Rightarrow> ((RC + byte list) \<times> nat option \<times> Sys) option" where
  "RecordFileHandler_get_record s bp h rid =
     do { (rc, h, s) \<leftarrow> RecordPageHandler_init s bp h (rid_page rid);
          if OB_FAIL rc then Some (Inl rc, h, s)
          else Some (page_get_record (frame_data s (the h)) (rid_slot rid), h, s) }"

text \<open>
  The visitor gets a pointer to the record inside the page and may change it there: it is a function
  on the bytes of the record. The frame is not marked dirty.
\<close>

definition RecordFileHandler_visit_record :: "Sys \<Rightarrow> DiskBufferPool \<Rightarrow> RID \<Rightarrow> (byte list \<Rightarrow> byte list) \<Rightarrow> (RC \<times> Sys) option" where
  "RecordFileHandler_visit_record s bp rid visitor =
     with_page s bp (rid_page rid) (\<lambda>s p.
       case page_get_record (frame_data s p) (rid_slot rid) of
         Inl rc \<Rightarrow> (rc, s)
       | Inr data \<Rightarrow> (SUCCESS, frame_upd s p (set_data
            (put_record_data (frame_data s p) (rid_slot rid) (visitor data)))))"


section \<open>The scanner\<close>

text \<open>
  A record handed out by the scanner does not own its bytes: it is the identifier and a pointer into the
  frame that held the page when the record was found, here the frame and the offset inside it. Frames
  stay where they are in memory, so the pointer can always be followed; what it shows is what the frame
  holds at the time it is followed.
\<close>

record ScanRecord =
  sr_page :: PageNum
  sr_slot :: int
  sr_frame :: nat
  sr_offset :: nat

record RecordFileScanner =
  sc_bp_it :: BufferPoolIterator
  sc_handler :: "nat option"
  sc_frame :: nat
  sc_page_it :: "RecordPageIterator option"
  sc_next :: ScanRecord

type_synonym record_filter = "(byte list \<Rightarrow> bool) option"
type_synonym record_visit = "(RID \<Rightarrow> byte list \<Rightarrow> RC) option"

definition scan_record :: "nat \<Rightarrow> mem \<Rightarrow> PageNum \<Rightarrow> int \<Rightarrow> ScanRecord" where
  "scan_record p m n slot = \<lparr>sr_page = n, sr_slot = slot, sr_frame = p, sr_offset = get_record_data m (nat slot)\<rparr>"

definition sr_rid :: "ScanRecord \<Rightarrow> RID" where
  "sr_rid r = \<lparr>rid_page = sr_page r, rid_slot = nat (sr_slot r)\<rparr>"

text \<open>Following the pointer: the bytes of the record in the memory of a frame, and in the frame the record points into.\<close>

definition sr_bytes :: "mem \<Rightarrow> ScanRecord \<Rightarrow> nat \<Rightarrow> byte list" where
  "sr_bytes m r len = read_bytes m (sr_offset r) len"

definition Record_data :: "Sys \<Rightarrow> ScanRecord \<Rightarrow> nat \<Rightarrow> byte list" where
  "Record_data s r len = sr_bytes (frame_data s (sr_frame r)) r len"

partial_function (option) fetch_next_record_in_page ::
  "nat \<Rightarrow> mem \<Rightarrow> record_filter \<Rightarrow> record_visit \<Rightarrow> RecordPageIterator \<Rightarrow> ScanRecord \<Rightarrow>
    (RC \<times> RecordPageIterator \<times> ScanRecord) option" where
  "fetch_next_record_in_page p m flt vis it nx =
     (if \<not> RecordPageIterator_has_next it then Some (RECORD_EOF, it, nx\<lparr>sr_slot := -1\<rparr>)
      else
        let (rc, slot, it) = RecordPageIterator_next m it;
            nx = scan_record p m (rpi_page_num it) slot;
            d = sr_bytes m nx (nat (ph_record_real_size m)) in
        if rc \<noteq> SUCCESS then Some (rc, it, nx)
        else if (case flt of Some f \<Rightarrow> \<not> f d | None \<Rightarrow> False)
        then fetch_next_record_in_page p m flt vis it nx
        else
          (case vis of
             None \<Rightarrow> Some (rc, it, nx)
           | Some v \<Rightarrow>
               if v (sr_rid nx) d = RECORD_INVISIBLE
               then fetch_next_record_in_page p m flt vis it nx
               else Some (v (sr_rid nx) d, it, nx)))"

text \<open>The loop of \<open>fetch_next_record\<close> over the pages.\<close>

partial_function (option) fetch_pages ::
  "Sys \<Rightarrow> DiskBufferPool \<Rightarrow> record_filter \<Rightarrow> record_visit \<Rightarrow> RecordFileScanner \<Rightarrow> (RC \<times> RecordFileScanner \<times> Sys) option" where
  "fetch_pages s bp flt vis sc =
     (let hm = frame_data s (bp_hdr bp) in
      if \<not> BufferPoolIterator_has_next hm (sc_bp_it sc)
      then Some (RECORD_EOF, sc\<lparr>sc_next := (sc_next sc)\<lparr>sr_slot := -1\<rparr>, sc_handler := None\<rparr>,
                 RecordPageHandler_cleanup s (sc_handler sc))
      else
        let (n, bit) = BufferPoolIterator_next hm (sc_bp_it sc) in
        do { (rc, h, s) \<leftarrow> RecordPageHandler_init (RecordPageHandler_cleanup s (sc_handler sc)) bp None (nat n);
             let sc = sc\<lparr>sc_bp_it := bit, sc_handler := h\<rparr>;
             if OB_FAIL rc then Some (rc, sc, s)
             else
               let p = the h; m = frame_data s p in
               do { (rc, it, nx) \<leftarrow> fetch_next_record_in_page p m flt vis
                      (RecordPageIterator_init m (pg_num (f_page (frame_of s p))) 0) (sc_next sc);
                    let sc = sc\<lparr>sc_frame := p, sc_page_it := Some it, sc_next := nx\<rparr>;
                    if rc \<noteq> RECORD_EOF then Some (rc, sc, s) else fetch_pages s bp flt vis sc } })"

definition fetch_next_record ::
  "Sys \<Rightarrow> DiskBufferPool \<Rightarrow> record_filter \<Rightarrow> record_visit \<Rightarrow> RecordFileScanner \<Rightarrow> (RC \<times> RecordFileScanner \<times> Sys) option" where
  "fetch_next_record s bp flt vis sc =
     (case sc_page_it sc of
        None \<Rightarrow> fetch_pages s bp flt vis sc
      | Some it \<Rightarrow>
          do { (rc, it, nx) \<leftarrow> fetch_next_record_in_page (sc_frame sc) (frame_data s (sc_frame sc)) flt vis it (sc_next sc);
               let sc = sc\<lparr>sc_page_it := Some it, sc_next := nx\<rparr>;
               if rc \<noteq> RECORD_EOF then Some (rc, sc, s) else fetch_pages s bp flt vis sc })"

definition RecordFileScanner_close_scan :: "Sys \<Rightarrow> RecordFileScanner \<Rightarrow> RecordFileScanner \<times> Sys" where
  "RecordFileScanner_close_scan s sc = (sc\<lparr>sc_handler := None\<rparr>, RecordPageHandler_cleanup s (sc_handler sc))"

definition RecordFileScanner_open_scan ::
  "Sys \<Rightarrow> DiskBufferPool \<Rightarrow> record_filter \<Rightarrow> record_visit \<Rightarrow> RecordFileScanner \<Rightarrow> (RC \<times> RecordFileScanner \<times> Sys) option" where
  "RecordFileScanner_open_scan s bp flt vis sc =
     (let (sc, s) = RecordFileScanner_close_scan s sc;
          sc = sc\<lparr>sc_bp_it := BufferPoolIterator_init s bp 0\<rparr> in
      do { (rc, sc, s) \<leftarrow> fetch_next_record s bp flt vis sc;
           Some (if rc = RECORD_EOF then SUCCESS else rc, sc, s) })"

definition RecordFileScanner_has_next :: "RecordFileScanner \<Rightarrow> bool" where
  "RecordFileScanner_has_next sc \<longleftrightarrow> sr_slot (sc_next sc) \<noteq> -1"

text \<open>
  The record is copied, pointer and all, before the scanner looks for the following one. That may
  release the page of the copy and reuse its frame for another page.
\<close>

definition RecordFileScanner_next ::
  "Sys \<Rightarrow> DiskBufferPool \<Rightarrow> record_filter \<Rightarrow> record_visit \<Rightarrow> RecordFileScanner \<Rightarrow> (RC \<times> ScanRecord \<times> RecordFileScanner \<times> Sys) option" where
  "RecordFileScanner_next s bp flt vis sc =
     do { (rc, sc', s) \<leftarrow> fetch_next_record s bp flt vis sc;
          Some (if rc = RECORD_EOF then SUCCESS else rc, sc_next sc, sc', s) }"

text \<open>
  A scanner as it is constructed, and the loop of its clients, which read the record (of the size of
  the table's records) when \<open>next\<close> has returned.
\<close>

definition new_scanner :: RecordFileScanner where
  "new_scanner = \<lparr>sc_bp_it = \<lparr>bpi_bitmap = \<lparr>bm_base = 0, bm_size = 0\<rparr>, bpi_current = -1\<rparr>, sc_handler = None, sc_frame = 0,
     sc_page_it = None, sc_next = \<lparr>sr_page = 0, sr_slot = 0, sr_frame = 0, sr_offset = 0\<rparr>\<rparr>"

partial_function (option) scan_loop ::
  "Sys \<Rightarrow> DiskBufferPool \<Rightarrow> record_filter \<Rightarrow> record_visit \<Rightarrow> nat \<Rightarrow> RecordFileScanner \<Rightarrow> (RID \<times> byte list) list \<Rightarrow>
    (RC \<times> (RID \<times> byte list) list \<times> Sys) option" where
  "scan_loop s bp flt vis len sc acc =
     (if \<not> RecordFileScanner_has_next sc
      then (let (_, s) = RecordFileScanner_close_scan s sc in Some (SUCCESS, acc, s))
      else
        do { (rc, r, sc, s) \<leftarrow> RecordFileScanner_next s bp flt vis sc;
             if rc \<noteq> SUCCESS then Some (rc, acc, s)
             else scan_loop s bp flt vis len sc (acc @ [(sr_rid r, Record_data s r len)]) })"

definition scan_file :: "Sys \<Rightarrow> DiskBufferPool \<Rightarrow> record_filter \<Rightarrow> record_visit \<Rightarrow> nat \<Rightarrow> (RC \<times> (RID \<times> byte list) list \<times> Sys) option" where
  "scan_file s bp flt vis len =
     do { (rc, sc, s) \<leftarrow> RecordFileScanner_open_scan s bp flt vis new_scanner;
          if rc \<noteq> SUCCESS then Some (rc, [], s) else scan_loop s bp flt vis len sc [] }"

end
