(* ===== verification/RecordFileInv.thy ===== *)
theory RecordFileInv
  imports RecordFile
begin

text \<open>
  The record file as a map from record identifiers to records: what insertion, update, deletion,
  lookup, recovery and scanning do to it, on every branch. The proofs use the buffer pool through the
  contract \<open>page_store\<close>.
\<close>

section \<open>Files as the record manager sees them\<close>

abbreviation store_ok :: "Sys \<Rightarrow> DiskBufferPool \<Rightarrow> bool" where
  "store_ok s bp \<equiv> pool_ok s bp \<and> disk_ok s"

abbreviation release :: "Sys \<Rightarrow> nat \<Rightarrow> Sys" where
  "release s p \<equiv> snd (unpin_page s p)"

text \<open>The same pages with the same content and the same allocation.\<close>

definition same_file :: "DiskBufferPool \<Rightarrow> Sys \<Rightarrow> Sys \<Rightarrow> bool" where
  "same_file bp s s' \<longleftrightarrow> data_view s' bp = data_view s bp \<and> frame_data s' (bp_hdr bp) = frame_data s (bp_hdr bp) \<and>
     fd_len s' (bp_fd bp) = fd_len s (bp_fd bp)"

lemma same_file_refl [simp, intro]: "same_file bp s s"
  by (simp add: same_file_def)

lemma same_file_trans: "same_file bp s s' \<Longrightarrow> same_file bp s' s'' \<Longrightarrow> same_file bp s s''"
  by (simp add: same_file_def)

lemma same_file_allocated: "same_file bp s s' \<Longrightarrow> pool_allocated s' bp = pool_allocated s bp"
  by (auto simp: same_file_def pool_allocated_def)

lemma data_view_defined: "pool_ok s bp \<Longrightarrow> data_view s bp n \<noteq> None \<longleftrightarrow> n \<noteq> 0 \<and> n < fd_len s (bp_fd bp)"
  using page_view_defined [OF pool_okD(1)] by (auto simp: data_view_def)

lemma release_simps [simp]:
  "frame_data (release s p) q = frame_data s q" "fd_len (release s p) fd = fd_len s fd"
  by (simp_all add: unpin_page_def)

lemma release_page:
  assumes "store_ok s bp" "frame_held s bp n p"
  shows "store_ok (release s p) bp" "same_file bp s (release s p)"
  using pool.release_ok [OF assms] by (simp_all add: same_file_def)

lemma fetch_page:
  assumes "store_ok s bp" "evictable s" "n \<noteq> 0" "n < fd_len s (bp_fd bp)"
  shows "\<exists>p s'. RecordPageHandler_init s bp None n = Some (SUCCESS, Some p, s') \<and> store_ok s' bp \<and> frame_held s' bp n p \<and>
    same_file bp s s' \<and> evictable (release s' p) \<and> data_view s bp n = Some (f_page (frame_of s' p)) \<and>
    pg_num (f_page (frame_of s' p)) = n"
proof -
  have v: "data_view s bp n \<noteq> None" using data_view_defined assms by blast
  then have pv: "page_view s (bp_fd bp) n \<noteq> None" using assms(3) by (simp add: data_view_def)
  note d = pool_okD [of s bp]
  obtain p s' where g: "get_this_page s bp n = Some (Inr p, s')" "page_fetched s bp n p s'"
    using get_this_page_ok [of s bp n] assms(1,2) d(1,2) pv by blast
  have f: "pool_ok s' bp" "frame_data s' (bp_hdr bp) = frame_data s (bp_hdr bp)" "\<And>fd. fd_len s' fd = fd_len s fd"
    using fetched_pool_ok [OF g(2)] assms(1) d by blast+
  have held: "frame_held s' bp n p" using fetched_held [OF g(2)] assms(1,3) d(1) by blast
  have "disk_ok s'" using assms(1) g(2) by (simp add: page_fetched_def sys_env_def disk_ok_def)
  moreover have "data_view s' bp = data_view s bp" using g(2) by (simp add: page_fetched_def data_view_def fun_eq_iff)
  moreover have "evictable (release s' p)" using fetched_room [OF _ assms(2) g] assms(1) d(1) by (simp add: unpin_page_def)
  moreover have "data_view s bp n = Some (f_page (frame_of s' p))"
    using g(2) assms(3) by (simp add: page_fetched_def data_view_def)
  moreover have "pg_num (f_page (frame_of s' p)) = n"
  proof -
    have c: "cached s' (bp_fd bp) n = Some p" using held by (simp add: frame_held_def)
    show ?thesis using frame_okD(2) [OF cached_frame_ok [OF pool_okD(1) [OF f(1)] c]] by simp
  qed
  ultimately show ?thesis
    using g(1) f held by (simp add: RecordPageHandler_init_def same_file_def)
qed

lemma write_page:
  assumes "store_ok s bp" "frame_held s bp n p"
  shows "store_ok (frame_write s p g) bp" "frame_held (frame_write s p g) bp n p"
    "data_view (frame_write s p g) bp = (data_view s bp)(n := map_option (pg_data_update g) (data_view s bp n))"
    "frame_data (frame_write s p g) (bp_hdr bp) = frame_data s (bp_hdr bp)"
    "pool_allocated (frame_write s p g) bp = pool_allocated s bp"
proof -
  show "store_ok (frame_write s p g) bp" "frame_held (frame_write s p g) bp n p"
    "data_view (frame_write s p g) bp = (data_view s bp)(n := map_option (pg_data_update g) (data_view s bp n))"
    using pool.put_ok [OF assms, of g] by blast+
  have "p \<noteq> bp_hdr bp" using held_not_header assms by blast
  then show h: "frame_data (frame_write s p g) (bp_hdr bp) = frame_data s (bp_hdr bp)" by simp
  show "pool_allocated (frame_write s p g) bp = pool_allocated s bp" using h by (auto simp: pool_allocated_def)
qed

lemma evictable_release_write [simp]: "evictable (release (frame_write s p g) p) = evictable (release s p)"
proof -
  have "f_pin (frame_of (release (frame_write s p g) p) q) = f_pin (frame_of (release s p) q)" for q
    by (simp add: unpin_page_def frame_write_def)
  then show ?thesis unfolding evictable_def by (simp add: unpin_page_def frame_write_def)
qed


section \<open>The records of a file\<close>

definition page_mem :: "Sys \<Rightarrow> DiskBufferPool \<Rightarrow> PageNum \<Rightarrow> mem" where
  "page_mem s bp n = pg_data (the (data_view s bp n))"

definition file_records :: "Sys \<Rightarrow> DiskBufferPool \<Rightarrow> RID \<rightharpoonup> byte list" where
  "file_records s bp rid =
     (if rid_page rid \<noteq> 0 \<and> pool_allocated s bp (rid_page rid) then page_slots (page_mem s bp (rid_page rid)) (rid_slot rid) else None)"

text \<open>Every allocated page is a well-formed page of records of the file's record size.\<close>

definition records_ok :: "Sys \<Rightarrow> DiskBufferPool \<Rightarrow> int \<Rightarrow> bool" where
  "records_ok s bp len \<longleftrightarrow> (\<forall>n. n \<noteq> 0 \<and> pool_allocated s bp n \<longrightarrow>
     page_ok (page_mem s bp n) \<and> ph_record_real_size (page_mem s bp n) = len)"

lemma same_file_records:
  assumes "same_file bp s s'"
  shows "page_mem s' bp = page_mem s bp" "file_records s' bp = file_records s bp" "records_ok s' bp len = records_ok s bp len"
proof -
  show m: "page_mem s' bp = page_mem s bp" using assms by (auto simp: page_mem_def same_file_def)
  show "file_records s' bp = file_records s bp" "records_ok s' bp len = records_ok s bp len"
    by (auto simp: file_records_def records_ok_def m same_file_allocated [OF assms])
qed

lemma fetched_data:
  assumes "data_view s bp n = Some (f_page (frame_of s' p))"
  shows "frame_data s' p = page_mem s bp n"
  using assms by (simp add: page_mem_def)

text \<open>A fetched page is changed, written and released: the file changes in that page only.\<close>

lemma page_changed:
  assumes s: "store_ok s bp" "frame_held s bp n p" "records_ok s bp len" "pool_allocated s bp n"
    and m': "page_ok m'" "ph_record_real_size m' = len"
  defines "s' \<equiv> release (frame_write s p (\<lambda>_. m')) p"
  shows "store_ok s' bp" "records_ok s' bp len" "pool_allocated s' bp = pool_allocated s bp"
    "file_records s' bp = (\<lambda>rid. if rid_page rid = n then page_slots m' (rid_slot rid) else file_records s bp rid)"
    "frame_data s' (bp_hdr bp) = frame_data s (bp_hdr bp)" "fd_len s' (bp_fd bp) = fd_len s (bp_fd bp)"
proof -
  note w = write_page [OF s(1,2), of "\<lambda>_. m'"]
  note r = release_page [OF w(1,2)]
  have n: "n \<noteq> 0" using s(2) by (simp add: frame_held_def)
  have "data_view s bp n \<noteq> None" using data_view_defined s(1,4) n by (simp add: pool_allocated_def)
  then have mem: "page_mem (frame_write s p (\<lambda>_. m')) bp = (page_mem s bp)(n := m')"
    by (auto simp: page_mem_def w(3))
  show "store_ok s' bp" using r(1) by (simp add: s'_def)
  show al: "pool_allocated s' bp = pool_allocated s bp"
    unfolding s'_def same_file_allocated [OF r(2)] w(5) ..
  have mem': "page_mem s' bp = (page_mem s bp)(n := m')"
    unfolding s'_def same_file_records(1) [OF r(2)] mem ..
  show "records_ok s' bp len" using s(3) m' by (simp add: records_ok_def mem' al)
  show "file_records s' bp = (\<lambda>rid. if rid_page rid = n then page_slots m' (rid_slot rid) else file_records s bp rid)"
    using n s(4) by (auto simp: file_records_def mem' al fun_eq_iff)
  show "frame_data s' (bp_hdr bp) = frame_data s (bp_hdr bp)" using w(4) by (simp add: s'_def)
  show "fd_len s' (bp_fd bp) = fd_len s (bp_fd bp)" by (simp add: s'_def)
qed

text \<open>The pages the handler may try to insert into.\<close>

definition free_ok :: "Sys \<Rightarrow> DiskBufferPool \<Rightarrow> PageNum list \<Rightarrow> bool" where
  "free_ok s bp free \<longleftrightarrow> (\<forall>n \<in> set free. n \<noteq> 0 \<and> pool_allocated s bp n)"

definition file_ready :: "Sys \<Rightarrow> DiskBufferPool \<Rightarrow> int \<Rightarrow> PageNum list \<Rightarrow> bool" where
  "file_ready s bp len free \<longleftrightarrow> store_ok s bp \<and> evictable s \<and> records_ok s bp len \<and> free_ok s bp free"

lemma allocated_len: "pool_allocated s bp n \<Longrightarrow> n < fd_len s (bp_fd bp)"
  by (simp add: pool_allocated_def)

lemma file_ready_same:
  "file_ready s bp len free \<Longrightarrow> same_file bp s s' \<Longrightarrow> store_ok s' bp \<Longrightarrow> evictable s' \<Longrightarrow> file_ready s' bp len free"
  by (simp add: file_ready_def same_file_records same_file_allocated free_ok_def)

lemma is_full_iff: "page_ok m \<Longrightarrow> is_full m \<longleftrightarrow> ph_record_num m = ph_record_capacity m"
  using page_ok_num(2) [of m] by (auto simp: is_full_def)


section \<open>Operations on one record\<close>

text \<open>A page operation that succeeds or leaves the page alone, run on a page of the file.\<close>

lemma with_page_op:
  assumes s: "store_ok s bp" "evictable s" "records_ok s bp len" "n \<noteq> 0" "pool_allocated s bp n"
    and f: "f (page_mem s bp n) = (rc, m')" "rc = SUCCESS \<Longrightarrow> page_ok m' \<and> ph_record_real_size m' = len"
  shows "\<exists>s'. with_page s bp n (apply_page_op f) = Some (rc, s') \<and> store_ok s' bp \<and> evictable s' \<and> records_ok s' bp len \<and>
    pool_allocated s' bp = pool_allocated s bp \<and>
    file_records s' bp = (if rc = SUCCESS then (\<lambda>rid. if rid_page rid = n then page_slots m' (rid_slot rid) else file_records s bp rid)
      else file_records s bp)"
proof -
  obtain p s1 where g: "RecordPageHandler_init s bp None n = Some (SUCCESS, Some p, s1)" "store_ok s1 bp" "frame_held s1 bp n p"
    "same_file bp s s1" "evictable (release s1 p)" "data_view s bp n = Some (f_page (frame_of s1 p))"
    using fetch_page [OF s(1,2,4) allocated_len [OF s(5)]] by blast
  note same = same_file_records [OF g(4)] same_file_allocated [OF g(4)]
  have f': "f (frame_data s1 p) = (rc, m')" using fetched_data [OF g(6)] f(1) by simp
  show ?thesis
  proof (cases "rc = SUCCESS")
    case True
    let ?s = "release (frame_write s1 p (\<lambda>_. m')) p"
    have run: "with_page s bp n (apply_page_op f) = Some (rc, ?s)"
      using g(1) f' True by (simp add: with_page_def apply_page_op_def RecordPageHandler_cleanup_def)
    have "records_ok s1 bp len" "pool_allocated s1 bp n" using s(3,5) same by simp_all
    note ch = page_changed [OF g(2,3) this conjunct1 [OF f(2) [OF True]] conjunct2 [OF f(2) [OF True]], unfolded same]
    show ?thesis
    proof (intro exI [of _ ?s] conjI)
      show "with_page s bp n (apply_page_op f) = Some (rc, ?s)" by (rule run)
      show "pool_ok ?s bp" "disk_ok ?s" "records_ok ?s bp len" "pool_allocated ?s bp = pool_allocated s bp"
        using ch(1-3) by blast+
      show "evictable ?s" using g(5) by simp
      show "file_records ?s bp = (if rc = SUCCESS then (\<lambda>rid. if rid_page rid = n then page_slots m' (rid_slot rid) else file_records s bp rid)
        else file_records s bp)" unfolding if_P [OF True] by (rule ch(4))
    qed
  next
    case False
    have run: "with_page s bp n (apply_page_op f) = Some (rc, release s1 p)"
      using g(1) f' False by (simp add: with_page_def apply_page_op_def RecordPageHandler_cleanup_def)
    have sf: "same_file bp s (release s1 p)" using same_file_trans [OF g(4)] release_page(2) [OF g(2,3)] by blast
    show ?thesis
      using run release_page(1) [OF g(2,3)] g(5) False s(3) same_file_records [OF sf] same_file_allocated [OF sf]
      by (intro exI [of _ "release s1 p"]) simp
  qed
qed

lemma file_records_page:
  "n \<noteq> 0 \<Longrightarrow> pool_allocated s bp n \<Longrightarrow> file_records s bp \<lparr>rid_page = n, rid_slot = i\<rparr> = page_slots (page_mem s bp n) i"
  by (simp add: file_records_def)

lemma page_slots_upd_file:
  assumes "rid_page rid \<noteq> 0" "pool_allocated s bp (rid_page rid)" "page_slots m' = (page_slots (page_mem s bp (rid_page rid)))(rid_slot rid := v)"
  shows "(\<lambda>r. if rid_page r = rid_page rid then page_slots m' (rid_slot r) else file_records s bp r) = (file_records s bp)(rid := v)"
proof
  fix r
  show "(if rid_page r = rid_page rid then page_slots m' (rid_slot r) else file_records s bp r) = ((file_records s bp)(rid := v)) r"
    using assms by (cases r, cases rid) (auto simp: file_records_def)
qed


section \<open>Writing a page through to the file\<close>

text \<open>What eviction depends on: the frames and their pins.\<close>

definition pins :: "Sys \<Rightarrow> nat list \<times> nat list \<times> (nat \<Rightarrow> int)" where
  "pins s = (fm_frees (sys_fm s), fm_used (sys_fm s), \<lambda>p. f_pin (frame_of s p))"

lemma evictable_pins: "pins s = pins s' \<Longrightarrow> evictable s = evictable s'"
  by (simp add: pins_def evictable_def fun_eq_iff)

lemma pins_pin: "pins s = pins s' \<Longrightarrow> f_pin (frame_of s p) = f_pin (frame_of s' p)"
  by (simp add: pins_def fun_eq_iff)

lemma pins_simps [simp]:
  "pins (frame_write s p g) = pins s" "pins (frame_upd s p (set_data m)) = pins s"
  by (simp_all add: pins_def frame_write_def fun_eq_iff set_data_def)

lemma pins_release_cong: "pins s = pins s' \<Longrightarrow> pins (release s p) = pins (release s' p)"
  by (simp add: pins_def unpin_page_def fun_eq_iff)

lemma flush_held:
  assumes ok: "store_ok s bp" and h: "frame_held s bp n p"
  shows "\<exists>s'. flush_page s bp p = (SUCCESS, s') \<and> store_ok s' bp \<and> frame_held s' bp n p \<and> same_file bp s s' \<and> pins s' = pins s \<and>
    f_page (frame_of s' p) = f_page (frame_of s p) \<and> \<not> f_dirty (frame_of s' p)"
proof -
  have inv: "bp_inv s" and n: "n \<noteq> 0" and c: "cached s (bp_fd bp) n = Some p" using ok h pool_okD(1) by (auto simp: frame_held_def)
  obtain es where es: "files_ok s" "fm_rel (sys_fm s) es" "frames_ok s es" using inv by (rule bp_invE)
  have e: "(\<lparr>fid_fd = bp_fd bp, fid_page = n\<rparr>, p) \<in> set es" by (rule cached_entry [OF es(2) c])
  note fo = frame_okD [OF cached_frame_ok [OF inv c], simplified]
  obtain s' where s': "flush_page_internal s bp p = (SUCCESS, s')" "files_ok s'" "sys_env s s'"
    "sys_fm s' = fm_upd (sys_fm s) p clear_dirty"
    "\<And>fd' n'. read_file_page s' fd' n' = (if fd' = bp_fd bp \<and> n' = n then Some (f_page (frame_of s p)) else read_file_page s fd' n')"
    "\<And>fd'. fd_len s' fd' = (if fd' = bp_fd bp then max (fd_len s fd') (Suc n) else fd_len s fd')"
    using flush_page_internal_ok [of s p bp n] es(1) ok fo by auto
  have len: "fd_len s' fd' = fd_len s fd'" for fd' using s'(6) [of fd'] fo(3) by simp
  have "p \<in> snd ` set es" using e by force
  then have rel: "fm_rel (sys_fm s') es" using es(2) s'(4) by (simp add: fm_rel_upd_used)
  have cached: "cached s' fd' n' = cached s fd' n'" for fd' n' by (simp add: cached_map_of [OF rel] cached_map_of [OF es(2)])
  have reg: "registered s' fd' = registered s fd'" for fd' using s'(3) by (intro registered_cong) (simp add: sys_env_def)
  have fr: "f_page (frame_of s' q) = f_page (frame_of s q)" "f_pin (frame_of s' q) = f_pin (frame_of s q)" for q
    using s'(4) by simp_all
  have "frame_ok s' fid q" if m: "(fid, q) \<in> set es" for fid q
  proof (cases "fid = \<lparr>fid_fd = bp_fd bp, fid_page = n\<rparr>")
    case True
    then have "q = p" using fm_relD(2) [OF es(2)] m e by (auto dest: eq_key_imp_eq_value)
    then show ?thesis using True frames_okD [OF es(3) m] s'(4,5) by (simp add: frame_ok_def reg frame_id_def)
  next
    case False
    have "q \<noteq> p" using fm_rel_other_frame [OF es(2) e m False] .
    show ?thesis
    proof (rule frame_ok_cong [OF frames_okD [OF es(3) m]])
      show "read_file_page s' (fid_fd fid) (fid_page fid) = read_file_page s (fid_fd fid) (fid_page fid)"
        using False by (cases fid) (auto simp: s'(5))
      show "registered s' (fid_fd fid)" using frames_okD [OF es(3) m] by (simp add: frame_ok_def reg)
      show "frame_of s' q = frame_of s q" using \<open>q \<noteq> p\<close> s'(4) by simp
    qed
  qed
  then have inv': "bp_inv s'" using s'(2) rel by (auto simp: bp_inv_def frames_ok_def)
  have "page_view s' (bp_fd bp) n' = page_view s (bp_fd bp) n'" for n'
    unfolding page_view_def cached using c by (cases "n' = n") (auto simp: s'(5) fr split: option.split)
  then have "same_file bp s s'" by (simp add: same_file_def data_view_def fun_eq_iff fr len)
  moreover have "store_ok s' bp"
    using ok inv' s'(3) by (simp add: pool_ok_def reg cached fr len disk_ok_def sys_env_def)
  moreover have "frame_held s' bp n p" using h by (simp add: frame_held_def cached fr)
  moreover have "pins s' = pins s" using s'(4) by (simp add: pins_def fun_eq_iff)
  moreover have "\<not> f_dirty (frame_of s' p)" using s'(4) by (simp add: clear_dirty_def)
  ultimately show ?thesis using s'(1) fr by (simp add: flush_page_def)
qed

text \<open>Marking the frame dirty before flushing it makes no difference.\<close>

lemma flush_unmarked: "flush_page (frame_upd s p (set_data m)) bp p = (SUCCESS, s') \<longleftrightarrow> flush_page (frame_write s p (\<lambda>_. m)) bp p = (SUCCESS, s')"
proof -
  have "write_file_page (s\<lparr>sys_fm := fm\<rparr>) fd n page = map_option (\<lambda>t. t\<lparr>sys_fm := fm\<rparr>) (write_file_page s fd n page)" for fm fd n page
    by (simp add: write_file_page_def split: option.split)
  moreover have "frame_upd (t\<lparr>sys_fm := fm_upd (sys_fm s) p (set_data m)\<rparr>) p clear_dirty =
      frame_upd (t\<lparr>sys_fm := fm_upd (sys_fm s) p (\<lambda>f. mark_dirty (set_data m f))\<rparr>) p clear_dirty" for t :: Sys
    by (simp add: frame_upd_def fm_upd_def clear_dirty_def mark_dirty_def set_data_def)
  ultimately show ?thesis
    by (cases "write_file_page s (bp_fd bp) (pg_num (f_page (frame_of s p))) ((f_page (frame_of s p))\<lparr>pg_data := m\<rparr>)")
      (simp_all add: flush_page_def flush_page_internal_def frame_write_def frame_upd_def [of s] set_data_def mark_dirty_def fm_upd_def)
qed


section \<open>Insertion\<close>

lemma find_free_page_ok:
  assumes "file_ready s bp len free"
  shows "\<exists>h free' s'. find_free_page s bp free = Some (Inr h, free', s') \<and> set free' \<subseteq> set free \<and> store_ok s' bp \<and> same_file bp s s' \<and>
    (case h of None \<Rightarrow> evictable s'
     | Some p \<Rightarrow> (\<exists>n \<in> set free. frame_held s' bp n p \<and> \<not> is_full (frame_data s' p) \<and> frame_data s' p = page_mem s bp n \<and>
         pg_num (f_page (frame_of s' p)) = n \<and> evictable (release s' p)))"
  using assms
proof (induction free arbitrary: s)
  case Nil
  then show ?case by (simp add: file_ready_def)
next
  case (Cons n free)
  have r: "store_ok s bp" "evictable s" "n \<noteq> 0" "pool_allocated s bp n"
    using Cons.prems by (simp_all add: file_ready_def free_ok_def)
  obtain p s1 where g: "RecordPageHandler_init s bp None n = Some (SUCCESS, Some p, s1)" "store_ok s1 bp" "frame_held s1 bp n p"
    "same_file bp s s1" "evictable (release s1 p)" "data_view s bp n = Some (f_page (frame_of s1 p))" "pg_num (f_page (frame_of s1 p)) = n"
    using fetch_page [OF r(1,2,3) allocated_len [OF r(4)]] by blast
  show ?case
  proof (cases "is_full (frame_data s1 p)")
    case False
    then show ?thesis
      using g fetched_data [OF g(6)] by (intro exI [of _ "Some p"] exI [of _ "n # free"] exI [of _ s1]) auto
  next
    case True
    have rel: "store_ok (release s1 p) bp" "same_file bp s (release s1 p)"
      using release_page [OF g(2,3)] same_file_trans [OF g(4)] by blast+
    have "file_ready s bp len free" using Cons.prems by (simp add: file_ready_def free_ok_def)
    then have "file_ready (release s1 p) bp len free" using file_ready_same rel g(5) by blast
    then obtain h free' s' where s': "find_free_page (release s1 p) bp free = Some (Inr h, free', s')" "set free' \<subseteq> set free"
      "store_ok s' bp" "same_file bp (release s1 p) s'"
      "case h of None \<Rightarrow> evictable s'
       | Some q \<Rightarrow> (\<exists>n \<in> set free. frame_held s' bp n q \<and> \<not> is_full (frame_data s' q) \<and> frame_data s' q = page_mem (release s1 p) bp n \<and>
           pg_num (f_page (frame_of s' q)) = n \<and> evictable (release s' q))"
      using Cons.IH by blast
    have "find_free_page s bp (n # free) = Some (Inr h, free', s')"
      using g(1) True s'(1) by (simp add: RecordPageHandler_cleanup_def)
    moreover have "same_file bp s s'" using same_file_trans [OF rel(2) s'(4)] .
    ultimately show ?thesis
      using s'(2,3,5) unfolding same_file_records(1) [OF rel(2)]
      by (intro exI [of _ h] exI [of _ free'] exI [of _ s']) (auto split: option.splits)
  qed
qed

lemma insert_into_page_ok:
  assumes s: "store_ok s bp" "frame_held s bp n p" "records_ok s bp len" "pool_allocated s bp n" "evictable (release s p)"
    and p: "frame_data s p = page_mem s bp n" "pg_num (f_page (frame_of s p)) = n"
    and d: "ph_record_num (page_mem s bp n) < ph_record_capacity (page_mem s bp n)" "length data = nat len"
  shows "\<exists>rid s'. insert_into_page s p data = (Inr rid, s') \<and> store_ok s' bp \<and> evictable s' \<and> records_ok s' bp len \<and>
    pool_allocated s' bp = pool_allocated s bp \<and> file_records s bp rid = None \<and> file_records s' bp = (file_records s bp)(rid \<mapsto> data)"
proof -
  have n: "n \<noteq> 0" using s(2) by (simp add: frame_held_def)
  have ok: "page_ok (page_mem s bp n)" "ph_record_real_size (page_mem s bp n) = len" using s(3,4) n by (simp_all add: records_ok_def)
  have "length data = page_rec_len (page_mem s bp n)" using d(2) ok(2) by simp
  then obtain i m' where i: "page_insert_record (page_mem s bp n) data = (Inr i, m')" "page_ok m'" "same_layout (page_mem s bp n) m'"
    "page_slots (page_mem s bp n) i = None" "page_slots m' = (page_slots (page_mem s bp n))(i \<mapsto> data)"
    using page_insert_ok [OF ok(1) d(1)] by blast
  let ?rid = "\<lparr>rid_page = n, rid_slot = i\<rparr>" and ?s = "release (frame_write s p (\<lambda>_. m')) p"
  have run: "insert_into_page s p data = (Inr ?rid, ?s)"
    using i(1) p by (simp add: insert_into_page_def RecordPageHandler_insert_record_def RecordPageHandler_cleanup_def frame_write_def
        mark_dirty_def set_data_def)
  have "ph_record_real_size m' = len" using same_layout_fields(1) [OF i(3)] ok(2) by simp
  note ch = page_changed [OF s(1-4) i(2) this]
  have "file_records ?s bp = (file_records s bp)(?rid \<mapsto> data)"
    using ch(4) page_slots_upd_file [of ?rid s bp m' "Some data"] n s(4) i(5) by simp
  moreover have "file_records s bp ?rid = None" using file_records_page [OF n s(4)] i(4) by simp
  moreover have "evictable ?s" using s(5) by simp
  ultimately show ?thesis using run ch(1-3) by blast
qed


text \<open>The page handler on a page that is already held by someone.\<close>

lemma fetch_held:
  assumes "store_ok s bp" "frame_held s bp n p"
  shows "\<exists>s'. RecordPageHandler_init s bp None n = Some (SUCCESS, Some p, s') \<and> store_ok s' bp \<and> same_file bp s s' \<and>
    f_pin (frame_of s' p) = f_pin (frame_of s p) + 1 \<and> frame_held s' bp n p \<and> f_page (frame_of s' p) = f_page (frame_of s p) \<and> pins (release s' p) = pins s"
proof -
  have inv: "bp_inv s" "cached s (bp_fd bp) n = Some p" "n \<noteq> 0" using assms pool_okD(1) by (auto simp: frame_held_def)
  obtain s' where g: "get_this_page s bp n = Some (Inr p, s')" "page_fetched s bp n p s'"
    "fm_frame (sys_fm s') = (fm_frame (sys_fm s))(p := frame_pin (frame_of s p))"
    "fm_used (sys_fm s') = fm_used (sys_fm s)" "fm_frees (sys_fm s') = fm_frees (sys_fm s)"
    using get_cached_page [OF inv(1,2)] by blast
  note d = pool_okD [of s bp]
  have f: "pool_ok s' bp" "frame_data s' (bp_hdr bp) = frame_data s (bp_hdr bp)" "\<And>fd. fd_len s' fd = fd_len s fd"
    using fetched_pool_ok [OF g(2)] assms(1) d by blast+
  have "disk_ok s'" using assms(1) g(2) by (simp add: page_fetched_def sys_env_def disk_ok_def)
  moreover have "data_view s' bp = data_view s bp" using g(2) by (simp add: page_fetched_def data_view_def fun_eq_iff)
  moreover have "frame_held s' bp n p" using fetched_held [OF g(2) inv(1,3)] .
  moreover have "pins (release s' p) = pins s" using g(3-5) by (simp add: pins_def unpin_page_def fun_eq_iff)
  ultimately show ?thesis
    using g(1,3) f by (simp add: RecordPageHandler_init_def same_file_def)
qed

text \<open>A new page, formatted: no record of the file changes.\<close>

lemma new_page_ok:
  assumes s: "store_ok s bp" "evictable s" "records_ok s bp len" and len: "0 < len" "len \<le> 2147483640"
    and room: "\<exists>j < MAX_PAGE_NUM. \<not> pool_allocated s bp j"
  shows "\<exists>n p s1 s2. allocate_page s bp = Some (Inr p, s1) \<and> pg_num (f_page (frame_of s1 p)) = n \<and>
    init_empty_page s1 bp None n len = Some (SUCCESS, Some p, s2) \<and>
    store_ok (release s2 p) bp \<and> frame_held (release s2 p) bp n p \<and> records_ok (release s2 p) bp len \<and>
    \<not> pool_allocated s bp n \<and> (\<forall>j. pool_allocated (release s2 p) bp j \<longleftrightarrow> j = n \<or> pool_allocated s bp j) \<and>
    file_records (release s2 p) bp = file_records s bp \<and> evictable (release (release s2 p) p) \<and>
    frame_data (release s2 p) p = page_mem (release s2 p) bp n \<and> pg_num (f_page (frame_of (release s2 p) p)) = n \<and>
    ph_record_num (frame_data (release s2 p) p) = 0 \<and> (0 < ph_record_capacity (frame_data (release s2 p) p) \<longleftrightarrow> len \<le> 524256)"
proof -
  have hl: "fd_len s (bp_fd bp) \<le> MAX_PAGE_NUM" using pool_okD(5) [of s bp] s(1) by (simp add: hdr_ok_def)
  have "fd_len s (bp_fd bp) < MAX_PAGE_NUM \<or> (\<exists>i < fd_len s (bp_fd bp). \<not> page_allocated (frame_data s (bp_hdr bp)) i)"
    using room hl by (auto simp: pool_allocated_def)
  then obtain n p s1 where a: "allocate_page s bp = Some (Inr p, s1)" "page_added s bp n p s1" "evictable (frame_upd s1 p frame_unpin)"
    using allocate_page_ok [of s bp] s(1,2) by blast
  have s1: "pool_ok s1 bp" "disk_ok s1" "n \<noteq> 0" "frame_held s1 bp n p" "\<not> pool_allocated s bp n"
    "\<And>j. pool_allocated s1 bp j \<longleftrightarrow> j = n \<or> pool_allocated s bp j"
    "\<And>n'. n' \<noteq> 0 \<Longrightarrow> n' \<noteq> n \<Longrightarrow> page_view s1 (bp_fd bp) n' = page_view s (bp_fd bp) n'"
    using a(2) s(1) by (auto simp: page_added_def frame_held_def disk_ok_def sys_env_def)
  have c1: "cached s1 (bp_fd bp) n = Some p" using s1(4) by (simp add: frame_held_def)
  have num1: "pg_num (f_page (frame_of s1 p)) = n" using frame_okD(2) [OF cached_frame_ok [OF pool_okD(1) [OF s1(1)] c1]] by simp
  obtain s2 where s2: "RecordPageHandler_init s1 bp None n = Some (SUCCESS, Some p, s2)" "store_ok s2 bp" "same_file bp s1 s2"
    "f_pin (frame_of s2 p) = f_pin (frame_of s1 p) + 1" "frame_held s2 bp n p" "f_page (frame_of s2 p) = f_page (frame_of s1 p)"
    "pins (release s2 p) = pins s1"
    using fetch_held [of s1 bp n p] s1(1,2,4) by blast
  obtain m where m: "init_empty_data len (frame_data s2 p) = Some m" "page_ok m" "page_slots m = Map.empty" "ph_record_real_size m = len"
    "0 < ph_record_capacity m \<longleftrightarrow> len \<le> 524256" "ph_record_num m = 0"
    using init_empty_ok [OF len, of "frame_data s2 p"] by blast
  let ?w = "frame_write s2 p (\<lambda>_. m)"
  note w = write_page [OF s2(2,5), of "\<lambda>_. m"]
  obtain s3 where s3: "flush_page ?w bp p = (SUCCESS, s3)" "store_ok s3 bp" "frame_held s3 bp n p" "same_file bp ?w s3" "pins s3 = pins ?w"
    "f_page (frame_of s3 p) = f_page (frame_of ?w p)"
    using flush_held [OF w(1,2)] by blast
  have run: "init_empty_page s1 bp None n len = Some (SUCCESS, Some p, s3)"
    using s2(1) m(1) flush_unmarked [of s2 p m bp s3] s3(1) by (simp add: init_empty_page_def)
  let ?s4 = "release s3 p"
  note r = release_page [OF s3(2,3)]
  have f4: "frame_of ?s4 p = frame_unpin (frame_of s3 p)" "cached ?s4 = cached s3" by (simp_all add: unpin_page_def fun_eq_iff)
  have pin3: "f_pin (frame_of s3 p) = f_pin (frame_of s1 p) + 1" using pins_pin [OF s3(5), of p] s2(4) by simp
  have held: "frame_held ?s4 bp n p" using s3(3) pin3 s1(4) f4 by (simp add: frame_held_def frame_unpin_def)
  have "pins (release ?s4 p) = pins (release s1 p)"
  proof (rule pins_release_cong)
    have "pins ?s4 = pins (release s2 p)" using s3(5) by (intro pins_release_cong) simp
    then show "pins ?s4 = pins s1" using s2(7) by simp
  qed
  from evictable_pins [OF this] have ev: "evictable (release ?s4 p)" using a(3) by (simp add: unpin_page_def)
  have al: "pool_allocated ?s4 bp j \<longleftrightarrow> j = n \<or> pool_allocated s bp j" for j
    using s1(6) by (simp add: same_file_allocated [OF r(2)] same_file_allocated [OF s3(4)] w(5) same_file_allocated [OF s2(3)])
  have fd4: "f_page (frame_of ?s4 p) = (f_page (frame_of s1 p))\<lparr>pg_data := m\<rparr>"
    using f4 s3(6) s2(6) by (simp add: frame_unpin_def frame_write_def mark_dirty_def set_data_def)
  have memn: "page_mem ?s4 bp n = m"
    using pool.holds_content [OF r(1) held] fd4 by (auto simp: page_mem_def)
  have mem: "page_mem ?s4 bp j = page_mem s bp j" if "j \<noteq> 0" "j \<noteq> n" for j
  proof -
    have "page_mem ?s4 bp j = page_mem ?w bp j" using same_file_records(1) [OF r(2)] same_file_records(1) [OF s3(4)] by simp
    also have "\<dots> = page_mem s2 bp j" using that by (simp add: page_mem_def w(3))
    also have "\<dots> = page_mem s1 bp j" using same_file_records(1) [OF s2(3)] by simp
    also have "\<dots> = page_mem s bp j" using that by (simp add: page_mem_def data_view_def s1(7))
    finally show ?thesis .
  qed
  have rec: "records_ok ?s4 bp len" unfolding records_ok_def
  proof (intro allI impI)
    fix j assume j: "j \<noteq> 0 \<and> pool_allocated ?s4 bp j"
    show "page_ok (page_mem ?s4 bp j) \<and> ph_record_real_size (page_mem ?s4 bp j) = len"
      using j s(3) m(2,4) memn mem [of j] by (cases "j = n") (simp_all add: al records_ok_def)
  qed
  have "file_records ?s4 bp rid = file_records s bp rid" for rid
    using mem [of "rid_page rid"] s1(5) m(3) memn by (cases "rid_page rid = n") (simp_all add: file_records_def al)
  then have "file_records ?s4 bp = file_records s bp" by blast
  then show ?thesis
    using a(1) num1 run r(1) held rec s1(5) al ev memn fd4 m(5,6)
    by (intro exI [of _ n] exI [of _ p] exI [of _ s1] exI [of _ s3]) simp
qed


lemma allocate_full:
  assumes "store_ok s bp" "\<forall>j < MAX_PAGE_NUM. pool_allocated s bp j"
  shows "allocate_page s bp = Some (Inl BUFFERPOOL_NOBUF, s)"
proof -
  have "fd_len s (bp_fd bp) \<le> MAX_PAGE_NUM" "0 < MAX_PAGE_NUM" "0 < fd_len s (bp_fd bp)"
    using pool_okD(5) [of s bp] assms(1) by (simp_all add: hdr_ok_def)
  moreover have "MAX_PAGE_NUM - 1 < fd_len s (bp_fd bp)" using allocated_len assms(2) calculation(2) by simp
  ultimately have "fd_len s (bp_fd bp) = MAX_PAGE_NUM" by linarith
  then show ?thesis using allocate_page_full [of s bp] assms by (simp add: pool_allocated_def)
qed

lemma insert_record_ok:
  assumes r: "file_ready s bp len free" and len: "0 < len" "len \<le> 524256" and d: "length data = nat len"
  shows "\<exists>r free' s'. RecordFileHandler_insert_record s bp free data len = Some (r, free', s') \<and> file_ready s' bp len free' \<and>
    (\<forall>j. pool_allocated s bp j \<longrightarrow> pool_allocated s' bp j) \<and> (\<exists>k. \<forall>j. pool_allocated s' bp j \<longrightarrow> j = k \<or> pool_allocated s bp j) \<and>
    (case r of Inl rc \<Rightarrow> rc = BUFFERPOOL_NOBUF \<and> (\<forall>j < MAX_PAGE_NUM. pool_allocated s bp j) \<and> file_records s' bp = file_records s bp
     | Inr rid \<Rightarrow> file_records s bp rid = None \<and> file_records s' bp = (file_records s bp)(rid \<mapsto> data))"
proof -
  have ok: "store_ok s bp" "records_ok s bp len" "free_ok s bp free" using r by (simp_all add: file_ready_def)
  obtain h free1 s1 where f: "find_free_page s bp free = Some (Inr h, free1, s1)" "set free1 \<subseteq> set free" "store_ok s1 bp" "same_file bp s s1"
    "case h of None \<Rightarrow> evictable s1
     | Some p \<Rightarrow> (\<exists>n \<in> set free. frame_held s1 bp n p \<and> \<not> is_full (frame_data s1 p) \<and> frame_data s1 p = page_mem s bp n \<and>
         pg_num (f_page (frame_of s1 p)) = n \<and> evictable (release s1 p))"
    using find_free_page_ok [OF r] by blast
  note same = same_file_records [OF f(4)] same_file_allocated [OF f(4)]
  have fok: "free_ok s1 bp free1" using ok(3) f(2) by (auto simp: free_ok_def same)
  show ?thesis
  proof (cases h)
    case (Some p)
    then obtain n where n: "n \<in> set free" "frame_held s1 bp n p" "\<not> is_full (frame_data s1 p)" "frame_data s1 p = page_mem s1 bp n"
      "pg_num (f_page (frame_of s1 p)) = n" "evictable (release s1 p)"
      using f(5) by (auto simp: same)
    have al: "pool_allocated s1 bp n" "n \<noteq> 0" using n(1) ok(3) by (auto simp: free_ok_def same)
    have rk: "records_ok s1 bp len" using ok(2) by (simp add: same)
    have "ph_record_num (page_mem s1 bp n) < ph_record_capacity (page_mem s1 bp n)" using n(3,4) by (simp add: is_full_def)
    then obtain rid s2 where i: "insert_into_page s1 p data = (Inr rid, s2)" "store_ok s2 bp" "evictable s2" "records_ok s2 bp len"
      "pool_allocated s2 bp = pool_allocated s1 bp" "file_records s1 bp rid = None" "file_records s2 bp = (file_records s1 bp)(rid \<mapsto> data)"
      using insert_into_page_ok [OF f(3) n(2) rk al(1) n(6,4,5) _ d] by blast
    have "RecordFileHandler_insert_record s bp free data len = Some (Inr rid, free1, s2)"
      using f(1) Some i(1) by (simp add: RecordFileHandler_insert_record_def)
    moreover have "file_ready s2 bp len free1" using i(2-5) fok by (simp add: file_ready_def free_ok_def)
    ultimately show ?thesis using i(5-7) by (simp add: same)
  next
    case None
    have ev: "evictable s1" using f(5) None by simp
    have rk: "records_ok s1 bp len" using ok(2) by (simp add: same)
    show ?thesis
    proof (cases "\<forall>j < MAX_PAGE_NUM. pool_allocated s1 bp j")
      case True
      have "RecordFileHandler_insert_record s bp free data len = Some (Inl BUFFERPOOL_NOBUF, free1, s1)"
        using f(1) None allocate_full [OF f(3) True] by (simp add: RecordFileHandler_insert_record_def)
      moreover have "file_ready s1 bp len free1" using f(3) ev rk fok by (simp add: file_ready_def)
      ultimately show ?thesis using True by (simp add: same)
    next
      case False
      then have "\<exists>j < MAX_PAGE_NUM. \<not> pool_allocated s1 bp j" "len \<le> 2147483640" using len by auto
      then obtain n p s2 s3 where a: "allocate_page s1 bp = Some (Inr p, s2)" "pg_num (f_page (frame_of s2 p)) = n"
        "init_empty_page s2 bp None n len = Some (SUCCESS, Some p, s3)"
        "store_ok (release s3 p) bp" "frame_held (release s3 p) bp n p" "records_ok (release s3 p) bp len"
        "\<And>j. pool_allocated (release s3 p) bp j \<longleftrightarrow> j = n \<or> pool_allocated s1 bp j"
        "file_records (release s3 p) bp = file_records s1 bp" "evictable (release (release s3 p) p)"
        "frame_data (release s3 p) p = page_mem (release s3 p) bp n" "pg_num (f_page (frame_of (release s3 p) p)) = n"
        "ph_record_num (frame_data (release s3 p) p) = 0" "0 < ph_record_capacity (frame_data (release s3 p) p) \<longleftrightarrow> len \<le> 524256"
        using new_page_ok [OF f(3) ev rk len(1)] by blast
      have al: "pool_allocated (release s3 p) bp n" by (simp add: a(7))
      have "ph_record_num (page_mem (release s3 p) bp n) < ph_record_capacity (page_mem (release s3 p) bp n)"
        using a(12,13) len(2) unfolding a(10) by simp
      then obtain rid s4 where i: "insert_into_page (release s3 p) p data = (Inr rid, s4)" "store_ok s4 bp" "evictable s4" "records_ok s4 bp len"
        "pool_allocated s4 bp = pool_allocated (release s3 p) bp" "file_records (release s3 p) bp rid = None"
        "file_records s4 bp = (file_records (release s3 p) bp)(rid \<mapsto> data)"
        using insert_into_page_ok [OF a(4,5,6) al a(9,10,11) _ d] by blast
      have n0: "n \<noteq> 0" using a(5) by (simp add: frame_held_def)
      have "RecordFileHandler_insert_record s bp free data len = Some (Inr rid, List.insert n free1, s4)"
        using f(1) None a(1-3) i(1) by (simp add: RecordFileHandler_insert_record_def unpin_page_def)
      moreover have "file_ready s4 bp len (List.insert n free1)"
        using i(2-5) fok n0 by (auto simp: file_ready_def free_ok_def a(7))
      ultimately show ?thesis using i(5-7) by (simp add: a(7,8) same)
    qed
  qed
qed


section \<open>Update, deletion and lookup\<close>

definition rid_valid :: "Sys \<Rightarrow> DiskBufferPool \<Rightarrow> RID \<Rightarrow> bool" where
  "rid_valid s bp rid \<longleftrightarrow> rid_page rid \<noteq> 0 \<and> pool_allocated s bp (rid_page rid)"

lemma rid_page_ok:
  assumes "file_ready s bp len free" "rid_valid s bp rid"
  shows "page_ok (page_mem s bp (rid_page rid))" "ph_record_real_size (page_mem s bp (rid_page rid)) = len"
    "file_records s bp rid = page_slots (page_mem s bp (rid_page rid)) (rid_slot rid)"
  using assms by (auto simp: file_ready_def records_ok_def rid_valid_def file_records_def)

lemma with_page_slot:
  assumes r: "file_ready s bp len free" and v: "rid_valid s bp rid"
    and f: "f (page_mem s bp (rid_page rid)) = (rc, m')"
      "rc = SUCCESS \<Longrightarrow> page_ok m' \<and> same_layout (page_mem s bp (rid_page rid)) m' \<and>
         page_slots m' = (page_slots (page_mem s bp (rid_page rid)))(rid_slot rid := d)"
  shows "\<exists>s'. with_page s bp (rid_page rid) (apply_page_op f) = Some (rc, s') \<and> file_ready s' bp len free \<and>
    pool_allocated s' bp = pool_allocated s bp \<and>
    file_records s' bp = (if rc = SUCCESS then (file_records s bp)(rid := d) else file_records s bp)"
proof -
  have s: "store_ok s bp" "evictable s" "records_ok s bp len" "rid_page rid \<noteq> 0" "pool_allocated s bp (rid_page rid)" "free_ok s bp free"
    using r v by (simp_all add: file_ready_def rid_valid_def)
  have "page_ok m' \<and> ph_record_real_size m' = len" if "rc = SUCCESS"
    using f(2) [OF that] same_layout_fields(1) rid_page_ok(2) [OF r v] by auto
  then obtain s' where s': "with_page s bp (rid_page rid) (apply_page_op f) = Some (rc, s')" "store_ok s' bp" "evictable s'" "records_ok s' bp len"
    "pool_allocated s' bp = pool_allocated s bp"
    "file_records s' bp = (if rc = SUCCESS then (\<lambda>r. if rid_page r = rid_page rid then page_slots m' (rid_slot r) else file_records s bp r)
      else file_records s bp)"
    using with_page_op [OF s(1-5), where f = f and rc = rc and m' = m'] f(1) by blast
  have "file_records s' bp = (if rc = SUCCESS then (file_records s bp)(rid := d) else file_records s bp)"
    using s'(6) page_slots_upd_file [OF s(4,5), of m' d] f(2) by (cases "rc = SUCCESS") simp_all
  moreover have "file_ready s' bp len free" using s'(2-5) s(6) by (simp add: file_ready_def free_ok_def)
  ultimately show ?thesis using s'(1,5) by blast
qed

lemma with_page_refused:
  assumes "file_ready s bp len free" "rid_valid s bp rid" "f (page_mem s bp (rid_page rid)) = (rc, m')" "rc \<noteq> SUCCESS"
  shows "\<exists>s'. with_page s bp (rid_page rid) (apply_page_op f) = Some (rc, s') \<and> file_ready s' bp len free \<and>
    pool_allocated s' bp = pool_allocated s bp \<and> file_records s' bp = file_records s bp"
  using with_page_slot [where f = f and rc = rc and m' = m' and d = None, OF assms(1,2)] assms(3,4) by auto

lemma with_page_done:
  assumes "file_ready s bp len free" "rid_valid s bp rid" "f (page_mem s bp (rid_page rid)) = (SUCCESS, m')" "page_ok m'"
    "same_layout (page_mem s bp (rid_page rid)) m'" "page_slots m' = (page_slots (page_mem s bp (rid_page rid)))(rid_slot rid := d)"
  shows "\<exists>s'. with_page s bp (rid_page rid) (apply_page_op f) = Some (SUCCESS, s') \<and> file_ready s' bp len free \<and>
    pool_allocated s' bp = pool_allocated s bp \<and> file_records s' bp = (file_records s bp)(rid := d)"
  using with_page_slot [where f = f and rc = SUCCESS and m' = m' and d = d, OF assms(1,2)] assms(3-6) by auto

lemma update_record_ok:
  assumes r: "file_ready s bp len free" and v: "rid_valid s bp rid" and d: "length data = nat len"
  shows "\<exists>rc s'. RecordFileHandler_update_record s bp data rid = Some (rc, s') \<and> file_ready s' bp len free \<and>
    pool_allocated s' bp = pool_allocated s bp \<and>
    (if file_records s bp rid = None then rc \<in> {RECORD_NOT_EXIST, INVALID_ARGUMENT} \<and> file_records s' bp = file_records s bp
     else rc = SUCCESS \<and> file_records s' bp = (file_records s bp)(rid \<mapsto> data))"
proof -
  let ?m = "page_mem s bp (rid_page rid)" and ?f = "\<lambda>m. page_update_record m data (rid_slot rid)"
  note ok = rid_page_ok [OF r v]
  have len: "length data = page_rec_len ?m" using d ok(2) by simp
  note u = page_update_ok [OF ok(1) len, where i = "rid_slot rid"]
  show ?thesis
  proof (cases "file_records s bp rid = None")
    case True
    then obtain rc where f: "?f ?m = (rc, ?m)" "rc \<noteq> SUCCESS" "rc \<in> {RECORD_NOT_EXIST, INVALID_ARGUMENT}" using u(2) ok(3) by auto
    show ?thesis
      using True with_page_refused [where f = ?f, OF r v f(1,2)] f(2,3) by (auto simp: RecordFileHandler_update_record_def)
  next
    case False
    then obtain m' where m': "?f ?m = (SUCCESS, m')" "page_ok m'" "same_layout ?m m'" "page_slots m' = (page_slots ?m)(rid_slot rid \<mapsto> data)"
      using u(1) ok(3) by auto
    show ?thesis
      using False with_page_done [where f = ?f, OF r v m'] by (auto simp: RecordFileHandler_update_record_def)
  qed
qed

lemma delete_record_ok:
  assumes r: "file_ready s bp len free" and v: "rid_valid s bp rid"
  shows "\<exists>rc free' s'. RecordFileHandler_delete_record s bp free rid = Some (rc, free', s') \<and> file_ready s' bp len free' \<and>
    pool_allocated s' bp = pool_allocated s bp \<and>
    (if file_records s bp rid = None then rc \<in> {RECORD_NOT_EXIST, INVALID_ARGUMENT} \<and> free' = free \<and> file_records s' bp = file_records s bp
     else rc = SUCCESS \<and> set free' = insert (rid_page rid) (set free) \<and> file_records s' bp = (file_records s bp)(rid := None))"
proof -
  let ?m = "page_mem s bp (rid_page rid)" and ?f = "\<lambda>m. page_delete_record m (rid_slot rid)"
  note ok = rid_page_ok [OF r v]
  note u = page_delete_ok [OF ok(1), where i = "rid_slot rid"]
  show ?thesis
  proof (cases "file_records s bp rid = None")
    case True
    then obtain rc where f: "?f ?m = (rc, ?m)" "rc \<noteq> SUCCESS" "rc \<in> {RECORD_NOT_EXIST, INVALID_ARGUMENT}" using u(2) ok(3) by auto
    show ?thesis
      using True with_page_refused [where f = ?f, OF r v f(1,2)] f(2,3) by (auto simp: RecordFileHandler_delete_record_def OB_SUCC_def)
  next
    case False
    then obtain m' where m': "?f ?m = (SUCCESS, m')" "page_ok m'" "same_layout ?m m'" "page_slots m' = (page_slots ?m)(rid_slot rid := None)"
      using u(1) ok(3) by auto
    obtain s' where s': "with_page s bp (rid_page rid) (apply_page_op ?f) = Some (SUCCESS, s')" "file_ready s' bp len free"
      "pool_allocated s' bp = pool_allocated s bp" "file_records s' bp = (file_records s bp)(rid := None)"
      using with_page_done [where f = ?f, OF r v m'] by auto
    then have "file_ready s' bp len (List.insert (rid_page rid) free)" using v by (simp add: file_ready_def free_ok_def rid_valid_def)
    then show ?thesis using False s' by (simp add: RecordFileHandler_delete_record_def OB_SUCC_def)
  qed
qed

lemma get_record_ok:
  assumes r: "file_ready s bp len free" and v: "rid_valid s bp rid"
  shows "\<exists>res p s'. RecordFileHandler_get_record s bp None rid = Some (res, Some p, s') \<and> frame_held s' bp (rid_page rid) p \<and> same_file bp s (release s' p) \<and>
    file_ready (release s' p) bp len free \<and>
    (case file_records s bp rid of Some d \<Rightarrow> res = Inr d | None \<Rightarrow> res \<in> {Inl RECORD_NOT_EXIST, Inl RECORD_INVALID_RID})"
proof -
  have s: "store_ok s bp" "evictable s" "rid_page rid \<noteq> 0" "rid_page rid < fd_len s (bp_fd bp)"
    using r v by (auto simp: file_ready_def rid_valid_def intro: allocated_len)
  note ok = rid_page_ok [OF r v]
  obtain p s1 where g: "RecordPageHandler_init s bp None (rid_page rid) = Some (SUCCESS, Some p, s1)" "store_ok s1 bp"
    "frame_held s1 bp (rid_page rid) p" "same_file bp s s1" "evictable (release s1 p)" "data_view s bp (rid_page rid) = Some (f_page (frame_of s1 p))"
    using fetch_page [OF s] by blast
  have "RecordFileHandler_get_record s bp None rid = Some (page_get_record (page_mem s bp (rid_page rid)) (rid_slot rid), Some p, s1)"
    using g(1) fetched_data [OF g(6)] by (simp add: RecordFileHandler_get_record_def OB_FAIL_def)
  moreover have sf: "same_file bp s (release s1 p)" using same_file_trans [OF g(4)] release_page [OF g(2,3)] by blast
  moreover have "file_ready (release s1 p) bp len free"
    using file_ready_same [OF r sf] release_page [OF g(2,3)] g(5) by blast
  ultimately show ?thesis using g(3) page_get_ok [OF ok(1)] ok(3) by (auto split: option.splits)
qed



section \<open>A file with one record\<close>

lemma opened_empty: "n \<noteq> 0 \<Longrightarrow> \<not> pool_allocated opened_sys opened_bp n"
  using opened_ok(4,5) by (simp add: pool_allocated_def)

lemma opened_ready: "file_ready opened_sys opened_bp len []"
  using opened_ok(1,2,8) opened_empty by (auto simp: file_ready_def records_ok_def free_ok_def)

lemma opened_records: "file_records opened_sys opened_bp = Map.empty"
  using opened_empty by (auto simp: file_records_def fun_eq_iff)

lemma opened_not_full: "\<not> (\<forall>j < MAX_PAGE_NUM. pool_allocated opened_sys opened_bp j)"
proof
  assume "\<forall>j < MAX_PAGE_NUM. pool_allocated opened_sys opened_bp j"
  then have "pool_allocated opened_sys opened_bp 1" by (simp add: MAX_PAGE_NUM_eq)
  then show False using opened_empty [of 1] by simp
qed

lemma opened_record:
  "\<exists>rid free s. RecordFileHandler_insert_record opened_sys opened_bp [] [1, 2, 3, 4] 4 = Some (Inr rid, free, s) \<and>
     file_ready s opened_bp 4 free \<and> file_records s opened_bp = [rid \<mapsto> [1, 2, 3, 4]] \<and>
     (\<forall>j. pool_allocated s opened_bp j \<longrightarrow> j = 0 \<or> j = rid_page rid)"
proof -
  have "(0::int) < 4" "(4::int) \<le> 524256" "length [1, 2, 3, 4 :: byte] = nat 4" by simp_all
  from insert_record_ok [OF opened_ready this] obtain r free s where
    r: "RecordFileHandler_insert_record opened_sys opened_bp [] [1, 2, 3, 4] 4 = Some (r, free, s)" "file_ready s opened_bp 4 free"
    and "\<exists>k. \<forall>j. pool_allocated s opened_bp j \<longrightarrow> j = k \<or> pool_allocated opened_sys opened_bp j"
    and rec: "case r of Inl rc \<Rightarrow> rc = BUFFERPOOL_NOBUF \<and> (\<forall>j < MAX_PAGE_NUM. pool_allocated opened_sys opened_bp j) \<and>
         file_records s opened_bp = file_records opened_sys opened_bp
     | Inr rid \<Rightarrow> file_records opened_sys opened_bp rid = None \<and>
         file_records s opened_bp = (file_records opened_sys opened_bp)(rid \<mapsto> [1, 2, 3, 4])"
    by blast
  then obtain k where k: "\<And>j. pool_allocated s opened_bp j \<Longrightarrow> j = k \<or> pool_allocated opened_sys opened_bp j" by blast
  obtain rid where rid: "r = Inr rid" using rec opened_not_full by (cases r) simp_all
  then have f: "file_records s opened_bp = [rid \<mapsto> [1, 2, 3, 4]]" using rec opened_records by simp
  have "file_records s opened_bp rid \<noteq> None" unfolding f by simp
  then have v: "rid_page rid \<noteq> 0" "pool_allocated s opened_bp (rid_page rid)"
    unfolding file_records_def by (simp_all split: if_splits)
  have "j = 0 \<or> j = rid_page rid" if "pool_allocated s opened_bp j" for j
    using k [OF that] k [OF v(2)] v(1) opened_empty [of j] opened_empty [of "rid_page rid"] by blast
  then show ?thesis using r rid f by blast
qed

lemma stored_valid: "file_records s bp rid = Some d \<Longrightarrow> rid_valid s bp rid"
  by (auto simp: file_records_def rid_valid_def split: if_splits)

end
