(* ===== verification/RecordScan.thy ===== *)
theory RecordScan
  imports RecordFileInv
begin

text \<open>
  The loops over a whole record file: \<open>init_free_pages\<close>, which finds the pages with room when a file
  is opened, and the scanner, which hands out the visible records page by page, slot by slot.
\<close>

section \<open>Walking over the pages\<close>

lemma iterate_pages_Nil: "iterate_pages m it = [] \<longleftrightarrow> \<not> BufferPoolIterator_has_next m it"
  by (subst iterate_pages.simps) (simp split: prod.split)

lemma iterate_pages_Cons:
  assumes "iterate_pages m it = n # ns"
  obtains it' where "BufferPoolIterator_has_next m it" "BufferPoolIterator_next m it = (n, it')" "iterate_pages m it' = ns"
proof -
  obtain n' it' where nx: "BufferPoolIterator_next m it = (n', it')" by fastforce
  have h: "BufferPoolIterator_has_next m it" using assms iterate_pages_Nil [of m it] by auto
  then have "iterate_pages m it = n' # iterate_pages m it'" using nx by (subst iterate_pages.simps) simp
  with assms nx h that show thesis by simp
qed

definition data_pages :: "Sys \<Rightarrow> DiskBufferPool \<Rightarrow> PageNum list" where
  "data_pages s bp = filter (pool_allocated s bp) [1..<fd_len s (bp_fd bp)]"

lemma data_pages_iff: "n \<in> set (data_pages s bp) \<longleftrightarrow> n \<noteq> 0 \<and> pool_allocated s bp n"
  by (auto simp: data_pages_def pool_allocated_def)

lemma iterate_data_pages:
  assumes "pool_ok s bp"
  shows "iterate_pages (frame_data s (bp_hdr bp)) (BufferPoolIterator_init s bp 0) = map int (data_pages s bp)"
proof -
  let ?m = "frame_data s (bp_hdr bp)" and ?it = "BufferPoolIterator_init s bp 0"
  note h = pool_okD(5) [OF assms]
  have it: "bpi_current ?it = int 0" "bpi_bitmap ?it = hdr_bitmap ?m" "bm_size (hdr_bitmap ?m) = fd_len s (bp_fd bp)"
    using h by (simp_all add: BufferPoolIterator_init_def hdr_bitmap_def hdr_ok_def)
  have "Bitmap_get_bit ?m (bpi_bitmap ?it) 0" using h by (simp add: it hdr_ok_def page_allocated_def)
  from iterate_pages_filter [OF it(1) this] show ?thesis
    by (auto simp: it data_pages_def pool_allocated_def page_allocated_def intro: filter_cong)
qed

lemma same_file_hdr: "same_file bp s s' \<Longrightarrow> frame_data s' (bp_hdr bp) = frame_data s (bp_hdr bp)"
  by (simp add: same_file_def)


section \<open>The pages with room\<close>

lemma init_free_loop_ok:
  assumes "store_ok s bp" "evictable s" "iterate_pages (frame_data s (bp_hdr bp)) it = map int ns"
    and "\<forall>n \<in> set ns. n \<noteq> 0 \<and> pool_allocated s bp n"
  shows "\<exists>free' s'. init_free_loop s bp it free = Some (SUCCESS, free', s') \<and> store_ok s' bp \<and> evictable s' \<and> same_file bp s s' \<and>
    set free' = set free \<union> {n \<in> set ns. \<not> is_full (page_mem s bp n)}"
  using assms
proof (induction ns arbitrary: s it free)
  case Nil
  then have "init_free_loop s bp it free = Some (SUCCESS, free, s)"
    by (subst init_free_loop.simps) (simp add: iterate_pages_Nil)
  then show ?case using Nil.prems by auto
next
  case (Cons n ns)
  obtain it' where it': "BufferPoolIterator_has_next (frame_data s (bp_hdr bp)) it"
    "BufferPoolIterator_next (frame_data s (bp_hdr bp)) it = (int n, it')" "iterate_pages (frame_data s (bp_hdr bp)) it' = map int ns"
    using Cons.prems(3) by (auto elim: iterate_pages_Cons)
  have n: "n \<noteq> 0" "pool_allocated s bp n" using Cons.prems(4) by simp_all
  obtain p s1 where g: "RecordPageHandler_init s bp None n = Some (SUCCESS, Some p, s1)" "store_ok s1 bp" "frame_held s1 bp n p"
    "same_file bp s s1" "evictable (release s1 p)" "data_view s bp n = Some (f_page (frame_of s1 p))"
    using fetch_page [OF Cons.prems(1,2) n(1) allocated_len [OF n(2)]] by blast
  let ?free = "if is_full (page_mem s bp n) then free else List.insert n free"
  have step: "init_free_loop s bp it free = init_free_loop (release s1 p) bp it' ?free"
    using it' g(1) fetched_data [OF g(6)]
    by (subst init_free_loop.simps) (simp add: RecordPageHandler_cleanup_def)
  have r: "store_ok (release s1 p) bp" "same_file bp s (release s1 p)"
    using release_page [OF g(2,3)] same_file_trans [OF g(4)] by blast+
  have "iterate_pages (frame_data (release s1 p) (bp_hdr bp)) it' = map int ns" using it'(3) same_file_hdr [OF r(2)] by simp
  moreover have "\<forall>n \<in> set ns. n \<noteq> 0 \<and> pool_allocated (release s1 p) bp n"
    using Cons.prems(4) by (simp add: same_file_allocated [OF r(2)])
  ultimately obtain free' s' where s': "init_free_loop (release s1 p) bp it' ?free = Some (SUCCESS, free', s')" "store_ok s' bp" "evictable s'"
    "same_file bp (release s1 p) s'" "set free' = set ?free \<union> {n \<in> set ns. \<not> is_full (page_mem (release s1 p) bp n)}"
    using Cons.IH [OF r(1) g(5)] by blast
  have "set free' = set free \<union> {k \<in> set (n # ns). \<not> is_full (page_mem s bp k)}"
    using s'(5) by (auto simp: same_file_records(1) [OF r(2)] split: if_splits)
  then show ?case using step s'(1-3) same_file_trans [OF r(2) s'(4)] by (intro exI [of _ free'] exI [of _ s']) simp
qed


section \<open>The records of one page\<close>

text \<open>The records a scan lets through, when the transaction answers with success or invisible.\<close>

definition scan_accepts :: "record_filter \<Rightarrow> record_visit \<Rightarrow> RID \<Rightarrow> byte list \<Rightarrow> bool" where
  "scan_accepts flt vis rid d \<longleftrightarrow>
     (case flt of None \<Rightarrow> True | Some f \<Rightarrow> f d) \<and> (case vis of None \<Rightarrow> True | Some v \<Rightarrow> v rid d = SUCCESS)"

definition visit_total :: "record_visit \<Rightarrow> bool" where
  "visit_total vis \<longleftrightarrow> (\<forall>v rid d. vis = Some v \<longrightarrow> v rid d \<in> {SUCCESS, RECORD_INVISIBLE})"

definition page_recs :: "record_filter \<Rightarrow> record_visit \<Rightarrow> mem \<Rightarrow> PageNum \<Rightarrow> nat \<Rightarrow> (RID \<times> byte list) list" where
  "page_recs flt vis m n k =
     filter (\<lambda>(rid, d). scan_accepts flt vis rid d)
       (map (\<lambda>i. (\<lparr>rid_page = n, rid_slot = i\<rparr>, read_bytes m (get_record_data m i) (nat (ph_record_real_size m))))
         (filter (page_used m) [k..<page_cap m]))"

text \<open>The scanner's record points at the given record in the memory of frame \<open>p\<close>.\<close>

definition denotes :: "nat \<Rightarrow> mem \<Rightarrow> ScanRecord \<Rightarrow> RID \<times> byte list \<Rightarrow> bool" where
  "denotes p m r x \<longleftrightarrow> sr_rid r = fst x \<and> sr_slot r \<noteq> -1 \<and> sr_frame r = p \<and> sr_bytes m r (nat (ph_record_real_size m)) = snd x"

lemma scan_record_simps [simp]:
  "sr_rid (scan_record p m n (int i)) = \<lparr>rid_page = n, rid_slot = i\<rparr>"
  "sr_bytes m' (scan_record p m n (int i)) len = read_bytes m' (get_record_data m i) len"
  by (simp_all add: sr_rid_def scan_record_def sr_bytes_def)

lemma scan_record_denotes:
  "denotes p m (scan_record p m n (int i)) (\<lparr>rid_page = n, rid_slot = i\<rparr>, read_bytes m (get_record_data m i) (nat (ph_record_real_size m)))"
  by (simp add: denotes_def) (simp add: scan_record_def)

lemma page_recs_slots:
  "page_recs flt vis m n 0 =
     filter (\<lambda>(rid, d). scan_accepts flt vis rid d)
       (map (\<lambda>i. (\<lparr>rid_page = n, rid_slot = i\<rparr>, the (page_slots m i))) (filter (\<lambda>i. page_slots m i \<noteq> None) [0..<page_cap m]))"
proof -
  have "filter (\<lambda>i. page_slots m i \<noteq> None) [0..<page_cap m] = filter (page_used m) [0..<page_cap m]"
    by (intro filter_cong) (auto simp: page_slots_def)
  moreover have "read_bytes m (get_record_data m i) (nat (ph_record_real_size m)) = the (page_slots m i)" if "i < page_cap m" "page_used m i" for i
    using that by (simp add: page_slots_def)
  ultimately show ?thesis unfolding page_recs_def by (intro arg_cong [where f = "filter _"] map_cong) auto
qed

lemma fetch_in_page_ok:
  assumes "iter_at m it k" "visit_total vis"
  shows "case page_recs flt vis m (rpi_page_num it) k of
      [] \<Rightarrow> \<exists>it' nx'. fetch_next_record_in_page p m flt vis it nx = Some (RECORD_EOF, it', nx')
    | r # rs \<Rightarrow> \<exists>it' k' nx'. fetch_next_record_in_page p m flt vis it nx = Some (SUCCESS, it', nx') \<and> denotes p m nx' r \<and> iter_at m it' k' \<and>
        rpi_page_num it' = rpi_page_num it \<and> page_recs flt vis m (rpi_page_num it) k' = rs"
  using assms(1)
proof (induction "filter (page_used m) [k..<page_cap m]" arbitrary: k it nx)
  case Nil
  then have "\<not> RecordPageIterator_has_next it" by (cases "RecordPageIterator_has_next it") (auto elim: iter_step)
  then show ?case using Nil by (subst fetch_next_record_in_page.simps) (simp add: page_recs_def)
next
  case (Cons x xs)
  have "RecordPageIterator_has_next it" using iter_end [OF Cons.prems] Cons.hyps(2) by force
  then obtain i it1 where i: "RecordPageIterator_next m it = (SUCCESS, int i, it1)" "iter_at m it1 (Suc i)" "rpi_page_num it1 = rpi_page_num it"
    "filter (page_used m) [k..<page_cap m] = i # filter (page_used m) [Suc i..<page_cap m]"
    using iter_step [OF Cons.prems] by metis
  let ?n = "rpi_page_num it" and ?r = "scan_record p m (rpi_page_num it) (int i)" and
    ?d = "read_bytes m (get_record_data m i) (nat (ph_record_real_size m))" and ?rid = "\<lparr>rid_page = rpi_page_num it, rid_slot = i\<rparr>"
  have recs: "page_recs flt vis m ?n k =
      (if scan_accepts flt vis ?rid ?d then [(?rid, ?d)] else []) @ page_recs flt vis m ?n (Suc i)"
    unfolding page_recs_def i(4) by simp
  have xs: "xs = filter (page_used m) [Suc i..<page_cap m]" using i(4) Cons.hyps(2) by simp
  show ?case
  proof (cases "scan_accepts flt vis ?rid ?d")
    case True
    then have "fetch_next_record_in_page p m flt vis it nx = Some (SUCCESS, it1, ?r)"
      using i(1,3) \<open>RecordPageIterator_has_next it\<close>
      by (subst fetch_next_record_in_page.simps) (auto simp: scan_accepts_def split: option.splits)
    then show ?thesis using recs True i(2,3) scan_record_denotes [of p m ?n i] by auto
  next
    case False
    have "fetch_next_record_in_page p m flt vis it nx = fetch_next_record_in_page p m flt vis it1 ?r"
    proof (cases "case flt of None \<Rightarrow> True | Some f \<Rightarrow> f ?d")
      case True
      then obtain v where v: "vis = Some v" "v ?rid ?d \<noteq> SUCCESS"
        using False by (auto simp: scan_accepts_def split: option.splits)
      then have "v ?rid ?d = RECORD_INVISIBLE" using assms(2) unfolding visit_total_def by blast
      then show ?thesis
        using True v(1) i(1,3) \<open>RecordPageIterator_has_next it\<close>
        by (subst fetch_next_record_in_page.simps) (auto simp: Let_def split: option.splits)
    next
      case False
      then show ?thesis
        using i(1,3) \<open>RecordPageIterator_has_next it\<close>
        by (subst fetch_next_record_in_page.simps) (auto simp: Let_def split: option.splits)
    qed
    then show ?thesis
      using Cons.hyps(1) [OF xs i(2), of ?r] recs False i(3) by (cases "page_recs flt vis m ?n (Suc i)") simp_all
  qed
qed


section \<open>Frames that are not reused\<close>

text \<open>
  The free frames suffice for the pages of the file that are not cached. Then no page of the file has
  to leave the cache while the others are fetched.
\<close>

definition scan_room :: "Sys \<Rightarrow> DiskBufferPool \<Rightarrow> bool" where
  "scan_room s bp \<longleftrightarrow> length (filter (\<lambda>n. cached s (bp_fd bp) n = None) (data_pages s bp)) \<le> length (fm_frees (sys_fm s))"

definition cache_kept :: "DiskBufferPool \<Rightarrow> Sys \<Rightarrow> Sys \<Rightarrow> bool" where
  "cache_kept bp s s' \<longleftrightarrow> (\<forall>n q. cached s (bp_fd bp) n = Some q \<longrightarrow> cached s' (bp_fd bp) n = Some q)"

text \<open>What the scanner does to the buffer pool between two records.\<close>

definition moved :: "DiskBufferPool \<Rightarrow> Sys \<Rightarrow> Sys \<Rightarrow> bool" where
  "moved bp s s' \<longleftrightarrow> same_file bp s s' \<and> (scan_room s bp \<longrightarrow> scan_room s' bp \<and> cache_kept bp s s')"

lemma moved_refl [simp, intro]: "moved bp s s"
  by (simp add: moved_def cache_kept_def)

lemma moved_trans: "moved bp s s' \<Longrightarrow> moved bp s' s'' \<Longrightarrow> moved bp s s''"
  by (auto simp: moved_def cache_kept_def intro: same_file_trans)

lemma moved_same: "moved bp s s' \<Longrightarrow> same_file bp s s'"
  by (simp add: moved_def)

lemma data_pages_same: "same_file bp s s' \<Longrightarrow> data_pages s' bp = data_pages s bp"
  by (simp add: data_pages_def same_file_allocated) (simp add: same_file_def)

lemma release_moved:
  assumes "store_ok s bp" "frame_held s bp n p"
  shows "moved bp s (release s p)"
proof -
  note sf = release_page(2) [OF assms]
  have "cached (release s p) fd k = cached s fd k" "fm_frees (sys_fm (release s p)) = fm_frees (sys_fm s)" for fd k
    by (simp_all add: unpin_page_def cached_def)
  then show ?thesis using sf by (simp add: moved_def scan_room_def cache_kept_def data_pages_same [OF sf])
qed

lemma get_this_page_keeps:
  assumes "bp_inv s" "get_this_page s bp n = Some (Inr p, s')" "cached s (bp_fd bp) n \<noteq> None \<or> fm_frees (sys_fm s) \<noteq> []"
  shows "cached s' fd' n' = (if fd' = bp_fd bp \<and> n' = n then Some p else cached s fd' n')"
    "length (fm_frees (sys_fm s)) = length (fm_frees (sys_fm s')) + (if cached s (bp_fd bp) n = None then 1 else 0)"
proof -
  let ?fid = "\<lparr>fid_fd = bp_fd bp, fid_page = n\<rparr>"
  have "cached s' fd' n' = (if fd' = bp_fd bp \<and> n' = n then Some p else cached s fd' n') \<and>
    length (fm_frees (sys_fm s)) = length (fm_frees (sys_fm s')) + (if cached s (bp_fd bp) n = None then 1 else 0)"
  proof (cases "cached s (bp_fd bp) n")
    case (Some q)
    then show ?thesis using get_cached_page [OF assms(1) Some] assms(2) by auto
  next
    case None
    obtain es where es: "files_ok s" "fm_rel (sys_fm s) es" "frames_ok s es" using assms(1) by (rule bp_invE)
    have m: "map_of es ?fid = None" using None by (simp add: cached_map_of [OF es(2)])
    obtain q qs where qs: "fm_frees (sys_fm s) = q # qs" using None assms(3) by (cases "fm_frees (sys_fm s)") auto
    obtain fm where fm: "BPFrameManager_alloc (sys_fm s) (bp_fd bp) n = (Some q, fm)" "fm_rel fm ((?fid, q) # es)"
      using alloc_free_frame [OF es(2) m qs] by blast
    have "allocate_frame s bp n = Some (q, s\<lparr>sys_fm := fm\<rparr>)" by (subst allocate_frame.simps) (simp add: fm(1))
    then have r: "p = q" "fm_cache (sys_fm s') = fm_cache fm" "fm_frees (sys_fm s') = fm_frees fm"
      using assms(2) get_internal_miss [OF es(2) m]
      by (auto simp: get_this_page_def BPFrameManager_get_def load_page_def Let_def split: option.splits if_splits prod.splits)
    have "fm_frees fm = qs"
      using fm(1) get_internal_miss [OF es(2) m] by (auto simp: BPFrameManager_alloc_def MemPool_alloc_def qs Let_def)
    moreover have "cached s' fd' n' = map_of ((?fid, q) # es) \<lparr>fid_fd = fd', fid_page = n'\<rparr>"
      using cached_map_of [of "s\<lparr>sys_fm := fm\<rparr>" "(?fid, q) # es"] fm(2) r(2) by (simp add: cached_def)
    ultimately show ?thesis using r None qs by (auto simp: cached_map_of [OF es(2)])
  qed
  then show "cached s' fd' n' = (if fd' = bp_fd bp \<and> n' = n then Some p else cached s fd' n')"
    "length (fm_frees (sys_fm s)) = length (fm_frees (sys_fm s')) + (if cached s (bp_fd bp) n = None then 1 else 0)" by blast+
qed

lemma length_filter_flip:
  assumes "x \<in> set xs" "distinct xs" "P x" "\<And>y. Q y \<longleftrightarrow> P y \<and> y \<noteq> x"
  shows "length (filter P xs) = Suc (length (filter Q xs))"
proof -
  have "set (filter P xs) = insert x (set (filter Q xs))" using assms by auto
  then show ?thesis
    using distinct_card [of "filter P xs"] distinct_card [of "filter Q xs"] assms(2,4) by (simp add: card_insert_if)
qed

lemma fetch_moved:
  assumes "store_ok s bp" "RecordPageHandler_init s bp None n = Some (SUCCESS, Some p, s')" "same_file bp s s'"
    and n: "n \<noteq> 0" "pool_allocated s bp n"
  shows "moved bp s s'"
proof -
  have g: "get_this_page s bp n = Some (Inr p, s')"
    using assms(2) by (auto simp: RecordPageHandler_init_def split: Option.bind_splits sum.splits)
  have mem: "n \<in> set (data_pages s bp)" "distinct (data_pages s bp)" using n by (simp_all add: data_pages_iff) (simp add: data_pages_def)
  let ?P = "\<lambda>k. cached s (bp_fd bp) k = None" and ?Q = "\<lambda>k. cached s' (bp_fd bp) k = None"
  have "scan_room s' bp \<and> cache_kept bp s s'" if room: "scan_room s bp"
  proof -
    have free: "cached s (bp_fd bp) n \<noteq> None \<or> fm_frees (sys_fm s) \<noteq> []"
      using room mem(1) by (auto simp: scan_room_def filter_empty_conv)
    note k = get_this_page_keeps [OF pool_okD(1) [OF conjunct1 [OF assms(1)]] g free]
    have kept: "cache_kept bp s s'"
      using k(1) get_cached_page [OF pool_okD(1) [OF conjunct1 [OF assms(1)]]] g by (fastforce simp: cache_kept_def)
    have "length (filter ?P (data_pages s bp)) = Suc (length (filter ?Q (data_pages s bp)))" if "?P n"
      by (rule length_filter_flip [OF mem]) (use that k(1) in simp_all)
    moreover have "filter ?P (data_pages s bp) = filter ?Q (data_pages s bp)" if "\<not> ?P n"
      using that k(1) by (intro filter_cong) auto
    ultimately have "scan_room s' bp" using room k(2) by (auto simp: scan_room_def data_pages_same [OF assms(3)] split: if_splits)
    with kept show ?thesis by blast
  qed
  then show ?thesis using assms(3) by (simp add: moved_def)
qed


section \<open>The scanner\<close>

definition pages_recs :: "record_filter \<Rightarrow> record_visit \<Rightarrow> (PageNum \<Rightarrow> mem) \<Rightarrow> PageNum list \<Rightarrow> (RID \<times> byte list) list" where
  "pages_recs flt vis mm ns = concat (map (\<lambda>n. page_recs flt vis (mm n) n 0) ns)"

definition pages_left :: "Sys \<Rightarrow> DiskBufferPool \<Rightarrow> BufferPoolIterator \<Rightarrow> PageNum list \<Rightarrow> bool" where
  "pages_left s bp it ns \<longleftrightarrow> iterate_pages (frame_data s (bp_hdr bp)) it = map int ns \<and>
     (\<forall>n \<in> set ns. n \<noteq> 0 \<and> pool_allocated s bp n) \<and> distinct ns"

lemma pages_left_same: "same_file bp s s' \<Longrightarrow> pages_left s' bp it ns = pages_left s bp it ns"
  by (simp add: pages_left_def same_file_hdr same_file_allocated)

text \<open>
  The scanner stands inside a page and holds record \<open>x\<close> of that page ready; the records \<open>rs\<close> are still
  to come.
\<close>

definition scan_at ::
  "Sys \<Rightarrow> DiskBufferPool \<Rightarrow> record_filter \<Rightarrow> record_visit \<Rightarrow> RecordFileScanner \<Rightarrow> RID \<times> byte list \<Rightarrow> (RID \<times> byte list) list \<Rightarrow> bool" where
  "scan_at s bp flt vis sc x rs \<longleftrightarrow> store_ok s bp \<and>
     (\<exists>n p it k ns. sc_handler sc = Some p \<and> sc_frame sc = p \<and> sc_page_it sc = Some it \<and> frame_held s bp n p \<and> evictable (release s p) \<and>
        iter_at (frame_data s p) it k \<and> rpi_page_num it = n \<and> pages_left s bp (sc_bp_it sc) ns \<and> n \<notin> set ns \<and> pool_allocated s bp n \<and>
        denotes p (frame_data s p) (sc_next sc) x \<and> rid_page (fst x) = n \<and>
        rs = page_recs flt vis (frame_data s p) n k @ pages_recs flt vis (page_mem s bp) ns)"

definition scan_done :: "Sys \<Rightarrow> DiskBufferPool \<Rightarrow> RecordFileScanner \<Rightarrow> bool" where
  "scan_done s bp sc \<longleftrightarrow> store_ok s bp \<and> evictable s \<and> sc_handler sc = None \<and> sr_slot (sc_next sc) = -1"

definition handler_ok :: "Sys \<Rightarrow> DiskBufferPool \<Rightarrow> nat option \<Rightarrow> bool" where
  "handler_ok s bp h \<longleftrightarrow> (case h of None \<Rightarrow> True | Some p \<Rightarrow> \<exists>n. frame_held s bp n p)"

lemma handler_cleanup:
  assumes "store_ok s bp" "handler_ok s bp h"
  shows "store_ok (RecordPageHandler_cleanup s h) bp" "moved bp s (RecordPageHandler_cleanup s h)"
proof -
  have "store_ok (RecordPageHandler_cleanup s h) bp \<and> moved bp s (RecordPageHandler_cleanup s h)"
  proof (cases h)
    case None
    then show ?thesis using assms(1) by (simp add: RecordPageHandler_cleanup_def)
  next
    case (Some p)
    then obtain n where "frame_held s bp n p" using assms(2) by (auto simp: handler_ok_def)
    with release_page(1) [OF assms(1) this] release_moved [OF assms(1) this] show ?thesis by (simp add: Some RecordPageHandler_cleanup_def)
  qed
  then show "store_ok (RecordPageHandler_cleanup s h) bp" "moved bp s (RecordPageHandler_cleanup s h)" by blast+
qed

text \<open>What a call that looks for the next record does, given the records still to come.\<close>

definition scan_result ::
  "Sys \<Rightarrow> DiskBufferPool \<Rightarrow> record_filter \<Rightarrow> record_visit \<Rightarrow> (RID \<times> byte list) list \<Rightarrow> (RC \<times> RecordFileScanner \<times> Sys) option \<Rightarrow> bool" where
  "scan_result s bp flt vis rs res \<longleftrightarrow>
     (case rs of
        [] \<Rightarrow> \<exists>sc' s'. res = Some (RECORD_EOF, sc', s') \<and> moved bp s s' \<and> scan_done s' bp sc'
      | x # rs \<Rightarrow> \<exists>sc' s'. res = Some (SUCCESS, sc', s') \<and> moved bp s s' \<and> scan_at s' bp flt vis sc' x rs)"

lemma scan_result_moved: "moved bp s s1 \<Longrightarrow> scan_result s1 bp flt vis rs res \<Longrightarrow> scan_result s bp flt vis rs res"
  unfolding scan_result_def by (cases rs) (auto intro: moved_trans)

lemma page_recs_page: "x \<in> set (page_recs flt vis m n k) \<Longrightarrow> rid_page (fst x) = n"
  by (auto simp: page_recs_def)

lemma fetch_pages_ok:
  assumes "store_ok s bp" "handler_ok s bp (sc_handler sc)" "evictable (RecordPageHandler_cleanup s (sc_handler sc))"
    and "pages_left s bp (sc_bp_it sc) ns" "visit_total vis"
  shows "scan_result s bp flt vis (pages_recs flt vis (page_mem s bp) ns) (fetch_pages s bp flt vis sc)"
  using assms(1-4)
proof (induction ns arbitrary: s sc)
  case Nil
  note c = handler_cleanup [OF Nil.prems(1,2)]
  have "\<not> BufferPoolIterator_has_next (frame_data s (bp_hdr bp)) (sc_bp_it sc)"
    using Nil.prems(4) by (simp add: pages_left_def iterate_pages_Nil)
  then show ?case
    using c Nil.prems(3) by (subst fetch_pages.simps) (simp add: scan_result_def pages_recs_def scan_done_def)
next
  case (Cons n ns)
  let ?hm = "frame_data s (bp_hdr bp)" and ?s0 = "RecordPageHandler_cleanup s (sc_handler sc)"
  note c = handler_cleanup [OF Cons.prems(1,2)]
  note c2 = moved_same [OF c(2)]
  obtain bit where bit: "BufferPoolIterator_has_next ?hm (sc_bp_it sc)" "BufferPoolIterator_next ?hm (sc_bp_it sc) = (int n, bit)"
    "iterate_pages ?hm bit = map int ns"
    using Cons.prems(4) by (auto simp: pages_left_def elim: iterate_pages_Cons)
  have n: "n \<noteq> 0" "pool_allocated ?s0 bp n" "n \<notin> set ns" using Cons.prems(4) by (simp_all add: pages_left_def same_file_allocated [OF c2])
  obtain p s1 where g: "RecordPageHandler_init ?s0 bp None n = Some (SUCCESS, Some p, s1)" "store_ok s1 bp" "frame_held s1 bp n p"
    "same_file bp ?s0 s1" "evictable (release s1 p)" "data_view ?s0 bp n = Some (f_page (frame_of s1 p))" "pg_num (f_page (frame_of s1 p)) = n"
    using fetch_page [OF c(1) Cons.prems(3) n(1) allocated_len [OF n(2)]] by blast
  have mv: "moved bp s s1" using moved_trans [OF c(2) fetch_moved [OF c(1) g(1,4) n(1,2)]] .
  note sf = moved_same [OF mv]
  have m: "frame_data s1 p = page_mem s bp n" using fetched_data [OF g(6)] same_file_records(1) [OF c2] by simp
  have left: "pages_left s1 bp bit ns"
    unfolding pages_left_same [OF sf] using bit(3) Cons.prems(4) by (simp add: pages_left_def)
  have al: "pool_allocated s1 bp n" using n(2) by (simp add: same_file_allocated [OF g(4)])
  let ?it = "RecordPageIterator_init (frame_data s1 p) n 0" and ?sc = "sc\<lparr>sc_bp_it := bit, sc_handler := Some p\<rparr>"
  have itn: "rpi_page_num ?it = n" by (simp add: RecordPageIterator_init_def)
  note fp = fetch_in_page_ok [OF iter_init [of "frame_data s1 p" n] assms(5), of p flt "sc_next sc", unfolded itn]
  have run: "fetch_pages s bp flt vis sc =
      do { (rc, it, nx) \<leftarrow> fetch_next_record_in_page p (frame_data s1 p) flt vis ?it (sc_next sc);
           let sc = ?sc\<lparr>sc_frame := p, sc_page_it := Some it, sc_next := nx\<rparr>;
           if rc \<noteq> RECORD_EOF then Some (rc, sc, s1) else fetch_pages s1 bp flt vis sc }"
    using bit(1,2) g(1,7) by (subst fetch_pages.simps) (simp add: OB_FAIL_def Let_def cong: if_cong)
  show ?case
  proof (cases "page_recs flt vis (frame_data s1 p) n 0")
    case Nil
    then obtain it' nx' where f: "fetch_next_record_in_page p (frame_data s1 p) flt vis ?it (sc_next sc) = Some (RECORD_EOF, it', nx')"
      using fp by auto
    let ?sc' = "?sc\<lparr>sc_frame := p, sc_page_it := Some it', sc_next := nx'\<rparr>"
    have "scan_result s1 bp flt vis (pages_recs flt vis (page_mem s1 bp) ns) (fetch_pages s1 bp flt vis ?sc')"
      using g(2,3,5) left by (intro Cons.IH) (auto simp: handler_ok_def RecordPageHandler_cleanup_def)
    then have "scan_result s bp flt vis (pages_recs flt vis (page_mem s bp) ns) (fetch_pages s1 bp flt vis ?sc')"
      using scan_result_moved [OF mv] by (simp add: same_file_records(1) [OF sf])
    moreover have "pages_recs flt vis (page_mem s bp) (n # ns) = pages_recs flt vis (page_mem s bp) ns"
      using Nil m by (simp add: pages_recs_def)
    ultimately show ?thesis using run f by simp
  next
    case (Cons r rs)
    then obtain it' k' nx' where f: "fetch_next_record_in_page p (frame_data s1 p) flt vis ?it (sc_next sc) = Some (SUCCESS, it', nx')"
      "denotes p (frame_data s1 p) nx' r" "iter_at (frame_data s1 p) it' k'" "rpi_page_num it' = n"
      "page_recs flt vis (frame_data s1 p) n k' = rs"
      using fp by auto
    have r: "rid_page (fst r) = n" using page_recs_page [of r flt vis "frame_data s1 p" n 0] Cons by simp
    let ?sc' = "?sc\<lparr>sc_frame := p, sc_page_it := Some it', sc_next := nx'\<rparr>"
    have "scan_at s1 bp flt vis ?sc' r (rs @ pages_recs flt vis (page_mem s bp) ns)"
      unfolding scan_at_def using g(2,3,5) f(2-5) left same_file_records(1) [OF sf] n(3) al r
      by (intro conjI exI [of _ n] exI [of _ p] exI [of _ it'] exI [of _ k'] exI [of _ ns]) auto
    moreover have "pages_recs flt vis (page_mem s bp) (n # ns) = r # rs @ pages_recs flt vis (page_mem s bp) ns"
      using Cons m by (simp add: pages_recs_def)
    ultimately show ?thesis using run f(1) mv by (simp add: scan_result_def)
  qed
qed

lemma pages_recs_page: "x \<in> set (pages_recs flt vis mm ns) \<Longrightarrow> rid_page (fst x) \<in> set ns"
  by (auto simp: pages_recs_def dest: page_recs_page)

text \<open>
  The next record is found as described; as long as it is in the same page, the buffer pool is not
  touched.
\<close>

lemma fetch_next_ok:
  assumes "scan_at s bp flt vis sc x rs" "visit_total vis"
  shows "scan_result s bp flt vis rs (fetch_next_record s bp flt vis sc)"
    "rs = y # ys \<Longrightarrow> rid_page (fst y) = rid_page (fst x) \<Longrightarrow> \<exists>sc'. fetch_next_record s bp flt vis sc = Some (SUCCESS, sc', s)"
proof -
  obtain n p it k ns where a: "store_ok s bp" "sc_handler sc = Some p" "sc_frame sc = p" "sc_page_it sc = Some it" "frame_held s bp n p"
    "evictable (release s p)" "iter_at (frame_data s p) it k" "rpi_page_num it = n" "pages_left s bp (sc_bp_it sc) ns"
    "rs = page_recs flt vis (frame_data s p) n k @ pages_recs flt vis (page_mem s bp) ns"
    and b: "n \<notin> set ns" "pool_allocated s bp n" "rid_page (fst x) = n"
    using assms(1) unfolding scan_at_def by auto
  note fp = fetch_in_page_ok [OF a(7) assms(2), of p flt "sc_next sc", unfolded a(8)]
  have "scan_result s bp flt vis rs (fetch_next_record s bp flt vis sc) \<and>
    (rs = y # ys \<and> rid_page (fst y) = n \<longrightarrow> (\<exists>sc'. fetch_next_record s bp flt vis sc = Some (SUCCESS, sc', s)))"
  proof (cases "page_recs flt vis (frame_data s p) n k")
    case Nil
    then obtain it' nx' where f: "fetch_next_record_in_page p (frame_data s p) flt vis it (sc_next sc) = Some (RECORD_EOF, it', nx')"
      using fp by auto
    let ?sc = "sc\<lparr>sc_page_it := Some it', sc_next := nx'\<rparr>"
    have "scan_result s bp flt vis (pages_recs flt vis (page_mem s bp) ns) (fetch_pages s bp flt vis ?sc)"
      using a assms(2) by (intro fetch_pages_ok) (auto simp: handler_ok_def RecordPageHandler_cleanup_def)
    moreover have "rid_page (fst y) \<noteq> n" if "rs = y # ys"
    proof -
      have "y \<in> set (pages_recs flt vis (page_mem s bp) ns)" using a(10) Nil that by (metis append_Nil list.set_intros(1))
      then show ?thesis using pages_recs_page [of y flt vis "page_mem s bp" ns] b(1) by auto
    qed
    moreover have "scan_result s bp flt vis rs (fetch_next_record s bp flt vis sc)"
      using calculation(1) a(3,4,10) f Nil by (simp add: fetch_next_record_def)
    ultimately show ?thesis by blast
  next
    case (Cons r rs')
    then obtain it' k' nx' where f: "fetch_next_record_in_page p (frame_data s p) flt vis it (sc_next sc) = Some (SUCCESS, it', nx')"
      "denotes p (frame_data s p) nx' r" "iter_at (frame_data s p) it' k'" "rpi_page_num it' = n" "page_recs flt vis (frame_data s p) n k' = rs'"
      using fp by auto
    have r: "rid_page (fst r) = n" using page_recs_page [of r flt vis "frame_data s p" n k] Cons by simp
    let ?sc = "sc\<lparr>sc_page_it := Some it', sc_next := nx'\<rparr>"
    have "scan_at s bp flt vis ?sc r (rs' @ pages_recs flt vis (page_mem s bp) ns)"
      unfolding scan_at_def using a f(2-5) b r
      by (intro conjI exI [of _ n] exI [of _ p] exI [of _ it'] exI [of _ k'] exI [of _ ns]) auto
    then show ?thesis using a(3,4,10) f(1) Cons by (simp add: fetch_next_record_def scan_result_def)
  qed
  then show "scan_result s bp flt vis rs (fetch_next_record s bp flt vis sc)"
    "rs = y # ys \<Longrightarrow> rid_page (fst y) = rid_page (fst x) \<Longrightarrow> \<exists>sc'. fetch_next_record s bp flt vis sc = Some (SUCCESS, sc', s)"
    using b(3) by blast+
qed

text \<open>A record handed out still shows its bytes as long as its page is in the frame it points into.\<close>

lemma scan_at_data:
  assumes "scan_at s bp flt vis sc x rs" "records_ok s bp len" "same_file bp s s'"
    and "cached s' (bp_fd bp) (rid_page (fst x)) = cached s (bp_fd bp) (rid_page (fst x))"
  shows "sr_rid (sc_next sc) = fst x" "sr_slot (sc_next sc) \<noteq> -1" "Record_data s' (sc_next sc) (nat len) = snd x"
    "cached s (bp_fd bp) (rid_page (fst x)) \<noteq> None"
proof -
  obtain n p where a: "frame_held s bp n p" "pool_allocated s bp n" "denotes p (frame_data s p) (sc_next sc) x" "rid_page (fst x) = n"
    using assms(1) unfolding scan_at_def by auto
  then show "sr_rid (sc_next sc) = fst x" "sr_slot (sc_next sc) \<noteq> -1" by (simp_all add: denotes_def)
  have n: "n \<noteq> 0" "cached s (bp_fd bp) n = Some p" using a(1) by (simp_all add: frame_held_def)
  have m: "frame_data t p = page_mem t bp n" if "cached t (bp_fd bp) n = Some p" for t
    using cached_view [OF that] n(1) by (simp add: page_mem_def data_view_def)
  have "ph_record_real_size (frame_data s p) = len" using assms(2) a(2) n m [OF n(2)] by (simp add: records_ok_def)
  moreover have "frame_data s' p = frame_data s p"
    using m [of s] m [of s'] n(2) assms(4) a(4) same_file_records(1) [OF assms(3)] by simp
  ultimately show "Record_data s' (sc_next sc) (nat len) = snd x" using a(3) by (auto simp: denotes_def Record_data_def)
  show "cached s (bp_fd bp) (rid_page (fst x)) \<noteq> None" using n(2) a(4) by simp
qed

text \<open>
  What the loop of a client reads: the records in order, each with its bytes when the next record is in
  the same page, and all of them with their bytes when no frame has to be reused.
\<close>

definition reads_of :: "bool \<Rightarrow> (RID \<times> byte list) list \<Rightarrow> (RID \<times> byte list) list \<Rightarrow> bool" where
  "reads_of room xs recs \<longleftrightarrow> map fst recs = map fst xs \<and> (room \<longrightarrow> recs = xs) \<and>
     (\<forall>i. Suc i < length xs \<and> rid_page (fst (xs ! i)) = rid_page (fst (xs ! Suc i)) \<longrightarrow> recs ! i = xs ! i)"

lemma reads_of_Nil [simp]: "reads_of room [] []"
  by (simp add: reads_of_def)

lemma reads_of_Cons:
  assumes "reads_of room' xs recs" "fst r = fst x" "room \<longrightarrow> room' \<and> r = x"
    and "\<And>y ys. xs = y # ys \<Longrightarrow> rid_page (fst y) = rid_page (fst x) \<Longrightarrow> r = x"
  shows "reads_of room (x # xs) (r # recs)"
proof -
  have "(r # recs) ! i = (x # xs) ! i" if "Suc i < length (x # xs)" "rid_page (fst ((x # xs) ! i)) = rid_page (fst ((x # xs) ! Suc i))" for i
    using that assms(1,4) by (cases i; cases xs) (auto simp: reads_of_def)
  then show ?thesis using assms(1-3) by (auto simp: reads_of_def)
qed

lemma scan_loop_ok:
  assumes "scan_at s bp flt vis sc x rs" "visit_total vis" "records_ok s bp len"
  shows "\<exists>recs s'. scan_loop s bp flt vis (nat len) sc acc = Some (SUCCESS, acc @ recs, s') \<and> reads_of (scan_room s bp) (x # rs) recs \<and>
    same_file bp s s' \<and> store_ok s' bp \<and> evictable s'"
  using assms(1,3)
proof (induction rs arbitrary: s sc x acc)
  case Nil
  obtain sc' s' where f: "fetch_next_record s bp flt vis sc = Some (RECORD_EOF, sc', s')" "moved bp s s'" "scan_done s' bp sc'"
    using fetch_next_ok(1) [OF Nil.prems(1) assms(2)] by (auto simp: scan_result_def)
  note d = scan_at_data [OF Nil.prems]
  let ?r = "(sr_rid (sc_next sc), Record_data s' (sc_next sc) (nat len))"
  have "scan_loop s' bp flt vis (nat len) sc' (acc @ [?r]) = Some (SUCCESS, acc @ [?r], s')"
    using f(3) by (subst scan_loop.simps)
      (simp add: scan_done_def RecordFileScanner_has_next_def RecordFileScanner_close_scan_def RecordPageHandler_cleanup_def)
  then have "scan_loop s bp flt vis (nat len) sc acc = Some (SUCCESS, acc @ [?r], s')"
    using d(2) [OF same_file_refl] f(1) by (subst scan_loop.simps) (simp add: RecordFileScanner_has_next_def RecordFileScanner_next_def)
  moreover have "?r = x" if "scan_room s bp"
    using d(1,3) [OF moved_same [OF f(2)]] d(4) [OF same_file_refl refl] f(2) that by (cases x) (auto simp: moved_def cache_kept_def)
  then have "reads_of (scan_room s bp) [x] [?r]"
    using d(1) [OF same_file_refl] by (intro reads_of_Cons [of True]) auto
  ultimately show ?case using f(2,3) by (auto simp: scan_done_def moved_same)
next
  case (Cons y ys)
  obtain sc' s1 where f: "fetch_next_record s bp flt vis sc = Some (SUCCESS, sc', s1)" "moved bp s s1" "scan_at s1 bp flt vis sc' y ys"
    using fetch_next_ok(1) [OF Cons.prems(1) assms(2)] by (auto simp: scan_result_def)
  note d = scan_at_data [OF Cons.prems] and sf = moved_same [OF f(2)]
  let ?r = "(sr_rid (sc_next sc), Record_data s1 (sc_next sc) (nat len))"
  obtain recs s' where r: "scan_loop s1 bp flt vis (nat len) sc' (acc @ [?r]) = Some (SUCCESS, (acc @ [?r]) @ recs, s')"
    "reads_of (scan_room s1 bp) (y # ys) recs" "same_file bp s1 s'" "store_ok s' bp" "evictable s'"
    using Cons.IH [OF f(3)] Cons.prems(2) same_file_records(3) [OF sf] by blast
  have "scan_loop s bp flt vis (nat len) sc acc = scan_loop s1 bp flt vis (nat len) sc' (acc @ [?r])"
    using d(2) [OF same_file_refl] f(1) by (subst scan_loop.simps) (simp add: RecordFileScanner_has_next_def RecordFileScanner_next_def)
  moreover have "?r = x" if "scan_room s bp"
    using d(1,3) [OF sf] d(4) [OF same_file_refl refl] f(2) that by (cases x) (auto simp: moved_def cache_kept_def)
  moreover have "?r = x" if "rid_page (fst y) = rid_page (fst x)"
    using fetch_next_ok(2) [OF Cons.prems(1) assms(2) refl that] f(1) d(1,3) [OF same_file_refl refl] by (cases x) auto
  ultimately have "reads_of (scan_room s bp) (x # y # ys) (?r # recs)"
    using r(2) d(1) [OF same_file_refl] f(2) by (intro reads_of_Cons [of "scan_room s1 bp"]) (auto simp: moved_def)
  with \<open>scan_loop s bp flt vis (nat len) sc acc = _\<close> show ?case
    using r(1,4,5) same_file_trans [OF sf r(3)] by (intro exI [of _ "?r # recs"] exI [of _ s']) simp
qed

lemma data_pages_sorted: "sorted_wrt (<) (data_pages s bp)" "distinct (data_pages s bp)"
  unfolding data_pages_def by (rule sorted_wrt_filter) simp_all

lemma scan_file_ok:
  assumes "store_ok s bp" "evictable s" "records_ok s bp len" "visit_total vis"
  shows "\<exists>recs s'. scan_file s bp flt vis (nat len) = Some (SUCCESS, recs, s') \<and>
    reads_of (scan_room s bp) (pages_recs flt vis (page_mem s bp) (data_pages s bp)) recs \<and>
    same_file bp s s' \<and> store_ok s' bp \<and> evictable s'"
proof -
  let ?sc = "new_scanner\<lparr>sc_bp_it := BufferPoolIterator_init s bp 0\<rparr>" and ?rs = "pages_recs flt vis (page_mem s bp) (data_pages s bp)"
  have new: "sc_handler new_scanner = None" "sc_page_it new_scanner = None" "new_scanner\<lparr>sc_handler := None\<rparr> = new_scanner"
    by (simp_all add: new_scanner_def)
  have left: "pages_left s bp (sc_bp_it ?sc) (data_pages s bp)"
    using iterate_data_pages [of s bp] assms(1) by (simp add: pages_left_def data_pages_iff data_pages_sorted)
  have res: "scan_result s bp flt vis ?rs (fetch_pages s bp flt vis ?sc)"
    using assms left new by (intro fetch_pages_ok) (simp_all add: handler_ok_def RecordPageHandler_cleanup_def)
  have run: "scan_file s bp flt vis (nat len) = do { (rc, sc, s) \<leftarrow> fetch_pages s bp flt vis ?sc;
      let rc = (if rc = RECORD_EOF then SUCCESS else rc);
      if rc \<noteq> SUCCESS then Some (rc, [], s) else scan_loop s bp flt vis (nat len) sc [] }"
    by (cases "fetch_pages s bp flt vis ?sc")
      (auto simp: scan_file_def RecordFileScanner_open_scan_def RecordFileScanner_close_scan_def fetch_next_record_def new RecordPageHandler_cleanup_def)
  show ?thesis
  proof (cases ?rs)
    case Nil
    then obtain sc' s' where f: "fetch_pages s bp flt vis ?sc = Some (RECORD_EOF, sc', s')" "moved bp s s'" "scan_done s' bp sc'"
      using res by (auto simp: scan_result_def)
    have "scan_loop s' bp flt vis (nat len) sc' [] = Some (SUCCESS, [], s')"
      using f(3) by (subst scan_loop.simps)
        (simp add: scan_done_def RecordFileScanner_has_next_def RecordFileScanner_close_scan_def RecordPageHandler_cleanup_def)
    then show ?thesis using run f Nil by (simp add: scan_done_def moved_same)
  next
    case (Cons x rs)
    then obtain sc' s1 where f: "fetch_pages s bp flt vis ?sc = Some (SUCCESS, sc', s1)" "moved bp s s1" "scan_at s1 bp flt vis sc' x rs"
      using res by (auto simp: scan_result_def)
    note sf = moved_same [OF f(2)]
    obtain recs s' where r: "scan_loop s1 bp flt vis (nat len) sc' [] = Some (SUCCESS, recs, s')" "reads_of (scan_room s1 bp) (x # rs) recs"
      "same_file bp s1 s'" "store_ok s' bp" "evictable s'"
      using scan_loop_ok [OF f(3) assms(4), of len "[]"] assms(3) same_file_records(3) [OF sf] by auto
    have "reads_of (scan_room s bp) (x # rs) recs" using r(2) f(2) by (auto simp: reads_of_def moved_def)
    then show ?thesis using run f(1) r Cons same_file_trans [OF sf r(3)] by auto
  qed
qed


section \<open>Properties\<close>

definition rid_before :: "RID \<Rightarrow> RID \<Rightarrow> bool" where
  "rid_before a b \<longleftrightarrow> rid_page a < rid_page b \<or> rid_page a = rid_page b \<and> rid_slot a < rid_slot b"

lemma page_recs_sorted: "sorted_wrt rid_before (map fst (page_recs flt vis m n k))"
proof -
  have "sorted_wrt (\<lambda>r r'. rid_before (fst r) (fst r'))
      (map (\<lambda>i. (\<lparr>rid_page = n, rid_slot = i\<rparr>, read_bytes m (get_record_data m i) (nat (ph_record_real_size m)))) (filter (page_used m) [k..<page_cap m]))"
    unfolding sorted_wrt_map by (rule sorted_wrt_filter) (auto simp: rid_before_def sorted_wrt_iff_nth_less)
  from sorted_wrt_filter [OF this] show ?thesis by (simp add: page_recs_def sorted_wrt_map)
qed

lemma pages_recs_sorted: "sorted_wrt (<) ns \<Longrightarrow> sorted_wrt rid_before (map fst (pages_recs flt vis mm ns))"
proof (induction ns)
  case (Cons n ns)
  have "rid_before (fst r) (fst r')" if "r \<in> set (page_recs flt vis (mm n) n 0)" "r' \<in> set (pages_recs flt vis mm ns)" for r r'
    using that Cons.prems page_recs_page [of r flt vis "mm n" n 0] pages_recs_page [of r' flt vis mm ns] by (auto simp: rid_before_def)
  moreover have "pages_recs flt vis mm (n # ns) = page_recs flt vis (mm n) n 0 @ pages_recs flt vis mm ns" by (simp add: pages_recs_def)
  ultimately show ?case using Cons page_recs_sorted [of flt vis "mm n" n 0] by (auto simp: sorted_wrt_append)
qed (simp add: pages_recs_def)

lemma page_recs_set:
  "set (page_recs flt vis m n 0) = {(rid, d). rid_page rid = n \<and> page_slots m (rid_slot rid) = Some d \<and> scan_accepts flt vis rid d}"
proof -
  have "i < page_cap m" if "page_slots m i = Some d" for i d using that by (auto simp: page_slots_def split: if_splits)
  then show ?thesis
    unfolding page_recs_slots by (auto simp: image_iff) (metis RID.surjective old.unit.exhaust option.sel)
qed

lemma pages_recs_set:
  "set (pages_recs flt vis (page_mem s bp) (data_pages s bp)) = {(rid, d). file_records s bp rid = Some d \<and> scan_accepts flt vis rid d}"
  by (auto simp: pages_recs_def page_recs_set data_pages_iff file_records_def split: if_splits)

text \<open>
  C24: opening a file finds exactly the pages that have room for another record, and changes no page.
\<close>

theorem init_finds_free_pages:
  assumes "file_ready s bp len free"
  shows "\<exists>free' s'. RecordFileHandler_init s bp = Some (SUCCESS, free', s') \<and> file_ready s' bp len free' \<and> same_file bp s s' \<and>
    (\<forall>n. n \<in> set free' \<longleftrightarrow> n \<noteq> 0 \<and> pool_allocated s bp n \<and> ph_record_num (page_mem s bp n) < ph_record_capacity (page_mem s bp n))"
proof -
  have s: "store_ok s bp" "evictable s" "records_ok s bp len" using assms by (simp_all add: file_ready_def)
  have "\<forall>n \<in> set (data_pages s bp). n \<noteq> 0 \<and> pool_allocated s bp n" by (simp add: data_pages_iff)
  then obtain free' s' where f: "init_free_loop s bp (BufferPoolIterator_init s bp 0) [] = Some (SUCCESS, free', s')" "store_ok s' bp"
    "evictable s'" "same_file bp s s'" "set free' = {n \<in> set (data_pages s bp). \<not> is_full (page_mem s bp n)}"
    using init_free_loop_ok [OF s(1,2) iterate_data_pages [OF conjunct1 [OF s(1)]], of "[]"] unfolding list.set(1) Un_empty_left by blast
  have "file_ready s' bp len free'"
    using f(2,3,5) s(3) by (auto simp: file_ready_def free_ok_def same_file_records [OF f(4)] same_file_allocated [OF f(4)] data_pages_iff)
  moreover have "RecordFileHandler_init s bp = Some (SUCCESS, free', s')" using f(1) by (simp add: RecordFileHandler_init_def)
  moreover have "n \<in> set free' \<longleftrightarrow> n \<noteq> 0 \<and> pool_allocated s bp n \<and> ph_record_num (page_mem s bp n) < ph_record_capacity (page_mem s bp n)" for n
    unfolding f(5) by (auto simp: data_pages_iff is_full_def)
  ultimately show ?thesis using f(4) by blast
qed

theorem init_finds_free_pages_witness:
  "\<exists>free' s'. RecordFileHandler_init opened_sys opened_bp = Some (SUCCESS, free', s') \<and> free' = []"
proof -
  obtain free' s' where f: "RecordFileHandler_init opened_sys opened_bp = Some (SUCCESS, free', s')"
    "\<forall>n. n \<in> set free' \<longleftrightarrow> n \<noteq> 0 \<and> pool_allocated opened_sys opened_bp n \<and>
       ph_record_num (page_mem opened_sys opened_bp n) < ph_record_capacity (page_mem opened_sys opened_bp n)"
    using init_finds_free_pages [OF opened_ready, of 4] by (elim exE conjE)
  have "n \<notin> set free'" for n using f(2) [rule_format, of n] opened_empty [of n] by (cases "n = 0") simp_all
  then have "free' = []" by (cases free') auto
  then show ?thesis using f(1) by simp
qed

text \<open>
  C8: a scan of a whole file ends, releases every page it used and changes none, and hands out exactly
  the identifiers of the records that are stored in the file, pass the filter and are visible to the
  transaction, each once, in the order of pages and slots. The client follows a record's pointer when
  \<open>next\<close> has returned, and \<open>next\<close> has by then looked for the following record: the bytes the client
  reads are those stored under the identifier whenever the following record is in the same page, and for
  all records when the free frames suffice for the pages of the file that are not cached. Without that
  the frame of the last record of a page may have been reused.
\<close>

theorem scan_file_complete:
  assumes "file_ready s bp len free" "visit_total vis"
  shows "\<exists>recs s'. scan_file s bp flt vis (nat len) = Some (SUCCESS, recs, s') \<and> file_ready s' bp len free \<and> same_file bp s s' \<and>
    fst ` set recs = {rid. \<exists>d. file_records s bp rid = Some d \<and> scan_accepts flt vis rid d} \<and>
    sorted_wrt rid_before (map fst recs) \<and>
    (\<forall>i. Suc i < length recs \<and> rid_page (fst (recs ! i)) = rid_page (fst (recs ! Suc i)) \<longrightarrow>
       file_records s bp (fst (recs ! i)) = Some (snd (recs ! i))) \<and>
    (scan_room s bp \<longrightarrow> (\<forall>(rid, d) \<in> set recs. file_records s bp rid = Some d))"
proof -
  let ?rs = "pages_recs flt vis (page_mem s bp) (data_pages s bp)"
  have s: "store_ok s bp" "evictable s" "records_ok s bp len" using assms(1) by (simp_all add: file_ready_def)
  obtain recs s' where f: "scan_file s bp flt vis (nat len) = Some (SUCCESS, recs, s')" "reads_of (scan_room s bp) ?rs recs"
    "same_file bp s s'" "store_ok s' bp" "evictable s'"
    using scan_file_ok [OF s assms(2)] by blast
  have r: "map fst recs = map fst ?rs" "scan_room s bp \<longrightarrow> recs = ?rs"
    "\<And>i. Suc i < length ?rs \<Longrightarrow> rid_page (fst (?rs ! i)) = rid_page (fst (?rs ! Suc i)) \<Longrightarrow> recs ! i = ?rs ! i"
    using f(2) by (auto simp: reads_of_def)
  have len: "length recs = length ?rs" using arg_cong [OF r(1), of length] by simp
  have nth: "fst (recs ! i) = fst (?rs ! i)" if "i < length recs" for i
    using arg_cong [OF r(1), of "\<lambda>xs. xs ! i"] that len by simp
  have "fst ` set recs = fst ` set ?rs" using arg_cong [OF r(1), of set] by simp
  then have "fst ` set recs = {rid. \<exists>d. file_records s bp rid = Some d \<and> scan_accepts flt vis rid d}"
    unfolding pages_recs_set by (auto simp: image_iff)
  moreover have "sorted_wrt rid_before (map fst recs)" unfolding r(1) by (rule pages_recs_sorted) (rule data_pages_sorted)
  moreover have "file_records s bp (fst (recs ! i)) = Some (snd (recs ! i))"
    if "Suc i < length recs" "rid_page (fst (recs ! i)) = rid_page (fst (recs ! Suc i))" for i
  proof -
    have "recs ! i = ?rs ! i" using that nth [of i] nth [of "Suc i"] len by (intro r(3)) simp_all
    then have "recs ! i \<in> set ?rs" using that(1) len by simp
    then show ?thesis unfolding pages_recs_set by auto
  qed
  moreover have "scan_room s bp \<longrightarrow> (\<forall>(rid, d) \<in> set recs. file_records s bp rid = Some d)"
    using r(2) pages_recs_set [of flt vis s bp] by (auto simp del: split_paired_All)
  ultimately show ?thesis using f(1) file_ready_same [OF assms(1) f(3-5)] f(3) by blast
qed

text \<open>A file with one record whose page is cached.\<close>

lemma opened_scan:
  "\<exists>rid free s. file_ready s opened_bp 4 free \<and> file_records s opened_bp = [rid \<mapsto> [1, 2, 3, 4]] \<and> scan_room s opened_bp"
proof -
  obtain rid free s where s: "file_ready s opened_bp 4 free" "file_records s opened_bp = [rid \<mapsto> [1, 2, 3, 4]]"
    "\<And>j. pool_allocated s opened_bp j \<Longrightarrow> j = 0 \<or> j = rid_page rid"
    using opened_record by blast
  have v: "rid_page rid \<noteq> 0" "pool_allocated s opened_bp (rid_page rid)"
    using stored_valid [of s opened_bp rid] s(2) by (simp_all add: rid_valid_def)
  have ok: "store_ok s opened_bp" "evictable s" using s(1) by (simp_all add: file_ready_def)
  obtain p s1 where g: "store_ok s1 opened_bp" "frame_held s1 opened_bp (rid_page rid) p" "same_file opened_bp s s1" "evictable (release s1 p)"
    using fetch_page [OF ok v(1) allocated_len [OF v(2)]] by blast
  note r = release_page [OF g(1,2)]
  note sf = same_file_trans [OF g(3) r(2)]
  have "cached (release s1 p) (bp_fd opened_bp) (rid_page rid) \<noteq> None"
    using g(2) by (simp add: frame_held_def unpin_page_def cached_def)
  moreover have "x = rid_page rid" if "x \<in> set (data_pages s opened_bp)" for x
    using that s(3) [of x] by (simp add: data_pages_iff)
  ultimately have "filter (\<lambda>n. cached (release s1 p) (bp_fd opened_bp) n = None) (data_pages s opened_bp) = []"
    unfolding filter_empty_conv by blast
  then have "scan_room (release s1 p) opened_bp" by (simp add: scan_room_def data_pages_same [OF sf])
  then show ?thesis using file_ready_same [OF s(1) sf r(1) g(4)] s(2) same_file_records(2) [OF sf] by auto
qed

theorem scan_file_complete_witness:
  "\<exists>s rid s'. scan_file s opened_bp None (Some (\<lambda>_ _. SUCCESS)) 4 = Some (SUCCESS, [(rid, [1, 2, 3, 4])], s')"
proof -
  obtain rid free s where s: "file_ready s opened_bp 4 free" "file_records s opened_bp = [rid \<mapsto> [1, 2, 3, 4]]" "scan_room s opened_bp"
    using opened_scan by blast
  have "visit_total (Some (\<lambda>_ _. SUCCESS))" by (simp add: visit_total_def)
  then obtain recs s' where r: "scan_file s opened_bp None (Some (\<lambda>_ _. SUCCESS)) (nat 4) = Some (SUCCESS, recs, s')"
      "fst ` set recs = {r. \<exists>d. file_records s opened_bp r = Some d \<and> scan_accepts None (Some (\<lambda>_ _. SUCCESS)) r d}"
      "sorted_wrt rid_before (map fst recs)" "scan_room s opened_bp \<longrightarrow> (\<forall>(rid, d) \<in> set recs. file_records s opened_bp rid = Some d)"
    using scan_file_complete [OF s(1), of "Some (\<lambda>_ _. SUCCESS)" None] by (elim meta_impE exE conjE)
  have im: "fst ` set recs = {rid}" unfolding r(2) s(2) by (auto simp: scan_accepts_def split: if_splits)
  obtain rec rest where rec: "recs = rec # rest" using im by (cases recs) auto
  have "rest = []"
  proof (rule ccontr)
    assume "rest \<noteq> []"
    then obtain r' where "r' \<in> set rest" by (meson last_in_set)
    then have "rid_before (fst rec) (fst r')" "fst r' = fst rec" using r(3) im rec by auto
    then show False by (simp add: rid_before_def)
  qed
  moreover have "rec = (rid, [1, 2, 3, 4])" using r(4) s(2,3) im rec by (cases rec) auto
  ultimately have "scan_file s opened_bp None (Some (\<lambda>_ _. SUCCESS)) 4 = Some (SUCCESS, [(rid, [1, 2, 3, 4])], s')"
    using r(1) rec by simp
  then show ?thesis by blast
qed

end
