(* ===== verification/RecordStore.thy ===== *)
theory RecordStore
  imports RecordFileInv
begin

text \<open>
  The contract of a record file and its refinement: clients see a set of pages and a map from record
  identifiers to records; every operation of \<open>RecordFileHandler\<close> behaves on it as specified below,
  whatever the client does next. \<open>run\<close> drives the operations by a client that chooses each operation
  from the results so far.
\<close>

section \<open>What a record file promises\<close>

datatype rec_op = InsertOp "byte list" | UpdateOp RID "byte list" | DeleteOp RID | GetOp RID

datatype rec_res = Refused RC | Stored RID | Done | Found "byte list"

record FileSpec =
  fs_pages :: "PageNum set"
  fs_recs :: "RID \<rightharpoonup> byte list"

fun rec_spec :: "FileSpec \<Rightarrow> rec_op \<Rightarrow> rec_res \<Rightarrow> FileSpec \<Rightarrow> bool" where
  "rec_spec a (InsertOp d) (Stored rid) a' \<longleftrightarrow> fs_recs a rid = None \<and> fs_recs a' = (fs_recs a)(rid \<mapsto> d) \<and>
     fs_pages a \<subseteq> fs_pages a' \<and> rid_page rid \<in> fs_pages a'"
| "rec_spec a (InsertOp d) (Refused rc) a' \<longleftrightarrow> rc = BUFFERPOOL_NOBUF \<and> fs_pages a = {1..<MAX_PAGE_NUM} \<and> a' = a"
| "rec_spec a (UpdateOp rid d) Done a' \<longleftrightarrow> fs_recs a rid \<noteq> None \<and> a' = a\<lparr>fs_recs := (fs_recs a)(rid \<mapsto> d)\<rparr>"
| "rec_spec a (UpdateOp rid d) (Refused rc) a' \<longleftrightarrow> fs_recs a rid = None \<and> rc \<in> {RECORD_NOT_EXIST, INVALID_ARGUMENT} \<and> a' = a"
| "rec_spec a (DeleteOp rid) Done a' \<longleftrightarrow> fs_recs a rid \<noteq> None \<and> a' = a\<lparr>fs_recs := (fs_recs a)(rid := None)\<rparr>"
| "rec_spec a (DeleteOp rid) (Refused rc) a' \<longleftrightarrow> fs_recs a rid = None \<and> rc \<in> {RECORD_NOT_EXIST, INVALID_ARGUMENT} \<and> a' = a"
| "rec_spec a (GetOp rid) (Found d) a' \<longleftrightarrow> fs_recs a rid = Some d \<and> a' = a"
| "rec_spec a (GetOp rid) (Refused rc) a' \<longleftrightarrow> fs_recs a rid = None \<and> rc \<in> {RECORD_NOT_EXIST, RECORD_INVALID_RID} \<and> a' = a"
| "rec_spec a _ _ a' \<longleftrightarrow> False"

text \<open>A record has the record length of the file and an identifier lies in a page of the file.\<close>

fun rec_legal :: "nat \<Rightarrow> PageNum set \<Rightarrow> rec_op \<Rightarrow> bool" where
  "rec_legal len pages (InsertOp d) \<longleftrightarrow> length d = len"
| "rec_legal len pages (UpdateOp rid d) \<longleftrightarrow> length d = len \<and> rid_page rid \<in> pages"
| "rec_legal len pages (DeleteOp rid) \<longleftrightarrow> rid_page rid \<in> pages"
| "rec_legal len pages (GetOp rid) \<longleftrightarrow> rid_page rid \<in> pages"

lemma rec_legal_mono: "rec_legal len pages opr \<Longrightarrow> pages \<subseteq> pages' \<Longrightarrow> rec_legal len pages' opr"
  by (cases opr) auto

lemma rec_spec_pages: "rec_spec a opr r a' \<Longrightarrow> fs_pages a \<subseteq> fs_pages a'"
  by (cases opr; cases r) auto

lemma rec_spec_stored: "rec_spec a opr (Stored rid) a' \<Longrightarrow> rid_page rid \<in> fs_pages a'"
  by (cases opr) auto

primrec run :: "(rec_res list \<Rightarrow> rec_op) \<Rightarrow> ('s \<Rightarrow> rec_op \<Rightarrow> (rec_res \<times> 's) option) \<Rightarrow> nat \<Rightarrow> 's \<Rightarrow> rec_res list \<Rightarrow> (rec_res list \<times> 's) option" where
  "run client step 0 s h = Some (h, s)"
| "run client step (Suc k) s h = (case step s (client h) of None \<Rightarrow> None | Some (r, s') \<Rightarrow> run client step k s' (h @ [r]))"

text \<open>The same run on the specification.\<close>

inductive spec_run :: "(rec_res list \<Rightarrow> rec_op) \<Rightarrow> FileSpec \<Rightarrow> rec_res list \<Rightarrow> FileSpec \<Rightarrow> rec_res list \<Rightarrow> bool" for client where
  refl: "spec_run client a h a h"
| step: "rec_spec a (client h) r a' \<Longrightarrow> spec_run client a' (h @ [r]) a'' h'' \<Longrightarrow> spec_run client a h a'' h''"

inductive_cases spec_run_cases: "spec_run client a h a' h'"

lemma spec_run_prefix: "spec_run client a h a' h' \<Longrightarrow> \<exists>rs. h' = h @ rs"
  by (induction rule: spec_run.induct) auto

text \<open>A client that only uses identifiers of pages it knows: those of the file at the start, and of records it stored.\<close>

definition client_legal :: "nat \<Rightarrow> PageNum set \<Rightarrow> (rec_res list \<Rightarrow> rec_op) \<Rightarrow> bool" where
  "client_legal len pages client \<longleftrightarrow>
     (\<forall>h. rec_legal len (pages \<union> {n. \<exists>rid. Stored rid \<in> set h \<and> n = rid_page rid}) (client h))"

locale record_store =
  fixes inv :: "'s \<Rightarrow> bool"
    and abs :: "'s \<Rightarrow> FileSpec"
    and rec_len :: nat
    and step :: "'s \<Rightarrow> rec_op \<Rightarrow> (rec_res \<times> 's) option"
  assumes step_ok: "inv s \<Longrightarrow> rec_legal rec_len (fs_pages (abs s)) opr \<Longrightarrow>
    \<exists>r s'. step s opr = Some (r, s') \<and> inv s' \<and> rec_spec (abs s) opr r (abs s')"
begin

lemma insert_then_get:
  assumes "inv s" "length d = rec_len" "step s (InsertOp d) = Some (Stored rid, s1)"
  shows "\<exists>s2. step s1 (GetOp rid) = Some (Found d, s2) \<and> abs s2 = abs s1"
proof -
  have s1: "inv s1" "rec_spec (abs s) (InsertOp d) (Stored rid) (abs s1)" using step_ok [OF assms(1), of "InsertOp d"] assms(2,3) by auto
  then obtain r s2 where "step s1 (GetOp rid) = Some (r, s2)" "rec_spec (abs s1) (GetOp rid) r (abs s2)"
    using step_ok [OF s1(1), of "GetOp rid"] by auto
  with s1(2) show ?thesis by (cases r) auto
qed

lemma delete_then_get:
  assumes "inv s" "rid_page rid \<in> fs_pages (abs s)" "step s (DeleteOp rid) = Some (r, s1)"
  shows "\<exists>rc s2. step s1 (GetOp rid) = Some (Refused rc, s2) \<and> rc \<in> {RECORD_NOT_EXIST, RECORD_INVALID_RID}"
proof -
  have s1: "inv s1" "rec_spec (abs s) (DeleteOp rid) r (abs s1)" using step_ok [OF assms(1), of "DeleteOp rid"] assms(2,3) by auto
  then have m: "fs_recs (abs s1) rid = None" "rid_page rid \<in> fs_pages (abs s1)" using assms(2) by (cases r; simp)+
  then obtain r' s2 where "step s1 (GetOp rid) = Some (r', s2)" "rec_spec (abs s1) (GetOp rid) r' (abs s2)"
    using step_ok [OF s1(1), of "GetOp rid"] by auto
  with m show ?thesis by (cases r') auto
qed

lemma run_ok:
  assumes "inv s" "client_legal rec_len pages client" "pages \<subseteq> fs_pages (abs s)" "\<forall>rid. Stored rid \<in> set h \<longrightarrow> rid_page rid \<in> fs_pages (abs s)"
  shows "\<exists>rs s'. run client step k s h = Some (h @ rs, s') \<and> length rs = k \<and> inv s' \<and> spec_run client (abs s) h (abs s') (h @ rs)"
  using assms
proof (induction k arbitrary: s h)
  case 0
  then show ?case by (auto intro: spec_run.refl)
next
  case (Suc k)
  have "rec_legal rec_len (pages \<union> {n. \<exists>rid. Stored rid \<in> set h \<and> n = rid_page rid}) (client h)"
    using Suc.prems(2) by (simp add: client_legal_def)
  then have "rec_legal rec_len (fs_pages (abs s)) (client h)" by (rule rec_legal_mono) (use Suc.prems(3,4) in auto)
  then obtain r s1 where s1: "step s (client h) = Some (r, s1)" "inv s1" "rec_spec (abs s) (client h) r (abs s1)"
    using step_ok [OF Suc.prems(1)] by blast
  note pg = rec_spec_pages [OF s1(3)]
  have sub: "pages \<subseteq> fs_pages (abs s1)" using pg Suc.prems(3) by simp
  have "\<forall>rid. Stored rid \<in> set (h @ [r]) \<longrightarrow> rid_page rid \<in> fs_pages (abs s1)"
    using pg Suc.prems(4) rec_spec_stored [of "abs s" "client h" _ "abs s1"] s1(3) by auto
  then obtain rs s' where "run client step k s1 (h @ [r]) = Some ((h @ [r]) @ rs, s')" "length rs = k" "inv s'"
    "spec_run client (abs s1) (h @ [r]) (abs s') ((h @ [r]) @ rs)"
    using Suc.IH [OF s1(2) Suc.prems(2) sub] by blast
  then show ?case using s1(1) spec_run.step [where client = client, of "abs s" h r "abs s1"] s1(3) by (intro exI [of _ "r # rs"] exI [of _ s']) simp
qed

end


section \<open>The record file keeps it\<close>

definition file_abs :: "DiskBufferPool \<Rightarrow> Sys \<times> PageNum list \<Rightarrow> FileSpec" where
  "file_abs bp st = \<lparr>fs_pages = {n. n \<noteq> 0 \<and> pool_allocated (fst st) bp n}, fs_recs = file_records (fst st) bp\<rparr>"

definition file_inv :: "DiskBufferPool \<Rightarrow> int \<Rightarrow> Sys \<times> PageNum list \<Rightarrow> bool" where
  "file_inv bp len st \<longleftrightarrow> file_ready (fst st) bp len (snd st) \<and> 0 < len \<and> len \<le> 524256"

text \<open>The calls of a client: a lookup ends with the cleanup of the client's page handler.\<close>

fun exec_op :: "DiskBufferPool \<Rightarrow> int \<Rightarrow> Sys \<times> PageNum list \<Rightarrow> rec_op \<Rightarrow> (rec_res \<times> Sys \<times> PageNum list) option" where
  "exec_op bp len (s, free) (InsertOp d) =
     do { (r, free, s) \<leftarrow> RecordFileHandler_insert_record s bp free d len;
          Some (case r of Inl rc \<Rightarrow> Refused rc | Inr rid \<Rightarrow> Stored rid, s, free) }"
| "exec_op bp len (s, free) (UpdateOp rid d) =
     do { (rc, s) \<leftarrow> RecordFileHandler_update_record s bp d rid; Some (if rc = SUCCESS then Done else Refused rc, s, free) }"
| "exec_op bp len (s, free) (DeleteOp rid) =
     do { (rc, free, s) \<leftarrow> RecordFileHandler_delete_record s bp free rid; Some (if rc = SUCCESS then Done else Refused rc, s, free) }"
| "exec_op bp len (s, free) (GetOp rid) =
     do { (r, h, s) \<leftarrow> RecordFileHandler_get_record s bp None rid;
          Some (case r of Inl rc \<Rightarrow> Refused rc | Inr d \<Rightarrow> Found d, RecordPageHandler_cleanup s h, free) }"

lemma valid_page: "rid_page rid \<in> fs_pages (file_abs bp (s, free)) \<longleftrightarrow> rid_valid s bp rid"
  by (simp add: file_abs_def rid_valid_def)

lemma file_abs_full: "(\<forall>j < MAX_PAGE_NUM. pool_allocated s bp j) \<Longrightarrow> pool_ok s bp \<Longrightarrow> fs_pages (file_abs bp (s, free)) = {1..<MAX_PAGE_NUM}"
  using allocated_len [of s bp] pool_okD(5) [of s bp] by (fastforce simp: file_abs_def hdr_ok_def)

lemma exec_insert:
  assumes "file_inv bp len (s, free)" "length d = nat len"
  shows "\<exists>r s'. exec_op bp len (s, free) (InsertOp d) = Some (r, s') \<and> file_inv bp len s' \<and>
    rec_spec (file_abs bp (s, free)) (InsertOp d) r (file_abs bp s')"
proof -
  have i: "file_ready s bp len free" "0 < len" "len \<le> 524256" using assms(1) by (simp_all add: file_inv_def)
  obtain r free' s' where x: "RecordFileHandler_insert_record s bp free d len = Some (r, free', s')" "file_ready s' bp len free'"
    "\<forall>j. pool_allocated s bp j \<longrightarrow> pool_allocated s' bp j"
    "case r of Inl rc \<Rightarrow> rc = BUFFERPOOL_NOBUF \<and> (\<forall>j < MAX_PAGE_NUM. pool_allocated s bp j) \<and> file_records s' bp = file_records s bp
     | Inr rid \<Rightarrow> file_records s bp rid = None \<and> file_records s' bp = (file_records s bp)(rid \<mapsto> d)"
    using insert_record_ok [OF i assms(2)] by blast
  have inv': "file_inv bp len (s', free')" using x(2) i by (simp add: file_inv_def)
  show ?thesis
  proof (cases r)
    case (Inl rc)
    have full: "\<forall>j < MAX_PAGE_NUM. pool_allocated s bp j" using x(4) Inl by simp
    have p: "pool_ok s bp" "pool_ok s' bp" using i(1) x(2) by (simp_all add: file_ready_def)
    have "fs_pages (file_abs bp (s, free)) = {1..<MAX_PAGE_NUM}" "fs_pages (file_abs bp (s', free')) = {1..<MAX_PAGE_NUM}"
      using file_abs_full full x(3) p by blast+
    then show ?thesis using x(1,4) Inl inv' by (simp add: file_abs_def)
  next
    case (Inr rid)
    then have "file_records s' bp rid = Some d" using x(4) by simp
    then have "rid_valid s' bp rid" by (auto simp: rid_valid_def file_records_def split: if_splits)
    then show ?thesis using x(1,3,4) Inr inv' by (auto simp: file_abs_def rid_valid_def)
  qed
qed

lemma exec_other:
  assumes inv: "file_inv bp len (s, free)" and l: "rec_legal (nat len) (fs_pages (file_abs bp (s, free))) opr"
    and o: "\<And>d. opr \<noteq> InsertOp d"
  shows "\<exists>r s'. exec_op bp len (s, free) opr = Some (r, s') \<and> file_inv bp len s' \<and> rec_spec (file_abs bp (s, free)) opr r (file_abs bp s')"
proof -
  have i: "file_ready s bp len free" "0 < len" "len \<le> 524256" using inv by (simp_all add: file_inv_def)
  show ?thesis
  proof (cases opr)
    case (UpdateOp rid d)
    then have v: "rid_valid s bp rid" "length d = nat len" using l by (simp_all add: valid_page)
    show ?thesis using update_record_ok [OF i(1) v] UpdateOp i
      by (cases "file_records s bp rid = None") (auto simp: file_abs_def file_inv_def)
  next
    case (DeleteOp rid)
    then have v: "rid_valid s bp rid" using l by (simp add: valid_page)
    show ?thesis using delete_record_ok [OF i(1) v] DeleteOp i
      by (cases "file_records s bp rid = None") (auto simp: file_abs_def file_inv_def)
  next
    case (GetOp rid)
    then have v: "rid_valid s bp rid" using l by (simp add: valid_page)
    obtain res p s' where g: "RecordFileHandler_get_record s bp None rid = Some (res, Some p, s')" "same_file bp s (release s' p)"
      "file_ready (release s' p) bp len free"
      "case file_records s bp rid of Some d \<Rightarrow> res = Inr d | None \<Rightarrow> res \<in> {Inl RECORD_NOT_EXIST, Inl RECORD_INVALID_RID}"
      using get_record_ok [OF i(1) v] by blast
    have same: "file_abs bp (release s' p, free) = file_abs bp (s, free)"
      by (simp add: file_abs_def same_file_records [OF g(2)] same_file_allocated [OF g(2)])
    have inv': "file_inv bp len (release s' p, free)" using g(3) i(2,3) by (simp add: file_inv_def)
    have "exec_op bp len (s, free) opr = Some (case res of Inl rc \<Rightarrow> Refused rc | Inr d \<Rightarrow> Found d, release s' p, free)"
      using g(1) GetOp by (simp add: RecordPageHandler_cleanup_def)
    moreover have "rec_spec (file_abs bp (s, free)) opr (case res of Inl rc \<Rightarrow> Refused rc | Inr d \<Rightarrow> Found d) (file_abs bp (release s' p, free))"
      unfolding same GetOp using g(4) by (cases "file_records s bp rid") (auto simp: file_abs_def)
    ultimately show ?thesis using inv' by blast
  qed (use o in simp)
qed

interpretation rec_file: record_store "file_inv bp len" "file_abs bp" "nat len" "exec_op bp len" for bp len
proof
  fix s opr
  assume a: "file_inv bp len s" "rec_legal (nat len) (fs_pages (file_abs bp s)) opr"
  obtain s0 free where s: "s = (s0, free)" by fastforce
  show "\<exists>r s'. exec_op bp len s opr = Some (r, s') \<and> file_inv bp len s' \<and> rec_spec (file_abs bp s) opr r (file_abs bp s')"
  proof (cases "\<exists>d. opr = InsertOp d")
    case True
    then show ?thesis using exec_insert a unfolding s by fastforce
  next
    case False
    then show ?thesis using exec_other a unfolding s by blast
  qed
qed



section \<open>Properties\<close>

text \<open>
  C1: a record file refines a map from record identifiers to records. Whatever a client does, choosing
  each operation from the results so far, every operation returns, and the whole run is a run of the
  specification \<open>rec_spec\<close> on the pages and records of the file: a stored record gets an identifier
  that was free, an update or deletion of a record that is not there is refused and changes nothing, a
  lookup returns the record stored last, and an insertion is refused only when the file has reached
  its largest size.
\<close>

theorem record_file_refines_map:
  assumes "file_inv bp len (s, free)" "client_legal (nat len) pages client" "pages \<subseteq> fs_pages (file_abs bp (s, free))"
  shows "\<exists>rs s'. run client (exec_op bp len) k (s, free) [] = Some (rs, s') \<and> length rs = k \<and> file_inv bp len s' \<and>
    spec_run client (file_abs bp (s, free)) [] (file_abs bp s') rs"
  using rec_file.run_ok [OF assms, of "[]" k] by simp

definition demo_client :: "rec_res list \<Rightarrow> rec_op" where
  "demo_client h = (case h of Stored rid # _ \<Rightarrow> GetOp rid | _ \<Rightarrow> InsertOp [1, 2, 3, 4])"

theorem record_file_refines_map_witness:
  "\<exists>rs s'. run demo_client (exec_op opened_bp 4) 2 (opened_sys, []) [] = Some (rs, s') \<and> length rs = 2 \<and>
     spec_run demo_client (file_abs opened_bp (opened_sys, [])) [] (file_abs opened_bp s') rs"
proof -
  have "client_legal (nat 4) {} demo_client" by (auto simp: client_legal_def demo_client_def split: list.split rec_res.split)
  moreover have "file_inv opened_bp 4 (opened_sys, [])" using opened_ready by (simp add: file_inv_def)
  ultimately show ?thesis using record_file_refines_map [of opened_bp 4 opened_sys "[]" "{}" demo_client 2] by (elim meta_impE) auto
qed

text \<open>
  A record of more than 524256 bytes does not fit a page, and no insertion stores it: each attempt
  adds a page without room to the file and is refused with \<open>RECORD_NOMEM\<close>, leaving the records as they were.
\<close>

lemma insert_too_large:
  assumes "file_ready s bp len []" "524256 < len" "len \<le> 2147483640" "\<exists>j < MAX_PAGE_NUM. \<not> pool_allocated s bp j"
  shows "\<exists>n s'. RecordFileHandler_insert_record s bp [] data len = Some (Inl RECORD_NOMEM, [n], s') \<and>
    \<not> pool_allocated s bp n \<and> (\<forall>j. pool_allocated s' bp j \<longleftrightarrow> j = n \<or> pool_allocated s bp j) \<and>
    file_records s' bp = file_records s bp \<and> file_ready s' bp len [n]"
proof -
  have s: "store_ok s bp" "evictable s" "records_ok s bp len" "0 < len" using assms(1,2) by (simp_all add: file_ready_def)
  obtain n p s2 s3 where a: "allocate_page s bp = Some (Inr p, s2)" "pg_num (f_page (frame_of s2 p)) = n"
    "init_empty_page s2 bp None n len = Some (SUCCESS, Some p, s3)"
    "store_ok (release s3 p) bp" "frame_held (release s3 p) bp n p" "records_ok (release s3 p) bp len" "\<not> pool_allocated s bp n"
    "\<forall>j. pool_allocated (release s3 p) bp j \<longleftrightarrow> j = n \<or> pool_allocated s bp j"
    "file_records (release s3 p) bp = file_records s bp" "evictable (release (release s3 p) p)"
    "frame_data (release s3 p) p = page_mem (release s3 p) bp n" "pg_num (f_page (frame_of (release s3 p) p)) = n"
    "ph_record_num (frame_data (release s3 p) p) = 0" "0 < ph_record_capacity (frame_data (release s3 p) p) \<longleftrightarrow> len \<le> 524256"
    using new_page_ok [OF s assms(3,4)] by blast
  let ?s4 = "release s3 p" and ?s5 = "release (release s3 p) p"
  have n: "n \<noteq> 0" "pool_allocated ?s4 bp n" using a(5,8) by (simp_all add: frame_held_def)
  have "page_ok (frame_data ?s4 p)" unfolding a(11) using a(6) n by (simp add: records_ok_def)
  then have "ph_record_capacity (frame_data ?s4 p) = 0" using a(14) assms(2) by (simp add: page_ok_def page_layout_def)
  then have "insert_into_page ?s4 p data = (Inl RECORD_NOMEM, ?s5)"
    using a(13) by (simp add: insert_into_page_def RecordPageHandler_insert_record_def page_insert_record_def RecordPageHandler_cleanup_def)
  then have run: "RecordFileHandler_insert_record s bp [] data len = Some (Inl RECORD_NOMEM, [n], ?s5)"
    using a(1-3) by (simp add: RecordFileHandler_insert_record_def unpin_page_def)
  note r = release_page [OF a(4,5)]
  note sf = same_file_records [OF r(2)] same_file_allocated [OF r(2)]
  have al: "\<forall>j. pool_allocated ?s5 bp j \<longleftrightarrow> j = n \<or> pool_allocated s bp j" unfolding sf(4) by (rule a(8))
  have rec: "file_records ?s5 bp = file_records s bp" unfolding sf(2) by (rule a(9))
  have "records_ok ?s5 bp len" unfolding sf(3) by (rule a(6))
  then have "file_ready ?s5 bp len [n]" using r(1) a(10) n al by (simp add: file_ready_def free_ok_def)
  then show ?thesis using run a(7) al rec by (intro exI [of _ n] exI [of _ ?s5] conjI)
qed

lemma insert_too_large_witness:
  "\<exists>n s'. RecordFileHandler_insert_record opened_sys opened_bp [] [] 524257 = Some (Inl RECORD_NOMEM, [n], s')"
proof -
  have "(524256::int) < 524257" "(524257::int) \<le> 2147483640" by simp_all
  moreover have "\<exists>j < MAX_PAGE_NUM. \<not> pool_allocated opened_sys opened_bp j" using opened_not_full by simp
  ultimately show ?thesis using insert_too_large [OF opened_ready, of 524257 "[]"] by (elim meta_impE exE conjE) (auto intro: exI)
qed

text \<open>
  C25: \<open>visit_record\<close> lets its caller change the record inside the page, but does not mark the page dirty.
  When the page was cached and clean, the change is visible in the frame, the frame is still clean, and
  evicting the frame writes nothing: the file on disk keeps the old record.
\<close>

theorem visit_record_not_durable:
  assumes "file_ready s bp len free" "file_records s bp rid = Some d" "length (v d) = nat len"
    and "cached s (bp_fd bp) (rid_page rid) = Some p" "\<not> f_dirty (frame_of s p)"
  shows "\<exists>s'. RecordFileHandler_visit_record s bp rid v = Some (SUCCESS, s') \<and> cached s' (bp_fd bp) (rid_page rid) = Some p \<and>
    page_slots (frame_data s' p) (rid_slot rid) = Some (v d) \<and> frame_purger bp s' p = (SUCCESS, s') \<and>
    read_file_page s' (bp_fd bp) (rid_page rid) = Some (f_page (frame_of s p))"
proof -
  have v: "rid_valid s bp rid" by (rule stored_valid [OF assms(2)])
  have ok: "store_ok s bp" "bp_inv s" using assms(1) pool_okD(1) by (auto simp: file_ready_def)
  note pg = rid_page_ok [OF assms(1) v]
  have mem: "frame_data s p = page_mem s bp (rid_page rid)"
    using v cached_view [OF assms(4)] by (simp add: page_mem_def data_view_def rid_valid_def)
  obtain s1 where g: "get_this_page s bp (rid_page rid) = Some (Inr p, s1)" "s1 = s\<lparr>sys_fm := sys_fm s1\<rparr>"
    "fm_frame (sys_fm s1) = (fm_frame (sys_fm s))(p := frame_pin (frame_of s p))" "\<forall>fd' n'. cached s1 fd' n' = cached s fd' n'"
    using get_cached_page [OF ok(2) assms(4)] by (elim exE conjE)
  have d1: "frame_data s1 p = page_mem s bp (rid_page rid)" using g(3) mem by simp
  let ?m = "page_mem s bp (rid_page rid)" let ?m' = "put_record_data ?m (rid_slot rid) (v d)"
  let ?s' = "release (frame_upd s1 p (set_data ?m')) p"
  have get: "page_get_record ?m (rid_slot rid) = Inr d" using page_get_ok [OF pg(1)] assms(2) pg(3) by simp
  have run: "RecordFileHandler_visit_record s bp rid v = Some (SUCCESS, ?s')"
    using g(1) d1 get by (simp add: RecordFileHandler_visit_record_def with_page_def RecordPageHandler_init_def RecordPageHandler_cleanup_def)
  have slot: "rid_slot rid < page_cap ?m" "page_used ?m (rid_slot rid)"
    using assms(2) pg(3) by (auto simp: page_slots_def split: if_splits)
  have "page_slots ?m' = (page_slots ?m)(rid_slot rid \<mapsto> v d)"
    using pg(1,2) slot assms(3) by (intro put_record_slots) (simp_all add: page_ok_def)
  moreover have "frame_data ?s' p = ?m'" by (simp add: unpin_page_def set_data_def)
  ultimately have slots: "page_slots (frame_data ?s' p) (rid_slot rid) = Some (v d)" by simp
  have clean: "\<not> f_dirty (frame_of ?s' p)" using g(3) assms(5) by (simp add: unpin_page_def set_data_def)
  have "read_file_page ?s' (bp_fd bp) (rid_page rid) = read_file_page s (bp_fd bp) (rid_page rid)"
    using arg_cong [OF g(2), of sys_fd] arg_cong [OF g(2), of sys_file] by (intro read_file_page_cong) (simp_all add: unpin_page_def)
  moreover have "read_file_page s (bp_fd bp) (rid_page rid) = Some (f_page (frame_of s p))"
    using frame_okD(7) [OF cached_frame_ok [OF ok(2) assms(4)]] assms(5) by simp
  moreover have "cached ?s' (bp_fd bp) (rid_page rid) = Some p" using g(4) assms(4) by (simp add: unpin_page_def)
  ultimately show ?thesis using run slots clean by (intro exI [of _ ?s'] conjI) (simp_all add: frame_purger_def)
qed


theorem visit_record_not_durable_witness:
  "\<exists>s rid p s'. RecordFileHandler_visit_record s opened_bp rid (\<lambda>_. [5, 6, 7, 8]) = Some (SUCCESS, s') \<and>
     page_slots (frame_data s' p) (rid_slot rid) = Some [5, 6, 7, 8] \<and> frame_purger opened_bp s' p = (SUCCESS, s')"
proof -
  obtain rid free s where s: "file_ready s opened_bp 4 free" "file_records s opened_bp = [rid \<mapsto> [1, 2, 3, 4]]"
    using opened_record by blast
  have v: "rid_page rid \<noteq> 0" "rid_page rid < fd_len s (bp_fd opened_bp)"
    using stored_valid [of s opened_bp rid "[1, 2, 3, 4]"] s(2) by (auto simp: rid_valid_def intro: allocated_len)
  have ok: "store_ok s opened_bp" "evictable s" using s(1) by (simp_all add: file_ready_def)
  obtain p s1 where f: "store_ok s1 opened_bp" "frame_held s1 opened_bp (rid_page rid) p" "same_file opened_bp s s1" "evictable (release s1 p)"
    using fetch_page [OF ok v] by blast
  obtain s2 where g: "store_ok s2 opened_bp" "frame_held s2 opened_bp (rid_page rid) p" "same_file opened_bp s1 s2" "pins s2 = pins s1"
    "\<not> f_dirty (frame_of s2 p)"
    using flush_held [OF f(1,2)] by blast
  let ?s = "release s2 p"
  note r = release_page [OF g(1,2)]
  have sf: "same_file opened_bp s ?s" using same_file_trans [OF same_file_trans [OF f(3) g(3)] r(2)] .
  have "evictable ?s" using evictable_pins [OF pins_release_cong [OF g(4)]] f(4) by simp
  then have ready: "file_ready ?s opened_bp 4 free" using file_ready_same [OF s(1) sf] r(1) by simp
  have rec: "file_records ?s opened_bp rid = Some [1, 2, 3, 4]" using same_file_records(2) [OF sf] s(2) by simp
  have c: "cached ?s (bp_fd opened_bp) (rid_page rid) = Some p" using g(2) by (simp add: frame_held_def unpin_page_def)
  have clean: "\<not> f_dirty (frame_of ?s p)" using g(5) by (simp add: unpin_page_def)
  have len: "length ((\<lambda>_. [5, 6, 7, 8 :: byte]) [1 :: byte, 2, 3, 4]) = nat 4" by simp
  show ?thesis using visit_record_not_durable [OF ready rec len c clean] by (elim exE conjE) (intro exI conjI)
qed

end
