(* ===== verification/Comparator.thy ===== *)
theory Comparator
  imports Complex_Main RecordPage "HOL-Library.List_Lexorder" "HOL-Library.Product_Lexorder"
begin

text \<open>
  The comparison functions of the index: \<^verbatim>\<open>deps/common/lang/comparator.cpp\<close>, the binary search of
  \<^verbatim>\<open>deps/common/lang/lower_bound.h\<close>, the order of record identifiers in \<^verbatim>\<open>record.h\<close>, and
  \<open>AttrComparator\<close> and \<open>KeyComparator\<close> of \<^verbatim>\<open>bplus_tree.h\<close>.

  A \<^verbatim>\<open>char *\<close> is the list of the bytes from there on; the end of a list reads as the terminating zero.
  A key is stored as the bytes of its attributes followed by the record identifier; here it is the
  pair of the two. The difference of two floats, a single precision subtraction, is an argument.

  The locale \<open>key_order\<close> is what the B+ tree needs of its comparators: they compare by a rank in a
  linear order. The comparators of the index satisfy it when no attribute is a float.
\<close>

section \<open>Comparing values\<close>

datatype AttrType = UNDEFINED | CHARS | DATES | INTS | FLOATS | BOOLEANS | NULLS | TEXTS

definition bytes_i32 :: "byte list \<Rightarrow> int" where
  "bytes_i32 bs = load_i32 (\<lambda>i. if i < length bs then bs ! i else 0) 0"

definition compare_int :: "byte list \<Rightarrow> byte list \<Rightarrow> int" where
  "compare_int arg1 arg2 =
     (let v1 = bytes_i32 arg1; v2 = bytes_i32 arg2 in if v1 > v2 then 1 else if v1 < v2 then -1 else 0)"

definition EPSILON :: rat where "EPSILON = 1 / 1000000"

type_synonym float_sub = "byte list \<Rightarrow> byte list \<Rightarrow> rat"

definition compare_float :: "float_sub \<Rightarrow> byte list \<Rightarrow> byte list \<Rightarrow> int" where
  "compare_float fsub arg1 arg2 =
     (let cmp = fsub arg1 arg2 in if cmp > EPSILON then 1 else if cmp < - EPSILON then -1 else 0)"

fun strncmp :: "byte list \<Rightarrow> byte list \<Rightarrow> nat \<Rightarrow> int" where
  "strncmp s1 s2 0 = 0"
| "strncmp [] [] (Suc n) = 0"
| "strncmp (a # s1) [] (Suc n) = int (unat a)"
| "strncmp [] (b # s2) (Suc n) = - int (unat b)"
| "strncmp (a # s1) (b # s2) (Suc n) =
     (if a \<noteq> b then int (unat a) - int (unat b) else if a = 0 then 0 else strncmp s1 s2 n)"

definition char_at :: "byte list \<Rightarrow> nat \<Rightarrow> int" where
  "char_at s i = (if i < length s then sint (s ! i) else 0)"

definition compare_string :: "byte list \<Rightarrow> nat \<Rightarrow> byte list \<Rightarrow> nat \<Rightarrow> int" where
  "compare_string s1 len1 s2 len2 =
     (let maxlen = min len1 len2; result = strncmp s1 s2 maxlen in
      if result \<noteq> 0 then result
      else if len1 > maxlen then char_at s1 maxlen
      else if len2 > maxlen then 0 - char_at s2 maxlen
      else 0)"

definition compare_date :: "byte list \<Rightarrow> byte list \<Rightarrow> int" where
  "compare_date arg1 arg2 =
     (let left = bytes_i32 arg1; right = bytes_i32 arg2 in if left > right then 1 else if left < right then -1 else 0)"


section \<open>Comparing keys\<close>

text \<open>\<open>AttrComparator\<close>: the loop over the attributes, from the current position on.\<close>

fun attr_compare :: "float_sub \<Rightarrow> (AttrType \<times> nat) list \<Rightarrow> byte list \<Rightarrow> byte list \<Rightarrow> int" where
  "attr_compare fsub [] v1 v2 = 0"
| "attr_compare fsub ((attr_type, attr_length) # attrs) v1 v2 =
     (let next = (\<lambda>res. if res \<noteq> 0 then res else attr_compare fsub attrs (drop attr_length v1) (drop attr_length v2)) in
      case attr_type of
        INTS \<Rightarrow> next (compare_int v1 v2)
      | DATES \<Rightarrow> next (compare_date v1 v2)
      | FLOATS \<Rightarrow> next (compare_float fsub v1 v2)
      | TEXTS \<Rightarrow> next (compare_string v1 attr_length v2 attr_length)
      | CHARS \<Rightarrow> next (compare_string v1 attr_length v2 attr_length)
      | _ \<Rightarrow> 0)"

definition RID_compare :: "RID \<Rightarrow> RID \<Rightarrow> int" where
  "RID_compare rid1 rid2 =
     (let page_diff = int (rid_page rid1) - int (rid_page rid2) in
      if page_diff \<noteq> 0 then page_diff else int (rid_slot rid1) - int (rid_slot rid2))"

definition RID_min :: RID where "RID_min = \<lparr>rid_page = 0, rid_slot = 0\<rparr>"
definition RID_max :: RID where "RID_max = \<lparr>rid_page = 2147483647, rid_slot = 2147483647\<rparr>"

type_synonym key = "byte list \<times> RID"

definition attr_comparator :: "float_sub \<Rightarrow> (AttrType \<times> nat) list \<Rightarrow> key \<Rightarrow> key \<Rightarrow> int" where
  "attr_comparator fsub attrs k1 k2 = attr_compare fsub attrs (fst k1) (fst k2)"

definition key_compare :: "float_sub \<Rightarrow> (AttrType \<times> nat) list \<Rightarrow> key \<Rightarrow> key \<Rightarrow> int" where
  "key_compare fsub attrs k1 k2 =
     (let result = attr_comparator fsub attrs k1 k2 in
      if result \<noteq> 0 then result else RID_compare (snd k1) (snd k2))"


section \<open>Binary search\<close>

text \<open>The loop of \<open>lower_bound\<close> on the positions of a list; the second result is \<open>found\<close>.\<close>

function lower_bound_loop :: "('a \<Rightarrow> 'b \<Rightarrow> int) \<Rightarrow> 'a list \<Rightarrow> 'b \<Rightarrow> nat \<Rightarrow> nat \<Rightarrow> nat \<times> bool" where
  "lower_bound_loop cmp xs val first last_count =
     (if last_count = 0 then (first, False)
      else
        let step = last_count div 2; iter = first + step; result = cmp (xs ! iter) val in
        if result = 0 then (iter, True)
        else if result < 0 then lower_bound_loop cmp xs val (iter + 1) (last_count - (step + 1))
        else lower_bound_loop cmp xs val first step)"
  by pat_completeness auto
termination by (relation "measure (\<lambda>(_, _, _, _, last_count). last_count)") auto

declare lower_bound_loop.simps [simp del]

definition lower_bound :: "('a \<Rightarrow> 'b \<Rightarrow> int) \<Rightarrow> 'a list \<Rightarrow> 'b \<Rightarrow> nat \<times> bool" where
  "lower_bound cmp xs val = lower_bound_loop cmp xs val 0 (length xs)"


section \<open>Comparators that compare by a rank\<close>

definition ranked :: "('a \<Rightarrow> 'a \<Rightarrow> int) \<Rightarrow> ('a \<Rightarrow> 'o::linorder) \<Rightarrow> 'a \<Rightarrow> 'a \<Rightarrow> bool" where
  "ranked cmp rank a b \<longleftrightarrow> (cmp a b < 0 \<longleftrightarrow> rank a < rank b) \<and> (cmp a b = 0 \<longleftrightarrow> rank a = rank b)"

lemma rankedD:
  assumes "ranked cmp rank a b"
  shows "cmp a b < 0 \<longleftrightarrow> rank a < rank b" "cmp a b = 0 \<longleftrightarrow> rank a = rank b" "cmp a b > 0 \<longleftrightarrow> rank a > rank b"
proof -
  show a: "cmp a b < 0 \<longleftrightarrow> rank a < rank b" "cmp a b = 0 \<longleftrightarrow> rank a = rank b" using assms by (simp_all add: ranked_def)
  show "cmp a b > 0 \<longleftrightarrow> rank a > rank b" using a by (cases "rank a" "rank b" rule: linorder_cases) auto
qed

text \<open>The reference definition of the search: the number of elements below the value, counted from the left.\<close>

definition linear_bound :: "('a \<Rightarrow> 'o::linorder) \<Rightarrow> 'a list \<Rightarrow> 'o \<Rightarrow> nat \<times> bool" where
  "linear_bound rank xs v = (length (takeWhile (\<lambda>x. rank x < v) xs), v \<in> rank ` set xs)"

lemma linear_bound_at:
  assumes "sorted_wrt (<) (map rank xs)" "i \<le> length xs" "\<And>j. j < i \<Longrightarrow> rank (xs ! j) < v" "i < length xs \<Longrightarrow> v \<le> rank (xs ! i)"
  shows "linear_bound rank xs v = (i, i < length xs \<and> rank (xs ! i) = v)"
proof -
  have above: "v \<le> rank (xs ! j)" if "i \<le> j" "j < length xs" for j
  proof (cases "i = j")
    case False
    then have "rank (xs ! i) < rank (xs ! j)" using assms(1) that by (simp add: sorted_wrt_iff_nth_less)
    then show ?thesis using assms(4) that by auto
  qed (use assms(4) that in simp)
  have "takeWhile (\<lambda>x. rank x < v) xs = take i xs"
    using assms(2,3) above by (intro takeWhile_eq_take_P_nth) (auto simp: not_less)
  then have len: "length (takeWhile (\<lambda>x. rank x < v) xs) = i" using assms(2) by simp
  have "v \<in> rank ` set xs \<longleftrightarrow> i < length xs \<and> rank (xs ! i) = v"
  proof
    assume "v \<in> rank ` set xs"
    then obtain j where j: "j < length xs" "rank (xs ! j) = v" by (auto simp: in_set_conv_nth)
    then have "i \<le> j" using assms(3) [of j] by (metis less_irrefl not_less)
    moreover have "\<not> i < j"
    proof
      assume ij: "i < j"
      then have "rank (xs ! i) < rank (xs ! j)" using assms(1) j(1) by (simp add: sorted_wrt_iff_nth_less)
      moreover have "rank (xs ! j) \<le> rank (xs ! i)" using assms(4) ij j by simp
      ultimately show False by simp
    qed
    ultimately show "i < length xs \<and> rank (xs ! i) = v" using j by auto
  qed auto
  then show ?thesis using len by (simp add: linear_bound_def)
qed

text \<open>The search, when equal elements may be next to each other.\<close>

lemma lower_bound_loop_ok:
  assumes "sorted (map rank xs)" "\<forall>x \<in> set xs. ranked cmp rank x val"
    and "first + n \<le> length xs" "\<And>j. j < first \<Longrightarrow> rank (xs ! j) < rank val"
      "\<And>j. first + n \<le> j \<Longrightarrow> j < length xs \<Longrightarrow> rank val < rank (xs ! j)"
  shows "case lower_bound_loop cmp xs val first n of (i, found) \<Rightarrow>
    if found then i < length xs \<and> rank (xs ! i) = rank val
    else i \<le> length xs \<and> (\<forall>j < i. rank (xs ! j) < rank val) \<and> (\<forall>j. i \<le> j \<longrightarrow> j < length xs \<longrightarrow> rank val < rank (xs ! j))"
  using assms(3-5)
proof (induction n arbitrary: first rule: less_induct)
  case (less n)
  show ?case
  proof (cases "n = 0")
    case True
    then show ?thesis using less.prems by (subst lower_bound_loop.simps) simp
  next
    case False
    let ?i = "first + n div 2"
    have i: "?i < length xs" "?i < first + n" using False less.prems(1) by auto
    have r: "ranked cmp rank (xs ! ?i) val" using assms(2) i(1) by simp
    have mono: "rank (xs ! j) \<le> rank (xs ! k)" if "j \<le> k" "k < length xs" for j k
      using assms(1) that sorted_nth_mono [of "map rank xs" j k] by simp
    consider "rank (xs ! ?i) = rank val" | "rank (xs ! ?i) < rank val" | "rank (xs ! ?i) > rank val" by fastforce
    then show ?thesis
    proof cases
      case 1
      then show ?thesis using False i(1) rankedD(2) [OF r] by (subst lower_bound_loop.simps) (simp add: Let_def)
    next
      case 2
      have step: "lower_bound_loop cmp xs val first n = lower_bound_loop cmp xs val (Suc ?i) (n - Suc (n div 2))"
        using 2 False rankedD(1,2) [OF r] by (subst lower_bound_loop.simps) (simp add: Let_def)
      have eq: "Suc ?i + (n - Suc (n div 2)) = first + n" using i(2) by simp
      show ?thesis unfolding step
      proof (rule less.IH)
        show "n - Suc (n div 2) < n" using False by simp
        show "rank (xs ! j) < rank val" if "j < Suc ?i" for j using mono [of j ?i] i(1) 2 that by simp
      qed (use less.prems eq in simp_all)
    next
      case 3
      have step: "lower_bound_loop cmp xs val first n = lower_bound_loop cmp xs val first (n div 2)"
        using 3 False rankedD(1,2) [OF r] by (subst lower_bound_loop.simps) (auto simp add: Let_def)
      show ?thesis unfolding step
      proof (rule less.IH)
        show "n div 2 < n" using False by simp
        show "rank val < rank (xs ! j)" if "first + n div 2 \<le> j" "j < length xs" for j using mono [OF that] 3 by simp
      qed (use less.prems in simp_all)
    qed
  qed
qed

lemma lower_bound_weak:
  assumes "sorted (map rank xs)" "\<forall>x \<in> set xs. ranked cmp rank x val"
  shows "case lower_bound cmp xs val of (i, found) \<Rightarrow>
    if found then i < length xs \<and> rank (xs ! i) = rank val
    else i \<le> length xs \<and> (\<forall>j < i. rank (xs ! j) < rank val) \<and> (\<forall>j. i \<le> j \<longrightarrow> j < length xs \<longrightarrow> rank val < rank (xs ! j))"
  unfolding lower_bound_def using assms by (intro lower_bound_loop_ok) simp_all

lemma lower_bound_found:
  assumes "sorted (map rank xs)" "\<forall>x \<in> set xs. ranked cmp rank x val"
  shows "snd (lower_bound cmp xs val) \<longleftrightarrow> (\<exists>x \<in> set xs. rank x = rank val)"
    "\<forall>x \<in> set xs. rank x \<noteq> rank val \<Longrightarrow> fst (lower_bound cmp xs val) = length (takeWhile (\<lambda>x. rank x < rank val) xs)"
proof -
  obtain i found where lb: "lower_bound cmp xs val = (i, found)" by fastforce
  note weak = lower_bound_weak [OF assms, unfolded lb]
  have none: "rank x \<noteq> rank val" if nf: "\<not> found" and x: "x \<in> set xs" for x
  proof -
    obtain j where j: "j < length xs" "x = xs ! j" using x by (auto simp: in_set_conv_nth)
    show ?thesis using weak nf j by (cases "j < i") (auto simp: not_less)
  qed
  show "snd (lower_bound cmp xs val) \<longleftrightarrow> (\<exists>x \<in> set xs. rank x = rank val)"
    using none weak unfolding lb by (cases found) auto
  show "fst (lower_bound cmp xs val) = length (takeWhile (\<lambda>x. rank x < rank val) xs)" if "\<forall>x \<in> set xs. rank x \<noteq> rank val"
  proof -
    have nf: "\<not> found" using weak that by auto
    have "takeWhile (\<lambda>x. rank x < rank val) xs = take i xs"
      by (rule takeWhile_eq_take_P_nth) (use weak nf in \<open>auto simp: less_imp_le not_less\<close>)
    then show ?thesis unfolding lb using weak nf by simp
  qed
qed

lemma lower_bound_ok:
  assumes "sorted_wrt (<) (map rank xs)" "\<forall>x \<in> set xs. ranked cmp rank x val"
  shows "lower_bound cmp xs val = linear_bound rank xs (rank val)"
proof -
  obtain i found where lb: "lower_bound cmp xs val = (i, found)" by fastforce
  have "sorted (map rank xs)" using assms(1) by (simp add: strict_sorted_iff)
  note weak = lower_bound_weak [OF this assms(2), unfolded lb]
  have below: "rank (xs ! j) < rank (xs ! i)" if "j < i" "i < length xs" for j
    using assms(1) that by (simp add: sorted_wrt_iff_nth_less)
  have "linear_bound rank xs (rank val) = (i, i < length xs \<and> rank (xs ! i) = rank val)"
    by (rule linear_bound_at [OF assms(1)]) (use weak below in \<open>auto simp: less_imp_le split: if_splits\<close>)
  also have "\<dots> = (i, found)" using weak by (auto split: if_splits)
  finally show ?thesis using lb by simp
qed

text \<open>The rank of an attribute: a number, or the characters before the terminating zero.\<close>

definition string_rank :: "nat \<Rightarrow> byte list \<Rightarrow> int list" where
  "string_rank n s = map (\<lambda>c. int (unat c)) (takeWhile (\<lambda>c. c \<noteq> 0) (take n s))"

fun attr_rank :: "(AttrType \<times> nat) list \<Rightarrow> byte list \<Rightarrow> int list list" where
  "attr_rank [] v = []"
| "attr_rank ((attr_type, attr_length) # attrs) v =
     (if attr_type \<in> {INTS, DATES} then [bytes_i32 v] else string_rank attr_length v) # attr_rank attrs (drop attr_length v)"

definition key_rank :: "(AttrType \<times> nat) list \<Rightarrow> key \<Rightarrow> int list list \<times> nat \<times> nat" where
  "key_rank attrs k = (attr_rank attrs (fst k), rid_page (snd k), rid_slot (snd k))"

definition attrs_ordered :: "(AttrType \<times> nat) list \<Rightarrow> bool" where
  "attrs_ordered attrs \<longleftrightarrow> (\<forall>(t, n) \<in> set attrs. t \<in> {INTS, DATES, CHARS, TEXTS})"

lemma strncmp_rank:
  "(strncmp s1 s2 n < 0 \<longleftrightarrow> string_rank n s1 < string_rank n s2) \<and> (strncmp s1 s2 n = 0 \<longleftrightarrow> string_rank n s1 = string_rank n s2)"
proof (induction s1 s2 n rule: strncmp.induct)
  case (3 a s1 n)
  show ?case by (cases "a = 0") (simp_all add: string_rank_def uint_0_iff)
next
  case (4 b s2 n)
  have "0 < uint b" if "b \<noteq> 0" using that uint_0_iff [of b] uint_ge_0 [of b] by linarith
  then show ?case by (cases "b = 0") (simp_all add: string_rank_def)
next
  case (5 a s1 b s2 n)
  have ne: "uint a \<noteq> uint b" if "a \<noteq> b" using that by (simp add: word_uint_eq_iff)
  have pos: "0 < uint c" if "c \<noteq> 0" for c :: byte using that uint_0_iff [of c] uint_ge_0 [of c] by linarith
  show ?case
  proof (cases "a = b")
    case True
    then show ?thesis using 5 by (cases "a = 0") (simp_all add: string_rank_def)
  next
    case False
    then show ?thesis using ne pos [of a] pos [of b] by (cases "a = 0"; cases "b = 0") (auto simp: string_rank_def)
  qed
qed (simp_all add: string_rank_def)

lemma attr_compare_rank:
  assumes "attrs_ordered attrs"
  shows "ranked (attr_compare fsub attrs) (attr_rank attrs) v1 v2"
  using assms
proof (induction attrs arbitrary: v1 v2)
  case Nil
  then show ?case by (simp add: ranked_def)
next
  case (Cons a attrs v1 v2)
  obtain t n where a: "a = (t, n)" by fastforce
  have IH: "ranked (attr_compare fsub attrs) (attr_rank attrs) (drop n v1) (drop n v2)"
    using Cons by (simp add: attrs_ordered_def)
  have str: "compare_string v1 n v2 n = strncmp v1 v2 n" by (simp add: compare_string_def Let_def)
  have t: "t \<in> {INTS, DATES, CHARS, TEXTS}" using Cons.prems a by (simp add: attrs_ordered_def)
  define c where "c = (if t = INTS then compare_int v1 v2 else if t = DATES then compare_date v1 v2 else strncmp v1 v2 n)"
  let ?r = "\<lambda>v. if t \<in> {INTS, DATES} then [bytes_i32 v] else string_rank n v"
  have run: "attr_compare fsub (a # attrs) v1 v2 = (if c \<noteq> 0 then c else attr_compare fsub attrs (drop n v1) (drop n v2))"
    using t by (auto simp: a c_def str Let_def)
  have c: "c < 0 \<longleftrightarrow> ?r v1 < ?r v2" "c = 0 \<longleftrightarrow> ?r v1 = ?r v2"
  proof -
    have "(c < 0 \<longleftrightarrow> ?r v1 < ?r v2) \<and> (c = 0 \<longleftrightarrow> ?r v1 = ?r v2)"
    proof (cases "t \<in> {INTS, DATES}")
      case True
      then show ?thesis by (auto simp: c_def compare_int_def compare_date_def Let_def)
    next
      case False
      then show ?thesis using strncmp_rank [of v1 v2 n] by (simp add: c_def)
    qed
    then show "c < 0 \<longleftrightarrow> ?r v1 < ?r v2" "c = 0 \<longleftrightarrow> ?r v1 = ?r v2" by blast+
  qed
  have ranks: "attr_rank (a # attrs) v = ?r v # attr_rank attrs (drop n v)" for v by (simp add: a)
  have "attr_compare fsub (a # attrs) v1 v2 < 0 \<longleftrightarrow> ?r v1 < ?r v2 \<or> ?r v1 = ?r v2 \<and> attr_rank attrs (drop n v1) < attr_rank attrs (drop n v2)"
    unfolding run c(1) [symmetric] c(2) [symmetric] rankedD(1) [OF IH, symmetric] by simp
  moreover have "attr_compare fsub (a # attrs) v1 v2 = 0 \<longleftrightarrow> ?r v1 = ?r v2 \<and> attr_rank attrs (drop n v1) = attr_rank attrs (drop n v2)"
    unfolding run c(2) [symmetric] rankedD(2) [OF IH, symmetric] by simp
  ultimately show ?case unfolding ranked_def ranks Cons_less_Cons list.inject by (rule conjI)
qed

lemma key_compare_rank:
  assumes "attrs_ordered attrs"
  shows "ranked (key_compare fsub attrs) (key_rank attrs) k1 k2"
  using rankedD [OF attr_compare_rank [OF assms, of fsub "fst k1" "fst k2"]]
  by (auto simp: ranked_def key_compare_def attr_comparator_def RID_compare_def key_rank_def Let_def)

text \<open>What the B+ tree needs of its two comparators.\<close>

locale key_order =
  fixes cmp :: "'k \<Rightarrow> 'k \<Rightarrow> int" and acmp :: "'k \<Rightarrow> 'k \<Rightarrow> int" and rank :: "'k \<Rightarrow> 'o::linorder" and arank :: "'k \<Rightarrow> 'p::linorder"
  assumes cmp_rank: "ranked cmp rank a b"
    and acmp_rank: "ranked acmp arank a b"
    and arank_mono: "rank a \<le> rank b \<Longrightarrow> arank a \<le> arank b"
begin

lemmas cmp_simps = rankedD [OF cmp_rank]
lemmas acmp_simps = rankedD [OF acmp_rank]

lemma search: "sorted_wrt (<) (map rank xs) \<Longrightarrow> lower_bound cmp xs k = linear_bound rank xs (rank k)"
  by (rule lower_bound_ok) (simp_all add: cmp_rank)

end

text \<open>The attributes an index can order: no floats.\<close>

typedef index_attrs = "{attrs. attrs_ordered attrs}" morphisms attr_list IndexAttrs
  by (intro exI [of _ "[]"]) (simp add: attrs_ordered_def)

interpretation index_keys: key_order
  "key_compare fsub (attr_list attrs)" "attr_comparator fsub (attr_list attrs)" "key_rank (attr_list attrs)" "\<lambda>k. attr_rank (attr_list attrs) (fst k)"
  for fsub attrs
proof
  have ord: "attrs_ordered (attr_list attrs)" using attr_list [of attrs] by simp
  show "ranked (key_compare fsub (attr_list attrs)) (key_rank (attr_list attrs)) a b" for a b by (rule key_compare_rank [OF ord])
  show "ranked (attr_comparator fsub (attr_list attrs)) (\<lambda>k. attr_rank (attr_list attrs) (fst k)) a b" for a b
    using attr_compare_rank [OF ord, of fsub "fst a" "fst b"] by (simp add: ranked_def attr_comparator_def)
  show "attr_rank (attr_list attrs) (fst a) \<le> attr_rank (attr_list attrs) (fst b)" if "key_rank (attr_list attrs) a \<le> key_rank (attr_list attrs) b" for a b
    using that by (auto simp: key_rank_def less_imp_le)
qed


section \<open>Properties\<close>

text \<open>
  C20: on keys in ascending order the binary search gives the same position as counting the keys below
  the one searched from the left, and reports correctly whether the key is there.
\<close>

theorem lower_bound_linear:
  assumes "attrs_ordered attrs" "sorted_wrt (<) (map (key_rank attrs) keys)"
  shows "lower_bound (key_compare fsub attrs) keys k =
    (length (takeWhile (\<lambda>x. key_compare fsub attrs x k < 0) keys), \<exists>x \<in> set keys. key_compare fsub attrs x k = 0)"
proof -
  have r: "ranked (key_compare fsub attrs) (key_rank attrs) a b" for a b by (rule key_compare_rank [OF assms(1)])
  have "lower_bound (key_compare fsub attrs) keys k = linear_bound (key_rank attrs) keys (key_rank attrs k)"
    by (rule lower_bound_ok [OF assms(2)]) (simp add: r)
  then show ?thesis by (simp add: linear_bound_def rankedD [OF r] image_iff) metis
qed

theorem lower_bound_linear_witness:
  "lower_bound (key_compare (\<lambda>_ _. 0) [(CHARS, 2)]) [([97, 0], RID_min), ([97, 98], RID_min)] ([97, 98], RID_min) = (1, True)"
proof -
  let ?cmp = "key_compare (\<lambda>_ _. 0) [(CHARS, 2)]"
  have c: "?cmp ([97, 0], RID_min) ([97, 98], RID_min) < 0" "?cmp ([97, 98], RID_min) ([97, 98], RID_min) = 0" by code_simp+
  have o: "attrs_ordered [(CHARS, 2)]" by (simp add: attrs_ordered_def)
  have "sorted_wrt (<) (map (key_rank [(CHARS, 2)]) [([97, 0], RID_min), ([97, 98], RID_min)])"
    using c(1) rankedD(1) [OF key_compare_rank [OF o]] by simp
  from lower_bound_linear [OF o this, of "\<lambda>_ _. 0" "([97, 98], RID_min)"] show ?thesis using c by simp
qed

end
