(* ===== verification/BplusTree.thy ===== *)
theory BplusTree
  imports Comparator BufferPool
begin

text \<open>
  \<^verbatim>\<open>src/observer/storage/index/bplus_tree.h\<close> and \<^verbatim>\<open>bplus_tree.cpp\<close>: the nodes of the tree and their
  handlers, the tree and its operations, and the scanner.

  \<^item> A node is one page. Its array of items, key and value side by side, is a list of pairs; moving
    items inside and between pages is taking and dropping parts of the lists. The first key of an
    internal node is stored but never compared.
  \<^item> The pages of the file are the map \<open>bt_pages\<close> from page numbers to nodes, as the contract of the
    buffer pool gives it: a fetch of a page of the file succeeds, \<open>allocate_page\<close> hands out the lowest
    number that is not in use, behind the header page of the pool and the header page of the index,
    until the file is full. \<open>bt_dirty\<close> collects the pages that were marked dirty, \<open>bt_file\<close> is the
    content of the file on disk. The file changes when the pool writes a page: when \<open>sync\<close> flushes the
    cached pages and when a dirty page is evicted. A page that was evicted is read from the file again.
  \<^item> Latches, and the pins that \<open>LatchMemo\<close> holds, do nothing when one thread uses the tree. The pages that an
    operation disposes are freed when its memo is released; until then they are in \<open>bt_disposed\<close>.
  \<^item> The two comparators are arguments of the functions that use them.
  \<^item> Printing is left out.
\<close>

section \<open>Nodes\<close>

record IndexFileHeader =
  root_page :: "PageNum option"
  internal_max_size :: nat
  leaf_max_size :: nat
  unique :: bool
  key_length :: nat
  attr_offsets :: "nat list"
  attr_lengths :: "nat list"
  attr_types :: "AttrType list"

datatype 'k IndexNode =
  LeafIndexNode (node_parent: "PageNum option") (next_brother: "PageNum option") (leaf_items: "('k \<times> RID) list")
| InternalIndexNode (node_parent: "PageNum option") (internal_items: "('k \<times> PageNum) list")

datatype BplusTreeOperationType = READ | INSERT | DELETE

definition calc_internal_page_capacity :: "int \<Rightarrow> int" where
  "calc_internal_page_capacity attr_length = (let item_size = attr_length + 8 + 4 in (int BP_PAGE_DATA_SIZE - 12) div item_size)"

definition calc_leaf_page_capacity :: "int \<Rightarrow> int" where
  "calc_leaf_page_capacity attr_length = (let item_size = attr_length + 8 + 8 in (int BP_PAGE_DATA_SIZE - 16) div item_size)"

fun is_leaf :: "'k IndexNode \<Rightarrow> bool" where
  "is_leaf (LeafIndexNode _ _ _) = True"
| "is_leaf (InternalIndexNode _ _) = False"

fun node_size :: "'k IndexNode \<Rightarrow> nat" where
  "node_size (LeafIndexNode _ _ items) = length items"
| "node_size (InternalIndexNode _ items) = length items"

definition max_size :: "IndexFileHeader \<Rightarrow> 'k IndexNode \<Rightarrow> nat" where
  "max_size hdr node = (if is_leaf node then leaf_max_size hdr else internal_max_size hdr)"

definition min_size :: "IndexFileHeader \<Rightarrow> 'k IndexNode \<Rightarrow> nat" where
  "min_size hdr node = (let max = max_size hdr node in max - max div 2)"

fun set_parent_page_num :: "PageNum option \<Rightarrow> 'k IndexNode \<Rightarrow> 'k IndexNode" where
  "set_parent_page_num p (LeafIndexNode _ nxt items) = LeafIndexNode p nxt items"
| "set_parent_page_num p (InternalIndexNode _ items) = InternalIndexNode p items"

definition is_safe :: "IndexFileHeader \<Rightarrow> BplusTreeOperationType \<Rightarrow> bool \<Rightarrow> 'k IndexNode \<Rightarrow> bool" where
  "is_safe hdr opr is_root_node node =
     (case opr of
        READ \<Rightarrow> True
      | INSERT \<Rightarrow> node_size node < max_size hdr node
      | DELETE \<Rightarrow> if is_root_node then (if is_leaf node then node_size node > 1 else node_size node > 2)
                  else node_size node > min_size hdr node)"

definition IndexNodeHandler_validate :: "'k IndexNode \<Rightarrow> bool" where
  "IndexNodeHandler_validate node =
     (if node_parent node = None then (if node_size node < 1 then False else if \<not> is_leaf node \<and> node_size node < 2 then False else True)
      else True)"


subsection \<open>Leaves\<close>

definition leaf_init_empty :: "'k IndexNode" where
  "leaf_init_empty = LeafIndexNode None None []"

fun set_next_page :: "PageNum option \<Rightarrow> 'k IndexNode \<Rightarrow> 'k IndexNode" where
  "set_next_page q (LeafIndexNode p _ items) = LeafIndexNode p q items"
| "set_next_page q (InternalIndexNode p items) = InternalIndexNode p items"

definition leaf_lookup :: "('k \<Rightarrow> 'k \<Rightarrow> int) \<Rightarrow> 'k \<Rightarrow> ('k \<times> RID) list \<Rightarrow> nat \<times> bool" where
  "leaf_lookup cmp key items = lower_bound cmp (map fst items) key"

definition insert_at :: "nat \<Rightarrow> 'a \<Rightarrow> 'a list \<Rightarrow> 'a list" where
  "insert_at index x xs = take index xs @ x # drop index xs"

definition remove_at :: "nat \<Rightarrow> 'a list \<Rightarrow> 'a list" where
  "remove_at index xs = take index xs @ drop (Suc index) xs"

fun leaf_insert :: "nat \<Rightarrow> 'k \<Rightarrow> RID \<Rightarrow> 'k IndexNode \<Rightarrow> 'k IndexNode" where
  "leaf_insert index key val (LeafIndexNode p q items) = LeafIndexNode p q (insert_at index (key, val) items)"
| "leaf_insert index key val node = node"

text \<open>\<open>remove (key, comparator)\<close>: the number of items removed and the node.\<close>

fun leaf_remove :: "('k \<Rightarrow> 'k \<Rightarrow> int) \<Rightarrow> 'k \<Rightarrow> 'k IndexNode \<Rightarrow> nat \<times> 'k IndexNode" where
  "leaf_remove cmp key (LeafIndexNode p q items) =
     (let (index, found) = leaf_lookup cmp key items in
      if found then (1, LeafIndexNode p q (remove_at index items)) else (0, LeafIndexNode p q items))"
| "leaf_remove cmp key node = (0, node)"

text \<open>The order the validation of the tree checks inside a node.\<close>

fun keys_ascend :: "('k \<Rightarrow> 'k \<Rightarrow> int) \<Rightarrow> 'k list \<Rightarrow> bool" where
  "keys_ascend cmp (a # b # ks) \<longleftrightarrow> cmp a b < 0 \<and> keys_ascend cmp (b # ks)"
| "keys_ascend cmp _ \<longleftrightarrow> True"


subsection \<open>Internal nodes\<close>

definition internal_init_empty :: "'k IndexNode" where
  "internal_init_empty = InternalIndexNode None []"

text \<open>\<open>lookup\<close>: the index of the child for a key and the position to insert the key at.\<close>

definition internal_lookup :: "('k \<Rightarrow> 'k \<Rightarrow> int) \<Rightarrow> 'k \<Rightarrow> ('k \<times> PageNum) list \<Rightarrow> nat \<times> nat" where
  "internal_lookup cmp key items =
     (let size = length items in
      if size = 0 then (0, 1)
      else
        let (i, found) = lower_bound cmp (map fst (tl items)) key; ret = i + 1 in
        (if ret \<ge> size \<or> cmp key (fst (items ! ret)) < 0 then ret - 1 else ret, ret))"

definition internal_insert :: "('k \<Rightarrow> 'k \<Rightarrow> int) \<Rightarrow> 'k \<Rightarrow> PageNum \<Rightarrow> ('k \<times> PageNum) list \<Rightarrow> ('k \<times> PageNum) list" where
  "internal_insert cmp key page_num items = insert_at (snd (internal_lookup cmp key items)) (key, page_num) items"

text \<open>The first key of a new root is zeroed memory; here it is the argument \<open>zero\<close>.\<close>

definition create_new_root :: "'k \<Rightarrow> PageNum \<Rightarrow> 'k \<Rightarrow> PageNum \<Rightarrow> 'k IndexNode" where
  "create_new_root zero first_page_num key page_num = InternalIndexNode None [(zero, first_page_num), (key, page_num)]"

fun value_index :: "PageNum \<Rightarrow> ('k \<times> PageNum) list \<Rightarrow> int" where
  "value_index page_num [] = -1"
| "value_index page_num ((k, p) # items) =
     (if page_num = p then 0 else let i = value_index page_num items in if i < 0 then -1 else i + 1)"

definition set_key_at :: "nat \<Rightarrow> 'k \<Rightarrow> ('k \<times> PageNum) list \<Rightarrow> ('k \<times> PageNum) list" where
  "set_key_at index key items = items[index := (key, snd (items ! index))]"


section \<open>The tree\<close>

text \<open>
  The file on disk: page 0 tells which pages are allocated, page 1 is the header of the index, the
  others are nodes. \<open>if_writable\<close> says whether writing to it succeeds.
\<close>

record 'k IndexFile =
  if_alloc :: "PageNum set"
  if_header :: IndexFileHeader
  if_nodes :: "PageNum \<rightharpoonup> 'k IndexNode"
  if_writable :: bool

text \<open>\<open>bt_header\<close> is the header in the handler, \<open>bt_stored\<close> its copy in the first page of the index.\<close>

record 'k BplusTree =
  bt_header :: IndexFileHeader
  bt_header_dirty :: bool
  bt_stored :: IndexFileHeader
  bt_zero :: 'k
  bt_pages :: "PageNum \<rightharpoonup> 'k IndexNode"
  bt_dirty :: "PageNum set"
  bt_disposed :: "PageNum list"
  bt_file :: "'k IndexFile"

type_synonym 'k comparator = "'k \<Rightarrow> 'k \<Rightarrow> int"

definition put_node :: "'k BplusTree \<Rightarrow> PageNum \<Rightarrow> 'k IndexNode \<Rightarrow> 'k BplusTree" where
  "put_node t p node = t\<lparr>bt_pages := (bt_pages t)(p \<mapsto> node)\<rparr>"

definition dirty_node :: "'k BplusTree \<Rightarrow> PageNum \<Rightarrow> 'k BplusTree" where
  "dirty_node t p = t\<lparr>bt_dirty := insert p (bt_dirty t)\<rparr>"

definition get_node :: "'k BplusTree \<Rightarrow> PageNum \<Rightarrow> RC + 'k IndexNode" where
  "get_node t p = (case bt_pages t p of None \<Rightarrow> Inl IOERR_READ | Some node \<Rightarrow> Inr node)"

definition FIRST_INDEX_PAGE :: PageNum where "FIRST_INDEX_PAGE = 1"

function find_free_page_num :: "'k BplusTree \<Rightarrow> PageNum \<Rightarrow> PageNum option" where
  "find_free_page_num t n =
     (if n \<ge> MAX_PAGE_NUM then None else if bt_pages t n = None then Some n else find_free_page_num t (Suc n))"
  by pat_completeness auto
termination by (relation "measure (\<lambda>(_, n). MAX_PAGE_NUM - n)") auto

declare find_free_page_num.simps [simp del]

definition allocate_node :: "'k BplusTree \<Rightarrow> RC + PageNum" where
  "allocate_node t =
     (case find_free_page_num t (Suc FIRST_INDEX_PAGE) of None \<Rightarrow> Inl BUFFERPOOL_NOBUF | Some n \<Rightarrow> Inr n)"

definition tree_is_empty :: "'k BplusTree \<Rightarrow> bool" where
  "tree_is_empty t \<longleftrightarrow> root_page (bt_header t) = None"

definition update_root_page_num_locked :: "'k BplusTree \<Rightarrow> PageNum option \<Rightarrow> 'k BplusTree" where
  "update_root_page_num_locked t p = t\<lparr>bt_header := (bt_header t)\<lparr>root_page := p\<rparr>, bt_header_dirty := True\<rparr>"

text \<open>Releasing the memo at the end of an operation frees the pages it disposed.\<close>

definition release_memo :: "'k BplusTree \<Rightarrow> 'k BplusTree" where
  "release_memo t = t\<lparr>bt_pages := (bt_pages t) |` (- set (bt_disposed t)), bt_disposed := []\<rparr>"


subsection \<open>Finding a leaf\<close>

partial_function (option) find_leaf_loop ::
  "'k BplusTree \<Rightarrow> (('k \<times> PageNum) list \<Rightarrow> PageNum) \<Rightarrow> PageNum \<Rightarrow> (RC + PageNum) option" where
  "find_leaf_loop t child_page_getter p =
     (case get_node t p of
        Inl rc \<Rightarrow> Some (Inl rc)
      | Inr (LeafIndexNode _ _ _) \<Rightarrow> Some (Inr p)
      | Inr (InternalIndexNode _ items) \<Rightarrow> find_leaf_loop t child_page_getter (child_page_getter items))"

definition find_leaf_internal :: "'k BplusTree \<Rightarrow> (('k \<times> PageNum) list \<Rightarrow> PageNum) \<Rightarrow> (RC + PageNum) option" where
  "find_leaf_internal t child_page_getter =
     (case root_page (bt_header t) of None \<Rightarrow> Some (Inl EMPTY) | Some r \<Rightarrow> find_leaf_loop t child_page_getter r)"

definition find_leaf :: "'k comparator \<Rightarrow> 'k BplusTree \<Rightarrow> 'k \<Rightarrow> (RC + PageNum) option" where
  "find_leaf cmp t key = find_leaf_internal t (\<lambda>items. snd (items ! fst (internal_lookup cmp key items)))"

definition left_most_page :: "'k BplusTree \<Rightarrow> (RC + PageNum) option" where
  "left_most_page t = find_leaf_internal t (\<lambda>items. snd (items ! 0))"


subsection \<open>Insertion\<close>

text \<open>The loop of \<open>copy_from\<close>: the children that move get their new parent.\<close>

fun adopt :: "'k BplusTree \<Rightarrow> PageNum \<Rightarrow> PageNum list \<Rightarrow> RC \<times> 'k BplusTree" where
  "adopt t this_page_num [] = (SUCCESS, t)"
| "adopt t this_page_num (c # cs) =
     (case get_node t c of
        Inl rc \<Rightarrow> (rc, t)
      | Inr child \<Rightarrow> adopt (dirty_node (put_node t c (set_parent_page_num (Some this_page_num) child)) c) this_page_num cs)"

definition copy_from :: "'k BplusTree \<Rightarrow> PageNum \<Rightarrow> ('k \<times> PageNum) list \<Rightarrow> RC \<times> 'k BplusTree" where
  "copy_from t p items =
     (let (rc, t) = adopt t p (map snd items) in
      if rc \<noteq> SUCCESS then (rc, t)
      else
        case get_node t p of
          Inr (InternalIndexNode par old) \<Rightarrow> (SUCCESS, put_node t p (InternalIndexNode par (old @ items)))
        | _ \<Rightarrow> (INTERNAL, t))"

definition preappend :: "'k BplusTree \<Rightarrow> PageNum \<Rightarrow> 'k \<times> PageNum \<Rightarrow> RC \<times> 'k BplusTree" where
  "preappend t p item =
     (let (rc, t) = adopt t p [snd item] in
      if rc \<noteq> SUCCESS then (rc, t)
      else
        case get_node t p of
          Inr (InternalIndexNode par old) \<Rightarrow> (SUCCESS, put_node t p (InternalIndexNode par (item # old)))
        | _ \<Rightarrow> (INTERNAL, t))"

text \<open>\<open>move_half_to\<close> of both kinds of nodes, from page \<open>p\<close> to the new page \<open>q\<close>.\<close>

definition move_half_to :: "'k BplusTree \<Rightarrow> PageNum \<Rightarrow> PageNum \<Rightarrow> RC \<times> 'k BplusTree" where
  "move_half_to t p q =
     (case get_node t p of
        Inl rc \<Rightarrow> (rc, t)
      | Inr (LeafIndexNode par nxt items) \<Rightarrow>
          let move_index = length items div 2;
              t = (case get_node t q of
                     Inr (LeafIndexNode par' nxt' items') \<Rightarrow> put_node t q (LeafIndexNode par' nxt' (drop move_index items))
                   | _ \<Rightarrow> t)
          in (SUCCESS, put_node t p (LeafIndexNode par nxt (take move_index items)))
      | Inr (InternalIndexNode par items) \<Rightarrow>
          let move_index = length items div 2; (rc, t) = copy_from t q (drop move_index items) in
          if rc \<noteq> SUCCESS then (rc, t) else (rc, put_node t p (InternalIndexNode par (take move_index items))))"

text \<open>\<open>split\<close>: the new page, or the error of the allocation. The result of \<open>move_half_to\<close> is not looked at.\<close>

definition split_node :: "'k BplusTree \<Rightarrow> PageNum \<Rightarrow> (RC + PageNum) \<times> 'k BplusTree" where
  "split_node t p =
     (case allocate_node t of
        Inl rc \<Rightarrow> (Inl rc, t)
      | Inr q \<Rightarrow>
          (case get_node t p of
             Inl rc \<Rightarrow> (Inl rc, t)
           | Inr old_node \<Rightarrow>
               let new_node = (if is_leaf old_node then leaf_init_empty else internal_init_empty);
                   t = put_node t q (set_parent_page_num (node_parent old_node) new_node);
                   t = snd (move_half_to t p q)
               in (Inr q, dirty_node (dirty_node t p) q)))"

definition node_update :: "'k BplusTree \<Rightarrow> PageNum \<Rightarrow> ('k IndexNode \<Rightarrow> 'k IndexNode) \<Rightarrow> 'k BplusTree" where
  "node_update t p f = (case bt_pages t p of None \<Rightarrow> t | Some node \<Rightarrow> put_node t p (f node))"

definition first_key :: "'k BplusTree \<Rightarrow> PageNum \<Rightarrow> 'k" where
  "first_key t p =
     (case bt_pages t p of
        Some (LeafIndexNode _ _ items) \<Rightarrow> fst (items ! 0)
      | Some (InternalIndexNode _ items) \<Rightarrow> fst (items ! 0)
      | None \<Rightarrow> bt_zero t)"

text \<open>Linking the new page of a split into the parent, which may split in turn.\<close>

partial_function (option) insert_entry_into_parent ::
  "'k comparator \<Rightarrow> 'k BplusTree \<Rightarrow> PageNum \<Rightarrow> PageNum \<Rightarrow> 'k \<Rightarrow> (RC \<times> 'k BplusTree) option" where
  "insert_entry_into_parent cmp t p q key =
     (case get_node t p of
        Inl rc \<Rightarrow> Some (rc, t)
      | Inr node \<Rightarrow>
          (case node_parent node of
             None \<Rightarrow>
               (case allocate_node t of
                  Inl rc \<Rightarrow> Some (rc, t)
                | Inr r \<Rightarrow>
                    let t = put_node t r (create_new_root (bt_zero t) p key q);
                        t = node_update t p (set_parent_page_num (Some r));
                        t = node_update t q (set_parent_page_num (Some r));
                        t = dirty_node (dirty_node t p) q;
                        t = update_root_page_num_locked t (Some r)
                    in Some (SUCCESS, dirty_node t r))
           | Some par \<Rightarrow>
               (case get_node t par of
                  Inl rc \<Rightarrow> Some (rc, t)
                | Inr parent_node \<Rightarrow>
                    if node_size parent_node < max_size (bt_header t) parent_node
                    then
                      let t = put_node t par (InternalIndexNode (node_parent parent_node) (internal_insert cmp key q (internal_items parent_node)));
                          t = node_update t q (set_parent_page_num (Some par))
                      in Some (SUCCESS, dirty_node (dirty_node (dirty_node t p) q) par)
                    else
                      (case split_node t par of
                         (Inl rc, t) \<Rightarrow> Some (rc, t)
                       | (Inr new_par, t) \<Rightarrow>
                           let target = (if cmp key (first_key t new_par) > 0 then new_par else par);
                               t = node_update t target (\<lambda>nd. InternalIndexNode (node_parent nd) (internal_insert cmp key q (internal_items nd)));
                               t = node_update t q (set_parent_page_num (Some target))
                           in insert_entry_into_parent cmp t par new_par (first_key t new_par)))))"

definition insert_entry_into_leaf_node ::
  "'k comparator \<Rightarrow> 'k comparator \<Rightarrow> 'k BplusTree \<Rightarrow> PageNum \<Rightarrow> 'k \<Rightarrow> RID \<Rightarrow> (RC \<times> 'k BplusTree) option" where
  "insert_entry_into_leaf_node cmp acmp t p key rid =
     (case get_node t p of
        Inl rc \<Rightarrow> Some (rc, t)
      | Inr leaf_node \<Rightarrow>
          let (insert_position, exists) = leaf_lookup (if unique (bt_header t) then acmp else cmp) key (leaf_items leaf_node) in
          if exists then Some (RECORD_DUPLICATE_KEY, t)
          else if node_size leaf_node < max_size (bt_header t) leaf_node
          then Some (SUCCESS, dirty_node (put_node t p (leaf_insert insert_position key rid leaf_node)) p)
          else
            (case split_node t p of
               (Inl rc, t) \<Rightarrow> Some (rc, t)
             | (Inr q, t) \<Rightarrow>
                 let t = node_update t q (\<lambda>nd. set_parent_page_num (node_parent leaf_node) (set_next_page (next_brother leaf_node) nd));
                     t = node_update t p (set_next_page (Some q));
                     left_size = length (leaf_items leaf_node) div 2;
                     t = (if insert_position < left_size then node_update t p (leaf_insert insert_position key rid)
                          else node_update t q (leaf_insert (insert_position - left_size) key rid))
                 in insert_entry_into_parent cmp t p q (first_key t q)))"

definition create_new_tree :: "'k BplusTree \<Rightarrow> 'k \<Rightarrow> RID \<Rightarrow> RC \<times> 'k BplusTree" where
  "create_new_tree t key rid =
     (if root_page (bt_header t) \<noteq> None then (INTERNAL, t)
      else
        case allocate_node t of
          Inl rc \<Rightarrow> (rc, t)
        | Inr p \<Rightarrow>
            let t = put_node t p (leaf_insert 0 key rid leaf_init_empty);
                t = update_root_page_num_locked t (Some p)
            in (SUCCESS, dirty_node t p))"

text \<open>\<open>insert_entry\<close> and \<open>delete_entry\<close> for a key that is already made.\<close>

definition insert_key :: "'k comparator \<Rightarrow> 'k comparator \<Rightarrow> 'k BplusTree \<Rightarrow> 'k \<Rightarrow> RID \<Rightarrow> (RC \<times> 'k BplusTree) option" where
  "insert_key cmp acmp t key rid =
     (if tree_is_empty t then Some (create_new_tree t key rid)
      else
        case find_leaf cmp t key of
          None \<Rightarrow> None
        | Some (Inl rc) \<Rightarrow> Some (rc, t)
        | Some (Inr p) \<Rightarrow>
            (case insert_entry_into_leaf_node cmp acmp t p key rid of
               None \<Rightarrow> None
             | Some (rc, t) \<Rightarrow> Some (rc, release_memo t)))"



subsection \<open>Deletion\<close>

definition dispose_node :: "'k BplusTree \<Rightarrow> PageNum \<Rightarrow> 'k BplusTree" where
  "dispose_node t p = t\<lparr>bt_disposed := bt_disposed t @ [p]\<rparr>"

definition adjust_root :: "'k BplusTree \<Rightarrow> PageNum \<Rightarrow> RC \<times> 'k BplusTree" where
  "adjust_root t r =
     (case get_node t r of
        Inl rc \<Rightarrow> (rc, t)
      | Inr root_node \<Rightarrow>
          if is_leaf root_node \<and> node_size root_node > 0 then (SUCCESS, dirty_node t r)
          else if is_leaf root_node then (SUCCESS, dispose_node (update_root_page_num_locked t None) r)
          else
            let c = snd (internal_items root_node ! 0) in
            (case get_node t c of
               Inl rc \<Rightarrow> (rc, t)
             | Inr child \<Rightarrow>
                 let t = put_node t c (set_parent_page_num None child)
                 in (SUCCESS, dispose_node (update_root_page_num_locked t (Some c)) r)))"

text \<open>\<open>move_to\<close>: all items of page \<open>p\<close> to the end of the page \<open>q\<close> on its left.\<close>

definition move_to :: "'k BplusTree \<Rightarrow> PageNum \<Rightarrow> PageNum \<Rightarrow> RC \<times> 'k BplusTree" where
  "move_to t p q =
     (case get_node t p of
        Inl rc \<Rightarrow> (rc, t)
      | Inr (LeafIndexNode par nxt items) \<Rightarrow>
          (case get_node t q of
             Inr (LeafIndexNode par' nxt' items') \<Rightarrow>
               (SUCCESS, put_node (put_node t q (LeafIndexNode par' nxt (items' @ items))) p (LeafIndexNode par nxt []))
           | _ \<Rightarrow> (INTERNAL, t))
      | Inr (InternalIndexNode par items) \<Rightarrow>
          let (rc, t) = copy_from t q items in
          if rc \<noteq> SUCCESS then (rc, t) else (SUCCESS, put_node t p (InternalIndexNode par [])))"

definition move_first_to_end :: "'k BplusTree \<Rightarrow> PageNum \<Rightarrow> PageNum \<Rightarrow> RC \<times> 'k BplusTree" where
  "move_first_to_end t p q =
     (case get_node t p of
        Inl rc \<Rightarrow> (rc, t)
      | Inr (LeafIndexNode par nxt items) \<Rightarrow>
          (case get_node t q of
             Inr (LeafIndexNode par' nxt' items') \<Rightarrow>
               (SUCCESS, put_node (put_node t q (LeafIndexNode par' nxt' (items' @ [items ! 0]))) p (LeafIndexNode par nxt (tl items)))
           | _ \<Rightarrow> (INTERNAL, t))
      | Inr (InternalIndexNode par items) \<Rightarrow>
          let (rc, t) = copy_from t q [items ! 0] in
          if rc \<noteq> SUCCESS then (rc, t) else (rc, put_node t p (InternalIndexNode par (tl items))))"

definition move_last_to_front :: "'k BplusTree \<Rightarrow> PageNum \<Rightarrow> PageNum \<Rightarrow> RC \<times> 'k BplusTree" where
  "move_last_to_front t p q =
     (case get_node t p of
        Inl rc \<Rightarrow> (rc, t)
      | Inr (LeafIndexNode par nxt items) \<Rightarrow>
          (case get_node t q of
             Inr (LeafIndexNode par' nxt' items') \<Rightarrow>
               (SUCCESS, put_node (put_node t q (LeafIndexNode par' nxt' (last items # items'))) p (LeafIndexNode par nxt (butlast items)))
           | _ \<Rightarrow> (INTERNAL, t))
      | Inr (InternalIndexNode par items) \<Rightarrow>
          let (rc, t) = preappend t q (last items) in
          if rc \<noteq> SUCCESS then (rc, t) else (rc, put_node t p (InternalIndexNode par (butlast items))))"

definition redistribute :: "'k BplusTree \<Rightarrow> PageNum \<Rightarrow> PageNum \<Rightarrow> PageNum \<Rightarrow> nat \<Rightarrow> RC \<times> 'k BplusTree" where
  "redistribute t neighbor p parent index =
     (let t = (if index = 0
               then let t = snd (move_first_to_end t neighbor p) in
                    node_update t parent (\<lambda>nd. InternalIndexNode (node_parent nd) (set_key_at (index + 1) (first_key t neighbor) (internal_items nd)))
               else let t = snd (move_last_to_front t neighbor p) in
                    node_update t parent (\<lambda>nd. InternalIndexNode (node_parent nd) (set_key_at index (first_key t p) (internal_items nd))))
      in (SUCCESS, dirty_node (dirty_node (dirty_node t neighbor) p) parent))"

definition last_key :: "'k BplusTree \<Rightarrow> PageNum \<Rightarrow> 'k" where
  "last_key t p =
     (case bt_pages t p of
        Some (LeafIndexNode _ _ items) \<Rightarrow> fst (last items)
      | Some (InternalIndexNode _ items) \<Rightarrow> fst (last items)
      | None \<Rightarrow> bt_zero t)"

text \<open>
  The part of \<open>coalesce\<close> in front of its recursive call: the right one of the two nodes is emptied into
  the left one and disposed. Neither the left node nor the parent is marked dirty.
\<close>

definition coalesce :: "'k BplusTree \<Rightarrow> PageNum \<Rightarrow> PageNum \<Rightarrow> PageNum \<Rightarrow> nat \<Rightarrow> RC \<times> 'k BplusTree" where
  "coalesce t neighbor p parent index =
     (let (left, right, index) = (if index = 0 then (p, neighbor, index + 1) else (neighbor, p, index));
          t = node_update t parent (\<lambda>nd. InternalIndexNode (node_parent nd) (remove_at index (internal_items nd)));
          (rc, t) = move_to t right left in
      if rc \<noteq> SUCCESS then (rc, t)
      else
        let t = (case get_node t right of
                   Inr (LeafIndexNode _ nxt _) \<Rightarrow> node_update t left (set_next_page nxt) | _ \<Rightarrow> t)
        in (SUCCESS, dispose_node t right))"

partial_function (option) coalesce_or_redistribute ::
  "'k comparator \<Rightarrow> 'k BplusTree \<Rightarrow> PageNum \<Rightarrow> (RC \<times> 'k BplusTree) option" where
  "coalesce_or_redistribute cmp t p =
     (case get_node t p of
        Inl rc \<Rightarrow> Some (rc, t)
      | Inr node \<Rightarrow>
          if node_size node \<ge> min_size (bt_header t) node then Some (SUCCESS, t)
          else
            (case node_parent node of
               None \<Rightarrow> Some (SUCCESS, if node_size node > 1 then t else snd (adjust_root t p))
             | Some parent \<Rightarrow>
                 (case get_node t parent of
                    Inl rc \<Rightarrow> Some (rc, t)
                  | Inr parent_node \<Rightarrow>
                      let items = internal_items parent_node;
                          index = fst (internal_lookup cmp (last_key t p) items);
                          neighbor = (if index = 0 then snd (items ! 1) else snd (items ! (index - 1))) in
                      (case get_node t neighbor of
                         Inl rc \<Rightarrow> Some (rc, t)
                       | Inr neighbor_node \<Rightarrow>
                           if node_size node + node_size neighbor_node > max_size (bt_header t) node
                           then Some (redistribute t neighbor p parent index)
                           else
                             let (rc, t) = coalesce t neighbor p parent index in
                             if rc \<noteq> SUCCESS then Some (rc, t) else coalesce_or_redistribute cmp t parent))))"

definition delete_entry_internal :: "'k comparator \<Rightarrow> 'k BplusTree \<Rightarrow> PageNum \<Rightarrow> 'k \<Rightarrow> (RC \<times> 'k BplusTree) option" where
  "delete_entry_internal cmp t p key =
     (case get_node t p of
        Inl rc \<Rightarrow> Some (rc, t)
      | Inr leaf_node \<Rightarrow>
          let (remove_count, leaf_node) = leaf_remove cmp key leaf_node in
          if remove_count = 0 then Some (RECORD_NOT_EXIST, t)
          else
            let t = dirty_node (put_node t p leaf_node) p in
            if node_size leaf_node \<ge> min_size (bt_header t) leaf_node then Some (SUCCESS, t)
            else coalesce_or_redistribute cmp t p)"

definition delete_key :: "'k comparator \<Rightarrow> 'k BplusTree \<Rightarrow> 'k \<Rightarrow> (RC \<times> 'k BplusTree) option" where
  "delete_key cmp t key =
     (case find_leaf cmp t key of
        None \<Rightarrow> None
      | Some (Inl rc) \<Rightarrow> Some (if rc = EMPTY then RECORD_NOT_EXIST else rc, t)
      | Some (Inr p) \<Rightarrow>
          (case delete_entry_internal cmp t p key of
             None \<Rightarrow> None
           | Some (rc, t) \<Rightarrow> Some (rc, release_memo t)))"


subsection \<open>The file\<close>

definition header_create ::
  "AttrType list \<Rightarrow> nat list \<Rightarrow> nat list \<Rightarrow> bool \<Rightarrow> int \<Rightarrow> int \<Rightarrow> IndexFileHeader" where
  "header_create types lengths offsets uniq internal_max leaf_max =
     (let attr_sum_length = sum_list lengths;
          internal_max = (if internal_max < 0 then calc_internal_page_capacity (int attr_sum_length) else internal_max);
          leaf_max = (if leaf_max < 0 then calc_leaf_page_capacity (int attr_sum_length) else leaf_max) in
      \<lparr>root_page = None, internal_max_size = nat internal_max, leaf_max_size = nat leaf_max, unique = uniq,
       key_length = attr_sum_length + 8, attr_offsets = offsets, attr_lengths = lengths, attr_types = types\<rparr>)"

text \<open>What the buffer pool does when it writes a page of the file, and when it evicts a page and reads it again.\<close>

definition tree_flush_page :: "'k BplusTree \<Rightarrow> PageNum \<Rightarrow> RC \<times> 'k BplusTree" where
  "tree_flush_page t p =
     (if \<not> if_writable (bt_file t) then (IOERR_WRITE, t)
      else
        (SUCCESS, t\<lparr>bt_dirty := bt_dirty t - {p},
           bt_file :=
             if p = BP_HEADER_PAGE then (bt_file t)\<lparr>if_alloc := dom (bt_pages t)\<rparr>
             else if p = FIRST_INDEX_PAGE then (bt_file t)\<lparr>if_header := bt_stored t\<rparr>
             else (bt_file t)\<lparr>if_nodes := (if_nodes (bt_file t))(p := bt_pages t p)\<rparr>\<rparr>))"

fun tree_flush_all :: "'k BplusTree \<Rightarrow> PageNum list \<Rightarrow> RC \<times> 'k BplusTree" where
  "tree_flush_all t [] = (SUCCESS, t)"
| "tree_flush_all t (p # ps) =
     (let (rc, t) = tree_flush_page t p in if rc \<noteq> SUCCESS then (rc, t) else tree_flush_all t ps)"

definition tree_evict :: "'k BplusTree \<Rightarrow> PageNum \<Rightarrow> 'k BplusTree" where
  "tree_evict t p =
     (let (rc, t) = (if p \<in> bt_dirty t then tree_flush_page t p else (SUCCESS, t)) in
      if rc \<noteq> SUCCESS \<or> p = BP_HEADER_PAGE then t
      else if p = FIRST_INDEX_PAGE then t\<lparr>bt_stored := if_header (bt_file t)\<rparr>
      else if bt_pages t p = None then t
      else t\<lparr>bt_pages := (bt_pages t)(p := if_nodes (bt_file t) p)\<rparr>)"

text \<open>
  The pages of the file that are in frames when \<open>flush_all_pages\<close> lists them are an argument of \<open>sync\<close>.
  They stay pinned afterwards (lemma \<open>flush_all_pages_leaks_pins\<close> of the buffer pool); the pins have no
  counterpart here.
\<close>

definition tree_sync :: "PageNum list \<Rightarrow> 'k BplusTree \<Rightarrow> RC \<times> 'k BplusTree" where
  "tree_sync frames t =
     (let t = (if bt_header_dirty t
               then t\<lparr>bt_stored := bt_header t, bt_header_dirty := False, bt_dirty := insert FIRST_INDEX_PAGE (bt_dirty t)\<rparr> else t)
      in tree_flush_all t frames)"

text \<open>The file has just been created and extended by a page of zeros when \<open>create\<close> fills in the header.\<close>

definition zero_header :: IndexFileHeader where
  "zero_header = \<lparr>root_page = Some 0, internal_max_size = 0, leaf_max_size = 0, unique = False, key_length = 0,
     attr_offsets = [], attr_lengths = [], attr_types = []\<rparr>"

definition tree_create ::
  "AttrType list \<Rightarrow> nat list \<Rightarrow> nat list \<Rightarrow> bool \<Rightarrow> int \<Rightarrow> int \<Rightarrow> 'k \<Rightarrow> 'k BplusTree" where
  "tree_create types lengths offsets uniq internal_max leaf_max zero =
     (let hdr = header_create types lengths offsets uniq internal_max leaf_max in
      snd (tree_sync [FIRST_INDEX_PAGE, BP_HEADER_PAGE]
        \<lparr>bt_header = hdr, bt_header_dirty = False, bt_stored = hdr, bt_zero = zero, bt_pages = Map.empty,
         bt_dirty = {FIRST_INDEX_PAGE}, bt_disposed = [],
         bt_file = \<lparr>if_alloc = {}, if_header = zero_header, if_nodes = Map.empty, if_writable = True\<rparr>\<rparr>))"

text \<open>\<open>open\<close> in a process that has none of the file's pages in its frames: everything comes from the file.\<close>

definition tree_reopen :: "'k BplusTree \<Rightarrow> 'k BplusTree" where
  "tree_reopen t =
     (let f = bt_file t in
      t\<lparr>bt_header := if_header f, bt_header_dirty := False, bt_stored := if_header f,
        bt_pages := if_nodes f |` if_alloc f, bt_dirty := {}, bt_disposed := []\<rparr>)"


subsection \<open>Keys\<close>

definition index_attr_list :: "IndexFileHeader \<Rightarrow> (AttrType \<times> nat) list" where
  "index_attr_list hdr = zip (attr_types hdr) (attr_lengths hdr)"

definition make_key :: "IndexFileHeader \<Rightarrow> byte list \<Rightarrow> RID \<Rightarrow> key" where
  "make_key hdr user_key rid =
     (concat (map (\<lambda>(off, len). take len (drop off user_key)) (zip (attr_offsets hdr) (attr_lengths hdr))), rid)"

definition insert_entry :: "float_sub \<Rightarrow> key BplusTree \<Rightarrow> byte list \<Rightarrow> RID \<Rightarrow> (RC \<times> key BplusTree) option" where
  "insert_entry fsub t user_key rid =
     (let attrs = index_attr_list (bt_header t) in
      insert_key (key_compare fsub attrs) (attr_comparator fsub attrs) t (make_key (bt_header t) user_key rid) rid)"

definition delete_entry :: "float_sub \<Rightarrow> key BplusTree \<Rightarrow> byte list \<Rightarrow> RID \<Rightarrow> (RC \<times> key BplusTree) option" where
  "delete_entry fsub t user_key rid =
     (let attrs = index_attr_list (bt_header t) in
      delete_key (key_compare fsub attrs) t (make_key (bt_header t) user_key rid))"

end
