(* ===== verification/BplusInv.thy ===== *)
theory BplusInv
  imports BplusTree
begin

text \<open>
  The invariant of a B+ tree stored in pages, and the steps an insertion is made of.

  Every page has a range of ranks and a level, which the code does not store: the ghost record below.
  The invariant is local. The children of an internal node divide its range at its keys; the keys of a
  leaf are sorted and lie in its range; the leaves are linked by ascending ranges; every node but the
  root is a child of the node it names as its parent. While a node is being split, the new node is not
  yet a child of anything: the pair of the two nodes is the argument \<open>pend\<close> of the invariant.
\<close>

section \<open>Ranges\<close>

definition above :: "'o::linorder option \<Rightarrow> 'o \<Rightarrow> bool" where
  "above lo r \<longleftrightarrow> (case lo of None \<Rightarrow> True | Some l \<Rightarrow> l \<le> r)"

definition strictly_above :: "'o::linorder option \<Rightarrow> 'o \<Rightarrow> bool" where
  "strictly_above lo r \<longleftrightarrow> (case lo of None \<Rightarrow> True | Some l \<Rightarrow> l < r)"

definition below :: "'o::linorder option \<Rightarrow> 'o \<Rightarrow> bool" where
  "below hi r \<longleftrightarrow> (case hi of None \<Rightarrow> True | Some h \<Rightarrow> r < h)"

lemma range_simps [simp]:
  "above None r" "above (Some l) r \<longleftrightarrow> l \<le> r" "strictly_above None r" "strictly_above (Some l) r \<longleftrightarrow> l < r"
  "below None r" "below (Some h) r \<longleftrightarrow> r < h"
  by (simp_all add: above_def strictly_above_def below_def)

lemma range_trans:
  "strictly_above lo r \<Longrightarrow> above lo r" "strictly_above lo r \<Longrightarrow> r \<le> r' \<Longrightarrow> strictly_above lo r'" "above lo r \<Longrightarrow> r \<le> r' \<Longrightarrow> above lo r'"
  "below hi r \<Longrightarrow> r' \<le> r \<Longrightarrow> below hi r'"
  by (auto simp: above_def strictly_above_def below_def split: option.splits)

record 'o ghost =
  g_lo :: "PageNum \<Rightarrow> 'o option"
  g_hi :: "PageNum \<Rightarrow> 'o option"
  g_lvl :: "PageNum \<Rightarrow> nat"


section \<open>The children of a node\<close>

fun kids_ok :: "('k \<Rightarrow> 'o::linorder) \<Rightarrow> ('o option \<Rightarrow> 'o option \<Rightarrow> PageNum \<Rightarrow> bool) \<Rightarrow> 'o option \<Rightarrow> 'o option \<Rightarrow> ('k \<times> PageNum) list \<Rightarrow> bool" where
  "kids_ok rank C lo hi [] \<longleftrightarrow> False"
| "kids_ok rank C lo hi [(k, c)] \<longleftrightarrow> C lo hi c"
| "kids_ok rank C lo hi ((k, c) # (k', c') # items) \<longleftrightarrow>
     C lo (Some (rank k')) c \<and> strictly_above lo (rank k') \<and> below hi (rank k') \<and> kids_ok rank C (Some (rank k')) hi ((k', c') # items)"

lemma kids_nonempty: "kids_ok rank C lo hi items \<Longrightarrow> items \<noteq> []"
  by auto

lemma kids_append:
  "xs \<noteq> [] \<Longrightarrow> kids_ok rank C lo hi (xs @ (k, c) # ys) \<longleftrightarrow>
     kids_ok rank C lo (Some (rank k)) xs \<and> strictly_above lo (rank k) \<and> below hi (rank k) \<and> kids_ok rank C (Some (rank k)) hi ((k, c) # ys)"
proof (induction xs arbitrary: lo)
  case (Cons x xs)
  obtain k0 c0 where x: "x = (k0, c0)" by fastforce
  show ?case
  proof (cases xs)
    case Nil
    then show ?thesis by (auto simp: x)
  next
    case (Cons y zs)
    then obtain k1 c1 where y: "y = (k1, c1)" by fastforce
    have "kids_ok rank C (Some (rank k1)) hi (xs @ (k, c) # ys) \<longleftrightarrow>
      kids_ok rank C (Some (rank k1)) (Some (rank k)) xs \<and> rank k1 < rank k \<and> below hi (rank k) \<and> kids_ok rank C (Some (rank k)) hi ((k, c) # ys)"
      using Cons.IH Cons by simp
    then show ?thesis
      by (auto simp: x y Cons less_imp_le intro: range_trans(2) range_trans(4))
  qed
qed simp

lemma kids_keys:
  assumes "kids_ok rank C lo hi items"
  shows "sorted_wrt (<) (map (\<lambda>x. rank (fst x)) (tl items))" "x \<in> set (tl items) \<Longrightarrow> strictly_above lo (rank (fst x)) \<and> below hi (rank (fst x))"
proof -
  have "sorted_wrt (<) (map (\<lambda>x. rank (fst x)) (tl items)) \<and> (\<forall>x \<in> set (tl items). strictly_above lo (rank (fst x)) \<and> below hi (rank (fst x)))"
    using assms
  proof (induction rank C lo hi items rule: kids_ok.induct)
    case (3 rank C lo hi k c k' c' items)
    have IH: "sorted_wrt (<) (map (\<lambda>x. rank (fst x)) items)" "\<forall>x \<in> set items. rank k' < rank (fst x) \<and> below hi (rank (fst x))"
      using "3.IH" "3.prems" by simp_all
    then show ?case using "3.prems" by (auto intro: range_trans(2) less_imp_le)
  qed simp_all
  then show "sorted_wrt (<) (map (\<lambda>x. rank (fst x)) (tl items))" "x \<in> set (tl items) \<Longrightarrow> strictly_above lo (rank (fst x)) \<and> below hi (rank (fst x))"
    by blast+
qed

lemma kids_mono:
  assumes "kids_ok rank C lo hi items" "\<And>lo hi c. c \<in> snd ` set items \<Longrightarrow> C lo hi c \<Longrightarrow> C' lo hi c"
  shows "kids_ok rank C' lo hi items"
  using assms by (induction rank C lo hi items rule: kids_ok.induct) auto

text \<open>The child whose range contains a rank is found by counting keys.\<close>

definition child_index :: "('k \<Rightarrow> 'o::linorder) \<Rightarrow> 'o \<Rightarrow> ('k \<times> PageNum) list \<Rightarrow> nat" where
  "child_index rank r items = length (takeWhile (\<lambda>x. rank (fst x) \<le> r) (tl items))"

lemma kids_search:
  assumes "kids_ok rank C lo hi items" "above lo r" "below hi r"
  shows "child_index rank r items < length items \<and>
    (\<exists>lo' hi'. C lo' hi' (snd (items ! child_index rank r items)) \<and> above lo' r \<and> below hi' r)"
  using assms
proof (induction rank C lo hi items rule: kids_ok.induct)
  case (3 rank C lo hi k c k' c' items)
  show ?case
  proof (cases "rank k' \<le> r")
    case True
    have "child_index rank r ((k', c') # items) < length ((k', c') # items) \<and>
      (\<exists>lo' hi'. C lo' hi' (snd (((k', c') # items) ! child_index rank r ((k', c') # items))) \<and> above lo' r \<and> below hi' r)"
      using "3.IH" "3.prems" True by simp
    then show ?thesis using True by (simp add: child_index_def)
  next
    case False
    then have "child_index rank r ((k, c) # (k', c') # items) = 0" by (simp add: child_index_def)
    then show ?thesis using "3.prems" False by (intro conjI exI [of _ lo] exI [of _ "Some (rank k')"]) simp_all
  qed
qed (auto simp: child_index_def)

lemma kids_member:
  assumes "kids_ok rank C lo hi items" "c \<in> snd ` set items"
  obtains xs k ys lo' hi' where "items = xs @ (k, c) # ys" "C lo' hi' c"
    "lo' = (if xs = [] then lo else Some (rank k))" "hi' = (case ys of [] \<Rightarrow> hi | (k', _) # _ \<Rightarrow> Some (rank k'))"
proof -
  obtain xs k ys where items: "items = xs @ (k, c) # ys" using assms(2) by (auto simp: in_set_conv_decomp)
  let ?lo = "if xs = [] then lo else Some (rank k)"
  have k: "kids_ok rank C ?lo hi ((k, c) # ys)"
    using assms(1) kids_append [of xs rank C lo hi k c ys] by (cases "xs = []") (simp_all add: items)
  show thesis
  proof (cases ys)
    case Nil
    then show ?thesis using k that [OF items _ refl refl] by simp
  next
    case (Cons y zs)
    then show ?thesis using k that [OF items _ refl refl] by (cases y) simp
  qed
qed

definition left_bound :: "('k \<Rightarrow> 'o) \<Rightarrow> 'o option \<Rightarrow> ('k \<times> PageNum) list \<Rightarrow> 'k \<Rightarrow> 'o option" where
  "left_bound rank lo xs k = (if xs = [] then lo else Some (rank k))"

definition right_bound :: "('k \<Rightarrow> 'o) \<Rightarrow> 'o option \<Rightarrow> ('k \<times> PageNum) list \<Rightarrow> 'o option" where
  "right_bound rank hi ys = (case ys of [] \<Rightarrow> hi | (k', _) # _ \<Rightarrow> Some (rank k'))"

lemma kids_at:
  assumes "kids_ok rank C lo hi (xs @ (k, c) # ys)"
  shows "C (left_bound rank lo xs k) (right_bound rank hi ys) c"
proof -
  have k: "kids_ok rank C (left_bound rank lo xs k) hi ((k, c) # ys)"
    using assms kids_append [of xs rank C lo hi k c ys] by (cases "xs = []") (simp_all add: left_bound_def)
  then show ?thesis by (cases ys) (auto simp: right_bound_def)
qed

text \<open>The number of keys that a test holds for, when it holds left of a child and not right of it.\<close>

lemma kids_count:
  assumes "kids_ok rank C lo hi (xs @ (k, c) # ys)" "\<And>a b. a < b \<Longrightarrow> P b \<Longrightarrow> P a"
    and "xs \<noteq> [] \<Longrightarrow> P (rank k)" "\<And>k' c' zs. ys = (k', c') # zs \<Longrightarrow> \<not> P (rank k')"
  shows "length (takeWhile (\<lambda>x. P (rank (fst x))) (tl (xs @ (k, c) # ys))) = length xs"
proof -
  have right: "takeWhile (\<lambda>x. P (rank (fst x))) ys = []"
    using assms(4) by (cases ys) auto
  show ?thesis
  proof (cases xs)
    case Nil
    then show ?thesis using right by simp
  next
    case (Cons x zs)
    have "sorted_wrt (<) (map (\<lambda>x. rank (fst x)) (zs @ (k, c) # ys))" using kids_keys(1) [OF assms(1)] Cons by simp
    then have "\<forall>z \<in> set zs. P (rank (fst z))"
      using assms(2,3) Cons by (auto simp: sorted_wrt_append)
    then show ?thesis using Cons right assms(3) by simp
  qed
qed

lemma kids_index:
  assumes "kids_ok rank C lo hi (xs @ (k, c) # ys)" "above (left_bound rank lo xs k) r" "below (right_bound rank hi ys) r"
  shows "child_index rank r (xs @ (k, c) # ys) = length xs"
  unfolding child_index_def
  by (rule kids_count [OF assms(1)]) (use assms(2,3) in \<open>auto simp: left_bound_def right_bound_def\<close>)

lemma kids_insert_index:
  assumes "kids_ok rank C lo hi (xs @ (k, c) # ys)" "strictly_above (left_bound rank lo xs k) r" "below (right_bound rank hi ys) r"
  shows "length (takeWhile (\<lambda>x. rank (fst x) < r) (tl (xs @ (k, c) # ys))) = length xs"
  by (rule kids_count [OF assms(1), where P = "\<lambda>a. a < r"]) (use assms(2,3) in \<open>auto simp: left_bound_def right_bound_def\<close>)

lemma kids_unique:
  assumes "kids_ok rank C lo hi items" "\<And>lo hi c. C lo hi c \<Longrightarrow> L c = lo \<and> H c = hi"
    "c \<in> snd ` set items" "d \<in> snd ` set items" "above (L c) r" "below (H c) r" "above (L d) r" "below (H d) r"
  shows "c = d"
proof -
  have at: "snd (items ! child_index rank r items) = c'" if "c' \<in> snd ` set items" "above (L c') r" "below (H c') r" for c'
  proof -
    obtain xs k ys where items: "items = xs @ (k, c') # ys" using \<open>c' \<in> snd ` set items\<close> by (auto simp: in_set_conv_decomp)
    have "child_index rank r items = length xs"
      unfolding items by (rule kids_index) (use assms(1,2) kids_at [of rank C lo hi xs k c' ys] that items in auto)
    then show ?thesis by (simp add: items)
  qed
  show ?thesis using at [OF assms(3,5,6)] at [OF assms(4,7,8)] by simp
qed

lemma kids_distinct:
  assumes "kids_ok rank C lo hi (xs @ (k, c) # ys)" "\<And>lo hi c. C lo hi c \<Longrightarrow> L c = lo"
  shows "c \<notin> snd ` set ys"
proof
  assume "c \<in> snd ` set ys"
  then obtain ys1 k' ys2 where ys: "ys = ys1 @ (k', c) # ys2" by (auto simp: in_set_conv_decomp)
  have "L c = Some (rank k')" using kids_at [of rank C lo hi "xs @ (k, c) # ys1" k' c ys2] assms ys by (simp add: left_bound_def)
  moreover have "L c = left_bound rank lo xs k" using kids_at [OF assms(1)] assms(2) by blast
  moreover have "strictly_above (left_bound rank lo xs k) (rank k')"
  proof (cases xs)
    case Nil
    then show ?thesis using kids_keys(2) [OF assms(1), of "(k', c)"] by (simp add: ys left_bound_def)
  next
    case (Cons x zs)
    then show ?thesis using kids_keys(1) [OF assms(1)] by (simp add: ys left_bound_def sorted_wrt_append)
  qed
  ultimately show False by simp
qed

text \<open>A child is replaced by two children that divide its range.\<close>

lemma kids_divide:
  assumes "kids_ok rank C lo hi (xs @ (k, c) # ys)"
    and "\<And>lo hi c'. c' \<in> snd ` set (xs @ ys) \<Longrightarrow> C lo hi c' \<Longrightarrow> C' lo hi c'"
    and "\<And>lo hi. C lo hi c \<Longrightarrow> C' lo (Some (rank key)) c \<and> C' (Some (rank key)) hi d \<and> strictly_above lo (rank key) \<and> below hi (rank key)"
  shows "kids_ok rank C' lo hi (xs @ (k, c) # (key, d) # ys)"
proof -
  let ?l = "left_bound rank lo xs k" and ?r = "right_bound rank hi ys"
  have mid: "C' ?l (Some (rank key)) c" "C' (Some (rank key)) ?r d" "strictly_above ?l (rank key)" "below ?r (rank key)"
    using assms(3) [OF kids_at [OF assms(1)]] by simp_all
  have rest: "kids_ok rank C ?l hi ((k, c) # ys)"
    using assms(1) kids_append [of xs rank C lo hi k c ys] by (cases "xs = []") (simp_all add: left_bound_def)
  have right: "kids_ok rank C' ?l hi ((k, c) # (key, d) # ys)"
  proof (cases ys)
    case Nil
    then show ?thesis using mid by (simp add: right_bound_def)
  next
    case (Cons y zs)
    obtain k' c' where y: "y = (k', c')" by fastforce
    have "kids_ok rank C (Some (rank k')) hi ((k', c') # zs)" using rest unfolding Cons y by simp
    then have "kids_ok rank C' (Some (rank k')) hi ((k', c') # zs)"
      by (rule kids_mono, intro assms(2)) (auto simp: Cons y image_iff)
    then show ?thesis using mid rest unfolding Cons y right_bound_def by (auto intro: range_trans(4))
  qed
  show ?thesis
  proof (cases "xs = []")
    case True
    then show ?thesis using right by (simp add: left_bound_def)
  next
    case False
    have l: "kids_ok rank C lo (Some (rank k)) xs" "strictly_above lo (rank k)" "below hi (rank k)"
      using assms(1) kids_append [OF False, of rank C lo hi k c ys] by simp_all
    have "kids_ok rank C' lo (Some (rank k)) xs" by (rule kids_mono [OF l(1)], intro assms(2)) auto
    then show ?thesis using False l right kids_append [OF False, of rank C' lo hi k c "(key, d) # ys"] by (simp add: left_bound_def)
  qed
qed


section \<open>The invariant\<close>

text \<open>
  Three views of the pages: the leaves with their successors and items, the children of the internal
  nodes, and the parents. A change of one of them leaves the clauses about the others as they are.
\<close>

type_synonym 'k nodes = "PageNum \<rightharpoonup> 'k IndexNode"
type_synonym 'k leaf_view = "PageNum \<rightharpoonup> PageNum option \<times> ('k \<times> RID) list"
type_synonym 'k kids_view = "PageNum \<rightharpoonup> ('k \<times> PageNum) list"
type_synonym parent_view = "PageNum \<rightharpoonup> PageNum option"

definition leaf_of :: "'k nodes \<Rightarrow> 'k leaf_view" where
  "leaf_of N p = (case N p of Some (LeafIndexNode _ nxt items) \<Rightarrow> Some (nxt, items) | _ \<Rightarrow> None)"

definition kids_of :: "'k nodes \<Rightarrow> 'k kids_view" where
  "kids_of N p = (case N p of Some (InternalIndexNode _ items) \<Rightarrow> Some items | _ \<Rightarrow> None)"

definition parent_of :: "'k nodes \<Rightarrow> parent_view" where
  "parent_of N p = map_option node_parent (N p)"

type_synonym pending = "(PageNum \<times> PageNum) option"

definition new_node_of :: "pending \<Rightarrow> PageNum set" where
  "new_node_of pend = (case pend of None \<Rightarrow> {} | Some (_, q) \<Rightarrow> {q})"

text \<open>The end of the range that the parent of a page still records for it.\<close>

definition parent_hi :: "'o ghost \<Rightarrow> pending \<Rightarrow> PageNum \<Rightarrow> 'o option" where
  "parent_hi g pend c = (case pend of None \<Rightarrow> g_hi g c | Some (p, q) \<Rightarrow> if c = p then g_hi g q else g_hi g c)"

definition in_range :: "'o::linorder ghost \<Rightarrow> PageNum \<Rightarrow> 'o \<Rightarrow> bool" where
  "in_range g p r \<longleftrightarrow> above (g_lo g p) r \<and> below (g_hi g p) r"

definition leaves_ok :: "('k \<Rightarrow> 'o::linorder) \<Rightarrow> 'k leaf_view \<Rightarrow> 'o ghost \<Rightarrow> bool" where
  "leaves_ok rank Lf g \<longleftrightarrow> (\<forall>p nxt items. Lf p = Some (nxt, items) \<longrightarrow>
     g_lvl g p = 0 \<and> items \<noteq> [] \<and> sorted_wrt (<) (map (\<lambda>x. rank (fst x)) items) \<and> (\<forall>x \<in> set items. in_range g p (rank (fst x))))"

definition link_ok :: "PageNum set \<Rightarrow> 'o ghost \<Rightarrow> PageNum \<Rightarrow> PageNum option \<Rightarrow> bool" where
  "link_ok leaves g p nxt \<longleftrightarrow>
     (case nxt of None \<Rightarrow> g_hi g p = None | Some q \<Rightarrow> g_hi g p \<noteq> None \<and> g_lo g q = g_hi g p \<and> q \<in> leaves)"

definition chain_ok :: "'k leaf_view \<Rightarrow> 'o ghost \<Rightarrow> bool" where
  "chain_ok Lf g \<longleftrightarrow> (\<forall>p nxt items. Lf p = Some (nxt, items) \<longrightarrow> link_ok (dom Lf) g p nxt)"

definition child_ok :: "parent_view \<Rightarrow> 'o ghost \<Rightarrow> pending \<Rightarrow> PageNum \<Rightarrow> 'o option \<Rightarrow> 'o option \<Rightarrow> PageNum \<Rightarrow> bool" where
  "child_ok P g pend p lo hi c \<longleftrightarrow>
     P c = Some (Some p) \<and> g_lvl g p = Suc (g_lvl g c) \<and> g_lo g c = lo \<and> parent_hi g pend c = hi \<and> c \<notin> new_node_of pend"

definition kids_all_ok :: "('k \<Rightarrow> 'o::linorder) \<Rightarrow> 'k kids_view \<Rightarrow> parent_view \<Rightarrow> 'o ghost \<Rightarrow> pending \<Rightarrow> bool" where
  "kids_all_ok rank K P g pend \<longleftrightarrow>
     (\<forall>p items. K p = Some items \<longrightarrow> kids_ok rank (child_ok P g pend p) (g_lo g p) (g_hi g p) items)"

definition parents_ok :: "'k kids_view \<Rightarrow> parent_view \<Rightarrow> pending \<Rightarrow> PageNum \<Rightarrow> bool" where
  "parents_ok K P pend r \<longleftrightarrow> (\<forall>p par. P p = Some par \<longrightarrow> p \<notin> new_node_of pend \<longrightarrow>
     (case par of None \<Rightarrow> p = r | Some q \<Rightarrow> \<exists>items. K q = Some items \<and> p \<in> snd ` set items))"

definition root_ok :: "parent_view \<Rightarrow> 'o ghost \<Rightarrow> pending \<Rightarrow> PageNum \<Rightarrow> bool" where
  "root_ok P g pend r \<longleftrightarrow> P r = Some None \<and> r \<notin> new_node_of pend \<and> g_lo g r = None \<and> parent_hi g pend r = None \<and>
     (\<forall>p. P p \<noteq> None \<longrightarrow> g_lvl g p \<le> g_lvl g r)"

definition pend_ok :: "parent_view \<Rightarrow> 'o::linorder ghost \<Rightarrow> pending \<Rightarrow> bool" where
  "pend_ok P g pend \<longleftrightarrow> (case pend of None \<Rightarrow> True | Some (p, q) \<Rightarrow>
     p \<noteq> q \<and> P p \<noteq> None \<and> P q \<noteq> None \<and> g_lvl g q = g_lvl g p \<and> g_hi g p = g_lo g q \<and>
     (\<exists>s. g_lo g q = Some s \<and> strictly_above (g_lo g p) s \<and> below (g_hi g q) s))"

definition tree_shape :: "('k \<Rightarrow> 'o::linorder) \<Rightarrow> 'k nodes \<Rightarrow> 'o ghost \<Rightarrow> pending \<Rightarrow> PageNum \<Rightarrow> bool" where
  "tree_shape rank N g pend r \<longleftrightarrow>
     root_ok (parent_of N) g pend r \<and> leaves_ok rank (leaf_of N) g \<and> chain_ok (leaf_of N) g \<and>
     kids_all_ok rank (kids_of N) (parent_of N) g pend \<and> parents_ok (kids_of N) (parent_of N) pend r \<and>
     pend_ok (parent_of N) g pend"

lemma views_none:
  "leaf_of N p = None \<and> kids_of N p = None \<longleftrightarrow> N p = None" "parent_of N p = None \<longleftrightarrow> N p = None"
  by (auto simp: leaf_of_def kids_of_def parent_of_def split: option.splits IndexNode.splits)

lemma views_fresh:
  assumes "N p = None"
  shows "leaf_of N p = None" "kids_of N p = None" "parent_of N p = None"
  using assms by (simp_all add: leaf_of_def kids_of_def parent_of_def)

lemma views_update [simp]:
  "leaf_of (N(p \<mapsto> LeafIndexNode par nxt items)) = (leaf_of N)(p \<mapsto> (nxt, items))"
  "leaf_of (N(p \<mapsto> InternalIndexNode par kids)) = (leaf_of N)(p := None)"
  "kids_of (N(p \<mapsto> LeafIndexNode par nxt items)) = (kids_of N)(p := None)"
  "kids_of (N(p \<mapsto> InternalIndexNode par kids)) = (kids_of N)(p \<mapsto> kids)"
  "parent_of (N(p \<mapsto> node)) = (parent_of N)(p \<mapsto> node_parent node)"
  by (auto simp: leaf_of_def kids_of_def parent_of_def)

lemma parent_hi_simps [simp]:
  "parent_hi g None c = g_hi g c" "parent_hi g (Some (p, q)) p = g_hi g q" "c \<noteq> p \<Longrightarrow> parent_hi g (Some (p, q)) c = g_hi g c"
  "new_node_of None = {}" "new_node_of (Some (p, q)) = {q}"
  by (simp_all add: parent_hi_def new_node_of_def)

lemma views_same:
  "N p = Some (LeafIndexNode par nxt items) \<Longrightarrow> (kids_of N)(p := None) = kids_of N"
  "N p = Some (InternalIndexNode par kids) \<Longrightarrow> (leaf_of N)(p := None) = leaf_of N"
  "N p = Some node \<Longrightarrow> par = node_parent node \<Longrightarrow> (parent_of N)(p \<mapsto> par) = parent_of N"
  by (auto simp: kids_of_def leaf_of_def parent_of_def fun_eq_iff)

lemma views_at:
  "N p = Some (LeafIndexNode par nxt items) \<Longrightarrow> leaf_of N p = Some (nxt, items)"
  "N p = Some (InternalIndexNode par kids) \<Longrightarrow> kids_of N p = Some kids"
  "N p = Some node \<Longrightarrow> parent_of N p = Some (node_parent node)"
  by (simp_all add: kids_of_def leaf_of_def parent_of_def)

lemma link_mono:
  assumes "link_ok S g p nxt" "S \<subseteq> S'" "g_hi g' p' = g_hi g p" "\<And>q. q \<in> S \<Longrightarrow> g_lo g' q = g_lo g q"
  shows "link_ok S' g' p' nxt"
  using assms by (auto simp: link_ok_def split: option.splits)

lemma leaves_frame:
  assumes "leaves_ok rank Lf g" "chain_ok Lf g"
    and "\<And>x. x \<in> dom Lf \<Longrightarrow> g_lo g' x = g_lo g x \<and> g_hi g' x = g_hi g x \<and> g_lvl g' x = g_lvl g x"
  shows "leaves_ok rank Lf g' \<and> chain_ok Lf g'"
proof
  show "leaves_ok rank Lf g'" using assms(1,3) by (simp add: leaves_ok_def in_range_def domI)
  have "link_ok (dom Lf) g' p nxt" if "Lf p = Some (nxt, items)" for p nxt items
    by (rule link_mono [of "dom Lf" g p]) (use assms(2,3) that in \<open>auto simp: chain_ok_def\<close>)
  then show "chain_ok Lf g'" unfolding chain_ok_def by blast
qed

lemma leaf_of_SomeE:
  assumes "leaf_of N p = Some (nxt, items)"
  obtains par where "N p = Some (LeafIndexNode par nxt items)"
  using assms by (auto simp: leaf_of_def split: option.splits IndexNode.splits)

lemma kids_of_SomeE:
  assumes "kids_of N p = Some items"
  obtains par where "N p = Some (InternalIndexNode par items)"
  using assms by (auto simp: kids_of_def split: option.splits IndexNode.splits)


section \<open>What the invariant gives\<close>

lemma shapeD:
  assumes "tree_shape rank N g pend r"
  shows "root_ok (parent_of N) g pend r" "leaves_ok rank (leaf_of N) g" "chain_ok (leaf_of N) g"
    "kids_all_ok rank (kids_of N) (parent_of N) g pend" "parents_ok (kids_of N) (parent_of N) pend r" "pend_ok (parent_of N) g pend"
  using assms by (simp_all add: tree_shape_def)

lemma shape_leaf:
  assumes "tree_shape rank N g pend r" "N p = Some (LeafIndexNode par nxt items)"
  shows "g_lvl g p = 0" "items \<noteq> []" "sorted_wrt (<) (map (\<lambda>x. rank (fst x)) items)" "x \<in> set items \<Longrightarrow> in_range g p (rank (fst x))"
  using shapeD(2) [OF assms(1)] views_at(1) [of N p, OF assms(2)] unfolding leaves_ok_def by blast+

lemma shape_kids:
  assumes "tree_shape rank N g pend r" "N p = Some (InternalIndexNode par items)"
  shows "kids_ok rank (child_ok (parent_of N) g pend p) (g_lo g p) (g_hi g p) items"
  using shapeD(4) [OF assms(1)] views_at(2) [of N p, OF assms(2)] unfolding kids_all_ok_def by blast

text \<open>The range of a child lies in the range of its parent.\<close>

lemma child_in_parent:
  assumes "kids_ok rank (child_ok P g None p) (g_lo g p) (g_hi g p) items" "c \<in> snd ` set items" "in_range g c r"
  shows "in_range g p r"
proof -
  obtain xs k ys where items: "items = xs @ (k, c) # ys" using assms(2) by (auto simp: in_set_conv_decomp)
  have c: "g_lo g c = left_bound rank (g_lo g p) xs k" "g_hi g c = right_bound rank (g_hi g p) ys"
    using kids_at [of rank "child_ok P g None p" "g_lo g p" "g_hi g p" xs k c ys] assms(1) items by (simp_all add: child_ok_def)
  have key: "x \<in> set (tl items) \<Longrightarrow> strictly_above (g_lo g p) (rank (fst x)) \<and> below (g_hi g p) (rank (fst x))" for x
    by (rule kids_keys(2) [OF assms(1)])
  have "above (g_lo g p) r"
    using key [of "(k, c)"] assms(3) by (cases xs) (auto simp: items in_range_def c left_bound_def intro: range_trans)
  moreover have "below (g_hi g p) r"
  proof (cases ys)
    case Nil
    then show ?thesis using assms(3) by (simp add: in_range_def c right_bound_def)
  next
    case (Cons y zs)
    then have "y \<in> set (tl items)" by (cases xs) (auto simp: items)
    moreover have "r < rank (fst y)" using assms(3) Cons by (auto simp: in_range_def c right_bound_def split: prod.splits)
    ultimately show ?thesis using key range_trans(4) less_imp_le by blast
  qed
  ultimately show ?thesis by (simp add: in_range_def)
qed

lemma child_okD:
  assumes "tree_shape rank N g pend r" "N p = Some (InternalIndexNode par items)" "c \<in> snd ` set items"
  shows "parent_of N c = Some (Some p)" "N c \<noteq> None" "g_lvl g p = Suc (g_lvl g c)" "c \<notin> new_node_of pend"
proof -
  obtain xs k ys where items: "items = xs @ (k, c) # ys" using assms(3) by (auto simp: in_set_conv_decomp)
  have "child_ok (parent_of N) g pend p (left_bound rank (g_lo g p) xs k) (right_bound rank (g_hi g p) ys) c"
    by (rule kids_at) (use shape_kids [OF assms(1,2)] items in simp)
  then show "parent_of N c = Some (Some p)" "N c \<noteq> None" "g_lvl g p = Suc (g_lvl g c)" "c \<notin> new_node_of pend"
    by (auto simp: child_ok_def parent_of_def)
qed

lemma parentE:
  assumes "tree_shape rank N g pend r" "N p = Some node" "p \<notin> new_node_of pend" "p \<noteq> r"
  obtains q par items where "node_parent node = Some q" "N q = Some (InternalIndexNode par items)" "p \<in> snd ` set items"
    "g_lvl g q = Suc (g_lvl g p)"
proof -
  have "case node_parent node of None \<Rightarrow> p = r | Some q \<Rightarrow> \<exists>items. kids_of N q = Some items \<and> p \<in> snd ` set items"
    using shapeD(5) [OF assms(1)] views_at(3) [of N p, OF assms(2)] assms(3) unfolding parents_ok_def by blast
  then obtain q items where q: "node_parent node = Some q" "kids_of N q = Some items" "p \<in> snd ` set items"
    using assms(4) by (auto split: option.splits)
  obtain par where par: "N q = Some (InternalIndexNode par items)" using q(2) by (rule kids_of_SomeE)
  show thesis by (rule that [OF q(1) par q(3) child_okD(3) [OF assms(1) par q(3)]])
qed

lemma root_node:
  assumes "tree_shape rank N g pend r"
  obtains node where "N r = Some node" "node_parent node = None" "r \<notin> new_node_of pend" "g_lo g r = None" "parent_hi g pend r = None"
  using shapeD(1) [OF assms] by (auto simp: root_ok_def parent_of_def)

lemma level_le: "tree_shape rank N g pend r \<Longrightarrow> N p \<noteq> None \<Longrightarrow> g_lvl g p \<le> g_lvl g r"
  using shapeD(1) [of rank N g pend r] by (auto simp: root_ok_def parent_of_def)

lemma no_new_node: "p \<notin> new_node_of None"
  by simp

lemma top_is_root:
  assumes "tree_shape rank N g None r" "N p \<noteq> None" "g_lvl g r \<le> g_lvl g p"
  shows "p = r"
proof (rule ccontr)
  assume "p \<noteq> r"
  obtain node where node: "N p = Some node" using assms(2) by blast
  obtain q par items where q: "node_parent node = Some q" "N q = Some (InternalIndexNode par items)" "p \<in> snd ` set items" "g_lvl g q = Suc (g_lvl g p)"
    by (rule parentE [OF assms(1) node no_new_node \<open>p \<noteq> r\<close>])
  then show False using level_le [OF assms(1), of q] assms(3) by simp
qed

text \<open>On every level there is one node for a rank.\<close>

lemma node_unique:
  assumes shape: "tree_shape rank N g None r"
  shows "N p \<noteq> None \<Longrightarrow> N q \<noteq> None \<Longrightarrow> g_lvl g p = g_lvl g q \<Longrightarrow> in_range g p x \<Longrightarrow> in_range g q x \<Longrightarrow> p = q"
proof (induction "g_lvl g r - g_lvl g p" arbitrary: p q)
  case 0
  then show ?case using top_is_root [OF shape, of p] top_is_root [OF shape, of q] by simp
next
  case (Suc n)
  have notroot: "p \<noteq> r" "q \<noteq> r" using Suc.hyps(2) Suc.prems(3) by auto
  obtain np nq where nodes: "N p = Some np" "N q = Some nq" using Suc.prems(1,2) by blast
  obtain p' par items where p': "node_parent np = Some p'" "N p' = Some (InternalIndexNode par items)" "p \<in> snd ` set items" "g_lvl g p' = Suc (g_lvl g p)"
    by (rule parentE [OF shape nodes(1) no_new_node notroot(1)])
  obtain q' par' items' where q': "node_parent nq = Some q'" "N q' = Some (InternalIndexNode par' items')" "q \<in> snd ` set items'" "g_lvl g q' = Suc (g_lvl g q)"
    by (rule parentE [OF shape nodes(2) no_new_node notroot(2)])
  note kp = shape_kids [OF shape p'(2)] and kq = shape_kids [OF shape q'(2)]
  have "p' = q'"
    by (rule Suc.hyps(1)) (use Suc.hyps(2) Suc.prems p' q' child_in_parent [OF kp p'(3), of x] child_in_parent [OF kq q'(3), of x] in simp_all)
  then have "q \<in> snd ` set items" using p' q' by simp
  show ?case
    by (rule kids_unique [OF kp, where L = "g_lo g" and H = "g_hi g" and r = x])
      (use p'(3) \<open>q \<in> snd ` set items\<close> Suc.prems in \<open>auto simp: child_ok_def in_range_def\<close>)
qed

lemma leaf_unique:
  assumes "tree_shape rank N g None r" "leaf_of N p \<noteq> None" "leaf_of N q \<noteq> None" "in_range g p x" "in_range g q x"
  shows "p = q"
proof -
  obtain np nq where n: "leaf_of N p = Some np" "leaf_of N q = Some nq" using assms(2,3) by blast
  have "g_lvl g p = 0" "g_lvl g q = 0" using shapeD(2) [OF assms(1)] n by (cases np; cases nq; simp add: leaves_ok_def)+
  then have l: "g_lvl g p = g_lvl g q" by simp
  have "N p \<noteq> None" "N q \<noteq> None" using n by (auto simp: leaf_of_def split: option.splits)
  then show ?thesis by (rule node_unique [OF assms(1) _ _ l assms(4,5)])
qed


section \<open>The steps of an insertion\<close>

lemma shape_leaf_update:
  assumes "tree_shape rank N g pend r" "N p = Some (LeafIndexNode par nxt items)"
    and "items' \<noteq> []" "sorted_wrt (<) (map (\<lambda>x. rank (fst x)) items')" "\<And>x. x \<in> set items' \<Longrightarrow> in_range g p (rank (fst x))"
  shows "tree_shape rank (N(p \<mapsto> LeafIndexNode par nxt items')) g pend r"
proof -
  note sh = shapeD [OF assms(1)]
  have "leaves_ok rank ((leaf_of N)(p \<mapsto> (nxt, items'))) g"
    using sh(2) shape_leaf(1) [OF assms(1,2)] assms(3-5) by (auto simp: leaves_ok_def)
  moreover have "chain_ok ((leaf_of N)(p \<mapsto> (nxt, items'))) g"
    using sh(3) views_at(1) [of N p, OF assms(2)] by (auto simp: chain_ok_def insert_absorb domI)
  ultimately show ?thesis using sh by (simp add: tree_shape_def views_same(1) [of N p, OF assms(2)] views_same(3) [of N p, OF assms(2)])
qed

definition split_ghost :: "'o ghost \<Rightarrow> PageNum \<Rightarrow> PageNum \<Rightarrow> 'o \<Rightarrow> 'o ghost" where
  "split_ghost g p q s = g\<lparr>g_lo := (g_lo g)(q := Some s), g_hi := (g_hi g)(q := g_hi g p, p := Some s), g_lvl := (g_lvl g)(q := g_lvl g p)\<rparr>"

lemma split_ghost_simps [simp]:
  "g_lo (split_ghost g p q s) = (g_lo g)(q := Some s)" "g_hi (split_ghost g p q s) = (g_hi g)(q := g_hi g p, p := Some s)"
  "g_lvl (split_ghost g p q s) = (g_lvl g)(q := g_lvl g p)"
  by (simp_all add: split_ghost_def)

lemma split_parent_hi: "p \<noteq> q \<Longrightarrow> c \<noteq> q \<Longrightarrow> parent_hi (split_ghost g p q s) (Some (p, q)) c = g_hi g c"
  by (cases "c = p") simp_all

lemma split_frame:
  assumes "p \<noteq> q" "P q = None" "P p \<noteq> None"
  shows "root_ok P g None r \<Longrightarrow> root_ok (P(q \<mapsto> par)) (split_ghost g p q s) (Some (p, q)) r"
    "parents_ok K P None r \<Longrightarrow> parents_ok K (P(q \<mapsto> par)) (Some (p, q)) r"
    "strictly_above (g_lo g p) s \<Longrightarrow> below (g_hi g p) s \<Longrightarrow> pend_ok (P(q \<mapsto> par)) (split_ghost g p q s) (Some (p, q))"
    "child_ok P g None x lo hi c \<Longrightarrow> x \<noteq> q \<Longrightarrow> child_ok (P(q \<mapsto> par)) (split_ghost g p q s) (Some (p, q)) x lo hi c"
proof -
  show "root_ok P g None r \<Longrightarrow> root_ok (P(q \<mapsto> par)) (split_ghost g p q s) (Some (p, q)) r"
    using assms by (auto simp: root_ok_def split_parent_hi)
  show "parents_ok K P None r \<Longrightarrow> parents_ok K (P(q \<mapsto> par)) (Some (p, q)) r" by (simp add: parents_ok_def)
  show "strictly_above (g_lo g p) s \<Longrightarrow> below (g_hi g p) s \<Longrightarrow> pend_ok (P(q \<mapsto> par)) (split_ghost g p q s) (Some (p, q))"
    using assms by (auto simp: pend_ok_def)
  show "child_ok P g None x lo hi c \<Longrightarrow> x \<noteq> q \<Longrightarrow> child_ok (P(q \<mapsto> par)) (split_ghost g p q s) (Some (p, q)) x lo hi c"
    using assms by (cases "c = q") (auto simp: child_ok_def split_parent_hi)
qed

lemma shape_split_leaf:
  assumes "tree_shape rank N g None r" "N p = Some (LeafIndexNode par nxt (as @ bs))" "as \<noteq> []" "bs \<noteq> []" "N q = None"
  shows "tree_shape rank (N(q \<mapsto> LeafIndexNode par' nxt bs, p \<mapsto> LeafIndexNode par (Some q) as))
    (split_ghost g p q (rank (fst (hd bs)))) (Some (p, q)) r"
proof -
  let ?N = "N(q \<mapsto> LeafIndexNode par' nxt bs, p \<mapsto> LeafIndexNode par (Some q) as)"
  let ?s = "rank (fst (hd bs))"
  let ?g = "split_ghost g p q ?s"
  note sh = shapeD [OF assms(1)] and leaf = shape_leaf [OF assms(1,2)]
  have pq: "p \<noteq> q" using assms(2,5) by auto
  have fresh: "leaf_of N q = None" "kids_of N q = None" "parent_of N q = None" by (rule views_fresh [of N q, OF assms(5)])+
  have P: "parent_of ?N = (parent_of N)(q \<mapsto> par')" "parent_of N p \<noteq> None"
    using assms(2) pq by (auto simp: parent_of_def fun_eq_iff)
  have K: "kids_of ?N = kids_of N" using assms(2) fresh(2) by (auto simp: kids_of_def fun_eq_iff)
  note frame = split_frame [where P = "parent_of N", OF pq fresh(3) P(2)]
  have inp: "in_range g p (rank (fst x))" if "x \<in> set as \<or> x \<in> set bs" for x using leaf(4) [of x] that by auto
  have below_s: "rank (fst x) < ?s" if "x \<in> set as" for x
    using leaf(3) that hd_in_set [OF assms(4)] by (auto simp: sorted_wrt_append)
  have above_s: "?s \<le> rank (fst x)" if "x \<in> set bs" for x
    using leaf(3) that by (cases bs) (auto simp: sorted_wrt_append less_imp_le)
  have s: "strictly_above (g_lo g p) ?s" "below (g_hi g p) ?s"
  proof -
    show "strictly_above (g_lo g p) ?s"
      using inp [of "hd as"] below_s [of "hd as"] hd_in_set [OF assms(3)] by (auto simp: in_range_def above_def strictly_above_def split: option.splits)
    show "below (g_hi g p) ?s" using inp [of "hd bs"] hd_in_set [OF assms(4)] by (simp add: in_range_def)
  qed
  have "leaves_ok rank (leaf_of ?N) ?g"
  proof -
    have old: "g_lvl g x = 0 \<and> items \<noteq> [] \<and> sorted_wrt (<) (map (\<lambda>x. rank (fst x)) items) \<and> (\<forall>y \<in> set items. in_range ?g x (rank (fst y)))"
      if "leaf_of N x = Some (nxt', items)" "x \<noteq> p" for x nxt' items
    proof -
      have "x \<noteq> q" using that fresh(1) by auto
      then show ?thesis using sh(2) that unfolding leaves_ok_def by (simp add: in_range_def)
    qed
    have "sorted_wrt (<) (map (\<lambda>x. rank (fst x)) as)" "sorted_wrt (<) (map (\<lambda>x. rank (fst x)) bs)"
      using leaf(3) by (simp_all add: sorted_wrt_append)
    moreover have "in_range ?g p (rank (fst x))" if "x \<in> set as" for x
      using inp [of x] below_s [OF that] that pq by (simp add: in_range_def)
    moreover have "in_range ?g q (rank (fst x))" if "x \<in> set bs" for x
      using inp [of x] above_s [OF that] that pq by (simp add: in_range_def)
    ultimately show ?thesis
      using old leaf(1) assms(3,4) pq unfolding leaves_ok_def by (simp add: fun_upd_apply)
  qed
  moreover have "chain_ok (leaf_of ?N) ?g"
  proof -
    let ?S = "dom (leaf_of N)"
    have p: "link_ok ?S g p nxt" using sh(3) views_at(1) [of N p, OF assms(2)] unfolding chain_ok_def by blast
    have lf: "leaf_of ?N = (leaf_of N)(q \<mapsto> (nxt, bs), p \<mapsto> (Some q, as))" by simp
    have dom: "?S \<subseteq> dom (leaf_of ?N)" "q \<in> dom (leaf_of ?N)" by (auto simp: lf)
    have lo: "g_lo ?g x = g_lo g x" if "x \<in> ?S" for x using that fresh(1) by auto
    have "link_ok (dom (leaf_of ?N)) ?g q nxt" by (rule link_mono [OF p dom(1) _ lo]) (use pq in simp)
    moreover have "link_ok (dom (leaf_of ?N)) ?g p (Some q)" using dom(2) by (simp add: link_ok_def)
    moreover have "link_ok (dom (leaf_of ?N)) ?g x nxt'" if "leaf_of N x = Some (nxt', items)" "x \<noteq> p" for x nxt' items
    proof -
      have "link_ok ?S g x nxt'" using sh(3) that(1) unfolding chain_ok_def by blast
      moreover have "x \<noteq> q" using that fresh(1) by auto
      ultimately show ?thesis using that(2) by (intro link_mono [OF _ dom(1) _ lo]) auto
    qed
    ultimately show ?thesis unfolding chain_ok_def by (auto simp: lf split: if_splits)
  qed
  moreover have "kids_all_ok rank (kids_of N) ((parent_of N)(q \<mapsto> par')) ?g (Some (p, q))"
  proof -
    have "kids_ok rank (child_ok ((parent_of N)(q \<mapsto> par')) ?g (Some (p, q)) x) (g_lo ?g x) (g_hi ?g x) items"
      if "kids_of N x = Some items" for x items
    proof -
      have x: "x \<noteq> q" "x \<noteq> p" using that fresh(2) assms(2) by (auto simp: kids_of_def)
      have "kids_ok rank (child_ok (parent_of N) g None x) (g_lo g x) (g_hi g x) items"
        using sh(4) that unfolding kids_all_ok_def by blast
      then show ?thesis using x by (auto elim!: kids_mono intro: frame(4))
    qed
    then show ?thesis unfolding kids_all_ok_def by blast
  qed
  ultimately show ?thesis
    using frame(1) [OF sh(1)] frame(2) [OF sh(5)] frame(3) [OF s] unfolding tree_shape_def P(1) K by blast
qed

text \<open>The children of a list of items get a new parent.\<close>

definition reparent :: "PageNum \<Rightarrow> PageNum set \<Rightarrow> 'k nodes \<Rightarrow> 'k nodes" where
  "reparent q cs N c = (if c \<in> cs then map_option (set_parent_page_num (Some q)) (N c) else N c)"

lemma node_parent_set [simp]: "node_parent (set_parent_page_num p node) = p"
  by (cases node) simp_all

lemma views_reparent [simp]:
  "leaf_of (reparent q cs N) = leaf_of N" "kids_of (reparent q cs N) = kids_of N"
proof -
  have "leaf_of (reparent q cs N) x = leaf_of N x \<and> kids_of (reparent q cs N) x = kids_of N x" for x
    unfolding leaf_of_def kids_of_def reparent_def
    by (cases "x \<in> cs"; cases "N x"; cases "the (N x)") simp_all
  then show "leaf_of (reparent q cs N) = leaf_of N" "kids_of (reparent q cs N) = kids_of N" by (simp_all add: fun_eq_iff)
qed

lemma parent_reparent:
  "parent_of (reparent q cs N) c = (if c \<in> cs \<and> N c \<noteq> None then Some (Some q) else parent_of N c)"
  by (cases "N c") (simp_all add: parent_of_def reparent_def)

lemma kids_all_upd:
  assumes "kids_ok rank (child_ok P g pend q) (g_lo g q) (g_hi g q) bs"
    and "\<And>x items. K x = Some items \<Longrightarrow> x \<noteq> q \<Longrightarrow> kids_ok rank (child_ok P g pend x) (g_lo g x) (g_hi g x) items"
  shows "kids_all_ok rank (K(q \<mapsto> bs)) P g pend"
  unfolding kids_all_ok_def
proof (intro allI impI)
  fix x items assume "(K(q \<mapsto> bs)) x = Some items"
  then show "kids_ok rank (child_ok P g pend x) (g_lo g x) (g_hi g x) items" by (cases "x = q") (use assms in auto)
qed

lemma kids_all_upd2:
  assumes "kids_ok rank (child_ok P g pend q) (g_lo g q) (g_hi g q) bs" "kids_ok rank (child_ok P g pend p) (g_lo g p) (g_hi g p) as"
    and "\<And>x items. K x = Some items \<Longrightarrow> x \<noteq> p \<Longrightarrow> kids_ok rank (child_ok P g pend x) (g_lo g x) (g_hi g x) items"
  shows "kids_all_ok rank (K(q \<mapsto> bs, p \<mapsto> as)) P g pend"
proof (rule kids_all_upd [OF assms(2)])
  fix x items assume "(K(q \<mapsto> bs)) x = Some items" "x \<noteq> p"
  then show "kids_ok rank (child_ok P g pend x) (g_lo g x) (g_hi g x) items" by (cases "x = q") (use assms(1,3) in auto)
qed

lemma root_ok_cong: "root_ok P g pend r \<Longrightarrow> P' r = P r \<Longrightarrow> (\<And>c. P' c \<noteq> None \<Longrightarrow> P c \<noteq> None) \<Longrightarrow> root_ok P' g pend r"
  by (simp add: root_ok_def)

lemma shape_split_internal:
  assumes "tree_shape rank N g None r" "N p = Some (InternalIndexNode par (as @ bs))" "as \<noteq> []" "bs \<noteq> []" "N q = None"
  shows "tree_shape rank ((reparent q (snd ` set bs) N)(q \<mapsto> InternalIndexNode par' bs, p \<mapsto> InternalIndexNode par as))
    (split_ghost g p q (rank (fst (hd bs)))) (Some (p, q)) r"
proof -
  let ?B = "snd ` set bs" and ?A = "snd ` set as"
  let ?N = "(reparent q ?B N)(q \<mapsto> InternalIndexNode par' bs, p \<mapsto> InternalIndexNode par as)"
  let ?s = "rank (fst (hd bs))"
  let ?g = "split_ghost g p q ?s" and ?P = "parent_of ?N" and ?Q = "(parent_of N)(q \<mapsto> par')"
  note sh = shapeD [OF assms(1)] and kids = shape_kids [OF assms(1,2)] and child = child_okD [OF assms(1,2)]
  have pq: "p \<noteq> q" using assms(2,5) by auto
  have fresh: "leaf_of N q = None" "kids_of N q = None" "parent_of N q = None" by (rule views_fresh [of N q, OF assms(5)])+
  have inB: "c \<in> ?B \<Longrightarrow> c \<noteq> p \<and> c \<noteq> q \<and> N c \<noteq> None \<and> parent_of N c = Some (Some p)" for c
  proof -
    assume "c \<in> ?B"
    then have "c \<in> snd ` set (as @ bs)" by auto
    from child [OF this] show ?thesis using assms(5) by (intro conjI) auto
  qed
  obtain k c bs' where bs: "bs = (k, c) # bs'" using assms(4) by (cases bs) auto
  have halves: "kids_ok rank (child_ok (parent_of N) g None p) (g_lo g p) (Some ?s) as"
    "kids_ok rank (child_ok (parent_of N) g None p) (Some ?s) (g_hi g p) bs" "strictly_above (g_lo g p) ?s" "below (g_hi g p) ?s"
    using kids kids_append [OF assms(3), of rank "child_ok (parent_of N) g None p" "g_lo g p" "g_hi g p" k c bs'] by (simp_all add: bs)
  have disj: "c \<notin> ?B" if c: "c \<in> ?A" for c
  proof -
    obtain xs k ys where as: "as = xs @ (k, c) # ys" using c by (auto simp: in_set_conv_decomp)
    have "c \<notin> snd ` set (ys @ bs)"
      by (rule kids_distinct [of rank "child_ok (parent_of N) g None p" "g_lo g p" "g_hi g p" xs k, where L = "g_lo g"])
        (use kids as in \<open>auto simp: child_ok_def\<close>)
    then show ?thesis by auto
  qed
  have P: "?P c = (if c \<in> ?B then Some (Some q) else ?Q c)" for c
  proof (cases "c \<in> ?B")
    case True
    then obtain node where "N c = Some node" "c \<noteq> p" "c \<noteq> q" using inB [OF True] by blast
    then show ?thesis using True by (simp add: parent_reparent)
  next
    case False
    then show ?thesis using pq views_at(3) [of N p, OF assms(2)] by (simp add: parent_reparent)
  qed
  have K: "kids_of ?N = (kids_of N)(q \<mapsto> bs, p \<mapsto> as)" by simp
  have Lf: "leaf_of ?N = leaf_of N" using fresh(1) assms(2) by (auto simp: leaf_of_def fun_eq_iff)
  have Pp: "parent_of N p \<noteq> None" using assms(2) by (simp add: parent_of_def)
  note frame = split_frame [where P = "parent_of N", OF pq fresh(3) Pp]
  have moved: "child_ok ?P ?g (Some (p, q)) x lo hi c"
    if "child_ok (parent_of N) g None x lo hi c" "x \<noteq> q" "c \<notin> ?B" for x lo hi c
    using frame(4) [OF that(1,2), of par' ?s] that(3) unfolding child_ok_def P by auto
  have movedB: "child_ok ?P ?g (Some (p, q)) q lo hi c" if "child_ok (parent_of N) g None p lo hi c" "c \<in> ?B" for lo hi c
    using frame(4) [OF that(1) pq, of par' ?s] that(2) pq unfolding child_ok_def P by auto
  have "x \<noteq> q \<and> x \<noteq> p" if "x \<in> dom (leaf_of N)" for x using that fresh(1) assms(2) by (auto simp: leaf_of_def split: option.splits)
  then have leaves: "leaves_ok rank (leaf_of N) ?g \<and> chain_ok (leaf_of N) ?g" by (intro leaves_frame [OF sh(2,3)]) auto
  have "kids_all_ok rank (kids_of ?N) ?P ?g (Some (p, q))"
  proof -
    have "kids_ok rank (child_ok ?P ?g (Some (p, q)) q) (g_lo ?g q) (g_hi ?g q) bs"
      using kids_mono [OF halves(2), of "child_ok ?P ?g (Some (p, q)) q"] movedB pq by simp
    moreover have "kids_ok rank (child_ok ?P ?g (Some (p, q)) p) (g_lo ?g p) (g_hi ?g p) as"
      using kids_mono [OF halves(1), of "child_ok ?P ?g (Some (p, q)) p"] moved disj pq by simp
    moreover have "kids_ok rank (child_ok ?P ?g (Some (p, q)) x) (g_lo ?g x) (g_hi ?g x) items"
      if "kids_of N x = Some items" "x \<noteq> p" for x items
    proof -
      have x: "x \<noteq> q" using that fresh(2) by auto
      have k: "kids_ok rank (child_ok (parent_of N) g None x) (g_lo g x) (g_hi g x) items"
        using sh(4) that unfolding kids_all_ok_def by blast
      have "kids_ok rank (child_ok ?P ?g (Some (p, q)) x) (g_lo g x) (g_hi g x) items"
      proof (rule kids_mono [OF k])
        fix lo hi c assume c: "child_ok (parent_of N) g None x lo hi c"
        then have "c \<notin> ?B" using inB [of c] that(2) by (auto simp: child_ok_def)
        then show "child_ok ?P ?g (Some (p, q)) x lo hi c" by (rule moved [OF c x])
      qed
      then show ?thesis using x that(2) by simp
    qed
    ultimately show ?thesis unfolding K by (rule kids_all_upd2)
  qed
  moreover have "parents_ok (kids_of ?N) ?P (Some (p, q)) r"
  proof -
    have old: "case pa of None \<Rightarrow> x = r | Some y \<Rightarrow> \<exists>items. kids_of N y = Some items \<and> x \<in> snd ` set items"
      if "parent_of N x = Some pa" for x pa using sh(5) that by (simp add: parents_ok_def)
    have "case pa of None \<Rightarrow> x = r | Some y \<Rightarrow> \<exists>items. kids_of ?N y = Some items \<and> x \<in> snd ` set items"
      if x: "?P x = Some pa" "x \<noteq> q" for x pa
    proof (cases "x \<in> ?B")
      case True
      then have "pa = Some q" using x(1) unfolding P by simp
      then show ?thesis using True pq unfolding K by simp
    next
      case False
      then have "parent_of N x = Some pa" using x unfolding P by simp
      note old [OF this]
      moreover have "x \<in> ?A" if "kids_of N p = Some items" "x \<in> snd ` set items" for items
      proof -
        have "items = as @ bs" using that(1) views_at(2) [of N p, OF assms(2)] by simp
        then show ?thesis using that(2) False by (simp add: image_Un)
      qed
      ultimately show ?thesis using fresh(2) pq unfolding K by (cases pa) (simp_all add: fun_upd_apply, metis option.distinct(1))
    qed
    then show ?thesis unfolding parents_ok_def by simp
  qed
  moreover have "root_ok ?P ?g (Some (p, q)) r"
  proof -
    have root: "root_ok ?Q ?g (Some (p, q)) r" by (rule frame(1) [OF sh(1)])
    have "r \<notin> ?B" using inB [of r] sh(1) by (auto simp: root_ok_def)
    then have r: "?P r = ?Q r" unfolding P by simp
    have dom: "?Q c \<noteq> None" if "?P c \<noteq> None" for c
    proof (cases "c \<in> ?B")
      case True
      then show ?thesis using inB [OF True] by simp
    next
      case False
      then show ?thesis using that unfolding P by simp
    qed
    show ?thesis by (rule root_ok_cong [where P = ?Q and P' = ?P, OF root r dom])
  qed
  moreover have "pend_ok ?P ?g (Some (p, q))"
    using frame(3) [OF halves(3,4), of par'] unfolding pend_ok_def P by auto
  ultimately show ?thesis unfolding tree_shape_def Lf using leaves by blast
qed

lemma shape_link:
  assumes "tree_shape rank N g (Some (p, q)) r" "N x = Some (InternalIndexNode par (xs @ (k, p) # ys))" "g_lo g q = Some (rank key)"
  shows "tree_shape rank (reparent x {q} (N(x \<mapsto> InternalIndexNode par (xs @ (k, p) # (key, q) # ys)))) g None r"
proof -
  let ?items = "xs @ (k, p) # (key, q) # ys" and ?old = "xs @ (k, p) # ys"
  let ?N = "reparent x {q} (N(x \<mapsto> InternalIndexNode par ?items))"
  let ?P = "parent_of ?N" and ?C = "child_ok (parent_of N) g (Some (p, q))"
  note sh = shapeD [OF assms(1)] and kids = shape_kids [OF assms(1,2)] and child = child_okD [OF assms(1,2)]
  have pend: "p \<noteq> q" "N q \<noteq> None" "g_lvl g q = g_lvl g p" "g_hi g p = Some (rank key)"
    "strictly_above (g_lo g p) (rank key)" "below (g_hi g q) (rank key)"
    using sh(6) assms(3) by (auto simp: pend_ok_def parent_of_def)
  have P: "?P c = (if c = q then Some (Some x) else parent_of N c)" for c
    using pend(2) views_same(3) [of N x, OF assms(2)] by (auto simp: parent_reparent)
  have K: "kids_of ?N = (kids_of N)(x \<mapsto> ?items)" and Lf: "leaf_of ?N = leaf_of N"
    using views_same(2) [of N x, OF assms(2)] by simp_all
  have notin: "p \<notin> snd ` set (xs @ ys)"
  proof -
    have "p \<notin> snd ` set ys" by (rule kids_distinct [OF kids, where L = "g_lo g"]) (simp add: child_ok_def)
    moreover have "p \<notin> snd ` set xs"
    proof
      assume "p \<in> snd ` set xs"
      then obtain as k' bs where "xs = as @ (k', p) # bs" by (auto simp: in_set_conv_decomp)
      then have "p \<notin> snd ` set (bs @ (k, p) # ys)"
        using kids by (intro kids_distinct [of rank "?C x" "g_lo g x" "g_hi g x" as k' p, where L = "g_lo g"]) (auto simp: child_ok_def)
      then show False by simp
    qed
    ultimately show ?thesis by auto
  qed
  have keep: "child_ok ?P g None y lo hi c" if "?C y lo hi c" "c \<noteq> p" for y lo hi c
    using that unfolding child_ok_def P by simp
  have "kids_ok rank (child_ok ?P g None x) (g_lo g x) (g_hi g x) ?items"
  proof (rule kids_divide [OF kids])
    show "child_ok ?P g None x lo hi c" if "c \<in> snd ` set (xs @ ys)" "?C x lo hi c" for lo hi c
      using keep [OF that(2)] that(1) notin by auto
    show "child_ok ?P g None x lo (Some (rank key)) p \<and> child_ok ?P g None x (Some (rank key)) hi q \<and> strictly_above lo (rank key) \<and> below hi (rank key)"
      if "?C x lo hi p" for lo hi
      using that pend assms(3) unfolding child_ok_def P by simp
  qed
  moreover have "kids_ok rank (child_ok ?P g None y) (g_lo g y) (g_hi g y) items" if "kids_of N y = Some items" "y \<noteq> x" for y items
  proof -
    have "kids_ok rank (?C y) (g_lo g y) (g_hi g y) items" using sh(4) that(1) unfolding kids_all_ok_def by blast
    then show ?thesis
    proof (rule kids_mono)
      fix lo hi c assume c: "?C y lo hi c"
      moreover have "parent_of N p = Some (Some x)" by (rule child(1)) simp
      ultimately show "child_ok ?P g None y lo hi c" using that(2) by (intro keep) (auto simp: child_ok_def)
    qed
  qed
  ultimately have "kids_all_ok rank (kids_of ?N) ?P g None" unfolding K by (rule kids_all_upd)
  moreover have "parents_ok (kids_of ?N) ?P None r"
  proof -
    have "case pa of None \<Rightarrow> c = r | Some y \<Rightarrow> \<exists>items. kids_of ?N y = Some items \<and> c \<in> snd ` set items" if "?P c = Some pa" for c pa
    proof (cases "c = q")
      case True
      then show ?thesis using that unfolding P K by auto
    next
      case False
      then have "parent_of N c = Some pa" using that unfolding P by simp
      then have "case pa of None \<Rightarrow> c = r | Some y \<Rightarrow> \<exists>items. kids_of N y = Some items \<and> c \<in> snd ` set items"
        using sh(5) False by (simp add: parents_ok_def)
      then show ?thesis using views_at(2) [of N x, OF assms(2)] unfolding K by (cases pa) auto
    qed
    then show ?thesis unfolding parents_ok_def by simp
  qed
  moreover have "root_ok ?P g None r"
  proof -
    have r: "parent_of N r = Some None" "r \<noteq> q" "g_lo g r = None" "parent_hi g (Some (p, q)) r = None" using sh(1) by (simp_all add: root_ok_def)
    moreover have "r \<noteq> p" using child(1) [of p] r(1) by auto
    ultimately show ?thesis using level_le [OF assms(1)] pend(2) unfolding root_ok_def P by (auto simp: parent_of_def)
  qed
  ultimately show ?thesis unfolding tree_shape_def Lf using sh(2,3) by (simp add: pend_ok_def)
qed

lemma shape_new_root:
  assumes "tree_shape rank N g (Some (r, q)) r" "g_lo g q = Some (rank key)" "N n = None"
  shows "tree_shape rank ((reparent n {r, q} N)(n \<mapsto> InternalIndexNode None [(zero, r), (key, q)]))
    (g\<lparr>g_lo := (g_lo g)(n := None), g_hi := (g_hi g)(n := None), g_lvl := (g_lvl g)(n := Suc (g_lvl g r))\<rparr>) None n"
proof -
  let ?items = "[(zero, r), (key, q)]"
  let ?N = "(reparent n {r, q} N)(n \<mapsto> InternalIndexNode None ?items)"
  let ?g = "g\<lparr>g_lo := (g_lo g)(n := None), g_hi := (g_hi g)(n := None), g_lvl := (g_lvl g)(n := Suc (g_lvl g r))\<rparr>"
  let ?P = "parent_of ?N"
  note sh = shapeD [OF assms(1)]
  have pend: "r \<noteq> q" "N q \<noteq> None" "g_lvl g q = g_lvl g r" "g_hi g r = Some (rank key)" using sh(6) assms(2) by (auto simp: pend_ok_def parent_of_def)
  have r: "parent_of N r = Some None" "g_lo g r = None" "g_hi g q = None" using sh(1) by (simp_all add: root_ok_def)
  have n: "n \<noteq> r" "n \<noteq> q" using assms(3) pend(2) r(1) by (auto simp: parent_of_def)
  have fresh: "leaf_of N n = None" "kids_of N n = None" "parent_of N n = None" by (rule views_fresh [of N n, OF assms(3)])+
  have P: "?P c = (if c \<in> {r, q} then Some (Some n) else if c = n then Some None else parent_of N c)" for c
  proof -
    have "N r \<noteq> None" using r(1) by (auto simp: parent_of_def)
    then show ?thesis using pend(2) n by (auto simp: parent_reparent)
  qed
  have K: "kids_of ?N = (kids_of N)(n \<mapsto> ?items)" and Lf: "leaf_of ?N = leaf_of N" using fresh(1) by auto
  have "x \<noteq> n" if "x \<in> dom (leaf_of N)" for x using that fresh(1) by auto
  then have leaves: "leaves_ok rank (leaf_of N) ?g \<and> chain_ok (leaf_of N) ?g" by (intro leaves_frame [OF sh(2,3)]) auto
  have "kids_ok rank (child_ok ?P ?g None n) None None ?items"
  proof -
    have "child_ok ?P ?g None n None (Some (rank key)) r" using pend(4) r(2) n unfolding child_ok_def P by simp
    moreover have "child_ok ?P ?g None n (Some (rank key)) None q" using pend(3) r(3) n assms(2) unfolding child_ok_def P by simp
    ultimately show ?thesis by simp
  qed
  moreover have "kids_ok rank (child_ok ?P ?g None y) (g_lo ?g y) (g_hi ?g y) items" if "kids_of N y = Some items" "y \<noteq> n" for y items
  proof -
    have "kids_ok rank (child_ok (parent_of N) g (Some (r, q)) y) (g_lo g y) (g_hi g y) items" using sh(4) that(1) unfolding kids_all_ok_def by blast
    then have "kids_ok rank (child_ok ?P ?g None y) (g_lo g y) (g_hi g y) items"
    proof (rule kids_mono)
      fix lo hi c assume c: "child_ok (parent_of N) g (Some (r, q)) y lo hi c"
      then have "c \<noteq> r" "c \<noteq> q" "c \<noteq> n" using r(1) fresh(3) by (auto simp: child_ok_def)
      then show "child_ok ?P ?g None y lo hi c" using c that(2) unfolding child_ok_def P by simp
    qed
    then show ?thesis using that(2) by simp
  qed
  ultimately have "kids_all_ok rank (kids_of ?N) ?P ?g None" unfolding K by (intro kids_all_upd) simp_all
  moreover have "parents_ok (kids_of ?N) ?P None n"
  proof -
    have "case pa of None \<Rightarrow> c = n | Some y \<Rightarrow> \<exists>items. kids_of ?N y = Some items \<and> c \<in> snd ` set items" if "?P c = Some pa" for c pa
    proof (cases "c \<in> {r, q, n}")
      case True
      then show ?thesis using that n unfolding P K by auto
    next
      case False
      then have pc: "parent_of N c = Some pa" using that unfolding P by simp
      then have "case pa of None \<Rightarrow> c = r | Some y \<Rightarrow> \<exists>items. kids_of N y = Some items \<and> c \<in> snd ` set items"
        using sh(5) False by (simp add: parents_ok_def)
      then show ?thesis using False fresh(2) unfolding K by (cases pa) (auto split: if_splits)
    qed
    then show ?thesis unfolding parents_ok_def by simp
  qed
  moreover have "root_ok ?P ?g None n"
    using level_le [OF assms(1)] pend(2,3) r(1) n unfolding root_ok_def P by (auto simp: parent_of_def le_SucI)
  ultimately show ?thesis unfolding tree_shape_def Lf using leaves by (simp add: pend_ok_def)
qed

end
