(* ===== verification/BplusInsert.thy ===== *)
theory BplusInsert
  imports BplusInv
begin

text \<open>
  Searching and inserting: the search reaches the leaf whose range contains the key, and an insertion
  keeps the invariant, adds exactly the new entry and marks every page it changes dirty.
\<close>

section \<open>Positions in a node\<close>

definition insert_pos :: "('k \<Rightarrow> 'o::linorder) \<Rightarrow> 'o \<Rightarrow> ('k \<times> 'v) list \<Rightarrow> nat" where
  "insert_pos rank v items = length (takeWhile (\<lambda>x. rank (fst x) < v) items)"

lemma takeWhile_le:
  assumes "sorted_wrt (<) (map f xs)"
  shows "length (takeWhile (\<lambda>x. f x \<le> v) xs) =
    (let i = length (takeWhile (\<lambda>x. f x < v) xs) in if i < length xs \<and> f (xs ! i) = (v::'o::linorder) then Suc i else i)"
  using assms
proof (induction xs)
  case (Cons x xs)
  show ?case
  proof (cases "f x = v")
    case True
    then have "takeWhile (\<lambda>x. f x \<le> v) xs = []" using Cons.prems by (cases xs) auto
    then show ?thesis using True by simp
  next
    case False
    then show ?thesis using Cons by (auto simp: Let_def)
  qed
qed simp

lemma insert_pos_split:
  assumes "sorted_wrt (<) (map (\<lambda>x. rank (fst x)) (tl (as @ bs)))" "as \<noteq> []" "bs \<noteq> []"
  shows "rank (fst (hd bs)) < v \<Longrightarrow> Suc (insert_pos rank v (tl (as @ bs))) = length as + Suc (insert_pos rank v (tl bs))"
    "\<not> rank (fst (hd bs)) < v \<Longrightarrow> insert_pos rank v (tl (as @ bs)) = insert_pos rank v (tl as)"
proof -
  obtain a as' b bs' where ab: "as = a # as'" "bs = b # bs'" using assms(2,3) by (cases as; cases bs) auto
  have "\<forall>x \<in> set as'. rank (fst x) < rank (fst b)" using assms(1) by (auto simp: ab sorted_wrt_append)
  then show "rank (fst (hd bs)) < v \<Longrightarrow> Suc (insert_pos rank v (tl (as @ bs))) = length as + Suc (insert_pos rank v (tl bs))"
    by (auto simp: ab insert_pos_def takeWhile_append intro: less_trans)
  show "\<not> rank (fst (hd bs)) < v \<Longrightarrow> insert_pos rank v (tl (as @ bs)) = insert_pos rank v (tl as)"
    by (simp add: ab insert_pos_def takeWhile_append takeWhile_eq_all_conv [THEN iffD2])
qed

lemma insert_pos_le: "insert_pos rank v xs \<le> length xs"
  by (simp add: insert_pos_def length_takeWhile_le)

lemma insert_at_append:
  "insert_at (length as + i) x (as @ bs) = as @ insert_at i x bs" "i \<le> length as \<Longrightarrow> insert_at i x (as @ bs) = insert_at i x as @ bs"
  by (simp_all add: insert_at_def)

lemma insert_at_length [simp]: "length (insert_at i x xs) = Suc (length xs)"
  by (simp add: insert_at_def)

lemma insert_at_set [simp]: "set (insert_at i x xs) = insert x (set xs)"
proof -
  have "set (take i xs) \<union> set (drop i xs) = set xs" using set_append [of "take i xs" "drop i xs"] by simp
  then show ?thesis by (auto simp: insert_at_def)
qed

lemma insert_at_hd: "0 < i \<Longrightarrow> xs \<noteq> [] \<Longrightarrow> hd (insert_at i x xs) = hd xs"
  by (cases xs; cases i) (simp_all add: insert_at_def)

lemma insert_at_not_Nil [simp]: "insert_at i x xs \<noteq> []"
  by (simp add: insert_at_def)

text \<open>Inserting at its position keeps a list of keys sorted.\<close>

lemma insert_at_sorted:
  assumes "sorted_wrt (<) (map (\<lambda>x. rank (fst x)) xs)" "\<forall>x \<in> set xs. rank (fst x) \<noteq> rank (fst e)"
  shows "sorted_wrt (<) (map (\<lambda>x. rank (fst x)) (insert_at (insert_pos rank (rank (fst e)) xs) e xs))"
  using assms
proof (induction xs)
  case (Cons x xs)
  show ?case
  proof (cases "rank (fst x) < rank (fst e)")
    case True
    then show ?thesis using Cons by (auto simp: insert_pos_def insert_at_def dest: in_set_takeD in_set_dropD)
  next
    case False
    then have "rank (fst e) < rank (fst x)" using Cons.prems(2) by (auto simp: not_less)
    then show ?thesis using False Cons.prems(1) by (auto simp: insert_pos_def insert_at_def intro: less_trans)
  qed
qed (simp add: insert_pos_def insert_at_def)

text \<open>Which entries make a leaf turn a key away.\<close>

definition duplicate :: "('k \<Rightarrow> 'o) \<Rightarrow> ('k \<Rightarrow> 'p) \<Rightarrow> bool \<Rightarrow> 'k \<Rightarrow> 'k \<times> RID \<Rightarrow> bool" where
  "duplicate rank arank uniq key x \<longleftrightarrow> (if uniq then arank (fst x) = arank key else rank (fst x) = rank key)"

context key_order
begin

lemma internal_lookup_ok:
  assumes "sorted_wrt (<) (map (\<lambda>x. rank (fst x)) (tl items))" "items \<noteq> []"
  shows "internal_lookup cmp key items = (child_index rank (rank key) items, Suc (insert_pos rank (rank key) (tl items)))"
proof -
  obtain x xs where items: "items = x # xs" using assms(2) by (cases items) auto
  let ?i = "insert_pos rank (rank key) xs"
  have s: "sorted_wrt (<) (map rank (map fst xs))" using assms(1) by (simp add: items comp_def)
  have lb: "fst (lower_bound cmp (map fst xs) key) = ?i"
    unfolding search [OF s] by (simp add: linear_bound_def insert_pos_def takeWhile_map comp_def)
  have above: "\<not> rank (fst (xs ! ?i)) < rank key" if "?i < length xs"
    using nth_length_takeWhile [of "\<lambda>x. rank (fst x) < rank key" xs] that by (simp add: insert_pos_def)
  have "child_index rank (rank key) items = (if ?i < length xs \<and> rank (fst (xs ! ?i)) = rank key then Suc ?i else ?i)"
    using takeWhile_le [of "\<lambda>x. rank (fst x)" xs "rank key"] assms(1) by (simp add: child_index_def items insert_pos_def Let_def)
  then show ?thesis using lb above insert_pos_le [of rank "rank key" xs]
    by (auto simp: internal_lookup_def items Let_def cmp_simps split: prod.splits)
qed

lemma internal_insert_ok:
  assumes "sorted_wrt (<) (map (\<lambda>x. rank (fst x)) (tl items))" "items \<noteq> []"
  shows "internal_insert cmp key q items = insert_at (Suc (insert_pos rank (rank key) (tl items))) (key, q) items"
  by (simp add: internal_insert_def internal_lookup_ok [OF assms])

text \<open>Inserting into one half of a node is inserting into the node and dividing it there.\<close>

lemma internal_insert_split:
  assumes "sorted_wrt (<) (map (\<lambda>x. rank (fst x)) (tl (as @ bs)))" "as \<noteq> []" "bs \<noteq> []"
  shows "cmp key (fst (hd bs)) > 0 \<Longrightarrow> internal_insert cmp key q (as @ bs) = as @ internal_insert cmp key q bs"
    "\<not> cmp key (fst (hd bs)) > 0 \<Longrightarrow> internal_insert cmp key q (as @ bs) = internal_insert cmp key q as @ bs"
proof -
  have s: "sorted_wrt (<) (map (\<lambda>x. rank (fst x)) (tl as))" "sorted_wrt (<) (map (\<lambda>x. rank (fst x)) (tl bs))"
    using assms by (cases as; cases bs; auto simp: sorted_wrt_append)+
  note ins = internal_insert_ok [OF assms(1)] internal_insert_ok [OF s(1)] internal_insert_ok [OF s(2)]
  note pos = insert_pos_split [where rank = rank, OF assms, of "rank key"]
  show "cmp key (fst (hd bs)) > 0 \<Longrightarrow> internal_insert cmp key q (as @ bs) = as @ internal_insert cmp key q bs"
    using pos(1) assms(2,3) insert_at_append(1) [of as "Suc (insert_pos rank (rank key) (tl bs))" "(key, q)" bs]
    by (simp add: ins cmp_simps)
  have "Suc (insert_pos rank (rank key) (tl as)) \<le> length as"
    using insert_pos_le [of rank "rank key" "tl as"] assms(2) by (cases as) simp_all
  then show "\<not> cmp key (fst (hd bs)) > 0 \<Longrightarrow> internal_insert cmp key q (as @ bs) = internal_insert cmp key q as @ bs"
    using pos(2) assms(2,3) by (simp add: ins cmp_simps insert_at_append(2))
qed

end


section \<open>Finding a leaf\<close>

lemma get_node_simps [simp]:
  "bt_pages t p = Some node \<Longrightarrow> get_node t p = Inr node" "bt_pages t p = None \<Longrightarrow> get_node t p = Inl IOERR_READ"
  by (simp_all add: get_node_def)

text \<open>A descent that follows children whose ranges satisfy a property ends in a leaf that satisfies it.\<close>

lemma find_leaf_loop_ok:
  assumes "tree_shape rank (bt_pages t) g pend r"
    and "\<And>p par items. bt_pages t p = Some (InternalIndexNode par items) \<Longrightarrow> Q p \<Longrightarrow> getter items \<in> snd ` set items \<and> Q (getter items)"
    and "bt_pages t p \<noteq> None" "Q p"
  shows "\<exists>q par nxt items. find_leaf_loop t getter p = Some (Inr q) \<and> bt_pages t q = Some (LeafIndexNode par nxt items) \<and> Q q"
  using assms(3,4)
proof (induction "g_lvl g p" arbitrary: p rule: less_induct)
  case (less p)
  obtain node where node: "bt_pages t p = Some node" using less.prems(1) by blast
  show ?case
  proof (cases node)
    case (LeafIndexNode par nxt items)
    then show ?thesis using node less.prems(2) by (subst find_leaf_loop.simps) simp
  next
    case (InternalIndexNode par items)
    then have p: "bt_pages t p = Some (InternalIndexNode par items)" using node by simp
    note c = assms(2) [OF p less.prems(2)]
    have "g_lvl g (getter items) < g_lvl g p" "bt_pages t (getter items) \<noteq> None"
      using child_okD(2,3) [OF assms(1) p conjunct1 [OF c]] by simp_all
    then have "\<exists>q par nxt items'. find_leaf_loop t getter (getter items) = Some (Inr q) \<and> bt_pages t q = Some (LeafIndexNode par nxt items') \<and> Q q"
      using less.hyps c by blast
    moreover have "find_leaf_loop t getter p = find_leaf_loop t getter (getter items)" using p by (subst find_leaf_loop.simps) simp
    ultimately show ?thesis by simp
  qed
qed

lemma child_range:
  assumes "tree_shape rank N g None r" "N p = Some (InternalIndexNode par items)" "in_range g p v"
  shows "child_index rank v items < length items" "in_range g (snd (items ! child_index rank v items)) v"
proof -
  have "child_index rank v items < length items \<and>
    (\<exists>lo' hi'. child_ok (parent_of N) g None p lo' hi' (snd (items ! child_index rank v items)) \<and> above lo' v \<and> below hi' v)"
    by (rule kids_search [OF shape_kids [OF assms(1,2)]]) (use assms(3) in \<open>simp_all add: in_range_def\<close>)
  then show "child_index rank v items < length items" "in_range g (snd (items ! child_index rank v items)) v"
    by (auto simp: child_ok_def in_range_def)
qed

lemma root_range: "tree_shape rank N g None r \<Longrightarrow> in_range g r v"
  using shapeD(1) [of rank N g None r] by (simp add: root_ok_def in_range_def)

context key_order
begin

lemma find_leaf_ok:
  assumes "tree_shape rank (bt_pages t) g None r" "root_page (bt_header t) = Some r"
  obtains p par nxt items where "find_leaf cmp t key = Some (Inr p)" "bt_pages t p = Some (LeafIndexNode par nxt items)" "in_range g p (rank key)"
proof -
  let ?getter = "\<lambda>items. snd (items ! fst (internal_lookup cmp key items))"
  have step: "?getter items \<in> snd ` set items \<and> in_range g (?getter items) (rank key)"
    if "bt_pages t p = Some (InternalIndexNode par items)" "in_range g p (rank key)" for p par items
  proof -
    note kids = shape_kids [OF assms(1) that(1)]
    have "fst (internal_lookup cmp key items) = child_index rank (rank key) items"
      using internal_lookup_ok [OF kids_keys(1) [OF kids] kids_nonempty [OF kids], of key] by simp
    then show ?thesis using child_range [OF assms(1) that] by simp
  qed
  have "bt_pages t r \<noteq> None" using shapeD(1) [OF assms(1)] by (auto simp: root_ok_def parent_of_def)
  then have "\<exists>q par nxt items. find_leaf_loop t ?getter r = Some (Inr q) \<and> bt_pages t q = Some (LeafIndexNode par nxt items) \<and> in_range g q (rank key)"
    by (intro find_leaf_loop_ok [OF assms(1), where Q = "\<lambda>p. in_range g p (rank key)"] step root_range [OF assms(1)])
  then show thesis using that assms(2) by (auto simp: find_leaf_def find_leaf_internal_def)
qed

end


section \<open>Splitting a node\<close>

definition pages_ok :: "'k BplusTree \<Rightarrow> bool" where
  "pages_ok t \<longleftrightarrow> dom (bt_pages t) \<subseteq> {Suc FIRST_INDEX_PAGE ..< MAX_PAGE_NUM}"

definition node_sizes_ok :: "IndexFileHeader \<Rightarrow> 'k nodes \<Rightarrow> bool" where
  "node_sizes_ok hdr N \<longleftrightarrow> (\<forall>p node. N p = Some node \<longrightarrow> node_size node \<le> max_size hdr node)"

definition sizes_ok :: "'k BplusTree \<Rightarrow> bool" where
  "sizes_ok t \<longleftrightarrow> node_sizes_ok (bt_header t) (bt_pages t)"

text \<open>What an insertion keeps, and that it marks the pages it changes.\<close>

definition kept :: "'k BplusTree \<Rightarrow> 'k BplusTree \<Rightarrow> bool" where
  "kept t t' \<longleftrightarrow>
     bt_zero t' = bt_zero t \<and> bt_disposed t' = bt_disposed t \<and> bt_stored t' = bt_stored t \<and> bt_file t' = bt_file t \<and>
     (bt_header t')\<lparr>root_page := None\<rparr> = (bt_header t)\<lparr>root_page := None\<rparr> \<and>
     (bt_header t' \<noteq> bt_header t \<or> bt_header_dirty t \<longrightarrow> bt_header_dirty t') \<and>
     bt_dirty t \<subseteq> bt_dirty t' \<and> (\<forall>x. bt_pages t' x \<noteq> bt_pages t x \<longrightarrow> x \<in> bt_dirty t')"

lemma kept_refl [simp]: "kept t t"
  by (simp add: kept_def)

lemma kept_trans: "kept t t' \<Longrightarrow> kept t' t'' \<Longrightarrow> kept t t''"
  unfolding kept_def by (metis subset_eq)

lemma find_free_page_Some:
  "find_free_page_num t n = Some m \<Longrightarrow> n \<le> m \<and> m < MAX_PAGE_NUM \<and> bt_pages t m = None"
proof (induction t n rule: find_free_page_num.induct)
  case (1 t n)
  from "1.prems" show ?case using "1.IH" by (subst (asm) find_free_page_num.simps) (auto split: if_splits)
qed

lemma find_free_page_None:
  "find_free_page_num t n = None \<Longrightarrow> n \<le> m \<Longrightarrow> m < MAX_PAGE_NUM \<Longrightarrow> bt_pages t m \<noteq> None"
proof (induction t n rule: find_free_page_num.induct)
  case (1 t n)
  have step: "bt_pages t n \<noteq> None" "find_free_page_num t (Suc n) = None"
    using "1.prems" find_free_page_num.simps [of t n] by (simp_all split: if_splits)
  show ?case
  proof (cases "n = m")
    case False
    then show ?thesis using "1.IH" "1.prems" step by simp
  qed (use step in simp)
qed

lemma allocate_node_ok:
  "allocate_node t = Inr m \<Longrightarrow> Suc FIRST_INDEX_PAGE \<le> m \<and> m < MAX_PAGE_NUM \<and> bt_pages t m = None"
  "allocate_node t = Inl rc \<Longrightarrow> rc = BUFFERPOOL_NOBUF \<and> {Suc FIRST_INDEX_PAGE ..< MAX_PAGE_NUM} \<subseteq> dom (bt_pages t)"
proof -
  show "allocate_node t = Inr m \<Longrightarrow> Suc FIRST_INDEX_PAGE \<le> m \<and> m < MAX_PAGE_NUM \<and> bt_pages t m = None"
    using find_free_page_Some [of t "Suc FIRST_INDEX_PAGE" m] by (simp add: allocate_node_def split: option.splits)
  show "rc = BUFFERPOOL_NOBUF \<and> {Suc FIRST_INDEX_PAGE ..< MAX_PAGE_NUM} \<subseteq> dom (bt_pages t)" if "allocate_node t = Inl rc"
    using find_free_page_None [of t "Suc FIRST_INDEX_PAGE"] that by (auto simp: allocate_node_def dom_def split: option.splits)
qed

lemma adopt_ok:
  "(\<And>c. c \<in> set cs \<Longrightarrow> bt_pages t c \<noteq> None) \<Longrightarrow>
    adopt t q cs = (SUCCESS, t\<lparr>bt_pages := reparent q (set cs) (bt_pages t), bt_dirty := bt_dirty t \<union> set cs\<rparr>)"
proof (induction cs arbitrary: t)
  case Nil
  have "reparent q {} (bt_pages t) = bt_pages t" by (simp add: reparent_def fun_eq_iff)
  then show ?case by simp
next
  case (Cons c cs)
  obtain node where node: "bt_pages t c = Some node" using Cons.prems by fastforce
  let ?t = "dirty_node (put_node t c (set_parent_page_num (Some q) node)) c"
  have twice: "set_parent_page_num (Some q) (set_parent_page_num (Some q) node) = set_parent_page_num (Some q) node" by (cases node) simp_all
  have eq: "reparent q (set cs) (bt_pages ?t) = reparent q (set (c # cs)) (bt_pages t)"
    using node twice by (auto simp: reparent_def fun_eq_iff dirty_node_def put_node_def)
  have "adopt ?t q cs = (SUCCESS, ?t\<lparr>bt_pages := reparent q (set cs) (bt_pages ?t), bt_dirty := bt_dirty ?t \<union> set cs\<rparr>)"
    by (rule Cons.IH) (use Cons.prems in \<open>auto simp: dirty_node_def put_node_def\<close>)
  then show ?case unfolding eq using node by (simp add: dirty_node_def put_node_def)
qed

lemma split_internal_ok:
  assumes "bt_pages t p = Some (InternalIndexNode par items)" "allocate_node t = Inr n"
    and "\<And>c. c \<in> snd ` set items \<Longrightarrow> bt_pages t c \<noteq> None \<and> c \<noteq> p"
  defines "bs \<equiv> drop (length items div 2) items"
  shows "split_node t p = (Inr n, t\<lparr>bt_pages := (reparent n (snd ` set bs) (bt_pages t))(n \<mapsto> InternalIndexNode par bs, p \<mapsto> InternalIndexNode par (take (length items div 2) items)),
    bt_dirty := bt_dirty t \<union> snd ` set bs \<union> {p, n}\<rparr>)"
proof -
  have n: "bt_pages t n = None" using allocate_node_ok(1) [OF assms(2)] by simp
  have pn: "p \<noteq> n" using n assms(1) by auto
  have bs: "bt_pages t c \<noteq> None" "c \<noteq> p" "c \<noteq> n" if "c \<in> snd ` set bs" for c
  proof -
    have "c \<in> snd ` set items" using that by (auto simp: bs_def dest!: in_set_dropD)
    from assms(3) [OF this] show "bt_pages t c \<noteq> None" "c \<noteq> p" "c \<noteq> n" using n by auto
  qed
  let ?t = "put_node t n (InternalIndexNode par [])"
  have "adopt ?t n (map snd bs) = (SUCCESS, ?t\<lparr>bt_pages := reparent n (set (map snd bs)) (bt_pages ?t), bt_dirty := bt_dirty ?t \<union> set (map snd bs)\<rparr>)"
    by (rule adopt_ok) (use bs in \<open>auto simp: put_node_def\<close>)
  moreover have "reparent n (snd ` set bs) (bt_pages ?t) = (reparent n (snd ` set bs) (bt_pages t))(n \<mapsto> InternalIndexNode par [])"
    using bs(3) by (auto simp: reparent_def put_node_def fun_eq_iff)
  ultimately have "copy_from ?t n bs = (SUCCESS, t\<lparr>bt_pages := (reparent n (snd ` set bs) (bt_pages t))(n \<mapsto> InternalIndexNode par bs), bt_dirty := bt_dirty t \<union> snd ` set bs\<rparr>)"
    by (simp add: copy_from_def get_node_def put_node_def)
  then show ?thesis
    using assms(1,2) pn by (simp add: split_node_def move_half_to_def get_node_def internal_init_empty_def Let_def bs_def [symmetric] put_node_def dirty_node_def insert_commute)
qed

lemma split_leaf_ok:
  assumes "bt_pages t p = Some (LeafIndexNode par nxt items)" "allocate_node t = Inr n"
  shows "split_node t p = (Inr n, t\<lparr>bt_pages := (bt_pages t)(n \<mapsto> LeafIndexNode par None (drop (length items div 2) items),
      p \<mapsto> LeafIndexNode par nxt (take (length items div 2) items)), bt_dirty := bt_dirty t \<union> {p, n}\<rparr>)"
proof -
  have "bt_pages t n = None" using allocate_node_ok(1) [OF assms(2)] by simp
  then have "p \<noteq> n" using assms(1) by auto
  then show ?thesis using assms
    by (simp add: split_node_def move_half_to_def get_node_def leaf_init_empty_def Let_def put_node_def dirty_node_def insert_commute)
qed

lemma kept_header:
  assumes "kept t t'"
  shows "leaf_max_size (bt_header t') = leaf_max_size (bt_header t)" "internal_max_size (bt_header t') = internal_max_size (bt_header t)"
    "unique (bt_header t') = unique (bt_header t)"
proof -
  have h: "(bt_header t')\<lparr>root_page := None\<rparr> = (bt_header t)\<lparr>root_page := None\<rparr>" using assms by (simp add: kept_def)
  show "leaf_max_size (bt_header t') = leaf_max_size (bt_header t)" using arg_cong [OF h, of leaf_max_size] by simp
  show "internal_max_size (bt_header t') = internal_max_size (bt_header t)" using arg_cong [OF h, of internal_max_size] by simp
  show "unique (bt_header t') = unique (bt_header t)" using arg_cong [OF h, of unique] by simp
qed

section \<open>Linking a new node into its parent\<close>

definition linked :: "('k \<Rightarrow> 'o::linorder) \<Rightarrow> 'k BplusTree \<Rightarrow> (RC \<times> 'k BplusTree) option \<Rightarrow> bool" where
  "linked rank t res \<longleftrightarrow> (\<exists>rc t'. res = Some (rc, t') \<and> kept t t' \<and> pages_ok t' \<and> sizes_ok t' \<and> leaf_of (bt_pages t') = leaf_of (bt_pages t) \<and>
     (if rc = SUCCESS then \<exists>g' r'. root_page (bt_header t') = Some r' \<and> tree_shape rank (bt_pages t') g' None r'
      else rc = BUFFERPOOL_NOBUF \<and> {Suc FIRST_INDEX_PAGE ..< MAX_PAGE_NUM} \<subseteq> dom (bt_pages t')))"

lemma linked_trans:
  assumes "kept t t'" "leaf_of (bt_pages t') = leaf_of (bt_pages t)" "linked rank t' res"
  shows "linked rank t res"
  using assms(2,3) kept_trans [OF assms(1)] unfolding linked_def by metis

lemma linked_full:
  assumes "allocate_node t = Inl rc" "pages_ok t" "sizes_ok t"
  shows "linked rank t (Some (rc, t))"
  using allocate_node_ok(2) [OF assms(1)] assms(2,3) by (simp add: linked_def)

lemma node_size_set [simp]: "node_size (set_parent_page_num p node) = node_size node" "max_size hdr (set_parent_page_num p node) = max_size hdr node"
  by (cases node; simp add: max_size_def)+

lemma node_sizes_root [simp]: "node_sizes_ok (hdr\<lparr>root_page := r\<rparr>) N = node_sizes_ok hdr N"
  by (simp add: node_sizes_ok_def max_size_def)

lemma node_sizes_update: "node_sizes_ok hdr N \<Longrightarrow> node_size node \<le> max_size hdr node \<Longrightarrow> node_sizes_ok hdr (N(p \<mapsto> node))"
  by (simp add: node_sizes_ok_def)

lemma node_sizes_reparent: "node_sizes_ok hdr N \<Longrightarrow> node_sizes_ok hdr (reparent q cs N)"
  unfolding node_sizes_ok_def reparent_def by auto

lemma node_sizes_at: "node_sizes_ok hdr N \<Longrightarrow> N p = Some node \<Longrightarrow> node_size node \<le> max_size hdr node"
  by (simp add: node_sizes_ok_def)

lemmas node_sizes = node_sizes_update node_sizes_reparent

lemma dom_reparent [simp]: "dom (reparent q cs N) = dom N"
  by (auto simp: reparent_def split: if_splits)

lemma root_linked:
  assumes shape: "tree_shape rank (bt_pages t) g (Some (r, q)) r" and "g_lo g q = Some (rank key)" "pages_ok t" "sizes_ok t"
    and "2 \<le> internal_max_size (bt_header t)"
  shows "linked rank t (insert_entry_into_parent cmp t r q key)"
proof -
  obtain node where r: "bt_pages t r = Some node" "node_parent node = None" using shape by (rule root_node)
  have q: "bt_pages t q \<noteq> None" "r \<noteq> q" using shapeD(6) [OF shape] by (auto simp: pend_ok_def parent_of_def)
  then obtain qnode where qn: "bt_pages t q = Some qnode" by blast
  show ?thesis
  proof (cases "allocate_node t")
    case (Inl rc)
    have "insert_entry_into_parent cmp t r q key = Some (rc, t)" using r Inl by (subst insert_entry_into_parent.simps) simp
    then show ?thesis using linked_full [OF Inl assms(3,4)] by simp
  next
    case (Inr n)
    have n: "Suc FIRST_INDEX_PAGE \<le> n" "n < MAX_PAGE_NUM" "bt_pages t n = None" using allocate_node_ok(1) [OF Inr] by simp_all
    let ?N = "(reparent n {r, q} (bt_pages t))(n \<mapsto> InternalIndexNode None [(bt_zero t, r), (key, q)])"
    let ?t = "t\<lparr>bt_header := (bt_header t)\<lparr>root_page := Some n\<rparr>, bt_header_dirty := True, bt_pages := ?N, bt_dirty := bt_dirty t \<union> {r, q, n}\<rparr>"
    have "(bt_pages t)(n \<mapsto> InternalIndexNode None [(bt_zero t, r), (key, q)], r \<mapsto> set_parent_page_num (Some n) node,
        q \<mapsto> set_parent_page_num (Some n) qnode) = ?N"
      using r(1) qn n(3) q(2) by (auto simp: reparent_def fun_eq_iff)
    moreover have "n \<noteq> r" "n \<noteq> q" using n(3) r(1) qn by auto
    ultimately have run: "insert_entry_into_parent cmp t r q key = Some (SUCCESS, ?t)"
      using r qn q(2) Inr by (subst insert_entry_into_parent.simps)
        (simp add: Let_def put_node_def node_update_def dirty_node_def create_new_root_def update_root_page_num_locked_def insert_commute)
    have "tree_shape rank ?N (g\<lparr>g_lo := (g_lo g)(n := None), g_hi := (g_hi g)(n := None), g_lvl := (g_lvl g)(n := Suc (g_lvl g r))\<rparr>) None n"
      by (rule shape_new_root [OF shape assms(2) n(3)])
    moreover have "kept t ?t" by (auto simp: kept_def reparent_def)
    moreover have "pages_ok ?t" using assms(3) n by (auto simp: pages_ok_def)
    moreover have "sizes_ok ?t"
      using assms(4,5) by (auto intro!: node_sizes simp: sizes_ok_def max_size_def)
    moreover have "leaf_of ?N = leaf_of (bt_pages t)" using views_fresh(1) [of "bt_pages t" n, OF n(3)] by auto
    ultimately show ?thesis unfolding linked_def run
      by (intro exI [of _ SUCCESS] exI [of _ ?t] conjI refl) auto
  qed
qed

text \<open>Both ways to put the new child into one half of a full parent give the pages of linking first and splitting then.\<close>

lemma link_then_split:
  assumes "x \<noteq> n" "x \<noteq> q" "q \<noteq> n" "N q = Some qnode" "q \<notin> snd ` set (as @ bs)" "x \<notin> snd ` set bs" "n \<notin> snd ` set bs"
  shows "(reparent n (snd ` set bs) N)(n \<mapsto> InternalIndexNode par (ins bs), x \<mapsto> InternalIndexNode par as, q \<mapsto> set_parent_page_num (Some n) qnode)
      = (reparent n (snd ` set bs \<union> {q}) (reparent x {q} (N(x \<mapsto> node))))(n \<mapsto> InternalIndexNode par (ins bs), x \<mapsto> InternalIndexNode par as)"
    "(reparent n (snd ` set bs) N)(n \<mapsto> InternalIndexNode par bs, x \<mapsto> InternalIndexNode par (ins as), q \<mapsto> set_parent_page_num (Some x) qnode)
      = (reparent n (snd ` set bs) (reparent x {q} (N(x \<mapsto> node))))(n \<mapsto> InternalIndexNode par bs, x \<mapsto> InternalIndexNode par (ins as))"
proof -
  have twice: "set_parent_page_num a (set_parent_page_num b nd) = set_parent_page_num a nd" for a b and nd :: "'a IndexNode" by (cases nd) simp_all
  show "(reparent n (snd ` set bs) N)(n \<mapsto> InternalIndexNode par (ins bs), x \<mapsto> InternalIndexNode par as, q \<mapsto> set_parent_page_num (Some n) qnode)
      = (reparent n (snd ` set bs \<union> {q}) (reparent x {q} (N(x \<mapsto> node))))(n \<mapsto> InternalIndexNode par (ins bs), x \<mapsto> InternalIndexNode par as)"
    using assms by (auto simp: fun_eq_iff reparent_def twice)
  show "(reparent n (snd ` set bs) N)(n \<mapsto> InternalIndexNode par bs, x \<mapsto> InternalIndexNode par (ins as), q \<mapsto> set_parent_page_num (Some x) qnode)
      = (reparent n (snd ` set bs) (reparent x {q} (N(x \<mapsto> node))))(n \<mapsto> InternalIndexNode par bs, x \<mapsto> InternalIndexNode par (ins as))"
    using assms by (auto simp: fun_eq_iff reparent_def)
qed

context key_order
begin

lemma insert_after:
  assumes shape: "tree_shape rank N g (Some (p, q)) r" and x: "N x = Some (InternalIndexNode par (xs @ (k, p) # ys))" and "g_lo g q = Some (rank key)"
  shows "internal_insert cmp key q (xs @ (k, p) # ys) = xs @ (k, p) # (key, q) # ys"
proof -
  note kids = shape_kids [OF shape x]
  have "child_ok (parent_of N) g (Some (p, q)) x (left_bound rank (g_lo g x) xs k) (right_bound rank (g_hi g x) ys) p" by (rule kids_at [OF kids])
  then have "strictly_above (left_bound rank (g_lo g x) xs k) (rank key)" "below (right_bound rank (g_hi g x) ys) (rank key)"
    using shapeD(6) [OF shape] assms(3) by (auto simp: child_ok_def pend_ok_def)
  then have "insert_pos rank (rank key) (tl (xs @ (k, p) # ys)) = length xs"
    unfolding insert_pos_def by (rule kids_insert_index [OF kids])
  then show ?thesis using internal_insert_ok [OF kids_keys(1) [OF kids], of key q] by (simp add: insert_at_def)
qed

lemma link_linked:
  assumes shape: "tree_shape rank (bt_pages t) g (Some (p, q)) r" and "g_lo g q = Some (rank key)" "pages_ok t" "sizes_ok t"
    and root: "root_page (bt_header t) = Some r" and p: "bt_pages t p = Some node" "node_parent node = Some x"
    and x: "bt_pages t x = Some (InternalIndexNode par items)" "p \<in> snd ` set items" and room: "length items < internal_max_size (bt_header t)"
  shows "linked rank t (insert_entry_into_parent cmp t p q key)"
proof -
  obtain qnode where q: "bt_pages t q = Some qnode" using shapeD(6) [OF shape] by (auto simp: pend_ok_def parent_of_def)
  obtain xs k ys where items: "items = xs @ (k, p) # ys" using x(2) by (auto simp: in_set_conv_decomp)
  have x': "bt_pages t x = Some (InternalIndexNode par (xs @ (k, p) # ys))" using x(1) items by simp
  have qx: "q \<noteq> x"
  proof
    assume "q = x"
    then have "g_lvl g x = g_lvl g p" using shapeD(6) [OF shape] by (simp add: pend_ok_def)
    then show False using child_okD(3) [OF shape x] by simp
  qed
  let ?new = "xs @ (k, p) # (key, q) # ys"
  let ?N = "reparent x {q} ((bt_pages t)(x \<mapsto> InternalIndexNode par ?new))"
  let ?t = "t\<lparr>bt_pages := ?N, bt_dirty := bt_dirty t \<union> {p, q, x}\<rparr>"
  have "(bt_pages t)(x \<mapsto> InternalIndexNode par ?new, q \<mapsto> set_parent_page_num (Some x) qnode) = ?N"
    using q qx by (auto simp: reparent_def fun_eq_iff)
  then have run: "insert_entry_into_parent cmp t p q key = Some (SUCCESS, ?t)"
    using p x(1) room q qx insert_after [OF shape x' assms(2)] items
    by (subst insert_entry_into_parent.simps) (simp add: Let_def max_size_def put_node_def node_update_def dirty_node_def insert_commute)
  have "tree_shape rank ?N g None r" by (rule shape_link [OF shape x' assms(2)])
  moreover have "kept t ?t" by (auto simp: kept_def reparent_def)
  moreover have "pages_ok ?t" using assms(3) x(1) by (auto simp: pages_ok_def)
  moreover have "sizes_ok ?t" using assms(4) room items by (auto intro!: node_sizes simp: sizes_ok_def max_size_def)
  moreover have "leaf_of ?N = leaf_of (bt_pages t)" using views_same(2) [of "bt_pages t" x, OF x(1)] by simp
  ultimately show ?thesis unfolding linked_def run
    using root by (intro exI [of _ SUCCESS] exI [of _ ?t] conjI refl) auto
qed

lemma split_step:
  assumes shape: "tree_shape rank (bt_pages t) g (Some (p, q)) r" and "g_lo g q = Some (rank key)" "pages_ok t" "sizes_ok t"
    and max: "2 \<le> internal_max_size (bt_header t)" and p: "bt_pages t p = Some node" "node_parent node = Some x"
    and x: "bt_pages t x = Some (InternalIndexNode par items)" "p \<in> snd ` set items" and full: "\<not> length items < internal_max_size (bt_header t)"
    and n: "allocate_node t = Inr n" and dirty: "q \<in> bt_dirty t"
  obtains t' g' where "insert_entry_into_parent cmp t p q key = insert_entry_into_parent cmp t' x n (first_key t' n)"
    "tree_shape rank (bt_pages t') g' (Some (x, n)) r" "g_lo g' n = Some (rank (first_key t' n))"
    "g_lvl g' x = g_lvl g x" "g_lvl g' r = g_lvl g r" "kept t t'" "pages_ok t'" "sizes_ok t'" "bt_header t' = bt_header t"
    "leaf_of (bt_pages t') = leaf_of (bt_pages t)" "n \<in> bt_dirty t'"
proof -
  let ?N = "bt_pages t" and ?max = "internal_max_size (bt_header t)"
  obtain qnode where q: "?N q = Some qnode" "p \<noteq> q" using shapeD(6) [OF shape] by (auto simp: pend_ok_def parent_of_def)
  obtain xs k ys where items: "items = xs @ (k, p) # ys" using x(2) by (auto simp: in_set_conv_decomp)
  have x': "?N x = Some (InternalIndexNode par (xs @ (k, p) # ys))" using x(1) items by simp
  have nfresh: "?N n = None" "Suc FIRST_INDEX_PAGE \<le> n" "n < MAX_PAGE_NUM" using allocate_node_ok(1) [OF n] by simp_all
  have child: "?N c \<noteq> None \<and> c \<noteq> x \<and> c \<noteq> q \<and> c \<noteq> n" if "c \<in> snd ` set items" for c
    using child_okD [OF shape x(1) that] nfresh(1) by auto
  have qx: "q \<noteq> x" using child_okD(3) [OF shape x] shapeD(6) [OF shape] by (auto simp: pend_ok_def)
  have xn: "x \<noteq> n" "q \<noteq> n" "r \<noteq> n" using x(1) q(1) nfresh(1) shapeD(1) [OF shape] by (auto simp: root_ok_def parent_of_def)
  have len: "length items = ?max" using full node_sizes_at [OF assms(4) [unfolded sizes_ok_def] x(1)] by (simp add: max_size_def)
  define as bs where "as = take (length items div 2) items" and "bs = drop (length items div 2) items"
  have ab: "items = as @ bs" "as \<noteq> []" "bs \<noteq> []" "Suc (length as) \<le> ?max" "Suc (length bs) \<le> ?max"
    using len max by (auto simp: as_def bs_def)
  let ?t1 = "t\<lparr>bt_pages := (reparent n (snd ` set bs) ?N)(n \<mapsto> InternalIndexNode par bs, x \<mapsto> InternalIndexNode par as), bt_dirty := bt_dirty t \<union> snd ` set bs \<union> {x, n}\<rparr>"
  have split: "split_node t x = (Inr n, ?t1)"
    unfolding as_def bs_def by (rule split_internal_ok [OF x(1) n]) (use child in blast)
  let ?right = "cmp key (fst (hd bs)) > 0"
  define as' bs' where "as' = (if ?right then as else internal_insert cmp key q as)" and "bs' = (if ?right then internal_insert cmp key q bs else bs)"
  have sorted: "sorted_wrt (<) (map (\<lambda>y. rank (fst y)) (tl (as @ bs)))" using kids_keys(1) [OF shape_kids [OF shape x(1)]] ab(1) by simp
  have ab': "xs @ (k, p) # (key, q) # ys = as' @ bs'"
    using internal_insert_split [OF sorted ab(2,3), of key q] insert_after [OF shape x' assms(2)] items ab(1) by (simp add: as'_def bs'_def)
  let ?M = "reparent x {q} (?N(x \<mapsto> InternalIndexNode par (as' @ bs')))"
  let ?N' = "(reparent n (snd ` set bs') ?M)(n \<mapsto> InternalIndexNode par bs', x \<mapsto> InternalIndexNode par as')"
  let ?t = "t\<lparr>bt_pages := ?N', bt_dirty := bt_dirty t \<union> snd ` set bs \<union> {x, n}\<rparr>"
  have sides: "q \<notin> snd ` set (as @ bs)" "x \<notin> snd ` set bs" "n \<notin> snd ` set bs" using child unfolding ab(1) by auto
  have setbs': "snd ` set bs' = (if ?right then snd ` set bs \<union> {q} else snd ` set bs)" by (auto simp: bs'_def internal_insert_def)
  have q1: "bt_pages ?t1 q = Some qnode" using q(1) qx xn sides by (auto simp: reparent_def)
  have first1: "first_key ?t1 n = fst (hd bs)" using xn ab(3) by (simp add: first_key_def hd_conv_nth)
  have hd': "hd bs' = hd bs"
    using internal_insert_ok [of bs key q] sorted ab(2,3) insert_at_hd [of "Suc i" bs for i] by (cases as; cases bs) (auto simp: bs'_def sorted_wrt_append)
  have ne: "as' \<noteq> []" "bs' \<noteq> []" using ab by (simp_all add: as'_def bs'_def internal_insert_def)
  have first': "first_key ?t n = fst (hd bs')" using xn ne by (simp add: first_key_def hd_conv_nth)
  have run: "insert_entry_into_parent cmp t p q key = insert_entry_into_parent cmp ?t x n (first_key ?t n)"
  proof -
    let ?target = "if ?right then n else x"
    have "node_update (node_update ?t1 ?target (\<lambda>nd. InternalIndexNode (node_parent nd) (internal_insert cmp key q (internal_items nd)))) q (set_parent_page_num (Some ?target)) = ?t"
      using link_then_split [of x n q ?N qnode as bs par "internal_insert cmp key q" "InternalIndexNode par (as' @ bs')", OF xn(1) qx [symmetric] xn(2) q(1) sides] q1 qx xn setbs'
      by (simp add: node_update_def put_node_def as'_def bs'_def fun_upd_twist)
    then show ?thesis using p x(1) full split first1 by (subst insert_entry_into_parent.simps) (simp add: Let_def max_size_def)
  qed
  have "tree_shape rank ?M g None r" using shape_link [OF shape x' assms(2)] ab' by simp
  moreover have "?M x = Some (InternalIndexNode par (as' @ bs'))" "?M n = None" using qx xn nfresh(1) by (simp_all add: reparent_def)
  ultimately have shape': "tree_shape rank ?N' (split_ghost g x n (rank (fst (hd bs')))) (Some (x, n)) r"
    using ne by (intro shape_split_internal)
  have K: "kept t ?t"
  proof -
    have "?N' y = ?N y" if "y \<notin> bt_dirty t \<union> snd ` set bs \<union> {x, n}" for y
      using that dirty setbs' by (auto simp: reparent_def split: if_splits)
    then show ?thesis by (auto simp: kept_def)
  qed
  have Pg: "pages_ok ?t" using assms(3) x(1) nfresh by (auto simp: pages_ok_def)
  have Sz: "sizes_ok ?t"
  proof -
    have "?N' = (reparent n (snd ` set bs') (reparent x {q} ?N))(n \<mapsto> InternalIndexNode par bs', x \<mapsto> InternalIndexNode par as')"
      by (auto simp: reparent_def fun_eq_iff)
    moreover have "length as' \<le> ?max" "length bs' \<le> ?max" using ab(4,5) by (simp_all add: as'_def bs'_def internal_insert_def)
    ultimately show ?thesis using assms(4) by (simp add: sizes_ok_def) (intro node_sizes, simp_all add: max_size_def)
  qed
  have Lf: "leaf_of (bt_pages ?t) = leaf_of ?N"
    using views_same(2) [of ?N x, OF x(1)] views_fresh(1) [of ?N n, OF nfresh(1)] by (auto simp: fun_eq_iff)
  show thesis
    by (rule that [of ?t "split_ghost g x n (rank (fst (hd bs')))", OF run _ _ _ _ K Pg Sz _ Lf]) (use shape' xn first' in simp_all)
qed

lemma insert_into_parent_ok:
  assumes "tree_shape rank (bt_pages t) g (Some (p, q)) r" "g_lo g q = Some (rank key)" "pages_ok t" "sizes_ok t"
    "2 \<le> internal_max_size (bt_header t)" "root_page (bt_header t) = Some r" "q \<in> bt_dirty t"
  shows "linked rank t (insert_entry_into_parent cmp t p q key)"
  using assms
proof (induction "g_lvl g r - g_lvl g p" arbitrary: t g p q key rule: less_induct)
  case (less g p t q key)
  note shape = less.prems(1)
  have pq: "p \<notin> new_node_of (Some (p, q))" "bt_pages t p \<noteq> None" using shapeD(6) [OF shape] by (auto simp: pend_ok_def parent_of_def)
  obtain node where p: "bt_pages t p = Some node" using pq(2) by blast
  show ?case
  proof (cases "p = r")
    case True
    then show ?thesis using root_linked [of rank t g r q key] less.prems by simp
  next
    case False
    obtain x par items where x: "node_parent node = Some x" "bt_pages t x = Some (InternalIndexNode par items)" "p \<in> snd ` set items" "g_lvl g x = Suc (g_lvl g p)"
      by (rule parentE [OF shape p pq(1) False])
    show ?thesis
    proof (cases "length items < internal_max_size (bt_header t)")
      case True
      then show ?thesis using link_linked [OF shape less.prems(2-4) less.prems(6) p x(1-3)] by simp
    next
      case full: False
      show ?thesis
      proof (cases "allocate_node t")
        case (Inl rc)
        then have "insert_entry_into_parent cmp t p q key = Some (rc, t)"
          using p x full by (subst insert_entry_into_parent.simps) (simp add: max_size_def split_node_def)
        then show ?thesis using linked_full [OF Inl less.prems(3,4)] by simp
      next
        case (Inr n)
        obtain t' g' where t': "insert_entry_into_parent cmp t p q key = insert_entry_into_parent cmp t' x n (first_key t' n)"
          "tree_shape rank (bt_pages t') g' (Some (x, n)) r" "g_lo g' n = Some (rank (first_key t' n))"
          "g_lvl g' x = g_lvl g x" "g_lvl g' r = g_lvl g r" "kept t t'" "pages_ok t'" "sizes_ok t'" "bt_header t' = bt_header t"
          "leaf_of (bt_pages t') = leaf_of (bt_pages t)" "n \<in> bt_dirty t'"
          by (rule split_step [OF shape less.prems(2-5) p x(1-3) full Inr less.prems(7)])
        have "g_lvl g x \<le> g_lvl g r" by (rule level_le [OF shape]) (simp add: x(2))
        then have "linked rank t' (insert_entry_into_parent cmp t' x n (first_key t' n))"
          using t' x(4) less.prems by (intro less.hyps [of g' x]) simp_all
        then show ?thesis unfolding t'(1) by (rule linked_trans [OF t'(6) t'(10)])
      qed
    qed
  qed
qed

lemma leaf_lookup_ok:
  assumes "sorted_wrt (<) (map (\<lambda>x. rank (fst x)) items)"
  shows "leaf_lookup cmp key items = (insert_pos rank (rank key) items, \<exists>x \<in> set items. rank (fst x) = rank key)"
proof -
  have "sorted_wrt (<) (map rank (map fst items))" using assms by (simp add: comp_def)
  from search [OF this, of key] show ?thesis
    by (simp add: leaf_lookup_def linear_bound_def insert_pos_def takeWhile_map comp_def image_iff eq_commute [of "rank key"])
qed

text \<open>The search of a unique index, which compares the attributes only.\<close>

lemma leaf_lookup_unique:
  assumes "sorted_wrt (<) (map (\<lambda>x. rank (fst x)) items)"
  shows "snd (leaf_lookup acmp key items) \<longleftrightarrow> (\<exists>x \<in> set items. arank (fst x) = arank key)"
    "\<forall>x \<in> set items. arank (fst x) \<noteq> arank key \<Longrightarrow> fst (leaf_lookup acmp key items) = insert_pos rank (rank key) items"
proof -
  have s: "sorted (map arank (map fst items))"
    using assms unfolding sorted_wrt_map by (rule sorted_wrt_mono_rel [rotated]) (simp add: arank_mono less_imp_le)
  have r: "\<forall>x \<in> set (map fst items). ranked acmp arank x key" by (simp add: acmp_rank)
  show "snd (leaf_lookup acmp key items) \<longleftrightarrow> (\<exists>x \<in> set items. arank (fst x) = arank key)"
    using lower_bound_found(1) [OF s r] by (simp add: leaf_lookup_def)
  show "fst (leaf_lookup acmp key items) = insert_pos rank (rank key) items" if ne: "\<forall>x \<in> set items. arank (fst x) \<noteq> arank key"
  proof -
    have "arank (fst x) < arank key \<longleftrightarrow> rank (fst x) < rank key" if "x \<in> set items" for x
      using ne that arank_mono [of "fst x" key] arank_mono [of key "fst x"] by (metis le_less less_imp_le not_less)
    then have "takeWhile (\<lambda>x. arank (fst x) < arank key) items = takeWhile (\<lambda>x. rank (fst x) < rank key) items"
      by (intro takeWhile_cong) simp_all
    then show ?thesis using lower_bound_found(2) [OF s r] ne by (simp add: leaf_lookup_def insert_pos_def takeWhile_map comp_def)
  qed
qed

lemma rank_duplicate: "rank (fst x) = rank key \<Longrightarrow> duplicate rank arank uniq key x"
  using arank_mono [of "fst x" key] arank_mono [of key "fst x"] by (simp add: duplicate_def)

lemma leaf_lookup_any:
  assumes "sorted_wrt (<) (map (\<lambda>x. rank (fst x)) items)"
  shows "snd (leaf_lookup (if uniq then acmp else cmp) key items) \<longleftrightarrow> (\<exists>x \<in> set items. duplicate rank arank uniq key x)"
    "\<forall>x \<in> set items. \<not> duplicate rank arank uniq key x \<Longrightarrow> fst (leaf_lookup (if uniq then acmp else cmp) key items) = insert_pos rank (rank key) items"
  by (cases uniq; use leaf_lookup_ok [OF assms, of key] leaf_lookup_unique [OF assms, of key] in \<open>simp add: duplicate_def\<close>)+

lemma leaf_lookup_new:
  assumes "sorted_wrt (<) (map (\<lambda>x. rank (fst x)) items)" "\<forall>x \<in> set items. \<not> duplicate rank arank uniq key x"
  shows "leaf_lookup (if uniq then acmp else cmp) key items = (insert_pos rank (rank key) items, False)"
  using leaf_lookup_any [OF assms(1), of uniq key] assms(2) by (simp add: prod_eq_iff)

end


section \<open>Inserting\<close>

definition items_at :: "'k leaf_view \<Rightarrow> PageNum \<Rightarrow> ('k \<times> RID) set" where
  "items_at Lf p = (case Lf p of None \<Rightarrow> {} | Some (nxt, items) \<Rightarrow> set items)"

definition entries :: "'k nodes \<Rightarrow> ('k \<times> RID) set" where
  "entries N = (\<Union>p. items_at (leaf_of N) p)"

definition tree_ok :: "('k \<Rightarrow> 'o::linorder) \<Rightarrow> 'k BplusTree \<Rightarrow> bool" where
  "tree_ok rank t \<longleftrightarrow> pages_ok t \<and> sizes_ok t \<and> bt_disposed t = [] \<and>
     (case root_page (bt_header t) of None \<Rightarrow> bt_pages t = Map.empty | Some r \<Rightarrow> \<exists>g. tree_shape rank (bt_pages t) g None r)"

lemma items_at_leaf: "N p = Some (LeafIndexNode par nxt items) \<Longrightarrow> items_at (leaf_of N) p = set items"
  by (simp add: items_at_def leaf_of_def)

lemma entries_leaf: "N p = Some (LeafIndexNode par nxt items) \<Longrightarrow> set items \<subseteq> entries N"
  unfolding entries_def using items_at_leaf [of N p] by blast

lemma entries_update:
  assumes "\<And>x. x \<noteq> p \<Longrightarrow> x \<noteq> q \<Longrightarrow> items_at (leaf_of N') x = items_at (leaf_of N) x"
    and "items_at (leaf_of N') p \<union> items_at (leaf_of N') q = insert e (items_at (leaf_of N) p \<union> items_at (leaf_of N) q)"
  shows "entries N' = insert e (entries N)"
proof -
  have all: "(\<Union>x. f x) = f p \<union> f q \<union> (\<Union>x \<in> - {p, q}. f x)" for f :: "PageNum \<Rightarrow> ('a \<times> RID) set" by auto
  have "(\<Union>x \<in> - {p, q}. items_at (leaf_of N') x) = (\<Union>x \<in> - {p, q}. items_at (leaf_of N) x)" using assms(1) by simp
  then show ?thesis unfolding entries_def all [of "items_at (leaf_of N')"] all [of "items_at (leaf_of N)"] assms(2) by simp
qed

text \<open>An entry is in the leaf whose range contains its rank.\<close>

lemma entry_in_leaf:
  assumes "tree_shape rank N g None r" "N p = Some (LeafIndexNode par nxt items)" "in_range g p (rank (fst e))" "e \<in> entries N"
  shows "e \<in> set items"
proof -
  obtain q nxt' items' where q: "leaf_of N q = Some (nxt', items')" "e \<in> set items'"
    using assms(4) by (auto simp: entries_def items_at_def split: option.splits)
  obtain par' where q': "N q = Some (LeafIndexNode par' nxt' items')" using q(1) by (rule leaf_of_SomeE)
  have "p = q"
    by (rule leaf_unique [OF assms(1) _ _ assms(3) shape_leaf(4) [OF assms(1) q' q(2)]]) (use q(1) views_at(1) [of N p, OF assms(2)] in simp_all)
  then show ?thesis using q(2) q' assms(2) by simp
qed

definition inserted :: "('k \<Rightarrow> 'o::linorder) \<Rightarrow> 'k BplusTree \<Rightarrow> 'k \<times> RID \<Rightarrow> (RC \<times> 'k BplusTree) option \<Rightarrow> bool" where
  "inserted rank t e res \<longleftrightarrow> (\<exists>rc t'. res = Some (rc, t') \<and> kept t t' \<and> pages_ok t' \<and> sizes_ok t' \<and> entries (bt_pages t') = insert e (entries (bt_pages t)) \<and>
     (if rc = SUCCESS then \<exists>g' r'. root_page (bt_header t') = Some r' \<and> tree_shape rank (bt_pages t') g' None r'
      else rc = BUFFERPOOL_NOBUF \<and> {Suc FIRST_INDEX_PAGE ..< MAX_PAGE_NUM} \<subseteq> dom (bt_pages t')))"

lemma linked_inserted:
  assumes "kept t t'" "entries (bt_pages t') = insert e (entries (bt_pages t))" "linked rank t' res"
  shows "inserted rank t e res"
proof -
  obtain rc u where u: "res = Some (rc, u)" "kept t' u" "pages_ok u" "sizes_ok u" "leaf_of (bt_pages u) = leaf_of (bt_pages t')"
    "if rc = SUCCESS then \<exists>g' r'. root_page (bt_header u) = Some r' \<and> tree_shape rank (bt_pages u) g' None r'
      else rc = BUFFERPOOL_NOBUF \<and> {Suc FIRST_INDEX_PAGE ..< MAX_PAGE_NUM} \<subseteq> dom (bt_pages u)"
    using assms(3) unfolding linked_def by (elim exE conjE)
  have "entries (bt_pages u) = insert e (entries (bt_pages t))" using u(5) assms(2) by (simp add: entries_def)
  then show ?thesis unfolding inserted_def using u kept_trans [OF assms(1) u(2)] by (intro exI [of _ rc] exI [of _ u] conjI)
qed

text \<open>What \<open>insert_key\<close> does: it inserts, finds a duplicate, or runs out of pages.\<close>

definition insert_outcome :: "('k \<Rightarrow> 'o::linorder) \<Rightarrow> ('k \<Rightarrow> 'p) \<Rightarrow> 'k BplusTree \<Rightarrow> 'k \<Rightarrow> RID \<Rightarrow> (RC \<times> 'k BplusTree) option \<Rightarrow> bool" where
  "insert_outcome rank arank t key rid res \<longleftrightarrow> (\<exists>rc t'. res = Some (rc, t') \<and> kept t t' \<and>
     (rc = SUCCESS \<and> tree_ok rank t' \<and> entries (bt_pages t') = insert (key, rid) (entries (bt_pages t)) \<and> (\<forall>x \<in> entries (bt_pages t). rank (fst x) \<noteq> rank key)
      \<or> rc = RECORD_DUPLICATE_KEY \<and> t' = t \<and> (\<exists>x \<in> entries (bt_pages t). duplicate rank arank (unique (bt_header t)) key x)
      \<or> rc = BUFFERPOOL_NOBUF \<and> {Suc FIRST_INDEX_PAGE ..< MAX_PAGE_NUM} \<subseteq> dom (bt_pages t')))"

lemma release_nothing: "bt_disposed t = [] \<Longrightarrow> release_memo t = t"
  by (cases t) (simp add: release_memo_def restrict_map_def)

lemma inserted_outcome:
  assumes "inserted rank t (key, rid) res" "tree_ok rank t" "\<forall>x \<in> entries (bt_pages t). rank (fst x) \<noteq> rank key"
  shows "insert_outcome rank arank t key rid (map_option (\<lambda>(rc, t). (rc, release_memo t)) res)"
proof -
  obtain rc u where u: "res = Some (rc, u)" "kept t u" "pages_ok u" "sizes_ok u" "entries (bt_pages u) = insert (key, rid) (entries (bt_pages t))"
    "if rc = SUCCESS then \<exists>g' r'. root_page (bt_header u) = Some r' \<and> tree_shape rank (bt_pages u) g' None r'
      else rc = BUFFERPOOL_NOBUF \<and> {Suc FIRST_INDEX_PAGE ..< MAX_PAGE_NUM} \<subseteq> dom (bt_pages u)"
    using assms(1) unfolding inserted_def by (elim exE conjE)
  have d: "bt_disposed u = []" using u(2) assms(2) by (simp add: kept_def tree_ok_def)
  have "tree_ok rank u" if "rc = SUCCESS" using u(3,4,6) d that by (auto simp: tree_ok_def)
  then show ?thesis
    unfolding insert_outcome_def using u assms(3) release_nothing [OF d] by (intro exI [of _ rc] exI [of _ u] conjI) (auto split: if_splits)
qed

context key_order
begin

lemma leaf_room_inserted:
  assumes shape: "tree_shape rank (bt_pages t) g None r" and root: "root_page (bt_header t) = Some r"
    and p: "bt_pages t p = Some (LeafIndexNode par nxt items)" "in_range g p (rank key)"
    and new: "\<forall>x \<in> set items. \<not> duplicate rank arank (unique (bt_header t)) key x" and ok: "pages_ok t" "sizes_ok t"
    and room: "length items < leaf_max_size (bt_header t)"
  shows "inserted rank t (key, rid) (insert_entry_into_leaf_node cmp acmp t p key rid)"
proof -
  note leaf = shape_leaf [OF shape p(1)]
  let ?items = "insert_at (insert_pos rank (rank key) items) (key, rid) items"
  let ?t = "t\<lparr>bt_pages := (bt_pages t)(p \<mapsto> LeafIndexNode par nxt ?items), bt_dirty := insert p (bt_dirty t)\<rparr>"
  have run: "insert_entry_into_leaf_node cmp acmp t p key rid = Some (SUCCESS, ?t)"
    using p(1) room leaf_lookup_new [OF leaf(3) new]
    by (simp add: insert_entry_into_leaf_node_def max_size_def put_node_def dirty_node_def)
  have ne: "\<forall>x \<in> set items. rank (fst x) \<noteq> rank (fst (key, rid))" using new rank_duplicate by auto
  have "tree_shape rank (bt_pages ?t) g None r"
    using insert_at_sorted [OF leaf(3) ne] leaf(4) p(2) by (auto intro!: shape_leaf_update [OF shape p(1)])
  moreover have "entries (bt_pages ?t) = insert (key, rid) (entries (bt_pages t))"
    by (rule entries_update [of p p]) (simp_all add: items_at_def views_at(1) [of "bt_pages t" p, OF p(1)])
  moreover have "kept t ?t" "pages_ok ?t" using ok p(1) by (auto simp: kept_def pages_ok_def)
  moreover have "sizes_ok ?t" using ok(2) room by (auto intro!: node_sizes simp: sizes_ok_def max_size_def)
  ultimately show ?thesis unfolding inserted_def run using root by (intro exI [of _ SUCCESS] exI [of _ ?t] conjI refl) auto
qed

lemma leaf_split_inserted:
  assumes shape: "tree_shape rank (bt_pages t) g None r" and root: "root_page (bt_header t) = Some r"
    and p: "bt_pages t p = Some (LeafIndexNode par nxt items)" "in_range g p (rank key)"
    and new: "\<forall>x \<in> set items. \<not> duplicate rank arank (unique (bt_header t)) key x" and ok: "pages_ok t" "sizes_ok t"
    and full: "\<not> length items < leaf_max_size (bt_header t)" and max: "2 \<le> leaf_max_size (bt_header t)" "2 \<le> internal_max_size (bt_header t)"
    and n: "allocate_node t = Inr n"
  shows "inserted rank t (key, rid) (insert_entry_into_leaf_node cmp acmp t p key rid)"
proof -
  note leaf = shape_leaf [OF shape p(1)]
  let ?N = "bt_pages t" and ?m = "length items div 2" and ?pos = "insert_pos rank (rank key) items"
  have nfresh: "?N n = None" "Suc FIRST_INDEX_PAGE \<le> n" "n < MAX_PAGE_NUM" using allocate_node_ok(1) [OF n] by simp_all
  have pn: "p \<noteq> n" using p(1) nfresh(1) by auto
  have len: "length items = leaf_max_size (bt_header t)" using full node_sizes_at [OF ok(2) [unfolded sizes_ok_def] p(1)] by (simp add: max_size_def)
  define as bs where "as = (if ?pos < ?m then insert_at ?pos (key, rid) (take ?m items) else take ?m items)"
    and "bs = (if ?pos < ?m then drop ?m items else insert_at (?pos - ?m) (key, rid) (drop ?m items))"
  have ab: "as @ bs = insert_at ?pos (key, rid) items"
    using insert_at_append(1) [of "take ?m items" "?pos - ?m" "(key, rid)" "drop ?m items"] insert_at_append(2) [of ?pos "take ?m items" "(key, rid)" "drop ?m items"]
    by (auto simp: as_def bs_def)
  have ne: "as \<noteq> []" "bs \<noteq> []" "length as \<le> leaf_max_size (bt_header t)" "length bs \<le> leaf_max_size (bt_header t)"
    using len max(1) by (auto simp: as_def bs_def)
  let ?N' = "?N(n \<mapsto> LeafIndexNode par nxt bs, p \<mapsto> LeafIndexNode par (Some n) as)"
  let ?t = "t\<lparr>bt_dirty := bt_dirty t \<union> {p, n}, bt_pages := ?N'\<rparr>"
  have "insert_entry_into_leaf_node cmp acmp t p key rid = insert_entry_into_parent cmp ?t p n (first_key ?t n)"
    using p(1) full leaf_lookup_new [OF leaf(3) new] split_leaf_ok [OF p(1) n] pn
    by (simp add: insert_entry_into_leaf_node_def max_size_def Let_def node_update_def put_node_def as_def bs_def fun_upd_twist [OF pn])
  moreover have "linked rank ?t (insert_entry_into_parent cmp ?t p n (first_key ?t n))"
  proof (rule insert_into_parent_ok)
    let ?M = "?N(p \<mapsto> LeafIndexNode par nxt (as @ bs))"
    have "\<forall>x \<in> set items. rank (fst x) \<noteq> rank (fst (key, rid))" using new rank_duplicate by auto
    from insert_at_sorted [OF leaf(3) this] have "tree_shape rank ?M g None r"
      using leaf(4) p(2) unfolding ab by (auto intro!: shape_leaf_update [OF shape p(1)])
    moreover have "?M p = Some (LeafIndexNode par nxt (as @ bs))" "?M n = None" using pn nfresh(1) by simp_all
    ultimately have "tree_shape rank (?M(n \<mapsto> LeafIndexNode par nxt bs, p \<mapsto> LeafIndexNode par (Some n) as)) (split_ghost g p n (rank (fst (hd bs)))) (Some (p, n)) r"
      using ne(1,2) by (intro shape_split_leaf)
    then show "tree_shape rank (bt_pages ?t) (split_ghost g p n (rank (fst (hd bs)))) (Some (p, n)) r"
      using pn by (simp add: fun_upd_twist)
    show "g_lo (split_ghost g p n (rank (fst (hd bs)))) n = Some (rank (first_key ?t n))"
      using pn ne(2) by (simp add: first_key_def hd_conv_nth)
    show "pages_ok ?t" using ok(1) p(1) nfresh by (auto simp: pages_ok_def)
    show "sizes_ok ?t" using ok(2) ne by (auto intro!: node_sizes simp: sizes_ok_def max_size_def)
  qed (use max(2) root in simp_all)
  moreover have "entries (bt_pages ?t) = insert (key, rid) (entries ?N)"
  proof (rule entries_update [of p n])
    have "set as \<union> set bs = insert (key, rid) (set items)" using arg_cong [OF ab, of set] by simp
    then show "items_at (leaf_of (bt_pages ?t)) p \<union> items_at (leaf_of (bt_pages ?t)) n = insert (key, rid) (items_at (leaf_of ?N) p \<union> items_at (leaf_of ?N) n)"
      using pn views_at(1) [of ?N p, OF p(1)] views_fresh(1) [of ?N n, OF nfresh(1)] by (simp add: items_at_def)
  qed (simp add: items_at_def)
  moreover have "kept t ?t" by (auto simp: kept_def)
  ultimately show ?thesis using linked_inserted [of t ?t "(key, rid)" rank] by simp
qed

text \<open>The first key makes a tree of one leaf.\<close>

lemma new_tree_shape:
  "tree_shape rank [n \<mapsto> LeafIndexNode None None [(key, rid)]] \<lparr>g_lo = (\<lambda>_. None), g_hi = (\<lambda>_. None), g_lvl = (\<lambda>_. 0)\<rparr> None n"
proof -
  let ?N = "[n \<mapsto> LeafIndexNode None None [(key, rid)]]"
  have "leaf_of ?N = [n \<mapsto> (None, [(key, rid)])]" "kids_of ?N = Map.empty" "parent_of ?N = [n \<mapsto> None]"
    by (auto simp: leaf_of_def kids_of_def parent_of_def)
  then show ?thesis
    by (simp add: tree_shape_def root_ok_def leaves_ok_def chain_ok_def link_ok_def kids_all_ok_def parents_ok_def pend_ok_def in_range_def)
qed

lemma create_new_tree_ok:
  assumes "tree_ok rank t" "root_page (bt_header t) = None" "0 < leaf_max_size (bt_header t)"
  shows "inserted rank t (key, rid) (Some (create_new_tree t key rid)) \<and> entries (bt_pages t) = {} \<and> fst (create_new_tree t key rid) = SUCCESS"
proof -
  have empty: "bt_pages t = Map.empty" using assms(1,2) by (simp add: tree_ok_def)
  obtain n where n: "allocate_node t = Inr n"
  proof (cases "allocate_node t")
    case (Inl rc)
    have "Suc FIRST_INDEX_PAGE < MAX_PAGE_NUM" by (simp add: FIRST_INDEX_PAGE_def MAX_PAGE_NUM_def BP_PAGE_DATA_SIZE_def BP_PAGE_SIZE_def)
    then show ?thesis using allocate_node_ok(2) [OF Inl] by (simp add: empty)
  qed
  have nfresh: "Suc FIRST_INDEX_PAGE \<le> n" "n < MAX_PAGE_NUM" using allocate_node_ok(1) [OF n] by simp_all
  let ?t = "t\<lparr>bt_header := (bt_header t)\<lparr>root_page := Some n\<rparr>, bt_header_dirty := True, bt_pages := [n \<mapsto> LeafIndexNode None None [(key, rid)]], bt_dirty := insert n (bt_dirty t)\<rparr>"
  have run: "create_new_tree t key rid = (SUCCESS, ?t)"
    using assms(2) n empty by (simp add: create_new_tree_def Let_def put_node_def leaf_init_empty_def insert_at_def update_root_page_num_locked_def dirty_node_def)
  have none: "entries (bt_pages t) = {}" using empty by (simp add: entries_def items_at_def leaf_of_def)
  moreover have "entries (bt_pages ?t) = {(key, rid)}" by (auto simp: entries_def items_at_def leaf_of_def split: if_splits)
  moreover have "kept t ?t" "pages_ok ?t" using nfresh by (auto simp: kept_def pages_ok_def empty)
  moreover have "sizes_ok ?t" using assms(3) by (simp add: sizes_ok_def node_sizes_ok_def max_size_def)
  ultimately show ?thesis unfolding inserted_def run
    using new_tree_shape [of n key rid] by (intro conjI exI [of _ SUCCESS] exI [of _ ?t] refl) auto
qed

lemma insert_key_ok:
  assumes ok: "tree_ok rank t" and max: "2 \<le> leaf_max_size (bt_header t)" "2 \<le> internal_max_size (bt_header t)"
  shows "insert_outcome rank arank t key rid (insert_key cmp acmp t key rid)"
proof (cases "root_page (bt_header t)")
  case None
  have "inserted rank t (key, rid) (Some (create_new_tree t key rid))" "entries (bt_pages t) = {}"
    using create_new_tree_ok [OF ok None, of key rid] max(1) by simp_all
  moreover have "bt_disposed (snd (create_new_tree t key rid)) = []"
    using calculation(1) ok by (auto simp: inserted_def kept_def tree_ok_def)
  ultimately show ?thesis
    using inserted_outcome [OF _ ok, of key rid "Some (create_new_tree t key rid)"] None
    by (cases "create_new_tree t key rid") (simp add: insert_key_def tree_is_empty_def release_nothing)
next
  case (Some r)
  have t: "pages_ok t" "sizes_ok t" using ok by (simp_all add: tree_ok_def)
  obtain g where shape: "tree_shape rank (bt_pages t) g None r" using ok Some by (auto simp: tree_ok_def)
  obtain p par nxt items where p: "find_leaf cmp t key = Some (Inr p)" "bt_pages t p = Some (LeafIndexNode par nxt items)" "in_range g p (rank key)"
    by (rule find_leaf_ok [OF shape Some])
  note leaf = shape_leaf [OF shape p(2)]
  have run: "insert_key cmp acmp t key rid = map_option (\<lambda>(rc, t). (rc, release_memo t)) (insert_entry_into_leaf_node cmp acmp t p key rid)"
    using Some p(1) by (simp add: insert_key_def tree_is_empty_def split: option.splits)
  show ?thesis
  proof (cases "\<exists>x \<in> set items. duplicate rank arank (unique (bt_header t)) key x")
    case True
    then obtain x where x: "x \<in> set items" "duplicate rank arank (unique (bt_header t)) key x" by blast
    have "insert_entry_into_leaf_node cmp acmp t p key rid = Some (RECORD_DUPLICATE_KEY, t)"
      using p(2) leaf_lookup_any(1) [OF leaf(3), of "unique (bt_header t)" key] True
      by (cases "leaf_lookup (if unique (bt_header t) then acmp else cmp) key items") (simp add: insert_entry_into_leaf_node_def)
    then show ?thesis unfolding run insert_outcome_def
      using ok x entries_leaf [of "bt_pages t" p, OF p(2)] by (auto simp: tree_ok_def release_nothing)
  next
    case False
    have new: "\<forall>x \<in> entries (bt_pages t). rank (fst x) \<noteq> rank key"
    proof
      fix x assume that: "x \<in> entries (bt_pages t)"
      show "rank (fst x) \<noteq> rank key" using entry_in_leaf [OF shape p(2) _ that] p(3) False rank_duplicate [of x key "unique (bt_header t)"] by auto
    qed
    have "inserted rank t (key, rid) (insert_entry_into_leaf_node cmp acmp t p key rid)
      \<or> insert_entry_into_leaf_node cmp acmp t p key rid = Some (BUFFERPOOL_NOBUF, t) \<and> {Suc FIRST_INDEX_PAGE ..< MAX_PAGE_NUM} \<subseteq> dom (bt_pages t)"
    proof (cases "length items < leaf_max_size (bt_header t)")
      case True
      then show ?thesis using leaf_room_inserted [OF shape Some p(2,3) _ t] False by blast
    next
      case full: False
      show ?thesis
      proof (cases "allocate_node t")
        case (Inl rc)
        then have "insert_entry_into_leaf_node cmp acmp t p key rid = Some (rc, t)"
          using p(2) full False leaf_lookup_new [OF leaf(3), of "unique (bt_header t)" key]
          by (simp add: insert_entry_into_leaf_node_def max_size_def split_node_def)
        then show ?thesis using allocate_node_ok(2) [OF Inl] by simp
      next
        case (Inr n)
        then show ?thesis using leaf_split_inserted [OF shape Some p(2,3) _ t full max] False by blast
      qed
    qed
    then show ?thesis
    proof
      assume "inserted rank t (key, rid) (insert_entry_into_leaf_node cmp acmp t p key rid)"
      then show ?thesis unfolding run by (rule inserted_outcome [OF _ ok new])
    qed (use ok in \<open>simp add: run insert_outcome_def tree_ok_def release_nothing\<close>)
  qed
qed

end

end
