(* ===== verification/BplusScan.thy ===== *)
theory BplusScan
  imports BplusInsert
begin

text \<open>
  \<^verbatim>\<open>BplusTreeScanner\<close> and \<^verbatim>\<open>BplusTreeHandler::get_entry\<close> of \<^verbatim>\<open>src/observer/storage/index/bplus_tree.cpp\<close>.

  The scanner holds a leaf and a position in it; the latches it takes are always free here. A user
  key is the bytes at its address; what \<open>make_key\<close> would read behind them is not modelled.

  The proofs: the leaves from a leaf on, in the order they are linked, hold exactly the entries from
  the start of its range on, in ascending order; a scan gives the entries between its two bounds.
\<close>

section \<open>The scanner\<close>

record 'k BplusTreeScanner =
  sc_inited :: bool
  sc_frame :: "PageNum option"
  sc_right_key :: "'k option"
  sc_iter_index :: nat
  sc_first_emitted :: bool

definition scanner_new :: "'k BplusTreeScanner" where
  "scanner_new = \<lparr>sc_inited = False, sc_frame = None, sc_right_key = None, sc_iter_index = 0, sc_first_emitted = False\<rparr>"

text \<open>\<open>fix_user_key\<close>: the bytes for a field of fixed length, and whether the bound has become inclusive.\<close>

definition fix_user_key :: "IndexFileHeader \<Rightarrow> byte list \<Rightarrow> nat \<Rightarrow> bool \<Rightarrow> byte list \<times> bool" where
  "fix_user_key hdr user_key key_len want_greater =
     (let attr_length = attr_lengths hdr ! 0 in
      if key_len \<le> attr_length then (take key_len user_key @ replicate (attr_length - key_len) 0, False)
      else
        let key_buf = take attr_length user_key; c = user_key ! attr_length in
        if c = 0 then (key_buf, False)
        else (if want_greater then key_buf[attr_length - 1 := key_buf ! (attr_length - 1) + 1] else key_buf, True))"

fun node_items :: "'k IndexNode \<Rightarrow> ('k \<times> RID) list" where
  "node_items (LeafIndexNode _ _ items) = items"
| "node_items (InternalIndexNode _ _) = []"

definition touch_end :: "'k comparator \<Rightarrow> 'k IndexNode \<Rightarrow> 'k BplusTreeScanner \<Rightarrow> bool" where
  "touch_end cmp node sc =
     (case sc_right_key sc of None \<Rightarrow> False | Some right_key \<Rightarrow> cmp (fst (node_items node ! sc_iter_index sc)) right_key > 0)"

text \<open>The end of \<open>open\<close>, once the right bound is known.\<close>

definition open_end :: "'k comparator \<Rightarrow> 'k IndexNode \<Rightarrow> PageNum \<Rightarrow> 'k BplusTreeScanner \<Rightarrow> RC \<times> 'k BplusTreeScanner" where
  "open_end cmp node p sc = (SUCCESS, sc\<lparr>sc_frame := if touch_end cmp node sc then None else Some p\<rparr>)"

text \<open>\<open>open\<close> with the keys already made; \<open>None\<close> is a missing bound.\<close>

definition open_keys :: "'k comparator \<Rightarrow> 'k BplusTree \<Rightarrow> 'k option \<Rightarrow> 'k option \<Rightarrow> 'k BplusTreeScanner \<Rightarrow> (RC \<times> 'k BplusTreeScanner) option" where
  "open_keys cmp t left_key right_key sc =
     (case left_key of
        None \<Rightarrow>
          (case left_most_page t of
             None \<Rightarrow> None
           | Some (Inl rc) \<Rightarrow> Some (rc, sc)
           | Some (Inr p) \<Rightarrow>
               Some (open_end cmp (the (bt_pages t p)) p (sc\<lparr>sc_iter_index := 0, sc_right_key := right_key\<rparr>)))
      | Some left_key \<Rightarrow>
          (case find_leaf cmp t left_key of
             None \<Rightarrow> None
           | Some (Inl rc) \<Rightarrow> Some (if rc = EMPTY then SUCCESS else rc, sc\<lparr>sc_frame := None\<rparr>)
           | Some (Inr p) \<Rightarrow>
               let left_node = the (bt_pages t p); (left_index, _) = leaf_lookup cmp left_key (node_items left_node) in
               if left_index \<ge> node_size left_node
               then
                 (case next_brother left_node of
                    None \<Rightarrow> Some (SUCCESS, sc\<lparr>sc_frame := None\<rparr>)
                  | Some q \<Rightarrow>
                      (case get_node t q of
                         Inl rc \<Rightarrow> Some (rc, sc)
                       | Inr node \<Rightarrow> Some (open_end cmp node q (sc\<lparr>sc_iter_index := 0, sc_right_key := right_key\<rparr>))))
               else Some (open_end cmp left_node p (sc\<lparr>sc_iter_index := left_index, sc_right_key := right_key\<rparr>))))"

text \<open>The bounds of a scan: the user key, its length and whether it is inclusive.\<close>

type_synonym bound = "byte list \<times> nat \<times> bool"

definition bound_key :: "IndexFileHeader \<Rightarrow> bool \<Rightarrow> bound \<Rightarrow> key" where
  "bound_key hdr is_left b =
     (case b of (user_key, key_len, inclusive) \<Rightarrow>
        let (fixed_key, should_inclusive) = (if attr_types hdr ! 0 = CHARS then fix_user_key hdr user_key key_len is_left else (user_key, False));
            inclusive = (should_inclusive \<or> inclusive)
        in make_key hdr fixed_key (if is_left = inclusive then RID_min else RID_max))"

definition scanner_open ::
  "float_sub \<Rightarrow> key BplusTree \<Rightarrow> bound option \<Rightarrow> bound option \<Rightarrow> key BplusTreeScanner \<Rightarrow> (RC \<times> key BplusTreeScanner) option" where
  "scanner_open fsub t left right sc =
     (let hdr = bt_header t; attrs = index_attr_list hdr in
      if sc_inited sc then Some (INTERNAL, sc)
      else
        let sc = sc\<lparr>sc_inited := True, sc_first_emitted := False\<rparr>;
            invalid = (case (left, right) of
                (Some (lk, _, li), Some (rk, _, ri)) \<Rightarrow>
                  let result = attr_compare fsub attrs lk rk in result > 0 \<or> result = 0 \<and> (\<not> li \<or> \<not> ri)
              | _ \<Rightarrow> False)
        in if invalid then Some (INVALID_ARGUMENT, sc)
           else open_keys (key_compare fsub attrs) t (map_option (bound_key hdr True) left) (map_option (bound_key hdr False) right) sc)"

text \<open>\<open>next_entry\<close> from position \<open>i\<close> of leaf \<open>p\<close> on, following the links.\<close>

partial_function (option) next_from ::
  "'k comparator \<Rightarrow> 'k BplusTree \<Rightarrow> 'k BplusTreeScanner \<Rightarrow> PageNum \<Rightarrow> nat \<Rightarrow> ((RC + RID) \<times> 'k BplusTreeScanner) option" where
  "next_from cmp t sc p i =
     (case get_node t p of
        Inl rc \<Rightarrow> Some (Inl rc, sc)
      | Inr node \<Rightarrow>
          let sc = sc\<lparr>sc_frame := Some p, sc_iter_index := i\<rparr> in
          if i < node_size node
          then if touch_end cmp node sc then Some (Inl RECORD_EOF, sc) else Some (Inr (snd (node_items node ! i)), sc)
          else
            (case next_brother node of
               None \<Rightarrow> Some (Inl RECORD_EOF, sc)
             | Some q \<Rightarrow> next_from cmp t sc q 0))"

definition next_entry_increase ::
  "'k comparator \<Rightarrow> 'k BplusTree \<Rightarrow> bool \<Rightarrow> 'k BplusTreeScanner \<Rightarrow> ((RC + RID) \<times> 'k BplusTreeScanner) option" where
  "next_entry_increase cmp t idx_need_increase sc =
     (case sc_frame sc of
        None \<Rightarrow> Some (Inl RECORD_EOF, sc)
      | Some p \<Rightarrow>
          if \<not> sc_first_emitted sc
          then Some (Inr (snd (node_items (the (bt_pages t p)) ! sc_iter_index sc)), sc\<lparr>sc_first_emitted := True\<rparr>)
          else next_from cmp t sc p (if idx_need_increase then Suc (sc_iter_index sc) else sc_iter_index sc))"

definition next_entry :: "'k comparator \<Rightarrow> 'k BplusTree \<Rightarrow> 'k BplusTreeScanner \<Rightarrow> ((RC + RID) \<times> 'k BplusTreeScanner) option" where
  "next_entry cmp t sc = next_entry_increase cmp t True sc"

definition scanner_close :: "'k BplusTreeScanner \<Rightarrow> 'k BplusTreeScanner" where
  "scanner_close sc = sc\<lparr>sc_inited := False\<rparr>"

text \<open>The loop of \<open>get_entry\<close>: the entries up to the first result that is not \<open>SUCCESS\<close>.\<close>

partial_function (option) collect ::
  "'k comparator \<Rightarrow> 'k BplusTree \<Rightarrow> 'k BplusTreeScanner \<Rightarrow> RID list \<Rightarrow> (RC \<times> RID list) option" where
  "collect cmp t sc rids =
     (case next_entry cmp t sc of
        None \<Rightarrow> None
      | Some (Inl rc, sc) \<Rightarrow> Some (rc, rids)
      | Some (Inr rid, sc) \<Rightarrow> collect cmp t sc (rids @ [rid]))"

definition get_entry :: "float_sub \<Rightarrow> key BplusTree \<Rightarrow> byte list \<Rightarrow> nat \<Rightarrow> (RC \<times> RID list) option" where
  "get_entry fsub t user_key key_len =
     (case scanner_open fsub t (Some (user_key, key_len, True)) (Some (user_key, key_len, True)) scanner_new of
        None \<Rightarrow> None
      | Some (rc, sc) \<Rightarrow>
          if rc \<noteq> SUCCESS then Some (rc, [])
          else
            (case collect (key_compare fsub (index_attr_list (bt_header t))) t sc [] of
               None \<Rightarrow> None
             | Some (rc, rids) \<Rightarrow> Some (if rc \<noteq> RECORD_EOF then rc else SUCCESS, rids)))"


section \<open>The chain of the leaves\<close>

inductive chain :: "'k nodes \<Rightarrow> PageNum \<Rightarrow> ('k \<times> RID) list \<Rightarrow> bool" for N where
  chain_end: "N p = Some (LeafIndexNode par None items) \<Longrightarrow> chain N p items"
| chain_next: "N p = Some (LeafIndexNode par (Some q) items) \<Longrightarrow> chain N q rest \<Longrightarrow> chain N p (items @ rest)"

lemma chain_leaf:
  assumes "chain N p its"
  obtains par nxt items rest where "N p = Some (LeafIndexNode par nxt items)" "its = items @ rest"
    "case nxt of None \<Rightarrow> rest = [] | Some q \<Rightarrow> chain N q rest"
  using assms by cases auto

lemma chain_leafD:
  assumes "chain N p its" "N p = Some (LeafIndexNode par nxt items)"
  shows "\<exists>rest. its = items @ rest \<and> (case nxt of None \<Rightarrow> rest = [] | Some q \<Rightarrow> chain N q rest)"
  using assms(1) by cases (use assms(2) in auto)

lemma shape_link_leaf:
  assumes "tree_shape rank N g pend r" "N p = Some (LeafIndexNode par nxt items)"
  shows "link_ok (dom (leaf_of N)) g p nxt"
  using shapeD(3) [OF assms(1)] views_at(1) [of N p, OF assms(2)] unfolding chain_ok_def by blast

text \<open>The part of the entries from the start of a leaf's range on.\<close>

definition entries_from :: "('k \<Rightarrow> 'o::linorder) \<Rightarrow> 'k nodes \<Rightarrow> 'o option \<Rightarrow> ('k \<times> RID) set" where
  "entries_from rank N lo = {e \<in> entries N. above lo (rank (fst e))}"

lemma chain_exists:
  assumes shape: "tree_shape rank N g None r" and fin: "finite (dom N)"
  shows "N p = Some (LeafIndexNode par nxt items) \<Longrightarrow>
    \<exists>its. chain N p its \<and> sorted_wrt (<) (map (\<lambda>x. rank (fst x)) its) \<and> set its = entries_from rank N (g_lo g p)"
proof (induction "card {q \<in> dom N. \<exists>l l'. g_lo g p = l \<and> g_lo g q = Some l' \<and> strictly_above l l'}" arbitrary: p par nxt items rule: less_induct)
  case (less p par nxt items)
  note leaf = shape_leaf [OF shape less.prems]
  have here: "{e \<in> entries N. in_range g p (rank (fst e))} = set items"
    using entry_in_leaf [OF shape less.prems] leaf(4) entries_leaf [of N p, OF less.prems] by blast
  have link: "link_ok (dom (leaf_of N)) g p nxt" by (rule shape_link_leaf [OF shape less.prems])
  show ?case
  proof (cases nxt)
    case None
    then have "entries_from rank N (g_lo g p) = set items" using link here by (simp add: entries_from_def link_ok_def in_range_def)
    then show ?thesis using chain_end [of N p par items] less.prems None leaf(3) by blast
  next
    case (Some q)
    then obtain h nxt' items' where q: "g_hi g p = Some h" "g_lo g q = Some h" "leaf_of N q = Some (nxt', items')" using link by (auto simp: link_ok_def)
    obtain par' where q': "N q = Some (LeafIndexNode par' nxt' items')" using q(3) by (rule leaf_of_SomeE)
    obtain x where "x \<in> set items" using leaf(2) by (cases items) auto
    then have lh: "strictly_above (g_lo g p) h" using leaf(4) [of x] q(1) by (auto simp: in_range_def above_def strictly_above_def split: option.splits)
    let ?S = "\<lambda>p. {q \<in> dom N. \<exists>l l'. g_lo g p = l \<and> g_lo g q = Some l' \<and> strictly_above l l'}"
    have "?S q \<subseteq> ?S p" using lh q(2) by (auto intro: range_trans(2) less_imp_le)
    moreover have "q \<in> ?S p" "q \<notin> ?S q" using q(2) q' lh by auto
    ultimately have "?S q \<subset> ?S p" by blast
    then have "card (?S q) < card (?S p)" using fin by (intro psubset_card_mono) auto
    from less.hyps [OF this q'] obtain its where its: "chain N q its" "sorted_wrt (<) (map (\<lambda>x. rank (fst x)) its)" "set its = entries_from rank N (Some h)"
      using q(2) by auto
    have sorted: "sorted_wrt (<) (map (\<lambda>x. rank (fst x)) (items @ its))"
      using leaf(3,4) its(2,3) q(1) by (auto simp: sorted_wrt_append entries_from_def in_range_def intro: less_le_trans)
    have "entries_from rank N (g_lo g p) = {e \<in> entries N. in_range g p (rank (fst e))} \<union> entries_from rank N (Some h)"
      using lh q(1) by (auto simp: entries_from_def in_range_def intro: range_trans(1,3))
    then have "set (items @ its) = entries_from rank N (g_lo g p)" using here its(3) by simp
    then show ?thesis using chain_next [of N p par q items its] less.prems Some its(1) sorted by blast
  qed
qed


section \<open>What a scan gives\<close>

definition inside :: "('k \<Rightarrow> 'o::linorder) \<Rightarrow> 'k option \<Rightarrow> 'k \<times> RID \<Rightarrow> bool" where
  "inside rank right e \<longleftrightarrow> (case right of None \<Rightarrow> True | Some k \<Rightarrow> rank (fst e) \<le> rank k)"

definition from_left :: "('k \<Rightarrow> 'o::linorder) \<Rightarrow> 'k option \<Rightarrow> 'k \<times> RID \<Rightarrow> bool" where
  "from_left rank left e \<longleftrightarrow> (case left of None \<Rightarrow> True | Some k \<Rightarrow> rank k \<le> rank (fst e))"

text \<open>The entries between two bounds, in ascending order.\<close>

definition scanned :: "('k \<Rightarrow> 'o::linorder) \<Rightarrow> 'k BplusTree \<Rightarrow> 'k option \<Rightarrow> 'k option \<Rightarrow> ('k \<times> RID) list \<Rightarrow> bool" where
  "scanned rank t left right es \<longleftrightarrow> sorted_wrt (<) (map (\<lambda>x. rank (fst x)) es) \<and>
     set es = {e \<in> entries (bt_pages t). from_left rank left e \<and> inside rank right e}"

text \<open>Position \<open>j\<close> of a leaf, with the entries from there on.\<close>

definition position :: "'k nodes \<Rightarrow> PageNum \<Rightarrow> nat \<Rightarrow> ('k \<times> RID) list \<Rightarrow> bool" where
  "position N p j es \<longleftrightarrow> (\<exists>its par nxt items. chain N p its \<and> N p = Some (LeafIndexNode par nxt items) \<and> j < length items \<and> drop j its = es)"

definition leaves_full :: "'k nodes \<Rightarrow> bool" where
  "leaves_full N \<longleftrightarrow> (\<forall>p par nxt items. N p = Some (LeafIndexNode par nxt items) \<longrightarrow> items \<noteq> [])"

lemma shape_leaves_full: "tree_shape rank N g pend r \<Longrightarrow> leaves_full N"
  using shape_leaf(2) unfolding leaves_full_def by blast

lemma position_node:
  assumes "position N p j es"
  obtains par nxt items e es' where "N p = Some (LeafIndexNode par nxt items)" "j < length items" "items ! j = e" "es = e # es'"
proof -
  obtain its par nxt items where c: "chain N p its" "N p = Some (LeafIndexNode par nxt items)" "j < length items" "drop j its = es"
    using assms by (auto simp: position_def)
  obtain rest where "its = items @ rest" using chain_leafD [OF c(1,2)] by blast
  then have "es = items ! j # drop (Suc j) its" using c(3,4) by (auto simp: Cons_nth_drop_Suc [symmetric] nth_append)
  then show thesis using that c(2,3) by blast
qed

text \<open>From the position behind an entry the scanner goes on, in the next leaf if need be.\<close>

lemma position_next:
  assumes "position N p j (e # es)" "leaves_full N"
  obtains par nxt items where "N p = Some (LeafIndexNode par nxt items)" "Suc j < length items" "position N p (Suc j) es"
  | par items where "N p = Some (LeafIndexNode par None items)" "Suc j = length items" "es = []"
  | par q items where "N p = Some (LeafIndexNode par (Some q) items)" "Suc j = length items" "position N q 0 es"
proof -
  obtain its par nxt items where c: "chain N p its" "N p = Some (LeafIndexNode par nxt items)" "j < length items" "drop j its = e # es"
    using assms(1) by (auto simp: position_def)
  have es: "drop (Suc j) its = es" using c(4) by (metis drop_Suc list.sel(3) tl_drop)
  obtain rest where rest: "its = items @ rest" "case nxt of None \<Rightarrow> rest = [] | Some q \<Rightarrow> chain N q rest"
    using chain_leafD [OF c(1,2)] by blast
  show thesis
  proof (cases "Suc j < length items")
    case True
    then show ?thesis using that(1) c(1,2) es by (auto simp: position_def)
  next
    case False
    then have len: "Suc j = length items" "es = rest" using c(3) rest(1) es by auto
    show ?thesis
    proof (cases nxt)
      case None
      then show ?thesis using that(2) c(2) len rest(2) by simp
    next
      case (Some q)
      then have q: "chain N q rest" using rest(2) by simp
      then obtain par' nxt' items' where "N q = Some (LeafIndexNode par' nxt' items')" by (auto elim: chain_leaf)
      then have "position N q 0 rest" using q assms(2) by (auto simp: position_def leaves_full_def)
      then show ?thesis using that(3) c(2) len Some by simp
    qed
  qed
qed

context key_order
begin

lemma next_at:
  assumes "position (bt_pages t) p j (e # es)"
  shows "next_from cmp t sc p j =
    Some (if inside rank (sc_right_key sc) e then Inr (snd e) else Inl RECORD_EOF, sc\<lparr>sc_frame := Some p, sc_iter_index := j\<rparr>)"
proof -
  obtain par nxt items where p: "bt_pages t p = Some (LeafIndexNode par nxt items)" "j < length items" "items ! j = e"
    by (rule position_node [OF assms]) simp
  then show ?thesis
    by (subst next_from.simps) (auto simp: Let_def touch_end_def inside_def cmp_simps not_less split: option.splits)
qed

lemma next_behind:
  assumes "position (bt_pages t) p j (e # es)" "leaves_full (bt_pages t)"
  shows "es = [] \<Longrightarrow> \<exists>sc'. next_from cmp t sc p (Suc j) = Some (Inl RECORD_EOF, sc')"
    "es = e' # es' \<Longrightarrow> \<exists>p' j'. position (bt_pages t) p' j' es \<and> next_from cmp t sc p (Suc j) =
      Some (if inside rank (sc_right_key sc) e' then Inr (snd e') else Inl RECORD_EOF, sc\<lparr>sc_frame := Some p', sc_iter_index := j'\<rparr>)"
proof -
  have "(es = [] \<longrightarrow> (\<exists>sc'. next_from cmp t sc p (Suc j) = Some (Inl RECORD_EOF, sc'))) \<and>
    (es = e' # es' \<longrightarrow> (\<exists>p' j'. position (bt_pages t) p' j' es \<and> next_from cmp t sc p (Suc j) =
      Some (if inside rank (sc_right_key sc) e' then Inr (snd e') else Inl RECORD_EOF, sc\<lparr>sc_frame := Some p', sc_iter_index := j'\<rparr>)))"
  proof (rule position_next [OF assms])
    fix par nxt items assume p: "bt_pages t p = Some (LeafIndexNode par nxt items)" "Suc j < length items" "position (bt_pages t) p (Suc j) es"
    have "es \<noteq> []" by (rule position_node [OF p(3)]) simp
    then show ?thesis using next_at [of t p "Suc j" e' es' sc] p(3) by blast
  next
    fix par items assume p: "bt_pages t p = Some (LeafIndexNode par None items)" "Suc j = length items" "es = []"
    then show ?thesis by (subst next_from.simps) (simp add: Let_def)
  next
    fix par q items assume p: "bt_pages t p = Some (LeafIndexNode par (Some q) items)" "Suc j = length items" "position (bt_pages t) q 0 es"
    have "es \<noteq> []" by (rule position_node [OF p(3)]) simp
    moreover have "next_from cmp t sc p (Suc j) = next_from cmp t (sc\<lparr>sc_frame := Some p, sc_iter_index := Suc j\<rparr>) q 0"
      using p(1,2) by (subst next_from.simps) (simp add: Let_def)
    ultimately show ?thesis using next_at [of t q 0 e' es' "sc\<lparr>sc_frame := Some p, sc_iter_index := Suc j\<rparr>"] p(3)
      by (intro conjI impI exI [of _ q] exI [of _ 0]) simp_all
  qed
  then show "es = [] \<Longrightarrow> \<exists>sc'. next_from cmp t sc p (Suc j) = Some (Inl RECORD_EOF, sc')"
    "es = e' # es' \<Longrightarrow> \<exists>p' j'. position (bt_pages t) p' j' es \<and> next_from cmp t sc p (Suc j) =
      Some (if inside rank (sc_right_key sc) e' then Inr (snd e') else Inl RECORD_EOF, sc\<lparr>sc_frame := Some p', sc_iter_index := j'\<rparr>)"
    by blast+
qed

lemma collect_ok:
  assumes "leaves_full (bt_pages t)"
  shows "position (bt_pages t) p j (e # es) \<Longrightarrow> sc_frame sc = Some p \<Longrightarrow> sc_iter_index sc = j \<Longrightarrow> sc_first_emitted sc \<Longrightarrow>
    collect cmp t sc rids = Some (RECORD_EOF, rids @ map snd (takeWhile (inside rank (sc_right_key sc)) es))"
proof (induction es arbitrary: p j e sc rids)
  case Nil
  obtain sc' where "next_from cmp t sc p (Suc j) = Some (Inl RECORD_EOF, sc')" using next_behind(1) [OF Nil(1) assms, of sc] by blast
  then show ?case using Nil by (subst collect.simps) (simp add: next_entry_def next_entry_increase_def)
next
  case (Cons e' es)
  obtain p' j' where n: "position (bt_pages t) p' j' (e' # es)" "next_from cmp t sc p (Suc j) =
      Some (if inside rank (sc_right_key sc) e' then Inr (snd e') else Inl RECORD_EOF, sc\<lparr>sc_frame := Some p', sc_iter_index := j'\<rparr>)"
    using next_behind(2) [OF Cons.prems(1) assms refl, of sc] by blast
  have "collect cmp t sc rids = (if inside rank (sc_right_key sc) e' then collect cmp t (sc\<lparr>sc_frame := Some p', sc_iter_index := j'\<rparr>) (rids @ [snd e']) else Some (RECORD_EOF, rids))"
    using Cons.prems n(2) by (subst collect.simps) (simp add: next_entry_def next_entry_increase_def)
  moreover have "collect cmp t (sc\<lparr>sc_frame := Some p', sc_iter_index := j'\<rparr>) (rids @ [snd e']) =
      Some (RECORD_EOF, (rids @ [snd e']) @ map snd (takeWhile (inside rank (sc_right_key sc)) es))"
    using Cons.IH [OF n(1), of "sc\<lparr>sc_frame := Some p', sc_iter_index := j'\<rparr>" "rids @ [snd e']"] Cons.prems by simp
  ultimately show ?case by simp
qed

lemma collect_open:
  assumes "leaves_full (bt_pages t)" "position (bt_pages t) p j es" "sc_iter_index sc = j" "\<not> sc_first_emitted sc"
  shows "collect cmp t (snd (open_end cmp (the (bt_pages t p)) p sc)) rids = Some (RECORD_EOF, rids @ map snd (takeWhile (inside rank (sc_right_key sc)) es))"
proof -
  obtain par nxt items e es' where p: "bt_pages t p = Some (LeafIndexNode par nxt items)" "j < length items" "items ! j = e" "es = e # es'"
    by (rule position_node [OF assms(2)])
  have touch: "touch_end cmp (the (bt_pages t p)) sc \<longleftrightarrow> \<not> inside rank (sc_right_key sc) e"
    using p assms(3) by (auto simp: touch_end_def inside_def cmp_simps not_less split: option.splits)
  show ?thesis
  proof (cases "inside rank (sc_right_key sc) e")
    case True
    let ?sc = "sc\<lparr>sc_frame := Some p, sc_first_emitted := True\<rparr>"
    have "collect cmp t (snd (open_end cmp (the (bt_pages t p)) p sc)) rids = collect cmp t ?sc (rids @ [snd e])"
      using touch True assms(3,4) p by (subst collect.simps) (simp add: open_end_def next_entry_def next_entry_increase_def)
    also have "\<dots> = Some (RECORD_EOF, (rids @ [snd e]) @ map snd (takeWhile (inside rank (sc_right_key sc)) es'))"
      using collect_ok [OF assms(1), of p j e es' ?sc "rids @ [snd e]"] assms(2,3) p(4) by simp
    finally show ?thesis using p(4) True by simp
  next
    case False
    then show ?thesis using touch p(4) by (subst collect.simps) (simp add: open_end_def next_entry_def next_entry_increase_def)
  qed
qed

lemma takeWhile_inside:
  assumes "sorted_wrt (<) (map (\<lambda>x. rank (fst x)) es)"
  shows "set (takeWhile (inside rank right) es) = {e \<in> set es. inside rank right e}"
    "sorted_wrt (<) (map (\<lambda>x. rank (fst x)) (takeWhile (inside rank right) es))"
proof -
  show "set (takeWhile (inside rank right) es) = {e \<in> set es. inside rank right e}"
    using assms
  proof (induction es)
    case (Cons e es)
    have "\<not> inside rank right x" if "\<not> inside rank right e" "x \<in> set es" for x
      using Cons.prems that by (auto simp: inside_def split: option.splits)
    then show ?case using Cons by auto
  qed simp
  have "\<exists>zs. es = takeWhile (inside rank right) es @ zs" using takeWhile_dropWhile_id by metis
  then show "sorted_wrt (<) (map (\<lambda>x. rank (fst x)) (takeWhile (inside rank right) es))"
    using assms by (metis map_append sorted_wrt_append)
qed

text \<open>The entries from a key on, in the leaf whose range contains it.\<close>

lemma chain_from_key:
  assumes shape: "tree_shape rank N g None r" and p: "N p = Some (LeafIndexNode par nxt items)" "in_range g p v"
    and its: "chain N p its" "sorted_wrt (<) (map (\<lambda>x. rank (fst x)) its)" "set its = entries_from rank N (g_lo g p)"
  shows "set (drop (insert_pos rank v items) its) = {e \<in> entries N. v \<le> rank (fst e)}"
proof -
  let ?i = "insert_pos rank v items"
  obtain rest where rest: "its = items @ rest" using chain_leafD [OF its(1) p(1)] by blast
  have i: "?i \<le> length items" by (rule insert_pos_le)
  have low: "rank (fst e) < v" if "e \<in> set (take ?i items)" for e
    using that by (auto simp: insert_pos_def takeWhile_eq_take [symmetric] dest: set_takeWhileD)
  have high: "v \<le> rank (fst e)" if "e \<in> set (drop ?i items)" for e
  proof -
    have d: "drop ?i items = dropWhile (\<lambda>x. rank (fst x) < v) items" by (simp add: insert_pos_def dropWhile_eq_drop)
    have sorted: "sorted_wrt (<) (map (\<lambda>x. rank (fst x)) (drop ?i items))"
      using shape_leaf(3) [OF shape p(1)] by (simp add: drop_map [symmetric] sorted_wrt_drop)
    have "\<not> rank (fst (hd (drop ?i items))) < v" using that hd_dropWhile [of "\<lambda>x. rank (fst x) < v" items] unfolding d by (cases "dropWhile (\<lambda>x. rank (fst x) < v) items = []") simp_all
    then show ?thesis using that sorted by (cases "drop ?i items") auto
  qed
  have behind: "v \<le> rank (fst e)" if "e \<in> set rest" for e
  proof -
    have e: "e \<in> entries N" "above (g_lo g p) (rank (fst e))" using that its(3) rest by (auto simp: entries_from_def)
    have "e \<notin> set items" using its(2) that unfolding rest by (auto simp: sorted_wrt_append)
    then have "\<not> below (g_hi g p) (rank (fst e))" using entry_in_leaf [OF shape p(1) _ e(1)] e(2) by (auto simp: in_range_def)
    then show ?thesis using p(2) by (auto simp: in_range_def below_def split: option.splits)
  qed
  have drop: "drop ?i its = drop ?i items @ rest" using i rest by simp
  have "take ?i items @ drop ?i its = its" using i by (simp add: rest)
  then have split: "set its = set (take ?i items) \<union> set (drop ?i its)" by (metis set_append)
  have all: "{e \<in> entries N. v \<le> rank (fst e)} = {e \<in> set its. v \<le> rank (fst e)}"
    unfolding its(3) using p(2) by (auto simp: entries_from_def in_range_def intro: range_trans(3))
  have up: "v \<le> rank (fst e)" if "e \<in> set (drop ?i its)" for e using that high [of e] behind [of e] unfolding drop by auto
  show ?thesis unfolding all split using low up by (fastforce simp: not_le)
qed

lemma scan_position:
  assumes "tree_shape rank (bt_pages t) g None r" "position (bt_pages t) p j es" "sc_iter_index sc = j" "\<not> sc_first_emitted sc" "sc_right_key sc = right"
    and "sorted_wrt (<) (map (\<lambda>x. rank (fst x)) es)" "set es = {e \<in> entries (bt_pages t). from_left rank left e}"
  shows "\<exists>es. collect cmp t (snd (open_end cmp (the (bt_pages t p)) p sc)) rids = Some (RECORD_EOF, rids @ map snd es) \<and> scanned rank t left right es"
  using collect_open [OF shape_leaves_full [OF assms(1)] assms(2-4), of rids] takeWhile_inside [OF assms(6), of right] assms(5,7)
  by (intro exI [of _ "takeWhile (inside rank right) es"]) (auto simp: scanned_def)

lemma open_left_ok:
  assumes shape: "tree_shape rank (bt_pages t) g None r" and root: "root_page (bt_header t) = Some r" and fin: "finite (dom (bt_pages t))"
    and sc: "\<not> sc_first_emitted sc"
  shows "\<exists>sc' es. open_keys cmp t (Some k) right sc = Some (SUCCESS, sc') \<and> collect cmp t sc' rids = Some (RECORD_EOF, rids @ map snd es) \<and> scanned rank t (Some k) right es"
proof -
  let ?N = "bt_pages t"
  obtain p par nxt items where p: "find_leaf cmp t k = Some (Inr p)" "?N p = Some (LeafIndexNode par nxt items)" "in_range g p (rank k)"
    by (rule find_leaf_ok [OF shape root])
  obtain its where its: "chain ?N p its" "sorted_wrt (<) (map (\<lambda>x. rank (fst x)) its)" "set its = entries_from rank ?N (g_lo g p)"
    using chain_exists [OF shape fin p(2)] by blast
  let ?i = "insert_pos rank (rank k) items"
  have look: "leaf_lookup cmp k items = (?i, \<exists>x \<in> set items. rank (fst x) = rank k)" by (rule leaf_lookup_ok [OF shape_leaf(3) [OF shape p(2)]])
  have set: "set (drop ?i its) = {e \<in> entries ?N. from_left rank (Some k) e}"
    using chain_from_key [OF shape p(2,3) its] by (simp add: from_left_def)
  have sorted: "sorted_wrt (<) (map (\<lambda>x. rank (fst x)) (drop ?i its))" using its(2) by (simp add: drop_map [symmetric] sorted_wrt_drop)
  obtain rest where rest: "its = items @ rest" "case nxt of None \<Rightarrow> rest = [] | Some q \<Rightarrow> chain ?N q rest"
    using chain_leafD [OF its(1) p(2)] by blast
  show ?thesis
  proof (cases "?i < length items")
    case True
    let ?sc = "sc\<lparr>sc_iter_index := ?i, sc_right_key := right\<rparr>"
    have "open_keys cmp t (Some k) right sc = Some (SUCCESS, snd (open_end cmp (the (?N p)) p ?sc))"
      using p(1,2) True look by (simp add: open_keys_def open_end_def)
    moreover have "position ?N p ?i (drop ?i its)" using its(1) p(2) True by (auto simp: position_def)
    ultimately show ?thesis using scan_position [OF shape _ _ _ _ sorted set, of p ?i ?sc right rids] sc by auto
  next
    case False
    then have i: "?i = length items" using insert_pos_le [of rank "rank k" items] by simp
    show ?thesis
    proof (cases nxt)
      case None
      then have "open_keys cmp t (Some k) right sc = Some (SUCCESS, sc\<lparr>sc_frame := None\<rparr>)"
        using p(1,2) False look by (simp add: open_keys_def)
      moreover have "collect cmp t (sc\<lparr>sc_frame := None\<rparr>) rids = Some (RECORD_EOF, rids)"
        by (subst collect.simps) (simp add: next_entry_def next_entry_increase_def)
      moreover have "scanned rank t (Some k) right []" using set i rest None by (auto simp: scanned_def)
      ultimately show ?thesis by auto
    next
      case (Some q)
      then have q: "chain ?N q rest" using rest(2) by simp
      then obtain par' nxt' items' where q': "?N q = Some (LeafIndexNode par' nxt' items')" by (auto elim: chain_leaf)
      let ?sc = "sc\<lparr>sc_iter_index := 0, sc_right_key := right\<rparr>"
      have "open_keys cmp t (Some k) right sc = Some (SUCCESS, snd (open_end cmp (the (?N q)) q ?sc))"
        using p(1,2) False look Some q' by (simp add: open_keys_def open_end_def)
      moreover have "position ?N q 0 (drop ?i its)" using q q' rest(1) i shape_leaf(2) [OF shape q'] by (auto simp: position_def)
      ultimately show ?thesis using scan_position [OF shape _ _ _ _ sorted set, of q 0 ?sc right rids] sc by auto
    qed
  qed
qed

lemma open_all_ok:
  assumes shape: "tree_shape rank (bt_pages t) g None r" and root: "root_page (bt_header t) = Some r" and fin: "finite (dom (bt_pages t))"
    and sc: "\<not> sc_first_emitted sc"
  shows "\<exists>sc' es. open_keys cmp t None right sc = Some (SUCCESS, sc') \<and> collect cmp t sc' rids = Some (RECORD_EOF, rids @ map snd es) \<and> scanned rank t None right es"
proof -
  let ?N = "bt_pages t"
  have step: "snd (items ! 0) \<in> snd ` set items \<and> g_lo g (snd (items ! 0)) = None"
    if "?N p = Some (InternalIndexNode par items)" "g_lo g p = None" for p par items
  proof -
    note kids = shape_kids [OF shape that(1)]
    obtain k c ys where items: "items = (k, c) # ys" using kids_nonempty [OF kids] by (cases items) auto
    have "child_ok (parent_of ?N) g None p (left_bound rank (g_lo g p) [] k) (right_bound rank (g_hi g p) ys) c"
      by (rule kids_at) (use kids items in simp)
    then show ?thesis using that(2) items by (simp add: child_ok_def left_bound_def)
  qed
  have "?N r \<noteq> None" "g_lo g r = None" using shapeD(1) [OF shape] by (auto simp: root_ok_def parent_of_def)
  then have "\<exists>q par nxt items. find_leaf_loop t (\<lambda>items. snd (items ! 0)) r = Some (Inr q) \<and> ?N q = Some (LeafIndexNode par nxt items) \<and> g_lo g q = None"
    by (intro find_leaf_loop_ok [OF shape, where Q = "\<lambda>p. g_lo g p = None"] step)
  then obtain p par nxt items where p: "left_most_page t = Some (Inr p)" "?N p = Some (LeafIndexNode par nxt items)" "g_lo g p = None"
    using root by (auto simp: left_most_page_def find_leaf_internal_def)
  obtain its where its: "chain ?N p its" "sorted_wrt (<) (map (\<lambda>x. rank (fst x)) its)" "set its = entries_from rank ?N (g_lo g p)"
    using chain_exists [OF shape fin p(2)] by blast
  let ?sc = "sc\<lparr>sc_iter_index := 0, sc_right_key := right\<rparr>"
  have "open_keys cmp t None right sc = Some (SUCCESS, snd (open_end cmp (the (?N p)) p ?sc))"
    using p(1) by (simp add: open_keys_def open_end_def)
  moreover have "position ?N p 0 its" using its(1) p(2) shape_leaf(2) [OF shape p(2)] by (auto simp: position_def)
  moreover have "set its = {e \<in> entries ?N. from_left rank None e}" using its(3) p(3) by (simp add: entries_from_def from_left_def)
  ultimately show ?thesis using scan_position [OF shape _ _ _ _ its(2), of p 0 ?sc right None rids] sc by auto
qed

lemma pages_finite: "pages_ok t \<Longrightarrow> finite (dom (bt_pages t))"
  unfolding pages_ok_def by (rule finite_subset [OF _ finite_atLeastLessThan])

lemma open_keys_ok:
  assumes ok: "tree_ok rank t" and sc: "\<not> sc_first_emitted sc" and left: "left = None \<Longrightarrow> root_page (bt_header t) \<noteq> None"
  shows "\<exists>sc' es. open_keys cmp t left right sc = Some (SUCCESS, sc') \<and> collect cmp t sc' rids = Some (RECORD_EOF, rids @ map snd es) \<and> scanned rank t left right es"
proof (cases "root_page (bt_header t)")
  case None
  then obtain k where k: "left = Some k" using left by blast
  have "entries (bt_pages t) = {}" using ok None by (simp add: tree_ok_def entries_def items_at_def leaf_of_def)
  then have "scanned rank t left right []" by (simp add: scanned_def)
  moreover have "open_keys cmp t left right sc = Some (SUCCESS, sc\<lparr>sc_frame := None\<rparr>)"
    using None k by (simp add: open_keys_def find_leaf_def find_leaf_internal_def)
  moreover have "collect cmp t (sc\<lparr>sc_frame := None\<rparr>) rids = Some (RECORD_EOF, rids)"
    by (subst collect.simps) (simp add: next_entry_def next_entry_increase_def)
  ultimately show ?thesis by auto
next
  case (Some r)
  obtain g where shape: "tree_shape rank (bt_pages t) g None r" using ok Some by (auto simp: tree_ok_def)
  have fin: "finite (dom (bt_pages t))" using ok pages_finite [of t] by (simp add: tree_ok_def)
  show ?thesis using open_left_ok [OF shape Some fin sc] open_all_ok [OF shape Some fin sc] by (cases left) simp_all
qed

end

end
