(* ===== verification/BplusIndex.thy ===== *)
theory BplusIndex
  imports BplusScan
begin

text \<open>
  The index as its users see it: the properties of \<open>BplusTreeHandler\<close> on the comparators of the index.

  The locale \<open>ordered_index\<close> is the contract a table relies on: a set of entries that inserting extends
  and scanning lists in order. The B+ tree satisfies it for every index without float attributes.
\<close>

section \<open>The contract of an index\<close>

text \<open>Inserting one entry after the other, until one of them is refused.\<close>

fun insert_all :: "('t \<Rightarrow> 'u \<Rightarrow> (RC \<times> 't) option) \<Rightarrow> 't \<Rightarrow> 'u list \<Rightarrow> 't option" where
  "insert_all ins t [] = Some t"
| "insert_all ins t (e # es) = (case ins t e of Some (SUCCESS, t') \<Rightarrow> insert_all ins t' es | _ \<Rightarrow> None)"

locale ordered_index =
  fixes ok :: "'t \<Rightarrow> bool" and content :: "'t \<Rightarrow> 'e set" and entry :: "'u \<Rightarrow> 'e" and ins :: "'t \<Rightarrow> 'u \<Rightarrow> (RC \<times> 't) option"
    and scan :: "'t \<Rightarrow> 'r list option" and ref :: "'e \<Rightarrow> 'r" and before :: "'e \<Rightarrow> 'e \<Rightarrow> bool"
  assumes ins_content: "ok t \<Longrightarrow> ins t u = Some (SUCCESS, t') \<Longrightarrow> ok t' \<and> content t' = insert (entry u) (content t)"
    and scan_content: "ok t \<Longrightarrow> \<exists>es. scan t = Some (map ref es) \<and> set es = content t \<and> sorted_wrt before es"
    and before_irrefl: "\<not> before e e" and before_trans: "before a b \<Longrightarrow> before b c \<Longrightarrow> before a c"
begin

lemma insert_all_content: "ok t \<Longrightarrow> insert_all ins t us = Some t' \<Longrightarrow> ok t' \<and> content t' = content t \<union> entry ` set us"
proof (induction us arbitrary: t)
  case (Cons u us)
  obtain t1 where t1: "ins t u = Some (SUCCESS, t1)" "insert_all ins t1 us = Some t'"
    using Cons.prems(2) by (auto split: option.splits prod.splits RC.splits)
  then show ?case using Cons.IH [of t1] ins_content [OF Cons.prems(1) t1(1)] by auto
qed auto

lemma sorted_unique: "sorted_wrt before xs \<Longrightarrow> sorted_wrt before ys \<Longrightarrow> set xs = set ys \<Longrightarrow> xs = ys"
proof (induction xs arbitrary: ys)
  case (Cons x xs)
  obtain y ys' where ys: "ys = y # ys'" using Cons.prems(3) by (cases ys) auto
  have "x = y" using Cons.prems ys before_irrefl before_trans by (metis list.set_intros(1) set_ConsD sorted_wrt.simps(2))
  moreover have "x \<notin> set xs" "y \<notin> set ys'" using Cons.prems(1,2) ys before_irrefl by auto
  ultimately have "set xs = set ys'" using Cons.prems(3) ys by auto
  then have "xs = ys'" by (rule Cons.IH [rotated 2]) (use Cons.prems ys in simp_all)
  then show ?case using \<open>x = y\<close> ys by simp
qed simp

lemma scan_after_inserts:
  assumes "ok t" "content t = {}" "insert_all ins t us = Some t'" "sorted_wrt before ys" "set ys = entry ` set us"
  shows "scan t' = Some (map ref ys)"
proof -
  have t': "ok t'" "content t' = entry ` set us" using insert_all_content [OF assms(1,3)] assms(2) by simp_all
  obtain zs where zs: "scan t' = Some (map ref zs)" "set zs = content t'" "sorted_wrt before zs" using scan_content [OF t'(1)] by blast
  then show ?thesis using sorted_unique [OF zs(3) assms(4)] t'(2) assms(5) by simp
qed

end


section \<open>The B+ tree\<close>

text \<open>All entries of an index, read by a scan without bounds.\<close>

definition index_scan :: "float_sub \<Rightarrow> key BplusTree \<Rightarrow> RID list option" where
  "index_scan fsub t =
     (case scanner_open fsub t None None scanner_new of
        Some (rc, sc) \<Rightarrow>
          if rc = EMPTY then Some []
          else if rc = SUCCESS then map_option snd (collect (key_compare fsub (index_attr_list (bt_header t))) t sc []) else None
      | None \<Rightarrow> None)"

lemma index_order:
  assumes "attrs_ordered attrs"
  shows "key_order (key_compare fsub attrs) (attr_comparator fsub attrs) (key_rank attrs) (\<lambda>k. attr_rank attrs (fst k))"
  using index_keys.key_order_axioms [of fsub "IndexAttrs attrs"] assms by (simp add: IndexAttrs_inverse)

text \<open>The invariant of an index with a given header, in pages of at least two entries. The root page may differ.\<close>

definition index_ok :: "IndexFileHeader \<Rightarrow> key BplusTree \<Rightarrow> bool" where
  "index_ok hdr t \<longleftrightarrow> (bt_header t)\<lparr>root_page := None\<rparr> = hdr\<lparr>root_page := None\<rparr> \<and> attrs_ordered (index_attr_list hdr) \<and>
     tree_ok (key_rank (index_attr_list hdr)) t \<and> 2 \<le> leaf_max_size hdr \<and> 2 \<le> internal_max_size hdr"

lemma same_header:
  assumes "h\<lparr>root_page := None\<rparr> = hdr\<lparr>root_page := None\<rparr>"
  shows "index_attr_list h = index_attr_list hdr" "make_key h = make_key hdr" "leaf_max_size h = leaf_max_size hdr"
    "internal_max_size h = internal_max_size hdr" "unique h = unique hdr" "attr_types h = attr_types hdr"
    "key_length h = key_length hdr" "attr_lengths h = attr_lengths hdr"
  using arg_cong [OF assms, of index_attr_list] arg_cong [OF assms, of leaf_max_size] arg_cong [OF assms, of internal_max_size]
    arg_cong [OF assms, of unique] arg_cong [OF assms, of attr_types] arg_cong [OF assms, of key_length] arg_cong [OF assms, of attr_lengths]
    arg_cong [OF assms, of attr_offsets]
  by (simp_all add: index_attr_list_def make_key_def fun_eq_iff)

lemma index_okD:
  assumes "index_ok hdr t"
  shows "attrs_ordered (index_attr_list hdr)" "tree_ok (key_rank (index_attr_list hdr)) t"
    "2 \<le> leaf_max_size (bt_header t)" "2 \<le> internal_max_size (bt_header t)" "index_attr_list (bt_header t) = index_attr_list hdr"
    "make_key (bt_header t) = make_key hdr" "unique (bt_header t) = unique hdr" "attr_types (bt_header t) = attr_types hdr"
  using assms same_header [of "bt_header t" hdr] by (simp_all add: index_ok_def)

lemma insert_entry_outcome:
  assumes "index_ok hdr t"
  shows "insert_outcome (key_rank (index_attr_list hdr)) (\<lambda>k. attr_rank (index_attr_list hdr) (fst k)) t (make_key hdr user_key rid) rid (insert_entry fsub t user_key rid)"
  using key_order.insert_key_ok [OF index_order [OF index_okD(1) [OF assms]] index_okD(2-4) [OF assms]]
  by (simp add: insert_entry_def index_okD(5,6) [OF assms] Let_def)

lemma insert_keeps_ok:
  assumes "index_ok hdr t" "insert_entry fsub t user_key rid = Some (SUCCESS, t')"
  shows "index_ok hdr t' \<and> entries (bt_pages t') = insert (make_key hdr user_key rid, rid) (entries (bt_pages t))"
proof -
  have "kept t t'" "tree_ok (key_rank (index_attr_list hdr)) t'" "entries (bt_pages t') = insert (make_key hdr user_key rid, rid) (entries (bt_pages t))"
    using insert_entry_outcome [OF assms(1), of user_key rid fsub] assms(2) by (auto simp: insert_outcome_def)
  then show ?thesis using assms(1) by (simp add: index_ok_def kept_def)
qed

text \<open>A scan between two keys of a tree that is not empty, or from a key on.\<close>

lemma scan_between:
  assumes "index_ok hdr t" "left = None \<Longrightarrow> root_page (bt_header t) \<noteq> None" "\<not> sc_first_emitted sc"
  shows "\<exists>sc' es. open_keys (key_compare fsub (index_attr_list hdr)) t left right sc = Some (SUCCESS, sc') \<and>
    collect (key_compare fsub (index_attr_list hdr)) t sc' [] = Some (RECORD_EOF, map snd es) \<and> scanned (key_rank (index_attr_list hdr)) t left right es"
  using key_order.open_keys_ok [OF index_order [OF index_okD(1) [OF assms(1)]] index_okD(2) [OF assms(1)] assms(3,2), where rids = "[]"] by simp

lemma scan_entries:
  assumes "index_ok hdr t"
  shows "\<exists>es. index_scan fsub t = Some (map snd es) \<and> set es = entries (bt_pages t) \<and>
    sorted_wrt (\<lambda>x y. key_rank (index_attr_list hdr) (fst x) < key_rank (index_attr_list hdr) (fst y)) es"
proof (cases "root_page (bt_header t)")
  case None
  then have "entries (bt_pages t) = {}" using index_okD(2) [OF assms] by (simp add: tree_ok_def entries_def items_at_def leaf_of_def)
  then show ?thesis using None
    by (intro exI [of _ "[]"]) (simp add: index_scan_def scanner_open_def scanner_new_def open_keys_def left_most_page_def find_leaf_internal_def)
next
  case (Some r)
  let ?sc = "scanner_new\<lparr>sc_inited := True\<rparr> :: key BplusTreeScanner"
  obtain sc' es where es: "open_keys (key_compare fsub (index_attr_list hdr)) t None None ?sc = Some (SUCCESS, sc')"
    "collect (key_compare fsub (index_attr_list hdr)) t sc' [] = Some (RECORD_EOF, map snd es)" "scanned (key_rank (index_attr_list hdr)) t None None es"
    using scan_between [OF assms, of None ?sc fsub None] Some by (auto simp: scanner_new_def)
  then have "index_scan fsub t = Some (map snd es)" using index_okD(5) [OF assms] by (simp add: index_scan_def scanner_open_def scanner_new_def)
  then show ?thesis using es(3) by (auto simp: scanned_def from_left_def inside_def sorted_wrt_map)
qed

interpretation bplus: ordered_index "index_ok hdr" "\<lambda>t. entries (bt_pages t)" "\<lambda>(u, rid). (make_key hdr u rid, rid)"
  "\<lambda>t (u, rid). insert_entry fsub t u rid" "index_scan fsub" snd
  "\<lambda>x y. key_rank (index_attr_list hdr) (fst x) < key_rank (index_attr_list hdr) (fst y)" for hdr fsub
proof
  show "index_ok hdr t' \<and> entries (bt_pages t') = insert (case u of (u, rid) \<Rightarrow> (make_key hdr u rid, rid)) (entries (bt_pages t))"
    if "index_ok hdr t" "(case u of (u, rid) \<Rightarrow> insert_entry fsub t u rid) = Some (SUCCESS, t')" for t u t'
    using insert_keeps_ok [OF that(1)] that(2) by (cases u) simp
  show "\<exists>es. index_scan fsub t = Some (map snd es) \<and> set es = entries (bt_pages t) \<and>
      sorted_wrt (\<lambda>x y. key_rank (index_attr_list hdr) (fst x) < key_rank (index_attr_list hdr) (fst y)) es" if "index_ok hdr t" for t
    by (rule scan_entries [OF that])
qed auto

text \<open>A new index, with the page capacities the code computes.\<close>

lemma create_fields [simp]:
  fixes types lengths offsets uniq internal_max leaf_max zero
  defines "t \<equiv> tree_create types lengths offsets uniq internal_max leaf_max zero"
  shows "bt_header t = header_create types lengths offsets uniq internal_max leaf_max" "bt_stored t = bt_header t" "\<not> bt_header_dirty t"
    "bt_pages t = Map.empty" "bt_dirty t = {}" "bt_disposed t = []" "bt_zero t = zero" "if_header (bt_file t) = bt_header t" "if_writable (bt_file t)"
  by (simp_all add: t_def tree_create_def tree_sync_def tree_flush_page_def Let_def FIRST_INDEX_PAGE_def BP_HEADER_PAGE_def)

lemma create_ok:
  fixes types lengths offsets uniq internal_max leaf_max
  defines "hdr \<equiv> header_create types lengths offsets uniq internal_max leaf_max"
  assumes "attrs_ordered (zip types lengths)" "2 \<le> leaf_max_size hdr" "2 \<le> internal_max_size hdr"
  shows "index_ok hdr (tree_create types lengths offsets uniq internal_max leaf_max zero)"
    "entries (bt_pages (tree_create types lengths offsets uniq internal_max leaf_max zero)) = {}"
proof -
  have "root_page hdr = None" "index_attr_list hdr = zip types lengths" by (simp_all add: hdr_def header_create_def index_attr_list_def Let_def)
  then show "index_ok hdr (tree_create types lengths offsets uniq internal_max leaf_max zero)"
    using assms(2-4) by (simp add: hdr_def index_ok_def tree_ok_def pages_ok_def sizes_ok_def node_sizes_ok_def)
  show "entries (bt_pages (tree_create types lengths offsets uniq internal_max leaf_max zero)) = {}"
    by (simp add: entries_def items_at_def leaf_of_def)
qed


section \<open>Properties\<close>

text \<open>
  C2: \<open>insert_entry\<close> always returns. On \<open>SUCCESS\<close> the invariant of the index holds again, no entry had
  the same key, and exactly the new entry was added. Otherwise either an entry with an equal key (equal
  attributes, in a unique index) was found and nothing changed, or the file has no free page left.
\<close>

theorem insert_entry_correct:
  assumes "index_ok hdr t"
  shows "\<exists>rc t'. insert_entry fsub t user_key rid = Some (rc, t') \<and>
    (rc = SUCCESS \<and> index_ok hdr t' \<and> entries (bt_pages t') = insert (make_key hdr user_key rid, rid) (entries (bt_pages t)) \<and>
        (\<forall>e \<in> entries (bt_pages t). key_compare fsub (index_attr_list hdr) (fst e) (make_key hdr user_key rid) \<noteq> 0)
     \<or> rc = RECORD_DUPLICATE_KEY \<and> t' = t \<and> (\<exists>e \<in> entries (bt_pages t).
          (if unique hdr then attr_comparator fsub (index_attr_list hdr) else key_compare fsub (index_attr_list hdr)) (fst e) (make_key hdr user_key rid) = 0)
     \<or> rc = BUFFERPOOL_NOBUF \<and> {Suc FIRST_INDEX_PAGE ..< MAX_PAGE_NUM} \<subseteq> dom (bt_pages t'))"
proof -
  note order = index_order [OF index_okD(1) [OF assms], of fsub]
  obtain rc t' where r: "insert_entry fsub t user_key rid = Some (rc, t')" "kept t t'"
    "rc = SUCCESS \<and> tree_ok (key_rank (index_attr_list hdr)) t' \<and> entries (bt_pages t') = insert (make_key hdr user_key rid, rid) (entries (bt_pages t)) \<and>
        (\<forall>e \<in> entries (bt_pages t). key_rank (index_attr_list hdr) (fst e) \<noteq> key_rank (index_attr_list hdr) (make_key hdr user_key rid))
     \<or> rc = RECORD_DUPLICATE_KEY \<and> t' = t \<and>
        (\<exists>e \<in> entries (bt_pages t). duplicate (key_rank (index_attr_list hdr)) (\<lambda>k. attr_rank (index_attr_list hdr) (fst k)) (unique hdr) (make_key hdr user_key rid) e)
     \<or> rc = BUFFERPOOL_NOBUF \<and> {Suc FIRST_INDEX_PAGE ..< MAX_PAGE_NUM} \<subseteq> dom (bt_pages t')"
    using insert_entry_outcome [OF assms, of user_key rid fsub] index_okD(7) [OF assms] unfolding insert_outcome_def by auto
  have ok: "rc = SUCCESS \<Longrightarrow> index_ok hdr t'" using insert_keeps_ok [OF assms] r(1) by blast
  have dup: "(if unique hdr then attr_comparator fsub (index_attr_list hdr) else key_compare fsub (index_attr_list hdr)) (fst e) k = 0 \<longleftrightarrow>
      duplicate (key_rank (index_attr_list hdr)) (\<lambda>k. attr_rank (index_attr_list hdr) (fst k)) (unique hdr) k e" for k e
    by (simp add: duplicate_def key_order.cmp_simps(2) [OF order] key_order.acmp_simps(2) [OF order])
  show ?thesis unfolding dup key_order.cmp_simps(2) [OF order] using r(1,3) ok by blast
qed

abbreviation int_index :: "key BplusTree" where
  "int_index \<equiv> tree_create [INTS] [4] [0] False 4 4 ([], RID_min)"

lemma int_index_ok:
  "index_ok (header_create [INTS] [4] [0] False 4 4) int_index" "entries (bt_pages int_index) = {}"
  by (rule create_ok; simp add: attrs_ordered_def header_create_def Let_def)+

lemma int_index_insert:
  obtains t where "insert_entry fsub int_index user_key rid = Some (SUCCESS, t)"
proof -
  let ?key = "make_key (bt_header int_index) user_key rid"
  have root: "root_page (bt_header int_index) = None" "0 < leaf_max_size (bt_header int_index)"
    by (simp_all add: header_create_def Let_def)
  have "fst (create_new_tree int_index ?key rid) = SUCCESS"
    using key_order.create_new_tree_ok [OF index_order [OF index_okD(1) [OF int_index_ok(1)]] index_okD(2) [OF int_index_ok(1)] root] by blast
  then show thesis using that root(1) by (cases "create_new_tree int_index ?key rid") (simp add: insert_entry_def insert_key_def tree_is_empty_def Let_def)
qed

theorem insert_entry_correct_witness:
  "\<exists>t'. insert_entry (\<lambda>_ _. 0) int_index [7, 0, 0, 0] \<lparr>rid_page = 1, rid_slot = 2\<rparr> = Some (SUCCESS, t') \<and>
    entries (bt_pages t') = {(([7, 0, 0, 0], \<lparr>rid_page = 1, rid_slot = 2\<rparr>), \<lparr>rid_page = 1, rid_slot = 2\<rparr>)}"
proof -
  let ?rid = "\<lparr>rid_page = 1, rid_slot = 2\<rparr>" and ?hdr = "header_create [INTS] [4] [0] False 4 4"
  obtain t where t: "insert_entry (\<lambda>_ _. 0) int_index [7, 0, 0, 0] ?rid = Some (SUCCESS, t)" by (rule int_index_insert)
  have "make_key ?hdr [7, 0, 0, 0] ?rid = ([7, 0, 0, 0], ?rid)" by (simp add: make_key_def header_create_def Let_def)
  then show ?thesis using insert_entry_correct [OF int_index_ok(1), of "\<lambda>_ _. 0" "[7, 0, 0, 0]" ?rid] t int_index_ok(2) by auto
qed

text \<open>
  C7: entries inserted one after the other into a new index are all found again: a scan without bounds
  gives their record identifiers, each once, in the order of the keys.
\<close>

theorem index_lists_inserted:
  fixes types lengths offsets uniq internal_max leaf_max
  defines "hdr \<equiv> header_create types lengths offsets uniq internal_max leaf_max"
  assumes "attrs_ordered (zip types lengths)" "2 \<le> leaf_max_size hdr" "2 \<le> internal_max_size hdr"
    and "insert_all (\<lambda>t (u, rid). insert_entry fsub t u rid) (tree_create types lengths offsets uniq internal_max leaf_max zero) us = Some t"
    and "sorted_wrt (\<lambda>x y. key_compare fsub (zip types lengths) (fst x) (fst y) < 0) es" "set es = (\<lambda>(u, rid). (make_key hdr u rid, rid)) ` set us"
  shows "index_scan fsub t = Some (map snd es)"
proof -
  have attrs: "index_attr_list hdr = zip types lengths" by (simp add: hdr_def header_create_def index_attr_list_def Let_def)
  have "sorted_wrt (\<lambda>x y. key_rank (index_attr_list hdr) (fst x) < key_rank (index_attr_list hdr) (fst y)) es"
    using assms(6) by (simp add: attrs rankedD(1) [OF key_compare_rank [OF assms(2)]])
  then show ?thesis
    using bplus.scan_after_inserts [OF create_ok(1) [OF assms(2-4) [unfolded hdr_def]] create_ok(2) [OF assms(2-4) [unfolded hdr_def]] assms(5), of es] assms(7)
    by (simp add: hdr_def)
qed

theorem index_lists_inserted_witness:
  "\<exists>t. insert_all (\<lambda>t (u, rid). insert_entry (\<lambda>_ _. 0) t u rid) int_index [([7, 0, 0, 0], \<lparr>rid_page = 1, rid_slot = 2\<rparr>)] = Some t \<and>
    index_scan (\<lambda>_ _. 0) t = Some [\<lparr>rid_page = 1, rid_slot = 2\<rparr>]"
proof -
  let ?rid = "\<lparr>rid_page = 1, rid_slot = 2\<rparr>"
  obtain t where t: "insert_entry (\<lambda>_ _. 0) int_index [7, 0, 0, 0] ?rid = Some (SUCCESS, t)" by (rule int_index_insert)
  then have all: "insert_all (\<lambda>t (u, rid). insert_entry (\<lambda>_ _. 0) t u rid) int_index [([7, 0, 0, 0], ?rid)] = Some t" by simp
  have "index_scan (\<lambda>_ _. 0) t = Some (map snd [(make_key (header_create [INTS] [4] [0] False 4 4) [7, 0, 0, 0] ?rid, ?rid)])"
    by (rule index_lists_inserted [OF _ _ _ all]) (simp_all add: attrs_ordered_def header_create_def Let_def)
  then show ?thesis using all by simp
qed

text \<open>
  C11: \<open>get_entry\<close> gives the record identifiers of exactly the entries whose attributes are equal to those
  of the key, when the first attribute is not a string. Page and slot numbers are 32-bit integers.
\<close>

theorem get_entry_exact:
  assumes "index_ok hdr t" "attr_types hdr ! 0 \<noteq> CHARS"
    and "\<forall>e \<in> entries (bt_pages t). rid_page (snd (fst e)) < 2 ^ 31 \<and> rid_slot (snd (fst e)) < 2 ^ 31"
  shows "\<exists>es. get_entry fsub t user_key key_len = Some (SUCCESS, map snd es) \<and>
    set es = {e \<in> entries (bt_pages t). attr_comparator fsub (index_attr_list hdr) (fst e) (make_key hdr user_key RID_min) = 0} \<and>
    sorted_wrt (\<lambda>x y. key_compare fsub (index_attr_list hdr) (fst x) (fst y) < 0) es"
proof -
  let ?attrs = "index_attr_list hdr"
  let ?l = "make_key hdr user_key RID_min" and ?r = "make_key hdr user_key RID_max"
  let ?sc = "scanner_new\<lparr>sc_inited := True\<rparr> :: key BplusTreeScanner"
  note attrs = index_okD(1) [OF assms(1)]
  have same: "attr_compare fsub ?attrs user_key user_key = 0" using rankedD(2) [OF attr_compare_rank [OF attrs]] by blast
  obtain sc' es where es: "open_keys (key_compare fsub ?attrs) t (Some ?l) (Some ?r) ?sc = Some (SUCCESS, sc')"
    "collect (key_compare fsub ?attrs) t sc' [] = Some (RECORD_EOF, map snd es)" "scanned (key_rank ?attrs) t (Some ?l) (Some ?r) es"
    using scan_between [OF assms(1), of "Some ?l" ?sc fsub "Some ?r"] by (auto simp: scanner_new_def)
  have "scanner_open fsub t (Some (user_key, key_len, True)) (Some (user_key, key_len, True)) scanner_new = Some (SUCCESS, sc')"
    using es(1) same assms(2) index_okD(5,6,8) [OF assms(1)] by (simp add: scanner_open_def bound_key_def Let_def scanner_new_def)
  then have run: "get_entry fsub t user_key key_len = Some (SUCCESS, map snd es)"
    using es(2) index_okD(5) [OF assms(1)] by (simp add: get_entry_def)
  have ranks: "key_rank ?attrs ?l = (attr_rank ?attrs (fst ?l), 0, 0)" "key_rank ?attrs ?r = (attr_rank ?attrs (fst ?l), 2147483647, 2147483647)"
    by (simp_all add: key_rank_def make_key_def RID_min_def RID_max_def)
  have between: "key_rank ?attrs ?l \<le> key_rank ?attrs (fst e) \<and> key_rank ?attrs (fst e) \<le> key_rank ?attrs ?r \<longleftrightarrow>
      attr_comparator fsub ?attrs (fst e) ?l = 0" if "e \<in> entries (bt_pages t)" for e
  proof -
    have "attr_comparator fsub ?attrs (fst e) ?l = 0 \<longleftrightarrow> attr_rank ?attrs (fst (fst e)) = attr_rank ?attrs (fst ?l)"
      unfolding attr_comparator_def by (rule rankedD(2) [OF attr_compare_rank [OF attrs]])
    moreover have "rid_page (snd (fst e)) \<le> 2147483647" "rid_slot (snd (fst e)) \<le> 2147483647" using assms(3) that by auto
    ultimately show ?thesis unfolding ranks by (auto simp: key_rank_def)
  qed
  have "set es = {e \<in> entries (bt_pages t). attr_comparator fsub ?attrs (fst e) ?l = 0}"
    using es(3) between unfolding scanned_def from_left_def inside_def option.case by blast
  moreover have "sorted_wrt (\<lambda>x y. key_compare fsub ?attrs (fst x) (fst y) < 0) es"
    using es(3) by (simp add: scanned_def sorted_wrt_map rankedD(1) [OF key_compare_rank [OF attrs]])
  ultimately show ?thesis using run by blast
qed

theorem get_entry_exact_witness:
  "\<exists>t. insert_entry (\<lambda>_ _. 0) int_index [7, 0, 0, 0] \<lparr>rid_page = 1, rid_slot = 2\<rparr> = Some (SUCCESS, t) \<and>
    (\<exists>es. get_entry (\<lambda>_ _. 0) t [7, 0, 0, 0] 4 = Some (SUCCESS, map snd es) \<and> set es =
      {e \<in> entries (bt_pages t). attr_comparator (\<lambda>_ _. 0) [(INTS, 4)] (fst e) ([7, 0, 0, 0], RID_min) = 0})"
proof -
  let ?rid = "\<lparr>rid_page = 1, rid_slot = 2\<rparr>" and ?hdr = "header_create [INTS] [4] [0] False 4 4"
  obtain t where t: "insert_entry (\<lambda>_ _. 0) int_index [7, 0, 0, 0] ?rid = Some (SUCCESS, t)" by (rule int_index_insert)
  have ok: "index_ok ?hdr t" "entries (bt_pages t) = {(make_key ?hdr [7, 0, 0, 0] ?rid, ?rid)}"
    using insert_keeps_ok [OF int_index_ok(1) t] int_index_ok(2) by auto
  have key: "make_key ?hdr [7, 0, 0, 0] r = ([7, 0, 0, 0], r)" for r by (simp add: make_key_def header_create_def Let_def)
  have attrs: "index_attr_list ?hdr = [(INTS, 4)]" by (simp add: index_attr_list_def header_create_def Let_def)
  have ex: "\<exists>es. get_entry (\<lambda>_ _. 0) t [7, 0, 0, 0] 4 = Some (SUCCESS, map snd es) \<and>
    set es = {e \<in> entries (bt_pages t). attr_comparator (\<lambda>_ _. 0) (index_attr_list ?hdr) (fst e) (make_key ?hdr [7, 0, 0, 0] RID_min) = 0} \<and>
    sorted_wrt (\<lambda>x y. key_compare (\<lambda>_ _. 0) (index_attr_list ?hdr) (fst x) (fst y) < 0) es"
  proof (rule get_entry_exact [OF ok(1)])
    show "attr_types ?hdr ! 0 \<noteq> CHARS" by (simp add: header_create_def Let_def)
    show "\<forall>e \<in> entries (bt_pages t). rid_page (snd (fst e)) < 2 ^ 31 \<and> rid_slot (snd (fst e)) < 2 ^ 31" unfolding ok(2) key by simp
  qed
  show ?thesis using ex t unfolding attrs key by blast
qed

text \<open>
  The file holds what is not marked: a page that is not dirty is in the file as it is in memory, and a
  header that differs from its copy in the first page is marked to be written.
\<close>

definition backed :: "'k BplusTree \<Rightarrow> bool" where
  "backed t \<longleftrightarrow> if_writable (bt_file t) \<and> pages_ok t \<and> (\<forall>p \<in> dom (bt_pages t). p \<notin> bt_dirty t \<longrightarrow> if_nodes (bt_file t) p = bt_pages t p) \<and>
     (FIRST_INDEX_PAGE \<notin> bt_dirty t \<longrightarrow> if_header (bt_file t) = bt_stored t) \<and> (bt_header_dirty t \<or> bt_stored t = bt_header t)"

lemma create_backed: "backed (tree_create types lengths offsets uniq internal_max leaf_max zero)"
  by (simp add: backed_def pages_ok_def)

lemma kept_backed:
  assumes "kept t t'" "pages_ok t'" "backed t"
  shows "backed t'"
proof -
  have "if_nodes (bt_file t') p = bt_pages t' p" if "p \<in> dom (bt_pages t')" "p \<notin> bt_dirty t'" for p
  proof -
    have "bt_pages t' p = bt_pages t p" "p \<notin> bt_dirty t" using assms(1) that(2) by (auto simp: kept_def)
    moreover have "p \<in> dom (bt_pages t)" using calculation(1) that(1) by (simp add: domIff)
    ultimately show ?thesis using assms(1,3) by (simp add: kept_def backed_def)
  qed
  then show ?thesis using assms unfolding kept_def backed_def by auto
qed

text \<open>Writing a page, and dropping one and reading it again, do not change what the tree shows.\<close>

definition same_tree :: "'k BplusTree \<Rightarrow> 'k BplusTree \<Rightarrow> bool" where
  "same_tree t u \<longleftrightarrow> bt_pages u = bt_pages t \<and> bt_header u = bt_header t \<and> bt_stored u = bt_stored t \<and>
     bt_header_dirty u = bt_header_dirty t \<and> bt_disposed u = bt_disposed t \<and> bt_zero u = bt_zero t"

lemma flush_page_backed:
  assumes "backed t"
  shows "\<exists>u. tree_flush_page t p = (SUCCESS, u) \<and> same_tree t u \<and> backed u \<and> bt_dirty u = bt_dirty t - {p} \<and>
    (p = BP_HEADER_PAGE \<longrightarrow> if_alloc (bt_file u) = dom (bt_pages t)) \<and> (p \<noteq> BP_HEADER_PAGE \<longrightarrow> if_alloc (bt_file u) = if_alloc (bt_file t))"
proof -
  have "BP_HEADER_PAGE \<notin> dom (bt_pages t)" "FIRST_INDEX_PAGE \<notin> dom (bt_pages t)" "BP_HEADER_PAGE \<noteq> FIRST_INDEX_PAGE"
    using assms by (auto simp: backed_def pages_ok_def FIRST_INDEX_PAGE_def BP_HEADER_PAGE_def)
  then show ?thesis using assms unfolding tree_flush_page_def same_tree_def backed_def pages_ok_def by auto
qed

lemma same_tree_trans: "same_tree t u \<Longrightarrow> same_tree u v \<Longrightarrow> same_tree t v"
  by (simp add: same_tree_def)

lemma evict_backed:
  assumes "backed t"
  shows "backed (tree_evict t p)" "same_tree t (tree_evict t p)"
proof -
  obtain u where u: "tree_flush_page t p = (SUCCESS, u)" "same_tree t u" "backed u" "bt_dirty u = bt_dirty t - {p}"
    using flush_page_backed [OF assms] by blast
  obtain v where v: "(if p \<in> bt_dirty t then tree_flush_page t p else (SUCCESS, t)) = (SUCCESS, v)" "same_tree t v" "backed v" "p \<notin> bt_dirty v"
    using u assms by (cases "p \<in> bt_dirty t") (auto simp: same_tree_def)
  have "tree_evict t p = v"
  proof (cases "bt_pages v p")
    case None
    then show ?thesis using v(1,3,4) by (auto simp: tree_evict_def backed_def)
  next
    case (Some node)
    then have "if_nodes (bt_file v) p = Some node" using v(3,4) by (auto simp: backed_def)
    then show ?thesis using v(1,3,4) Some by (auto simp: tree_evict_def backed_def fun_upd_idem)
  qed
  then show "backed (tree_evict t p)" "same_tree t (tree_evict t p)" using v by simp_all
qed

lemma evict_all_backed:
  assumes "backed t"
  shows "backed (fold (\<lambda>p t. tree_evict t p) ps t)" "same_tree t (fold (\<lambda>p t. tree_evict t p) ps t)"
proof -
  have "backed (fold (\<lambda>p t. tree_evict t p) ps t) \<and> same_tree t (fold (\<lambda>p t. tree_evict t p) ps t)"
    using assms by (induction ps arbitrary: t) (auto simp: same_tree_def evict_backed(1) dest: evict_backed(2))
  then show "backed (fold (\<lambda>p t. tree_evict t p) ps t)" "same_tree t (fold (\<lambda>p t. tree_evict t p) ps t)" by blast+
qed

lemma flush_all_backed:
  assumes "backed t"
  shows "\<exists>u. tree_flush_all t ps = (SUCCESS, u) \<and> same_tree t u \<and> backed u \<and> bt_dirty u = bt_dirty t - set ps \<and>
    (BP_HEADER_PAGE \<in> set ps \<or> if_alloc (bt_file t) = dom (bt_pages t) \<longrightarrow> if_alloc (bt_file u) = dom (bt_pages t))"
  using assms
proof (induction ps arbitrary: t)
  case Nil
  then show ?case by (simp add: same_tree_def)
next
  case (Cons p ps)
  obtain u where u: "tree_flush_page t p = (SUCCESS, u)" "same_tree t u" "backed u" "bt_dirty u = bt_dirty t - {p}"
    "p = BP_HEADER_PAGE \<longrightarrow> if_alloc (bt_file u) = dom (bt_pages t)" "p \<noteq> BP_HEADER_PAGE \<longrightarrow> if_alloc (bt_file u) = if_alloc (bt_file t)"
    using flush_page_backed [OF Cons.prems, of p] by (elim exE conjE)
  obtain v where v: "tree_flush_all u ps = (SUCCESS, v)" "same_tree u v" "backed v" "bt_dirty v = bt_dirty u - set ps"
    "BP_HEADER_PAGE \<in> set ps \<or> if_alloc (bt_file u) = dom (bt_pages u) \<longrightarrow> if_alloc (bt_file v) = dom (bt_pages u)"
    using Cons.IH [OF u(3)] by (elim exE conjE)
  have "bt_pages u = bt_pages t" using u(2) by (simp add: same_tree_def)
  moreover have "tree_flush_all t (p # ps) = (SUCCESS, v)" using u(1) v(1) by simp
  moreover have "BP_HEADER_PAGE \<in> set (p # ps) \<or> if_alloc (bt_file t) = dom (bt_pages t) \<longrightarrow> if_alloc (bt_file v) = dom (bt_pages t)"
    using u(5,6) v(5) calculation(1) by (cases "p = BP_HEADER_PAGE") simp_all
  moreover have "bt_dirty v = bt_dirty t - set (p # ps)" using u(4) v(4) by auto
  ultimately show ?case using v(3) same_tree_trans [OF u(2) v(2)] by blast
qed

text \<open>With every page that is still dirty in a frame, \<open>sync\<close> writes the whole tree and opening the file finds it.\<close>

lemma sync_reopen:
  assumes "backed t" "BP_HEADER_PAGE \<in> set frames" "bt_dirty t \<subseteq> set frames"
    and "bt_header_dirty t \<longrightarrow> FIRST_INDEX_PAGE \<in> set frames"
  shows "\<exists>u. tree_sync frames t = (SUCCESS, u) \<and> backed u \<and> backed (tree_reopen u) \<and> bt_pages (tree_reopen u) = bt_pages t \<and>
    bt_header (tree_reopen u) = bt_header t \<and> bt_disposed (tree_reopen u) = []"
proof -
  let ?t = "if bt_header_dirty t
    then t\<lparr>bt_stored := bt_header t, bt_header_dirty := False, bt_dirty := insert FIRST_INDEX_PAGE (bt_dirty t)\<rparr> else t"
  have t: "backed ?t" "bt_pages ?t = bt_pages t" "bt_header ?t = bt_header t" "bt_stored ?t = bt_header t" "\<not> bt_header_dirty ?t"
    "bt_dirty ?t \<subseteq> set frames"
    using assms(1,3,4) by (auto simp: backed_def pages_ok_def)
  obtain u where u: "tree_flush_all ?t frames = (SUCCESS, u)" "same_tree ?t u" "backed u" "bt_dirty u = {}" "if_alloc (bt_file u) = dom (bt_pages t)"
    using flush_all_backed [OF t(1), of frames] assms(2) t(2,6) by auto
  have eq: "bt_pages u = bt_pages t" "bt_stored u = bt_header t" using u(2) t by (simp_all add: same_tree_def)
  have "if_header (bt_file u) = bt_header t" using u(3,4) eq(2) by (simp add: backed_def)
  moreover have "if_nodes (bt_file u) |` dom (bt_pages t) = bt_pages t"
    using u(3,4) eq(1) by (auto simp: backed_def restrict_map_def fun_eq_iff domIff)
  ultimately have "bt_pages (tree_reopen u) = bt_pages t" "bt_header (tree_reopen u) = bt_header t" "bt_disposed (tree_reopen u) = []"
    using u(5) by (simp_all add: tree_reopen_def Let_def)
  moreover from this have "backed (tree_reopen u)"
    using u(3,4) eq(1) \<open>if_header (bt_file u) = bt_header t\<close> by (auto simp: tree_reopen_def backed_def pages_ok_def Let_def)
  ultimately show ?thesis using u(1,3) by (simp add: tree_sync_def Let_def)
qed

lemma int_index_dirty:
  "\<exists>t. insert_entry (\<lambda>_ _. 0) int_index [7, 0, 0, 0] \<lparr>rid_page = 1, rid_slot = 2\<rparr> = Some (SUCCESS, t) \<and> bt_dirty t \<subseteq> {2}"
proof -
  have free: "find_free_page_num int_index (Suc (Suc 0)) = Some 2"
    by (subst find_free_page_num.simps)
      (simp add: MAX_PAGE_NUM_def BP_PAGE_DATA_SIZE_def BP_PAGE_SIZE_def)
  show ?thesis using free
    by (simp add: insert_entry_def insert_key_def tree_is_empty_def create_new_tree_def allocate_node_def FIRST_INDEX_PAGE_def Let_def
      put_node_def dirty_node_def update_root_page_num_locked_def header_create_def)
qed

text \<open>
  C12: after an insertion every page whose content the file does not have is marked dirty. So the buffer
  pool may evict any pages and read them again without changing the index; and when \<open>sync\<close> then finds
  in its frames the pages that are still dirty, the file holds the whole index: opening it in a new
  process gives the same root and exactly the old entries and the new one.
\<close>

theorem index_survives_reopen:
  assumes "index_ok hdr t" "backed t" "insert_entry fsub t user_key rid = Some (SUCCESS, t')"
    and u: "u = fold (\<lambda>p t. tree_evict t p) ps t'"
    and "BP_HEADER_PAGE \<in> set frames" "bt_dirty u \<subseteq> set frames" "bt_header_dirty u \<longrightarrow> FIRST_INDEX_PAGE \<in> set frames"
  shows "backed t' \<and> bt_pages u = bt_pages t' \<and> bt_header u = bt_header t' \<and>
    (\<exists>v. tree_sync frames u = (SUCCESS, v) \<and> backed v \<and> backed (tree_reopen v) \<and> bt_header (tree_reopen v) = bt_header t' \<and>
       index_ok hdr (tree_reopen v) \<and>
       entries (bt_pages (tree_reopen v)) = insert (make_key hdr user_key rid, rid) (entries (bt_pages t)))"
proof -
  have "kept t t'" using insert_entry_outcome [OF assms(1), of user_key rid fsub] assms(3) by (auto simp: insert_outcome_def)
  moreover have ok: "index_ok hdr t'" "entries (bt_pages t') = insert (make_key hdr user_key rid, rid) (entries (bt_pages t))"
    using insert_keeps_ok [OF assms(1,3)] by simp_all
  ultimately have b: "backed t'" using kept_backed assms(2) index_okD(2) [OF ok(1)] by (auto simp: tree_ok_def)
  have e: "backed u" "bt_pages u = bt_pages t'" "bt_header u = bt_header t'" "bt_disposed u = bt_disposed t'"
    using evict_all_backed [OF b, of ps] by (simp_all add: u same_tree_def)
  have t: "bt_disposed t' = []" using index_okD(2) [OF ok(1)] by (simp add: tree_ok_def)
  obtain v where v: "tree_sync frames u = (SUCCESS, v)" "backed v" "backed (tree_reopen v)" "bt_pages (tree_reopen v) = bt_pages t'"
    "bt_header (tree_reopen v) = bt_header t'" "bt_disposed (tree_reopen v) = []"
    using sync_reopen [OF e(1) assms(5-7)] e by auto
  have "index_ok hdr (tree_reopen v)"
    using ok(1) t unfolding index_ok_def tree_ok_def pages_ok_def sizes_ok_def v(4-6) by simp
  with b e v ok(2) show ?thesis by simp
qed

theorem index_survives_reopen_witness:
  "\<exists>t' u v. insert_entry (\<lambda>_ _. 0) int_index [7, 0, 0, 0] \<lparr>rid_page = 1, rid_slot = 2\<rparr> = Some (SUCCESS, t') \<and>
    u = fold (\<lambda>p t. tree_evict t p) [2] t' \<and> tree_sync [2, 1, 0] u = (SUCCESS, v) \<and>
    entries (bt_pages (tree_reopen v)) = {(([7, 0, 0, 0], \<lparr>rid_page = 1, rid_slot = 2\<rparr>), \<lparr>rid_page = 1, rid_slot = 2\<rparr>)}"
proof -
  let ?rid = "\<lparr>rid_page = 1, rid_slot = 2\<rparr>" and ?hdr = "header_create [INTS] [4] [0] False 4 4"
  obtain t where t: "insert_entry (\<lambda>_ _. 0) int_index [7, 0, 0, 0] ?rid = Some (SUCCESS, t)" "bt_dirty t \<subseteq> {2}"
    using int_index_dirty by blast
  let ?u = "fold (\<lambda>p t. tree_evict t p) [2] t"
  have d: "bt_dirty ?u \<subseteq> set [2, 1, 0]" using t(2) by (auto simp: tree_evict_def tree_flush_page_def Let_def)
  have "make_key ?hdr [7, 0, 0, 0] ?rid = ([7, 0, 0, 0], ?rid)" by (simp add: make_key_def header_create_def Let_def)
  then show ?thesis
    using index_survives_reopen [OF int_index_ok(1) create_backed t(1) refl _ d] t(1) int_index_ok(2)
    by (auto simp: FIRST_INDEX_PAGE_def BP_HEADER_PAGE_def)
qed

text \<open>
  C21: with the capacities that \<open>create\<close> computes, the items of every node of the index fit into a page.
\<close>

theorem nodes_fit_pages:
  fixes types lengths offsets uniq
  defines "hdr \<equiv> header_create types lengths offsets uniq (-1) (-1)"
  assumes "index_ok hdr t" "bt_pages t p = Some node"
  shows "if is_leaf node then 16 + node_size node * (key_length hdr + 8) \<le> BP_PAGE_DATA_SIZE
    else 12 + node_size node * (key_length hdr + 4) \<le> BP_PAGE_DATA_SIZE"
proof -
  have cap: "c * d \<le> n" if "int c \<le> int n div int d" for c d n :: nat
  proof -
    have "c \<le> n div d" using that by (simp add: zdiv_int [symmetric] del: zdiv_int)
    then show ?thesis using div_times_less_eq_dividend [of n d] mult_le_mono1 order_trans by blast
  qed
  have "sizes_ok t" using assms(2) by (simp add: index_ok_def tree_ok_def)
  then have size: "node_size node \<le> max_size (bt_header t) node" using assms(3) node_sizes_at [of "bt_header t" "bt_pages t"] by (simp add: sizes_ok_def)
  have max: "max_size (bt_header t) node = max_size hdr node"
    using assms(2) same_header [of "bt_header t" hdr] by (simp add: index_ok_def max_size_def)
  show ?thesis
  proof (cases "is_leaf node")
    case True
    have "int (node_size node) \<le> int (BP_PAGE_DATA_SIZE - 16) div int (key_length hdr + 8)"
      using size True unfolding max by (simp add: max_size_def hdr_def header_create_def calc_leaf_page_capacity_def Let_def BP_PAGE_DATA_SIZE_def BP_PAGE_SIZE_def le_nat_iff pos_imp_zdiv_nonneg_iff)
    then show ?thesis using cap True by (fastforce simp: BP_PAGE_DATA_SIZE_def BP_PAGE_SIZE_def)
  next
    case False
    have "int (node_size node) \<le> int (BP_PAGE_DATA_SIZE - 12) div int (key_length hdr + 4)"
      using size False unfolding max by (simp add: max_size_def hdr_def header_create_def calc_internal_page_capacity_def Let_def BP_PAGE_DATA_SIZE_def BP_PAGE_SIZE_def le_nat_iff pos_imp_zdiv_nonneg_iff)
    then show ?thesis using cap False by (fastforce simp: BP_PAGE_DATA_SIZE_def BP_PAGE_SIZE_def)
  qed
qed

theorem nodes_fit_pages_witness:
  "\<exists>t node. insert_entry (\<lambda>_ _. 0) (tree_create [INTS] [4] [0] False (-1) (-1) ([], RID_min)) [7, 0, 0, 0] \<lparr>rid_page = 1, rid_slot = 2\<rparr> = Some (SUCCESS, t) \<and>
    bt_pages t 2 = Some node \<and> 16 + node_size node * 20 \<le> BP_PAGE_DATA_SIZE"
proof -
  let ?t0 = "tree_create [INTS] [4] [0] False (-1) (-1) ([], RID_min) :: key BplusTree" and ?hdr = "header_create [INTS] [4] [0] False (-1) (-1)"
  have ok: "index_ok ?hdr ?t0"
    by (rule create_ok) (simp_all add: attrs_ordered_def header_create_def Let_def calc_leaf_page_capacity_def calc_internal_page_capacity_def
      BP_PAGE_DATA_SIZE_def BP_PAGE_SIZE_def)
  have "find_free_page_num ?t0 2 = Some 2"
    by (subst find_free_page_num.simps) (simp add: MAX_PAGE_NUM_def BP_PAGE_DATA_SIZE_def BP_PAGE_SIZE_def)
  then have "\<exists>t. insert_entry (\<lambda>_ _. 0) ?t0 [7, 0, 0, 0] \<lparr>rid_page = 1, rid_slot = 2\<rparr> = Some (SUCCESS, t) \<and>
      bt_pages t 2 = Some (LeafIndexNode None None [(([7, 0, 0, 0], \<lparr>rid_page = 1, rid_slot = 2\<rparr>), \<lparr>rid_page = 1, rid_slot = 2\<rparr>)])"
    by (simp add: insert_entry_def insert_key_def create_new_tree_def allocate_node_def FIRST_INDEX_PAGE_def numeral_2_eq_2 Let_def tree_is_empty_def
      make_key_def put_node_def dirty_node_def update_root_page_num_locked_def leaf_init_empty_def insert_at_def header_create_def)
  then obtain t node where t: "insert_entry (\<lambda>_ _. 0) ?t0 [7, 0, 0, 0] \<lparr>rid_page = 1, rid_slot = 2\<rparr> = Some (SUCCESS, t)" "bt_pages t 2 = Some node" "is_leaf node" by auto
  have "key_length ?hdr = 12" by (simp add: header_create_def Let_def)
  then show ?thesis using nodes_fit_pages [of "[INTS]" "[4]" "[0]" False t 2 node] insert_keeps_ok [OF ok t(1)] t by auto
qed

end
