(* ===== verification/Value.thy ===== *)
theory Value
  imports Comparator "HOL-Library.Signed_Division"
begin

text \<open>
  \<^verbatim>\<open>src/observer/sql/parser/value.h\<close> and \<^verbatim>\<open>value.cpp\<close>: attribute values, their conversion and their
  comparison, with \<^verbatim>\<open>date_to_string\<close> of \<^verbatim>\<open>deps/common/lang/string.cpp\<close> and \<^verbatim>\<open>CompOp\<close> of
  \<^verbatim>\<open>comp_op.h\<close>.

  \<^item> The union of the numbers is the list of its four bytes; a boolean uses only the first of them.
  \<^item> A \<^verbatim>\<open>char *\<close> is the list of the bytes from there on, as in \<open>Comparator\<close>; \<open>c_str\<close> is the string it
    points to. \<^verbatim>\<open>std::string\<close> is the list of its bytes.
  \<^item> What the processor and the standard library do with single precision floats is an argument, the
    record \<open>FloatOps\<close>; \<^verbatim>\<open>std::regex\<close> is the argument \<open>regex\<close> of the comparison.
  \<^item> Variables that the code leaves uninitialised are arguments named \<open>junk\<close>.
  \<^item> \<^verbatim>\<open>ASSERT\<close> does nothing in a release build and is left out.
\<close>

section \<open>Types and operators\<close>

datatype CompOp =
    EQUAL_TO | LESS_EQUAL | NOT_EQUAL | LESS_THAN | GREAT_EQUAL | GREAT_THAN | LIKE | NOT_LIKE
  | IS | IS_NOT | IN | NOT_IN | EXISTS | NOT_EXISTS | NO_OP

fun attr_type_to_string :: "AttrType \<Rightarrow> string" where
  "attr_type_to_string UNDEFINED = ''undefined''"
| "attr_type_to_string CHARS = ''chars''"
| "attr_type_to_string DATES = ''dates''"
| "attr_type_to_string INTS = ''ints''"
| "attr_type_to_string FLOATS = ''floats''"
| "attr_type_to_string BOOLEANS = ''booleans''"
| "attr_type_to_string NULLS = ''nulls''"
| "attr_type_to_string TEXTS = ''texts''"

definition attr_type_from_string :: "string \<Rightarrow> AttrType" where
  "attr_type_from_string s =
     (case find (\<lambda>t. attr_type_to_string t = s) [UNDEFINED, CHARS, DATES, INTS, FLOATS, BOOLEANS, NULLS, TEXTS] of
        Some t \<Rightarrow> t | None \<Rightarrow> UNDEFINED)"

record FloatOps =
  fo_sub :: float_sub
  fo_of_int :: "int \<Rightarrow> byte list"
  fo_to_int :: "byte list \<Rightarrow> int"
  fo_round :: "byte list \<Rightarrow> int"
  fo_add :: "byte list \<Rightarrow> byte list \<Rightarrow> byte list"
  fo_large :: "byte list \<Rightarrow> bool" \<comment> \<open>at least \<open>EPSILON\<close> away from zero\<close>
  fo_stof :: "byte list \<Rightarrow> byte list option" \<comment> \<open>\<^verbatim>\<open>std::stof\<close>, \<open>None\<close> for an exception\<close>
  fo_read :: "byte list \<Rightarrow> byte list option" \<comment> \<open>\<^verbatim>\<open>>>\<close> of a stream, \<open>None\<close> for a failure\<close>
  fo_print :: "byte list \<Rightarrow> byte list" \<comment> \<open>\<^verbatim>\<open><<\<close> to a stream\<close>
  fo_print2 :: "byte list \<Rightarrow> byte list" \<comment> \<open>\<^verbatim>\<open>double_to_str\<close>\<close>


section \<open>Numbers in strings\<close>

definition c_str :: "byte list \<Rightarrow> byte list" where
  "c_str s = takeWhile (\<lambda>c. c \<noteq> 0) s"

definition isspace :: "byte \<Rightarrow> bool" where
  "isspace c \<longleftrightarrow> c = 32 \<or> 9 \<le> c \<and> c \<le> 13"

definition isdigit :: "byte \<Rightarrow> bool" where
  "isdigit c \<longleftrightarrow> 48 \<le> c \<and> c \<le> 57"

definition digits_val :: "byte list \<Rightarrow> int" where
  "digits_val ds = foldl (\<lambda>n c. 10 * n + (uint c - 48)) 0 ds"

text \<open>Reading a decimal number: white space, a sign, digits; the number and the rest of the string.\<close>

definition scan_int :: "byte list \<Rightarrow> (int \<times> byte list) option" where
  "scan_int s =
     (let s = dropWhile isspace s;
          neg = (s \<noteq> [] \<and> hd s = 45);
          s = (if s \<noteq> [] \<and> (hd s = 45 \<or> hd s = 43) then tl s else s);
          ds = takeWhile isdigit s in
      if ds = [] then None else Some (if neg then - digits_val ds else digits_val ds, drop (length ds) s))"

definition clamp_i64 :: "int \<Rightarrow> int" where
  "clamp_i64 v = max (- (2 ^ 63)) (min (2 ^ 63 - 1) v)"

definition wrap_i32 :: "int \<Rightarrow> int" where
  "wrap_i32 v = (v + 2147483648) mod 4294967296 - 2147483648"

text \<open>\<^verbatim>\<open>std::stol\<close> followed by the conversion to \<^verbatim>\<open>int\<close>, and \<^verbatim>\<open>>>\<close> of a stream into an \<^verbatim>\<open>int\<close>; \<open>None\<close> for a failure.\<close>

definition stol_int :: "byte list \<Rightarrow> int option" where
  "stol_int s =
     (case scan_int s of None \<Rightarrow> None | Some (v, _) \<Rightarrow> if clamp_i64 v = v then Some (wrap_i32 v) else None)"

definition read_int :: "byte list \<Rightarrow> int option" where
  "read_int s = (case scan_int s of None \<Rightarrow> None | Some (v, _) \<Rightarrow> if i32_range v then Some v else None)"

fun print_nat :: "nat \<Rightarrow> byte list" where
  "print_nat n = (if n < 10 then [48 + of_nat n] else print_nat (n div 10) @ [48 + of_nat (n mod 10)])"

declare print_nat.simps [simp del]

definition print_int :: "int \<Rightarrow> byte list" where
  "print_int v = (if v < 0 then 45 # print_nat (nat (- v)) else print_nat (nat v))"

definition setw2 :: "byte list \<Rightarrow> byte list" where
  "setw2 s = replicate (2 - length s) 48 @ s"


section \<open>Dates\<close>

text \<open>\<^verbatim>\<open>sscanf (s, "%d-%d-%d", ...)\<close>: the variables that are not reached keep their value.\<close>

definition sscanf_date :: "int \<times> int \<times> int \<Rightarrow> byte list \<Rightarrow> int \<times> int \<times> int" where
  "sscanf_date junk s =
     (case junk of (y, m, d) \<Rightarrow>
      let int_of = (\<lambda>v. wrap_i32 (clamp_i64 v)) in
      case scan_int s of
        None \<Rightarrow> (y, m, d)
      | Some (y, s) \<Rightarrow>
          if s = [] \<or> hd s \<noteq> 45 then (int_of y, m, d)
          else
            (case scan_int (tl s) of
               None \<Rightarrow> (int_of y, m, d)
             | Some (m, s) \<Rightarrow>
                 if s = [] \<or> hd s \<noteq> 45 then (int_of y, int_of m, d)
                 else
                   (case scan_int (tl s) of
                      None \<Rightarrow> (int_of y, int_of m, d)
                    | Some (d, _) \<Rightarrow> (int_of y, int_of m, int_of d))))"

definition m_days :: "int list" where
  "m_days = [31, 28, 31, 30, 31, 30, 31, 31, 30, 31, 30, 31]"

text \<open>The lambda \<open>check_date\<close>; \<^verbatim>\<open>%\<close> is applied to a year that is not negative.\<close>

definition check_date :: "int \<Rightarrow> int \<Rightarrow> int \<Rightarrow> bool" where
  "check_date year month day =
     (if year > 3999 \<or> year < 0 \<or> month > 12 \<or> month < 1 \<or> day < 0 \<or> day > 31 then False
      else if year mod 400 = 0 \<or> year mod 4 = 0 \<and> year mod 100 \<noteq> 0
      then day \<le> m_days ! nat (month - 1) \<or> month = 2 \<and> day = 29
      else day \<le> m_days ! nat (month - 1))"

definition convert_string_to_date :: "int \<times> int \<times> int \<Rightarrow> byte list \<Rightarrow> int" where
  "convert_string_to_date junk str_data =
     (case sscanf_date junk (c_str str_data) of (year, month, day) \<Rightarrow>
        if \<not> check_date year month day then -1 else year * 10000 + month * 100 + day)"

definition date_to_string :: "int \<Rightarrow> byte list" where
  "date_to_string date =
     print_int (date sdiv 10000) @ [45] @ setw2 (print_int ((date sdiv 100) smod 100)) @ [45] @ setw2 (print_int (date smod 100))"


section \<open>Values\<close>

record Value =
  attr_type :: AttrType
  v_length :: int
  num_value :: "byte list"
  str_value :: "byte list"

definition set_type :: "AttrType \<Rightarrow> Value \<Rightarrow> Value" where
  "set_type t v = v\<lparr>attr_type := t\<rparr>"

definition set_int :: "int \<Rightarrow> Value \<Rightarrow> Value" where
  "set_int val v = v\<lparr>attr_type := INTS, num_value := i32_bytes val, v_length := 4\<rparr>"

definition set_float :: "byte list \<Rightarrow> Value \<Rightarrow> Value" where
  "set_float val v = v\<lparr>attr_type := FLOATS, num_value := val, v_length := 4\<rparr>"

definition set_boolean :: "bool \<Rightarrow> Value \<Rightarrow> Value" where
  "set_boolean val v = v\<lparr>attr_type := BOOLEANS, num_value := (num_value v)[0 := if val then 1 else 0], v_length := 1\<rparr>"

definition assign_str :: "byte list \<Rightarrow> int \<Rightarrow> byte list" where
  "assign_str s len = (if len > 0 then c_str (take (nat len) s) else c_str s)"

definition set_string :: "byte list \<Rightarrow> int \<Rightarrow> Value \<Rightarrow> Value" where
  "set_string s len v =
     v\<lparr>attr_type := CHARS, str_value := assign_str s len, v_length := int (length (assign_str s len))\<rparr>"

definition set_text :: "byte list \<Rightarrow> int \<Rightarrow> Value \<Rightarrow> Value" where
  "set_text s len v =
     v\<lparr>attr_type := TEXTS, str_value := assign_str s len, v_length := int (length (assign_str s len))\<rparr>"

definition set_date :: "int \<Rightarrow> Value \<Rightarrow> Value" where
  "set_date val v = v\<lparr>attr_type := DATES, num_value := i32_bytes val, v_length := 4\<rparr>"

definition set_null :: "Value \<Rightarrow> Value" where
  "set_null v = v\<lparr>attr_type := NULLS, v_length := 0\<rparr>"

definition value_set_data :: "byte list \<Rightarrow> int \<Rightarrow> Value \<Rightarrow> Value" where
  "value_set_data dat len v =
     (case attr_type v of
        TEXTS \<Rightarrow> set_text dat len v
      | CHARS \<Rightarrow> set_string dat len v
      | INTS \<Rightarrow> v\<lparr>num_value := take 4 dat, v_length := len\<rparr>
      | FLOATS \<Rightarrow> v\<lparr>num_value := take 4 dat, v_length := len\<rparr>
      | BOOLEANS \<Rightarrow> v\<lparr>num_value := (num_value v)[0 := if bytes_i32 dat \<noteq> 0 then 1 else 0], v_length := len\<rparr>
      | DATES \<Rightarrow> (set_date (bytes_i32 dat) v)\<lparr>v_length := len\<rparr>
      | NULLS \<Rightarrow> v
      | UNDEFINED \<Rightarrow> v)"

definition is_null :: "Value \<Rightarrow> bool" where
  "is_null v \<longleftrightarrow> attr_type v = NULLS"

definition value_data :: "Value \<Rightarrow> byte list" where
  "value_data v = (case attr_type v of TEXTS \<Rightarrow> str_value v @ [0] | CHARS \<Rightarrow> str_value v @ [0] | _ \<Rightarrow> num_value v)"

definition value_to_string :: "FloatOps \<Rightarrow> Value \<Rightarrow> byte list" where
  "value_to_string fo v =
     (case attr_type v of
        INTS \<Rightarrow> print_int (bytes_i32 (num_value v))
      | FLOATS \<Rightarrow> fo_print2 fo (num_value v)
      | BOOLEANS \<Rightarrow> [if num_value v ! 0 \<noteq> 0 then 49 else 48]
      | TEXTS \<Rightarrow> str_value v
      | CHARS \<Rightarrow> str_value v
      | DATES \<Rightarrow> date_to_string (bytes_i32 (num_value v))
      | NULLS \<Rightarrow> [78, 85, 76, 76]
      | UNDEFINED \<Rightarrow> [])"

definition get_int :: "FloatOps \<Rightarrow> Value \<Rightarrow> int" where
  "get_int fo v =
     (case attr_type v of
        TEXTS \<Rightarrow> (case stol_int (str_value v) of Some n \<Rightarrow> n | None \<Rightarrow> 0)
      | CHARS \<Rightarrow> (case stol_int (str_value v) of Some n \<Rightarrow> n | None \<Rightarrow> 0)
      | INTS \<Rightarrow> bytes_i32 (num_value v)
      | FLOATS \<Rightarrow> fo_to_int fo (num_value v)
      | BOOLEANS \<Rightarrow> if num_value v ! 0 \<noteq> 0 then 1 else 0
      | DATES \<Rightarrow> bytes_i32 (num_value v)
      | _ \<Rightarrow> 0)"

definition get_float :: "FloatOps \<Rightarrow> Value \<Rightarrow> byte list" where
  "get_float fo v =
     (case attr_type v of
        TEXTS \<Rightarrow> (case fo_stof fo (str_value v) of Some x \<Rightarrow> x | None \<Rightarrow> fo_of_int fo 0)
      | CHARS \<Rightarrow> (case fo_stof fo (str_value v) of Some x \<Rightarrow> x | None \<Rightarrow> fo_of_int fo 0)
      | INTS \<Rightarrow> fo_of_int fo (bytes_i32 (num_value v))
      | FLOATS \<Rightarrow> num_value v
      | BOOLEANS \<Rightarrow> fo_of_int fo (if num_value v ! 0 \<noteq> 0 then 1 else 0)
      | DATES \<Rightarrow> fo_of_int fo (bytes_i32 (num_value v))
      | _ \<Rightarrow> fo_of_int fo 0)"

text \<open>For strings: \<^verbatim>\<open>stof\<close> first, then \<^verbatim>\<open>stol\<close>; an exception of either ends in the same test.\<close>

definition get_boolean :: "FloatOps \<Rightarrow> Value \<Rightarrow> bool" where
  "get_boolean fo v =
     (let of_str = (\<lambda>s. case fo_stof fo s of
          None \<Rightarrow> s \<noteq> []
        | Some x \<Rightarrow> if fo_large fo x then True
                   else case stol_int s of None \<Rightarrow> s \<noteq> [] | Some n \<Rightarrow> if n \<noteq> 0 then True else s \<noteq> []) in
      case attr_type v of
        TEXTS \<Rightarrow> of_str (str_value v)
      | CHARS \<Rightarrow> of_str (str_value v)
      | INTS \<Rightarrow> bytes_i32 (num_value v) \<noteq> 0
      | FLOATS \<Rightarrow> fo_large fo (num_value v)
      | BOOLEANS \<Rightarrow> num_value v ! 0 \<noteq> 0
      | _ \<Rightarrow> False)"

definition get_date :: "Value \<Rightarrow> int" where
  "get_date v = bytes_i32 (num_value v)"

definition set_value :: "FloatOps \<Rightarrow> Value \<Rightarrow> Value \<Rightarrow> Value" where
  "set_value fo w v =
     (case attr_type w of
        INTS \<Rightarrow> set_int (get_int fo w) v
      | FLOATS \<Rightarrow> set_float (get_float fo w) v
      | CHARS \<Rightarrow> set_string (value_to_string fo w @ [0]) 0 v
      | TEXTS \<Rightarrow> set_text (str_value w @ [0]) 0 v
      | BOOLEANS \<Rightarrow> set_boolean (get_boolean fo w) v
      | DATES \<Rightarrow> set_date (get_date w) v
      | NULLS \<Rightarrow> set_null v
      | UNDEFINED \<Rightarrow> v)"

text \<open>
  \<open>type_cast\<close>: whether the conversion is known, and the value. A date is converted to a string by
  reading the string part as a date.
\<close>

definition type_cast :: "FloatOps \<Rightarrow> int \<times> int \<times> int \<Rightarrow> AttrType \<Rightarrow> Value \<Rightarrow> bool \<times> Value" where
  "type_cast fo junk target v =
     (if attr_type v = target then (True, v)
      else
        case target of
          INTS \<Rightarrow>
            if attr_type v = FLOATS then (True, set_int (fo_round fo (num_value v)) v)
            else if attr_type v = CHARS \<or> attr_type v = TEXTS
            then (True, (set_int (case read_int (str_value v) of Some n \<Rightarrow> n | None \<Rightarrow> 0) v)\<lparr>str_value := []\<rparr>)
            else (False, v)
        | FLOATS \<Rightarrow>
            if attr_type v = INTS then (True, set_float (fo_of_int fo (bytes_i32 (num_value v))) v)
            else if attr_type v = CHARS \<or> attr_type v = TEXTS
            then (True, set_float (case fo_read fo (str_value v) of Some x \<Rightarrow> x | None \<Rightarrow> fo_of_int fo 0) v)
            else (False, v)
        | CHARS \<Rightarrow>
            if attr_type v = INTS then (True, set_string (print_int (bytes_i32 (num_value v))) 0 v)
            else if attr_type v = FLOATS then (True, set_string (fo_print fo (num_value v)) 0 v)
            else if attr_type v = DATES
            then let val = convert_string_to_date junk (str_value v) in
                 if val = -1 then (False, v) else (True, set_date val v)
            else (False, v)
        | TEXTS \<Rightarrow> if attr_type v = CHARS then (True, v\<lparr>attr_type := TEXTS\<rparr>) else (False, v)
        | _ \<Rightarrow> (False, v))"


section \<open>Comparison\<close>

text \<open>The pattern that \<open>string_match\<close> builds: \<^verbatim>\<open>%\<close> and \<^verbatim>\<open>_\<close> are translated, every other byte is copied.\<close>

definition like_regex :: "byte list \<Rightarrow> byte list" where
  "like_regex s =
     concat (map (\<lambda>c. if c = 37 then [91, 94, 39, 93, 42] else if c = 95 then [91, 94, 39, 93, 123, 49, 125] else [c]) s)"

definition string_match :: "(byte list \<Rightarrow> byte list \<Rightarrow> bool) \<Rightarrow> byte list \<Rightarrow> byte list \<Rightarrow> int" where
  "string_match regex s1 s2 = (if regex (like_regex s2) (c_str s1) then 0 else -1)"

definition cmp_holds :: "CompOp \<Rightarrow> int \<Rightarrow> bool" where
  "cmp_holds comp_op cmp_result =
     (case comp_op of
        EQUAL_TO \<Rightarrow> 0 = cmp_result
      | LESS_EQUAL \<Rightarrow> cmp_result \<le> 0
      | NOT_EQUAL \<Rightarrow> cmp_result \<noteq> 0
      | LESS_THAN \<Rightarrow> cmp_result < 0
      | GREAT_EQUAL \<Rightarrow> cmp_result \<ge> 0
      | GREAT_THAN \<Rightarrow> cmp_result > 0
      | LIKE \<Rightarrow> cmp_result = 0
      | NOT_LIKE \<Rightarrow> cmp_result \<noteq> 0
      | _ \<Rightarrow> False)"

text \<open>Values of one type, as \<open>compare\<close> and \<open>compare_value\<close> compare them.\<close>

definition same_type_compare :: "FloatOps \<Rightarrow> AttrType \<Rightarrow> Value \<Rightarrow> Value \<Rightarrow> int" where
  "same_type_compare fo t v w =
     (case t of
        INTS \<Rightarrow> compare_int (num_value v) (num_value w)
      | FLOATS \<Rightarrow> compare_float (fo_sub fo) (num_value v) (num_value w)
      | TEXTS \<Rightarrow> compare_string (str_value v) (length (str_value v)) (str_value w) (length (str_value w))
      | CHARS \<Rightarrow> compare_string (str_value v) (length (str_value v)) (str_value w) (length (str_value w))
      | DATES \<Rightarrow> compare_date (num_value v) (num_value w)
      | BOOLEANS \<Rightarrow> compare_int (num_value v) (num_value w)
      | _ \<Rightarrow> 0)"

text \<open>
  \<open>compare\<close>: the answer and the other value, which a comparison of a date with a string turns into a
  date. In the comparison of a number with a string the local variables hide the other value: a fresh
  value, whose number is uninitialised, is compared with this one.
\<close>

definition compare ::
  "FloatOps \<Rightarrow> (byte list \<Rightarrow> byte list \<Rightarrow> bool) \<Rightarrow> byte list \<Rightarrow> int \<times> int \<times> int \<Rightarrow> CompOp \<Rightarrow> Value \<Rightarrow> Value \<Rightarrow> bool \<times> Value" where
  "compare fo regex junk_num junk comp_op v w =
     (if comp_op = IS then (is_null v \<and> is_null w, w)
      else if comp_op = IS_NOT then (attr_type v \<noteq> attr_type w \<and> is_null w, w)
      else if is_null v \<or> is_null w then (False, w)
      else if attr_type v = attr_type w
      then (cmp_holds comp_op
             (if attr_type v \<in> {TEXTS, CHARS} \<and> comp_op \<in> {LIKE, NOT_LIKE}
              then string_match regex (str_value v) (str_value w)
              else same_type_compare fo (attr_type v) v w), w)
      else if attr_type v = INTS \<and> attr_type w = FLOATS
      then (cmp_holds comp_op (compare_float (fo_sub fo) (fo_of_int fo (bytes_i32 (num_value v))) (num_value w)), w)
      else if attr_type v = FLOATS \<and> attr_type w = INTS
      then (cmp_holds comp_op (compare_float (fo_sub fo) (num_value v) (fo_of_int fo (bytes_i32 (num_value w)))), w)
      else if attr_type v = DATES \<and> attr_type w = CHARS
      then let w = set_date (convert_string_to_date junk (value_data w)) w
           in (cmp_holds comp_op (compare_date (num_value v) (num_value w)), w)
      else if (attr_type v = FLOATS \<or> attr_type v = INTS) \<and> attr_type w = CHARS
      then let self = snd (type_cast fo junk FLOATS \<lparr>attr_type = NULLS, v_length = 0, num_value = junk_num, str_value = []\<rparr>);
               oppsite = snd (type_cast fo junk FLOATS v)
           in (cmp_holds comp_op (compare_float (fo_sub fo) (num_value self) (num_value oppsite)), w)
      else if attr_type v = CHARS \<and> (attr_type w = INTS \<or> attr_type w = FLOATS)
      then let self = snd (type_cast fo junk FLOATS v); oppsite = snd (type_cast fo junk FLOATS w)
           in (cmp_holds comp_op (compare_float (fo_sub fo) (num_value self) (num_value oppsite)), w)
      else (False, w))"

definition compare_value :: "FloatOps \<Rightarrow> Value \<Rightarrow> Value \<Rightarrow> CompOp" where
  "compare_value fo left right =
     (if attr_type left \<noteq> attr_type right \<and> \<not> is_null left \<and> \<not> is_null right then NO_OP
      else if attr_type left \<noteq> attr_type right \<and> is_null left then LESS_THAN
      else if attr_type left \<noteq> attr_type right \<and> is_null right then GREAT_THAN
      else if attr_type left = NULLS then EQUAL_TO
      else if attr_type left = UNDEFINED then NO_OP
      else
        let comp_result = same_type_compare fo (attr_type left) left right in
        if comp_result = 0 then EQUAL_TO else if comp_result < 0 then LESS_THAN else GREAT_THAN)"

definition value_eq :: "FloatOps \<Rightarrow> Value \<Rightarrow> Value \<Rightarrow> bool" where
  "value_eq fo v w \<longleftrightarrow> compare_value fo v w = EQUAL_TO"

definition value_ne :: "FloatOps \<Rightarrow> Value \<Rightarrow> Value \<Rightarrow> bool" where
  "value_ne fo v w \<longleftrightarrow> compare_value fo v w = NOT_EQUAL"

definition value_lt :: "FloatOps \<Rightarrow> Value \<Rightarrow> Value \<Rightarrow> bool" where
  "value_lt fo v w \<longleftrightarrow> compare_value fo v w = LESS_THAN"

definition value_le :: "FloatOps \<Rightarrow> Value \<Rightarrow> Value \<Rightarrow> bool" where
  "value_le fo v w \<longleftrightarrow> compare_value fo v w = LESS_EQUAL"

definition value_gt :: "FloatOps \<Rightarrow> Value \<Rightarrow> Value \<Rightarrow> bool" where
  "value_gt fo v w \<longleftrightarrow> compare_value fo v w = GREAT_THAN"

definition value_ge :: "FloatOps \<Rightarrow> Value \<Rightarrow> Value \<Rightarrow> bool" where
  "value_ge fo v w \<longleftrightarrow> compare_value fo v w = GREAT_EQUAL"

definition value_plus :: "FloatOps \<Rightarrow> Value \<Rightarrow> Value \<Rightarrow> Value \<Rightarrow> Value" where
  "value_plus fo fresh v w =
     (if is_null v \<or> is_null w then set_null fresh
      else if attr_type v = INTS \<and> attr_type w = INTS then set_int (get_int fo v + get_int fo w) fresh
      else set_float (fo_add fo (get_float fo v) (get_float fo w)) fresh)"


section \<open>Lemmas\<close>

text \<open>Strings of plain ASCII characters are ordered by \<open>compare_string\<close>.\<close>

definition plain :: "byte list \<Rightarrow> bool" where
  "plain s \<longleftrightarrow> (\<forall>c \<in> set s. 0 < c \<and> c < 128)"

definition chars_rank :: "byte list \<Rightarrow> int list" where
  "chars_rank s = map (\<lambda>c. int (unat c)) s"

definition str_compare :: "byte list \<Rightarrow> byte list \<Rightarrow> int" where
  "str_compare s t = compare_string s (length s) t (length t)"

lemma sint_ascii: "0 < c \<Longrightarrow> c < 128 \<Longrightarrow> 0 < sint (c :: byte)"
proof -
  assume c: "0 < c" "c < 128"
  have u: "uint c < 128" "0 < uint c" using c by (simp_all add: word_less_def)
  have "sint c = uint c" using u by (simp add: sint_uint signed_take_bit_int_eq_self)
  then show ?thesis using u by simp
qed

lemma str_compare_rec:
  "str_compare [] [] = 0"
  "str_compare (a # s) [] = sint a"
  "str_compare [] (b # t) = - sint b"
  "a \<noteq> b \<Longrightarrow> str_compare (a # s) (b # t) = uint a - uint b"
  "a \<noteq> 0 \<Longrightarrow> str_compare (a # s) (a # t) = str_compare s t"
proof -
  show "str_compare (a # s) (b # t) = uint a - uint b" if "a \<noteq> b"
  proof -
    have "uint a - uint b \<noteq> 0" using that by (simp add: word_uint_eq_iff)
    then show ?thesis using that by (simp add: str_compare_def compare_string_def Let_def)
  qed
qed (simp_all add: str_compare_def compare_string_def char_at_def Let_def)

lemma str_compare_rank:
  "plain s \<Longrightarrow> plain t \<Longrightarrow>
     (str_compare s t < 0 \<longleftrightarrow> chars_rank s < chars_rank t) \<and> (str_compare s t = 0 \<longleftrightarrow> chars_rank s = chars_rank t)"
proof (induction s t rule: list_induct2')
  case 1
  then show ?case by (simp add: str_compare_rec chars_rank_def)
next
  case (2 a s)
  then show ?case using sint_ascii [of a] by (simp add: str_compare_rec chars_rank_def plain_def)
next
  case (3 b t)
  then show ?case using sint_ascii [of b] by (simp add: str_compare_rec chars_rank_def plain_def)
next
  case (4 a s b t)
  show ?case
  proof (cases "a = b")
    case True
    moreover have "b \<noteq> 0" using 4(3) by (auto simp: plain_def)
    ultimately show ?thesis using 4 by (simp add: str_compare_rec(5) chars_rank_def plain_def)
  next
    case False
    then have "uint a \<noteq> uint b" by (simp add: word_uint_eq_iff)
    then show ?thesis using False by (auto simp: str_compare_rec chars_rank_def)
  qed
qed

text \<open>Reading a number that was printed.\<close>

lemma digit_byte: "n < 10 \<Longrightarrow> isdigit (48 + of_nat n) \<and> uint (48 + of_nat n :: byte) = 48 + int n"
proof -
  assume "n < 10"
  then have "n = 0 \<or> n = 1 \<or> n = 2 \<or> n = 3 \<or> n = 4 \<or> n = 5 \<or> n = 6 \<or> n = 7 \<or> n = 8 \<or> n = 9" by arith
  then show ?thesis by (elim disjE) (simp_all add: isdigit_def)
qed

lemma print_nat_digits: "(\<forall>c \<in> set (print_nat n). isdigit c) \<and> print_nat n \<noteq> [] \<and> digits_val (print_nat n) = int n"
proof (induction n rule: print_nat.induct)
  case (1 n)
  show ?case
  proof (cases "n < 10")
    case True
    then show ?thesis using digit_byte [OF True] by (simp add: print_nat.simps [of n] digits_val_def)
  next
    case False
    have m: "n mod 10 < 10" by simp
    have "int n = 10 * int (n div 10) + int (n mod 10)" by presburger
    moreover have "digits_val (print_nat n) = 10 * int (n div 10) + int (n mod 10)"
      using 1 [OF False] False digit_byte [OF m] by (simp add: print_nat.simps [of n] digits_val_def)
    ultimately have "digits_val (print_nat n) = int n" by simp
    moreover have "(\<forall>c \<in> set (print_nat n). isdigit c) \<and> print_nat n \<noteq> []"
      using 1 [OF False] False digit_byte [OF m] by (simp add: print_nat.simps [of n])
    ultimately show ?thesis by simp
  qed
qed

lemma takeWhile_digits:
  "\<forall>c \<in> set ds. isdigit c \<Longrightarrow> rest = [] \<or> \<not> isdigit (hd rest) \<Longrightarrow> takeWhile isdigit (ds @ rest) = ds"
  by (cases rest) (simp_all add: takeWhile_append)

lemma scan_int_digits:
  assumes "\<forall>c \<in> set ds. isdigit c" "ds \<noteq> []" "rest = [] \<or> \<not> isdigit (hd rest)"
  shows "scan_int (ds @ rest) = Some (digits_val ds, rest)"
proof -
  obtain c ds' where ds: "ds = c # ds'" using assms(2) by (cases ds) auto
  have c: "\<not> isspace c" "c \<noteq> 45" "c \<noteq> 43" using assms(1) by (auto simp: ds isspace_def isdigit_def word_le_def)
  have sp: "dropWhile isspace (ds @ rest) = ds @ rest" using c by (simp add: ds)
  have "scan_int (ds @ rest) = (let ds' = takeWhile isdigit (ds @ rest) in
      if ds' = [] then None else Some (digits_val ds', drop (length ds') (ds @ rest)))"
    unfolding scan_int_def sp Let_def using c by (simp add: ds)
  moreover have "takeWhile isdigit (ds @ rest) = ds" by (rule takeWhile_digits) (use assms in auto)
  ultimately show ?thesis using assms(2) by (simp only: Let_def) simp
qed

lemma digits_val_zeros: "digits_val (replicate k 48 @ ds) = digits_val ds"
  by (induction k) (simp_all add: digits_val_def)

lemma setw2_digits:
  "(\<forall>c \<in> set (setw2 (print_nat n)). isdigit c) \<and> setw2 (print_nat n) \<noteq> [] \<and> digits_val (setw2 (print_nat n)) = int n"
  using print_nat_digits [of n] by (auto simp: setw2_def digits_val_zeros isdigit_def)

lemma wrap_i32_id: "i32_range v \<Longrightarrow> wrap_i32 v = v"
  by (simp add: wrap_i32_def i32_range_def)

lemma wrap_i32_add: "wrap_i32 (wrap_i32 a + b) = wrap_i32 (a + b)"
  unfolding wrap_i32_def by (simp add: mod_simps) (simp add: ac_simps)

lemma wrap_i32_bounds: "- 2147483648 \<le> wrap_i32 v" "wrap_i32 v \<le> 2147483647"
  by (simp_all add: wrap_i32_def)

text \<open>A sum of two non-negative ints that is not negative after the wrap did not wrap.\<close>

lemma wrap_i32_unsigned:
  assumes "0 \<le> v" "v < 4294967296"
  shows "wrap_i32 v = (if v < 2147483648 then v else v - 4294967296)"
proof (cases "v < 2147483648")
  case True
  then show ?thesis using assms by (simp add: wrap_i32_def)
next
  case False
  have "(v + 2147483648) mod 4294967296 = (v - 2147483648 + 4294967296) mod 4294967296" by (simp add: add.commute)
  also have "\<dots> = v - 2147483648" unfolding mod_add_self2 using assms False by (intro mod_pos_pos_trivial) linarith+
  finally show ?thesis using False by (simp add: wrap_i32_def)
qed

lemma wrap_i32_nonneg: "0 \<le> v \<Longrightarrow> v < 4294967296 \<Longrightarrow> 0 \<le> wrap_i32 v \<Longrightarrow> wrap_i32 v = v \<and> v < 2147483648"
  by (simp add: wrap_i32_unsigned split: if_splits)

lemma i32_small: "0 \<le> v \<Longrightarrow> v < 1000000 \<Longrightarrow> wrap_i32 (clamp_i64 v) = v"
  by (simp add: wrap_i32_def clamp_i64_def)

lemma sscanf_printed:
  assumes "n < 10000" "k < 100" "j < 100"
  shows "sscanf_date junk (print_nat n @ [45] @ setw2 (print_nat k) @ [45] @ setw2 (print_nat j)) = (int n, int k, int j)"
proof -
  have y: "scan_int (print_nat n @ [45] @ r) = Some (int n, [45] @ r)" for r
    using scan_int_digits [of "print_nat n" "[45] @ r"] print_nat_digits [of n] by (simp add: isdigit_def word_le_def)
  have m: "scan_int (setw2 (print_nat k) @ [45] @ r) = Some (int k, [45] @ r)" for r
    using scan_int_digits [of "setw2 (print_nat k)" "[45] @ r"] setw2_digits [of k] by (simp add: isdigit_def word_le_def)
  have d: "scan_int (setw2 (print_nat j)) = Some (int j, [])"
    using scan_int_digits [of "setw2 (print_nat j)" "[]"] setw2_digits [of j] by simp
  obtain a b c where junk: "junk = (a, b, c)" by (cases junk)
  show ?thesis unfolding sscanf_date_def junk using y m d assms by (simp add: i32_small Let_def)
qed

lemma c_str_digits: "\<forall>c \<in> set s. isdigit c \<or> c = 45 \<Longrightarrow> c_str s = s"
  unfolding c_str_def by (rule takeWhile_eq_all_conv [THEN iffD2]) (auto simp: isdigit_def)


section \<open>Properties\<close>

text \<open>The values of a column of type \<open>t\<close>, and their order: null first, then by number or by characters.\<close>

definition column_value :: "AttrType \<Rightarrow> Value \<Rightarrow> bool" where
  "column_value t v \<longleftrightarrow> attr_type v = NULLS \<or> attr_type v = t \<and> (t \<in> {CHARS, TEXTS} \<longrightarrow> plain (str_value v))"

definition value_rank :: "Value \<Rightarrow> nat \<times> int \<times> int list" where
  "value_rank v =
     (if attr_type v = NULLS then (0, 0, [])
      else if attr_type v \<in> {CHARS, TEXTS} then (1, 0, chars_rank (str_value v))
      else (1, bytes_i32 (num_value v), []))"

text \<open>
  Within a column of integers, dates or plain ASCII strings \<open>compare_value\<close> is a linear order with null as
  its least element: it answers less, equal or greater exactly as a fixed rank of the values does.
\<close>

lemma compare_value_rank:
  assumes "t \<in> {INTS, DATES, CHARS, TEXTS}" "column_value t v" "column_value t w"
  shows "compare_value fo v w =
    (if value_rank v < value_rank w then LESS_THAN else if value_rank v = value_rank w then EQUAL_TO else GREAT_THAN)"
proof (cases "attr_type v = NULLS \<or> attr_type w = NULLS")
  case True
  have n: "attr_type v = NULLS \<or> attr_type v = t" "attr_type w = NULLS \<or> attr_type w = t" "t \<noteq> NULLS"
    using assms by (auto simp: column_value_def)
  have "value_rank x = (0, 0, [])" if "attr_type x = NULLS" for x using that by (simp add: value_rank_def)
  moreover have "(0, 0, []) < value_rank x \<and> value_rank x \<noteq> (0, 0, []) \<and> \<not> value_rank x < (0, 0, [])" if "attr_type x = t" for x
    using that n(3) by (simp add: value_rank_def)
  ultimately show ?thesis using True n
    by (cases "attr_type v = NULLS"; cases "attr_type w = NULLS") (auto simp: compare_value_def is_null_def)
next
  case False
  then have t: "attr_type v = t" "attr_type w = t" using assms by (auto simp: column_value_def)
  have "(same_type_compare fo t v w < 0 \<longleftrightarrow> value_rank v < value_rank w) \<and> (same_type_compare fo t v w = 0 \<longleftrightarrow> value_rank v = value_rank w)"
  proof (cases "t \<in> {CHARS, TEXTS}")
    case True
    then have "plain (str_value v)" "plain (str_value w)" using assms False by (auto simp: column_value_def)
    from str_compare_rank [OF this] show ?thesis using True t by (auto simp: same_type_compare_def value_rank_def str_compare_def)
  next
    case False
    then show ?thesis using assms(1) t by (auto simp: same_type_compare_def value_rank_def compare_int_def compare_date_def Let_def split: if_splits)
  qed
  moreover have "compare_value fo v w =
      (if same_type_compare fo t v w = 0 then EQUAL_TO else if same_type_compare fo t v w < 0 then LESS_THAN else GREAT_THAN)"
    unfolding compare_value_def is_null_def Let_def t using assms(1) by (elim insertE) simp_all
  ultimately show ?thesis by (simp split del: if_split) presburger
qed

definition no_floats :: FloatOps where
  "no_floats = \<lparr>fo_sub = \<lambda>_ _. 0, fo_of_int = \<lambda>_. [0, 0, 0, 0], fo_to_int = \<lambda>_. 0, fo_round = \<lambda>_. 0, fo_add = \<lambda>a _. a,
     fo_large = \<lambda>_. False, fo_stof = \<lambda>_. None, fo_read = \<lambda>_. None, fo_print = \<lambda>_. [48], fo_print2 = \<lambda>_. [48]\<rparr>"

definition fresh_value :: Value where
  "fresh_value = \<lparr>attr_type = NULLS, v_length = 0, num_value = [0, 0, 0, 0], str_value = []\<rparr>"

text \<open>
  Strings with bytes above 127 are not ordered: the string \<open>a\<close> is less than \<open>a\<close> followed by a
  control character, which is less than \<open>a\<close> followed by a non-ASCII character, which is less than \<open>a\<close>.
\<close>

lemma string_order_cycle:
  "value_lt fo (set_string [97] 0 v) (set_string [97, 1] 0 v) \<and>
   value_lt fo (set_string [97, 1] 0 v) (set_string [97, 0xE4, 0xB8, 0xAD] 0 v) \<and>
   value_lt fo (set_string [97, 0xE4, 0xB8, 0xAD] 0 v) (set_string [97] 0 v)"
  by (simp add: value_lt_def compare_value_def set_string_def assign_str_def c_str_def is_null_def same_type_compare_def
      compare_string_def char_at_def)

text \<open>
  every date the code accepts is printed as a string that is read back as the same date.
\<close>

lemma date_roundtrip:
  assumes "check_date year month day"
  shows "convert_string_to_date junk (date_to_string (year * 10000 + month * 100 + day)) = year * 10000 + month * 100 + day"
proof -
  have r: "0 \<le> year" "year < 4000" "1 \<le> month" "month \<le> 12" "0 \<le> day" "day \<le> 31"
    using assms by (auto simp: check_date_def split: if_splits)
  let ?d = "year * 10000 + month * 100 + day"
  have parts: "?d sdiv 10000 = year" "(?d sdiv 100) smod 100 = month" "?d smod 100 = day"
  proof -
    have q: "?d div 10000 = year" "?d div 100 = year * 100 + month" "?d mod 100 = day"
      using r int_div_pos_eq [of ?d 10000 year "month * 100 + day"] int_div_pos_eq [of ?d 100 "year * 100 + month" day]
        int_mod_pos_eq [of ?d 100 "year * 100 + month" day] by simp_all
    have q2: "(year * 100 + month) mod 100 = month" using r int_mod_pos_eq [of "year * 100 + month" 100 year month] by simp
    show "?d sdiv 10000 = year" "(?d sdiv 100) smod 100 = month" "?d smod 100 = day"
      using r q q2 by (simp_all add: signed_divide_int_def signed_modulo_int_def sgn_if)
  qed
  let ?s = "print_nat (nat year) @ [45] @ setw2 (print_nat (nat month)) @ [45] @ setw2 (print_nat (nat day))"
  have s: "date_to_string ?d = ?s" unfolding date_to_string_def parts using r by (simp add: print_int_def)
  have c: "c_str ?s = ?s"
    by (rule c_str_digits) (use print_nat_digits [of "nat year"] setw2_digits [of "nat month"] setw2_digits [of "nat day"] in auto)
  have "sscanf_date junk ?s = (int (nat year), int (nat month), int (nat day))"
    by (rule sscanf_printed) (use r in auto)
  then show ?thesis unfolding s convert_string_to_date_def c using r assms by simp
qed

lemma date_roundtrip_witness:
  "convert_string_to_date (0, 0, 0) (date_to_string 20240229) = 20240229"
  using date_roundtrip [of 2024 2 29 "(0, 0, 0)"] by (simp add: check_date_def m_days_def)

text \<open>
  The answer of a comparison of a number with a string does not depend on the string.
\<close>

lemma number_string_compare_blind:
  assumes "attr_type v \<in> {INTS, FLOATS}" "attr_type w = CHARS" "attr_type w' = CHARS"
  shows "fst (compare fo regex junk_num junk comp_op v w) = fst (compare fo regex junk_num junk comp_op v w')"
  using assms by (auto simp: compare_def is_null_def Let_def)

lemma number_string_compare_blind_witness:
  "fst (compare no_floats (\<lambda>_ _. False) [0, 0, 0, 0] (0, 0, 0) EQUAL_TO (set_int 5 fresh_value) (set_string [53] 0 fresh_value)) =
   fst (compare no_floats (\<lambda>_ _. False) [0, 0, 0, 0] (0, 0, 0) EQUAL_TO (set_int 5 fresh_value) (set_string [54] 0 fresh_value))"
  by (rule number_string_compare_blind) (simp_all add: set_int_def set_string_def)

text \<open>
  The operators \<^verbatim>\<open>!=\<close>, \<^verbatim>\<open><=\<close> and \<^verbatim>\<open>>=\<close> of values are false for all values, since \<open>compare_value\<close> never gives
  the answers they test for.
\<close>

lemma value_operators_never:
  "\<not> value_ne fo v w \<and> \<not> value_le fo v w \<and> \<not> value_ge fo v w"
  by (simp add: value_ne_def value_le_def value_ge_def compare_value_def Let_def)

end
