(* ===== verification/RecordLayout.thy ===== *)
theory RecordLayout
  imports Value Bitmap
begin

text \<open>
  The layout of the records of a table: \<^verbatim>\<open>storage/field/field_meta.cpp\<close>, \<^verbatim>\<open>storage/field/field.cpp\<close>,
  \<^verbatim>\<open>storage/table/table_meta.cpp\<close>, \<open>make_record\<close> and \<open>is_null\<close> of \<^verbatim>\<open>storage/table/table.cpp\<close>, and \<open>cell_at\<close> of
  \<open>RowTuple\<close> in \<^verbatim>\<open>sql/expr/tuple.h\<close>.

  A record starts with the fields of the transaction manager, followed by a bitmap of the fields that
  are null and the fields of the table. The global \<^verbatim>\<open>TrxKit::instance()->trx_fields()\<close> is the argument
  \<open>trx\<close>, \<open>None\<close> for the null pointer that the vacuous kit returns. The bytes of a record are a list; the
  memory \<open>make_record\<close> allocates has the unspecified content \<open>junk\<close>. The JSON form of the schema is left out.
\<close>

section \<open>Fields\<close>

definition is_blank :: "string \<Rightarrow> bool" where
  "is_blank s \<longleftrightarrow> (\<forall>c \<in> set s. of_char c = (32 :: nat) \<or> 9 \<le> (of_char c :: nat) \<and> (of_char c :: nat) \<le> 13)"

record FieldMeta =
  fm_name :: string
  fm_type :: AttrType
  fm_nullable :: bool
  fm_offset :: int
  fm_len :: int
  fm_visible :: bool

definition FieldMeta_init :: "string \<Rightarrow> AttrType \<Rightarrow> bool \<Rightarrow> int \<Rightarrow> int \<Rightarrow> bool \<Rightarrow> RC + FieldMeta" where
  "FieldMeta_init name ty nullable attr_offset attr_len visible =
     (if is_blank name then Inl INVALID_ARGUMENT
      else if ty = UNDEFINED \<or> attr_offset < 0 \<or> attr_len \<le> 0 then Inl INVALID_ARGUMENT
      else Inr \<lparr>fm_name = name, fm_type = ty, fm_nullable = nullable, fm_offset = attr_offset, fm_len = attr_len,
                fm_visible = visible\<rparr>)"

text \<open>The fields of the multi-version transaction manager.\<close>

definition mvcc_fields :: "FieldMeta list" where
  "mvcc_fields =
     [\<lparr>fm_name = ''__trx_xid_begin'', fm_type = INTS, fm_nullable = False, fm_offset = 0, fm_len = 4, fm_visible = False\<rparr>,
      \<lparr>fm_name = ''__trx_xid_end'', fm_type = INTS, fm_nullable = False, fm_offset = 0, fm_len = 4, fm_visible = False\<rparr>]"

record AttrInfo =
  ai_type :: AttrType
  ai_name :: string
  ai_length :: int
  ai_nullable :: bool


section \<open>The schema of a table\<close>

record TableMeta =
  tm_table_id :: int
  tm_name :: string
  tm_fields :: "FieldMeta list"
  tm_record_size :: int

text \<open>
  The loops of \<open>init\<close>: the fields from an offset on. The length of an attribute is a \<^verbatim>\<open>size_t\<close>, which the parameter
  \<open>attr_len\<close> of a field takes as an \<^verbatim>\<open>int\<close>; the running offset is an \<^verbatim>\<open>int\<close>, so that adding a length to it
  wraps around at 32 bits. The transaction fields are a fixed list of eight bytes and cannot overflow.
\<close>

fun place_trx_fields :: "int \<Rightarrow> FieldMeta list \<Rightarrow> FieldMeta list" where
  "place_trx_fields off [] = []"
| "place_trx_fields off (f # fs) =
     f\<lparr>fm_offset := off, fm_visible := False\<rparr> # place_trx_fields (off + fm_len f) fs"

fun init_fields :: "int \<Rightarrow> AttrInfo list \<Rightarrow> RC + (FieldMeta list \<times> int)" where
  "init_fields off [] = Inr ([], off)"
| "init_fields off (a # attrs) =
     (case FieldMeta_init (ai_name a) (ai_type a) (ai_nullable a) off (wrap_i32 (ai_length a)) True of
        Inl rc \<Rightarrow> Inl rc
      | Inr f \<Rightarrow>
          (case init_fields (wrap_i32 (off + ai_length a)) attrs of
             Inl rc \<Rightarrow> Inl rc
           | Inr (fs, end_off) \<Rightarrow> Inr (f # fs, end_off)))"

definition null_field_len :: "int \<Rightarrow> int \<Rightarrow> int" where
  "null_field_len trx_field_num field_num = (trx_field_num + 1 + field_num) div 8 + 1"

definition TableMeta_init :: "FieldMeta list option \<Rightarrow> int \<Rightarrow> string \<Rightarrow> AttrInfo list \<Rightarrow> RC + TableMeta" where
  "TableMeta_init trx table_id name attributes =
     (if is_blank name then Inl INVALID_ARGUMENT
      else if attributes = [] then Inl INVALID_ARGUMENT
      else
        let trx_fields = (case trx of None \<Rightarrow> [] | Some fs \<Rightarrow> fs);
            field_offset = sum_list (map fm_len trx_fields);
            len = null_field_len (int (length trx_fields)) (int (length attributes));
            null_field = \<lparr>fm_name = ''__null'', fm_type = CHARS, fm_nullable = False, fm_offset = field_offset, fm_len = len,
              fm_visible = False\<rparr> in
        case init_fields (wrap_i32 (field_offset + len)) attributes of
          Inl rc \<Rightarrow> Inl rc
        | Inr (fs, end_off) \<Rightarrow>
            Inr \<lparr>tm_table_id = table_id, tm_name = name, tm_fields = place_trx_fields 0 trx_fields @ null_field # fs,
                 tm_record_size = end_off\<rparr>)"

definition sys_field_num :: "FieldMeta list option \<Rightarrow> nat" where
  "sys_field_num trx = (case trx of None \<Rightarrow> 0 | Some fs \<Rightarrow> length fs) + 1"

definition null_field :: "FieldMeta list option \<Rightarrow> TableMeta \<Rightarrow> FieldMeta" where
  "null_field trx tm = tm_fields tm ! (sys_field_num trx - 1)"

definition find_field :: "TableMeta \<Rightarrow> string \<Rightarrow> FieldMeta option" where
  "find_field tm name = find (\<lambda>f. fm_name f = name) (tm_fields tm)"

fun offset_index :: "int \<Rightarrow> FieldMeta list \<Rightarrow> int" where
  "offset_index off [] = -1"
| "offset_index off (f # fs) = (if off = fm_offset f then 0 else let i = offset_index off fs in if i = -1 then -1 else i + 1)"

definition field_index :: "TableMeta \<Rightarrow> FieldMeta \<Rightarrow> int" where
  "field_index tm field_meta = offset_index (fm_offset field_meta) (tm_fields tm)"

definition find_field_by_offset :: "TableMeta \<Rightarrow> int \<Rightarrow> FieldMeta option" where
  "find_field_by_offset tm off = find (\<lambda>f. fm_offset f = off) (tm_fields tm)"

definition bitmap_of_null_field :: "FieldMeta list option \<Rightarrow> TableMeta \<Rightarrow> Bitmap" where
  "bitmap_of_null_field trx tm = \<lparr>bm_base = nat (fm_offset (null_field trx tm)), bm_size = length (tm_fields tm)\<rparr>"


section \<open>Records\<close>

definition bytes_mem :: "byte list \<Rightarrow> mem" where
  "bytes_mem bs = (\<lambda>i. if i < length bs then bs ! i else 0)"

definition field_set_int :: "FieldMeta \<Rightarrow> int \<Rightarrow> byte list \<Rightarrow> byte list" where
  "field_set_int f val rec = read_bytes (store_i32 (bytes_mem rec) (nat (fm_offset f)) val) 0 (length rec)"

definition field_get_int :: "FieldMeta \<Rightarrow> byte list \<Rightarrow> int" where
  "field_get_int f rec = load_i32 (bytes_mem rec) (nat (fm_offset f))"

text \<open>\<open>is_null\<close>: a field that is not of the table is reported and not null.\<close>

definition Table_is_null :: "FieldMeta list option \<Rightarrow> TableMeta \<Rightarrow> FieldMeta \<Rightarrow> byte list \<Rightarrow> bool" where
  "Table_is_null trx tm field_meta rec =
     (let i = field_index tm field_meta in
      if i = -1 then False else Bitmap_get_bit (bytes_mem rec) (bitmap_of_null_field trx tm) (nat i))"

text \<open>The two loops of \<open>make_record\<close>: the values cast to the types of their fields, and the bytes.\<close>

fun check_values :: "FloatOps \<Rightarrow> int \<times> int \<times> int \<Rightarrow> FieldMeta list \<Rightarrow> Value list \<Rightarrow> RC + Value list" where
  "check_values fo junk (f # fs) (v # vs) =
     (let rest = (\<lambda>v. case check_values fo junk fs vs of Inl rc \<Rightarrow> Inl rc | Inr vs \<Rightarrow> Inr (v # vs)) in
      if is_null v then (if \<not> fm_nullable f then Inl SCHEMA_FIELD_NOT_NULLABLE else rest v)
      else if fm_type f \<noteq> attr_type v
      then let (ok, v) = type_cast fo junk (fm_type f) v in if ok then rest v else Inl SCHEMA_FIELD_TYPE_MISMATCH
      else rest v)"
| "check_values fo junk _ _ = Inr []"

definition copy_len :: "FieldMeta \<Rightarrow> Value \<Rightarrow> nat" where
  "copy_len f v =
     (if (fm_type f = CHARS \<or> fm_type f = TEXTS) \<and> fm_len f > v_length v then nat (v_length v + 1) else nat (fm_len f))"

fun copy_values :: "Bitmap \<Rightarrow> nat \<Rightarrow> mem \<Rightarrow> FieldMeta list \<Rightarrow> Value list \<Rightarrow> mem" where
  "copy_values nulls i m (f # fs) (v # vs) =
     (if is_null v then copy_values nulls (Suc i) (Bitmap_set_bit m nulls i) fs vs
      else
        let m = Bitmap_clear_bit m nulls i;
            m = write_bytes m (nat (fm_offset f)) (take (copy_len f v) (value_data v)) in
        copy_values nulls (Suc i) m fs vs)"
| "copy_values nulls i m _ _ = m"

definition make_record ::
  "FloatOps \<Rightarrow> int \<times> int \<times> int \<Rightarrow> mem \<Rightarrow> FieldMeta list option \<Rightarrow> TableMeta \<Rightarrow> Value list \<Rightarrow> RC + byte list" where
  "make_record fo junk mem trx tm values =
     (let start = sys_field_num trx in
      if length values + start \<noteq> length (tm_fields tm) then Inl SCHEMA_FIELD_MISSING
      else
        case check_values fo junk (drop start (tm_fields tm)) values of
          Inl rc \<Rightarrow> Inl rc
        | Inr values \<Rightarrow>
            Inr (read_bytes (copy_values (bitmap_of_null_field trx tm) start mem (drop start (tm_fields tm)) values)
                   0 (nat (tm_record_size tm))))"

text \<open>\<open>cell_at\<close> of a tuple over all fields of a table.\<close>

definition cell_at :: "FieldMeta list option \<Rightarrow> TableMeta \<Rightarrow> byte list \<Rightarrow> int \<Rightarrow> Value \<Rightarrow> RC \<times> Value" where
  "cell_at trx tm rec index cell =
     (if index < 0 \<or> index \<ge> int (length (tm_fields tm)) then (INVALID_ARGUMENT, cell)
      else
        let f = tm_fields tm ! nat index in
        if Table_is_null trx tm f rec then (SUCCESS, set_type NULLS cell)
        else (SUCCESS, value_set_data (drop (nat (fm_offset f)) rec) (fm_len f) (set_type (fm_type f) cell)))"


section \<open>The layout\<close>

text \<open>Fields one behind the other, from an offset on.\<close>

fun consecutive :: "int \<Rightarrow> FieldMeta list \<Rightarrow> bool" where
  "consecutive off [] \<longleftrightarrow> True"
| "consecutive off (f # fs) \<longleftrightarrow> fm_offset f = off \<and> fm_len f > 0 \<and> consecutive (off + fm_len f) fs"

lemma consecutive_append:
  "consecutive off (fs @ gs) \<longleftrightarrow> consecutive off fs \<and> consecutive (off + sum_list (map fm_len fs)) gs"
  by (induction fs arbitrary: off) (simp_all add: add.assoc)

lemma place_trx_fields_lens [simp]:
  "map fm_len (place_trx_fields off fs) = map fm_len fs" "length (place_trx_fields off fs) = length fs"
  by (induction fs arbitrary: off) simp_all

lemma place_trx_fields_consecutive: "\<forall>f \<in> set fs. fm_len f > 0 \<Longrightarrow> consecutive off (place_trx_fields off fs)"
  by (induction fs arbitrary: off) simp_all

text \<open>
  A field is refused when its offset is negative, and one field moves the offset by less than \<open>2\<^sup>3\<^sup>1\<close>. So only the offset
  behind the last field, which becomes the record size, can have wrapped.
\<close>

lemma init_fields_cons:
  assumes "init_fields off (a # attrs) = Inr (fs, end_off)"
  obtains f gs where "fs = f # gs" "fm_offset f = off" "0 \<le> off" "0 < fm_len f" "fm_len f = wrap_i32 (ai_length a)"
    "fm_type f = ai_type a" "fm_nullable f = ai_nullable a" "init_fields (wrap_i32 (off + fm_len f)) attrs = Inr (gs, end_off)"
proof -
  have "wrap_i32 (off + wrap_i32 (ai_length a)) = wrap_i32 (off + ai_length a)"
    using wrap_i32_add [of "ai_length a" off] by (simp add: add.commute)
  then show thesis using assms that by (auto simp: FieldMeta_init_def split: sum.splits if_splits)
qed

lemma init_fields_consecutive:
  assumes "init_fields off attrs = Inr (fs, end_off)" "i32_range off"
  shows "consecutive off fs \<and> end_off = wrap_i32 (off + sum_list (map fm_len fs)) \<and> off + sum_list (map fm_len fs) < 4294967296 \<and>
     map (\<lambda>f. (fm_type f, fm_len f, fm_nullable f)) fs = map (\<lambda>a. (ai_type a, wrap_i32 (ai_length a), ai_nullable a)) attrs"
  using assms
proof (induction attrs arbitrary: off fs)
  case Nil
  then show ?case by (simp add: wrap_i32_id i32_range_def)
next
  case (Cons a attrs)
  from Cons.prems(1) obtain f gs where f: "fs = f # gs" "fm_offset f = off" "0 \<le> off" "0 < fm_len f" "fm_len f = wrap_i32 (ai_length a)"
    "fm_type f = ai_type a" "fm_nullable f = ai_nullable a" "init_fields (wrap_i32 (off + fm_len f)) attrs = Inr (gs, end_off)"
    by (rule init_fields_cons)
  have IH: "consecutive (wrap_i32 (off + fm_len f)) gs \<and> end_off = wrap_i32 (wrap_i32 (off + fm_len f) + sum_list (map fm_len gs)) \<and>
     wrap_i32 (off + fm_len f) + sum_list (map fm_len gs) < 4294967296 \<and>
     map (\<lambda>f. (fm_type f, fm_len f, fm_nullable f)) gs = map (\<lambda>a. (ai_type a, wrap_i32 (ai_length a), ai_nullable a)) attrs"
    using wrap_i32_bounds [of "off + fm_len f"] by (intro Cons.IH [OF f(8)]) (simp add: i32_range_def)
  have room: "off + fm_len f < 4294967296"
    using Cons.prems(2) wrap_i32_bounds(2) [of "ai_length a"] f(5) by (simp add: i32_range_def)
  show ?case
  proof (cases attrs)
    case Nil
    then have "gs = []" using IH by simp
    then show ?thesis using f IH room by (simp add: wrap_i32_add)
  next
    case (Cons b bs)
    then have "0 \<le> wrap_i32 (off + fm_len f)" using f(8) init_fields_cons by metis
    then have "wrap_i32 (off + fm_len f) = off + fm_len f" using wrap_i32_nonneg [of "off + fm_len f"] room f(3,4) by simp
    then show ?thesis using f IH by (simp add: add.assoc)
  qed
qed

lemma consecutive_sum: "consecutive off fs \<Longrightarrow> 0 \<le> sum_list (map fm_len fs)"
  by (induction fs arbitrary: off) fastforce+

lemma consecutive_before:
  assumes "consecutive off fs" "f \<in> set fs"
  shows "off \<le> fm_offset f \<and> fm_len f > 0 \<and> fm_offset f + fm_len f \<le> off + sum_list (map fm_len fs)"
  using assms
proof (induction fs arbitrary: off)
  case (Cons g gs)
  have "0 \<le> sum_list (map fm_len gs)" using Cons.prems(1) consecutive_sum by fastforce
  then show ?case using Cons by (fastforce simp: algebra_simps)
qed simp

lemma consecutive_disjoint:
  assumes "consecutive off fs" "i < j" "j < length fs"
  shows "fm_offset (fs ! i) + fm_len (fs ! i) \<le> fm_offset (fs ! j)"
  using assms
proof (induction fs arbitrary: off i j)
  case (Cons f fs)
  show ?case
  proof (cases i)
    case 0
    then have "fs ! (j - 1) \<in> set fs" using Cons.prems by simp
    then show ?thesis using consecutive_before [of "off + fm_len f" fs "fs ! (j - 1)"] Cons.prems 0 by (cases j) simp_all
  next
    case (Suc i')
    then show ?thesis using Cons.IH [of "off + fm_len f" i' "j - 1"] Cons.prems by (cases j) simp_all
  qed
qed simp

lemma offset_index_consecutive:
  "consecutive off fs \<Longrightarrow> i < length fs \<Longrightarrow> offset_index (fm_offset (fs ! i)) fs = int i"
proof (induction fs arbitrary: off i)
  case (Cons f fs)
  show ?case
  proof (cases i)
    case (Suc i')
    have "fm_offset f < fm_offset ((f # fs) ! i)"
      using consecutive_disjoint [OF Cons.prems(1), of 0 i] Cons.prems Suc by simp
    then show ?thesis using Cons.IH [of "off + fm_len f" i'] Cons.prems Suc by (simp add: Let_def)
  qed simp
qed simp

text \<open>The fields of a new table, and the layout of one whose record size is right.\<close>

definition fields_ok :: "FieldMeta list option \<Rightarrow> TableMeta \<Rightarrow> bool" where
  "fields_ok trx tm \<longleftrightarrow> consecutive 0 (tm_fields tm) \<and>
     sys_field_num trx < length (tm_fields tm) \<and> int (length (tm_fields tm)) \<le> 8 * fm_len (null_field trx tm)"

definition layout_ok :: "FieldMeta list option \<Rightarrow> TableMeta \<Rightarrow> bool" where
  "layout_ok trx tm \<longleftrightarrow> consecutive 0 (tm_fields tm) \<and> tm_record_size tm = sum_list (map fm_len (tm_fields tm)) \<and>
     sys_field_num trx < length (tm_fields tm) \<and> int (length (tm_fields tm)) \<le> 8 * fm_len (null_field trx tm)"

lemma fields_ok_layout: "layout_ok trx tm \<longleftrightarrow> fields_ok trx tm \<and> tm_record_size tm = sum_list (map fm_len (tm_fields tm))"
  by (auto simp: layout_ok_def fields_ok_def)

definition trx_fields_ok :: "FieldMeta list option \<Rightarrow> bool" where
  "trx_fields_ok trx \<longleftrightarrow> (case trx of None \<Rightarrow> True | Some fs \<Rightarrow> (\<forall>f \<in> set fs. fm_len f > 0) \<and> sum_list (map fm_len fs) < 2147483648)"

lemma fields_bytes: "consecutive off fs \<Longrightarrow> int (length fs) \<le> sum_list (map fm_len fs)"
  by (induction fs arbitrary: off) fastforce+

lemma TableMeta_init_fields:
  assumes "trx_fields_ok trx" "TableMeta_init trx table_id name attrs = Inr tm"
  shows "fields_ok trx tm"
    and "map (\<lambda>f. (fm_type f, fm_len f, fm_nullable f)) (drop (sys_field_num trx) (tm_fields tm)) =
      map (\<lambda>a. (ai_type a, wrap_i32 (ai_length a), ai_nullable a)) attrs"
    and "tm_record_size tm = wrap_i32 (sum_list (map fm_len (tm_fields tm)))" "sum_list (map fm_len (tm_fields tm)) < 4294967296"
proof -
  define tfs where "tfs = (case trx of None \<Rightarrow> [] | Some fs \<Rightarrow> fs)"
  define base where "base = sum_list (map fm_len tfs)"
  define len where "len = null_field_len (int (length tfs)) (int (length attrs))"
  obtain fs end_off where fs: "init_fields (wrap_i32 (base + len)) attrs = Inr (fs, end_off)" and
    tm: "tm_fields tm = place_trx_fields 0 tfs @ \<lparr>fm_name = ''__null'', fm_type = CHARS, fm_nullable = False, fm_offset = base, fm_len = len,
              fm_visible = False\<rparr> # fs" "tm_record_size tm = end_off" and ne: "attrs \<noteq> []"
    using assms(2) unfolding TableMeta_init_def tfs_def base_def len_def by (auto simp: Let_def split: if_splits sum.splits)
  have c: "consecutive (wrap_i32 (base + len)) fs \<and> end_off = wrap_i32 (wrap_i32 (base + len) + sum_list (map fm_len fs)) \<and>
     wrap_i32 (base + len) + sum_list (map fm_len fs) < 4294967296 \<and>
     map (\<lambda>f. (fm_type f, fm_len f, fm_nullable f)) fs = map (\<lambda>a. (ai_type a, wrap_i32 (ai_length a), ai_nullable a)) attrs"
    using wrap_i32_bounds [of "base + len"] by (intro init_fields_consecutive [OF fs]) (simp add: i32_range_def)
  have t: "\<forall>f \<in> set tfs. fm_len f > 0" "base < 2147483648" using assms(1) by (auto simp: trx_fields_ok_def tfs_def base_def split: option.splits)
  have sys: "sys_field_num trx = length tfs + 1" by (simp add: sys_field_num_def tfs_def split: option.split)
  have n: "length fs = length attrs" using arg_cong [OF conjunct2 [OF conjunct2 [OF conjunct2 [OF c]]], of length] by simp
  have len: "len > 0" "int (length tfs + 1 + length attrs) \<le> 8 * len" unfolding len_def null_field_len_def by presburger+
  have b: "0 \<le> wrap_i32 (base + len)" using fs ne init_fields_cons by (metis list.exhaust)
  have "int (length tfs) \<le> base" using fields_bytes [OF place_trx_fields_consecutive [OF t(1)], of 0] by (simp add: base_def)
  moreover have "int (length attrs) < 4294967296" using fields_bytes [of "wrap_i32 (base + len)" fs] c b n by linarith
  ultimately have "base + len < 4294967296" "0 \<le> base + len" using t(2) len(1) unfolding len_def null_field_len_def by linarith+
  then have w: "wrap_i32 (base + len) = base + len" using b wrap_i32_nonneg by blast
  show "fields_ok trx tm"
    unfolding fields_ok_def sys null_field_def tm
    using c t(1) n ne len w by (simp add: nth_append consecutive_append place_trx_fields_consecutive base_def)
  show "map (\<lambda>f. (fm_type f, fm_len f, fm_nullable f)) (drop (sys_field_num trx) (tm_fields tm)) =
      map (\<lambda>a. (ai_type a, wrap_i32 (ai_length a), ai_nullable a)) attrs"
    unfolding sys tm using c by simp
  have "sum_list (map fm_len (tm_fields tm)) = base + len + sum_list (map fm_len fs)" unfolding tm by (simp add: base_def)
  then show "tm_record_size tm = wrap_i32 (sum_list (map fm_len (tm_fields tm)))" "sum_list (map fm_len (tm_fields tm)) < 4294967296"
    using c tm(2) unfolding w by simp_all
qed

lemma TableMeta_init_layout:
  assumes "trx_fields_ok trx" "TableMeta_init trx table_id name attrs = Inr tm" "0 \<le> tm_record_size tm"
  shows "layout_ok trx tm"
proof -
  note f = TableMeta_init_fields [OF assms(1,2)]
  have "0 \<le> sum_list (map fm_len (tm_fields tm))" using f(1) consecutive_sum by (auto simp: fields_ok_def)
  then show ?thesis using f assms(3) wrap_i32_nonneg unfolding fields_ok_layout by metis
qed

lemma bits_fit: "int n \<le> 8 * k \<Longrightarrow> int (bitmap_bytes n) \<le> k"
proof -
  assume "int n \<le> 8 * k"
  moreover have "int (bitmap_bytes n) = (int n + 7) div 8" by (simp add: bitmap_bytes_alt zdiv_int)
  ultimately show ?thesis by presburger
qed

text \<open>
  C31: in the record layout of a new table the fields do not overlap, a field is found by its offset, and the bitmap
  of null fields has a bit for every field. The record size is the sum of the lengths of the fields modulo
  \<open>2\<^sup>3\<^sup>2\<close>, as an \<^verbatim>\<open>int\<close>; when it is not negative it is the sum itself, and the fields fill the record. The only
  offset that can overflow is the one behind the last field, and the record size is then negative.
\<close>

theorem table_layout:
  assumes "trx_fields_ok trx" "TableMeta_init trx table_id name attrs = Inr tm"
  shows "(\<forall>i j. i < j \<longrightarrow> j < length (tm_fields tm) \<longrightarrow>
            fm_offset (tm_fields tm ! i) + fm_len (tm_fields tm ! i) \<le> fm_offset (tm_fields tm ! j)) \<and>
    (\<forall>i < length (tm_fields tm). 0 \<le> fm_offset (tm_fields tm ! i) \<and> 0 < fm_len (tm_fields tm ! i)) \<and>
    tm_record_size tm = wrap_i32 (sum_list (map fm_len (tm_fields tm))) \<and>
    (if sum_list (map fm_len (tm_fields tm)) < 2147483648
     then tm_record_size tm = sum_list (map fm_len (tm_fields tm)) \<and>
       (\<forall>i < length (tm_fields tm). fm_offset (tm_fields tm ! i) + fm_len (tm_fields tm ! i) \<le> tm_record_size tm)
     else tm_record_size tm < 0) \<and>
    (\<forall>i < length (tm_fields tm). field_index tm (tm_fields tm ! i) = int i) \<and>
    length (tm_fields tm) = sys_field_num trx + length attrs \<and>
    int (bitmap_bytes (bm_size (bitmap_of_null_field trx tm))) \<le> fm_len (null_field trx tm)"
proof -
  let ?sum = "sum_list (map fm_len (tm_fields tm))"
  note f = TableMeta_init_fields [OF assms] and l = TableMeta_init_fields(1) [OF assms]
  have sum: "0 \<le> ?sum" using l consecutive_sum by (auto simp: fields_ok_def)
  have "length (drop (sys_field_num trx) (tm_fields tm)) = length attrs" using arg_cong [OF f(2), of length] by simp
  then have "length (tm_fields tm) = sys_field_num trx + length attrs" using l unfolding fields_ok_def by (simp add: less_imp_le) linarith
  moreover have "fm_offset (tm_fields tm ! i) + fm_len (tm_fields tm ! i) \<le> fm_offset (tm_fields tm ! j)" if "i < j" "j < length (tm_fields tm)" for i j
    using l consecutive_disjoint that by (auto simp: fields_ok_def)
  moreover have b: "0 \<le> fm_offset (tm_fields tm ! i) \<and> 0 < fm_len (tm_fields tm ! i) \<and>
            fm_offset (tm_fields tm ! i) + fm_len (tm_fields tm ! i) \<le> ?sum" if "i < length (tm_fields tm)" for i
    using l consecutive_before [of 0 "tm_fields tm" "tm_fields tm ! i"] that by (simp add: fields_ok_def)
  moreover have "if ?sum < 2147483648 then tm_record_size tm = ?sum else tm_record_size tm < 0"
    using sum f(4) by (simp add: f(3) wrap_i32_unsigned)
  moreover have "field_index tm (tm_fields tm ! i) = int i" if "i < length (tm_fields tm)" for i
    using l offset_index_consecutive [of 0 "tm_fields tm" i] that by (simp add: fields_ok_def field_index_def)
  moreover have "int (bitmap_bytes (bm_size (bitmap_of_null_field trx tm))) \<le> fm_len (null_field trx tm)"
    using l bits_fit unfolding fields_ok_def bitmap_of_null_field_def by simp
  ultimately show ?thesis using f(3) by (simp split: if_splits)
qed

text \<open>The table is created all the same: two columns of two thousand million bytes give it a negative record size.\<close>

lemma record_size_overflows:
  "\<exists>tm. TableMeta_init None 1 ''t''
     [\<lparr>ai_type = CHARS, ai_name = ''a'', ai_length = 2000000000, ai_nullable = False\<rparr>,
      \<lparr>ai_type = CHARS, ai_name = ''b'', ai_length = 2000000000, ai_nullable = False\<rparr>] = Inr tm \<and> tm_record_size tm = - 294967295"
  by (simp add: TableMeta_init_def FieldMeta_init_def is_blank_def Let_def null_field_len_def wrap_i32_def)


definition demo_attrs :: "AttrInfo list" where
  "demo_attrs = [\<lparr>ai_type = INTS, ai_name = ''id'', ai_length = 4, ai_nullable = False\<rparr>,
     \<lparr>ai_type = CHARS, ai_name = ''name'', ai_length = 6, ai_nullable = True\<rparr>]"

definition demo_meta :: TableMeta where
  "demo_meta = (case TableMeta_init (Some mvcc_fields) 1 ''t'' demo_attrs of Inr tm \<Rightarrow> tm)"

lemma demo_meta_init: "TableMeta_init (Some mvcc_fields) 1 ''t'' demo_attrs = Inr demo_meta"
  by (simp add: demo_meta_def TableMeta_init_def demo_attrs_def FieldMeta_init_def is_blank_def Let_def mvcc_fields_def null_field_len_def wrap_i32_def)

lemma demo_fields: "length (tm_fields demo_meta) = 5" "tm_record_size demo_meta = 19" "sys_field_num (Some mvcc_fields) = 3"
  by (simp_all add: demo_meta_def TableMeta_init_def demo_attrs_def FieldMeta_init_def is_blank_def Let_def mvcc_fields_def
      null_field_len_def sys_field_num_def wrap_i32_def)

lemma mvcc_fields_ok: "trx_fields_ok (Some mvcc_fields)"
  by (simp add: trx_fields_ok_def mvcc_fields_def)

theorem table_layout_witness:
  "tm_record_size demo_meta = 19 \<and> field_index demo_meta (tm_fields demo_meta ! 4) = 4 \<and> fm_len (null_field (Some mvcc_fields) demo_meta) \<ge> 1"
  using table_layout [OF mvcc_fields_ok demo_meta_init] by (simp add: demo_fields bitmap_of_null_field_def bitmap_bytes_def)


section \<open>Reading what was written\<close>

text \<open>Four bytes are the integer they encode.\<close>

lemma digit_step: "0 \<le> b \<Longrightarrow> b < 256 \<Longrightarrow> (b + 256 * q) div 256 = q \<and> (b + 256 * q) mod 256 = (b :: int)"
  by simp

lemma i32_bytes_load: "i32_bytes (load_i32 m a) = read_bytes m a 4"
proof -
  define b where "b k = uint (m (a + k))" for k
  define u where "u = uint (m a) + 256 * (uint (m (a + 1)) + 256 * (uint (m (a + 2)) + 256 * uint (m (a + 3))))"
  have w: "(word_of_int x :: byte) = m (a + k)" if "x mod 256 = b k" for x k
    using that by (simp add: word_uint_eq_iff uint_word_of_int b_def)
  have r: "0 \<le> b k" "b k < 256" for k using uint_ge_0 [of "m (a + k)"] uint_lt2p [of "m (a + k)"] by (simp_all add: b_def)
  have "load_i32 m a = (if u < 2147483648 then u else u - 4294967296)" by (simp only: load_i32_def Let_def u_def)
  then obtain c where "load_i32 m a = u + c * 4294967296" by (cases "u < 2147483648") (auto intro: that [of 0] that [of "-1"])
  then have v: "load_i32 m a = b 0 + 256 * (b 1 + 256 * (b 2 + 256 * (b 3 + 256 * c)))" by (simp add: u_def b_def)
  let ?v = "load_i32 m a"
  have d0: "?v mod 256 = b 0" "?v div 256 = b 1 + 256 * (b 2 + 256 * (b 3 + 256 * c))" unfolding v using digit_step r by blast+
  have d1: "?v div 256 mod 256 = b 1" "?v div 256 div 256 = b 2 + 256 * (b 3 + 256 * c)" unfolding d0 using digit_step r by blast+
  have d2: "?v div 256 div 256 mod 256 = b 2" "?v div 256 div 256 div 256 = b 3 + 256 * c" unfolding d1 using digit_step r by blast+
  have d3: "?v div 256 div 256 div 256 mod 256 = b 3" unfolding d2 using digit_step r by blast
  have p: "?v div 256 ^ 2 = ?v div 256 div 256" "?v div 256 ^ 3 = ?v div 256 div 256 div 256"
    using zdiv_zmult2_eq [of 256 ?v 256] zdiv_zmult2_eq [of 256 ?v "256 * 256"] zdiv_zmult2_eq [of 256 "?v div 256" 256] by simp_all
  have "i32_bytes ?v = [m (a + 0), m (a + 1), m (a + 2), m (a + 3)]"
    by (simp only: i32_bytes_def list.map p power_0 div_by_1 power_one_right w [OF d0(1)] w [OF d1(1)] w [OF d2(1)] w [OF d3])
  moreover have "[a ..< a + 4] = [a + 0, a + 1, a + 2, a + 3]" by (simp add: upt_conv_Cons)
  ultimately show ?thesis by (simp only: read_bytes_def list.map)
qed

lemma bytes_i32_bytes: "length bs = 4 \<Longrightarrow> i32_bytes (bytes_i32 bs) = bs"
  unfolding bytes_i32_def i32_bytes_load by (auto simp: read_bytes_def intro: nth_equalityI)

lemma bytes_i32_take: "length bs \<ge> 4 \<Longrightarrow> bytes_i32 bs = bytes_i32 (take 4 bs)"
  unfolding bytes_i32_def by (rule load_i32_cong) simp

lemma bytes_i32_i32_bytes: "i32_range v \<Longrightarrow> bytes_i32 (i32_bytes v @ rest) = v"
proof -
  assume v: "i32_range v"
  have "bytes_i32 (i32_bytes v @ rest) = load_i32 (store_i32 (\<lambda>_. 0) 0 v) 0"
    unfolding bytes_i32_def by (rule load_i32_cong) (simp add: store_i32_def write_bytes_def nth_append)
  then show ?thesis using v by simp
qed

text \<open>What copying the values leaves alone, and what it writes.\<close>

lemma copy_len_le: "length (take (copy_len f v) (value_data v)) \<le> nat (fm_len f)"
  by (simp add: copy_len_def min_def) linarith

lemma nat_grow: "x \<le> nat off \<Longrightarrow> 0 < len \<Longrightarrow> x \<le> nat (off + len)"
  by linarith

lemma copy_values_outside:
  assumes "consecutive off fs" "0 \<le> off" "a + n \<le> nat off" "length fs + i \<le> bm_size nulls"
    "a + n \<le> bm_base nulls \<or> bm_base nulls + bitmap_bytes (bm_size nulls) \<le> a"
  shows "read_bytes (copy_values nulls i m fs vs) a n = read_bytes m a n"
  using assms
proof (induction nulls i m fs vs arbitrary: off rule: copy_values.induct)
  case (1 nulls i m f fs v vs)
  have i: "i div 8 < bitmap_bytes (bm_size nulls)" using "1.prems"(4) by (intro bitmap_bytes_bound) simp
  have b: "read_bytes (Bitmap_set_bit m nulls i) a n = read_bytes m a n" "read_bytes (Bitmap_clear_bit m nulls i) a n = read_bytes m a n"
    unfolding Bitmap_set_bit_def Bitmap_clear_bit_def Let_def using "1.prems"(5) i by (auto intro!: read_upd_disjoint)
  have w: "read_bytes (write_bytes m' (nat (fm_offset f)) xs) a n = read_bytes m' a n" for m' xs
    using "1.prems"(1,3) by (intro read_write_bytes_disjoint) simp
  have c: "consecutive (off + fm_len f) fs" "0 \<le> off + fm_len f" "a + n \<le> nat (off + fm_len f)" "length fs + Suc i \<le> bm_size nulls"
    using "1.prems" by (simp_all add: nat_grow)
  show ?case
  proof (cases "is_null v")
    case True
    then show ?thesis using "1.IH"(1) [OF True c "1.prems"(5)] b by simp
  next
    case False
    then show ?thesis using "1.IH"(2) [OF False refl refl c "1.prems"(5)] b w by (simp add: Let_def)
  qed
qed simp_all

lemma copy_values_bit:
  assumes "consecutive off fs" "nat off \<ge> bm_base nulls + bitmap_bytes (bm_size nulls)" "length fs + i \<le> bm_size nulls" "length vs = length fs"
    "j < i + length fs"
  shows "Bitmap_get_bit (copy_values nulls i m fs vs) nulls j \<longleftrightarrow> (if j < i then Bitmap_get_bit m nulls j else is_null (vs ! (j - i)))"
  using assms
proof (induction nulls i m fs vs arbitrary: off rule: copy_values.induct)
  case (1 nulls i m f fs v vs)
  have j: "j div 8 < bitmap_bytes (bm_size nulls)" using "1.prems"(3,5) by (intro bitmap_bytes_bound) simp
  have w: "Bitmap_get_bit (write_bytes m' (nat (fm_offset f)) xs) nulls j \<longleftrightarrow> Bitmap_get_bit m' nulls j" for m' xs
    using "1.prems"(1,2) j by (simp add: Bitmap_get_bit_def write_bytes_outside)
  have c: "consecutive (off + fm_len f) fs" "nat (off + fm_len f) \<ge> bm_base nulls + bitmap_bytes (bm_size nulls)"
      "length fs + Suc i \<le> bm_size nulls" "length vs = length fs" "j < Suc i + length fs"
    using "1.prems" by (simp_all add: nat_grow)
  have s: "(v # vs) ! (j - i) = (if j = i then v else vs ! (j - Suc i))" if "\<not> j < i" using that by (auto simp: nth_Cons')
  show ?case
  proof (cases "is_null v")
    case True
    then show ?thesis using "1.IH"(1) [OF True c] s by (auto simp: less_Suc_eq)
  next
    case False
    then show ?thesis using "1.IH"(2) [OF False refl refl c, unfolded w] s by (auto simp: Let_def less_Suc_eq)
  qed
qed simp_all

lemma copy_values_field:
  assumes "consecutive off fs" "0 \<le> off" "nat off \<ge> bm_base nulls + bitmap_bytes (bm_size nulls)" "length fs + i \<le> bm_size nulls"
    "length vs = length fs" "k < length fs" "\<not> is_null (vs ! k)"
  defines "bs \<equiv> take (copy_len (fs ! k) (vs ! k)) (value_data (vs ! k))"
  shows "read_bytes (copy_values nulls i m fs vs) (nat (fm_offset (fs ! k))) (length bs) = bs"
  using assms(1-7) unfolding bs_def
proof (induction nulls i m fs vs arbitrary: off k rule: copy_values.induct)
  case (1 nulls i m f fs v vs)
  have c: "consecutive (off + fm_len f) fs" "0 \<le> off + fm_len f" "nat (off + fm_len f) \<ge> bm_base nulls + bitmap_bytes (bm_size nulls)"
      "length fs + Suc i \<le> bm_size nulls" "length vs = length fs"
    using "1.prems" by (simp_all add: nat_grow)
  show ?case
  proof (cases k)
    case 0
    let ?bs = "take (copy_len f v) (value_data v)"
    have v: "\<not> is_null v" using "1.prems"(7) 0 by simp
    have "nat (fm_offset f) + length ?bs \<le> nat (off + fm_len f)" using copy_len_le [of f v] "1.prems"(1,2) by (simp add: nat_add_distrib)
    then have "read_bytes (copy_values nulls (Suc i) m' fs vs) (nat (fm_offset f)) (length ?bs) = read_bytes m' (nat (fm_offset f)) (length ?bs)" for m'
      using copy_values_outside [OF c(1,2) _ c(4)] "1.prems"(1,3) by simp
    then show ?thesis using v 0 by (simp add: Let_def del: length_take)
  next
    case (Suc k')
    then have k: "k' < length fs" "\<not> is_null (vs ! k')" using "1.prems" by simp_all
    show ?thesis
    proof (cases "is_null v")
      case True
      then show ?thesis using "1.IH"(1) [OF True c k] Suc by simp
    next
      case False
      then show ?thesis using "1.IH"(2) [OF False refl refl c k] Suc by (simp add: Let_def)
    qed
  qed
qed simp_all


text \<open>Values as the code builds them: strings have no zero byte, numbers have four bytes.\<close>

definition value_ok :: "Value \<Rightarrow> bool" where
  "value_ok v \<longleftrightarrow> length (num_value v) = 4 \<and> 0 \<notin> set (str_value v) \<and>
     (attr_type v \<in> {CHARS, TEXTS} \<longrightarrow> v_length v = int (length (str_value v)))"

definition float_ok :: "FloatOps \<Rightarrow> bool" where
  "float_ok fo \<longleftrightarrow> (\<forall>n. length (fo_of_int fo n) = 4) \<and> (\<forall>s x. fo_read fo s = Some x \<longrightarrow> length x = 4)"

definition cast_to :: "FloatOps \<Rightarrow> int \<times> int \<times> int \<Rightarrow> AttrType \<Rightarrow> Value \<Rightarrow> Value" where
  "cast_to fo junk t v = (if is_null v \<or> attr_type v = t then v else snd (type_cast fo junk t v))"

lemma zero_not_in_c_str: "0 \<notin> set (c_str s)"
  by (auto simp: c_str_def dest: set_takeWhileD)

lemma cast_to_ok:
  assumes "float_ok fo" "value_ok v" "t \<in> {CHARS, TEXTS} \<longrightarrow> attr_type v \<noteq> DATES" "\<not> is_null v"
    "attr_type v = t \<or> fst (type_cast fo junk t v)"
  shows "value_ok (cast_to fo junk t v) \<and> attr_type (cast_to fo junk t v) = t"
proof (cases "attr_type v = t")
  case False
  then have "fst (type_cast fo junk t v)" using assms(5) by simp
  then have "value_ok (snd (type_cast fo junk t v)) \<and> attr_type (snd (type_cast fo junk t v)) = t"
    using False assms(1-3) zero_not_in_c_str
    by (cases t) (auto simp: type_cast_def value_ok_def set_int_def set_float_def set_string_def assign_str_def float_ok_def
        split: if_splits option.splits)
  then show ?thesis using False assms(4) by (simp add: cast_to_def)
qed (use assms in \<open>simp add: cast_to_def\<close>)

lemma check_values_cast:
  "check_values fo junk fs vs = Inr ws \<Longrightarrow> length fs = length vs \<Longrightarrow>
     ws = map2 (\<lambda>f v. cast_to fo junk (fm_type f) v) fs vs \<and>
     (\<forall>k < length vs. is_null (vs ! k) \<or> attr_type (vs ! k) = fm_type (fs ! k) \<or> fst (type_cast fo junk (fm_type (fs ! k)) (vs ! k)))"
proof (induction fs vs arbitrary: ws rule: list_induct2')
  case (4 f fs v vs)
  obtain w ws' where ws: "check_values fo junk fs vs = Inr ws'" "ws = w # ws'" and
    w: "w = cast_to fo junk (fm_type f) v" "is_null v \<or> attr_type v = fm_type f \<or> fst (type_cast fo junk (fm_type f) v)"
    using "4.prems"(1) by (fastforce simp: Let_def cast_to_def split: if_splits sum.splits prod.splits)
  then show ?case using "4.IH" [OF ws(1)] "4.prems"(2) by (auto simp: less_Suc_eq_0_disj)
qed simp_all


lemma c_str_append_zero: "0 \<notin> set s \<Longrightarrow> c_str (s @ 0 # r) = s"
  unfolding c_str_def by (induction s) auto

lemma c_str_plain: "0 \<notin> set s \<Longrightarrow> c_str s = s"
  unfolding c_str_def by (induction s) auto

lemma take_drop_read:
  "a + n \<le> len \<Longrightarrow> take n (drop a (read_bytes m 0 len)) = read_bytes m a n"
  by (auto simp: read_bytes_def intro!: nth_equalityI)

lemma stored_string:
  assumes "value_ok v" "attr_type v \<in> {CHARS, TEXTS}" "fm_type f \<in> {CHARS, TEXTS}" "0 < fm_len f"
    "take (length (take (copy_len f v) (value_data v))) area = take (copy_len f v) (value_data v)" "length area = nat (fm_len f)"
  shows "c_str area = take (nat (fm_len f)) (str_value v)"
proof (cases "fm_len f > v_length v")
  case True
  then have "copy_len f v = length (str_value v) + 1" using assms(1-3) by (auto simp: copy_len_def value_ok_def)
  then have "take (copy_len f v) (value_data v) = str_value v @ [0]" using assms(2) by (auto simp: value_data_def)
  then obtain r where "area = str_value v @ 0 # r"
    using assms(5) append_take_drop_id [of "length (str_value v @ [0])" area] by (metis append.assoc append_Cons append_Nil)
  then show ?thesis using True assms(1,2) c_str_append_zero by (auto simp: value_ok_def)
next
  case False
  then have "copy_len f v = nat (fm_len f)" "nat (fm_len f) \<le> length (str_value v)" using assms(1-3) by (auto simp: copy_len_def value_ok_def)
  then have "area = take (nat (fm_len f)) (str_value v)" using assms(2,5,6) by (auto simp: value_data_def)
  then show ?thesis using assms(1) c_str_plain [of area] by (auto simp: value_ok_def dest: in_set_takeD)
qed

lemma bytes_mem_read: "j < n \<Longrightarrow> bytes_mem (read_bytes m 0 n) j = m j"
  by (simp add: bytes_mem_def read_bytes_def)

text \<open>The parts of a record that \<open>make_record\<close> has made.\<close>

lemma make_record_parts:
  assumes "layout_ok trx tm" "make_record fo junk mem trx tm values = Inr rec" "k < length values"
  defines "f \<equiv> tm_fields tm ! (sys_field_num trx + k)"
  defines "w \<equiv> cast_to fo junk (fm_type f) (values ! k)"
  shows "Table_is_null trx tm f rec \<longleftrightarrow> is_null w"
    and "is_null (values ! k) \<or> attr_type (values ! k) = fm_type f \<or> fst (type_cast fo junk (fm_type f) (values ! k))"
    and "\<not> is_null w \<Longrightarrow> let bs = take (copy_len f w) (value_data w) in take (length bs) (drop (nat (fm_offset f)) rec) = bs"
    and "length (take (nat (fm_len f)) (drop (nat (fm_offset f)) rec)) = nat (fm_len f)"
    and "0 < fm_len f" and "sys_field_num trx + k < length (tm_fields tm)"
proof -
  let ?s = "sys_field_num trx" and ?fs = "drop (sys_field_num trx) (tm_fields tm)" and ?nulls = "bitmap_of_null_field trx tm"
  obtain ws where n: "length values + ?s = length (tm_fields tm)" and ws: "check_values fo junk ?fs values = Inr ws" and
    rec: "rec = read_bytes (copy_values ?nulls ?s mem ?fs ws) 0 (nat (tm_record_size tm))"
    using assms(2) by (auto simp: make_record_def Let_def split: if_splits sum.splits)
  define m where "m = copy_values ?nulls ?s mem ?fs ws"
  have len: "length ?fs = length values" using n by simp
  note cast = check_values_cast [OF ws len]
  have fk: "?fs ! k = f" using n assms(3) by (simp add: f_def)
  have wk: "ws ! k = w" "length ws = length ?fs" using cast len assms(3) fk by (simp_all add: w_def)
  note c0 = assms(1) [unfolded layout_ok_def]
  define off where "off = sum_list (map fm_len (take ?s (tm_fields tm)))"
  have c: "consecutive off ?fs" "consecutive 0 (take ?s (tm_fields tm))"
    using c0 consecutive_append [of 0 "take ?s (tm_fields tm)" ?fs] by (simp_all add: off_def)
  have off0: "0 \<le> off" using consecutive_sum [OF c(2)] by (simp add: off_def)
  have s: "?s - 1 < ?s" by (simp add: sys_field_num_def)
  have nf: "null_field trx tm \<in> set (take ?s (tm_fields tm))"
    using c0 s by (auto simp: null_field_def in_set_conv_nth intro!: exI [of _ "?s - 1"])
  have "0 \<le> fm_offset (null_field trx tm) \<and> fm_offset (null_field trx tm) + fm_len (null_field trx tm) \<le> off"
    using consecutive_before [OF c(2) nf] by (simp add: off_def)
  then have b: "bm_base ?nulls + bitmap_bytes (bm_size ?nulls) \<le> nat off"
    using bits_fit [of "length (tm_fields tm)" "fm_len (null_field trx tm)"] c0 by (simp add: bitmap_of_null_field_def) linarith
  have size: "length ?fs + ?s \<le> bm_size ?nulls" using n by (simp add: bitmap_of_null_field_def)
  have fin: "f \<in> set (tm_fields tm)" "?s + k < length (tm_fields tm)" using n assms(3) by (simp_all add: f_def)
  then show i: "?s + k < length (tm_fields tm)" by simp
  have bnd: "0 \<le> fm_offset f" "0 < fm_len f" "fm_offset f + fm_len f \<le> tm_record_size tm"
    using consecutive_before [of 0 "tm_fields tm" f] c0 fin by simp_all
  then show "0 < fm_len f" by simp
  have room: "nat (fm_offset f) + nat (fm_len f) \<le> nat (tm_record_size tm)" using bnd by linarith
  show "length (take (nat (fm_len f)) (drop (nat (fm_offset f)) rec)) = nat (fm_len f)" using room by (simp add: rec)
  show "is_null (values ! k) \<or> attr_type (values ! k) = fm_type f \<or> fst (type_cast fo junk (fm_type f) (values ! k))"
    using conjunct2 [OF cast, rule_format, OF assms(3)] unfolding fk .
  show "let bs = take (copy_len f w) (value_data w) in take (length bs) (drop (nat (fm_offset f)) rec) = bs" if "\<not> is_null w"
  proof -
    let ?bs = "take (copy_len f w) (value_data w)"
    have "read_bytes m (nat (fm_offset f)) (length ?bs) = ?bs"
      using copy_values_field [OF c(1) off0 b size wk(2), of k] assms(3) len fk wk(1) that by (simp add: m_def)
    moreover have "nat (fm_offset f) + length ?bs \<le> nat (tm_record_size tm)" using copy_len_le [of f w] room by linarith
    ultimately show ?thesis unfolding rec m_def [symmetric] Let_def by (simp only: take_drop_read)
  qed
  have "field_index tm f = int (?s + k)"
    unfolding field_index_def f_def using offset_index_consecutive [OF _ i] c0 by blast
  moreover have "Bitmap_get_bit (bytes_mem rec) ?nulls (?s + k) = Bitmap_get_bit m ?nulls (?s + k)"
  proof -
    have "(?s + k) div 8 < bitmap_bytes (bm_size ?nulls)" using i by (intro bitmap_bytes_bound) (simp add: bitmap_of_null_field_def)
    moreover have "nat off \<le> nat (tm_record_size tm)"
    proof -
      have "off + sum_list (map fm_len ?fs) = tm_record_size tm"
        using c0 by (metis append_take_drop_id map_append sum_list_append off_def)
      then show ?thesis using consecutive_sum [OF c(1)] by linarith
    qed
    ultimately have "bm_base ?nulls + (?s + k) div 8 < nat (tm_record_size tm)" using b by linarith
    then show ?thesis by (simp add: Bitmap_get_bit_def rec bytes_mem_read m_def)
  qed
  moreover have "Bitmap_get_bit m ?nulls (?s + k) \<longleftrightarrow> is_null w"
    unfolding m_def using copy_values_bit [OF c(1) b size wk(2), of "?s + k" mem] wk(1) assms(3) len by simp
  ultimately show "Table_is_null trx tm f rec \<longleftrightarrow> is_null w" by (simp add: Table_is_null_def Let_def nat_int_add)
qed

text \<open>
  C30: a record made from values gives, field by field, the values it was made from: null where the
  value is null, otherwise the value converted to the type of the field, strings cut to the length of the field.
  The record size of the table has not overflowed (C31), and a date is not written into a string column.
\<close>

theorem make_record_roundtrip:
  assumes "trx_fields_ok trx" "TableMeta_init trx table_id name attrs = Inr tm" "0 \<le> tm_record_size tm" "float_ok fo"
    "\<forall>a \<in> set attrs. ai_type a \<in> {INTS, FLOATS, DATES} \<and> ai_length a = 4 \<or> ai_type a \<in> {CHARS, TEXTS}"
    "make_record fo junk mem trx tm values = Inr rec" "k < length values" "value_ok (values ! k)"
    "ai_type (attrs ! k) \<in> {CHARS, TEXTS} \<Longrightarrow> attr_type (values ! k) \<noteq> DATES"
  shows "\<exists>c. cell_at trx tm rec (int (sys_field_num trx + k)) cell = (SUCCESS, c) \<and>
    (if is_null (values ! k) then is_null c
     else attr_type c = ai_type (attrs ! k) \<and>
       (if ai_type (attrs ! k) \<in> {CHARS, TEXTS}
        then str_value c = take (nat (wrap_i32 (ai_length (attrs ! k)))) (str_value (cast_to fo junk (ai_type (attrs ! k)) (values ! k)))
        else num_value c = num_value (cast_to fo junk (ai_type (attrs ! k)) (values ! k))))"
proof -
  define f where "f = tm_fields tm ! (sys_field_num trx + k)"
  define w where "w = cast_to fo junk (fm_type f) (values ! k)"
  note l = TableMeta_init_layout [OF assms(1-3)] TableMeta_init_fields(2) [OF assms(1,2)]
  note parts = make_record_parts [OF l(1) assms(6,7), folded f_def, folded w_def]
  have len: "length (drop (sys_field_num trx) (tm_fields tm)) = length attrs" using arg_cong [OF l(2), of length] by (simp only: length_map)
  have n: "k < length attrs" using len parts(6) by simp
  have fk: "drop (sys_field_num trx) (tm_fields tm) ! k = f" unfolding f_def by (rule nth_drop) (use parts(6) in linarith)
  have "(fm_type f, fm_len f, fm_nullable f) = (ai_type (attrs ! k), wrap_i32 (ai_length (attrs ! k)), ai_nullable (attrs ! k))"
    using arg_cong [OF l(2), of "\<lambda>xs. xs ! k"] unfolding nth_map [OF n] nth_map [OF n [folded len]] fk .
  then have f: "fm_type f = ai_type (attrs ! k)" "fm_len f = wrap_i32 (ai_length (attrs ! k))" by simp_all
  have cell: "cell_at trx tm rec (int (sys_field_num trx + k)) cell =
      (SUCCESS, if is_null w then set_type NULLS cell else value_set_data (drop (nat (fm_offset f)) rec) (fm_len f) (set_type (fm_type f) cell))"
    using parts(1,6) by (simp add: cell_at_def f_def Let_def nat_int_add)
  show ?thesis
  proof (cases "is_null (values ! k)")
    case True
    then show ?thesis using cell by (simp add: w_def cast_to_def is_null_def set_type_def)
  next
    case False
    have wrap4: "wrap_i32 4 = 4" by (simp add: wrap_i32_def)
    have ok: "value_ok w" "attr_type w = fm_type f"
      using cast_to_ok [OF assms(4,8) _ False] assms(9) parts(2) False f by (auto simp: w_def)
    have t: "fm_type f \<in> {INTS, FLOATS, DATES} \<and> fm_len f = 4 \<or> fm_type f \<in> {CHARS, TEXTS}" using assms(5) n f wrap4 by (metis nth_mem)
    then have nn: "\<not> is_null w" using ok(2) by (auto simp: is_null_def)
    let ?area = "take (nat (fm_len f)) (drop (nat (fm_offset f)) rec)"
    have bs: "take (length (take (copy_len f w) (value_data w))) (drop (nat (fm_offset f)) rec) = take (copy_len f w) (value_data w)"
      using parts(3) [OF nn] by (simp only: Let_def)
    show ?thesis
    proof (cases "fm_type f \<in> {CHARS, TEXTS}")
      case True
      have "take (length (take (copy_len f w) (value_data w))) ?area = take (copy_len f w) (value_data w)"
        using bs copy_len_le [of f w] by (simp add: min_def)
      then have "c_str ?area = take (nat (fm_len f)) (str_value w)"
        using stored_string [OF ok(1) _ True parts(5)] ok(2) True parts(4) by simp
      then show ?thesis using cell nn True False f parts(5)
        by (auto simp: value_set_data_def set_type_def set_string_def set_text_def assign_str_def w_def)
    next
      case nstr: False
      then have four: "fm_len f = 4" and ty: "fm_type f \<in> {INTS, FLOATS, DATES}" using t by auto
      have "take (copy_len f w) (value_data w) = num_value w"
        using ty four ok by (auto simp: copy_len_def value_data_def value_ok_def)
      then have area: "take 4 (drop (nat (fm_offset f)) rec) = num_value w" using bs ok(1) by (simp add: value_ok_def)
      have l4: "length (drop (nat (fm_offset f)) rec) \<ge> 4" using parts(4) four by simp
      have "i32_bytes (bytes_i32 (drop (nat (fm_offset f)) rec)) = num_value w"
        unfolding bytes_i32_take [OF l4] area using ok(1) by (intro bytes_i32_bytes) (simp add: value_ok_def)
      then have "num_value (value_set_data (drop (nat (fm_offset f)) rec) (fm_len f) (set_type (fm_type f) cell)) = num_value w"
        using ty area by (elim insertE) (simp_all add: value_set_data_def set_type_def set_date_def)
      moreover have "attr_type (value_set_data (drop (nat (fm_offset f)) rec) (fm_len f) (set_type (fm_type f) cell)) = fm_type f"
        using ty by (elim insertE) (simp_all add: value_set_data_def set_type_def set_date_def)
      ultimately show ?thesis using cell nn nstr False f by (simp add: w_def)
    qed
  qed
qed


definition demo_values :: "Value list" where
  "demo_values = [set_int 7 fresh_value, set_string [97, 98] 0 fresh_value]"

theorem make_record_roundtrip_witness:
  "\<exists>rec c. make_record no_floats (0, 0, 0) (\<lambda>_. 0) (Some mvcc_fields) demo_meta demo_values = Inr rec \<and>
     cell_at (Some mvcc_fields) demo_meta rec 4 fresh_value = (SUCCESS, c) \<and> str_value c = [97, 98]"
proof -
  have ok: "value_ok (demo_values ! 1)" "float_ok no_floats"
    by (simp_all add: demo_values_def value_ok_def set_string_def fresh_value_def assign_str_def c_str_def float_ok_def no_floats_def)
  have "isl (make_record no_floats (0, 0, 0) (\<lambda>_. 0) (Some mvcc_fields) demo_meta demo_values) = False"
    by (simp add: make_record_def demo_fields demo_values_def demo_meta_def TableMeta_init_def demo_attrs_def FieldMeta_init_def is_blank_def
        Let_def mvcc_fields_def null_field_len_def sys_field_num_def set_int_def set_string_def is_null_def wrap_i32_def)
  then obtain rec where rec: "make_record no_floats (0, 0, 0) (\<lambda>_. 0) (Some mvcc_fields) demo_meta demo_values = Inr rec"
    by (cases "make_record no_floats (0, 0, 0) (\<lambda>_. 0) (Some mvcc_fields) demo_meta demo_values") simp_all
  have "\<exists>c. cell_at (Some mvcc_fields) demo_meta rec (int (sys_field_num (Some mvcc_fields) + 1)) fresh_value = (SUCCESS, c) \<and>
     (if is_null (demo_values ! 1) then is_null c
     else attr_type c = ai_type (demo_attrs ! 1) \<and>
       (if ai_type (demo_attrs ! 1) \<in> {CHARS, TEXTS}
        then str_value c = take (nat (wrap_i32 (ai_length (demo_attrs ! 1)))) (str_value (cast_to no_floats (0, 0, 0) (ai_type (demo_attrs ! 1)) (demo_values ! 1)))
        else num_value c = num_value (cast_to no_floats (0, 0, 0) (ai_type (demo_attrs ! 1)) (demo_values ! 1))))"
    by (rule make_record_roundtrip [OF mvcc_fields_ok demo_meta_init _ ok(2) _ rec _ ok(1)])
      (simp_all add: demo_attrs_def demo_values_def set_string_def demo_fields)
  then show ?thesis using rec
    by (auto simp: demo_values_def demo_attrs_def demo_fields is_null_def cast_to_def set_string_def assign_str_def c_str_def wrap_i32_def)
qed

end
