(* ===== verification/TableStore.thy ===== *)
theory TableStore
  imports RecordLayout BplusTree
begin

text \<open>
  The record operations of \<^verbatim>\<open>storage/table/table.cpp\<close>: a table keeps its records in a record file and an
  entry for every record in each of its indexes, unless a field of the index is null.

  \<^item> The record file is the map from record identifiers to records that it implements (theory
    \<open>RecordStore\<close>). Where the code inserts, the result of the record file is the argument \<open>place\<close>: an
    error, or an identifier that is not in use. Deleting and updating a record that is there succeeds; a
    record that is not there is reported as \<open>RECORD_NOT_EXIST\<close>. Recovery inserts under a given
    identifier, which the record file refuses when its slot is behind the last one of a page.
  \<^item> \<open>visit_record\<close> changes the map for good. The code changes the cached page without marking its frame
    dirty (C25, in \<open>RecordStore\<close>): the change lasts while the page stays in
    its frame or another operation marks the frame, and that is assumed here.
  \<^item> An index is a B+ tree with the fields it is on. Its operations may not return; \<open>None\<close> stands for that.
  \<^item> \<^verbatim>\<open>LOG_PANIC\<close> only logs. Creating, opening and dropping tables are operations on files and left out.
\<close>

record TableIndex =
  ti_fields :: "FieldMeta list"
  ti_tree :: "key BplusTree"

record Table =
  tb_meta :: TableMeta
  tb_records :: "RID \<rightharpoonup> byte list"
  tb_indexes :: "TableIndex list"

section \<open>Index entries\<close>

text \<open>Whether one of the fields of an index is null; \<open>INTERNAL\<close> for a field that the table does not have.\<close>

fun has_null :: "FieldMeta list option \<Rightarrow> TableMeta \<Rightarrow> byte list \<Rightarrow> FieldMeta list \<Rightarrow> RC + bool" where
  "has_null trx tm rec [] = Inr False"
| "has_null trx tm rec (f # fs) =
     (if field_index tm f = -1 then Inl INTERNAL
      else if Bitmap_get_bit (bytes_mem rec) (bitmap_of_null_field trx tm) (nat (field_index tm f)) then Inr True
      else has_null trx tm rec fs)"

fun insert_entries ::
  "float_sub \<Rightarrow> FieldMeta list option \<Rightarrow> TableMeta \<Rightarrow> RID \<Rightarrow> byte list \<Rightarrow> TableIndex list \<Rightarrow> (RC \<times> TableIndex list) option" where
  "insert_entries fsub trx tm rid rec [] = Some (SUCCESS, [])"
| "insert_entries fsub trx tm rid rec (ix # ixs) =
     (case has_null trx tm rec (ti_fields ix) of
        Inl rc \<Rightarrow> Some (rc, ix # ixs)
      | Inr True \<Rightarrow> map_option (\<lambda>(rc, ixs). (rc, ix # ixs)) (insert_entries fsub trx tm rid rec ixs)
      | Inr False \<Rightarrow>
          (case insert_entry fsub (ti_tree ix) rec rid of
             None \<Rightarrow> None
           | Some (rc, t) \<Rightarrow>
               if rc \<noteq> SUCCESS then Some (rc, ix\<lparr>ti_tree := t\<rparr> # ixs)
               else map_option (\<lambda>(rc, ixs). (rc, ix\<lparr>ti_tree := t\<rparr> # ixs)) (insert_entries fsub trx tm rid rec ixs)))"

text \<open>The loop of the deletion carries the result of the last deletion.\<close>

fun delete_entries ::
  "float_sub \<Rightarrow> FieldMeta list option \<Rightarrow> TableMeta \<Rightarrow> bool \<Rightarrow> RID \<Rightarrow> byte list \<Rightarrow> RC \<Rightarrow> TableIndex list \<Rightarrow> (RC \<times> TableIndex list) option" where
  "delete_entries fsub trx tm err rid rec rc [] = Some (rc, [])"
| "delete_entries fsub trx tm err rid rec rc (ix # ixs) =
     (case has_null trx tm rec (ti_fields ix) of
        Inl rc \<Rightarrow> Some (rc, ix # ixs)
      | Inr True \<Rightarrow> map_option (\<lambda>(rc, ixs). (rc, ix # ixs)) (delete_entries fsub trx tm err rid rec rc ixs)
      | Inr False \<Rightarrow>
          (case delete_entry fsub (ti_tree ix) rec rid of
             None \<Rightarrow> None
           | Some (rc, t) \<Rightarrow>
               if rc \<noteq> SUCCESS \<and> (rc \<noteq> RECORD_INVALID_KEY \<or> \<not> err) then Some (rc, ix\<lparr>ti_tree := t\<rparr> # ixs)
               else map_option (\<lambda>(rc, ixs). (rc, ix\<lparr>ti_tree := t\<rparr> # ixs)) (delete_entries fsub trx tm err rid rec rc ixs)))"

definition insert_entry_of_indexes ::
  "float_sub \<Rightarrow> FieldMeta list option \<Rightarrow> RID \<Rightarrow> byte list \<Rightarrow> Table \<Rightarrow> (RC \<times> Table) option" where
  "insert_entry_of_indexes fsub trx rid rec tb =
     map_option (\<lambda>(rc, ixs). (rc, tb\<lparr>tb_indexes := ixs\<rparr>)) (insert_entries fsub trx (tb_meta tb) rid rec (tb_indexes tb))"

definition delete_entry_of_indexes ::
  "float_sub \<Rightarrow> FieldMeta list option \<Rightarrow> bool \<Rightarrow> RID \<Rightarrow> byte list \<Rightarrow> Table \<Rightarrow> (RC \<times> Table) option" where
  "delete_entry_of_indexes fsub trx err rid rec tb =
     map_option (\<lambda>(rc, ixs). (rc, tb\<lparr>tb_indexes := ixs\<rparr>)) (delete_entries fsub trx (tb_meta tb) err rid rec SUCCESS (tb_indexes tb))"


section \<open>Records\<close>

definition put_record :: "RID \<Rightarrow> byte list \<Rightarrow> Table \<Rightarrow> Table" where
  "put_record rid rec tb = tb\<lparr>tb_records := (tb_records tb)(rid \<mapsto> rec)\<rparr>"

definition drop_record :: "RID \<Rightarrow> Table \<Rightarrow> Table" where
  "drop_record rid tb = tb\<lparr>tb_records := (tb_records tb)(rid := None)\<rparr>"

text \<open>The index part of \<open>insert_record\<close> and \<open>recover_insert_record\<close>, with its rollback.\<close>

definition index_new_record ::
  "float_sub \<Rightarrow> FieldMeta list option \<Rightarrow> RID \<Rightarrow> byte list \<Rightarrow> Table \<Rightarrow> (RC \<times> Table) option" where
  "index_new_record fsub trx rid rec tb =
     (case insert_entry_of_indexes fsub trx rid rec tb of
        None \<Rightarrow> None
      | Some (rc, tb) \<Rightarrow>
          if rc = SUCCESS then Some (rc, tb)
          else
            (case delete_entry_of_indexes fsub trx False rid rec tb of
               None \<Rightarrow> None
             | Some (rc2, tb) \<Rightarrow> Some (rc, drop_record rid tb)))"

definition Table_insert_record ::
  "float_sub \<Rightarrow> FieldMeta list option \<Rightarrow> RC + RID \<Rightarrow> byte list \<Rightarrow> Table \<Rightarrow> (RC \<times> Table) option" where
  "Table_insert_record fsub trx place rec tb =
     (case place of
        Inl rc \<Rightarrow> Some (rc, tb)
      | Inr rid \<Rightarrow> index_new_record fsub trx rid rec (put_record rid rec tb))"

text \<open>The number of slots of a page of the table, as \<open>init_empty_page\<close> computes it for the table's record size.\<close>

definition record_slots :: "TableMeta \<Rightarrow> nat" where
  "record_slots tm = (case init_empty_data (tm_record_size tm) (\<lambda>_. 0) of None \<Rightarrow> 0 | Some m \<Rightarrow> nat (ph_record_capacity m))"

definition Table_recover_insert_record ::
  "float_sub \<Rightarrow> FieldMeta list option \<Rightarrow> RID \<Rightarrow> byte list \<Rightarrow> Table \<Rightarrow> (RC \<times> Table) option" where
  "Table_recover_insert_record fsub trx rid rec tb =
     (if rid_slot rid \<ge> record_slots (tb_meta tb) then Some (RECORD_INVALID_RID, tb)
      else index_new_record fsub trx rid rec (put_record rid rec tb))"

definition Table_visit_record :: "RID \<Rightarrow> (byte list \<Rightarrow> byte list) \<Rightarrow> Table \<Rightarrow> RC \<times> Table" where
  "Table_visit_record rid visitor tb =
     (case tb_records tb rid of
        None \<Rightarrow> (RECORD_NOT_EXIST, tb)
      | Some rec \<Rightarrow> (SUCCESS, put_record rid (visitor rec) tb))"

definition Table_get_record :: "RID \<Rightarrow> Table \<Rightarrow> RC + byte list" where
  "Table_get_record rid tb = (case tb_records tb rid of None \<Rightarrow> Inl RECORD_NOT_EXIST | Some rec \<Rightarrow> Inr rec)"

definition Table_delete_record ::
  "float_sub \<Rightarrow> FieldMeta list option \<Rightarrow> RID \<Rightarrow> byte list \<Rightarrow> Table \<Rightarrow> (RC \<times> Table) option" where
  "Table_delete_record fsub trx rid rec tb =
     (case delete_entry_of_indexes fsub trx True rid rec tb of
        None \<Rightarrow> None
      | Some (rc, tb) \<Rightarrow>
          if rc \<noteq> SUCCESS then Some (rc, tb)
          else if tb_records tb rid = None then Some (RECORD_NOT_EXIST, tb)
          else Some (SUCCESS, drop_record rid tb))"

definition Table_update_record ::
  "float_sub \<Rightarrow> FieldMeta list option \<Rightarrow> RID \<Rightarrow> byte list \<Rightarrow> RID \<Rightarrow> byte list \<Rightarrow> Table \<Rightarrow> (RC \<times> Table) option" where
  "Table_update_record fsub trx rid rec new_rid new_rec tb =
     (case delete_entry_of_indexes fsub trx False rid rec tb of
        None \<Rightarrow> None
      | Some (rc, tb) \<Rightarrow>
          if rc \<noteq> SUCCESS then Some (rc, tb)
          else
            (case insert_entry_of_indexes fsub trx new_rid new_rec tb of
               None \<Rightarrow> None
             | Some (rc, tb) \<Rightarrow>
                 if rc \<noteq> SUCCESS
                 then map_option (\<lambda>(_, tb). (rc, tb)) (insert_entry_of_indexes fsub trx rid rec tb)
                 else if tb_records tb rid = None then Some (RECORD_NOT_EXIST, tb)
                 else Some (SUCCESS, put_record rid new_rec tb)))"

text \<open>\<open>sync\<close> writes the pages of the indexes, up to the first that fails. For each index the cached pages are given.\<close>

fun sync_indexes :: "PageNum list list \<Rightarrow> TableIndex list \<Rightarrow> RC \<times> TableIndex list" where
  "sync_indexes (frames # fss) (ix # ixs) =
     (let (rc, t) = tree_sync frames (ti_tree ix); ix = ix\<lparr>ti_tree := t\<rparr> in
      if rc \<noteq> SUCCESS then (rc, ix # ixs) else let (rc, ixs) = sync_indexes fss ixs in (rc, ix # ixs))"
| "sync_indexes _ ixs = (SUCCESS, ixs)"

definition Table_sync :: "PageNum list list \<Rightarrow> Table \<Rightarrow> RC \<times> Table" where
  "Table_sync fss tb = (let (rc, ixs) = sync_indexes fss (tb_indexes tb) in (rc, tb\<lparr>tb_indexes := ixs\<rparr>))"

text \<open>Without indexes nothing can fail but the record file.\<close>

lemma plain_table:
  assumes "tb_indexes tb = []"
  shows "insert_entry_of_indexes fsub trx rid rec tb = Some (SUCCESS, tb)"
    "delete_entry_of_indexes fsub trx err rid rec tb = Some (SUCCESS, tb)"
    "Table_insert_record fsub trx (Inr rid) rec tb = Some (SUCCESS, put_record rid rec tb)"
    "rid_slot rid < record_slots (tb_meta tb) \<Longrightarrow> Table_recover_insert_record fsub trx rid rec tb = Some (SUCCESS, put_record rid rec tb)"
    "tb_records tb rid = Some rec' \<Longrightarrow> Table_delete_record fsub trx rid rec tb = Some (SUCCESS, drop_record rid tb)"
  using assms
  by (simp_all add: insert_entry_of_indexes_def delete_entry_of_indexes_def Table_insert_record_def Table_recover_insert_record_def
      index_new_record_def Table_delete_record_def put_record_def drop_record_def)

end
