(* ===== verification/CLog.thy ===== *)
theory CLog
  imports RecordLayout
begin

text \<open>
  \<^verbatim>\<open>storage/clog/clog.h\<close> and \<^verbatim>\<open>clog.cpp\<close>: the redo log. Log records are built in memory, collected in a
  buffer and written to the end of one file when a transaction commits; at start the file is read
  from its beginning and every record is redone (\<open>recover\<close>, in theory \<open>MvccTrx\<close>).

  \<^item> A log record is written as the bytes of its structures. The structure \<^verbatim>\<open>CLogRecordData\<close> has four
    bytes of padding behind its numbers, zero since the object is zero-initialised; they are counted in
    its \<open>HEADER_SIZE\<close>.
  \<^item> The file is the list of its bytes and the position of the next read; a write goes to the end
    (\<^verbatim>\<open>O_APPEND\<close>) and succeeds. Printing is left out.
  \<^item> The header keeps the type of a record as an integer.
\<close>

section \<open>Log records\<close>

datatype CLogType = ERROR | MTR_BEGIN | MTR_COMMIT | MTR_ROLLBACK | INSERT | UPDATE | DELETE

fun clog_type_to_integer :: "CLogType \<Rightarrow> int" where
  "clog_type_to_integer ERROR = 0"
| "clog_type_to_integer MTR_BEGIN = 1"
| "clog_type_to_integer MTR_COMMIT = 2"
| "clog_type_to_integer MTR_ROLLBACK = 3"
| "clog_type_to_integer INSERT = 4"
| "clog_type_to_integer UPDATE = 5"
| "clog_type_to_integer DELETE = 6"

text \<open>An integer that is no type is the value \<open>None\<close>.\<close>

definition clog_type_from_integer :: "int \<Rightarrow> CLogType option" where
  "clog_type_from_integer v =
     find (\<lambda>t. clog_type_to_integer t = v) [ERROR, MTR_BEGIN, MTR_COMMIT, MTR_ROLLBACK, INSERT, UPDATE, DELETE]"

record CLogRecordHeader =
  lh_lsn :: int
  lh_trx_id :: int
  lh_type :: int
  lh_logrec_len :: int

record CLogRecordData =
  ld_table_id :: int
  ld_page_num :: int
  ld_slot_num :: int
  ld_data_len :: int
  ld_data_offset :: int
  ld_data :: "byte list option"

record CLogRecord =
  lr_header :: CLogRecordHeader
  lr_data :: CLogRecordData
  lr_commit_xid :: int

definition new_log_record :: CLogRecord where
  "new_log_record =
     \<lparr>lr_header = \<lparr>lh_lsn = -1, lh_trx_id = -1, lh_type = clog_type_to_integer ERROR, lh_logrec_len = 0\<rparr>,
      lr_data = \<lparr>ld_table_id = -1, ld_page_num = 0, ld_slot_num = 0, ld_data_len = 0, ld_data_offset = 0, ld_data = None\<rparr>,
      lr_commit_xid = -1\<rparr>"

definition HEADER_SIZE :: nat where "HEADER_SIZE = 24"

definition log_type :: "CLogRecord \<Rightarrow> CLogType option" where
  "log_type r = clog_type_from_integer (lh_type (lr_header r))"

definition log_trx_id :: "CLogRecord \<Rightarrow> int" where
  "log_trx_id r = lh_trx_id (lr_header r)"

definition logrec_len :: "CLogRecord \<Rightarrow> int" where
  "logrec_len r = lh_logrec_len (lr_header r)"

definition build_mtr_record :: "CLogType \<Rightarrow> int \<Rightarrow> CLogRecord" where
  "build_mtr_record kind trx_id =
     new_log_record\<lparr>lr_header := (lr_header new_log_record)\<lparr>lh_trx_id := trx_id, lh_type := clog_type_to_integer kind\<rparr>\<rparr>"

definition build_commit_record :: "int \<Rightarrow> int \<Rightarrow> CLogRecord" where
  "build_commit_record trx_id commit_xid =
     new_log_record
       \<lparr>lr_header := (lr_header new_log_record)
          \<lparr>lh_type := clog_type_to_integer MTR_COMMIT, lh_trx_id := trx_id, lh_logrec_len := 4\<rparr>,
        lr_commit_xid := commit_xid\<rparr>"

definition build_data_record :: "CLogType \<Rightarrow> int \<Rightarrow> int \<Rightarrow> RID \<Rightarrow> nat \<Rightarrow> int \<Rightarrow> byte list \<Rightarrow> CLogRecord" where
  "build_data_record kind trx_id table_id rid data_len data_offset dat =
     new_log_record
       \<lparr>lr_header := (lr_header new_log_record)
          \<lparr>lh_trx_id := trx_id, lh_type := clog_type_to_integer kind, lh_logrec_len := int (HEADER_SIZE + data_len)\<rparr>,
        lr_data := \<lparr>ld_table_id = table_id, ld_page_num = int (rid_page rid), ld_slot_num = int (rid_slot rid),
          ld_data_len = int data_len, ld_data_offset = data_offset,
          ld_data = (if data_len > 0 then Some (take data_len dat) else None)\<rparr>\<rparr>"


section \<open>Bytes of a log record\<close>

definition header_bytes :: "CLogRecordHeader \<Rightarrow> byte list" where
  "header_bytes h = i32_bytes (lh_lsn h) @ i32_bytes (lh_trx_id h) @ i32_bytes (lh_type h) @ i32_bytes (lh_logrec_len h)"

definition data_header_bytes :: "CLogRecordData \<Rightarrow> byte list" where
  "data_header_bytes d =
     i32_bytes (ld_table_id d) @ i32_bytes (ld_page_num d) @ i32_bytes (ld_slot_num d) @ i32_bytes (ld_data_len d) @
     i32_bytes (ld_data_offset d) @ [0, 0, 0, 0]"

definition i32_at :: "nat \<Rightarrow> byte list \<Rightarrow> int" where
  "i32_at a bs = bytes_i32 (drop a bs)"

definition read_header :: "byte list \<Rightarrow> CLogRecordHeader" where
  "read_header bs = \<lparr>lh_lsn = i32_at 0 bs, lh_trx_id = i32_at 4 bs, lh_type = i32_at 8 bs, lh_logrec_len = i32_at 12 bs\<rparr>"

definition log_record_build :: "CLogRecordHeader \<Rightarrow> byte list \<Rightarrow> CLogRecord" where
  "log_record_build header dat =
     (let r = new_log_record\<lparr>lr_header := header\<rparr> in
      if lh_logrec_len header \<le> 0 then r
      else if lh_type header = clog_type_to_integer MTR_COMMIT then r\<lparr>lr_commit_xid := i32_at 0 dat\<rparr>
      else
        r\<lparr>lr_data := \<lparr>ld_table_id = i32_at 0 dat, ld_page_num = i32_at 4 dat, ld_slot_num = i32_at 8 dat,
             ld_data_len = i32_at 12 dat, ld_data_offset = i32_at 16 dat,
             ld_data = (if lh_logrec_len header > int HEADER_SIZE
                        then Some (take (nat (lh_logrec_len header) - HEADER_SIZE) (drop HEADER_SIZE dat)) else None)\<rparr>\<rparr>)"

definition write_log_record :: "CLogRecord \<Rightarrow> byte list" where
  "write_log_record r =
     header_bytes (lr_header r) @
     (case log_type r of
        Some MTR_BEGIN \<Rightarrow> []
      | Some MTR_ROLLBACK \<Rightarrow> []
      | Some MTR_COMMIT \<Rightarrow> take (nat (lh_logrec_len (lr_header r))) (i32_bytes (lr_commit_xid r))
      | _ \<Rightarrow> data_header_bytes (lr_data r) @
             take (nat (ld_data_len (lr_data r))) (case ld_data (lr_data r) of Some bs \<Rightarrow> bs | None \<Rightarrow> []))"


section \<open>The buffer, the file and the iterator\<close>

definition CLOG_BUFFER_SIZE :: int where "CLOG_BUFFER_SIZE = 4 * 1024 * 1024"

record CLogFile =
  lf_bytes :: "byte list"
  lf_pos :: nat
  lf_eof :: bool

record CLogManager =
  lm_records :: "CLogRecord list"
  lm_total_size :: int
  lm_file :: CLogFile

definition append_log_record :: "CLogRecord \<Rightarrow> CLogManager \<Rightarrow> RC \<times> CLogManager" where
  "append_log_record r lm =
     (if lm_total_size lm + logrec_len r \<ge> CLOG_BUFFER_SIZE then (LOGBUF_FULL, lm)
      else (SUCCESS, lm\<lparr>lm_records := lm_records lm @ [r], lm_total_size := lm_total_size lm + logrec_len r\<rparr>))"

definition file_write :: "byte list \<Rightarrow> CLogFile \<Rightarrow> CLogFile" where
  "file_write bs f = f\<lparr>lf_bytes := lf_bytes f @ bs, lf_pos := length (lf_bytes f) + length bs\<rparr>"

text \<open>\<open>flush_buffer\<close>: the loop over the records that wait.\<close>

fun flush_records :: "CLogRecord list \<Rightarrow> CLogManager \<Rightarrow> CLogManager" where
  "flush_records [] lm = lm\<lparr>lm_records := []\<rparr>"
| "flush_records (r # rs) lm =
     flush_records rs (lm\<lparr>lm_file := file_write (write_log_record r) (lm_file lm), lm_total_size := lm_total_size lm - logrec_len r\<rparr>)"

definition CLogManager_sync :: "CLogManager \<Rightarrow> RC \<times> CLogManager" where
  "CLogManager_sync lm = (SUCCESS, flush_records (lm_records lm) lm)"

definition append_log :: "CLogType \<Rightarrow> int \<Rightarrow> int \<Rightarrow> RID \<Rightarrow> nat \<Rightarrow> int \<Rightarrow> byte list \<Rightarrow> CLogManager \<Rightarrow> RC \<times> CLogManager" where
  "append_log kind trx_id table_id rid data_len data_offset dat lm =
     append_log_record (build_data_record kind trx_id table_id rid data_len data_offset dat) lm"

definition begin_trx :: "int \<Rightarrow> CLogManager \<Rightarrow> RC \<times> CLogManager" where
  "begin_trx trx_id lm = append_log_record (build_mtr_record MTR_BEGIN trx_id) lm"

definition rollback_trx :: "int \<Rightarrow> CLogManager \<Rightarrow> RC \<times> CLogManager" where
  "rollback_trx trx_id lm = append_log_record (build_mtr_record MTR_ROLLBACK trx_id) lm"

definition commit_trx :: "int \<Rightarrow> int \<Rightarrow> CLogManager \<Rightarrow> RC \<times> CLogManager" where
  "commit_trx trx_id commit_xid lm =
     (let (rc, lm) = append_log_record (build_commit_record trx_id commit_xid) lm in
      if rc \<noteq> SUCCESS then (rc, lm) else CLogManager_sync lm)"

text \<open>\<open>read\<close>: the bytes, or the end of the file, behind which the position moves too.\<close>

definition file_read :: "nat \<Rightarrow> CLogFile \<Rightarrow> (RC + byte list) \<times> CLogFile" where
  "file_read len f =
     (if lf_pos f + len \<le> length (lf_bytes f)
      then (Inr (take len (drop (lf_pos f) (lf_bytes f))), f\<lparr>lf_pos := lf_pos f + len\<rparr>)
      else (Inl IOERR_READ, f\<lparr>lf_pos := length (lf_bytes f), lf_eof := True\<rparr>))"

definition CLogRecordIterator_next :: "CLogFile \<Rightarrow> (RC + CLogRecord) \<times> CLogFile" where
  "CLogRecordIterator_next f =
     (case file_read 16 f of
        (Inl rc, f) \<Rightarrow> (Inl (if lf_eof f then RECORD_EOF else rc), f)
      | (Inr bs, f) \<Rightarrow>
          let header = read_header bs; record_size = lh_logrec_len header in
          if record_size > 0
          then (case file_read (nat record_size) f of
                  (Inl rc, f) \<Rightarrow> (Inl rc, f)
                | (Inr dat, f) \<Rightarrow> (Inr (log_record_build header dat), f))
          else (Inr (log_record_build header []), f))"


lemma file_read_advances:
  "file_read n f = (Inr bs, f') \<Longrightarrow> lf_pos f' = lf_pos f + n \<and> lf_bytes f' = lf_bytes f \<and> lf_pos f + n \<le> length (lf_bytes f)"
  by (auto simp: file_read_def split: if_splits)

lemma next_advances:
  assumes "CLogRecordIterator_next f = (Inr r, f')"
  shows "lf_bytes f' = lf_bytes f \<and> lf_pos f < lf_pos f' \<and> lf_pos f < length (lf_bytes f)"
proof -
  obtain bs f1 where 1: "file_read 16 f = (Inr bs, f1)"
    using assms by (auto simp: CLogRecordIterator_next_def split: sum.splits prod.splits)
  show ?thesis
  proof (cases "lh_logrec_len (read_header bs) > 0")
    case True
    then obtain dat where "file_read (nat (lh_logrec_len (read_header bs))) f1 = (Inr dat, f')"
      using assms 1 by (auto simp: CLogRecordIterator_next_def Let_def split: sum.splits prod.splits)
    then show ?thesis using file_read_advances [OF 1] file_read_advances by fastforce
  next
    case False
    then show ?thesis using assms file_read_advances [OF 1] by (simp add: CLogRecordIterator_next_def Let_def 1)
  qed
qed

text \<open>The records of a file from the current position on, and the result the iteration ends with.\<close>

function read_records :: "CLogFile \<Rightarrow> CLogRecord list \<times> RC" where
  "read_records f =
     (case CLogRecordIterator_next f of
        (Inl rc, f') \<Rightarrow> ([], rc)
      | (Inr r, f') \<Rightarrow> let (rs, rc) = read_records f' in (r # rs, rc))"
  by pat_completeness auto

termination
  by (relation "measure (\<lambda>f. length (lf_bytes f) - lf_pos f)") (auto dest!: next_advances [OF sym])

declare read_records.simps [simp del]


section \<open>Reading what was written\<close>

lemma i32_at_simps [simp]:
  "i32_range v \<Longrightarrow> i32_at 0 (i32_bytes v @ rest) = v" "i32_range v \<Longrightarrow> i32_at 0 (i32_bytes v) = v"
  "4 \<le> a \<Longrightarrow> i32_at a (i32_bytes v @ rest) = i32_at (a - 4) rest"
  using bytes_i32_i32_bytes [of v "[]"] by (simp_all add: i32_at_def bytes_i32_i32_bytes)

lemma clog_type_roundtrip [simp]: "clog_type_from_integer (clog_type_to_integer t) = Some t"
  by (cases t) (simp_all add: clog_type_from_integer_def)

lemma clog_type_range [simp]: "i32_range (clog_type_to_integer t)"
  by (cases t) (simp_all add: i32_range_def)

lemma i32_small_consts [simp]: "i32_range (-1)" "i32_range 0" "i32_range 4"
  by (simp_all add: i32_range_def)

text \<open>The records that the log manager builds, with numbers that fit into 32 bits.\<close>

definition mtr_wf :: "CLogRecord \<Rightarrow> bool" where
  "mtr_wf r \<longleftrightarrow> (\<exists>kind t. kind \<in> {MTR_BEGIN, MTR_ROLLBACK} \<and> i32_range t \<and> r = build_mtr_record kind t)"

definition commit_wf :: "CLogRecord \<Rightarrow> bool" where
  "commit_wf r \<longleftrightarrow> (\<exists>t c. i32_range t \<and> i32_range c \<and> r = build_commit_record t c)"

definition data_wf :: "CLogRecord \<Rightarrow> bool" where
  "data_wf r \<longleftrightarrow> (\<exists>kind t tab rid n dat. kind \<in> {INSERT, UPDATE, DELETE} \<and> i32_range t \<and> i32_range tab \<and>
     i32_range (int (rid_page rid)) \<and> i32_range (int (rid_slot rid)) \<and> i32_range (int (HEADER_SIZE + n)) \<and> n \<le> length dat \<and>
     r = build_data_record kind t tab rid n 0 dat)"

definition log_wf :: "CLogRecord \<Rightarrow> bool" where
  "log_wf r \<longleftrightarrow> mtr_wf r \<or> commit_wf r \<or> data_wf r"

lemma read_header_bytes:
  assumes "i32_range (lh_lsn h)" "i32_range (lh_trx_id h)" "i32_range (lh_type h)" "i32_range (lh_logrec_len h)"
  shows "read_header (header_bytes h) = h"
  using assms by (simp add: read_header_def header_bytes_def)

text \<open>The bytes of a record behind its header, from which the record is built again.\<close>

definition body_of :: "CLogRecord \<Rightarrow> byte list \<Rightarrow> bool" where
  "body_of r dat \<longleftrightarrow> write_log_record r = header_bytes (lr_header r) @ dat \<and> read_header (header_bytes (lr_header r)) = lr_header r \<and>
     length dat = nat (lh_logrec_len (lr_header r)) \<and> log_record_build (lr_header r) dat = r"

lemma body_of_mtr:
  assumes "kind \<in> {MTR_BEGIN, MTR_ROLLBACK}" "i32_range t"
  shows "body_of (build_mtr_record kind t) []"
  using assms by (auto simp: body_of_def write_log_record_def log_type_def build_mtr_record_def new_log_record_def log_record_build_def
      simp del: clog_type_to_integer.simps intro!: read_header_bytes)

lemma body_of_commit:
  assumes "i32_range t" "i32_range c"
  shows "body_of (build_commit_record t c) (i32_bytes c)"
  using assms by (auto simp: body_of_def write_log_record_def log_type_def build_commit_record_def new_log_record_def log_record_build_def
      simp del: clog_type_to_integer.simps intro!: read_header_bytes)

lemma body_of_data:
  assumes "kind \<in> {INSERT, UPDATE, DELETE}" "i32_range t" "i32_range tab" "i32_range (int (rid_page rid))"
    "i32_range (int (rid_slot rid))" "i32_range (int (HEADER_SIZE + n))" "n \<le> length dat"
  defines "r \<equiv> build_data_record kind t tab rid n 0 dat"
  shows "body_of r (data_header_bytes (lr_data r) @ take n dat)"
proof -
  have h: "i32_range (int n)" using assms(6) by (simp add: i32_range_def HEADER_SIZE_def)
  have ty: "clog_type_to_integer kind \<noteq> clog_type_to_integer MTR_COMMIT" using assms(1) by auto
  have len: "length (data_header_bytes (lr_data r)) = HEADER_SIZE" by (simp add: data_header_bytes_def HEADER_SIZE_def)
  let ?dat = "data_header_bytes (lr_data r) @ take n dat"
  have ld: "lr_data r = \<lparr>ld_table_id = tab, ld_page_num = int (rid_page rid), ld_slot_num = int (rid_slot rid),
        ld_data_len = int n, ld_data_offset = 0, ld_data = (if n > 0 then Some (take n dat) else None)\<rparr>"
    and lh: "lr_header r = \<lparr>lh_lsn = -1, lh_trx_id = t, lh_type = clog_type_to_integer kind, lh_logrec_len = int (HEADER_SIZE + n)\<rparr>"
    and lc: "lr_commit_xid r = -1"
    by (simp_all add: r_def build_data_record_def new_log_record_def)
  have w: "write_log_record r = header_bytes (lr_header r) @ ?dat"
    using assms(1) by (auto simp: write_log_record_def log_type_def ld lh)
  have rh: "read_header (header_bytes (lr_header r)) = lr_header r" using assms(2,6) lh by (intro read_header_bytes) simp_all
  have dl: "length ?dat = nat (lh_logrec_len (lr_header r))" using len assms(7) by (simp add: lh)
  have tail: "drop HEADER_SIZE ?dat = take n dat" using len by simp
  have nums: "i32_at 0 ?dat = tab" "i32_at 4 ?dat = int (rid_page rid)" "i32_at 8 ?dat = int (rid_slot rid)" "i32_at 12 ?dat = int n" "i32_at 16 ?dat = 0"
    using assms(3-5) h by (simp_all add: data_header_bytes_def ld)
  have "log_record_build (lr_header r) ?dat = new_log_record\<lparr>lr_header := lr_header r, lr_data := lr_data r\<rparr>"
    unfolding log_record_build_def Let_def lh CLogRecordHeader.simps tail nums using ty assms(7)
    by (cases "n = 0") (simp_all add: HEADER_SIZE_def ld nat_add_distrib del: clog_type_to_integer.simps)
  also have "\<dots> = r" using lc by (cases r) (simp add: new_log_record_def)
  finally show ?thesis unfolding body_of_def using w rh dl by blast
qed

lemma log_wf_body: "log_wf r \<Longrightarrow> \<exists>dat. body_of r dat"
proof -
  have "mtr_wf r \<Longrightarrow> \<exists>dat. body_of r dat" unfolding mtr_wf_def using body_of_mtr by (elim exE conjE) blast
  moreover have "commit_wf r \<Longrightarrow> \<exists>dat. body_of r dat" unfolding commit_wf_def using body_of_commit by (elim exE conjE) blast
  moreover have "data_wf r \<Longrightarrow> \<exists>dat. body_of r dat" unfolding data_wf_def using body_of_data by (elim exE conjE) blast
  ultimately show "log_wf r \<Longrightarrow> \<exists>dat. body_of r dat" unfolding log_wf_def by (elim disjE)
qed

lemma next_written:
  assumes "log_wf r" "lf_bytes f = pre @ write_log_record r @ post" "lf_pos f = length pre"
  shows "CLogRecordIterator_next f = (Inr r, f\<lparr>lf_pos := length (pre @ write_log_record r)\<rparr>)"
proof -
  obtain dat where "body_of r dat" using log_wf_body [OF assms(1)] by (rule exE)
  then have r: "write_log_record r = header_bytes (lr_header r) @ dat" "read_header (header_bytes (lr_header r)) = lr_header r"
    "length dat = nat (lh_logrec_len (lr_header r))" "log_record_build (lr_header r) dat = r"
    by (simp_all add: body_of_def)
  have h: "length (header_bytes (lr_header r)) = 16" by (simp add: header_bytes_def)
  have 1: "file_read 16 f = (Inr (header_bytes (lr_header r)), f\<lparr>lf_pos := length pre + 16\<rparr>)"
    using assms(2,3) r(1) h by (simp add: file_read_def)
  show ?thesis
  proof (cases "lh_logrec_len (lr_header r) > 0")
    case True
    have "file_read (nat (lh_logrec_len (lr_header r))) (f\<lparr>lf_pos := length pre + 16\<rparr>) = (Inr dat, f\<lparr>lf_pos := length pre + 16 + length dat\<rparr>)"
      using assms(2) r(1,3) h by (simp add: file_read_def)
    then show ?thesis using True 1 r h by (simp add: CLogRecordIterator_next_def Let_def)
  next
    case False
    then have "dat = []" using r(3) by simp
    then show ?thesis using False 1 r h by (simp add: CLogRecordIterator_next_def Let_def)
  qed
qed

lemma read_written:
  assumes "\<forall>r \<in> set rs. log_wf r" "lf_bytes f = pre @ concat (map write_log_record rs)" "lf_pos f = length pre"
  shows "read_records f = (rs, RECORD_EOF)"
  using assms
proof (induction rs arbitrary: f pre)
  case Nil
  then show ?case by (subst read_records.simps) (simp add: CLogRecordIterator_next_def file_read_def)
next
  case (Cons r rs)
  let ?f = "f\<lparr>lf_pos := length (pre @ write_log_record r)\<rparr>"
  have "read_records ?f = (rs, RECORD_EOF)" by (rule Cons.IH [of _ "pre @ write_log_record r"]) (use Cons.prems in simp_all)
  then show ?case using next_written [of r f pre "concat (map write_log_record rs)"] Cons.prems by (subst read_records.simps) simp
qed

lemma flush_records_bytes:
  "lf_bytes (lm_file (flush_records rs lm)) = lf_bytes (lm_file lm) @ concat (map write_log_record rs)"
  "lm_records (flush_records rs lm) = []"
  "lm_total_size (flush_records rs lm) = lm_total_size lm - sum_list (map logrec_len rs)"
  by (induction rs arbitrary: lm) (simp_all add: file_write_def)


section \<open>Properties\<close>

text \<open>
  C29: after the buffer has been flushed behind the log records that the file already held, reading the
  file from its beginning gives all records in order, followed by the end of the file, and the buffer is empty.
\<close>

theorem log_roundtrip:
  assumes "\<forall>r \<in> set (old @ lm_records lm). log_wf r" "lf_bytes (lm_file lm) = concat (map write_log_record old)"
    "lm_total_size lm = sum_list (map logrec_len (lm_records lm))" "CLogManager_sync lm = (rc, lm')"
  shows "rc = SUCCESS \<and> lm_records lm' = [] \<and> lm_total_size lm' = 0 \<and>
    read_records ((lm_file lm')\<lparr>lf_pos := 0\<rparr>) = (old @ lm_records lm, RECORD_EOF)"
proof -
  have lm': "lm' = flush_records (lm_records lm) lm" "rc = SUCCESS" using assms(4) by (simp_all add: CLogManager_sync_def)
  have "lf_bytes (lm_file lm') = concat (map write_log_record (old @ lm_records lm))"
    using flush_records_bytes(1) assms(2) by (simp add: lm')
  then have "read_records ((lm_file lm')\<lparr>lf_pos := 0\<rparr>) = (old @ lm_records lm, RECORD_EOF)"
    by (intro read_written [where pre = "[]"]) (use assms(1) in simp_all)
  then show ?thesis using flush_records_bytes(2,3) assms(3) by (simp add: lm')
qed

definition demo_log :: CLogManager where
  "demo_log = \<lparr>lm_records = [build_mtr_record MTR_BEGIN 1, build_data_record INSERT 1 3 \<lparr>rid_page = 1, rid_slot = 2\<rparr> 2 0 [7, 8], build_commit_record 1 2],
     lm_total_size = 30, lm_file = \<lparr>lf_bytes = [], lf_pos = 0, lf_eof = False\<rparr>\<rparr>"

theorem log_roundtrip_witness:
  "read_records ((lm_file (snd (CLogManager_sync demo_log)))\<lparr>lf_pos := 0\<rparr>) = (lm_records demo_log, RECORD_EOF)"
proof -
  have "mtr_wf (build_mtr_record MTR_BEGIN 1)" unfolding mtr_wf_def
    by (intro exI [of _ MTR_BEGIN] exI [of _ 1]) (simp add: i32_range_def)
  moreover have "commit_wf (build_commit_record 1 2)" unfolding commit_wf_def
    by (intro exI [of _ 1] exI [of _ 2]) (simp add: i32_range_def)
  ultimately have "log_wf (build_mtr_record MTR_BEGIN 1)" "log_wf (build_commit_record 1 2)" by (simp_all add: log_wf_def)
  moreover have "log_wf (build_data_record INSERT 1 3 \<lparr>rid_page = 1, rid_slot = 2\<rparr> 2 0 [7, 8])"
  proof -
    have "data_wf (build_data_record INSERT 1 3 \<lparr>rid_page = 1, rid_slot = 2\<rparr> 2 0 [7, 8])"
      unfolding data_wf_def
      by (intro exI [of _ INSERT] exI [of _ 1] exI [of _ 3] exI [of _ "\<lparr>rid_page = 1, rid_slot = 2\<rparr>"] exI [of _ 2] exI [of _ "[7, 8]"])
        (simp add: i32_range_def HEADER_SIZE_def)
    then show ?thesis by (simp add: log_wf_def)
  qed
  ultimately have wf: "\<forall>r \<in> set ([] @ lm_records demo_log). log_wf r" by (simp add: demo_log_def)
  have "lm_total_size demo_log = sum_list (map logrec_len (lm_records demo_log))" "lf_bytes (lm_file demo_log) = concat (map write_log_record [])"
    by (simp_all add: demo_log_def logrec_len_def build_mtr_record_def build_data_record_def build_commit_record_def new_log_record_def HEADER_SIZE_def)
  from log_roundtrip [OF wf this(2,1) surjective_pairing] show ?thesis by simp
qed

end
