(* ===== verification/MvccTrx.thy ===== *)
theory MvccTrx
  imports TableStore CLog
begin

text \<open>
  Transactions: \<^verbatim>\<open>storage/trx/trx.h\<close>, \<^verbatim>\<open>mvcc_trx.h\<close> and \<^verbatim>\<open>mvcc_trx.cpp\<close>, \<^verbatim>\<open>vacuous_trx.cpp\<close>, and the recovery
  from the log in \<^verbatim>\<open>storage/clog/clog.cpp\<close>.

  Every record carries the number of the transaction that made it (begin) and of the one that deleted
  it (end); a negative number belongs to a transaction that has not committed. A transaction keeps the
  set of its operations and, when it commits, writes its commit number into the records of that set.

  \<^item> The state is the record \<open>Mvcc\<close>: the tables by their number, the log, and the transaction kit with
    its transaction objects, which are addressed by numbers.
  \<^item> The set of operations is a list without duplicates in the order of insertion. Two operations are
    the same when they concern the same record, whatever their types.
  \<^item> The record that a client hands to \<open>delete_record\<close> or \<open>update_record\<close> points into the page it was read
    from; the operations take its identifier and work on the stored record.
  \<^item> \<^verbatim>\<open>ASSERT\<close> does nothing in a release build and is left out. The transaction counter is a 32-bit integer that wraps.
\<close>

section \<open>State\<close>

datatype OperationType = OP_INSERT | OP_UPDATE | OP_DELETE | OP_UNDEFINED

record Operation =
  op_type :: OperationType
  op_table :: int
  op_rid :: RID

definition op_equal :: "Operation \<Rightarrow> Operation \<Rightarrow> bool" where
  "op_equal o1 o2 \<longleftrightarrow> op_table o1 = op_table o2 \<and> op_rid o1 = op_rid o2"

definition ops_insert :: "Operation \<Rightarrow> Operation list \<Rightarrow> Operation list \<times> bool" where
  "ops_insert opr ops = (if \<exists>x \<in> set ops. op_equal x opr then (ops, False) else (ops @ [opr], True))"

record MvccTrx =
  tx_id :: int
  tx_started :: bool
  tx_recovering :: bool
  tx_operations :: "Operation list"

record Mvcc =
  mv_tables :: "int \<rightharpoonup> Table"
  mv_log :: CLogManager
  mv_current :: int
  mv_trxes :: "nat list"
  mv_heap :: "nat \<Rightarrow> MvccTrx"

definition max_trx_id :: int where "max_trx_id = 2147483647"

abbreviation trx_kit_fields :: "FieldMeta list option" where
  "trx_kit_fields \<equiv> Some mvcc_fields"

definition begin_field :: "Table \<Rightarrow> FieldMeta" where "begin_field tb = tm_fields (tb_meta tb) ! 0"
definition end_field :: "Table \<Rightarrow> FieldMeta" where "end_field tb = tm_fields (tb_meta tb) ! 1"

definition table_of :: "Mvcc \<Rightarrow> int \<Rightarrow> Table" where
  "table_of s tid = the (mv_tables s tid)"

definition put_table :: "int \<Rightarrow> Table \<Rightarrow> Mvcc \<Rightarrow> Mvcc" where
  "put_table tid tb s = s\<lparr>mv_tables := (mv_tables s)(tid \<mapsto> tb)\<rparr>"

definition trx_update :: "nat \<Rightarrow> (MvccTrx \<Rightarrow> MvccTrx) \<Rightarrow> Mvcc \<Rightarrow> Mvcc" where
  "trx_update h f s = s\<lparr>mv_heap := (mv_heap s)(h := f (mv_heap s h))\<rparr>"


section \<open>The kit\<close>

definition next_trx_id :: "Mvcc \<Rightarrow> int \<times> Mvcc" where
  "next_trx_id s = (let n = wrap_i32 (mv_current s + 1) in (n, s\<lparr>mv_current := n\<rparr>))"

text \<open>Both \<open>create_trx\<close>: a new object at the address \<open>h\<close>.\<close>

definition create_trx :: "nat \<Rightarrow> Mvcc \<Rightarrow> Mvcc" where
  "create_trx h s =
     s\<lparr>mv_heap := (mv_heap s)(h := \<lparr>tx_id = -1, tx_started = False, tx_recovering = False, tx_operations = []\<rparr>),
       mv_trxes := mv_trxes s @ [h]\<rparr>"

definition create_trx_recovering :: "nat \<Rightarrow> int \<Rightarrow> Mvcc \<Rightarrow> Mvcc" where
  "create_trx_recovering h trx_id s =
     s\<lparr>mv_heap := (mv_heap s)(h := \<lparr>tx_id = trx_id, tx_started = True, tx_recovering = True, tx_operations = []\<rparr>),
       mv_trxes := mv_trxes s @ [h],
       mv_current := (if mv_current s < trx_id then trx_id else mv_current s)\<rparr>"

definition destroy_trx :: "nat \<Rightarrow> Mvcc \<Rightarrow> Mvcc" where
  "destroy_trx h s = s\<lparr>mv_trxes := remove1 h (mv_trxes s)\<rparr>"

definition find_trx :: "int \<Rightarrow> Mvcc \<Rightarrow> nat option" where
  "find_trx trx_id s = find (\<lambda>h. tx_id (mv_heap s h) = trx_id) (mv_trxes s)"


section \<open>A transaction\<close>

text \<open>\<open>append_log\<close> on the log of the state.\<close>

definition log_data :: "CLogType \<Rightarrow> int \<Rightarrow> int \<Rightarrow> RID \<Rightarrow> nat \<Rightarrow> byte list \<Rightarrow> Mvcc \<Rightarrow> RC \<times> Mvcc" where
  "log_data kind trx_id table_id rid data_len dat s =
     (let (rc, lm) = append_log kind trx_id table_id rid data_len 0 dat (mv_log s) in (rc, s\<lparr>mv_log := lm\<rparr>))"

definition add_operation :: "nat \<Rightarrow> Operation \<Rightarrow> Mvcc \<Rightarrow> bool \<times> Mvcc" where
  "add_operation h opr s =
     (let (ops, new) = ops_insert opr (tx_operations (mv_heap s h)) in (new, trx_update h (\<lambda>tx. tx\<lparr>tx_operations := ops\<rparr>) s))"

definition new_version :: "int \<Rightarrow> Table \<Rightarrow> byte list \<Rightarrow> byte list" where
  "new_version trx_id tb rec = field_set_int (end_field tb) max_trx_id (field_set_int (begin_field tb) (- trx_id) rec)"

definition MvccTrx_insert_record ::
  "float_sub \<Rightarrow> nat \<Rightarrow> int \<Rightarrow> RC + RID \<Rightarrow> byte list \<Rightarrow> Mvcc \<Rightarrow> (RC \<times> Mvcc) option" where
  "MvccTrx_insert_record fsub h tid place rec s =
     (let trx_id = tx_id (mv_heap s h); rec = new_version trx_id (table_of s tid) rec in
      case Table_insert_record fsub trx_kit_fields place rec (table_of s tid) of
        None \<Rightarrow> None
      | Some (rc, tb) \<Rightarrow>
          let s = put_table tid tb s in
          if rc \<noteq> SUCCESS then Some (rc, s)
          else
            let rid = (case place of Inr rid \<Rightarrow> rid);
                (rc, s) = log_data INSERT trx_id tid rid (length rec) rec s;
                (new, s) = add_operation h \<lparr>op_type = OP_INSERT, op_table = tid, op_rid = rid\<rparr> s in
            Some (if \<not> new then INTERNAL else rc, s))"

definition MvccTrx_delete_record :: "float_sub \<Rightarrow> nat \<Rightarrow> int \<Rightarrow> RID \<Rightarrow> Mvcc \<Rightarrow> (RC \<times> Mvcc) option" where
  "MvccTrx_delete_record fsub h tid rid s =
     (let trx_id = tx_id (mv_heap s h); tb = table_of s tid; rec = the (tb_records tb rid);
          end_xid = field_get_int (end_field tb) rec in
      if end_xid \<noteq> max_trx_id then Some (SUCCESS, s)
      else
        let rec = field_set_int (end_field tb) (- trx_id) rec; tb = put_record rid rec tb in
        case delete_entry_of_indexes fsub trx_kit_fields False rid rec tb of
          None \<Rightarrow> None
        | Some (_, tb) \<Rightarrow>
            let s = put_table tid tb s;
                (rc, s) = log_data DELETE trx_id tid rid 0 [] s;
                (new, s) = add_operation h \<lparr>op_type = OP_DELETE, op_table = tid, op_rid = rid\<rparr> s in
            Some (SUCCESS, s))"

definition MvccTrx_visit_record :: "MvccTrx \<Rightarrow> Table \<Rightarrow> byte list \<Rightarrow> bool \<Rightarrow> RC" where
  "MvccTrx_visit_record tx tb rec readonly =
     (let begin_xid = field_get_int (begin_field tb) rec; end_xid = field_get_int (end_field tb) rec; trx_id = tx_id tx in
      if begin_xid > 0 \<and> end_xid > 0
      then if trx_id \<ge> begin_xid \<and> trx_id \<le> end_xid then SUCCESS else RECORD_INVISIBLE
      else if begin_xid < 0 then if - begin_xid = trx_id then SUCCESS else RECORD_INVISIBLE
      else if end_xid < 0
      then if readonly then if - end_xid \<noteq> trx_id then SUCCESS else RECORD_INVISIBLE
           else if - end_xid \<noteq> trx_id then LOCKED_CONCURRENCY_CONFLICT else RECORD_INVISIBLE
      else SUCCESS)"

definition MvccTrx_update_record ::
  "float_sub \<Rightarrow> nat \<Rightarrow> int \<Rightarrow> RID \<Rightarrow> RC + RID \<Rightarrow> byte list \<Rightarrow> Mvcc \<Rightarrow> (RC \<times> Mvcc) option" where
  "MvccTrx_update_record fsub h tid rid place new_rec s =
     (let tx = mv_heap s h; tb = table_of s tid; rec = the (tb_records tb rid); rc = MvccTrx_visit_record tx tb rec False in
      if rc \<noteq> SUCCESS then Some (rc, s)
      else
        let rec = field_set_int (end_field tb) (- tx_id tx) rec; tb = put_record rid rec tb; new_rec = new_version (tx_id tx) tb new_rec in
        case delete_entry_of_indexes fsub trx_kit_fields False rid rec tb of
          None \<Rightarrow> None
        | Some (_, tb) \<Rightarrow>
            (case Table_insert_record fsub trx_kit_fields place new_rec tb of
               None \<Rightarrow> None
             | Some (rc, tb) \<Rightarrow>
                 if rc \<noteq> SUCCESS
                 then map_option (\<lambda>(_, tb). (rc, put_table tid tb s)) (insert_entry_of_indexes fsub trx_kit_fields rid rec tb)
                 else
                   let new_rid = (case place of Inr r \<Rightarrow> r);
                       s = put_table tid tb s;
                       (rc, s) = log_data DELETE (tx_id tx) tid rid 0 [] s;
                       (rc, s) = log_data INSERT (tx_id tx) tid new_rid (length new_rec) new_rec s;
                       (new, s) = add_operation h \<lparr>op_type = OP_DELETE, op_table = tid, op_rid = rid\<rparr> s;
                       (new, s) = add_operation h \<lparr>op_type = OP_INSERT, op_table = tid, op_rid = new_rid\<rparr> s in
                   Some (SUCCESS, s)))"

definition start_if_need :: "nat \<Rightarrow> Mvcc \<Rightarrow> RC \<times> Mvcc" where
  "start_if_need h s =
     (if tx_started (mv_heap s h) then (SUCCESS, s)
      else
        let (n, s) = next_trx_id s; (rc, lm) = begin_trx n (mv_log s); s = s\<lparr>mv_log := lm\<rparr> in
        (SUCCESS, trx_update h (\<lambda>tx. tx\<lparr>tx_id := n, tx_started := True\<rparr>) s))"

text \<open>
  The loops over the operations of \<open>commit_with_trx_id\<close> and \<open>rollback\<close>; the result is that of the last operation.
  When \<open>rollback\<close> does not find an inserted record it goes on to delete the empty record object, through a null
  pointer and an identifier that was never set: undefined behaviour, which is \<open>None\<close>.
\<close>

fun commit_ops :: "int \<Rightarrow> Operation list \<Rightarrow> RC \<Rightarrow> (int \<rightharpoonup> Table) \<Rightarrow> RC \<times> (int \<rightharpoonup> Table)" where
  "commit_ops commit_xid [] rc T = (rc, T)"
| "commit_ops commit_xid (x # ops) rc T =
     (let tb = the (T (op_table x)) in
      case op_type x of
        OP_INSERT \<Rightarrow>
          let (rc, tb') = Table_visit_record (op_rid x) (field_set_int (begin_field tb) commit_xid) tb
          in commit_ops commit_xid ops rc (T(op_table x \<mapsto> tb'))
      | OP_DELETE \<Rightarrow>
          let (rc, tb') = Table_visit_record (op_rid x) (field_set_int (end_field tb) commit_xid) tb
          in commit_ops commit_xid ops rc (T(op_table x \<mapsto> tb'))
      | _ \<Rightarrow> commit_ops commit_xid ops rc T)"

definition commit_with_trx_id :: "nat \<Rightarrow> int \<Rightarrow> Mvcc \<Rightarrow> RC \<times> Mvcc" where
  "commit_with_trx_id h commit_xid s =
     (let tx = mv_heap s h; (rc, T) = commit_ops commit_xid (tx_operations tx) SUCCESS (mv_tables s);
          s = trx_update h (\<lambda>tx. tx\<lparr>tx_started := False, tx_operations := []\<rparr>) (s\<lparr>mv_tables := T\<rparr>) in
      if rc \<noteq> SUCCESS then (rc, s)
      else if \<not> tx_recovering tx
      then let (rc, lm) = commit_trx (tx_id tx) commit_xid (mv_log s) in (rc, s\<lparr>mv_log := lm\<rparr>)
      else (rc, s))"

definition MvccTrx_commit :: "nat \<Rightarrow> Mvcc \<Rightarrow> RC \<times> Mvcc" where
  "MvccTrx_commit h s = (let (n, s) = next_trx_id s in commit_with_trx_id h n s)"

fun rollback_ops :: "float_sub \<Rightarrow> Operation list \<Rightarrow> RC \<Rightarrow> (int \<rightharpoonup> Table) \<Rightarrow> (RC \<times> (int \<rightharpoonup> Table)) option" where
  "rollback_ops fsub [] rc T = Some (rc, T)"
| "rollback_ops fsub (x # ops) rc T =
     (let tb = the (T (op_table x)) in
      case op_type x of
        OP_INSERT \<Rightarrow>
          (case Table_get_record (op_rid x) tb of
             Inl _ \<Rightarrow> None
           | Inr rec \<Rightarrow>
               (case Table_delete_record fsub trx_kit_fields (op_rid x) rec tb of
                  None \<Rightarrow> None
                | Some (rc, tb') \<Rightarrow> rollback_ops fsub ops rc (T(op_table x \<mapsto> tb'))))
      | OP_UNDEFINED \<Rightarrow> rollback_ops fsub ops rc T
      | _ \<Rightarrow>
          let (rc, tb') = Table_visit_record (op_rid x) (field_set_int (end_field tb) max_trx_id) tb
          in rollback_ops fsub ops rc (T(op_table x \<mapsto> tb')))"

definition MvccTrx_rollback :: "float_sub \<Rightarrow> nat \<Rightarrow> Mvcc \<Rightarrow> (RC \<times> Mvcc) option" where
  "MvccTrx_rollback fsub h s =
     (let tx = mv_heap s h in
      case rollback_ops fsub (tx_operations tx) SUCCESS (mv_tables s) of
        None \<Rightarrow> None
      | Some (rc, T) \<Rightarrow>
          let s = trx_update h (\<lambda>tx. tx\<lparr>tx_started := False, tx_operations := []\<rparr>) (s\<lparr>mv_tables := T\<rparr>) in
          if \<not> tx_recovering tx
          then let (rc, lm) = rollback_trx (tx_id tx) (mv_log s) in Some (rc, s\<lparr>mv_log := lm\<rparr>)
          else Some (rc, s))"


section \<open>Recovery\<close>

definition log_rid :: "CLogRecord \<Rightarrow> RID" where
  "log_rid r = \<lparr>rid_page = nat (ld_page_num (lr_data r)), rid_slot = nat (ld_slot_num (lr_data r))\<rparr>"

definition log_bytes :: "CLogRecord \<Rightarrow> byte list" where
  "log_bytes r = (case ld_data (lr_data r) of Some bs \<Rightarrow> bs | None \<Rightarrow> [])"

definition MvccTrx_redo :: "float_sub \<Rightarrow> nat \<Rightarrow> CLogRecord \<Rightarrow> Mvcc \<Rightarrow> (RC \<times> Mvcc) option" where
  "MvccTrx_redo fsub h r s =
     (let tid = ld_table_id (lr_data r); rid = log_rid r in
      if log_type r \<in> {Some INSERT, Some UPDATE, Some DELETE} \<and> mv_tables s tid = None then Some (SCHEMA_TABLE_NOT_EXIST, s)
      else
        case log_type r of
          Some INSERT \<Rightarrow>
            (case Table_recover_insert_record fsub trx_kit_fields rid (log_bytes r) (table_of s tid) of
               None \<Rightarrow> None
             | Some (rc, tb) \<Rightarrow>
                 let s = put_table tid tb s in
                 if rc \<noteq> SUCCESS then Some (rc, s)
                 else Some (SUCCESS, snd (add_operation h \<lparr>op_type = OP_INSERT, op_table = tid, op_rid = rid\<rparr> s)))
        | Some DELETE \<Rightarrow>
            let tb = table_of s tid;
                (_, tb) = Table_visit_record rid (field_set_int (end_field tb) (- tx_id (mv_heap s h))) tb in
            Some (SUCCESS, snd (add_operation h \<lparr>op_type = OP_DELETE, op_table = tid, op_rid = rid\<rparr> (put_table tid tb s)))
        | Some MTR_COMMIT \<Rightarrow> Some (SUCCESS, snd (commit_with_trx_id h (lr_commit_xid r) s))
        | Some MTR_ROLLBACK \<Rightarrow> map_option (\<lambda>(_, s). (SUCCESS, s)) (MvccTrx_rollback fsub h s)
        | _ \<Rightarrow> Some (INTERNAL, s))"

text \<open>
  The loop of \<open>recover\<close> over the log records. New transaction objects get the addresses from \<open>a\<close> on. A
  record of a transaction that is not known ends the recovery; for a data record the code has only an assertion.
\<close>

fun redo_records :: "float_sub \<Rightarrow> nat \<Rightarrow> CLogRecord list \<Rightarrow> Mvcc \<Rightarrow> (RC \<times> Mvcc) option" where
  "redo_records fsub a [] s = Some (SUCCESS, s)"
| "redo_records fsub a (r # rs) s =
     (if log_type r = Some MTR_BEGIN then redo_records fsub (Suc a) rs (create_trx_recovering a (log_trx_id r) s)
      else
        case find_trx (log_trx_id r) s of
          None \<Rightarrow> Some (INTERNAL, s)
        | Some h \<Rightarrow>
            (case MvccTrx_redo fsub h r s of
               None \<Rightarrow> None
             | Some (rc, s) \<Rightarrow> if rc \<noteq> SUCCESS then Some (rc, s) else redo_records fsub a rs s))"

fun rollback_all :: "float_sub \<Rightarrow> nat list \<Rightarrow> Mvcc \<Rightarrow> Mvcc option" where
  "rollback_all fsub [] s = Some s"
| "rollback_all fsub (h # hs) s =
     (case MvccTrx_rollback fsub h s of None \<Rightarrow> None | Some (_, s) \<Rightarrow> rollback_all fsub hs (destroy_trx h s))"

definition CLogManager_recover :: "float_sub \<Rightarrow> nat \<Rightarrow> Mvcc \<Rightarrow> (RC \<times> Mvcc) option" where
  "CLogManager_recover fsub a s =
     (case read_records (lm_file (mv_log s)) of (rs, end_rc) \<Rightarrow>
      case redo_records fsub a rs s of
        None \<Rightarrow> None
      | Some (rc, s) \<Rightarrow>
          if rc \<noteq> SUCCESS then Some (rc, s)
          else if end_rc \<noteq> RECORD_EOF then Some (end_rc, s)
          else map_option (\<lambda>s. (SUCCESS, s)) (rollback_all fsub (mv_trxes s) s))"


section \<open>The transaction manager that does nothing\<close>

definition VacuousTrx_insert_record :: "float_sub \<Rightarrow> RC + RID \<Rightarrow> byte list \<Rightarrow> Table \<Rightarrow> (RC \<times> Table) option" where
  "VacuousTrx_insert_record fsub place rec tb = Table_insert_record fsub None place rec tb"

definition VacuousTrx_delete_record :: "float_sub \<Rightarrow> RID \<Rightarrow> byte list \<Rightarrow> Table \<Rightarrow> (RC \<times> Table) option" where
  "VacuousTrx_delete_record fsub rid rec tb = Table_delete_record fsub None rid rec tb"

definition VacuousTrx_visit_record :: "Table \<Rightarrow> byte list \<Rightarrow> bool \<Rightarrow> RC" where
  "VacuousTrx_visit_record tb rec readonly = SUCCESS"

definition VacuousTrx_update_record :: "float_sub \<Rightarrow> RID \<Rightarrow> byte list \<Rightarrow> RID \<Rightarrow> byte list \<Rightarrow> Table \<Rightarrow> (RC \<times> Table) option" where
  "VacuousTrx_update_record fsub rid rec new_rid new_rec tb = Table_update_record fsub None rid rec new_rid new_rec tb"

end
