(* ===== verification/MvccInv.thy ===== *)
theory MvccInv
  imports MvccTrx
begin

text \<open>
  The invariant of the multi-version transactions, over any interleaving of the operations of several
  transactions on tables without indexes, and what commit and rollback do to the stored versions.
\<close>

section \<open>Versions\<close>

definition v_begin :: "byte list \<Rightarrow> int" where "v_begin rec = load_i32 (bytes_mem rec) 0"
definition v_end :: "byte list \<Rightarrow> int" where "v_end rec = load_i32 (bytes_mem rec) 4"
definition v_rest :: "byte list \<Rightarrow> byte list" where "v_rest rec = drop 8 rec"

definition with_begin :: "int \<Rightarrow> byte list \<Rightarrow> byte list" where
  "with_begin v rec = read_bytes (store_i32 (bytes_mem rec) 0 v) 0 (length rec)"

definition with_end :: "int \<Rightarrow> byte list \<Rightarrow> byte list" where
  "with_end v rec = read_bytes (store_i32 (bytes_mem rec) 4 v) 0 (length rec)"

lemma bytes_mem_read_bytes: "i < n \<Longrightarrow> bytes_mem (read_bytes m 0 n) i = m i"
  by (rule bytes_mem_read)

lemma drop_read_bytes: "drop a (read_bytes m 0 n) = map m [a ..< n]"
  by (simp add: read_bytes_def drop_map)

lemma bytes_mem_drop: "drop a rec = map (bytes_mem rec) [a ..< length rec]"
  by (rule nth_equalityI) (auto simp: bytes_mem_def)

lemma load_with:
  assumes "a + 4 \<le> length rec"
  shows "load_i32 (bytes_mem (read_bytes (store_i32 (bytes_mem rec) b v) 0 (length rec))) a = load_i32 (store_i32 (bytes_mem rec) b v) a"
  by (rule load_i32_cong) (use assms in \<open>simp add: bytes_mem_read\<close>)

lemma version_simps [simp]:
  assumes "8 \<le> length rec"
  shows "i32_range x \<Longrightarrow> v_begin (with_begin x rec) = x" "v_end (with_begin x rec) = v_end rec"
    "v_begin (with_end x rec) = v_begin rec" "i32_range x \<Longrightarrow> v_end (with_end x rec) = x"
    "v_rest (with_begin x rec) = v_rest rec" "v_rest (with_end x rec) = v_rest rec"
  using assms
  by (simp_all add: v_begin_def v_end_def v_rest_def with_begin_def with_end_def load_with mem_simps drop_read_bytes bytes_mem_drop [of 8])

lemma version_length [simp]: "length (with_begin x rec) = length rec" "length (with_end x rec) = length rec"
  by (simp_all add: with_begin_def with_end_def)

text \<open>The tables of the transactions: begin and end are the first two fields; there are no indexes.\<close>

definition mvcc_table :: "Table \<Rightarrow> bool" where
  "mvcc_table tb \<longleftrightarrow> fm_offset (begin_field tb) = 0 \<and> fm_offset (end_field tb) = 4 \<and> tb_indexes tb = [] \<and>
     8 \<le> tm_record_size (tb_meta tb) \<and> (\<forall>rid rec. tb_records tb rid = Some rec \<longrightarrow> length rec = nat (tm_record_size (tb_meta tb)))"

lemma mvcc_table_fields [simp]:
  assumes "mvcc_table tb"
  shows "field_get_int (begin_field tb) rec = v_begin rec" "field_get_int (end_field tb) rec = v_end rec"
    "field_set_int (begin_field tb) x = with_begin x" "field_set_int (end_field tb) x = with_end x"
    "tb_indexes tb = []"
  using assms by (simp_all add: mvcc_table_def field_get_int_def field_set_int_def v_begin_def v_end_def with_begin_def with_end_def fun_eq_iff)

lemma mvcc_table_length: "mvcc_table tb \<Longrightarrow> tb_records tb rid = Some rec \<Longrightarrow> 8 \<le> length rec \<and> length rec = nat (tm_record_size (tb_meta tb))"
  by (auto simp: mvcc_table_def)

lemma table_updates [simp]:
  "tb_meta (put_record rid rec tb) = tb_meta tb" "tb_indexes (put_record rid rec tb) = tb_indexes tb"
  "tb_records (put_record rid rec tb) = (tb_records tb)(rid \<mapsto> rec)"
  "tb_meta (drop_record rid tb) = tb_meta tb" "tb_indexes (drop_record rid tb) = tb_indexes tb"
  "tb_records (drop_record rid tb) = (tb_records tb)(rid := None)"
  by (simp_all add: put_record_def drop_record_def)

lemma mvcc_table_put: "mvcc_table tb \<Longrightarrow> length rec = nat (tm_record_size (tb_meta tb)) \<Longrightarrow> mvcc_table (put_record rid rec tb)"
  by (simp add: mvcc_table_def begin_field_def end_field_def)

lemma mvcc_table_drop: "mvcc_table tb \<Longrightarrow> mvcc_table (drop_record rid tb)"
  by (auto simp: mvcc_table_def begin_field_def end_field_def)

text \<open>What a transaction sees of a version.\<close>

definition sees :: "int \<Rightarrow> bool \<Rightarrow> byte list \<Rightarrow> RC" where
  "sees t readonly rec =
     (if v_begin rec > 0 \<and> v_end rec > 0 then if v_begin rec \<le> t \<and> t \<le> v_end rec then SUCCESS else RECORD_INVISIBLE
      else if v_begin rec < 0 then if - v_begin rec = t then SUCCESS else RECORD_INVISIBLE
      else if v_end rec < 0
      then if - v_end rec = t then RECORD_INVISIBLE else if readonly then SUCCESS else LOCKED_CONCURRENCY_CONFLICT
      else SUCCESS)"

lemma visit_sees: "mvcc_table tb \<Longrightarrow> MvccTrx_visit_record tx tb rec readonly = sees (tx_id tx) readonly rec"
  by (simp add: MvccTrx_visit_record_def sees_def Let_def)


section \<open>The records of all tables\<close>

definition recs :: "(int \<rightharpoonup> Table) \<Rightarrow> int \<Rightarrow> RID \<rightharpoonup> byte list" where
  "recs T tid rid = (case T tid of None \<Rightarrow> None | Some tb \<Rightarrow> tb_records tb rid)"

definition tables_ok :: "(int \<rightharpoonup> Table) \<Rightarrow> bool" where
  "tables_ok T \<longleftrightarrow> (\<forall>tid tb. T tid = Some tb \<longrightarrow> mvcc_table tb)"

lemma recs_table: "T tid = Some tb \<Longrightarrow> recs T tid = tb_records tb"
  by (simp add: recs_def fun_eq_iff)

lemma recs_someE:
  assumes "recs T tid rid = Some rec"
  obtains tb where "T tid = Some tb" "tb_records tb rid = Some rec"
  using assms by (auto simp: recs_def split: option.splits)

lemma recs_length: "tables_ok T \<Longrightarrow> recs T tid rid = Some rec \<Longrightarrow> 8 \<le> length rec"
  by (elim recs_someE) (auto simp: tables_ok_def dest: mvcc_table_length)

lemma tables_ok_upd: "tables_ok T \<Longrightarrow> mvcc_table tb \<Longrightarrow> tables_ok (T(tid \<mapsto> tb))"
  by (simp add: tables_ok_def)

lemma recs_upd: "recs (T(tid \<mapsto> tb)) = (recs T)(tid := tb_records tb)"
  by (simp add: recs_def fun_eq_iff)

text \<open>A set of operations concerns each record once.\<close>

definition ops_of :: "OperationType \<Rightarrow> Operation list \<Rightarrow> int \<Rightarrow> RID \<Rightarrow> bool" where
  "ops_of kind ops tid rid \<longleftrightarrow> \<lparr>op_type = kind, op_table = tid, op_rid = rid\<rparr> \<in> set ops"

definition ops_distinct :: "Operation list \<Rightarrow> bool" where
  "ops_distinct ops \<longleftrightarrow> distinct (map (\<lambda>x. (op_table x, op_rid x)) ops)"

definition ops_stored :: "(int \<rightharpoonup> Table) \<Rightarrow> Operation list \<Rightarrow> bool" where
  "ops_stored T ops \<longleftrightarrow> (\<forall>x \<in> set ops. op_type x \<in> {OP_INSERT, OP_DELETE} \<and> recs T (op_table x) (op_rid x) \<noteq> None)"

definition commit_version :: "int \<Rightarrow> Operation list \<Rightarrow> int \<Rightarrow> RID \<Rightarrow> byte list \<Rightarrow> byte list" where
  "commit_version c ops tid rid rec =
     (if ops_of OP_INSERT ops tid rid then with_begin c rec else if ops_of OP_DELETE ops tid rid then with_end c rec else rec)"

lemma visit_ok:
  assumes "tables_ok T" "T tid = Some tb" "tb_records tb rid = Some rec" "length (f rec) = length rec"
  shows "Table_visit_record rid f tb = (SUCCESS, put_record rid (f rec) tb)" "tables_ok (T(tid \<mapsto> put_record rid (f rec) tb))"
    "recs (T(tid \<mapsto> put_record rid (f rec) tb)) = (recs T)(tid := (recs T tid)(rid \<mapsto> f rec))"
proof -
  show "Table_visit_record rid f tb = (SUCCESS, put_record rid (f rec) tb)" using assms(3) by (simp add: Table_visit_record_def)
  have "mvcc_table tb" using assms(1,2) by (simp add: tables_ok_def)
  then have "mvcc_table (put_record rid (f rec) tb)" using mvcc_table_put mvcc_table_length [OF _ assms(3)] assms(4) by simp
  then show "tables_ok (T(tid \<mapsto> put_record rid (f rec) tb))" using assms(1) by (intro tables_ok_upd)
  show "recs (T(tid \<mapsto> put_record rid (f rec) tb)) = (recs T)(tid := (recs T tid)(rid \<mapsto> f rec))"
    using assms(2) by (simp add: recs_upd recs_table)
qed


definition metas :: "(int \<rightharpoonup> Table) \<Rightarrow> int \<rightharpoonup> TableMeta" where
  "metas T tid = map_option tb_meta (T tid)"

lemma metas_upd: "T tid = Some tb \<Longrightarrow> tb_meta tb' = tb_meta tb \<Longrightarrow> metas (T(tid \<mapsto> tb')) = metas T"
  by (auto simp: metas_def fun_eq_iff)

lemma stored_head:
  assumes "ops_stored T (x # ops)"
  obtains tb rec where "T (op_table x) = Some tb" "tb_records tb (op_rid x) = Some rec" "op_type x \<in> {OP_INSERT, OP_DELETE}"
  using assms by (auto simp: ops_stored_def elim: recs_someE)

lemma ops_of_Cons: "ops_of kind (x # ops) tid rid \<longleftrightarrow> op_type x = kind \<and> op_table x = tid \<and> op_rid x = rid \<or> ops_of kind ops tid rid"
  by (cases x) (auto simp: ops_of_def)

lemma ops_of_image: "ops_of kind ops tid rid \<Longrightarrow> (tid, rid) \<in> (\<lambda>x. (op_table x, op_rid x)) ` set ops"
  unfolding ops_of_def by (drule imageI [where f = "\<lambda>x. (op_table x, op_rid x)"]) simp

lemma ops_distinct_Cons:
  "ops_distinct (x # ops) \<Longrightarrow> ops_distinct ops \<and> \<not> ops_of kind ops (op_table x) (op_rid x)"
  using ops_of_image [of kind ops "op_table x" "op_rid x"] by (auto simp: ops_distinct_def)

lemma stored_tail:
  assumes "ops_stored T (x # ops)" "ops_distinct (x # ops)"
    and "\<And>tid rid. tid \<noteq> op_table x \<or> rid \<noteq> op_rid x \<Longrightarrow> recs T' tid rid = recs T tid rid"
  shows "ops_stored T' ops"
  unfolding ops_stored_def
proof
  fix y assume y: "y \<in> set ops"
  then have "(op_table y, op_rid y) \<in> (\<lambda>x. (op_table x, op_rid x)) ` set ops" by (rule imageI)
  then have "op_table y \<noteq> op_table x \<or> op_rid y \<noteq> op_rid x" using assms(2) by (auto simp: ops_distinct_def)
  then show "op_type y \<in> {OP_INSERT, OP_DELETE} \<and> recs T' (op_table y) (op_rid y) \<noteq> None"
    using assms(1,3) y by (auto simp: ops_stored_def)
qed

lemma commit_ops_ok:
  "tables_ok T \<Longrightarrow> ops_distinct ops \<Longrightarrow> ops_stored T ops \<Longrightarrow> rc = SUCCESS \<Longrightarrow>
     \<exists>T'. commit_ops c ops rc T = (SUCCESS, T') \<and> tables_ok T' \<and> metas T' = metas T \<and>
       recs T' = (\<lambda>tid rid. map_option (commit_version c ops tid rid) (recs T tid rid))"
proof (induction ops arbitrary: T rc)
  case Nil
  have "commit_version c [] tid rid = (\<lambda>r. r)" for tid rid by (simp add: commit_version_def ops_of_def fun_eq_iff)
  then have "(\<lambda>tid rid. map_option (commit_version c [] tid rid) (recs T tid rid)) = recs T" by (simp add: option.map_ident)
  then show ?case using Nil by simp
next
  case (Cons x ops)
  obtain tb rec where x: "T (op_table x) = Some tb" "tb_records tb (op_rid x) = Some rec" "op_type x \<in> {OP_INSERT, OP_DELETE}"
    using Cons.prems(3) by (rule stored_head)
  let ?f = "if op_type x = OP_INSERT then with_begin c else with_end c"
  let ?T = "T(op_table x \<mapsto> put_record (op_rid x) (?f rec) tb)"
  have tb: "mvcc_table tb" using Cons.prems(1) x(1) by (simp add: tables_ok_def)
  note v = visit_ok [OF Cons.prems(1) x(1,2), of ?f]
  have d: "ops_distinct ops" "\<not> ops_of kind ops (op_table x) (op_rid x)" for kind using ops_distinct_Cons [OF Cons.prems(2)] by blast+
  have len: "length (?f rec) = length rec" by simp
  have st: "ops_stored ?T ops" by (rule stored_tail [OF Cons.prems(3,2)]) (use v(3) [OF len] in auto)
  obtain T' where T': "commit_ops c ops SUCCESS ?T = (SUCCESS, T')" "tables_ok T'" "metas T' = metas ?T"
    "recs T' = (\<lambda>tid rid. map_option (commit_version c ops tid rid) (recs ?T tid rid))"
    using Cons.IH [OF v(2) [OF len] d(1) st refl] by (elim exE conjE) (rule that)
  have "commit_ops c (x # ops) rc T = (SUCCESS, T')"
    using T'(1) v(1) [OF len] x(1,3) tb by (elim insertE) (simp_all add: Let_def)
  moreover have "recs T' = (\<lambda>tid rid. map_option (commit_version c (x # ops) tid rid) (recs T tid rid))"
  proof (intro ext)
    fix tid rid
    show "recs T' tid rid = map_option (commit_version c (x # ops) tid rid) (recs T tid rid)"
    proof (cases "tid = op_table x \<and> rid = op_rid x")
      case True
      then have "recs T tid rid = Some rec" using x by (simp add: recs_def)
      then show ?thesis using True x(3) d(2) unfolding T'(4) v(3) [OF len] by (auto simp: commit_version_def ops_of_Cons)
    next
      case False
      then have "commit_version c (x # ops) tid rid = commit_version c ops tid rid" by (auto simp: commit_version_def ops_of_Cons fun_eq_iff)
      then show ?thesis using False unfolding T'(4) v(3) [OF len] by auto
    qed
  qed
  moreover have "metas T' = metas T" unfolding T'(3) by (rule metas_upd [of T "op_table x", OF x(1)]) simp
  ultimately show ?case using T'(2) by blast
qed

definition undo_version :: "Operation list \<Rightarrow> int \<Rightarrow> RID \<Rightarrow> byte list option \<Rightarrow> byte list option" where
  "undo_version ops tid rid v =
     (if ops_of OP_INSERT ops tid rid then None else if ops_of OP_DELETE ops tid rid then map_option (with_end max_trx_id) v else v)"

lemma rollback_ops_ok:
  "tables_ok T \<Longrightarrow> ops_distinct ops \<Longrightarrow> ops_stored T ops \<Longrightarrow> rc = SUCCESS \<Longrightarrow>
     \<exists>T'. rollback_ops fsub ops rc T = Some (SUCCESS, T') \<and> tables_ok T' \<and> metas T' = metas T \<and>
       recs T' = (\<lambda>tid rid. undo_version ops tid rid (recs T tid rid))"
proof (induction ops arbitrary: T rc)
  case Nil
  then show ?case by (simp add: undo_version_def ops_of_def)
next
  case (Cons x ops)
  obtain tb rec where x: "T (op_table x) = Some tb" "tb_records tb (op_rid x) = Some rec" "op_type x \<in> {OP_INSERT, OP_DELETE}"
    using Cons.prems(3) by (rule stored_head)
  have tb: "mvcc_table tb" using Cons.prems(1) x(1) by (simp add: tables_ok_def)
  define tb' where "tb' = (if op_type x = OP_INSERT then drop_record (op_rid x) tb else put_record (op_rid x) (with_end max_trx_id rec) tb)"
  let ?T = "T(op_table x \<mapsto> tb')"
  have tb': "mvcc_table tb'" using mvcc_table_put mvcc_table_drop mvcc_table_length [OF tb x(2)] tb by (simp add: tb'_def)
  have recs': "recs ?T = (recs T)(op_table x := (recs T (op_table x))(op_rid x := if op_type x = OP_INSERT then None else Some (with_end max_trx_id rec)))"
    using x(1) by (auto simp: recs_upd recs_table tb'_def)
  have d: "ops_distinct ops" "\<not> ops_of kind ops (op_table x) (op_rid x)" for kind using ops_distinct_Cons [OF Cons.prems(2)] by blast+
  have st: "ops_stored ?T ops" by (rule stored_tail [OF Cons.prems(3,2)]) (use recs' in auto)
  obtain T' where T': "rollback_ops fsub ops SUCCESS ?T = Some (SUCCESS, T')" "tables_ok T'" "metas T' = metas ?T"
    "recs T' = (\<lambda>tid rid. undo_version ops tid rid (recs ?T tid rid))"
    using Cons.IH [OF tables_ok_upd [OF Cons.prems(1) tb'] d(1) st refl] by (elim exE conjE) (rule that)
  have "rollback_ops fsub (x # ops) rc T = Some (SUCCESS, T')"
    using T'(1) x tb plain_table(5) [of tb "op_rid x" rec fsub trx_kit_fields rec]
    by (elim insertE) (simp_all add: Let_def Table_get_record_def Table_visit_record_def tb'_def)
  moreover have "recs T' = (\<lambda>tid rid. undo_version (x # ops) tid rid (recs T tid rid))"
  proof (intro ext)
    fix tid rid
    show "recs T' tid rid = undo_version (x # ops) tid rid (recs T tid rid)"
    proof (cases "tid = op_table x \<and> rid = op_rid x")
      case True
      then have "recs T tid rid = Some rec" using x by (simp add: recs_def)
      then show ?thesis using True x(3) d(2) unfolding T'(4) recs' by (auto simp: undo_version_def ops_of_Cons)
    next
      case False
      then have "undo_version (x # ops) tid rid v = undo_version ops tid rid v" for v by (auto simp: undo_version_def ops_of_Cons)
      then show ?thesis using False unfolding T'(4) recs' by auto
    qed
  qed
  moreover have "metas T' = metas T" unfolding T'(3) by (rule metas_upd [of T "op_table x", OF x(1)]) (simp add: tb'_def)
  ultimately show ?case using T'(2) by blast
qed

section \<open>The invariant\<close>

text \<open>The version numbers of a stored record belong to transactions and commits that have happened.\<close>

definition version_ok :: "int \<Rightarrow> byte list \<Rightarrow> bool" where
  "version_ok cur rec \<longleftrightarrow> 8 \<le> length rec \<and> (0 < v_begin rec \<and> v_begin rec \<le> cur \<or> - cur \<le> v_begin rec \<and> v_begin rec < 0) \<and>
     (v_end rec = max_trx_id \<or> 0 < v_end rec \<and> v_end rec \<le> cur \<or> - cur \<le> v_end rec \<and> v_end rec < 0)"

text \<open>An operation of a transaction is visible in the record it concerns.\<close>

definition op_ok :: "(int \<Rightarrow> RID \<rightharpoonup> byte list) \<Rightarrow> int \<Rightarrow> Operation \<Rightarrow> bool" where
  "op_ok R t x \<longleftrightarrow> (\<exists>rec. R (op_table x) (op_rid x) = Some rec \<and>
     (op_type x = OP_INSERT \<and> v_begin rec = - t \<and> v_end rec \<in> {max_trx_id, - t} \<or>
      op_type x = OP_DELETE \<and> v_end rec = - t \<and> 0 < v_begin rec))"

definition trx_ok :: "int \<Rightarrow> (int \<Rightarrow> RID \<rightharpoonup> byte list) \<Rightarrow> MvccTrx \<Rightarrow> bool" where
  "trx_ok cur R tx \<longleftrightarrow>
     (if tx_started tx then 0 < tx_id tx \<and> tx_id tx \<le> cur else tx_operations tx = []) \<and>
     ops_distinct (tx_operations tx) \<and> (\<forall>x \<in> set (tx_operations tx). op_ok R (tx_id tx) x) \<and>
     (tx_started tx \<longrightarrow> (\<forall>tid rid rec. R tid rid = Some rec \<and> v_begin rec = - tx_id tx \<longrightarrow> ops_of OP_INSERT (tx_operations tx) tid rid))"

definition inv0 :: "int \<Rightarrow> (int \<Rightarrow> RID \<rightharpoonup> byte list) \<Rightarrow> nat list \<Rightarrow> (nat \<Rightarrow> MvccTrx) \<Rightarrow> bool" where
  "inv0 cur R hs H \<longleftrightarrow>
     0 \<le> cur \<and> cur < max_trx_id \<and> distinct hs \<and> (\<forall>tid rid rec. R tid rid = Some rec \<longrightarrow> version_ok cur rec) \<and>
     (\<forall>h \<in> set hs. trx_ok cur R (H h)) \<and>
     (\<forall>h \<in> set hs. \<forall>g \<in> set hs. tx_started (H h) \<and> tx_started (H g) \<and> tx_id (H h) = tx_id (H g) \<longrightarrow> h = g)"

definition mvcc_inv :: "Mvcc \<Rightarrow> bool" where
  "mvcc_inv s \<longleftrightarrow> tables_ok (mv_tables s) \<and> inv0 (mv_current s) (recs (mv_tables s)) (mv_trxes s) (mv_heap s)"

text \<open>What the operations do to the records.\<close>

definition upd_rec :: "int \<Rightarrow> RID \<Rightarrow> byte list \<Rightarrow> (int \<Rightarrow> RID \<rightharpoonup> byte list) \<Rightarrow> (int \<Rightarrow> RID \<rightharpoonup> byte list)" where
  "upd_rec tid rid rec R = R(tid := (R tid)(rid \<mapsto> rec))"

lemma upd_rec_apply: "upd_rec tid rid rec R tid' rid' = (if tid' = tid \<and> rid' = rid then Some rec else R tid' rid')"
  by (simp add: upd_rec_def)

text \<open>A transaction does not notice a change of a record it has no operation on.\<close>

lemma op_ok_other: "op_ok R t x \<Longrightarrow> (op_table x, op_rid x) \<noteq> (tid, rid) \<Longrightarrow> op_ok (upd_rec tid rid rec R) t x"
  by (auto simp: op_ok_def upd_rec_apply)

lemma trx_ok_other:
  assumes "trx_ok cur R tx" "cur \<le> cur'" "\<And>x. x \<in> set (tx_operations tx) \<Longrightarrow> (op_table x, op_rid x) \<noteq> (tid, rid)"
    "tx_started tx \<Longrightarrow> v_begin rec \<noteq> - tx_id tx"
  shows "trx_ok cur' (upd_rec tid rid rec R) tx"
  using assms by (auto simp: trx_ok_def upd_rec_apply intro!: op_ok_other)

text \<open>The operations that another transaction can have on a record.\<close>

lemma no_foreign_op:
  assumes "inv0 cur R hs H" "h \<in> set hs" "g \<in> set hs" "g \<noteq> h" "tx_started (H h)" "R tid rid = Some rec"
    and "v_begin rec = - tx_id (H h) \<or> 0 < v_begin rec \<and> (0 < v_end rec \<or> v_end rec = - tx_id (H h))"
    and "x \<in> set (tx_operations (H g))"
  shows "(op_table x, op_rid x) \<noteq> (tid, rid)"
proof
  assume eq: "(op_table x, op_rid x) = (tid, rid)"
  have g: "trx_ok cur R (H g)" and h: "trx_ok cur R (H h)" using assms(1-3) by (auto simp: inv0_def)
  have st: "tx_started (H g)" using assms(8) g by (auto simp: trx_ok_def split: if_splits)
  have id: "tx_id (H g) \<noteq> tx_id (H h)" using assms(1-5) st unfolding inv0_def by blast
  have pos: "0 < tx_id (H g)" "0 < tx_id (H h)" using g h st assms(5) by (simp_all add: trx_ok_def)
  have "op_ok R (tx_id (H g)) x" using g assms(8) by (simp add: trx_ok_def)
  then show False using eq assms(6,7) id pos by (auto simp: op_ok_def max_trx_id_def)
qed

lemma inv0_upd:
  assumes "inv0 cur R hs H" "h \<in> set hs" "version_ok cur rec" "trx_ok cur (upd_rec tid rid rec R) tx"
    "tx_id tx = tx_id (H h)" "tx_started tx = tx_started (H h)"
    and "\<And>g x. g \<in> set hs \<Longrightarrow> g \<noteq> h \<Longrightarrow> x \<in> set (tx_operations (H g)) \<Longrightarrow> (op_table x, op_rid x) \<noteq> (tid, rid)"
    and "\<And>g. g \<in> set hs \<Longrightarrow> g \<noteq> h \<Longrightarrow> tx_started (H g) \<Longrightarrow> v_begin rec \<noteq> - tx_id (H g)"
  shows "inv0 cur (upd_rec tid rid rec R) hs (H(h := tx))"
  unfolding inv0_def
proof (intro conjI ballI allI impI)
  show "0 \<le> cur" "cur < max_trx_id" "distinct hs" using assms(1) by (simp_all add: inv0_def)
  fix tid' rid' r assume "upd_rec tid rid rec R tid' rid' = Some r"
  then show "version_ok cur r" using assms(1,3) by (auto simp: inv0_def upd_rec_apply split: if_splits)
next
  fix g assume g: "g \<in> set hs"
  show "trx_ok cur (upd_rec tid rid rec R) ((H(h := tx)) g)"
  proof (cases "g = h")
    case False
    have "trx_ok cur R (H g)" using assms(1) g by (simp add: inv0_def)
    then have "trx_ok cur (upd_rec tid rid rec R) (H g)"
      by (rule trx_ok_other) (use assms(7,8) [OF g False] in simp_all)
    then show ?thesis using False by simp
  qed (simp add: assms(4))
next
  fix g g' assume "g \<in> set hs" "g' \<in> set hs"
    "tx_started ((H(h := tx)) g) \<and> tx_started ((H(h := tx)) g') \<and> tx_id ((H(h := tx)) g) = tx_id ((H(h := tx)) g')"
  then show "g = g'" using assms(1,2,5,6) unfolding inv0_def by (auto split: if_splits)
qed

lemma inv0_facts:
  assumes "inv0 cur R hs H" "h \<in> set hs"
  shows "trx_ok cur R (H h)" "R tid rid = Some rec \<Longrightarrow> version_ok cur rec"
    "tx_started (H h) \<Longrightarrow> 0 < tx_id (H h) \<and> tx_id (H h) \<le> cur \<and> i32_range (tx_id (H h)) \<and> i32_range (- tx_id (H h))"
    "i32_range max_trx_id"
  using assms by (auto simp: inv0_def trx_ok_def max_trx_id_def i32_range_def)

lemma inv0_distinct_ids:
  "inv0 cur R hs H \<Longrightarrow> h \<in> set hs \<Longrightarrow> g \<in> set hs \<Longrightarrow> g \<noteq> h \<Longrightarrow> tx_started (H h) \<Longrightarrow> tx_started (H g) \<Longrightarrow> tx_id (H g) \<noteq> tx_id (H h)"
  unfolding inv0_def by blast

lemma ops_ok_stored: "inv0 cur R hs H \<Longrightarrow> h \<in> set hs \<Longrightarrow> R tid rid = None \<Longrightarrow> x \<in> set (tx_operations (H h)) \<Longrightarrow> (op_table x, op_rid x) \<noteq> (tid, rid)"
  using inv0_facts(1) [of cur R hs H h] unfolding trx_ok_def op_ok_def by fastforce

text \<open>A new version in a free slot.\<close>

lemma inv0_new:
  assumes inv: "inv0 cur R hs H" "h \<in> set hs" "tx_started (H h)" and free: "R tid rid = None"
    and v: "8 \<le> length rec" "v_begin rec = - tx_id (H h)" "v_end rec = max_trx_id"
  shows "inv0 cur (upd_rec tid rid rec R) hs
    (H(h := (H h)\<lparr>tx_operations := tx_operations (H h) @ [\<lparr>op_type = OP_INSERT, op_table = tid, op_rid = rid\<rparr>]\<rparr>))"
proof (rule inv0_upd [OF inv(1,2)])
  note f = inv0_facts [OF inv(1,2)]
  show "version_ok cur rec" using v f(3) inv(3) by (simp add: version_ok_def)
  have "trx_ok cur (upd_rec tid rid rec R) (H h\<lparr>tx_operations := ops\<rparr>)"
    if "ops = tx_operations (H h) @ [\<lparr>op_type = OP_INSERT, op_table = tid, op_rid = rid\<rparr>]" for ops
    using f(1) inv(3) that v(2,3) ops_ok_stored [OF inv(1,2) free]
    by (auto simp: trx_ok_def ops_distinct_def op_ok_def upd_rec_apply ops_of_def split: if_splits)
  then show "trx_ok cur (upd_rec tid rid rec R) (H h\<lparr>tx_operations := tx_operations (H h) @ [\<lparr>op_type = OP_INSERT, op_table = tid, op_rid = rid\<rparr>]\<rparr>)" by simp
  show "v_begin rec \<noteq> - tx_id (H g)" if "g \<in> set hs" "g \<noteq> h" "tx_started (H g)" for g
    using v(2) inv0_distinct_ids [OF inv(1,2) that(1,2) inv(3) that(3)] by simp
qed (use ops_ok_stored [OF inv(1) _ free] in auto)

text \<open>The end of the newest version is taken, with or without an operation.\<close>

definition takable :: "(int \<Rightarrow> RID \<rightharpoonup> byte list) \<Rightarrow> int \<Rightarrow> int \<Rightarrow> RID \<Rightarrow> byte list \<Rightarrow> bool" where
  "takable R t tid rid rec \<longleftrightarrow> R tid rid = Some rec \<and> (0 < v_begin rec \<and> v_end rec = max_trx_id \<or> v_begin rec = - t)"

lemma takableD:
  assumes "mvcc_table tb" "tb_records tb rid = Some rec" "T tid = Some tb" "v_end rec = max_trx_id \<or> v_end rec < 0"
    "MvccTrx_visit_record tx tb rec False = SUCCESS" "version_ok cur rec"
  shows "takable (recs T) (tx_id tx) tid rid rec"
  using assms by (auto simp: takable_def recs_def visit_sees sees_def version_ok_def max_trx_id_def split: if_splits)

lemma inv0_take:
  assumes inv: "inv0 cur R hs H" "h \<in> set hs" "tx_started (H h)"
    and R: "R tid rid = Some rec" and e: "0 < v_end rec \<or> v_begin rec = - tx_id (H h)" and b: "0 < v_begin rec \<or> v_begin rec = - tx_id (H h)"
    and ops: "ops = tx_operations (H h) \<or> ops = fst (ops_insert \<lparr>op_type = OP_DELETE, op_table = tid, op_rid = rid\<rparr> (tx_operations (H h)))"
  shows "inv0 cur (upd_rec tid rid (with_end (- tx_id (H h)) rec) R) hs (H(h := (H h)\<lparr>tx_operations := ops\<rparr>))"
proof (rule inv0_upd [OF inv(1,2)])
  note f = inv0_facts [OF inv(1,2)]
  let ?rec = "with_end (- tx_id (H h)) rec" and ?t = "tx_id (H h)"
  have ok: "version_ok cur rec" using f(2) R .
  then have len: "8 \<le> length rec" by (simp add: version_ok_def)
  have v: "v_begin ?rec = v_begin rec" "v_end ?rec = - ?t" using f(3) inv(3) len by simp_all
  have pos: "0 < ?t" "?t \<le> cur" using f(3) inv(3) by simp_all
  show "version_ok cur ?rec" using ok v pos by (simp add: version_ok_def)
  have old: "op_ok (upd_rec tid rid ?rec R) ?t x" if "x \<in> set (tx_operations (H h))" for x
  proof -
    have "op_ok R ?t x" using f(1) that by (simp add: trx_ok_def)
    then show ?thesis using R e v pos by (auto simp: op_ok_def upd_rec_apply max_trx_id_def)
  qed
  have own: "ops_of OP_INSERT (tx_operations (H h)) tid' rid'" if "upd_rec tid rid ?rec R tid' rid' = Some r" "v_begin r = - ?t" for tid' rid' r
    using that f(1) inv(3) R v(1) by (auto simp: trx_ok_def upd_rec_apply split: if_splits)
  have base: "trx_ok cur (upd_rec tid rid ?rec R) (H h)"
    unfolding trx_ok_def using inv(3) pos f(1) old own by (auto simp: trx_ok_def)
  show "trx_ok cur (upd_rec tid rid ?rec R) (H h\<lparr>tx_operations := ops\<rparr>)"
  proof (cases "ops = tx_operations (H h)")
    case True
    then have "H h\<lparr>tx_operations := ops\<rparr> = H h" by simp
    then show ?thesis using base by simp
  next
    case False
    then have ops': "ops = tx_operations (H h) @ [\<lparr>op_type = OP_DELETE, op_table = tid, op_rid = rid\<rparr>]"
      and none: "\<And>x. x \<in> set (tx_operations (H h)) \<Longrightarrow> (op_table x, op_rid x) \<noteq> (tid, rid)"
      using ops by (auto simp: ops_insert_def op_equal_def split: if_splits)
    have nb: "0 < v_begin rec"
    proof (rule ccontr)
      assume "\<not> 0 < v_begin rec"
      then have "ops_of OP_INSERT (tx_operations (H h)) tid rid" using b f(1) R inv(3) by (auto simp: trx_ok_def)
      then show False using none unfolding ops_of_def by fastforce
    qed
    then have "op_ok (upd_rec tid rid ?rec R) ?t \<lparr>op_type = OP_DELETE, op_table = tid, op_rid = rid\<rparr>"
      using v by (simp add: op_ok_def upd_rec_apply)
    then show ?thesis using base none inv(3) unfolding ops' by (auto simp: trx_ok_def ops_distinct_def ops_of_def)
  qed
  fix g assume g: "g \<in> set hs" "g \<noteq> h"
  show "(op_table x, op_rid x) \<noteq> (tid, rid)" if "x \<in> set (tx_operations (H g))" for x
    by (rule no_foreign_op [OF inv(1,2) g inv(3) R _ that]) (use b e in auto)
  assume st: "tx_started (H g)"
  show "v_begin ?rec \<noteq> - tx_id (H g)"
    using b v(1) inv0_distinct_ids [OF inv(1,2) g inv(3) st] inv0_facts(3) [OF inv(1) g(1) st] by auto
qed simp_all

lemma ops_disjoint:
  assumes inv: "inv0 cur R hs H" "h \<in> set hs" "g \<in> set hs" "g \<noteq> h" and x: "x \<in> set (tx_operations (H h))" and y: "y \<in> set (tx_operations (H g))"
  shows "(op_table y, op_rid y) \<noteq> (op_table x, op_rid x)"
proof -
  note h = inv0_facts(1) [OF inv(1,2)]
  have st: "tx_started (H h)" using x h by (auto simp: trx_ok_def split: if_splits)
  have "op_ok R (tx_id (H h)) x" using x h by (simp add: trx_ok_def)
  then obtain rec where rec: "R (op_table x) (op_rid x) = Some rec"
    "v_begin rec = - tx_id (H h) \<or> v_end rec = - tx_id (H h) \<and> 0 < v_begin rec" by (auto simp: op_ok_def)
  show ?thesis by (rule no_foreign_op [OF inv st rec(1) _ y]) (use rec(2) in auto)
qed

lemma trx_ok_same:
  assumes "trx_ok cur R tx" "cur \<le> cur'" "\<And>x. x \<in> set (tx_operations tx) \<Longrightarrow> R' (op_table x) (op_rid x) = R (op_table x) (op_rid x)"
    and "\<And>tid rid rec. tx_started tx \<Longrightarrow> R' tid rid = Some rec \<Longrightarrow> v_begin rec = - tx_id tx \<Longrightarrow> \<exists>rec. R tid rid = Some rec \<and> v_begin rec = - tx_id tx"
  shows "trx_ok cur' R' tx"
  unfolding trx_ok_def
proof (intro conjI ballI impI allI)
  fix x assume x: "x \<in> set (tx_operations tx)"
  then have "op_ok R (tx_id tx) x" using assms(1) by (simp add: trx_ok_def)
  then show "op_ok R' (tx_id tx) x" using assms(3) [OF x] by (simp add: op_ok_def)
next
  fix tid rid rec assume "tx_started tx" "R' tid rid = Some rec \<and> v_begin rec = - tx_id tx"
  then obtain r where "R tid rid = Some r" "v_begin r = - tx_id tx" "tx_started tx" using assms(4) by blast
  then show "ops_of OP_INSERT (tx_operations tx) tid rid" using assms(1) unfolding trx_ok_def by blast
qed (use assms(1,2) in \<open>auto simp: trx_ok_def\<close>)

text \<open>The end of a transaction: its operations are gone and the versions of its records are settled.\<close>

lemma inv0_finish:
  assumes inv: "inv0 cur R hs H" "h \<in> set hs" and cur: "cur \<le> cur'" "cur' < max_trx_id"
    and same: "\<And>tid rid. \<not> ops_of OP_INSERT (tx_operations (H h)) tid rid \<Longrightarrow> \<not> ops_of OP_DELETE (tx_operations (H h)) tid rid \<Longrightarrow> R' tid rid = R tid rid"
    and ver: "\<And>tid rid rec. R' tid rid = Some rec \<Longrightarrow> version_ok cur' rec"
    and neg: "\<And>tid rid rec. R' tid rid = Some rec \<Longrightarrow> v_begin rec < 0 \<Longrightarrow> \<exists>rec0. R tid rid = Some rec0 \<and> v_begin rec0 = v_begin rec"
  shows "inv0 cur' R' hs (H(h := (H h)\<lparr>tx_started := False, tx_operations := []\<rparr>))"
  unfolding inv0_def
proof (intro conjI ballI allI impI)
  show "0 \<le> cur'" "cur' < max_trx_id" "distinct hs" using inv(1) cur by (auto simp: inv0_def)
  show "\<And>tid rid rec. R' tid rid = Some rec \<Longrightarrow> version_ok cur' rec" by (rule ver)
next
  fix g assume g: "g \<in> set hs"
  show "trx_ok cur' R' ((H(h := (H h)\<lparr>tx_started := False, tx_operations := []\<rparr>)) g)"
  proof (cases "g = h")
    case True
    then show ?thesis by (simp add: trx_ok_def ops_distinct_def)
  next
    case False
    note og = inv0_facts(1) [OF inv(1) g]
    have "trx_ok cur' R' (H g)"
    proof (rule trx_ok_same [OF og cur(1)])
      fix x assume x: "x \<in> set (tx_operations (H g))"
      have "\<not> ops_of k (tx_operations (H h)) (op_table x) (op_rid x)" for k
        using ops_disjoint [OF inv g False _ x] unfolding ops_of_def by fastforce
      then show "R' (op_table x) (op_rid x) = R (op_table x) (op_rid x)" by (intro same) simp_all
    next
      fix tid rid rec assume 1: "tx_started (H g)" "R' tid rid = Some rec" "v_begin rec = - tx_id (H g)"
      then show "\<exists>rec. R tid rid = Some rec \<and> v_begin rec = - tx_id (H g)" using neg [OF 1(2)] og by (auto simp: trx_ok_def)
    qed
    then show ?thesis using False by simp
  qed
next
  fix g g' assume "g \<in> set hs" "g' \<in> set hs" "tx_started ((H(h := (H h)\<lparr>tx_started := False, tx_operations := []\<rparr>)) g) \<and>
    tx_started ((H(h := (H h)\<lparr>tx_started := False, tx_operations := []\<rparr>)) g') \<and>
    tx_id ((H(h := (H h)\<lparr>tx_started := False, tx_operations := []\<rparr>)) g) = tx_id ((H(h := (H h)\<lparr>tx_started := False, tx_operations := []\<rparr>)) g')"
  then show "g = g'" using inv(1) unfolding inv0_def by (auto split: if_splits)
qed

text \<open>The operations of a transaction, as versions.\<close>

lemma op_version:
  assumes "trx_ok cur R tx" "ops_of kind (tx_operations tx) tid rid" "R tid rid = Some rec"
  shows "kind = OP_INSERT \<and> v_begin rec = - tx_id tx \<and> v_end rec \<in> {max_trx_id, - tx_id tx} \<or> kind = OP_DELETE \<and> v_end rec = - tx_id tx \<and> 0 < v_begin rec"
  using assms by (auto simp: trx_ok_def ops_of_def op_ok_def)

lemma one_kind: "ops_distinct ops \<Longrightarrow> ops_of k ops tid rid \<Longrightarrow> ops_of k' ops tid rid \<Longrightarrow> k = k'"
  unfolding ops_distinct_def ops_of_def distinct_map
  using inj_onD [of "\<lambda>x. (op_table x, op_rid x)" "set ops" "\<lparr>op_type = k, op_table = tid, op_rid = rid\<rparr>" "\<lparr>op_type = k', op_table = tid, op_rid = rid\<rparr>"]
  by auto

lemma commit_version_simps:
  assumes "version_ok cur rec" "cur < c" "c < max_trx_id" "0 \<le> cur"
  shows "ops_of OP_INSERT ops tid rid \<Longrightarrow> v_begin (commit_version c ops tid rid rec) = c \<and> v_end (commit_version c ops tid rid rec) = v_end rec"
    "\<not> ops_of OP_INSERT ops tid rid \<Longrightarrow> v_begin (commit_version c ops tid rid rec) = v_begin rec"
    "\<not> ops_of OP_INSERT ops tid rid \<Longrightarrow> v_end (commit_version c ops tid rid rec) = (if ops_of OP_DELETE ops tid rid then c else v_end rec)"
    "v_rest (commit_version c ops tid rid rec) = v_rest rec" "length (commit_version c ops tid rid rec) = length rec"
  using assms by (auto simp: commit_version_def version_ok_def i32_range_def max_trx_id_def)

lemma inv0_commit:
  assumes inv: "inv0 cur R hs H" "h \<in> set hs" and c: "cur + 1 < max_trx_id"
  shows "inv0 (cur + 1) (\<lambda>tid rid. map_option (commit_version (cur + 1) (tx_operations (H h)) tid rid) (R tid rid)) hs
    (H(h := (H h)\<lparr>tx_started := False, tx_operations := []\<rparr>))"
proof (rule inv0_finish [OF inv])
  have cur: "0 \<le> cur" using inv(1) by (simp add: inv0_def)
  note cv = commit_version_simps [OF _ _ c cur]
  fix tid rid
  show "map_option (commit_version (cur + 1) (tx_operations (H h)) tid rid) (R tid rid) = R tid rid"
    if "\<not> ops_of OP_INSERT (tx_operations (H h)) tid rid" "\<not> ops_of OP_DELETE (tx_operations (H h)) tid rid"
    using that by (cases "R tid rid") (simp_all add: commit_version_def)
  fix rec assume "map_option (commit_version (cur + 1) (tx_operations (H h)) tid rid) (R tid rid) = Some rec"
  then obtain r where r: "R tid rid = Some r" "rec = commit_version (cur + 1) (tx_operations (H h)) tid rid r" by blast
  have ok: "version_ok cur r" using inv0_facts(2) [OF inv r(1)] .
  show "version_ok (cur + 1) rec"
    using ok cv [OF ok] cur unfolding r(2) version_ok_def by (cases "ops_of OP_INSERT (tx_operations (H h)) tid rid") auto
  show "\<exists>rec0. R tid rid = Some rec0 \<and> v_begin rec0 = v_begin rec" if "v_begin rec < 0"
    using that r cv(1,2) [OF ok, of "tx_operations (H h)" tid rid] cur by (cases "ops_of OP_INSERT (tx_operations (H h)) tid rid") auto
qed (use c in simp_all)

lemma inv0_rollback:
  assumes inv: "inv0 cur R hs H" "h \<in> set hs"
  shows "inv0 cur (\<lambda>tid rid. undo_version (tx_operations (H h)) tid rid (R tid rid)) hs
    (H(h := (H h)\<lparr>tx_started := False, tx_operations := []\<rparr>))"
proof (rule inv0_finish [OF inv])
  show "cur < max_trx_id" using inv(1) by (simp add: inv0_def)
  fix tid rid
  show "undo_version (tx_operations (H h)) tid rid (R tid rid) = R tid rid"
    if "\<not> ops_of OP_INSERT (tx_operations (H h)) tid rid" "\<not> ops_of OP_DELETE (tx_operations (H h)) tid rid"
    using that by (simp add: undo_version_def)
  fix rec assume "undo_version (tx_operations (H h)) tid rid (R tid rid) = Some rec"
  then obtain r where r: "R tid rid = Some r" "rec = with_end max_trx_id r \<or> rec = r" by (auto simp: undo_version_def split: if_splits)
  have ok: "version_ok cur r" using inv0_facts(2) [OF inv r(1)] .
  then have v: "v_begin rec = v_begin r" "v_end rec \<in> {v_end r, max_trx_id}" "length rec = length r"
    using r(2) by (auto simp: version_ok_def i32_range_def max_trx_id_def)
  show "version_ok cur rec" using ok v by (auto simp: version_ok_def)
  show "\<exists>rec0. R tid rid = Some rec0 \<and> v_begin rec0 = v_begin rec" using r v by auto
qed simp

lemma version_ok_later: "version_ok cur rec \<Longrightarrow> cur \<le> cur' \<Longrightarrow> version_ok cur' rec"
  by (auto simp: version_ok_def)

lemma trx_ok_later: "trx_ok cur R tx \<Longrightarrow> cur \<le> cur' \<Longrightarrow> trx_ok cur' R tx"
  by (auto simp: trx_ok_def)

lemma inv0_start:
  assumes inv: "inv0 cur R hs H" "h \<in> set hs" "\<not> tx_started (H h)" and c: "cur + 1 < max_trx_id"
  shows "inv0 (cur + 1) R hs (H(h := (H h)\<lparr>tx_id := cur + 1, tx_started := True\<rparr>))"
  unfolding inv0_def
proof (intro conjI ballI allI impI)
  show "0 \<le> cur + 1" "cur + 1 < max_trx_id" "distinct hs" using inv(1) c by (simp_all add: inv0_def)
  show "version_ok (cur + 1) rec" if "R tid rid = Some rec" for tid rid rec using inv0_facts(2) [OF inv(1,2) that] version_ok_later by simp
next
  fix g assume g: "g \<in> set hs"
  have "trx_ok (cur + 1) R ((H h)\<lparr>tx_id := cur + 1, tx_started := True\<rparr>)"
    using inv0_facts(1,2) [OF inv(1,2)] inv(1,3) by (fastforce simp: trx_ok_def inv0_def version_ok_def)
  then show "trx_ok (cur + 1) R ((H(h := (H h)\<lparr>tx_id := cur + 1, tx_started := True\<rparr>)) g)"
    using trx_ok_later [OF inv0_facts(1) [OF inv(1) g]] by simp
next
  fix g g' assume g: "g \<in> set hs" "g' \<in> set hs" "tx_started ((H(h := (H h)\<lparr>tx_id := cur + 1, tx_started := True\<rparr>)) g) \<and>
    tx_started ((H(h := (H h)\<lparr>tx_id := cur + 1, tx_started := True\<rparr>)) g') \<and>
    tx_id ((H(h := (H h)\<lparr>tx_id := cur + 1, tx_started := True\<rparr>)) g) = tx_id ((H(h := (H h)\<lparr>tx_id := cur + 1, tx_started := True\<rparr>)) g')"
  then show "g = g'" using inv(1) inv0_facts(3) [OF inv(1) g(1)] inv0_facts(3) [OF inv(1) g(2)] unfolding inv0_def by (auto split: if_splits)
qed

lemma inv0_create:
  assumes "inv0 cur R hs H" "h \<notin> set hs" "tx_operations tx = []" "\<not> tx_started tx"
  shows "inv0 cur R (hs @ [h]) (H(h := tx))"
  using assms by (auto simp: inv0_def trx_ok_def ops_distinct_def)

lemma inv0_destroy: "inv0 cur R hs H \<Longrightarrow> inv0 cur R (remove1 h hs) H"
  using set_remove1_subset [of h hs] by (auto simp: inv0_def)
end
