(* ===== verification/MvccSteps.thy ===== *)
theory MvccSteps
  imports MvccInv
begin

text \<open>
  The operations of transactions in any interleaving, as a step relation: every operation of
  \<^verbatim>\<open>mvcc_trx.cpp\<close> on tables without indexes returns, has exactly the effect on versions and operation sets that
  theory \<open>MvccInv\<close> describes, and keeps the invariant.
\<close>

section \<open>Effects of the operations\<close>

definition effect :: "Mvcc \<Rightarrow> Mvcc \<Rightarrow> int \<Rightarrow> (int \<Rightarrow> RID \<rightharpoonup> byte list) \<Rightarrow> (nat \<Rightarrow> MvccTrx) \<Rightarrow> bool" where
  "effect s s' cur R H \<longleftrightarrow> tables_ok (mv_tables s') \<and> metas (mv_tables s') = metas (mv_tables s) \<and> recs (mv_tables s') = R \<and>
     mv_heap s' = H \<and> mv_current s' = cur \<and> mv_trxes s' = mv_trxes s"

lemma effect_inv: "effect s s' cur R H \<Longrightarrow> inv0 cur R (mv_trxes s) H \<Longrightarrow> mvcc_inv s'"
  by (simp add: effect_def mvcc_inv_def)

lemma state_parts [simp]:
  "mv_tables (put_table tid tb s) = (mv_tables s)(tid \<mapsto> tb)" "mv_heap (put_table tid tb s) = mv_heap s"
  "mv_current (put_table tid tb s) = mv_current s" "mv_trxes (put_table tid tb s) = mv_trxes s"
  "mv_tables (trx_update h f s) = mv_tables s" "mv_heap (trx_update h f s) = (mv_heap s)(h := f (mv_heap s h))"
  "mv_current (trx_update h f s) = mv_current s" "mv_trxes (trx_update h f s) = mv_trxes s"
  by (simp_all add: put_table_def trx_update_def)

lemma log_parts [simp]:
  "mv_tables (snd (log_data k t tid rid n dat s)) = mv_tables s" "mv_heap (snd (log_data k t tid rid n dat s)) = mv_heap s"
  "mv_current (snd (log_data k t tid rid n dat s)) = mv_current s" "mv_trxes (snd (log_data k t tid rid n dat s)) = mv_trxes s"
  by (simp_all add: log_data_def split: prod.splits)

lemma operation_parts [simp]:
  "mv_tables (snd (add_operation h x s)) = mv_tables s"
  "mv_heap (snd (add_operation h x s)) = (mv_heap s)(h := (mv_heap s h)\<lparr>tx_operations := fst (ops_insert x (tx_operations (mv_heap s h)))\<rparr>)"
  "mv_current (snd (add_operation h x s)) = mv_current s" "mv_trxes (snd (add_operation h x s)) = mv_trxes s"
  by (simp_all add: add_operation_def split: prod.splits)

lemma ops_insert_new: "\<forall>x \<in> set ops. (op_table x, op_rid x) \<noteq> (op_table y, op_rid y) \<Longrightarrow> fst (ops_insert y ops) = ops @ [y]"
  by (auto simp: ops_insert_def op_equal_def)

lemma put_effect:
  assumes "tables_ok (mv_tables s)" "mv_tables s tid = Some tb" "length rec = nat (tm_record_size (tb_meta tb))"
  shows "tables_ok ((mv_tables s)(tid \<mapsto> put_record rid rec tb))" "metas ((mv_tables s)(tid \<mapsto> put_record rid rec tb)) = metas (mv_tables s)"
    "recs ((mv_tables s)(tid \<mapsto> put_record rid rec tb)) = upd_rec tid rid rec (recs (mv_tables s))"
proof -
  have "mvcc_table tb" using assms(1,2) by (simp add: tables_ok_def)
  then show "tables_ok ((mv_tables s)(tid \<mapsto> put_record rid rec tb))" using assms mvcc_table_put tables_ok_upd by simp
  show "metas ((mv_tables s)(tid \<mapsto> put_record rid rec tb)) = metas (mv_tables s)" by (rule metas_upd [of "mv_tables s" tid, OF assms(2)]) simp
  show "recs ((mv_tables s)(tid \<mapsto> put_record rid rec tb)) = upd_rec tid rid rec (recs (mv_tables s))"
    using assms(2) by (simp add: recs_upd recs_table upd_rec_def)
qed

lemma new_version_length [simp]: "mvcc_table tb \<Longrightarrow> length (new_version t tb rec) = length rec"
  by (simp add: new_version_def)

lemma new_version_simps:
  assumes "mvcc_table tb" "8 \<le> length rec" "i32_range (- t)"
  shows "v_begin (new_version t tb rec) = - t" "v_end (new_version t tb rec) = max_trx_id" "v_rest (new_version t tb rec) = v_rest rec"
proof -
  have "i32_range max_trx_id" by (simp add: i32_range_def max_trx_id_def)
  then show "v_begin (new_version t tb rec) = - t" "v_end (new_version t tb rec) = max_trx_id" "v_rest (new_version t tb rec) = v_rest rec"
    using assms by (simp_all add: new_version_def)
qed

abbreviation ins_op :: "int \<Rightarrow> RID \<Rightarrow> Operation" where
  "ins_op tid rid \<equiv> \<lparr>op_type = OP_INSERT, op_table = tid, op_rid = rid\<rparr>"

abbreviation del_op :: "int \<Rightarrow> RID \<Rightarrow> Operation" where
  "del_op tid rid \<equiv> \<lparr>op_type = OP_DELETE, op_table = tid, op_rid = rid\<rparr>"

definition with_ops :: "nat \<Rightarrow> Operation list \<Rightarrow> (nat \<Rightarrow> MvccTrx) \<Rightarrow> (nat \<Rightarrow> MvccTrx)" where
  "with_ops h ops H = H(h := (H h)\<lparr>tx_operations := ops\<rparr>)"

text \<open>The stored record of an insertion, when it succeeds.\<close>

definition at_table :: "Mvcc \<Rightarrow> int \<Rightarrow> Table \<Rightarrow> byte list \<Rightarrow> bool" where
  "at_table s tid tb rec \<longleftrightarrow> mv_tables s tid = Some tb \<and> length rec = nat (tm_record_size (tb_meta tb))"

lemma insert_effect:
  assumes "tables_ok (mv_tables s)" "at_table s tid tb rec"
  shows "\<exists>rc s'. MvccTrx_insert_record fsub h tid (Inr rid) rec s = Some (rc, s') \<and>
    effect s s' (mv_current s) (upd_rec tid rid (new_version (tx_id (mv_heap s h)) tb rec) (recs (mv_tables s)))
      (with_ops h (fst (ops_insert (ins_op tid rid) (tx_operations (mv_heap s h)))) (mv_heap s))"
proof -
  have tb: "mv_tables s tid = Some tb" "mvcc_table tb" and len: "length rec = nat (tm_record_size (tb_meta tb))"
    using assms by (auto simp: tables_ok_def at_table_def)
  let ?v = "new_version (tx_id (mv_heap s h)) tb rec"
  let ?s1 = "put_table tid (put_record rid ?v tb) s"
  define l where "l = log_data INSERT (tx_id (mv_heap s h)) tid rid (length ?v) ?v ?s1"
  define a where "a = add_operation h (ins_op tid rid) (snd l)"
  have "MvccTrx_insert_record fsub h tid (Inr rid) rec s = Some (if \<not> fst a then INTERNAL else fst l, snd a)"
    using tb plain_table(3) [of tb fsub trx_kit_fields rid]
    by (simp add: MvccTrx_insert_record_def table_of_def Let_def a_def l_def split: prod.splits)
  moreover have "effect s (snd a) (mv_current s) (upd_rec tid rid ?v (recs (mv_tables s)))
      (with_ops h (fst (ops_insert (ins_op tid rid) (tx_operations (mv_heap s h)))) (mv_heap s))"
    using put_effect [OF assms(1) tb(1), of ?v rid] len tb(2) by (simp add: effect_def a_def l_def with_ops_def)
  ultimately show ?thesis by blast
qed

lemma insert_refused:
  assumes "mv_tables s tid = Some tb" "rc \<noteq> SUCCESS"
  shows "MvccTrx_insert_record fsub h tid (Inl rc) rec s = Some (rc, s)"
proof -
  have "put_table tid tb s = s" using assms(1) by (simp add: put_table_def fun_upd_idem)
  then show ?thesis using assms by (simp add: MvccTrx_insert_record_def Table_insert_record_def table_of_def Let_def)
qed

lemma delete_effect:
  assumes "tables_ok (mv_tables s)" "mv_tables s tid = Some tb" "tb_records tb rid = Some rec"
  shows "\<exists>s'. MvccTrx_delete_record fsub h tid rid s = Some (SUCCESS, s') \<and>
    (if v_end rec = max_trx_id
     then effect s s' (mv_current s) (upd_rec tid rid (with_end (- tx_id (mv_heap s h)) rec) (recs (mv_tables s)))
      (with_ops h (fst (ops_insert (del_op tid rid) (tx_operations (mv_heap s h)))) (mv_heap s))
     else s' = s)"
proof (cases "v_end rec = max_trx_id")
  case False
  have "mvcc_table tb" using assms(1,2) by (simp add: tables_ok_def)
  then show ?thesis using False assms(2,3) by (simp add: MvccTrx_delete_record_def table_of_def Let_def)
next
  case True
  have tb: "mvcc_table tb" using assms(1,2) by (simp add: tables_ok_def)
  let ?v = "with_end (- tx_id (mv_heap s h)) rec"
  have len: "length ?v = nat (tm_record_size (tb_meta tb))" using mvcc_table_length [OF tb assms(3)] by simp
  define l where "l = log_data DELETE (tx_id (mv_heap s h)) tid rid 0 [] (put_table tid (put_record rid ?v tb) s)"
  define a where "a = add_operation h (del_op tid rid) (snd l)"
  have "MvccTrx_delete_record fsub h tid rid s = Some (SUCCESS, snd a)"
    using tb True assms(2,3) plain_table(2) [of "put_record rid ?v tb" fsub trx_kit_fields False rid ?v]
    by (simp add: MvccTrx_delete_record_def table_of_def Let_def a_def l_def split: prod.splits)
  moreover have "effect s (snd a) (mv_current s) (upd_rec tid rid ?v (recs (mv_tables s)))
      (with_ops h (fst (ops_insert (del_op tid rid) (tx_operations (mv_heap s h)))) (mv_heap s))"
    using put_effect [OF assms(1,2) len, of rid] by (simp add: effect_def a_def l_def with_ops_def)
  ultimately show ?thesis using True by simp
qed

lemma update_effect:
  assumes "tables_ok (mv_tables s)" "mv_tables s tid = Some tb" "tb_records tb rid = Some rec"
    "MvccTrx_visit_record (mv_heap s h) tb rec False = SUCCESS" "length new_rec = nat (tm_record_size (tb_meta tb))"
  shows "\<exists>s'. MvccTrx_update_record fsub h tid rid (Inr rid2) new_rec s = Some (SUCCESS, s') \<and>
    effect s s' (mv_current s)
      (upd_rec tid rid2 (new_version (tx_id (mv_heap s h)) tb new_rec)
        (upd_rec tid rid (with_end (- tx_id (mv_heap s h)) rec) (recs (mv_tables s))))
      (with_ops h (fst (ops_insert (ins_op tid rid2) (fst (ops_insert (del_op tid rid) (tx_operations (mv_heap s h)))))) (mv_heap s))"
proof -
  have tb: "mvcc_table tb" using assms(1,2) by (simp add: tables_ok_def)
  let ?t = "tx_id (mv_heap s h)"
  let ?v = "with_end (- ?t) rec" and ?n = "new_version ?t tb new_rec"
  let ?tb1 = "put_record rid ?v tb"
  let ?s1 = "put_table tid ?tb1 s"
  have len: "length ?v = nat (tm_record_size (tb_meta tb))" using mvcc_table_length [OF tb assms(3)] by simp
  have n: "new_version ?t ?tb1 new_rec = ?n" by (simp add: new_version_def begin_field_def end_field_def)
  note e1 = put_effect [OF assms(1,2) len, of rid]
  note e2 = put_effect [of ?s1 tid ?tb1 ?n rid2]
  define l1 where "l1 = log_data DELETE ?t tid rid 0 [] (put_table tid (put_record rid2 ?n ?tb1) s)"
  define l2 where "l2 = log_data INSERT ?t tid rid2 (length ?n) ?n (snd l1)"
  define a1 where "a1 = add_operation h (del_op tid rid) (snd l2)"
  define a2 where "a2 = add_operation h (ins_op tid rid2) (snd a1)"
  have "MvccTrx_update_record fsub h tid rid (Inr rid2) new_rec s = Some (SUCCESS, snd a2)"
    using tb assms(2-4) n plain_table(2) [of ?tb1 fsub trx_kit_fields False rid ?v] plain_table(3) [of ?tb1 fsub trx_kit_fields rid2]
    by (simp add: MvccTrx_update_record_def table_of_def Let_def a1_def a2_def l1_def l2_def split: prod.splits)
  moreover have "effect s (snd a2) (mv_current s) (upd_rec tid rid2 ?n (upd_rec tid rid ?v (recs (mv_tables s))))
      (with_ops h (fst (ops_insert (ins_op tid rid2) (fst (ops_insert (del_op tid rid) (tx_operations (mv_heap s h)))))) (mv_heap s))"
    using e1 e2 assms(5) tb by (simp add: effect_def a1_def a2_def l1_def l2_def with_ops_def)
  ultimately show ?thesis by blast
qed

lemma update_refused:
  assumes "tables_ok (mv_tables s)" "mv_tables s tid = Some tb" "tb_records tb rid = Some rec" "rc \<noteq> SUCCESS"
    "MvccTrx_visit_record (mv_heap s h) tb rec False = SUCCESS"
  shows "\<exists>s'. MvccTrx_update_record fsub h tid rid (Inl rc) new_rec s = Some (rc, s') \<and>
    effect s s' (mv_current s) (upd_rec tid rid (with_end (- tx_id (mv_heap s h)) rec) (recs (mv_tables s))) (mv_heap s)"
proof -
  have tb: "mvcc_table tb" using assms(1,2) by (simp add: tables_ok_def)
  let ?v = "with_end (- tx_id (mv_heap s h)) rec"
  have len: "length ?v = nat (tm_record_size (tb_meta tb))" using mvcc_table_length [OF tb assms(3)] by simp
  have "MvccTrx_update_record fsub h tid rid (Inl rc) new_rec s = Some (rc, put_table tid (put_record rid ?v tb) s)"
    using tb assms(2-5) plain_table(1,2) [of "put_record rid ?v tb" fsub trx_kit_fields]
    by (simp add: MvccTrx_update_record_def Table_insert_record_def table_of_def Let_def)
  then show ?thesis using put_effect [OF assms(1,2) len, of rid] by (simp add: effect_def)
qed

lemma trx_ok_stored:
  "trx_ok c (recs (mv_tables s)) (mv_heap s h) \<Longrightarrow>
     ops_distinct (tx_operations (mv_heap s h)) \<and> ops_stored (mv_tables s) (tx_operations (mv_heap s h))"
  by (auto simp: trx_ok_def ops_stored_def op_ok_def)

lemma commit_effect0:
  assumes T: "tables_ok (mv_tables s)" and ok: "ops_distinct (tx_operations (mv_heap s h))" "ops_stored (mv_tables s) (tx_operations (mv_heap s h))"
  shows "effect s (snd (commit_with_trx_id h xid s)) (mv_current s)
    (\<lambda>tid rid. map_option (commit_version xid (tx_operations (mv_heap s h)) tid rid) (recs (mv_tables s) tid rid))
    ((mv_heap s)(h := (mv_heap s h)\<lparr>tx_started := False, tx_operations := []\<rparr>)) \<and>
    (\<not> tx_recovering (mv_heap s h) \<longrightarrow> mv_log (snd (commit_with_trx_id h xid s)) = snd (commit_trx (tx_id (mv_heap s h)) xid (mv_log s)))"
proof -
  let ?ops = "tx_operations (mv_heap s h)"
  obtain T' where T': "commit_ops xid ?ops SUCCESS (mv_tables s) = (SUCCESS, T')" "tables_ok T'" "metas T' = metas (mv_tables s)"
    "recs T' = (\<lambda>tid rid. map_option (commit_version xid ?ops tid rid) (recs (mv_tables s) tid rid))"
    using commit_ops_ok [OF T ok refl] by metis
  show ?thesis using T' by (auto simp: Let_def commit_with_trx_id_def effect_def trx_update_def split: prod.splits)
qed

lemma commit_effect:
  assumes inv: "mvcc_inv s" "h \<in> set (mv_trxes s)" and c: "mv_current s + 1 < max_trx_id"
  shows "effect s (snd (MvccTrx_commit h s)) (mv_current s + 1)
    (\<lambda>tid rid. map_option (commit_version (mv_current s + 1) (tx_operations (mv_heap s h)) tid rid) (recs (mv_tables s) tid rid))
    ((mv_heap s)(h := (mv_heap s h)\<lparr>tx_started := False, tx_operations := []\<rparr>))"
proof -
  have cur: "0 \<le> mv_current s" and ok: "trx_ok (mv_current s) (recs (mv_tables s)) (mv_heap s h)" and T: "tables_ok (mv_tables s)"
    using inv by (simp_all add: mvcc_inv_def inv0_def)
  have w: "wrap_i32 (mv_current s + 1) = mv_current s + 1" using cur c by (intro wrap_i32_id) (simp add: i32_range_def max_trx_id_def)
  show ?thesis using commit_effect0 [of "s\<lparr>mv_current := mv_current s + 1\<rparr>" h "mv_current s + 1"] T trx_ok_stored [OF ok]
    by (simp add: MvccTrx_commit_def next_trx_id_def w Let_def effect_def)
qed

lemma rollback_effect0:
  assumes T: "tables_ok (mv_tables s)" and ok: "ops_distinct (tx_operations (mv_heap s h))" "ops_stored (mv_tables s) (tx_operations (mv_heap s h))"
  shows "\<exists>rc s'. MvccTrx_rollback fsub h s = Some (rc, s') \<and> effect s s' (mv_current s)
    (\<lambda>tid rid. undo_version (tx_operations (mv_heap s h)) tid rid (recs (mv_tables s) tid rid))
    ((mv_heap s)(h := (mv_heap s h)\<lparr>tx_started := False, tx_operations := []\<rparr>))"
proof -
  let ?ops = "tx_operations (mv_heap s h)"
  obtain T' where T': "rollback_ops fsub ?ops SUCCESS (mv_tables s) = Some (SUCCESS, T')" "tables_ok T'" "metas T' = metas (mv_tables s)"
    "recs T' = (\<lambda>tid rid. undo_version ?ops tid rid (recs (mv_tables s) tid rid))"
    using rollback_ops_ok [OF T ok refl] by metis
  show ?thesis using T'
    by (auto simp: MvccTrx_rollback_def Let_def effect_def split: prod.splits)
qed

lemma rollback_effect:
  assumes inv: "mvcc_inv s" "h \<in> set (mv_trxes s)"
  shows "\<exists>rc s'. MvccTrx_rollback fsub h s = Some (rc, s') \<and> effect s s' (mv_current s)
    (\<lambda>tid rid. undo_version (tx_operations (mv_heap s h)) tid rid (recs (mv_tables s) tid rid))
    ((mv_heap s)(h := (mv_heap s h)\<lparr>tx_started := False, tx_operations := []\<rparr>))"
  using inv trx_ok_stored [of "mv_current s" s h] by (intro rollback_effect0) (auto simp: mvcc_inv_def inv0_def)

lemma start_effect:
  assumes "mvcc_inv s" "mv_current s + 1 < max_trx_id" "\<not> tx_started (mv_heap s h)"
  shows "fst (start_if_need h s) = SUCCESS" "effect s (snd (start_if_need h s)) (mv_current s + 1) (recs (mv_tables s))
    ((mv_heap s)(h := (mv_heap s h)\<lparr>tx_id := mv_current s + 1, tx_started := True\<rparr>))"
proof -
  have w: "wrap_i32 (mv_current s + 1) = mv_current s + 1"
    using assms(1,2) by (intro wrap_i32_id) (simp add: i32_range_def max_trx_id_def mvcc_inv_def inv0_def)
  show "fst (start_if_need h s) = SUCCESS" "effect s (snd (start_if_need h s)) (mv_current s + 1) (recs (mv_tables s))
    ((mv_heap s)(h := (mv_heap s h)\<lparr>tx_id := mv_current s + 1, tx_started := True\<rparr>))"
    using assms(1,3) by (auto simp: start_if_need_def next_trx_id_def Let_def w effect_def mvcc_inv_def split: prod.splits)
qed

section \<open>Interleavings\<close>

text \<open>
  A step of the transaction object \<open>h\<close>. The record file gives a free place to an insertion or refuses it.
  A client deletes and updates records that it visited for writing (the scan operators do). The counter
  does not reach its maximum. Each operation is one step: nothing else happens between the changes of
  single records that a commit or a rollback makes.
\<close>

definition free_place :: "Table \<Rightarrow> RC + RID \<Rightarrow> bool" where
  "free_place tb place \<longleftrightarrow> (case place of Inl rc \<Rightarrow> rc \<noteq> SUCCESS | Inr rid \<Rightarrow> tb_records tb rid = None)"

definition active :: "Mvcc \<Rightarrow> nat \<Rightarrow> bool" where
  "active s h \<longleftrightarrow> h \<in> set (mv_trxes s) \<and> tx_started (mv_heap s h)"

definition visited :: "Mvcc \<Rightarrow> nat \<Rightarrow> int \<Rightarrow> Table \<Rightarrow> RID \<Rightarrow> byte list \<Rightarrow> bool" where
  "visited s h tid tb rid rec \<longleftrightarrow> mv_tables s tid = Some tb \<and> tb_records tb rid = Some rec \<and>
     MvccTrx_visit_record (mv_heap s h) tb rec False = SUCCESS"

inductive mvcc_op :: "float_sub \<Rightarrow> nat \<Rightarrow> Mvcc \<Rightarrow> Mvcc \<Rightarrow> bool" for fsub where
  create: "h \<notin> set (mv_trxes s) \<Longrightarrow> mvcc_op fsub h s (create_trx h s)"
| destroy: "mvcc_op fsub h s (destroy_trx h s)"
| start: "h \<in> set (mv_trxes s) \<Longrightarrow> mv_current s + 1 < max_trx_id \<Longrightarrow> mvcc_op fsub h s (snd (start_if_need h s))"
| insert: "active s h \<Longrightarrow> at_table s tid tb rec \<Longrightarrow> free_place tb place \<Longrightarrow>
    MvccTrx_insert_record fsub h tid place rec s = Some (rc, s') \<Longrightarrow> mvcc_op fsub h s s'"
| delete: "active s h \<Longrightarrow> visited s h tid tb rid rec \<Longrightarrow>
    MvccTrx_delete_record fsub h tid rid s = Some (rc, s') \<Longrightarrow> mvcc_op fsub h s s'"
| update: "active s h \<Longrightarrow> visited s h tid tb rid rec \<Longrightarrow>
    at_table s tid tb new_rec \<Longrightarrow> free_place tb place \<Longrightarrow>
    MvccTrx_update_record fsub h tid rid place new_rec s = Some (rc, s') \<Longrightarrow> mvcc_op fsub h s s'"
| rollback: "h \<in> set (mv_trxes s) \<Longrightarrow> MvccTrx_rollback fsub h s = Some (rc, s') \<Longrightarrow> mvcc_op fsub h s s'"

text \<open>
  \<open>update_record\<close> does not test that the record is the newest version. A stale update changes a record
  whose deletion has been committed, but only after the transaction started, so that it still sees it.
\<close>

definition stale_update :: "float_sub \<Rightarrow> nat \<Rightarrow> Mvcc \<Rightarrow> Mvcc \<Rightarrow> bool" where
  "stale_update fsub h s s' \<longleftrightarrow> (\<exists>tid tb rid rec place new_rec rc. active s h \<and> visited s h tid tb rid rec \<and>
     0 < field_get_int (end_field tb) rec \<and> field_get_int (end_field tb) rec \<noteq> max_trx_id \<and>
     MvccTrx_update_record fsub h tid rid place new_rec s = Some (rc, s'))"

text \<open>A step is one of these or a commit.\<close>

definition mvcc_commit :: "nat \<Rightarrow> Mvcc \<Rightarrow> Mvcc \<Rightarrow> bool" where
  "mvcc_commit h s s' \<longleftrightarrow> h \<in> set (mv_trxes s) \<and> mv_current s + 1 < max_trx_id \<and> s' = snd (MvccTrx_commit h s)"

definition mvcc_step :: "float_sub \<Rightarrow> nat \<Rightarrow> Mvcc \<Rightarrow> Mvcc \<Rightarrow> bool" where
  "mvcc_step fsub h s s' \<longleftrightarrow> mvcc_op fsub h s s' \<or> mvcc_commit h s s'"

text \<open>The same on the versions alone.\<close>

record Versions =
  vs_cur :: int
  vs_recs :: "int \<Rightarrow> RID \<rightharpoonup> byte list"
  vs_trxes :: "nat list"
  vs_heap :: "nat \<Rightarrow> MvccTrx"

definition versions :: "Mvcc \<Rightarrow> Versions" where
  "versions s = \<lparr>vs_cur = mv_current s, vs_recs = recs (mv_tables s), vs_trxes = mv_trxes s, vs_heap = mv_heap s\<rparr>"

definition vinv :: "Versions \<Rightarrow> bool" where
  "vinv v \<longleftrightarrow> inv0 (vs_cur v) (vs_recs v) (vs_trxes v) (vs_heap v)"

inductive vop :: "nat \<Rightarrow> Versions \<Rightarrow> Versions \<Rightarrow> bool" where
  v_create: "h \<notin> set (vs_trxes v) \<Longrightarrow> tx_operations tx = [] \<Longrightarrow> \<not> tx_started tx \<Longrightarrow>
    vop h v (v\<lparr>vs_trxes := vs_trxes v @ [h], vs_heap := (vs_heap v)(h := tx)\<rparr>)"
| v_destroy: "vop h v (v\<lparr>vs_trxes := remove1 h (vs_trxes v)\<rparr>)"
| v_start: "h \<in> set (vs_trxes v) \<Longrightarrow> \<not> tx_started (vs_heap v h) \<Longrightarrow> vs_cur v + 1 < max_trx_id \<Longrightarrow>
    vop h v (v\<lparr>vs_cur := vs_cur v + 1, vs_heap := (vs_heap v)(h := (vs_heap v h)\<lparr>tx_id := vs_cur v + 1, tx_started := True\<rparr>)\<rparr>)"
| v_new: "h \<in> set (vs_trxes v) \<Longrightarrow> tx_started (vs_heap v h) \<Longrightarrow> vs_recs v tid rid = None \<Longrightarrow> 8 \<le> length rec \<Longrightarrow>
    v_begin rec = - tx_id (vs_heap v h) \<Longrightarrow> v_end rec = max_trx_id \<Longrightarrow>
    vop h v (v\<lparr>vs_recs := upd_rec tid rid rec (vs_recs v),
      vs_heap := with_ops h (tx_operations (vs_heap v h) @ [ins_op tid rid]) (vs_heap v)\<rparr>)"
| v_take: "h \<in> set (vs_trxes v) \<Longrightarrow> tx_started (vs_heap v h) \<Longrightarrow> takable (vs_recs v) (tx_id (vs_heap v h)) tid rid rec \<Longrightarrow>
    ops = tx_operations (vs_heap v h) \<or> ops = fst (ops_insert (del_op tid rid) (tx_operations (vs_heap v h))) \<Longrightarrow>
    vop h v (v\<lparr>vs_recs := upd_rec tid rid (with_end (- tx_id (vs_heap v h)) rec) (vs_recs v), vs_heap := with_ops h ops (vs_heap v)\<rparr>)"
| v_rollback: "h \<in> set (vs_trxes v) \<Longrightarrow>
    vop h v (v\<lparr>vs_recs := (\<lambda>tid rid. undo_version (tx_operations (vs_heap v h)) tid rid (vs_recs v tid rid)),
      vs_heap := (vs_heap v)(h := (vs_heap v h)\<lparr>tx_started := False, tx_operations := []\<rparr>)\<rparr>)"

definition vcommit :: "nat \<Rightarrow> Versions \<Rightarrow> Versions" where
  "vcommit h v = v\<lparr>vs_cur := vs_cur v + 1,
      vs_recs := (\<lambda>tid rid. map_option (commit_version (vs_cur v + 1) (tx_operations (vs_heap v h)) tid rid) (vs_recs v tid rid)),
      vs_heap := (vs_heap v)(h := (vs_heap v h)\<lparr>tx_started := False, tx_operations := []\<rparr>)\<rparr>"

lemma vop_inv: "vop h v v' \<Longrightarrow> vinv v \<Longrightarrow> vinv v'"
proof (induction rule: vop.induct)
  case (v_take h v tid rid rec ops)
  then have "vs_recs v tid rid = Some rec" "0 < v_end rec \<or> v_begin rec = - tx_id (vs_heap v h)" "0 < v_begin rec \<or> v_begin rec = - tx_id (vs_heap v h)"
    by (auto simp: takable_def max_trx_id_def)
  then show ?case using v_take by (simp add: vinv_def with_ops_def inv0_take)
qed (simp_all add: vinv_def with_ops_def inv0_create inv0_destroy inv0_start inv0_new inv0_rollback)

lemma mvcc_inv_versions: "mvcc_inv s \<longleftrightarrow> tables_ok (mv_tables s) \<and> vinv (versions s)"
  by (simp add: mvcc_inv_def vinv_def versions_def)

lemma effect_versions: "effect s s' cur R H \<Longrightarrow> versions s' = (versions s)\<lparr>vs_cur := cur, vs_recs := R, vs_heap := H\<rparr> \<and> tables_ok (mv_tables s') \<and> metas (mv_tables s') = metas (mv_tables s)"
  by (simp add: effect_def versions_def)

definition simulated :: "nat \<Rightarrow> Mvcc \<Rightarrow> Mvcc \<Rightarrow> bool" where
  "simulated h s s' \<longleftrightarrow> (vop h)\<^sup>*\<^sup>* (versions s) (versions s') \<and> tables_ok (mv_tables s') \<and> metas (mv_tables s') = metas (mv_tables s)"

lemma simulated_step:
  assumes "effect s s' cur R H" "vop h (versions s) ((versions s)\<lparr>vs_cur := cur, vs_recs := R, vs_heap := H\<rparr>)"
  shows "simulated h s s'"
  using assms effect_versions [OF assms(1)] by (simp add: simulated_def r_into_rtranclp)

lemma versions_parts [simp]: "vs_cur (versions s) = mv_current s" "vs_recs (versions s) = recs (mv_tables s)"
  "vs_trxes (versions s) = mv_trxes s" "vs_heap (versions s) = mv_heap s"
  by (simp_all add: versions_def)

lemma same_parts [simp]: "(versions s)\<lparr>vs_cur := mv_current s, vs_recs := R, vs_heap := H\<rparr> = (versions s)\<lparr>vs_recs := R, vs_heap := H\<rparr>"
  "(versions s)\<lparr>vs_cur := c, vs_recs := recs (mv_tables s), vs_heap := H\<rparr> = (versions s)\<lparr>vs_cur := c, vs_heap := H\<rparr>"
  by (simp_all add: versions_def)


section \<open>Every step is a step on the versions\<close>

lemma inv_facts:
  assumes "mvcc_inv s" "active s h"
  shows "i32_range (- tx_id (mv_heap s h))" "h \<in> set (mv_trxes s)" "tx_started (mv_heap s h)" "tables_ok (mv_tables s)"
    "inv0 (mv_current s) (recs (mv_tables s)) (mv_trxes s) (mv_heap s)"
proof -
  show 1: "h \<in> set (mv_trxes s)" "tx_started (mv_heap s h)" "tables_ok (mv_tables s)"
    and 2: "inv0 (mv_current s) (recs (mv_tables s)) (mv_trxes s) (mv_heap s)" using assms by (simp_all add: active_def mvcc_inv_def)
  show "i32_range (- tx_id (mv_heap s h))" using inv0_facts(3) [OF 2 1(1,2)] by simp
qed

lemma at_table_facts:
  assumes "tables_ok (mv_tables s)" "at_table s tid tb rec"
  shows "mvcc_table tb" "8 \<le> length rec" "mv_tables s tid = Some tb"
proof -
  show "mv_tables s tid = Some tb" and 1: "mvcc_table tb" using assms by (auto simp: at_table_def tables_ok_def)
  show "8 \<le> length rec" using 1 assms(2) unfolding at_table_def mvcc_table_def by linarith
qed

text \<open>Storing a new version in a free slot, from any state of versions.\<close>

lemma vop_insert:
  assumes "vinv v" "h \<in> set (vs_trxes v)" "tx_started (vs_heap v h)" "vs_recs v tid rid = None" "mvcc_table tb" "8 \<le> length rec"
  shows "vop h v (v\<lparr>vs_recs := upd_rec tid rid (new_version (tx_id (vs_heap v h)) tb rec) (vs_recs v),
    vs_heap := with_ops h (fst (ops_insert (ins_op tid rid) (tx_operations (vs_heap v h)))) (vs_heap v)\<rparr>)"
proof -
  have inv: "inv0 (vs_cur v) (vs_recs v) (vs_trxes v) (vs_heap v)" using assms(1) by (simp add: vinv_def)
  have r: "i32_range (- tx_id (vs_heap v h))" using inv0_facts(3) [OF inv assms(2,3)] by simp
  have "fst (ops_insert (ins_op tid rid) (tx_operations (vs_heap v h))) = tx_operations (vs_heap v h) @ [ins_op tid rid]"
    using ops_ok_stored [OF inv assms(2,4)] by (intro ops_insert_new) auto
  then show ?thesis using new_version_simps [OF assms(5,6) r] assms(2-6) by (auto intro: v_new)
qed

lemma insert_simulated:
  assumes "mvcc_inv s" "active s h" "at_table s tid tb rec" "free_place tb place" "MvccTrx_insert_record fsub h tid place rec s = Some (rc, s')"
  shows "simulated h s s'"
proof (cases place)
  case (Inl e)
  then have "s' = s" using assms(3-5) insert_refused [of s tid tb e fsub h rec] by (simp add: free_place_def at_table_def)
  then show ?thesis using assms(1) by (simp add: simulated_def mvcc_inv_def)
next
  case (Inr rid)
  note f = inv_facts [OF assms(1,2)] and t = at_table_facts [OF inv_facts(4) [OF assms(1,2)] assms(3)]
  have e: "effect s s' (mv_current s) (upd_rec tid rid (new_version (tx_id (mv_heap s h)) tb rec) (recs (mv_tables s)))
      (with_ops h (fst (ops_insert (ins_op tid rid) (tx_operations (mv_heap s h)))) (mv_heap s))"
    using insert_effect [OF f(4) assms(3), of fsub h rid] assms(5) Inr by auto
  have none: "recs (mv_tables s) tid rid = None" using assms(4) Inr t(3) by (simp add: free_place_def recs_def)
  have "vinv (versions s)" using assms(1) by (simp add: mvcc_inv_versions)
  then show ?thesis using vop_insert [of "versions s" h tid rid tb rec] f t none by (intro simulated_step [OF e]) simp
qed

lemma visited_version:
  assumes "mvcc_inv s" "active s h" "visited s h tid tb rid rec"
  shows "version_ok (mv_current s) rec"
  using inv0_facts(2) [OF inv_facts(5,2) [OF assms(1,2)], of tid rid rec] assms(3) by (simp add: visited_def recs_def)

lemma visited_takable:
  assumes "mvcc_inv s" "active s h" "visited s h tid tb rid rec" "v_end rec = max_trx_id \<or> v_end rec < 0"
  shows "takable (recs (mv_tables s)) (tx_id (mv_heap s h)) tid rid rec"
proof -
  note f = inv_facts [OF assms(1,2)]
  have v: "mv_tables s tid = Some tb" "tb_records tb rid = Some rec" "MvccTrx_visit_record (mv_heap s h) tb rec False = SUCCESS"
    using assms(3) by (simp_all add: visited_def)
  have "version_ok (mv_current s) rec" by (rule visited_version [OF assms(1-3)])
  moreover have "mvcc_table tb" using f(4) v(1) by (simp add: tables_ok_def)
  ultimately show ?thesis using takableD [where T = "mv_tables s", OF _ v(2,1) assms(4) v(3)] by simp
qed

lemma delete_simulated:
  assumes "mvcc_inv s" "active s h" "visited s h tid tb rid rec" "MvccTrx_delete_record fsub h tid rid s = Some (rc, s')"
  shows "simulated h s s'"
proof -
  note f = inv_facts [OF assms(1,2)]
  have v: "mv_tables s tid = Some tb" "tb_records tb rid = Some rec" using assms(3) by (simp_all add: visited_def)
  note d = delete_effect [OF f(4) v, of fsub h]
  show ?thesis
  proof (cases "v_end rec = max_trx_id")
    case True
    then have e: "effect s s' (mv_current s) (upd_rec tid rid (with_end (- tx_id (mv_heap s h)) rec) (recs (mv_tables s)))
      (with_ops h (fst (ops_insert (del_op tid rid) (tx_operations (mv_heap s h)))) (mv_heap s))" using d assms(4) by auto
    show ?thesis using v_take [of h "versions s" tid rid rec] f visited_takable [OF assms(1-3)] True by (intro simulated_step [OF e]) simp
  next
    case False
    then have "s' = s" using d assms(4) by auto
    then show ?thesis using assms(1) by (simp add: simulated_def mvcc_inv_def)
  qed
qed

lemma with_ops_ops [simp]: "tx_operations (with_ops h ops H h) = ops" "tx_id (with_ops h ops H h) = tx_id (H h)"
  "tx_started (with_ops h ops H h) = tx_started (H h)" "with_ops h ops2 (with_ops h ops H) = with_ops h ops2 H"
  "with_ops h (tx_operations (H h)) H = H"
  by (simp_all add: with_ops_def)

text \<open>An update that is not stale, in two steps: it takes the old version and stores the new one.\<close>

lemma update_simulated:
  assumes "mvcc_inv s" "active s h" "visited s h tid tb rid rec" "v_end rec = max_trx_id \<or> v_end rec < 0"
    "at_table s tid tb new_rec" "free_place tb place" "MvccTrx_update_record fsub h tid rid place new_rec s = Some (rc, s')"
  shows "simulated h s s'"
proof -
  note f = inv_facts [OF assms(1,2)] and t = at_table_facts [OF inv_facts(4) [OF assms(1,2)] assms(5)]
  have v: "mv_tables s tid = Some tb" "tb_records tb rid = Some rec" "MvccTrx_visit_record (mv_heap s h) tb rec False = SUCCESS"
    using assms(3) by (simp_all add: visited_def)
  note tk = visited_takable [OF assms(1-4)]
  have vi: "vinv (versions s)" using assms(1) by (simp add: mvcc_inv_versions)
  show ?thesis
  proof (cases place)
    case (Inl e)
    then have e: "effect s s' (mv_current s) (upd_rec tid rid (with_end (- tx_id (mv_heap s h)) rec) (recs (mv_tables s))) (mv_heap s)"
      using update_refused [OF f(4) v(1,2) _ v(3), of e fsub new_rec] assms(6,7) by (auto simp: free_place_def)
    show ?thesis using v_take [of h "versions s" tid rid rec "tx_operations (mv_heap s h)"] f tk by (intro simulated_step [OF e]) simp
  next
    case (Inr rid2)
    let ?R = "upd_rec tid rid (with_end (- tx_id (mv_heap s h)) rec) (recs (mv_tables s))"
    let ?ops = "fst (ops_insert (del_op tid rid) (tx_operations (mv_heap s h)))"
    let ?v1 = "(versions s)\<lparr>vs_recs := ?R, vs_heap := with_ops h ?ops (mv_heap s)\<rparr>"
    have e: "effect s s' (mv_current s) (upd_rec tid rid2 (new_version (tx_id (mv_heap s h)) tb new_rec) ?R)
      (with_ops h (fst (ops_insert (ins_op tid rid2) ?ops)) (mv_heap s))"
      using update_effect [OF f(4) v, of new_rec fsub rid2] assms(5,7) Inr by (auto simp: at_table_def)
    have none: "?R tid rid2 = None" using assms(6) Inr v by (auto simp: free_place_def recs_def upd_rec_apply)
    have 1: "vop h (versions s) ?v1" using v_take [of h "versions s" tid rid rec ?ops] f tk by simp
    then have "vinv ?v1" using vi by (rule vop_inv)
    then have "vop h ?v1 (?v1\<lparr>vs_recs := upd_rec tid rid2 (new_version (tx_id (vs_heap ?v1 h)) tb new_rec) (vs_recs ?v1),
        vs_heap := with_ops h (fst (ops_insert (ins_op tid rid2) (tx_operations (vs_heap ?v1 h)))) (vs_heap ?v1)\<rparr>)"
      by (rule vop_insert) (use f t none in simp_all)
    then have "(vop h)\<^sup>*\<^sup>* (versions s) (versions s')" using 1 effect_versions [OF e] by (simp add: versions_def)
    then show ?thesis using effect_versions [OF e] by (simp add: simulated_def)
  qed
qed

lemma rollback_simulated:
  assumes "mvcc_inv s" "h \<in> set (mv_trxes s)" "MvccTrx_rollback fsub h s = Some (rc, s')"
  shows "simulated h s s'"
proof -
  have e: "effect s s' (mv_current s) (\<lambda>tid rid. undo_version (tx_operations (mv_heap s h)) tid rid (recs (mv_tables s) tid rid))
    ((mv_heap s)(h := (mv_heap s h)\<lparr>tx_started := False, tx_operations := []\<rparr>))" using rollback_effect [OF assms(1,2), of fsub] assms(3) by auto
  show ?thesis by (rule simulated_step [OF e]) (use v_rollback [of h "versions s"] assms(2) in simp)
qed

lemma create_simulated: "mvcc_inv s \<Longrightarrow> h \<notin> set (mv_trxes s) \<Longrightarrow> simulated h s (create_trx h s)"
  using v_create [of h "versions s" "\<lparr>tx_id = -1, tx_started = False, tx_recovering = False, tx_operations = []\<rparr>"]
  by (intro simulated_def [THEN iffD2] conjI r_into_rtranclp) (simp_all add: create_trx_def versions_def mvcc_inv_def)

lemma destroy_simulated: "mvcc_inv s \<Longrightarrow> simulated h s (destroy_trx h s)"
  using v_destroy [of h "versions s"]
  by (intro simulated_def [THEN iffD2] conjI r_into_rtranclp) (simp_all add: destroy_trx_def versions_def mvcc_inv_def)

lemma start_simulated:
  assumes "mvcc_inv s" "h \<in> set (mv_trxes s)" "mv_current s + 1 < max_trx_id"
  shows "simulated h s (snd (start_if_need h s))"
proof (cases "tx_started (mv_heap s h)")
  case True
  then show ?thesis using assms(1) by (simp add: start_if_need_def simulated_def mvcc_inv_def)
next
  case False
  show ?thesis by (rule simulated_step [OF start_effect(2) [OF assms(1,3) False]]) (use v_start [of h "versions s"] assms False in simp)
qed

lemmas plain_simulated = create_simulated destroy_simulated start_simulated insert_simulated delete_simulated rollback_simulated

lemma op_simulated: "mvcc_op fsub h s s' \<Longrightarrow> mvcc_inv s \<Longrightarrow> simulated h s s' \<or> stale_update fsub h s s'"
proof (induction rule: mvcc_op.induct)
  case (update s h tid tb rid rec new_rec place rc s')
  have ver: "mvcc_table tb" "version_ok (mv_current s) rec"
    using at_table_facts(1) [OF inv_facts(4) [OF update(6,1)] update(3)] visited_version [OF update(6,1,2)] by simp_all
  show ?case
  proof (cases "v_end rec = max_trx_id \<or> v_end rec < 0")
    case True
    then show ?thesis using update_simulated [OF update(6,1,2) _ update(3-5)] by blast
  next
    case False
    then have "0 < v_end rec" using ver(2) by (auto simp: version_ok_def)
    then have "0 < field_get_int (end_field tb) rec" "field_get_int (end_field tb) rec \<noteq> max_trx_id" using False ver(1) by simp_all
    then show ?thesis using update(1,2,5) unfolding stale_update_def by blast
  qed
qed (blast intro: plain_simulated)+

lemma commit_simulated:
  assumes "mvcc_commit h s s'" "mvcc_inv s"
  shows "versions s' = vcommit h (versions s) \<and> tables_ok (mv_tables s') \<and> metas (mv_tables s') = metas (mv_tables s)"
  using effect_versions [OF commit_effect [of s h]] assms by (simp add: mvcc_commit_def vcommit_def)

lemma vops_inv: "(vop h)\<^sup>*\<^sup>* v v' \<Longrightarrow> vinv v \<Longrightarrow> vinv v'"
  by (induction rule: rtranclp_induct) (auto intro: vop_inv)

lemma vcommit_inv: "h \<in> set (vs_trxes v) \<Longrightarrow> vs_cur v + 1 < max_trx_id \<Longrightarrow> vinv v \<Longrightarrow> vinv (vcommit h v)"
  by (simp add: vinv_def vcommit_def inv0_commit)

lemma simulated_inv: "simulated h s s' \<Longrightarrow> mvcc_inv s \<Longrightarrow> mvcc_inv s'"
  using vops_inv [of h "versions s" "versions s'"] by (simp add: simulated_def mvcc_inv_versions)

text \<open>Any update, stale or not, keeps the invariant.\<close>

lemma update_inv:
  assumes "mvcc_inv s" "active s h" "visited s h tid tb rid rec" "at_table s tid tb new_rec" "free_place tb place"
    "MvccTrx_update_record fsub h tid rid place new_rec s = Some (rc, s')"
  shows "mvcc_inv s'"
proof -
  note f = inv_facts [OF assms(1,2)] and t = at_table_facts [OF inv_facts(4) [OF assms(1,2)] assms(4)]
  have v: "mv_tables s tid = Some tb" "tb_records tb rid = Some rec" "MvccTrx_visit_record (mv_heap s h) tb rec False = SUCCESS"
    using assms(3) by (simp_all add: visited_def)
  have r: "recs (mv_tables s) tid rid = Some rec" using v by (simp add: recs_def)
  have own: "0 < v_end rec \<or> v_begin rec = - tx_id (mv_heap s h)" "0 < v_begin rec \<or> v_begin rec = - tx_id (mv_heap s h)"
    using visited_version [OF assms(1-3)] v(3) t(1) by (auto simp: version_ok_def visit_sees sees_def max_trx_id_def split: if_splits)
  let ?t = "tx_id (mv_heap s h)" and ?ops = "fst (ops_insert (del_op tid rid) (tx_operations (mv_heap s h)))"
  let ?R = "upd_rec tid rid (with_end (- tx_id (mv_heap s h)) rec) (recs (mv_tables s))"
  note take = inv0_take [OF f(5,2,3) r own]
  show ?thesis
  proof (cases place)
    case (Inl e)
    then have "effect s s' (mv_current s) ?R (mv_heap s)" using update_refused [OF f(4) v(1,2) _ v(3), of e fsub new_rec] assms(5,6) by (auto simp: free_place_def)
    then show ?thesis using effect_inv take [OF disjI1 [OF refl]] by simp
  next
    case (Inr rid2)
    have e: "effect s s' (mv_current s) (upd_rec tid rid2 (new_version ?t tb new_rec) ?R) (with_ops h (fst (ops_insert (ins_op tid rid2) ?ops)) (mv_heap s))"
      using update_effect [OF f(4) v, of new_rec fsub rid2] assms(4,6) Inr by (auto simp: at_table_def)
    have i1: "inv0 (mv_current s) ?R (mv_trxes s) (with_ops h ?ops (mv_heap s))" unfolding with_ops_def by (rule take) simp
    have none: "?R tid rid2 = None" using assms(5) Inr v by (auto simp: free_place_def recs_def upd_rec_apply)
    let ?v1 = "\<lparr>vs_cur = mv_current s, vs_recs = ?R, vs_trxes = mv_trxes s, vs_heap = with_ops h ?ops (mv_heap s)\<rparr>"
    have "vinv ?v1" using i1 by (simp add: vinv_def)
    from vop_inv [OF vop_insert [OF this, of h tid rid2 tb new_rec] this]
    have "inv0 (mv_current s) (upd_rec tid rid2 (new_version ?t tb new_rec) ?R) (mv_trxes s) (with_ops h (fst (ops_insert (ins_op tid rid2) ?ops)) (mv_heap s))"
      using f(2,3) none t(1,2) by (simp add: vinv_def)
    then show ?thesis using effect_inv [OF e] by simp
  qed
qed

lemma op_inv: "mvcc_op fsub h s s' \<Longrightarrow> mvcc_inv s \<Longrightarrow> mvcc_inv s'"
proof (induction rule: mvcc_op.induct)
  case (update s h tid tb rid rec new_rec place rc s')
  then show ?case using update_inv by blast
qed (blast intro: simulated_inv plain_simulated)+

lemma commit_inv: "mvcc_commit h s s' \<Longrightarrow> mvcc_inv s \<Longrightarrow> mvcc_inv s'"
  using commit_simulated [of h s s'] vcommit_inv [of h "versions s"] by (simp add: mvcc_commit_def mvcc_inv_versions)

lemma step_inv: "mvcc_step fsub h s s' \<Longrightarrow> mvcc_inv s \<Longrightarrow> mvcc_inv s'"
  unfolding mvcc_step_def using op_inv commit_inv by blast

end
