(* ===== verification/MvccIsolation.thy ===== *)
theory MvccIsolation
  imports MvccSteps
begin

text \<open>
  What transactions see of each other. A record is a row of the table for a transaction when \<open>visit_record\<close>
  lets it read it; the row is the record without the two version numbers. The committed database is what a
  transaction would see that starts next.
\<close>

section \<open>Rows\<close>

definition rows_seen_by :: "MvccTrx \<Rightarrow> Mvcc \<Rightarrow> int \<Rightarrow> RID \<rightharpoonup> byte list" where
  "rows_seen_by tx s tid rid =
     (case mv_tables s tid of None \<Rightarrow> None | Some tb \<Rightarrow>
      case tb_records tb rid of None \<Rightarrow> None | Some rec \<Rightarrow>
      if MvccTrx_visit_record tx tb rec True = SUCCESS then Some (v_rest rec) else None)"

definition visible_rows :: "Mvcc \<Rightarrow> nat \<Rightarrow> int \<Rightarrow> RID \<rightharpoonup> byte list" where
  "visible_rows s h = rows_seen_by (mv_heap s h) s"

definition committed :: "Mvcc \<Rightarrow> int \<Rightarrow> RID \<rightharpoonup> byte list" where
  "committed s = rows_seen_by \<lparr>tx_id = mv_current s + 1, tx_started = True, tx_recovering = False, tx_operations = []\<rparr> s"

text \<open>The rows of a transaction that were there when it started, or that it made itself.\<close>

definition snapshot :: "Mvcc \<Rightarrow> nat \<Rightarrow> int \<Rightarrow> RID \<rightharpoonup> byte list" where
  "snapshot s h tid rid =
     (case mv_tables s tid of None \<Rightarrow> None | Some tb \<Rightarrow>
      case tb_records tb rid of None \<Rightarrow> None | Some rec \<Rightarrow>
      if field_get_int (begin_field tb) rec \<le> tx_id (mv_heap s h) then visible_rows s h tid rid else None)"

definition row :: "int \<Rightarrow> byte list \<Rightarrow> byte list option" where
  "row t rec = (if sees t True rec = SUCCESS then Some (v_rest rec) else None)"

definition snap_row :: "int \<Rightarrow> byte list \<Rightarrow> byte list option" where
  "snap_row t rec = (if v_begin rec \<le> t then row t rec else None)"

definition com_row :: "byte list \<Rightarrow> byte list option" where
  "com_row rec = (if 0 < v_begin rec \<and> (v_end rec < 0 \<or> v_end rec = max_trx_id) then Some (v_rest rec) else None)"

lemma rows_row: "tables_ok (mv_tables s) \<Longrightarrow> rows_seen_by tx s tid rid = Option.bind (recs (mv_tables s) tid rid) (row (tx_id tx))"
  by (auto simp: rows_seen_by_def recs_def row_def visit_sees tables_ok_def split: option.splits)

lemma snapshot_row: "tables_ok (mv_tables s) \<Longrightarrow> snapshot s h tid rid = Option.bind (recs (mv_tables s) tid rid) (snap_row (tx_id (mv_heap s h)))"
  by (auto simp: snapshot_def visible_rows_def rows_row recs_def snap_row_def tables_ok_def split: option.splits)

text \<open>What a transaction sees that starts next.\<close>

lemma row_next: "version_ok cur rec \<Longrightarrow> 0 \<le> cur \<Longrightarrow> cur + 1 < max_trx_id \<Longrightarrow> row (cur + 1) rec = com_row rec"
  by (auto simp: row_def com_row_def sees_def version_ok_def)

lemma committed_row:
  assumes "mvcc_inv s" "mv_current s + 1 < max_trx_id"
  shows "committed s tid rid = Option.bind (recs (mv_tables s) tid rid) com_row"
proof -
  have 1: "tables_ok (mv_tables s)" "0 \<le> mv_current s" using assms(1) by (simp_all add: mvcc_inv_def inv0_def)
  have "version_ok (mv_current s) rec" if "recs (mv_tables s) tid rid = Some rec" for rec
    using assms(1) that by (simp add: mvcc_inv_def inv0_def)
  then show ?thesis using 1 row_next [OF _ 1(2) assms(2)]
    by (cases "recs (mv_tables s) tid rid") (simp_all add: committed_def rows_row)
qed

section \<open>Single steps on the versions\<close>

lemma row_parts: "v_begin r = v_begin r' \<Longrightarrow> v_end r = v_end r' \<Longrightarrow> v_rest r = v_rest r' \<Longrightarrow> row t r = row t r'"
  by (simp add: row_def sees_def)

text \<open>The operations of another transaction leave the snapshot of a running one as it is.\<close>

lemma take_snap_row:
  assumes "8 \<le> length rec" "i32_range (- g)" "0 < v_begin rec \<and> v_end rec = max_trx_id \<or> v_begin rec = - g" "0 < g" "0 < t" "g \<noteq> t" "t < max_trx_id"
  shows "snap_row t (with_end (- g) rec) = snap_row t rec"
  using assms by (auto simp: snap_row_def row_def sees_def max_trx_id_def)

lemma take_com_row:
  assumes "8 \<le> length rec" "i32_range (- g)" "v_end rec = max_trx_id \<or> v_begin rec = - g" "0 < g"
  shows "com_row (with_end (- g) rec) = com_row rec"
  using assms by (auto simp: com_row_def max_trx_id_def)

lemma commit_snap_row:
  assumes "version_ok cur rec" "0 \<le> cur" "cur + 1 < max_trx_id" "t \<le> cur" "0 < t" "g \<noteq> t"
    and "ops_of OP_INSERT ops tid rid \<Longrightarrow> v_begin rec = - g" "ops_of OP_DELETE ops tid rid \<Longrightarrow> v_end rec = - g \<and> 0 < v_begin rec" "0 < g \<or> ops = []"
  shows "snap_row t (commit_version (cur + 1) ops tid rid rec) = snap_row t rec"
proof -
  note cv = commit_version_simps [OF assms(1) _ assms(3,2)]
  consider (i) "ops_of OP_INSERT ops tid rid" | (d) "\<not> ops_of OP_INSERT ops tid rid" "ops_of OP_DELETE ops tid rid"
    | (n) "\<not> ops_of OP_INSERT ops tid rid" "\<not> ops_of OP_DELETE ops tid rid" by blast
  then show ?thesis
  proof cases
    case i
    then have "0 < g" using assms(9) by (auto simp: ops_of_def)
    then show ?thesis using i cv(1) [OF _ i] assms by (simp add: snap_row_def row_def sees_def)
  next
    case d
    then have "0 < g" using assms(9) by (auto simp: ops_of_def)
    then show ?thesis using d cv assms by (simp add: snap_row_def row_def sees_def)
  next
    case n
    then show ?thesis by (simp add: commit_version_def)
  qed
qed

lemma undo_snap_row:
  assumes "version_ok cur rec" "t \<le> cur" "cur < max_trx_id" "0 < t" "g \<noteq> t"
    and "ops_of OP_INSERT ops tid rid \<Longrightarrow> v_begin rec = - g" "ops_of OP_DELETE ops tid rid \<Longrightarrow> v_end rec = - g \<and> 0 < v_begin rec" "0 < g \<or> ops = []"
  shows "Option.bind (undo_version ops tid rid (Some rec)) (snap_row t) = snap_row t rec"
proof -
  have g: "0 < g" if "ops_of k ops tid rid" for k using that assms(8) by (auto simp: ops_of_def)
  have m: "i32_range max_trx_id" "0 < max_trx_id" by (simp_all add: i32_range_def max_trx_id_def)
  show ?thesis using assms g m by (auto simp: undo_version_def snap_row_def row_def sees_def version_ok_def)
qed

lemma undo_com_row:
  assumes "version_ok cur rec" "ops_of OP_INSERT ops tid rid \<Longrightarrow> v_begin rec = - g"
    and "ops_of OP_DELETE ops tid rid \<Longrightarrow> v_end rec = - g \<and> 0 < v_begin rec" "0 < g \<or> ops = []"
  shows "Option.bind (undo_version ops tid rid (Some rec)) com_row = com_row rec"
proof -
  have g: "0 < g" if "ops_of k ops tid rid" for k using that assms(4) by (auto simp: ops_of_def)
  have m: "i32_range max_trx_id" "0 < max_trx_id" by (simp_all add: i32_range_def max_trx_id_def)
  show ?thesis using assms g m by (auto simp: undo_version_def com_row_def version_ok_def)
qed

text \<open>The transaction that acts, and the versions of its operations.\<close>

lemma actor:
  assumes "vinv v" "g \<in> set (vs_trxes v)"
  shows "vs_recs v tid rid = Some rec \<Longrightarrow> ops_of OP_INSERT (tx_operations (vs_heap v g)) tid rid \<Longrightarrow>
      v_begin rec = - tx_id (vs_heap v g) \<and> v_end rec \<in> {max_trx_id, - tx_id (vs_heap v g)}"
    "vs_recs v tid rid = Some rec \<Longrightarrow> ops_of OP_DELETE (tx_operations (vs_heap v g)) tid rid \<Longrightarrow> v_end rec = - tx_id (vs_heap v g) \<and> 0 < v_begin rec"
    "0 < tx_id (vs_heap v g) \<or> tx_operations (vs_heap v g) = []" "vs_recs v tid rid = Some rec \<Longrightarrow> version_ok (vs_cur v) rec"
proof -
  have inv: "inv0 (vs_cur v) (vs_recs v) (vs_trxes v) (vs_heap v)" using assms(1) by (simp add: vinv_def)
  note f = inv0_facts [OF inv assms(2)]
  show "vs_recs v tid rid = Some rec \<Longrightarrow> ops_of OP_INSERT (tx_operations (vs_heap v g)) tid rid \<Longrightarrow>
      v_begin rec = - tx_id (vs_heap v g) \<and> v_end rec \<in> {max_trx_id, - tx_id (vs_heap v g)}"
    "vs_recs v tid rid = Some rec \<Longrightarrow> ops_of OP_DELETE (tx_operations (vs_heap v g)) tid rid \<Longrightarrow> v_end rec = - tx_id (vs_heap v g) \<and> 0 < v_begin rec"
    using op_version [OF f(1)] by blast+
  show "0 < tx_id (vs_heap v g) \<or> tx_operations (vs_heap v g) = []" using f(1) by (auto simp: trx_ok_def split: if_splits)
  show "vs_recs v tid rid = Some rec \<Longrightarrow> version_ok (vs_cur v) rec" by (rule f(2))
qed

lemma started_facts:
  assumes "vinv v" "h \<in> set (vs_trxes v)" "tx_started (vs_heap v h)"
  shows "0 < tx_id (vs_heap v h)" "tx_id (vs_heap v h) \<le> vs_cur v" "vs_cur v < max_trx_id" "0 \<le> vs_cur v" "i32_range (- tx_id (vs_heap v h))"
    "g \<in> set (vs_trxes v) \<Longrightarrow> g \<noteq> h \<Longrightarrow> tx_started (vs_heap v g) \<or> tx_operations (vs_heap v g) \<noteq> [] \<Longrightarrow> tx_id (vs_heap v g) \<noteq> tx_id (vs_heap v h)"
proof -
  have inv: "inv0 (vs_cur v) (vs_recs v) (vs_trxes v) (vs_heap v)" using assms(1) by (simp add: vinv_def)
  show "0 < tx_id (vs_heap v h)" "tx_id (vs_heap v h) \<le> vs_cur v" "vs_cur v < max_trx_id" "0 \<le> vs_cur v" "i32_range (- tx_id (vs_heap v h))"
    using inv0_facts(3) [OF inv assms(2,3)] inv by (simp_all add: inv0_def)
  assume g: "g \<in> set (vs_trxes v)" "g \<noteq> h" "tx_started (vs_heap v g) \<or> tx_operations (vs_heap v g) \<noteq> []"
  then have "tx_started (vs_heap v g)" using inv0_facts(1) [OF inv g(1)] by (auto simp: trx_ok_def split: if_splits)
  then show "tx_id (vs_heap v g) \<noteq> tx_id (vs_heap v h)" using inv0_distinct_ids [OF inv assms(2) g(1,2) assms(3)] by simp
qed

definition snaps :: "int \<Rightarrow> (int \<Rightarrow> RID \<rightharpoonup> byte list) \<Rightarrow> int \<Rightarrow> RID \<rightharpoonup> byte list" where
  "snaps t R tid rid = Option.bind (R tid rid) (snap_row t)"

definition coms :: "(int \<Rightarrow> RID \<rightharpoonup> byte list) \<Rightarrow> int \<Rightarrow> RID \<rightharpoonup> byte list" where
  "coms R tid rid = Option.bind (R tid rid) com_row"

lemma upd_same:
  "f rec = Option.bind (R tid rid) f \<Longrightarrow> Option.bind (upd_rec tid rid rec R tid' rid') f = Option.bind (R tid' rid') f"
  by (auto simp: upd_rec_apply)

lemma vop_snaps:
  assumes "vop g v v'" "vinv v" "g \<noteq> h" "h \<in> set (vs_trxes v)" "tx_started (vs_heap v h)"
  shows "h \<in> set (vs_trxes v') \<and> vs_heap v' h = vs_heap v h \<and> snaps (tx_id (vs_heap v h)) (vs_recs v') = snaps (tx_id (vs_heap v h)) (vs_recs v)"
  using assms
proof (induction rule: vop.induct)
  case (v_new g v tid rid rec)
  note f = started_facts [OF v_new(7,9,10)]
  have "snap_row (tx_id (vs_heap v h)) rec = None"
    using f(6) [OF v_new(1,8)] v_new(2,5) f(1) started_facts(1) [OF v_new(7,1,2)] by (auto simp: snap_row_def row_def sees_def)
  then show ?case using v_new by (simp add: with_ops_def snaps_def fun_eq_iff upd_same)
next
  case (v_take g v tid rid rec ops)
  note f = started_facts [OF v_take(5,7,8)] and a = started_facts [OF v_take(5,1,2)]
  have tk: "vs_recs v tid rid = Some rec" "0 < v_begin rec \<and> v_end rec = max_trx_id \<or> v_begin rec = - tx_id (vs_heap v g)"
    using v_take(3) by (simp_all add: takable_def)
  have "snap_row (tx_id (vs_heap v h)) (with_end (- tx_id (vs_heap v g)) rec) = snap_row (tx_id (vs_heap v h)) rec"
    using actor(4) [OF v_take(5,1) tk(1)] f(6) [OF v_take(1,6)] v_take(2) f(1-3)
    by (intro take_snap_row [OF _ a(5) tk(2) a(1) f(1)]) (auto simp: version_ok_def)
  then show ?case using v_take(6-8) tk(1) by (simp add: with_ops_def snaps_def fun_eq_iff upd_same)
next
  case (v_rollback g v)
  note f = started_facts [OF v_rollback(2,4,5)] and a = actor [OF v_rollback(2,1)]
  let ?ops = "tx_operations (vs_heap v g)"
  have "Option.bind (undo_version ?ops tid rid (vs_recs v tid rid)) (snap_row (tx_id (vs_heap v h))) = Option.bind (vs_recs v tid rid) (snap_row (tx_id (vs_heap v h)))" for tid rid
  proof (cases "vs_recs v tid rid = None \<or> ?ops = []")
    case True
    then show ?thesis by (auto simp: undo_version_def ops_of_def)
  next
    case False
    then obtain rec where rec: "vs_recs v tid rid = Some rec" by auto
    have "tx_id (vs_heap v g) \<noteq> tx_id (vs_heap v h)" using f(6) [OF v_rollback(1,3)] False by simp
    then show ?thesis using undo_snap_row [OF a(4) [OF rec] f(2,3,1) _ _ _ a(3)] a(1,2) [OF rec] by (simp add: rec)
  qed
  then show ?case using v_rollback(3-5) by (simp add: snaps_def fun_eq_iff)
qed (auto simp: snaps_def)

lemma vcommit_snaps:
  assumes "g \<in> set (vs_trxes v)" "vs_cur v + 1 < max_trx_id" "vinv v" "g \<noteq> h" "h \<in> set (vs_trxes v)" "tx_started (vs_heap v h)"
  shows "snaps (tx_id (vs_heap v h)) (vs_recs (vcommit g v)) = snaps (tx_id (vs_heap v h)) (vs_recs v)"
proof (intro ext)
  fix tid rid
  note f = started_facts [OF assms(3,5,6)] and a = actor [OF assms(3,1)]
  let ?ops = "tx_operations (vs_heap v g)"
  show "snaps (tx_id (vs_heap v h)) (vs_recs (vcommit g v)) tid rid = snaps (tx_id (vs_heap v h)) (vs_recs v) tid rid"
  proof (cases "vs_recs v tid rid = None \<or> ?ops = []")
    case True
    then show ?thesis by (cases "vs_recs v tid rid") (auto simp: vcommit_def snaps_def commit_version_def ops_of_def)
  next
    case False
    then obtain rec where rec: "vs_recs v tid rid = Some rec" by auto
    have "tx_id (vs_heap v g) \<noteq> tx_id (vs_heap v h)" using f(6) [OF assms(1,4)] False by simp
    then show ?thesis
      using commit_snap_row [OF a(4) [OF rec] f(4) assms(2) f(2,1) _ _ _ a(3)] a(1,2) [OF rec]
      by (simp add: rec vcommit_def snaps_def)
  qed
qed

text \<open>No operation but a commit changes the committed database.\<close>

lemma vop_coms: "vop g v v' \<Longrightarrow> vinv v \<Longrightarrow> coms (vs_recs v') = coms (vs_recs v)"
proof (induction rule: vop.induct)
  case (v_new g v tid rid rec)
  have "com_row rec = None" using v_new(5) started_facts(1) [OF v_new(7,1,2)] by (simp add: com_row_def)
  then show ?case using v_new by (simp add: coms_def fun_eq_iff upd_same)
next
  case (v_take g v tid rid rec ops)
  note a = started_facts [OF v_take(5,1,2)]
  have tk: "vs_recs v tid rid = Some rec" "v_end rec = max_trx_id \<or> v_begin rec = - tx_id (vs_heap v g)" using v_take(3) by (auto simp: takable_def)
  have "com_row (with_end (- tx_id (vs_heap v g)) rec) = com_row rec"
    using actor(4) [OF v_take(5,1) tk(1)] by (intro take_com_row [OF _ a(5) tk(2) a(1)]) (simp add: version_ok_def)
  then show ?case using tk(1) by (simp add: coms_def fun_eq_iff upd_same)
next
  case (v_rollback g v)
  note a = actor [OF v_rollback(2,1)]
  have "Option.bind (undo_version (tx_operations (vs_heap v g)) tid rid (vs_recs v tid rid)) com_row = Option.bind (vs_recs v tid rid) com_row" for tid rid
  proof (cases "vs_recs v tid rid")
    case None
    then show ?thesis by (simp add: undo_version_def)
  next
    case (Some rec)
    show ?thesis unfolding Some using a(1,2) [OF Some] by (simp add: undo_com_row [OF a(4) [OF Some] _ _ a(3)])
  qed
  then show ?case by (simp add: coms_def fun_eq_iff)
qed (simp_all add: coms_def)

lemma vcommit_coms:
  assumes "h \<in> set (vs_trxes v)" "vs_cur v + 1 < max_trx_id" "vinv v"
  shows "coms (vs_recs (vcommit h v)) tid rid =
    (if ops_of OP_INSERT (tx_operations (vs_heap v h)) tid rid then map_option v_rest (vs_recs v tid rid)
     else if ops_of OP_DELETE (tx_operations (vs_heap v h)) tid rid then None else coms (vs_recs v) tid rid)"
proof (cases "vs_recs v tid rid")
  case None
  then show ?thesis by (simp add: coms_def vcommit_def)
next
  case (Some rec)
  note a = actor [OF assms(3,1)]
  have cur: "0 \<le> vs_cur v" using assms(3) by (simp add: vinv_def inv0_def)
  note cv = commit_version_simps [OF a(4) [OF Some] _ assms(2) cur]
  have r: "coms (vs_recs (vcommit h v)) tid rid = com_row (commit_version (vs_cur v + 1) (tx_operations (vs_heap v h)) tid rid rec)"
    using Some by (simp add: coms_def vcommit_def)
  show ?thesis
  proof (cases "ops_of OP_INSERT (tx_operations (vs_heap v h)) tid rid")
    case True
    then have "0 < tx_id (vs_heap v h)" using a(3) by (auto simp: ops_of_def)
    then show ?thesis using r True cv(1) [OF _ True] cv(4) a(1) [OF Some True] cur Some by (auto simp: com_row_def)
  next
    case False
    then show ?thesis using r cv(2,3) [OF _ False] cv(4) cur Some assms(2) by (auto simp: coms_def com_row_def)
  qed
qed

end
