(* ===== verification/MvccProps.thy ===== *)
theory MvccProps
  imports MvccIsolation
begin

text \<open>
  The guarantees of the transactions: isolation, atomic commit, rollback, reading one's own writes, and
  conflicts; and the situations in which \<^verbatim>\<open>mvcc_trx.cpp\<close> does not give them.
\<close>

section \<open>A state with two running transactions\<close>

definition demo_rid :: RID where "demo_rid = \<lparr>rid_page = 1, rid_slot = 0\<rparr>"
definition demo_free :: RID where "demo_free = \<lparr>rid_page = 1, rid_slot = 1\<rparr>"

definition demo_version :: "int \<Rightarrow> int \<Rightarrow> byte list" where
  "demo_version b e = with_begin b (with_end e (replicate 19 0))"

definition demo_table :: "(RID \<rightharpoonup> byte list) \<Rightarrow> Table" where
  "demo_table m = \<lparr>tb_meta = demo_meta, tb_records = m, tb_indexes = []\<rparr>"

definition demo_trx :: "int \<Rightarrow> MvccTrx" where
  "demo_trx t = \<lparr>tx_id = t, tx_started = True, tx_recovering = False, tx_operations = []\<rparr>"

definition demo_mvcc :: "(RID \<rightharpoonup> byte list) \<Rightarrow> Mvcc" where
  "demo_mvcc m = \<lparr>mv_tables = [1 \<mapsto> demo_table m],
     mv_log = \<lparr>lm_records = [], lm_total_size = 0, lm_file = \<lparr>lf_bytes = [], lf_pos = 0, lf_eof = False\<rparr>\<rparr>,
     mv_current = 5, mv_trxes = [0, 1], mv_heap = (\<lambda>h. demo_trx (if h = 0 then 2 else 4))\<rparr>"

lemma demo_version_simps [simp]: "i32_range b \<Longrightarrow> v_begin (demo_version b e) = b" "i32_range e \<Longrightarrow> v_end (demo_version b e) = e"
  "length (demo_version b e) = 19"
  by (simp_all add: demo_version_def)

lemma demo_offsets: "fm_offset (tm_fields demo_meta ! 0) = 0" "fm_offset (tm_fields demo_meta ! Suc 0) = 4"
  by (simp_all add: demo_meta_def TableMeta_init_def demo_attrs_def FieldMeta_init_def is_blank_def Let_def mvcc_fields_def null_field_len_def wrap_i32_def)

lemma demo_table_ok: "\<forall>rid rec. m rid = Some rec \<longrightarrow> length rec = 19 \<Longrightarrow> mvcc_table (demo_table m)"
  by (auto simp: mvcc_table_def demo_table_def begin_field_def end_field_def demo_offsets demo_fields)

lemma demo_small [simp]: "i32_range 1" "i32_range 2" "i32_range 3" "i32_range 5" "i32_range max_trx_id"
  by (simp_all add: i32_range_def max_trx_id_def)

lemma demo_inv:
  assumes "\<forall>rid rec. m rid = Some rec \<longrightarrow> length rec = 19 \<and> version_ok 5 rec \<and> 0 < v_begin rec"
  shows "mvcc_inv (demo_mvcc m)" "h < 2 \<Longrightarrow> active (demo_mvcc m) h"
proof -
  have "tables_ok (mv_tables (demo_mvcc m))" using demo_table_ok [of m] assms by (auto simp: tables_ok_def demo_mvcc_def)
  moreover have "m rid = Some rec \<Longrightarrow> v_begin rec \<noteq> - 2 \<and> v_begin rec \<noteq> - 4" for rid rec using assms by fastforce
  ultimately show "mvcc_inv (demo_mvcc m)" using assms
    by (auto simp: mvcc_inv_def inv0_def demo_mvcc_def demo_trx_def trx_ok_def ops_distinct_def max_trx_id_def recs_def demo_table_def split: if_splits)
  show "h < 2 \<Longrightarrow> active (demo_mvcc m) h" by (auto simp: active_def demo_mvcc_def demo_trx_def)
qed

definition demo_rows :: "RID \<rightharpoonup> byte list" where
  "demo_rows = [demo_rid \<mapsto> demo_version 1 max_trx_id]"

lemma demo_rows_ok: "\<forall>rid rec. demo_rows rid = Some rec \<longrightarrow> length rec = 19 \<and> version_ok 5 rec \<and> 0 < v_begin rec"
  by (auto simp: demo_rows_def version_ok_def split: if_splits)

lemmas demo_state = demo_inv [OF demo_rows_ok]


section \<open>Isolation\<close>

lemma snapshot_snaps: "mvcc_inv s \<Longrightarrow> snapshot s h = snaps (tx_id (mv_heap s h)) (recs (mv_tables s))"
  by (simp add: snapshot_row snaps_def fun_eq_iff mvcc_inv_def)

lemma committed_coms: "mvcc_inv s \<Longrightarrow> mv_current s + 1 < max_trx_id \<Longrightarrow> committed s = coms (recs (mv_tables s))"
  by (simp add: committed_row coms_def fun_eq_iff)

lemma vops_snaps:
  assumes "(vop g)\<^sup>*\<^sup>* v v'" "vinv v" "g \<noteq> h" "h \<in> set (vs_trxes v)" "tx_started (vs_heap v h)"
  shows "vinv v' \<and> h \<in> set (vs_trxes v') \<and> vs_heap v' h = vs_heap v h \<and> snaps (tx_id (vs_heap v h)) (vs_recs v') = snaps (tx_id (vs_heap v h)) (vs_recs v)"
  using assms
proof (induction rule: rtranclp_induct)
  case (step v1 v2)
  then show ?case using vop_snaps [OF step(2), of h] vop_inv [OF step(2)] by simp
qed simp

lemma simulated_snapshot:
  assumes "simulated g s s'" "mvcc_inv s" "g \<noteq> h" "active s h"
  shows "active s' h \<and> mv_heap s' h = mv_heap s h \<and> snapshot s' h = snapshot s h"
proof -
  have v: "vinv (versions s)" "h \<in> set (vs_trxes (versions s))" "tx_started (vs_heap (versions s) h)"
    using assms(2,4) by (simp_all add: mvcc_inv_versions active_def)
  show ?thesis
    using vops_snaps [of g "versions s" "versions s'", OF _ v(1) assms(3) v(2,3)] simulated_inv [OF assms(1,2)] assms(1,2) v(2,3)
    by (simp add: simulated_def active_def snapshot_snaps)
qed

lemma step_snapshot:
  assumes "mvcc_step fsub g s s'" "\<not> stale_update fsub g s s'" "mvcc_inv s" "g \<noteq> h" "active s h"
  shows "active s' h \<and> mv_heap s' h = mv_heap s h \<and> snapshot s' h = snapshot s h"
proof (cases "mvcc_op fsub g s s'")
  case True
  then show ?thesis using op_simulated [OF True assms(3)] assms(2) simulated_snapshot [OF _ assms(3-5)] by blast
next
  case False
  then have c: "mvcc_commit g s s'" using assms(1) by (simp add: mvcc_step_def)
  have inv: "mvcc_inv s'" using commit_inv [OF c assms(3)] .
  have v: "vinv (versions s)" "h \<in> set (vs_trxes (versions s))" "tx_started (vs_heap (versions s) h)"
    using assms(3,5) by (simp_all add: mvcc_inv_versions active_def)
  have e: "versions s' = vcommit g (versions s)" using commit_simulated [OF c assms(3)] by blast
  have 1: "mv_trxes s' = mv_trxes s" "mv_heap s' h = mv_heap s h"
    using e assms(4) by (simp_all add: versions_def vcommit_def)
  have "snaps (tx_id (mv_heap s h)) (recs (mv_tables s')) = snaps (tx_id (mv_heap s h)) (recs (mv_tables s))"
    using vcommit_snaps [OF _ _ v(1) assms(4) v(2,3)] c e [symmetric] by (simp add: mvcc_commit_def)
  then show ?thesis using 1 inv assms(3,5) by (simp add: snapshot_snaps active_def)
qed

section \<open>Interleavings of clients that do not disturb each other\<close>

text \<open>
  What an engine promises whose clients act in any order: every step of a client keeps the invariant; and, when its clients are isolated from
  each other, it leaves a running client other than the one that acts running and with the same view.
\<close>

locale kept_steps =
  fixes inv :: "'s \<Rightarrow> bool" and step :: "'c \<Rightarrow> 's \<Rightarrow> 's \<Rightarrow> bool"
  assumes keeps: "step c s s' \<Longrightarrow> inv s \<Longrightarrow> inv s'"
begin

lemma steps_keep: "(\<lambda>s s'. \<exists>c. step c s s')\<^sup>*\<^sup>* s s' \<Longrightarrow> inv s \<Longrightarrow> inv s'"
  by (induction rule: rtranclp_induct) (auto intro: keeps)

end

locale isolated_steps = kept_steps inv step
  for inv :: "'s \<Rightarrow> bool" and step :: "'c \<Rightarrow> 's \<Rightarrow> 's \<Rightarrow> bool" +
  fixes running :: "'s \<Rightarrow> 'c \<Rightarrow> bool" and view :: "'s \<Rightarrow> 'c \<Rightarrow> 'v"
  assumes undisturbed: "step c s s' \<Longrightarrow> inv s \<Longrightarrow> c \<noteq> d \<Longrightarrow> running s d \<Longrightarrow> running s' d \<and> view s' d = view s d"
begin

lemma steps_undisturbed:
  "(\<lambda>s s'. \<exists>c. c \<noteq> d \<and> step c s s')\<^sup>*\<^sup>* s s' \<Longrightarrow> inv s \<Longrightarrow> running s d \<Longrightarrow> inv s' \<and> running s' d \<and> view s' d = view s d"
proof (induction rule: rtranclp_induct)
  case (step s1 s2)
  then obtain c where c: "c \<noteq> d" "step c s1 s2" by blast
  then show ?case using step.IH [OF step.prems] keeps [OF c(2)] undisturbed [OF c(2) _ c(1)] by simp
qed simp

end

interpretation mvcc: kept_steps mvcc_inv "mvcc_step fsub" for fsub
  by unfold_locales (rule step_inv)

interpretation mvcc_newest: isolated_steps mvcc_inv "\<lambda>h s s'. mvcc_step fsub h s s' \<and> \<not> stale_update fsub h s s'" active snapshot for fsub
  by unfold_locales (use step_inv step_snapshot in blast)+


section \<open>Any interleaving\<close>

text \<open>C9: The invariant of the transactions holds after any interleaving of their operations: version numbers are those
  of transactions that exist or have committed, every operation of a running transaction is marked in the record it
  concerns, and no two running transactions have written the same record.\<close>

theorem mvcc_invariant:
  assumes "mvcc_inv s" "(\<lambda>s s'. \<exists>h. mvcc_step fsub h s s')\<^sup>*\<^sup>* s s'"
  shows "mvcc_inv s' \<and>
    (\<forall>h g x y. active s' h \<and> active s' g \<and> h \<noteq> g \<and> x \<in> set (tx_operations (mv_heap s' h)) \<and> y \<in> set (tx_operations (mv_heap s' g)) \<longrightarrow>
       \<not> op_equal x y)"
proof -
  have inv: "mvcc_inv s'" using mvcc.steps_keep [OF assms(2,1)] .
  then have "inv0 (mv_current s') (recs (mv_tables s')) (mv_trxes s') (mv_heap s')" by (simp add: mvcc_inv_def)
  from ops_disjoint [OF this] show ?thesis using inv unfolding active_def op_equal_def by fastforce
qed

theorem mvcc_invariant_witness:
  "\<exists>s'. MvccTrx_delete_record (\<lambda>_ _. 0) 1 1 demo_rid (demo_mvcc demo_rows) = Some (SUCCESS, s') \<and> mvcc_inv s'"
proof -
  let ?s = "demo_mvcc demo_rows"
  have tb: "mv_tables ?s 1 = Some (demo_table demo_rows)" "tb_records (demo_table demo_rows) demo_rid = Some (demo_version 1 max_trx_id)"
    "mvcc_table (demo_table demo_rows)"
    using demo_table_ok [of demo_rows] demo_rows_ok by (auto simp: demo_mvcc_def demo_table_def demo_rows_def)
  obtain s' where s': "MvccTrx_delete_record (\<lambda>_ _. 0) 1 1 demo_rid ?s = Some (SUCCESS, s')"
    using delete_effect [OF _ tb(1,2), of "\<lambda>_ _. 0" 1] demo_state(1) by (auto simp: mvcc_inv_def)
  have "visited ?s 1 1 (demo_table demo_rows) demo_rid (demo_version 1 max_trx_id)"
    using tb by (simp add: visited_def visit_sees sees_def) (simp add: demo_mvcc_def demo_trx_def max_trx_id_def)
  then have "mvcc_step (\<lambda>_ _. 0) 1 ?s s'" using demo_state(2) [of 1] s' by (auto simp: mvcc_step_def intro: mvcc_op.delete)
  then have "(\<lambda>s s'. \<exists>h. mvcc_step (\<lambda>_ _. 0) h s s')\<^sup>*\<^sup>* ?s s'" by blast
  from mvcc_invariant [OF demo_state(1) this] show ?thesis using s' by blast
qed

text \<open>C3: On tables without indexes, the rows that were there when a transaction started, with its own changes, stay what they are
  for it, whatever other transactions insert, delete, update, commit or roll back meanwhile, one operation after the other; except for
  stale updates: \<open>update_record\<close> does not refuse to update a row whose deletion was committed after the updating transaction started, and
  that makes the row current again (C22).\<close>

theorem snapshot_isolation:
  assumes "mvcc_inv s" "active s h" "(\<lambda>s s'. \<exists>g. g \<noteq> h \<and> mvcc_step fsub g s s' \<and> \<not> stale_update fsub g s s')\<^sup>*\<^sup>* s s'"
  shows "active s' h \<and> snapshot s' h = snapshot s h"
  using mvcc_newest.steps_undisturbed [OF assms(3,1,2)] by simp

text \<open>States without a row whose deletion has been committed: there no update is stale.\<close>

definition all_newest :: "Mvcc \<Rightarrow> bool" where
  "all_newest s \<longleftrightarrow> tables_ok (mv_tables s) \<and> (\<forall>tid rid rec. recs (mv_tables s) tid rid = Some rec \<longrightarrow> v_end rec = max_trx_id \<or> v_end rec < 0)"

lemma no_stale: "all_newest s \<Longrightarrow> \<not> stale_update fsub h s s'"
proof
  assume n: "all_newest s" and "stale_update fsub h s s'"
  then obtain tid tb rid rec where r: "mv_tables s tid = Some tb" "tb_records tb rid = Some rec"
    "0 < field_get_int (end_field tb) rec" "field_get_int (end_field tb) rec \<noteq> max_trx_id"
    unfolding stale_update_def visited_def by blast
  have "recs (mv_tables s) tid rid = Some rec" using r(1,2) by (simp add: recs_def)
  then have "mvcc_table tb" "v_end rec = max_trx_id \<or> v_end rec < 0" using n r(1) by (auto simp: all_newest_def tables_ok_def)
  then show False using r(3,4) by auto
qed

lemma demo_newest: "all_newest (demo_mvcc demo_rows)"
  using demo_state(1) by (auto simp: all_newest_def mvcc_inv_def) (auto simp: demo_mvcc_def recs_def demo_table_def demo_rows_def split: if_splits)

lemma demo_delete:
  obtains s' where "MvccTrx_delete_record (\<lambda>_ _. 0) 1 1 demo_rid (demo_mvcc demo_rows) = Some (SUCCESS, s')"
    "mvcc_op (\<lambda>_ _. 0) 1 (demo_mvcc demo_rows) s'" "mvcc_inv s'" "mv_current s' = 5" "mv_trxes s' = [0, 1]" "all_newest s'"
    "recs (mv_tables s') 1 demo_rid = Some (with_end (-4) (demo_version 1 max_trx_id))" "mv_heap s' 0 = demo_trx 2"
    "tx_operations (mv_heap s' 1) = [del_op 1 demo_rid]"
proof -
  let ?s = "demo_mvcc demo_rows"
  have tb: "mv_tables ?s 1 = Some (demo_table demo_rows)" "tb_records (demo_table demo_rows) demo_rid = Some (demo_version 1 max_trx_id)"
    "mvcc_table (demo_table demo_rows)" "tx_id (mv_heap ?s 1) = 4"
    using demo_table_ok [of demo_rows] demo_rows_ok by (auto simp: demo_mvcc_def demo_table_def demo_rows_def demo_trx_def)
  obtain s' where s': "MvccTrx_delete_record (\<lambda>_ _. 0) 1 1 demo_rid ?s = Some (SUCCESS, s')"
    "effect ?s s' (mv_current ?s) (upd_rec 1 demo_rid (with_end (- 4) (demo_version 1 max_trx_id)) (recs (mv_tables ?s)))
      (with_ops 1 (fst (ops_insert (del_op 1 demo_rid) (tx_operations (mv_heap ?s 1)))) (mv_heap ?s))"
    using delete_effect [OF _ tb(1,2), of "\<lambda>_ _. 0" 1] demo_state(1) tb(4) by (auto simp: mvcc_inv_def)
  have "visited ?s 1 1 (demo_table demo_rows) demo_rid (demo_version 1 max_trx_id)"
    using tb by (simp add: visited_def visit_sees sees_def) (simp add: max_trx_id_def)
  then have st: "mvcc_op (\<lambda>_ _. 0) 1 ?s s'" using demo_state(2) [of 1] s' by (auto intro: mvcc_op.delete)
  have "i32_range (-4)" by (simp add: i32_range_def)
  then have "all_newest s'"
    using s'(2) demo_newest by (auto simp: all_newest_def effect_def upd_rec_apply split: if_splits)
  moreover have "mvcc_inv s'" using op_inv [OF st demo_state(1)] .
  ultimately show ?thesis
    by (intro that [OF s'(1) st]) (use s'(2) in \<open>simp_all add: effect_def demo_mvcc_def upd_rec_apply with_ops_def demo_trx_def ops_insert_def\<close>)
qed

theorem snapshot_isolation_witness:
  "\<exists>s1. MvccTrx_delete_record (\<lambda>_ _. 0) 1 1 demo_rid (demo_mvcc demo_rows) = Some (SUCCESS, s1) \<and>
     snapshot (snd (MvccTrx_commit 1 s1)) 0 = snapshot (demo_mvcc demo_rows) 0"
proof -
  obtain s1 where s1: "MvccTrx_delete_record (\<lambda>_ _. 0) 1 1 demo_rid (demo_mvcc demo_rows) = Some (SUCCESS, s1)"
    "mvcc_op (\<lambda>_ _. 0) 1 (demo_mvcc demo_rows) s1" "mv_current s1 = 5" "mv_trxes s1 = [0, 1]" "all_newest s1" by (rule demo_delete)
  let ?r = "\<lambda>s s'. \<exists>g. g \<noteq> 0 \<and> mvcc_step (\<lambda>_ _. 0) g s s' \<and> \<not> stale_update (\<lambda>_ _. 0) g s s'"
  have "?r (demo_mvcc demo_rows) s1" using s1(2) no_stale [of "demo_mvcc demo_rows"] unfolding mvcc_step_def by (intro exI [of _ 1]) (simp add: demo_newest)
  moreover have "?r s1 (snd (MvccTrx_commit 1 s1))"
    using s1(3,4) no_stale [OF s1(5)] unfolding mvcc_step_def mvcc_commit_def by (intro exI [of _ 1]) (simp add: max_trx_id_def)
  ultimately have "?r\<^sup>*\<^sup>* (demo_mvcc demo_rows) (snd (MvccTrx_commit 1 s1))" by (rule converse_rtranclp_into_rtranclp [OF _ r_into_rtranclp])
  from snapshot_isolation [OF demo_state(1) demo_state(2) [of 0] this] show ?thesis using s1(1) by auto
qed


section \<open>Commit and rollback\<close>

lemma vops_coms: "(vop g)\<^sup>*\<^sup>* v v' \<Longrightarrow> vinv v \<Longrightarrow> coms (vs_recs v') = coms (vs_recs v)"
  by (induction rule: rtranclp_induct) (auto simp: vop_coms vops_inv)

lemma commit_committed:
  assumes "mvcc_inv s" "mv_current s + 2 < max_trx_id" "h \<in> set (mv_trxes s)"
  shows "committed (snd (MvccTrx_commit h s)) tid rid =
      (if ops_of OP_INSERT (tx_operations (mv_heap s h)) tid rid then map_option v_rest (recs (mv_tables s) tid rid)
       else if ops_of OP_DELETE (tx_operations (mv_heap s h)) tid rid then None else committed s tid rid)"
proof -
  have c: "mvcc_commit h s (snd (MvccTrx_commit h s))" using assms(2,3) by (simp add: mvcc_commit_def)
  note e = commit_simulated [OF c assms(1)] and inv = commit_inv [OF c assms(1)]
  have v: "vinv (versions s)" using assms(1) by (simp add: mvcc_inv_versions)
  have cur: "mv_current (snd (MvccTrx_commit h s)) = mv_current s + 1" using e by (simp add: versions_def vcommit_def)
  show ?thesis
    using vcommit_coms [OF _ _ v, of h tid rid] assms e [THEN conjunct1, symmetric] cur
    by (simp add: committed_coms [OF inv] committed_coms [OF assms(1)])
qed

text \<open>C4: On tables without indexes, a commit puts exactly the changes of its transaction into the committed database: afterwards
  every row it inserted is there and none it deleted, and all others are as before. No other operation changes the committed database,
  stale updates excepted (C22), and a transaction that starts sees exactly the committed database. The commit is
  one step here; the code writes the records one after the other, and readers that run concurrently with it can see a part of the changes.\<close>

theorem commit_atomic:
  assumes "mvcc_inv s" "mv_current s + 2 < max_trx_id" "h \<in> set (mv_trxes s)"
  shows "(mvcc_op fsub h s s' \<and> \<not> stale_update fsub h s s' \<and> mv_current s' + 1 < max_trx_id \<longrightarrow> committed s' = committed s) \<and>
    committed (snd (MvccTrx_commit h s)) tid rid =
      (if ops_of OP_INSERT (tx_operations (mv_heap s h)) tid rid then map_option v_rest (recs (mv_tables s) tid rid)
       else if ops_of OP_DELETE (tx_operations (mv_heap s h)) tid rid then None else committed s tid rid) \<and>
    (\<not> tx_started (mv_heap s h) \<longrightarrow> visible_rows (snd (start_if_need h s)) h = committed s)"
proof (intro conjI impI)
  assume op: "mvcc_op fsub h s s' \<and> \<not> stale_update fsub h s s' \<and> mv_current s' + 1 < max_trx_id"
  have "coms (recs (mv_tables s')) = coms (recs (mv_tables s))"
    using vops_coms [of h "versions s" "versions s'"] op_simulated [of fsub h s s'] op assms(1) by (simp add: simulated_def mvcc_inv_versions)
  then show "committed s' = committed s" using op op_inv [of fsub h s s'] assms by (simp add: committed_coms)
next
  show "committed (snd (MvccTrx_commit h s)) tid rid =
      (if ops_of OP_INSERT (tx_operations (mv_heap s h)) tid rid then map_option v_rest (recs (mv_tables s) tid rid)
       else if ops_of OP_DELETE (tx_operations (mv_heap s h)) tid rid then None else committed s tid rid)"
    by (rule commit_committed [OF assms])
next
  assume ns: "\<not> tx_started (mv_heap s h)"
  note e = start_effect(2) [OF assms(1) _ ns]
  show "visible_rows (snd (start_if_need h s)) h = committed s"
    using e assms(1,2) by (simp add: visible_rows_def committed_def fun_eq_iff rows_row effect_def mvcc_inv_def)
qed

theorem commit_atomic_witness:
  "\<exists>s1. MvccTrx_delete_record (\<lambda>_ _. 0) 1 1 demo_rid (demo_mvcc demo_rows) = Some (SUCCESS, s1) \<and>
     committed s1 1 demo_rid \<noteq> None \<and> committed (snd (MvccTrx_commit 1 s1)) 1 demo_rid = None"
proof -
  obtain s1 where s1: "MvccTrx_delete_record (\<lambda>_ _. 0) 1 1 demo_rid (demo_mvcc demo_rows) = Some (SUCCESS, s1)"
    "mvcc_inv s1" "mv_current s1 = 5" "mv_trxes s1 = [0, 1]"
    "recs (mv_tables s1) 1 demo_rid = Some (with_end (-4) (demo_version 1 max_trx_id))" "tx_operations (mv_heap s1 1) = [del_op 1 demo_rid]"
    by (rule demo_delete)
  have "committed (snd (MvccTrx_commit 1 s1)) 1 demo_rid = None"
    using commit_atomic [OF s1(2), of 1 undefined undefined 1 demo_rid] s1(3-6) by (simp add: max_trx_id_def ops_of_def)
  moreover have "committed s1 1 demo_rid \<noteq> None"
  proof -
    have "committed s1 = coms (recs (mv_tables s1))" using committed_coms [OF s1(2)] s1(3) by (simp add: max_trx_id_def)
    moreover have "i32_range (-4)" by (simp add: i32_range_def)
    ultimately show ?thesis using s1(5) by (simp add: coms_def com_row_def)
  qed
  ultimately show ?thesis using s1(1) by blast
qed

text \<open>C10: On tables without indexes a rollback always returns; it removes exactly the records the transaction inserted, makes those it deleted current
  again, and leaves every other record, the committed database and the snapshots of all other transactions as they were.\<close>

theorem rollback_exact:
  assumes "mvcc_inv s" "h \<in> set (mv_trxes s)" "mv_current s + 1 < max_trx_id"
  shows "\<exists>rc s'. MvccTrx_rollback fsub h s = Some (rc, s') \<and> \<not> tx_started (mv_heap s' h) \<and> tx_operations (mv_heap s' h) = [] \<and>
    (\<forall>tid rid. recs (mv_tables s') tid rid =
       (if ops_of OP_INSERT (tx_operations (mv_heap s h)) tid rid then None
        else if ops_of OP_DELETE (tx_operations (mv_heap s h)) tid rid then map_option (with_end max_trx_id) (recs (mv_tables s) tid rid)
        else recs (mv_tables s) tid rid)) \<and>
    committed s' = committed s \<and> (\<forall>g. active s g \<and> g \<noteq> h \<longrightarrow> snapshot s' g = snapshot s g)"
proof -
  obtain rc s' where r: "MvccTrx_rollback fsub h s = Some (rc, s')"
    and e: "effect s s' (mv_current s) (\<lambda>tid rid. undo_version (tx_operations (mv_heap s h)) tid rid (recs (mv_tables s) tid rid))
      ((mv_heap s)(h := (mv_heap s h)\<lparr>tx_started := False, tx_operations := []\<rparr>))"
    using rollback_effect [OF assms(1,2)] by blast
  have sim: "simulated h s s'" by (rule rollback_simulated [OF assms(1,2) r])
  have "coms (recs (mv_tables s')) = coms (recs (mv_tables s))"
    using vops_coms [of h "versions s" "versions s'"] sim assms(1) by (simp add: simulated_def mvcc_inv_versions)
  then have "committed s' = committed s" using simulated_inv [OF sim assms(1)] e assms(1,3) by (simp add: committed_coms effect_def)
  moreover have "snapshot s' g = snapshot s g" if "active s g" "g \<noteq> h" for g
    using simulated_snapshot [OF sim assms(1) that(2) [symmetric] that(1)] by blast
  ultimately show ?thesis using r e by (auto simp: effect_def undo_version_def)
qed

theorem rollback_exact_witness:
  "\<exists>s1 rc s2. MvccTrx_delete_record (\<lambda>_ _. 0) 1 1 demo_rid (demo_mvcc demo_rows) = Some (SUCCESS, s1) \<and>
     MvccTrx_rollback (\<lambda>_ _. 0) 1 s1 = Some (rc, s2) \<and> map_option v_end (recs (mv_tables s2) 1 demo_rid) = Some max_trx_id"
proof -
  obtain s1 where s1: "MvccTrx_delete_record (\<lambda>_ _. 0) 1 1 demo_rid (demo_mvcc demo_rows) = Some (SUCCESS, s1)"
    "mvcc_inv s1" "mv_current s1 = 5" "mv_trxes s1 = [0, 1]"
    "recs (mv_tables s1) 1 demo_rid = Some (with_end (-4) (demo_version 1 max_trx_id))" "tx_operations (mv_heap s1 1) = [del_op 1 demo_rid]"
    by (rule demo_delete)
  obtain rc s2 where "MvccTrx_rollback (\<lambda>_ _. 0) 1 s1 = Some (rc, s2)"
    "\<forall>tid rid. recs (mv_tables s2) tid rid =
       (if ops_of OP_INSERT (tx_operations (mv_heap s1 1)) tid rid then None
        else if ops_of OP_DELETE (tx_operations (mv_heap s1 1)) tid rid then map_option (with_end max_trx_id) (recs (mv_tables s1) tid rid)
        else recs (mv_tables s1) tid rid)"
    using rollback_exact [OF s1(2), of 1 "\<lambda>_ _. 0"] s1(3,4) by (auto simp: max_trx_id_def)
  then show ?thesis using s1 by (auto simp: ops_of_def)
qed


section \<open>What a transaction sees of its own changes\<close>

lemma rows_upd:
  "Option.bind (upd_rec tid rid rec R tid' rid') f = ((\<lambda>tid rid. Option.bind (R tid rid) f)(tid := ((\<lambda>rid. Option.bind (R tid rid) f)(rid := f rec)))) tid' rid'"
  by (auto simp: upd_rec_apply)

lemma visible_recs: "mvcc_inv s \<Longrightarrow> visible_rows s h = (\<lambda>tid rid. Option.bind (recs (mv_tables s) tid rid) (row (tx_id (mv_heap s h))))"
  by (simp add: visible_rows_def fun_eq_iff rows_row mvcc_inv_def)

lemma effect_visible:
  assumes "effect s s' c R H" "tx_id (H h) = tx_id (mv_heap s h)"
  shows "visible_rows s' h = (\<lambda>tid rid. Option.bind (R tid rid) (row (tx_id (mv_heap s h))))"
  using assms by (simp add: visible_rows_def fun_eq_iff rows_row effect_def)

lemma own_row: "v_begin rec = - t \<Longrightarrow> 0 < t \<Longrightarrow> row t rec = Some (v_rest rec)"
  by (simp add: row_def sees_def)

lemma own_deleted: "0 < v_begin rec \<Longrightarrow> v_end rec = - t \<Longrightarrow> 0 < t \<Longrightarrow> row t rec = None"
  by (simp add: row_def sees_def)

text \<open>C27: A transaction sees its own changes: the row it inserts, no longer the committed row it deletes, and the new row instead
  of the committed one when it updates; all other rows look as before. None of the three can fail when the record file has room.
  The deleted or updated row is the newest version of a row that another transaction has committed; the old version of a row that the
  transaction inserted itself stays visible to it (C32).\<close>

theorem own_writes:
  assumes "mvcc_inv s" "active s h" "visited s h tid tb rid rec" "v_end rec = max_trx_id" "0 < v_begin rec"
    "at_table s tid tb new_rec" "tb_records tb rid2 = None"
  shows "\<exists>rc1 s1 s2 s3.
    MvccTrx_insert_record fsub h tid (Inr rid2) new_rec s = Some (rc1, s1) \<and>
    visible_rows s1 h = (visible_rows s h)(tid := (visible_rows s h tid)(rid2 \<mapsto> v_rest new_rec)) \<and>
    MvccTrx_delete_record fsub h tid rid s = Some (SUCCESS, s2) \<and>
    visible_rows s2 h = (visible_rows s h)(tid := (visible_rows s h tid)(rid := None)) \<and>
    MvccTrx_update_record fsub h tid rid (Inr rid2) new_rec s = Some (SUCCESS, s3) \<and>
    visible_rows s3 h = (visible_rows s h)(tid := (visible_rows s h tid)(rid := None, rid2 \<mapsto> v_rest new_rec))"
proof -
  note f = inv_facts [OF assms(1,2)] and t = at_table_facts [OF inv_facts(4) [OF assms(1,2)] assms(6)]
  have v: "mv_tables s tid = Some tb" "tb_records tb rid = Some rec" "MvccTrx_visit_record (mv_heap s h) tb rec False = SUCCESS"
    using assms(3) by (simp_all add: visited_def)
  let ?t = "tx_id (mv_heap s h)"
  have pos: "0 < ?t" using inv0_facts(3) [OF f(5,2,3)] by simp
  have len: "8 \<le> length rec" using mvcc_table_length [OF t(1) v(2)] by simp
  have n: "row ?t (new_version ?t tb new_rec) = Some (v_rest new_rec)"
    using new_version_simps [OF t(1,2) f(1)] own_row pos by simp
  have d: "row ?t (with_end (- ?t) rec) = None" using own_deleted [of "with_end (- ?t) rec" ?t] len f(1) pos assms(5) by simp
  obtain rc1 s1 where 1: "MvccTrx_insert_record fsub h tid (Inr rid2) new_rec s = Some (rc1, s1)"
    "effect s s1 (mv_current s) (upd_rec tid rid2 (new_version ?t tb new_rec) (recs (mv_tables s)))
      (with_ops h (fst (ops_insert (ins_op tid rid2) (tx_operations (mv_heap s h)))) (mv_heap s))"
    using insert_effect [OF f(4) assms(6)] by blast
  obtain s2 where 2: "MvccTrx_delete_record fsub h tid rid s = Some (SUCCESS, s2)"
    "effect s s2 (mv_current s) (upd_rec tid rid (with_end (- ?t) rec) (recs (mv_tables s)))
      (with_ops h (fst (ops_insert (del_op tid rid) (tx_operations (mv_heap s h)))) (mv_heap s))"
    using delete_effect [OF f(4) v(1,2)] assms(4) by auto
  obtain s3 where 3: "MvccTrx_update_record fsub h tid rid (Inr rid2) new_rec s = Some (SUCCESS, s3)"
    "effect s s3 (mv_current s) (upd_rec tid rid2 (new_version ?t tb new_rec) (upd_rec tid rid (with_end (- ?t) rec) (recs (mv_tables s))))
      (with_ops h (fst (ops_insert (ins_op tid rid2) (fst (ops_insert (del_op tid rid) (tx_operations (mv_heap s h)))))) (mv_heap s))"
    using update_effect [OF f(4) v, of new_rec fsub rid2] assms(6) unfolding at_table_def by blast
  have "visible_rows s1 h = (visible_rows s h)(tid := (visible_rows s h tid)(rid2 \<mapsto> v_rest new_rec))"
    "visible_rows s2 h = (visible_rows s h)(tid := (visible_rows s h tid)(rid := None))"
    "visible_rows s3 h = (visible_rows s h)(tid := (visible_rows s h tid)(rid := None, rid2 \<mapsto> v_rest new_rec))"
    using effect_visible [OF 1(2), of h] effect_visible [OF 2(2), of h] effect_visible [OF 3(2), of h] n d
    by (simp_all add: fun_eq_iff rows_upd visible_recs [OF assms(1)])
  then show ?thesis using 1(1) 2(1) 3(1) by blast
qed

theorem own_writes_witness:
  "\<exists>s3. MvccTrx_update_record (\<lambda>_ _. 0) 1 1 demo_rid (Inr demo_free) (replicate 19 7) (demo_mvcc demo_rows) = Some (SUCCESS, s3) \<and>
     visible_rows s3 1 1 demo_free = Some (replicate 11 7) \<and> visible_rows s3 1 1 demo_rid = None"
proof -
  let ?s = "demo_mvcc demo_rows"
  have tb: "mv_tables ?s 1 = Some (demo_table demo_rows)" "tb_records (demo_table demo_rows) demo_rid = Some (demo_version 1 max_trx_id)"
    "mvcc_table (demo_table demo_rows)" "tx_id (mv_heap ?s 1) = 4" "tb_records (demo_table demo_rows) demo_free = None"
    using demo_table_ok [of demo_rows] demo_rows_ok by (auto simp: demo_mvcc_def demo_table_def demo_rows_def demo_trx_def demo_rid_def demo_free_def)
  have "visited ?s 1 1 (demo_table demo_rows) demo_rid (demo_version 1 max_trx_id)"
    using tb by (simp add: visited_def visit_sees sees_def) (simp add: max_trx_id_def)
  moreover have "at_table ?s 1 (demo_table demo_rows) (replicate 19 7)" using tb(1) by (simp add: at_table_def demo_table_def demo_fields)
  ultimately show ?thesis using own_writes [OF demo_state(1) demo_state(2) [of 1] _ _ _ _ tb(5), of 1 demo_rid "demo_version 1 max_trx_id" "replicate 19 7" "\<lambda>_ _. 0"]
    by (auto simp: v_rest_def demo_rid_def demo_free_def)
qed

text \<open>C28: While one transaction has deleted or updated a record, an update of the record by another transaction is refused with a
  conflict and changes nothing, whatever the record file would do.\<close>

theorem write_conflict:
  assumes "mvcc_inv s" "active s h" "active s g" "h \<noteq> g" "ops_of OP_DELETE (tx_operations (mv_heap s g)) tid rid"
  shows "MvccTrx_update_record fsub h tid rid place new_rec s = Some (LOCKED_CONCURRENCY_CONFLICT, s)"
proof -
  note f = inv_facts [OF assms(1,2)] and g = inv_facts [OF assms(1,3)]
  have ok: "trx_ok (mv_current s) (recs (mv_tables s)) (mv_heap s g)" using inv0_facts(1) [OF g(5,2)] .
  have "op_ok (recs (mv_tables s)) (tx_id (mv_heap s g)) (del_op tid rid)" using ok assms(5) by (simp add: trx_ok_def ops_of_def)
  then obtain rec where rec: "recs (mv_tables s) tid rid = Some rec" "v_end rec = - tx_id (mv_heap s g)" "0 < v_begin rec" by (auto simp: op_ok_def)
  obtain tb where tb: "mv_tables s tid = Some tb" "tb_records tb rid = Some rec" using rec(1) by (rule recs_someE)
  have m: "mvcc_table tb" using f(4) tb(1) by (simp add: tables_ok_def)
  have "tx_id (mv_heap s g) \<noteq> tx_id (mv_heap s h)" "0 < tx_id (mv_heap s g)"
    using inv0_distinct_ids [OF f(5,2) g(2) _ f(3) g(3)] assms(4) inv0_facts(3) [OF g(5,2,3)] by auto
  then have "MvccTrx_visit_record (mv_heap s h) tb rec False = LOCKED_CONCURRENCY_CONFLICT" using m rec by (simp add: visit_sees sees_def)
  then show ?thesis using tb by (simp add: MvccTrx_update_record_def table_of_def Let_def)
qed

theorem write_conflict_witness:
  "\<exists>s1. MvccTrx_delete_record (\<lambda>_ _. 0) 1 1 demo_rid (demo_mvcc demo_rows) = Some (SUCCESS, s1) \<and>
     MvccTrx_update_record (\<lambda>_ _. 0) 0 1 demo_rid (Inr demo_free) [] s1 = Some (LOCKED_CONCURRENCY_CONFLICT, s1)"
proof -
  obtain s1 where s1: "MvccTrx_delete_record (\<lambda>_ _. 0) 1 1 demo_rid (demo_mvcc demo_rows) = Some (SUCCESS, s1)"
    "mvcc_inv s1" "mv_trxes s1 = [0, 1]" "mv_heap s1 0 = demo_trx 2" "tx_operations (mv_heap s1 1) = [del_op 1 demo_rid]"
    by (rule demo_delete)
  have "tx_started (mv_heap s1 1)" using s1(2,3,5) by (auto simp: mvcc_inv_def inv0_def trx_ok_def split: if_splits)
  then show ?thesis using write_conflict [OF s1(2), of 0 1 1 demo_rid "\<lambda>_ _. 0" "Inr demo_free" "[]"] s1(1,3-5)
    by (auto simp: active_def demo_trx_def ops_of_def)
qed
end
