(* ===== verification/MvccFlaws.thy ===== *)
theory MvccFlaws
  imports MvccProps
begin

text \<open>
  Situations in which the transactions of \<^verbatim>\<open>mvcc_trx.cpp\<close> do not keep what the comments of the code promise.
  Each is stated for every state that satisfies the invariant.
\<close>

lemma insert_inv:
  assumes "mvcc_inv s" "active s h" "at_table s tid tb rec" "tb_records tb rid = None" "MvccTrx_insert_record fsub h tid (Inr rid) rec s = Some (rc, s')"
  shows "mvcc_inv s'"
  using op_inv [OF mvcc_op.insert [OF assms(2,3) _ assms(5)] assms(1)] assms(4) by (simp add: free_place_def)

text \<open>C32: A record that a transaction inserts and deletes again stays: the transaction still sees it, and after its commit everybody
  does, because the set of operations takes the deletion for the insertion it already holds.\<close>

theorem self_deleted_survives:
  assumes "mvcc_inv s" "active s h" "at_table s tid tb rec" "tb_records tb rid = None" "mv_current s + 2 < max_trx_id"
  shows "\<exists>rc s1 s2. MvccTrx_insert_record fsub h tid (Inr rid) rec s = Some (rc, s1) \<and>
    MvccTrx_delete_record fsub h tid rid s1 = Some (SUCCESS, s2) \<and>
    visible_rows s2 h tid rid = Some (v_rest rec) \<and> committed (snd (MvccTrx_commit h s2)) tid rid = Some (v_rest rec)"
proof -
  note f = inv_facts [OF assms(1,2)] and t = at_table_facts [OF inv_facts(4) [OF assms(1,2)] assms(3)]
  let ?t = "tx_id (mv_heap s h)"
  let ?v = "new_version ?t tb rec"
  have pos: "0 < ?t" using inv0_facts(3) [OF f(5,2,3)] by simp
  note nv = new_version_simps [OF t(1,2) f(1)]
  have none: "recs (mv_tables s) tid rid = None" using assms(4) t(3) by (simp add: recs_def)
  have ops: "fst (ops_insert (ins_op tid rid) (tx_operations (mv_heap s h))) = tx_operations (mv_heap s h) @ [ins_op tid rid]"
    using ops_ok_stored [OF f(5,2) none] by (intro ops_insert_new) auto
  obtain rc s1 where 1: "MvccTrx_insert_record fsub h tid (Inr rid) rec s = Some (rc, s1)"
    and e1: "effect s s1 (mv_current s) (upd_rec tid rid ?v (recs (mv_tables s))) (with_ops h (tx_operations (mv_heap s h) @ [ins_op tid rid]) (mv_heap s))"
    using insert_effect [OF f(4) assms(3), of fsub h rid] ops by auto
  have inv1: "mvcc_inv s1" using insert_inv [OF assms(1-4) 1] .
  have h1: "tx_id (mv_heap s1 h) = ?t" "active s1 h" "tx_operations (mv_heap s1 h) = tx_operations (mv_heap s h) @ [ins_op tid rid]"
    using e1 f by (simp_all add: effect_def active_def)
  have r1: "recs (mv_tables s1) tid rid = Some ?v" using e1 by (simp add: effect_def upd_rec_apply)
  obtain tb1 where tb1: "mv_tables s1 tid = Some tb1" "tb_records tb1 rid = Some ?v" using r1 by (rule recs_someE)
  have same: "fst (ops_insert (del_op tid rid) (tx_operations (mv_heap s1 h))) = tx_operations (mv_heap s1 h)"
    unfolding h1(3) by (auto simp: ops_insert_def op_equal_def)
  have T1: "tables_ok (mv_tables s1)" using inv1 by (simp add: mvcc_inv_def)
  obtain s2 where 2: "MvccTrx_delete_record fsub h tid rid s1 = Some (SUCCESS, s2)"
    and e2: "effect s1 s2 (mv_current s1) (upd_rec tid rid (with_end (- ?t) ?v) (recs (mv_tables s1))) (mv_heap s1)"
    using delete_effect [OF T1 tb1, of fsub h] nv(2) h1(1) same by auto
  have "visited s1 h tid tb1 rid ?v"
    using tb1 T1 nv(1) h1(1) pos by (auto simp: visited_def visit_sees sees_def tables_ok_def)
  then have inv2: "mvcc_inv s2" using op_inv [OF mvcc_op.delete [OF h1(2) _ 2] inv1] by blast
  have r2: "recs (mv_tables s2) tid rid = Some (with_end (- ?t) ?v)" using e2 by (simp add: effect_def upd_rec_apply)
  have rest: "v_rest (with_end (- ?t) ?v) = v_rest rec" "v_begin (with_end (- ?t) ?v) = - ?t" using nv t(1,2) by simp_all
  have "visible_rows s2 h tid rid = Some (v_rest rec)"
    using e2 r2 rest own_row pos h1(1) by (simp add: visible_recs [OF inv2] effect_def)
  moreover have "committed (snd (MvccTrx_commit h s2)) tid rid = Some (v_rest rec)"
    using commit_committed [OF inv2, of h] e1 e2 assms(5) h1(3) r2 rest f(2) by (simp add: effect_def ops_of_def)
  ultimately show ?thesis using 1 2 by blast
qed

theorem self_deleted_survives_witness:
  "\<exists>rc s1 s2. MvccTrx_insert_record (\<lambda>_ _. 0) 1 1 (Inr demo_free) (replicate 19 7) (demo_mvcc demo_rows) = Some (rc, s1) \<and>
     MvccTrx_delete_record (\<lambda>_ _. 0) 1 1 demo_free s1 = Some (SUCCESS, s2) \<and> committed (snd (MvccTrx_commit 1 s2)) 1 demo_free = Some (replicate 11 7)"
proof -
  let ?s = "demo_mvcc demo_rows"
  have "at_table ?s 1 (demo_table demo_rows) (replicate 19 7)" by (simp add: at_table_def demo_mvcc_def demo_table_def demo_fields)
  moreover have "tb_records (demo_table demo_rows) demo_free = None" by (simp add: demo_table_def demo_rows_def demo_rid_def demo_free_def)
  moreover have "mv_current ?s + 2 < max_trx_id" by (simp add: demo_mvcc_def max_trx_id_def)
  ultimately show ?thesis using self_deleted_survives [OF demo_state(1) demo_state(2) [of 1], of 1 "demo_table demo_rows" "replicate 19 7" demo_free "\<lambda>_ _. 0"]
    by (auto simp: v_rest_def)
qed

text \<open>C33: A transaction can come to see a row that was inserted after it started: while another transaction deletes the row,
  \<open>visit_record\<close> lets everybody read it, however late it was inserted.\<close>

theorem phantom_read:
  assumes "mvcc_inv s" "active s h" "active s g" "h \<noteq> g" "visited s g tid tb rid rec" "v_end rec = max_trx_id" "tx_id (mv_heap s h) < v_begin rec"
  shows "visible_rows s h tid rid = None \<and>
    (\<exists>s'. MvccTrx_delete_record fsub g tid rid s = Some (SUCCESS, s') \<and> visible_rows s' h tid rid = Some (v_rest rec))"
proof -
  note f = inv_facts [OF assms(1,2)] and g = inv_facts [OF assms(1,3)]
  have v: "mv_tables s tid = Some tb" "tb_records tb rid = Some rec" using assms(5) by (simp_all add: visited_def)
  let ?t = "tx_id (mv_heap s h)" and ?g = "tx_id (mv_heap s g)"
  have pos: "0 < ?t" "0 < ?g" using inv0_facts(3) [OF f(5,2,3)] inv0_facts(3) [OF g(5,2,3)] by simp_all
  have ne: "?g \<noteq> ?t" using inv0_distinct_ids [OF f(5,2) g(2) _ f(3) g(3)] assms(4) by simp
  have r: "recs (mv_tables s) tid rid = Some rec" using v by (simp add: recs_def)
  have len: "8 \<le> length rec" using inv0_facts(2) [OF f(5,2) r] by (simp add: version_ok_def)
  obtain s' where s': "MvccTrx_delete_record fsub g tid rid s = Some (SUCCESS, s')"
    "effect s s' (mv_current s) (upd_rec tid rid (with_end (- ?g) rec) (recs (mv_tables s)))
      (with_ops g (fst (ops_insert (del_op tid rid) (tx_operations (mv_heap s g)))) (mv_heap s))"
    using delete_effect [OF f(4) v, of fsub g] assms(6) by auto
  have "visible_rows s' h tid rid = row ?t (with_end (- ?g) rec)"
    using effect_visible [OF s'(2), of h] assms(4) by (simp add: with_ops_def upd_rec_apply)
  moreover have "row ?t (with_end (- ?g) rec) = Some (v_rest rec)"
    using len g(1) pos ne assms(7) by (simp add: row_def sees_def)
  moreover have "visible_rows s h tid rid = None"
    using r assms(6,7) pos by (simp add: visible_recs [OF assms(1)] row_def sees_def max_trx_id_def)
  ultimately show ?thesis using s'(1) by simp
qed

definition late_rows :: "RID \<rightharpoonup> byte list" where
  "late_rows = [demo_rid \<mapsto> demo_version 3 max_trx_id, demo_free \<mapsto> demo_version 1 3]"

lemma late_rows_ok: "\<forall>rid rec. late_rows rid = Some rec \<longrightarrow> length rec = 19 \<and> version_ok 5 rec \<and> 0 < v_begin rec"
  by (auto simp: late_rows_def version_ok_def split: if_splits)

lemmas late_state = demo_inv [OF late_rows_ok]

lemma late_visits:
  "visited (demo_mvcc late_rows) 1 1 (demo_table late_rows) demo_rid (demo_version 3 max_trx_id)"
  "visited (demo_mvcc late_rows) 0 1 (demo_table late_rows) demo_free (demo_version 1 3)"
proof -
  have "mvcc_table (demo_table late_rows)" using demo_table_ok [of late_rows] late_rows_ok by blast
  then show "visited (demo_mvcc late_rows) 1 1 (demo_table late_rows) demo_rid (demo_version 3 max_trx_id)"
    "visited (demo_mvcc late_rows) 0 1 (demo_table late_rows) demo_free (demo_version 1 3)"
    by (simp_all add: visited_def visit_sees sees_def)
      (simp_all add: demo_mvcc_def demo_trx_def demo_table_def late_rows_def demo_rid_def demo_free_def max_trx_id_def)
qed

theorem phantom_read_witness:
  "visible_rows (demo_mvcc late_rows) 0 1 demo_rid = None \<and>
    (\<exists>s'. MvccTrx_delete_record (\<lambda>_ _. 0) 1 1 demo_rid (demo_mvcc late_rows) = Some (SUCCESS, s') \<and> visible_rows s' 0 1 demo_rid \<noteq> None)"
proof -
  have "tx_id (mv_heap (demo_mvcc late_rows) 0) < v_begin (demo_version 3 max_trx_id)" by (simp add: demo_mvcc_def demo_trx_def)
  from phantom_read [OF late_state(1) late_state(2) [of 0] late_state(2) [of 1] _ late_visits(1) _ this, of "\<lambda>_ _. 0"] show ?thesis by auto
qed

text \<open>C22: \<open>update_record\<close> does not test that it has the newest version. A transaction that updates a row whose deletion was committed
  after it started succeeds, and when it rolls back the deleted row is in the committed database again.\<close>

theorem stale_update_resurrects:
  assumes "mvcc_inv s" "active s h" "visited s h tid tb rid rec" "0 < v_end rec" "v_end rec < max_trx_id" "0 < v_begin rec"
    "at_table s tid tb new_rec" "tb_records tb rid2 = None" "mv_current s + 1 < max_trx_id"
  shows "committed s tid rid = None \<and>
    (\<exists>s1 rc s2. MvccTrx_update_record fsub h tid rid (Inr rid2) new_rec s = Some (SUCCESS, s1) \<and>
       MvccTrx_rollback fsub h s1 = Some (rc, s2) \<and> committed s2 tid rid = Some (v_rest rec))"
proof -
  note f = inv_facts [OF assms(1,2)] and t = at_table_facts [OF inv_facts(4) [OF assms(1,2)] assms(7)]
  have v: "mv_tables s tid = Some tb" "tb_records tb rid = Some rec" "MvccTrx_visit_record (mv_heap s h) tb rec False = SUCCESS"
    using assms(3) by (simp_all add: visited_def)
  have r: "recs (mv_tables s) tid rid = Some rec" "recs (mv_tables s) tid rid2 = None" using v assms(8) by (simp_all add: recs_def)
  have ne: "rid2 \<noteq> rid" using v(2) assms(8) by auto
  let ?t = "tx_id (mv_heap s h)" and ?ops = "fst (ops_insert (del_op tid rid) (tx_operations (mv_heap s h)))"
  let ?R = "upd_rec tid rid (with_end (- ?t) rec) (recs (mv_tables s))" and ?H = "with_ops h ?ops (mv_heap s)"
  have i1: "inv0 (mv_current s) ?R (mv_trxes s) ?H"
    unfolding with_ops_def by (rule inv0_take [OF f(5,2,3) r(1)]) (simp_all add: assms(4,6))
  have noop: "\<forall>x \<in> set (tx_operations (mv_heap s h)). (op_table x, op_rid x) \<noteq> (tid, rid)"
  proof
    fix x assume x: "x \<in> set (tx_operations (mv_heap s h))"
    have "op_ok (recs (mv_tables s)) ?t x" using inv0_facts(1) [OF f(5,2)] x by (simp add: trx_ok_def)
    then show "(op_table x, op_rid x) \<noteq> (tid, rid)" using r(1) assms(4,6) inv0_facts(3) [OF f(5,2,3)] by (auto simp: op_ok_def)
  qed
  then have ops: "?ops = tx_operations (mv_heap s h) @ [del_op tid rid]" by (intro ops_insert_new) auto
  obtain s1 where 1: "MvccTrx_update_record fsub h tid rid (Inr rid2) new_rec s = Some (SUCCESS, s1)"
    "effect s s1 (mv_current s) (upd_rec tid rid2 (new_version ?t tb new_rec) ?R) (with_ops h (fst (ops_insert (ins_op tid rid2) ?ops)) (mv_heap s))"
    using update_effect [OF f(4) v, of new_rec fsub rid2] assms(7) unfolding at_table_def by blast
  have none: "?R tid rid2 = None" using r(2) ne by (simp add: upd_rec_apply)
  have ops1: "fst (ops_insert (ins_op tid rid2) ?ops) = ?ops @ [ins_op tid rid2]"
    using ops_ok_stored [OF i1 f(2) none] by (intro ops_insert_new) auto
  have "inv0 (mv_current s) (upd_rec tid rid2 (new_version ?t tb new_rec) ?R) (mv_trxes s) (with_ops h (?ops @ [ins_op tid rid2]) (mv_heap s))"
    using inv0_new [OF i1 f(2) _ none, of "new_version ?t tb new_rec"] f(3) new_version_simps [OF t(1,2) f(1)] t(1,2)
    by (simp add: with_ops_def)
  then have inv1: "mvcc_inv s1" using effect_inv [OF 1(2)] ops1 by simp
  have r1: "recs (mv_tables s1) tid rid = Some (with_end (- ?t) rec)" using 1(2) ne by (simp add: effect_def upd_rec_apply)
  have h1: "h \<in> set (mv_trxes s1)" "tx_operations (mv_heap s1 h) = tx_operations (mv_heap s h) @ [del_op tid rid, ins_op tid rid2]"
    using 1(2) f(2) ops1 ops by (simp_all add: effect_def)
  obtain rc s2 where 2: "MvccTrx_rollback fsub h s1 = Some (rc, s2)"
    "effect s1 s2 (mv_current s1) (\<lambda>tid rid. undo_version (tx_operations (mv_heap s1 h)) tid rid (recs (mv_tables s1) tid rid))
      ((mv_heap s1)(h := (mv_heap s1 h)\<lparr>tx_started := False, tx_operations := []\<rparr>))"
    using rollback_effect [OF inv1 h1(1)] by blast
  have inv2: "mvcc_inv s2" using op_inv [OF mvcc_op.rollback [OF h1(1) 2(1)] inv1] .
  have nins: "\<not> ops_of OP_INSERT (tx_operations (mv_heap s1 h)) tid rid" "ops_of OP_DELETE (tx_operations (mv_heap s1 h)) tid rid"
    using noop ne unfolding h1(2) ops_of_def by auto
  have "recs (mv_tables s2) tid rid = Some (with_end max_trx_id (with_end (- ?t) rec))"
    using 2(2) r1 nins by (simp add: effect_def undo_version_def)
  moreover have "mv_current s2 = mv_current s" using 1(2) 2(2) by (simp add: effect_def)
  moreover have "8 \<le> length rec" using inv0_facts(2) [OF f(5,2) r(1)] by (simp add: version_ok_def)
  ultimately have "committed s2 tid rid = Some (v_rest rec)"
    using assms(6,9) by (simp add: committed_coms [OF inv2] coms_def com_row_def)
  moreover have "committed s tid rid = None" using r(1) assms(4,5,9) by (simp add: committed_coms [OF assms(1)] coms_def com_row_def)
  ultimately show ?thesis using 1(1) 2(1) by blast
qed

definition demo_third :: RID where "demo_third = \<lparr>rid_page = 1, rid_slot = 2\<rparr>"

theorem stale_update_resurrects_witness:
  "committed (demo_mvcc late_rows) 1 demo_free = None \<and>
    (\<exists>s1 rc s2. MvccTrx_update_record (\<lambda>_ _. 0) 0 1 demo_free (Inr demo_third) (replicate 19 7) (demo_mvcc late_rows) = Some (SUCCESS, s1) \<and>
       MvccTrx_rollback (\<lambda>_ _. 0) 0 s1 = Some (rc, s2) \<and> committed s2 1 demo_free \<noteq> None)"
proof -
  let ?s = "demo_mvcc late_rows"
  have "at_table ?s 1 (demo_table late_rows) (replicate 19 7)" by (simp add: at_table_def demo_mvcc_def demo_table_def demo_fields)
  moreover have "tb_records (demo_table late_rows) demo_third = None" by (simp add: demo_table_def late_rows_def demo_rid_def demo_free_def demo_third_def)
  moreover have "mv_current ?s + 1 < max_trx_id" "3 < max_trx_id" by (simp_all add: demo_mvcc_def max_trx_id_def)
  ultimately show ?thesis
    using stale_update_resurrects [OF late_state(1) late_state(2) [of 0] late_visits(2), of "replicate 19 7" demo_third "\<lambda>_ _. 0"] by auto
qed

text \<open>An update that fails because the record file has no room leaves its mark on the old record and no operation to remove it.
  After the transaction has ended, every other transaction that wants to write the record is told of a conflict for ever.\<close>

lemma failed_update_locks:
  assumes "mvcc_inv s" "active s h" "visited s h tid tb rid rec" "v_end rec = max_trx_id" "0 < v_begin rec" "err \<noteq> SUCCESS"
  shows "\<exists>s1 rc s2 tb2 rec2. MvccTrx_update_record fsub h tid rid (Inl err) new_rec s = Some (err, s1) \<and>
    MvccTrx_rollback fsub h s1 = Some (rc, s2) \<and> mv_tables s2 tid = Some tb2 \<and> tb_records tb2 rid = Some rec2 \<and>
    (\<forall>tx. tx_id tx \<noteq> tx_id (mv_heap s h) \<longrightarrow> MvccTrx_visit_record tx tb2 rec2 False = LOCKED_CONCURRENCY_CONFLICT)"
proof -
  note f = inv_facts [OF assms(1,2)]
  have v: "mv_tables s tid = Some tb" "tb_records tb rid = Some rec" "MvccTrx_visit_record (mv_heap s h) tb rec False = SUCCESS"
    using assms(3) by (simp_all add: visited_def)
  have r: "recs (mv_tables s) tid rid = Some rec" using v by (simp add: recs_def)
  let ?t = "tx_id (mv_heap s h)"
  have pos: "0 < ?t" using inv0_facts(3) [OF f(5,2,3)] by simp
  obtain s1 where 1: "MvccTrx_update_record fsub h tid rid (Inl err) new_rec s = Some (err, s1)"
    "effect s s1 (mv_current s) (upd_rec tid rid (with_end (- ?t) rec) (recs (mv_tables s))) (mv_heap s)"
    using update_refused [OF f(4) v(1,2) assms(6) v(3)] by blast
  have "inv0 (mv_current s) (upd_rec tid rid (with_end (- ?t) rec) (recs (mv_tables s))) (mv_trxes s) (with_ops h (tx_operations (mv_heap s h)) (mv_heap s))"
    unfolding with_ops_def by (rule inv0_take [OF f(5,2,3) r]) (simp_all add: assms(4,5) max_trx_id_def)
  then have inv1: "mvcc_inv s1" using effect_inv [OF 1(2)] by simp
  have h1: "h \<in> set (mv_trxes s1)" "mv_heap s1 = mv_heap s" using 1(2) f(2) by (simp_all add: effect_def)
  obtain rc s2 where 2: "MvccTrx_rollback fsub h s1 = Some (rc, s2)"
    "effect s1 s2 (mv_current s1) (\<lambda>tid rid. undo_version (tx_operations (mv_heap s1 h)) tid rid (recs (mv_tables s1) tid rid))
      ((mv_heap s1)(h := (mv_heap s1 h)\<lparr>tx_started := False, tx_operations := []\<rparr>))"
    using rollback_effect [OF inv1 h1(1)] by blast
  have "\<not> ops_of k (tx_operations (mv_heap s h)) tid rid" for k
    using op_version [OF inv0_facts(1) [OF f(5,2)] _ r, of k] assms(4,5) pos by (auto simp: max_trx_id_def)
  then have "recs (mv_tables s2) tid rid = Some (with_end (- ?t) rec)"
    using 1(2) 2(2) h1(2) by (simp add: effect_def undo_version_def upd_rec_apply)
  then obtain tb2 where tb2: "mv_tables s2 tid = Some tb2" "tb_records tb2 rid = Some (with_end (- ?t) rec)" by (rule recs_someE)
  have "mvcc_table tb2" using 2(2) tb2(1) by (simp add: effect_def tables_ok_def)
  moreover have "8 \<le> length rec" using inv0_facts(2) [OF f(5,2) r] by (simp add: version_ok_def)
  ultimately have "tx_id tx \<noteq> ?t \<longrightarrow> MvccTrx_visit_record tx tb2 (with_end (- ?t) rec) False = LOCKED_CONCURRENCY_CONFLICT" for tx
    using assms(5) pos f(1) by (auto simp: visit_sees sees_def)
  then show ?thesis using 1(1) 2(1) tb2 by blast
qed

lemma failed_update_locks_witness:
  "\<exists>s1 rc s2 tb2 rec2. MvccTrx_update_record (\<lambda>_ _. 0) 1 1 demo_rid (Inl RECORD_NOMEM) [] (demo_mvcc late_rows) = Some (RECORD_NOMEM, s1) \<and>
    MvccTrx_rollback (\<lambda>_ _. 0) 1 s1 = Some (rc, s2) \<and> mv_tables s2 1 = Some tb2 \<and> tb_records tb2 demo_rid = Some rec2 \<and>
    MvccTrx_visit_record (demo_trx 6) tb2 rec2 False = LOCKED_CONCURRENCY_CONFLICT"
proof -
  have ne: "tx_id (demo_trx 6) \<noteq> tx_id (mv_heap (demo_mvcc late_rows) 1)" by (simp add: demo_mvcc_def demo_trx_def)
  have "v_end (demo_version 3 max_trx_id) = max_trx_id" "0 < v_begin (demo_version 3 max_trx_id)" by simp_all
  from failed_update_locks [OF late_state(1) late_state(2) [of 1] late_visits(1) this, of RECORD_NOMEM "\<lambda>_ _. 0" "[]"] ne
  show ?thesis by (simp (no_asm_use)) blast
qed

end
