(* ===== verification/Recovery.thy ===== *)
theory Recovery
  imports MvccIsolation
begin

text \<open>
  Recovery from the commit log. An execution of transactions writes a log; when the process stops, the log file holds
  what the last commit flushed, and the data files hold some older or newer state of the records. \<open>recover\<close> redoes the log
  on these tables and rolls back what did not finish. It is shown that this gives exactly the records of the execution at
  its last flush, without the changes of the transactions that had not committed then.

  Executions leave out what makes the log incomplete: an update that the record file refuses (it changes the old record
  and logs nothing), a full log buffer, the end of a transaction that never started, and transaction objects that are
  destroyed while they run.
\<close>

section \<open>Executions and their logs\<close>

definition room :: "Mvcc \<Rightarrow> int \<Rightarrow> bool" where
  "room s n \<longleftrightarrow> lm_total_size (mv_log s) + n < CLOG_BUFFER_SIZE"

definition log_ids :: "int \<Rightarrow> RID \<Rightarrow> bool" where
  "log_ids tid rid \<longleftrightarrow> i32_range tid \<and> i32_range (int (rid_page rid)) \<and> i32_range (int (rid_slot rid))"

definition del_log :: "int \<Rightarrow> int \<Rightarrow> RID \<Rightarrow> CLogRecord" where
  "del_log t tid rid = build_data_record DELETE t tid rid 0 0 []"

definition ins_log :: "int \<Rightarrow> int \<Rightarrow> RID \<Rightarrow> byte list \<Rightarrow> CLogRecord" where
  "ins_log t tid rid v = build_data_record INSERT t tid rid (length v) 0 v"

text \<open>An identifier that the record file may give to a new record: not in use, and a slot of the table's pages.\<close>

definition new_place :: "Table \<Rightarrow> RID \<Rightarrow> bool" where
  "new_place tb rid \<longleftrightarrow> tb_records tb rid = None \<and> rid_slot rid < record_slots (tb_meta tb)"

inductive execution :: "float_sub \<Rightarrow> Mvcc \<Rightarrow> CLogRecord list \<Rightarrow> Mvcc \<Rightarrow> bool" for fsub s0 where
  ex_nil: "execution fsub s0 [] s0"
| ex_create: "execution fsub s0 L s \<Longrightarrow> h \<notin> set (mv_trxes s) \<Longrightarrow> execution fsub s0 L (create_trx h s)"
| ex_destroy: "execution fsub s0 L s \<Longrightarrow> \<not> tx_started (mv_heap s h) \<Longrightarrow> execution fsub s0 L (destroy_trx h s)"
| ex_start: "execution fsub s0 L s \<Longrightarrow> h \<in> set (mv_trxes s) \<Longrightarrow> \<not> tx_started (mv_heap s h) \<Longrightarrow> mv_current s + 1 < max_trx_id \<Longrightarrow>
    room s 0 \<Longrightarrow> execution fsub s0 (L @ [build_mtr_record MTR_BEGIN (mv_current s + 1)]) (snd (start_if_need h s))"
| ex_insert: "execution fsub s0 L s \<Longrightarrow> active s h \<Longrightarrow> at_table s tid tb rec \<Longrightarrow> new_place tb rid \<Longrightarrow> log_ids tid rid \<Longrightarrow>
    room s (24 + int (length rec)) \<Longrightarrow> MvccTrx_insert_record fsub h tid (Inr rid) rec s = Some (rc, s') \<Longrightarrow>
    execution fsub s0 (L @ [ins_log (tx_id (mv_heap s h)) tid rid (new_version (tx_id (mv_heap s h)) tb rec)]) s'"
| ex_delete: "execution fsub s0 L s \<Longrightarrow> active s h \<Longrightarrow> visited s h tid tb rid rec \<Longrightarrow> v_end rec = max_trx_id \<Longrightarrow>
    room s 24 \<Longrightarrow> MvccTrx_delete_record fsub h tid rid s = Some (rc, s') \<Longrightarrow>
    execution fsub s0 (L @ [del_log (tx_id (mv_heap s h)) tid rid]) s'"
| ex_update: "execution fsub s0 L s \<Longrightarrow> active s h \<Longrightarrow> visited s h tid tb rid rec \<Longrightarrow>
    at_table s tid tb new_rec \<Longrightarrow> new_place tb rid2 \<Longrightarrow> log_ids tid rid2 \<Longrightarrow>
    room s (48 + int (length new_rec)) \<Longrightarrow> MvccTrx_update_record fsub h tid rid (Inr rid2) new_rec s = Some (rc, s') \<Longrightarrow>
    execution fsub s0 (L @ [del_log (tx_id (mv_heap s h)) tid rid,
      ins_log (tx_id (mv_heap s h)) tid rid2 (new_version (tx_id (mv_heap s h)) tb new_rec)]) s'"
| ex_commit: "execution fsub s0 L s \<Longrightarrow> active s h \<Longrightarrow> mv_current s + 1 < max_trx_id \<Longrightarrow> room s 4 \<Longrightarrow>
    execution fsub s0 (L @ [build_commit_record (tx_id (mv_heap s h)) (mv_current s + 1)]) (snd (MvccTrx_commit h s))"
| ex_rollback: "execution fsub s0 L s \<Longrightarrow> active s h \<Longrightarrow> room s 0 \<Longrightarrow> MvccTrx_rollback fsub h s = Some (rc, s') \<Longrightarrow>
    execution fsub s0 (L @ [build_mtr_record MTR_ROLLBACK (tx_id (mv_heap s h))]) s'"

text \<open>The records that an execution has inserted at some time.\<close>

definition touched :: "CLogRecord list \<Rightarrow> (int \<times> RID) set" where
  "touched L = set (map (\<lambda>r. (ld_table_id (lr_data r), log_rid r)) (filter (\<lambda>r. log_type r = Some INSERT) L))"

lemma log_kinds [simp]:
  "log_type (build_mtr_record k t) = Some k" "log_trx_id (build_mtr_record k t) = t"
  "log_type (build_commit_record t c) = Some MTR_COMMIT" "log_trx_id (build_commit_record t c) = t" "lr_commit_xid (build_commit_record t c) = c"
  "log_type (del_log t tid rid) = Some DELETE" "log_trx_id (del_log t tid rid) = t" "ld_table_id (lr_data (del_log t tid rid)) = tid"
  "log_rid (del_log t tid rid) = rid"
  "log_type (ins_log t tid rid v) = Some INSERT" "log_trx_id (ins_log t tid rid v) = t" "ld_table_id (lr_data (ins_log t tid rid v)) = tid"
  "log_rid (ins_log t tid rid v) = rid" "log_bytes (ins_log t tid rid v) = v"
  "logrec_len (build_mtr_record k t) = 0" "logrec_len (build_commit_record t c) = 4" "logrec_len (del_log t tid rid) = 24"
  "logrec_len (ins_log t tid rid v) = 24 + int (length v)"
  by (simp_all add: log_type_def log_trx_id_def build_mtr_record_def build_commit_record_def del_log_def ins_log_def build_data_record_def
      log_rid_def log_bytes_def logrec_len_def new_log_record_def HEADER_SIZE_def del: clog_type_to_integer.simps)

lemma touched_append: "touched (L @ L') = touched L \<union> touched L'"
  by (simp add: touched_def)

lemma touched_simps [simp]: "touched [] = {}" "touched [build_mtr_record MTR_BEGIN t] = {}" "touched [build_mtr_record MTR_ROLLBACK t] = {}"
  "touched [build_commit_record t c] = {}" "touched [del_log t tid rid] = {}" "touched [ins_log t tid rid v] = {(tid, rid)}"
  "touched [del_log t tid rid, ins_log t' tid' rid' v] = {(tid', rid')}"
  by (simp_all add: touched_def)


section \<open>What the log holds\<close>

definition log_holds :: "CLogManager \<Rightarrow> CLogRecord list \<Rightarrow> bool" where
  "log_holds lm L \<longleftrightarrow> (\<exists>W. lf_bytes (lm_file lm) = concat (map write_log_record W) \<and> W @ lm_records lm = L) \<and>
     lm_total_size lm = sum_list (map logrec_len (lm_records lm)) \<and> (\<forall>r \<in> set L. log_wf r)"

lemma logrec_sum: "\<forall>r \<in> set L. log_wf r \<Longrightarrow> 0 \<le> sum_list (map logrec_len L)"
proof -
  assume "\<forall>r \<in> set L. log_wf r"
  moreover have "0 \<le> logrec_len r" if "log_wf r" for r
    using that by (auto simp: log_wf_def mtr_wf_def commit_wf_def data_wf_def logrec_len_def build_mtr_record_def build_commit_record_def
        build_data_record_def new_log_record_def)
  ultimately show ?thesis by (intro sum_list_nonneg) auto
qed

lemma append_holds:
  assumes "log_holds lm L" "log_wf r" "lm_total_size lm + logrec_len r < CLOG_BUFFER_SIZE"
  shows "log_holds (snd (append_log_record r lm)) (L @ [r])" "fst (append_log_record r lm) = SUCCESS"
    "lm_total_size (snd (append_log_record r lm)) = lm_total_size lm + logrec_len r"
  using assms by (auto simp: log_holds_def append_log_record_def)

lemma sync_holds:
  assumes "log_holds lm L"
  shows "log_holds (snd (CLogManager_sync lm)) L" "lm_records (snd (CLogManager_sync lm)) = []"
  using assms by (auto simp: log_holds_def CLogManager_sync_def flush_records_bytes)

lemma commit_holds:
  assumes "log_holds lm L" "i32_range t" "i32_range c" "lm_total_size lm + 4 < CLOG_BUFFER_SIZE"
  shows "log_holds (snd (commit_trx t c lm)) (L @ [build_commit_record t c])" "lm_records (snd (commit_trx t c lm)) = []"
proof -
  have "log_wf (build_commit_record t c)" using assms(2,3) by (auto simp: log_wf_def commit_wf_def)
  from append_holds [OF assms(1) this] assms(4)
  have a: "log_holds (snd (append_log_record (build_commit_record t c) lm)) (L @ [build_commit_record t c])"
    "fst (append_log_record (build_commit_record t c) lm) = SUCCESS" by simp_all
  have e: "snd (commit_trx t c lm) = snd (CLogManager_sync (snd (append_log_record (build_commit_record t c) lm)))"
    using a(2) by (cases "append_log_record (build_commit_record t c) lm") (simp add: commit_trx_def)
  show "log_holds (snd (commit_trx t c lm)) (L @ [build_commit_record t c])" "lm_records (snd (commit_trx t c lm)) = []"
    unfolding e by (rule sync_holds [OF a(1)])+
qed

lemma mtr_wfI: "k \<in> {MTR_BEGIN, MTR_ROLLBACK} \<Longrightarrow> i32_range t \<Longrightarrow> log_wf (build_mtr_record k t)"
  by (auto simp: log_wf_def mtr_wf_def)

lemma ins_wfI:
  assumes "i32_range t" "log_ids tid rid" "24 + int (length v) < CLOG_BUFFER_SIZE"
  shows "log_wf (ins_log t tid rid v)"
proof -
  have "i32_range (int (HEADER_SIZE + length v))" using assms(3) by (simp add: i32_range_def HEADER_SIZE_def CLOG_BUFFER_SIZE_def)
  then have "data_wf (ins_log t tid rid v)" using assms(1,2) unfolding data_wf_def ins_log_def log_ids_def by blast
  then show ?thesis by (simp add: log_wf_def)
qed

lemma del_wfI:
  assumes "i32_range t" "log_ids tid rid"
  shows "log_wf (del_log t tid rid)"
proof -
  have "i32_range (int (HEADER_SIZE + 0))" by (simp add: i32_range_def HEADER_SIZE_def)
  moreover have "0 \<le> length ([] :: byte list)" by simp
  ultimately have "data_wf (del_log t tid rid)" using assms unfolding data_wf_def del_log_def log_ids_def by blast
  then show ?thesis by (simp add: log_wf_def)
qed

text \<open>The log records that the operations append.\<close>

lemma mv_log_parts [simp]:
  "mv_log (put_table tid tb s) = mv_log s" "mv_log (trx_update h f s) = mv_log s" "mv_log (snd (add_operation h x s)) = mv_log s"
  "mv_log (snd (log_data k t tid rid n dat s)) = snd (append_log_record (build_data_record k t tid rid n 0 dat) (mv_log s))"
  by (simp_all add: put_table_def trx_update_def add_operation_def log_data_def append_log_def split: prod.splits)

lemma insert_logs:
  assumes "mvcc_table tb" "mv_tables s tid = Some tb" "MvccTrx_insert_record fsub h tid (Inr rid) rec s = Some (rc, s')"
  shows "mv_log s' = snd (append_log_record (ins_log (tx_id (mv_heap s h)) tid rid (new_version (tx_id (mv_heap s h)) tb rec)) (mv_log s))"
proof -
  let ?v = "new_version (tx_id (mv_heap s h)) tb rec"
  define l where "l = log_data INSERT (tx_id (mv_heap s h)) tid rid (length ?v) ?v (put_table tid (put_record rid ?v tb) s)"
  have "s' = snd (add_operation h (ins_op tid rid) (snd l))"
    using assms plain_table(3) [of tb fsub trx_kit_fields rid]
    by (simp add: MvccTrx_insert_record_def table_of_def Let_def l_def split: prod.splits)
  then show ?thesis by (simp add: l_def ins_log_def)
qed

lemma delete_logs:
  assumes "mvcc_table tb" "mv_tables s tid = Some tb" "tb_records tb rid = Some rec" "v_end rec = max_trx_id"
    "MvccTrx_delete_record fsub h tid rid s = Some (rc, s')"
  shows "mv_log s' = snd (append_log_record (del_log (tx_id (mv_heap s h)) tid rid) (mv_log s))"
proof -
  let ?v = "with_end (- tx_id (mv_heap s h)) rec"
  define l where "l = log_data DELETE (tx_id (mv_heap s h)) tid rid 0 [] (put_table tid (put_record rid ?v tb) s)"
  have "s' = snd (add_operation h (del_op tid rid) (snd l))"
    using assms plain_table(2) [of "put_record rid ?v tb" fsub trx_kit_fields False rid ?v]
    by (simp add: MvccTrx_delete_record_def table_of_def Let_def l_def split: prod.splits)
  then show ?thesis by (simp add: l_def del_log_def)
qed

lemma update_logs:
  assumes "mvcc_table tb" "mv_tables s tid = Some tb" "tb_records tb rid = Some rec"
    "MvccTrx_visit_record (mv_heap s h) tb rec False = SUCCESS" "MvccTrx_update_record fsub h tid rid (Inr rid2) new_rec s = Some (rc, s')"
  shows "mv_log s' = snd (append_log_record (ins_log (tx_id (mv_heap s h)) tid rid2 (new_version (tx_id (mv_heap s h)) tb new_rec))
    (snd (append_log_record (del_log (tx_id (mv_heap s h)) tid rid) (mv_log s))))"
proof -
  let ?t = "tx_id (mv_heap s h)"
  let ?tb1 = "put_record rid (with_end (- ?t) rec) tb" and ?n = "new_version ?t tb new_rec"
  have n: "new_version ?t ?tb1 new_rec = ?n" by (simp add: new_version_def begin_field_def end_field_def)
  define l1 where "l1 = log_data DELETE ?t tid rid 0 [] (put_table tid (put_record rid2 ?n ?tb1) s)"
  define l2 where "l2 = log_data INSERT ?t tid rid2 (length ?n) ?n (snd l1)"
  have "s' = snd (add_operation h (ins_op tid rid2) (snd (add_operation h (del_op tid rid) (snd l2))))"
    using assms n plain_table(2) [of ?tb1 fsub trx_kit_fields False rid "with_end (- ?t) rec"] plain_table(3) [of ?tb1 fsub trx_kit_fields rid2]
    by (simp add: MvccTrx_update_record_def table_of_def Let_def l1_def l2_def split: prod.splits)
  then show ?thesis by (simp add: l1_def l2_def del_log_def ins_log_def)
qed

lemma rollback_logs:
  assumes "\<not> tx_recovering (mv_heap s h)" "MvccTrx_rollback fsub h s = Some (rc, s')"
  shows "mv_log s' = snd (append_log_record (build_mtr_record MTR_ROLLBACK (tx_id (mv_heap s h))) (mv_log s))"
  using assms by (auto simp: MvccTrx_rollback_def Let_def rollback_trx_def split: option.splits prod.splits)

lemma start_logs:
  assumes "mvcc_inv s" "mv_current s + 1 < max_trx_id" "\<not> tx_started (mv_heap s h)"
  shows "mv_log (snd (start_if_need h s)) = snd (append_log_record (build_mtr_record MTR_BEGIN (mv_current s + 1)) (mv_log s))"
proof -
  have "wrap_i32 (mv_current s + 1) = mv_current s + 1"
    using assms(1,2) by (intro wrap_i32_id) (simp add: i32_range_def max_trx_id_def mvcc_inv_def inv0_def)
  then show ?thesis using assms(3) by (simp add: start_if_need_def next_trx_id_def Let_def begin_trx_def split: prod.splits)
qed

lemma commit_logs:
  assumes "mvcc_inv s" "h \<in> set (mv_trxes s)" "mv_current s + 1 < max_trx_id" "\<not> tx_recovering (mv_heap s h)"
  shows "mv_log (snd (MvccTrx_commit h s)) = snd (commit_trx (tx_id (mv_heap s h)) (mv_current s + 1) (mv_log s))"
proof -
  have cur: "0 \<le> mv_current s" and ok: "trx_ok (mv_current s) (recs (mv_tables s)) (mv_heap s h)" and T: "tables_ok (mv_tables s)"
    using assms(1,2) by (simp_all add: mvcc_inv_def inv0_def)
  have w: "wrap_i32 (mv_current s + 1) = mv_current s + 1" using cur assms(3) by (intro wrap_i32_id) (simp add: i32_range_def max_trx_id_def)
  show ?thesis using commit_effect0 [of "s\<lparr>mv_current := mv_current s + 1\<rparr>" h "mv_current s + 1"] T trx_ok_stored [OF ok] assms(4)
    by (simp add: MvccTrx_commit_def next_trx_id_def w Let_def)
qed

definition run_ok :: "CLogRecord list \<Rightarrow> Mvcc \<Rightarrow> bool" where
  "run_ok L s \<longleftrightarrow> mvcc_inv s \<and> log_holds (mv_log s) L \<and>
     (\<forall>tid rid rec. recs (mv_tables s) tid rid = Some rec \<longrightarrow> (tid, rid) \<in> touched L \<and> log_ids tid rid) \<and>
     (\<forall>h \<in> set (mv_trxes s). \<not> tx_recovering (mv_heap s h))"

text \<open>A state before any transaction, with empty tables and an empty log.\<close>

definition initial :: "Mvcc \<Rightarrow> bool" where
  "initial s \<longleftrightarrow> tables_ok (mv_tables s) \<and> recs (mv_tables s) = (\<lambda>tid rid. None) \<and> mv_current s = 0 \<and> mv_trxes s = [] \<and>
     lm_records (mv_log s) = [] \<and> lm_total_size (mv_log s) = 0 \<and> lf_bytes (lm_file (mv_log s)) = []"

lemma initial_ok: "initial s \<Longrightarrow> run_ok [] s"
  by (simp add: initial_def run_ok_def mvcc_inv_def inv0_def log_holds_def max_trx_id_def)

lemma active_range: "mvcc_inv s \<Longrightarrow> active s h \<Longrightarrow> i32_range (tx_id (mv_heap s h))"
  using inv0_facts(3) [of "mv_current s" "recs (mv_tables s)" "mv_trxes s" "mv_heap s" h] by (simp add: mvcc_inv_def active_def)

section \<open>Redoing the log\<close>

text \<open>The running transactions of a state, by number.\<close>

definition runs :: "Mvcc \<Rightarrow> int \<Rightarrow> Operation list \<Rightarrow> bool" where
  "runs s t ops \<longleftrightarrow> (\<exists>h. active s h \<and> tx_id (mv_heap s h) = t \<and> tx_operations (mv_heap s h) = ops)"

definition unique_ids :: "Mvcc \<Rightarrow> bool" where
  "unique_ids s \<longleftrightarrow> (\<forall>h g. active s h \<and> active s g \<and> tx_id (mv_heap s h) = tx_id (mv_heap s g) \<longrightarrow> h = g)"

lemma runs_ops:
  assumes "unique_ids s" "active s h" "mv_trxes s' = mv_trxes s" "mv_heap s' = with_ops h ops (mv_heap s)"
  shows "runs s' = (\<lambda>t o'. if t = tx_id (mv_heap s h) then o' = ops else runs s t o')"
proof (intro ext)
  fix t o'
  have act: "active s' g \<longleftrightarrow> active s g" for g using assms(3,4) by (auto simp: active_def with_ops_def)
  have id: "tx_id (mv_heap s' g) = tx_id (mv_heap s g)" for g using assms(4) by (simp add: with_ops_def)
  have op: "tx_operations (mv_heap s' g) = (if g = h then ops else tx_operations (mv_heap s g))" for g using assms(4) by (simp add: with_ops_def)
  show "runs s' t o' = (if t = tx_id (mv_heap s h) then o' = ops else runs s t o')"
  proof (cases "t = tx_id (mv_heap s h)")
    case True
    have "g = h" if "active s g" "tx_id (mv_heap s g) = t" for g using assms(1,2) that True unfolding unique_ids_def by blast
    then show ?thesis unfolding runs_def act id op using True assms(2) by auto
  next
    case False
    then show ?thesis unfolding runs_def act id op by auto
  qed
qed

lemma runs_finish:
  assumes "unique_ids s" "active s h" "mv_trxes s' = mv_trxes s" "mv_heap s' = (mv_heap s)(h := (mv_heap s h)\<lparr>tx_started := False, tx_operations := []\<rparr>)"
  shows "runs s' = (\<lambda>t o'. t \<noteq> tx_id (mv_heap s h) \<and> runs s t o')"
proof (intro ext)
  fix t o'
  have act: "active s' g \<longleftrightarrow> g \<noteq> h \<and> active s g" for g using assms(3,4) by (auto simp: active_def)
  have same: "g \<noteq> h \<Longrightarrow> mv_heap s' g = mv_heap s g" for g using assms(4) by simp
  show "runs s' t o' = (t \<noteq> tx_id (mv_heap s h) \<and> runs s t o')"
  proof (cases "t = tx_id (mv_heap s h)")
    case True
    have "g = h" if "active s g" "tx_id (mv_heap s g) = t" for g using assms(1,2) that True unfolding unique_ids_def by blast
    then show ?thesis unfolding runs_def act using True same by auto
  next
    case False
    then have "g \<noteq> h \<and> active s g \<and> tx_id (mv_heap s' g) = t \<and> tx_operations (mv_heap s' g) = o' \<longleftrightarrow>
        active s g \<and> tx_id (mv_heap s g) = t \<and> tx_operations (mv_heap s g) = o'" for g using same [of g] by (cases "g = h") auto
    then show ?thesis unfolding runs_def act using False by simp
  qed
qed

lemma inv_unique: "mvcc_inv s \<Longrightarrow> unique_ids s"
  by (auto simp: mvcc_inv_def inv0_def unique_ids_def active_def)

text \<open>
  The recovering state \<open>r\<close> after some log records: \<open>U\<close> are the records inserted so far; on these it agrees with the records \<open>R\<close>
  of the execution, elsewhere it has the records \<open>R1\<close> it started with. \<open>P\<close> are the transactions of the execution that
  run, \<open>c\<close> its counter, \<open>m\<close> the largest number of a transaction, \<open>a\<close> the next free address.
\<close>

definition rsim :: "nat \<Rightarrow> int \<Rightarrow> (int \<times> RID) set \<Rightarrow> (int \<Rightarrow> RID \<rightharpoonup> byte list) \<Rightarrow> int \<Rightarrow> (int \<rightharpoonup> TableMeta) \<Rightarrow>
    (int \<Rightarrow> RID \<rightharpoonup> byte list) \<Rightarrow> (int \<Rightarrow> Operation list \<Rightarrow> bool) \<Rightarrow> Mvcc \<Rightarrow> bool" where
  "rsim a m U R1 c M R P r \<longleftrightarrow> tables_ok (mv_tables r) \<and> metas (mv_tables r) = M \<and>
     (\<forall>tid rid. recs (mv_tables r) tid rid = (if (tid, rid) \<in> U then R tid rid else R1 tid rid)) \<and>
     (\<forall>k \<in> set (mv_trxes r). k < a \<and> tx_recovering (mv_heap r k) \<and> 0 < tx_id (mv_heap r k) \<and> tx_id (mv_heap r k) \<le> m \<and>
        (\<not> tx_started (mv_heap r k) \<longrightarrow> tx_operations (mv_heap r k) = [])) \<and>
     distinct (map (\<lambda>k. tx_id (mv_heap r k)) (mv_trxes r)) \<and> runs r = P \<and> mv_current r = m \<and> 0 \<le> m \<and> m \<le> c"

lemma rsim_unique:
  assumes "rsim a m U R1 c M R P r"
  shows "unique_ids r"
proof -
  have "inj_on (\<lambda>k. tx_id (mv_heap r k)) (set (mv_trxes r))" using assms by (simp add: rsim_def distinct_map)
  then show ?thesis unfolding unique_ids_def active_def by (auto dest: inj_onD)
qed

lemma find_by_id:
  assumes "distinct (map (\<lambda>k. tx_id (mv_heap r k)) (mv_trxes r))" "k \<in> set (mv_trxes r)"
  shows "find_trx (tx_id (mv_heap r k)) r = Some k"
proof -
  have "find_trx (tx_id (mv_heap r k)) r \<noteq> None" using assms(2) by (auto simp: find_trx_def find_None_iff)
  then obtain k' where k': "find_trx (tx_id (mv_heap r k)) r = Some k'" by blast
  then have "k' \<in> set (mv_trxes r)" "tx_id (mv_heap r k') = tx_id (mv_heap r k)" by (auto simp: find_trx_def find_Some_iff)
  then have "k' = k" using assms by (auto simp: distinct_map dest: inj_onD)
  then show ?thesis using k' by simp
qed

lemma rsim_find:
  assumes "rsim a m U R1 c M R P r" "P t ops"
  obtains k where "find_trx t r = Some k" "active r k" "tx_id (mv_heap r k) = t" "tx_operations (mv_heap r k) = ops" "tx_recovering (mv_heap r k)" "t \<le> m" "0 < t"
proof -
  have "runs r t ops" using assms by (simp add: rsim_def)
  then obtain k where k: "active r k" "tx_id (mv_heap r k) = t" "tx_operations (mv_heap r k) = ops" by (auto simp: runs_def)
  show ?thesis by (rule that [of k]) (use assms(1) k find_by_id [of r k] in \<open>auto simp: rsim_def active_def\<close>)
qed

text \<open>An operation of the transaction \<open>t\<close> that changes records and the operations of \<open>t\<close>.\<close>

lemma rsim_change:
  assumes sim: "rsim a m U R1 c M R P r" and e: "effect r r' (mv_current r) Rr H"
    and H: "\<And>g. tx_id (H g) = tx_id (mv_heap r g)" "\<And>g. tx_recovering (H g) = tx_recovering (mv_heap r g)"
      "\<And>g. g \<in> set (mv_trxes r) \<Longrightarrow> \<not> tx_started (H g) \<Longrightarrow> tx_operations (H g) = []"
    and U: "\<And>tid rid. Rr tid rid = (if (tid, rid) \<in> U' then R' tid rid else R1 tid rid)" and P': "runs r' = P'"
  shows "rsim a m U' R1 c M R' P' r'"
proof -
  have h: "mv_heap r' = H" "mv_trxes r' = mv_trxes r" "mv_current r' = mv_current r" "tables_ok (mv_tables r')" "recs (mv_tables r') = Rr"
    "metas (mv_tables r') = metas (mv_tables r)" using e by (simp_all add: effect_def)
  show ?thesis using sim H(3) U P' h(4) unfolding rsim_def h(1-3,5,6) H(1,2) by simp
qed

lemma rsim_effect:
  assumes sim: "rsim a m U R1 c M R P r" and e: "effect r r' (mv_current r) Rr (with_ops k ops (mv_heap r))" and k: "active r k"
    and U: "\<And>tid rid. Rr tid rid = (if (tid, rid) \<in> U' then R' tid rid else R1 tid rid)"
  shows "rsim a m U' R1 c M R' (\<lambda>t o'. if t = tx_id (mv_heap r k) then o' = ops else P t o') r'"
proof (rule rsim_change [OF sim e _ _ _ U])
  have "runs r' = (\<lambda>t o'. if t = tx_id (mv_heap r k) then o' = ops else runs r t o')"
    by (rule runs_ops [OF rsim_unique [OF sim] k]) (use e in \<open>simp_all add: effect_def\<close>)
  then show "runs r' = (\<lambda>t o'. if t = tx_id (mv_heap r k) then o' = ops else P t o')" using sim by (simp add: rsim_def)
qed (use sim k in \<open>auto simp: with_ops_def active_def rsim_def\<close>)

lemma rsim_end:
  assumes sim: "rsim a m U R1 c M R P r" and k: "active r k"
    and e: "effect r r' (mv_current r) Rr ((mv_heap r)(k := (mv_heap r k)\<lparr>tx_started := False, tx_operations := []\<rparr>))"
    and U: "\<And>tid rid. Rr tid rid = (if (tid, rid) \<in> U then R' tid rid else R1 tid rid)"
  shows "rsim a m U R1 c M R' (\<lambda>t o'. t \<noteq> tx_id (mv_heap r k) \<and> P t o') r'"
proof (rule rsim_change [OF sim e _ _ _ U])
  have "runs r' = (\<lambda>t o'. t \<noteq> tx_id (mv_heap r k) \<and> runs r t o')"
    by (rule runs_finish [OF rsim_unique [OF sim] k]) (use e in \<open>simp_all add: effect_def\<close>)
  then show "runs r' = (\<lambda>t o'. t \<noteq> tx_id (mv_heap r k) \<and> P t o')" using sim by (simp add: rsim_def)
qed (use sim in \<open>auto simp: rsim_def\<close>)

lemma rsim_later: "rsim a m U R1 c M R P r \<Longrightarrow> c \<le> c' \<Longrightarrow> rsim a m U R1 c' M R P r"
  by (simp add: rsim_def)

text \<open>One lemma for every kind of log record.\<close>

lemma redo_begin:
  assumes sim: "rsim a m U R1 c M R P r"
  shows "\<exists>r'. redo_records fsub a [build_mtr_record MTR_BEGIN (c + 1)] r = Some (SUCCESS, r') \<and>
    rsim (Suc a) (c + 1) U R1 (c + 1) M R (\<lambda>t o'. P t o' \<or> t = c + 1 \<and> o' = []) r'"
proof -
  let ?r = "create_trx_recovering a (c + 1) r"
  have m: "m \<le> c" "0 \<le> m" and a: "\<forall>k \<in> set (mv_trxes r). k < a \<and> tx_id (mv_heap r k) \<le> m" using sim by (simp_all add: rsim_def)
  have old: "mv_heap ?r k = mv_heap r k" if "k \<in> set (mv_trxes r)" for k using that a by (auto simp: create_trx_recovering_def)
  have new: "mv_heap ?r a = \<lparr>tx_id = c + 1, tx_started = True, tx_recovering = True, tx_operations = []\<rparr>" "mv_trxes ?r = mv_trxes r @ [a]"
    "mv_tables ?r = mv_tables r" "mv_current ?r = c + 1" using sim by (simp_all add: create_trx_recovering_def rsim_def)
  have act: "active ?r k \<longleftrightarrow> k \<in> set (mv_trxes r) \<and> active r k \<or> k = a" for k
    using old new by (auto simp: active_def)
  have "runs ?r t o' \<longleftrightarrow> runs r t o' \<or> t = c + 1 \<and> o' = []" for t o'
    unfolding runs_def act using old new(1) by (auto simp: active_def)
  then have "runs ?r = (\<lambda>t o'. P t o' \<or> t = c + 1 \<and> o' = [])" using sim by (simp add: rsim_def fun_eq_iff)
  moreover have "distinct (map (\<lambda>k. tx_id (mv_heap ?r k)) (mv_trxes ?r))"
  proof -
    have "map (\<lambda>k. tx_id (mv_heap ?r k)) (mv_trxes ?r) = map (\<lambda>k. tx_id (mv_heap r k)) (mv_trxes r) @ [c + 1]" using old new by simp
    moreover have "c + 1 \<notin> (\<lambda>k. tx_id (mv_heap r k)) ` set (mv_trxes r)" using a m by auto
    moreover have "distinct (map (\<lambda>k. tx_id (mv_heap r k)) (mv_trxes r))" using sim by (simp add: rsim_def)
    ultimately show ?thesis by (simp only: distinct_append) simp
  qed
  moreover have "k < Suc a \<and> tx_recovering (mv_heap ?r k) \<and> 0 < tx_id (mv_heap ?r k) \<and> tx_id (mv_heap ?r k) \<le> c + 1 \<and>
        (\<not> tx_started (mv_heap ?r k) \<longrightarrow> tx_operations (mv_heap ?r k) = [])" if k: "k \<in> set (mv_trxes ?r)" for k
  proof (cases "k = a")
    case True
    then show ?thesis using new m by simp
  next
    case False
    then have kr: "k \<in> set (mv_trxes r)" using k new by simp
    then have "k < a" "tx_recovering (mv_heap r k)" "0 < tx_id (mv_heap r k)" "tx_id (mv_heap r k) \<le> m"
      "\<not> tx_started (mv_heap r k) \<longrightarrow> tx_operations (mv_heap r k) = []" using sim by (simp_all add: rsim_def)
    then show ?thesis using old [OF kr] m by simp
  qed
  ultimately have "rsim (Suc a) (c + 1) U R1 (c + 1) M R (\<lambda>t o'. P t o' \<or> t = c + 1 \<and> o' = []) ?r"
    using sim new m unfolding rsim_def by simp
  then show ?thesis by simp
qed

lemma redo_one:
  assumes "log_type x \<noteq> Some MTR_BEGIN" "find_trx (log_trx_id x) r = Some k" "MvccTrx_redo fsub k x r = Some (SUCCESS, r')"
  shows "redo_records fsub a [x] r = Some (SUCCESS, r')"
  using assms by simp

lemma redo_insert:
  assumes sim: "rsim a m U R1 c M R P r" and P: "P t ops" and M: "M tid = Some tm" "length v = nat (tm_record_size tm)"
    and slot: "rid_slot rid < record_slots tm"
  shows "\<exists>r'. redo_records fsub a [ins_log t tid rid v] r = Some (SUCCESS, r') \<and>
    rsim a m (insert (tid, rid) U) R1 c M (upd_rec tid rid v R) (\<lambda>t' o'. if t' = t then o' = fst (ops_insert (ins_op tid rid) ops) else P t' o') r'"
proof -
  obtain k where k: "find_trx t r = Some k" "active r k" "tx_id (mv_heap r k) = t" "tx_operations (mv_heap r k) = ops" using rsim_find [OF sim P] .
  have "metas (mv_tables r) tid = Some tm" "tables_ok (mv_tables r)" using sim M by (simp_all add: rsim_def)
  then obtain tb where tb: "mv_tables r tid = Some tb" "tb_meta tb = tm" "mvcc_table tb" "tables_ok (mv_tables r)" by (auto simp: metas_def tables_ok_def)
  define s1 where "s1 = put_table tid (put_record rid v tb) r"
  let ?r = "snd (add_operation k (ins_op tid rid) s1)"
  have "MvccTrx_redo fsub k (ins_log t tid rid v) r = Some (SUCCESS, ?r)"
    using tb slot plain_table(4) [of tb rid fsub trx_kit_fields v] by (simp add: MvccTrx_redo_def Let_def table_of_def s1_def)
  moreover have "effect r ?r (mv_current r) (upd_rec tid rid v (recs (mv_tables r))) (with_ops k (fst (ops_insert (ins_op tid rid) ops)) (mv_heap r))"
    using put_effect [OF tb(4,1), of v rid] M(2) tb(2) k(4) by (simp add: effect_def s1_def with_ops_def)
  moreover have "upd_rec tid rid v (recs (mv_tables r)) tid' rid' = (if (tid', rid') \<in> insert (tid, rid) U then upd_rec tid rid v R tid' rid' else R1 tid' rid')" for tid' rid'
    using sim by (auto simp: upd_rec_apply rsim_def)
  ultimately show ?thesis using rsim_effect [OF sim _ k(2)] k(1,3) by (intro exI [of _ ?r]) simp
qed

lemma redo_delete:
  assumes sim: "rsim a m U R1 c M R P r" and P: "P t ops" and R: "R tid rid = Some rec" "(tid, rid) \<in> U"
  shows "\<exists>r'. redo_records fsub a [del_log t tid rid] r = Some (SUCCESS, r') \<and>
    rsim a m U R1 c M (upd_rec tid rid (with_end (- t) rec) R) (\<lambda>t' o'. if t' = t then o' = fst (ops_insert (del_op tid rid) ops) else P t' o') r'"
proof -
  obtain k where k: "find_trx t r = Some k" "active r k" "tx_id (mv_heap r k) = t" "tx_operations (mv_heap r k) = ops" using rsim_find [OF sim P] .
  have r: "recs (mv_tables r) tid rid = Some rec" "tables_ok (mv_tables r)" using sim R by (simp_all add: rsim_def)
  obtain tb where tb: "mv_tables r tid = Some tb" "tb_records tb rid = Some rec" using r(1) by (rule recs_someE)
  have m: "mvcc_table tb" using r(2) tb(1) by (simp add: tables_ok_def)
  let ?v = "with_end (- t) rec"
  have len: "length ?v = nat (tm_record_size (tb_meta tb))" using mvcc_table_length [OF m tb(2)] by simp
  define s1 where "s1 = put_table tid (put_record rid ?v tb) r"
  let ?r = "snd (add_operation k (del_op tid rid) s1)"
  have "MvccTrx_redo fsub k (del_log t tid rid) r = Some (SUCCESS, ?r)"
    using tb m k(3) by (simp add: MvccTrx_redo_def Let_def table_of_def s1_def Table_visit_record_def)
  moreover have "effect r ?r (mv_current r) (upd_rec tid rid ?v (recs (mv_tables r))) (with_ops k (fst (ops_insert (del_op tid rid) ops)) (mv_heap r))"
    using put_effect [OF r(2) tb(1) len, of rid] k(4) by (simp add: effect_def s1_def with_ops_def)
  moreover have "upd_rec tid rid ?v (recs (mv_tables r)) tid' rid' = (if (tid', rid') \<in> U then upd_rec tid rid ?v R tid' rid' else R1 tid' rid')" for tid' rid'
    using sim R(2) by (auto simp: upd_rec_apply rsim_def)
  ultimately show ?thesis using rsim_effect [OF sim _ k(2)] k(1,3) by (intro exI [of _ ?r]) simp
qed

text \<open>The operations of a transaction are on records inserted before.\<close>

definition ops_known :: "(int \<times> RID) set \<Rightarrow> (int \<Rightarrow> RID \<rightharpoonup> byte list) \<Rightarrow> Operation list \<Rightarrow> bool" where
  "ops_known U R ops \<longleftrightarrow> ops_distinct ops \<and>
     (\<forall>x \<in> set ops. op_type x \<in> {OP_INSERT, OP_DELETE} \<and> R (op_table x) (op_rid x) \<noteq> None \<and> (op_table x, op_rid x) \<in> U)"

lemma ops_known_stored: "rsim a m U R1 c M R P r \<Longrightarrow> ops_known U R ops \<Longrightarrow> ops_distinct ops \<and> ops_stored (mv_tables r) ops"
  by (auto simp: ops_known_def ops_stored_def rsim_def)

lemma ops_known_other: "ops_known U R ops \<Longrightarrow> (tid, rid) \<notin> U \<Longrightarrow> \<not> ops_of k ops tid rid"
  unfolding ops_known_def ops_of_def by force

lemma redo_commit:
  assumes sim: "rsim a m U R1 c M R P r" and P: "P t ops" and ops: "ops_known U R ops"
  shows "\<exists>r'. redo_records fsub a [build_commit_record t xid] r = Some (SUCCESS, r') \<and>
    rsim a m U R1 c M (\<lambda>tid rid. map_option (commit_version xid ops tid rid) (R tid rid)) (\<lambda>t' o'. t' \<noteq> t \<and> P t' o') r'"
proof -
  obtain k where k: "find_trx t r = Some k" "active r k" "tx_id (mv_heap r k) = t" "tx_operations (mv_heap r k) = ops" using rsim_find [OF sim P] .
  have T: "tables_ok (mv_tables r)" using sim by (simp add: rsim_def)
  let ?r = "snd (commit_with_trx_id k xid r)"
  have "MvccTrx_redo fsub k (build_commit_record t xid) r = Some (SUCCESS, ?r)" by (simp add: MvccTrx_redo_def Let_def)
  moreover have e: "effect r ?r (mv_current r) (\<lambda>tid rid. map_option (commit_version xid ops tid rid) (recs (mv_tables r) tid rid))
    ((mv_heap r)(k := (mv_heap r k)\<lparr>tx_started := False, tx_operations := []\<rparr>))"
    using commit_effect0 [OF T, of k xid] ops_known_stored [OF sim ops] k(4) by simp
  moreover have "map_option (commit_version xid ops tid rid) (recs (mv_tables r) tid rid) =
      (if (tid, rid) \<in> U then map_option (commit_version xid ops tid rid) (R tid rid) else R1 tid rid)" for tid rid
    using sim ops_known_other [OF ops] by (cases "R1 tid rid") (auto simp: rsim_def commit_version_def)
  ultimately show ?thesis using rsim_end [OF sim k(2) e] k(1,3) by (intro exI [of _ ?r]) simp
qed

lemma redo_rollback:
  assumes sim: "rsim a m U R1 c M R P r" and P: "P t ops" and ops: "ops_known U R ops"
  shows "\<exists>r'. redo_records fsub a [build_mtr_record MTR_ROLLBACK t] r = Some (SUCCESS, r') \<and>
    rsim a m U R1 c M (\<lambda>tid rid. undo_version ops tid rid (R tid rid)) (\<lambda>t' o'. t' \<noteq> t \<and> P t' o') r'"
proof -
  obtain k where k: "find_trx t r = Some k" "active r k" "tx_id (mv_heap r k) = t" "tx_operations (mv_heap r k) = ops" using rsim_find [OF sim P] .
  have T: "tables_ok (mv_tables r)" using sim by (simp add: rsim_def)
  obtain rc r' where r': "MvccTrx_rollback fsub k r = Some (rc, r')"
    "effect r r' (mv_current r) (\<lambda>tid rid. undo_version ops tid rid (recs (mv_tables r) tid rid))
    ((mv_heap r)(k := (mv_heap r k)\<lparr>tx_started := False, tx_operations := []\<rparr>))"
    using rollback_effect0 [OF T, of k fsub] ops_known_stored [OF sim ops] k(4) by auto
  have "MvccTrx_redo fsub k (build_mtr_record MTR_ROLLBACK t) r = Some (SUCCESS, r')" using r'(1) by (simp add: MvccTrx_redo_def Let_def)
  moreover have "undo_version ops tid rid (recs (mv_tables r) tid rid) =
      (if (tid, rid) \<in> U then undo_version ops tid rid (R tid rid) else R1 tid rid)" for tid rid
    using sim ops_known_other [OF ops] by (auto simp: rsim_def undo_version_def)
  ultimately show ?thesis using rsim_end [OF sim k(2) r'(2)] k(1,3) by (intro exI [of _ r']) simp
qed


section \<open>Every execution can be redone\<close>

text \<open>One step of an execution keeps \<open>run_ok\<close>: the invariant of the transactions, and what the log holds.\<close>

lemma ok_log: "run_ok L s \<Longrightarrow> log_holds (mv_log s) L" and ok_inv: "run_ok L s \<Longrightarrow> mvcc_inv s"
  and ok_rec: "run_ok L s \<Longrightarrow> recs (mv_tables s) tid rid = Some rec \<Longrightarrow> (tid, rid) \<in> touched L \<and> log_ids tid rid"
  and ok_fresh: "run_ok L s \<Longrightarrow> h \<in> set (mv_trxes s) \<Longrightarrow> \<not> tx_recovering (mv_heap s h)"
  by (simp_all add: run_ok_def)

lemma run_okI:
  assumes "effect s s' cur R H" "mvcc_inv s'" "log_holds (mv_log s') L'"
    "\<And>tid rid rec. R tid rid = Some rec \<Longrightarrow> (tid, rid) \<in> touched L' \<and> log_ids tid rid"
    "\<And>h. h \<in> set (mv_trxes s) \<Longrightarrow> \<not> tx_recovering (H h)"
  shows "run_ok L' s'"
  using assms by (simp add: run_ok_def effect_def)

lemma insert_ok:
  assumes ok: "run_ok L s" and act: "active s h" and at: "at_table s tid tb rec" "new_place tb rid" "log_ids tid rid"
    and room: "room s (24 + int (length rec))" and ins: "MvccTrx_insert_record fsub h tid (Inr rid) rec s = Some (rc, s')"
  shows "run_ok (L @ [ins_log (tx_id (mv_heap s h)) tid rid (new_version (tx_id (mv_heap s h)) tb rec)]) s'"
proof -
  note inv = ok_inv [OF ok] and f = inv_facts [OF ok_inv [OF ok] act]
  note t = at_table_facts [OF f(4) at(1)]
  let ?v = "new_version (tx_id (mv_heap s h)) tb rec"
  let ?l = "ins_log (tx_id (mv_heap s h)) tid rid ?v"
  have e: "effect s s' (mv_current s) (upd_rec tid rid ?v (recs (mv_tables s)))
      (with_ops h (fst (ops_insert (ins_op tid rid) (tx_operations (mv_heap s h)))) (mv_heap s))"
    using insert_effect [OF f(4) at(1), of fsub h rid] ins by auto
  have "mvcc_op fsub h s s'" using mvcc_op.insert [OF act at(1) _ ins] at(2) by (simp add: free_place_def new_place_def)
  then have inv': "mvcc_inv s'" using inv by (rule op_inv)
  have size: "0 \<le> lm_total_size (mv_log s)" using ok_log [OF ok] by (auto simp: log_holds_def logrec_sum)
  have "log_wf ?l" using room size t(1) by (intro ins_wfI active_range [OF inv act] at(3)) (simp add: room_def)
  then have "log_holds (mv_log s') (L @ [?l])"
    using append_holds(1) [OF ok_log [OF ok]] room t(1) unfolding insert_logs [OF t(1,3) ins] by (simp add: room_def)
  then show ?thesis
    by (rule run_okI [OF e inv']) (use ok_rec [OF ok] at(3) ok_fresh [OF ok] in \<open>auto simp: upd_rec_apply touched_append with_ops_def split: if_splits\<close>)
qed

lemma delete_ok:
  assumes ok: "run_ok L s" and act: "active s h" and vis: "visited s h tid tb rid rec" "v_end rec = max_trx_id"
    and room: "room s 24" and del: "MvccTrx_delete_record fsub h tid rid s = Some (rc, s')"
  shows "run_ok (L @ [del_log (tx_id (mv_heap s h)) tid rid]) s'"
proof -
  note inv = ok_inv [OF ok] and f = inv_facts [OF ok_inv [OF ok] act]
  have v: "mv_tables s tid = Some tb" "tb_records tb rid = Some rec" using vis(1) by (simp_all add: visited_def)
  have m: "mvcc_table tb" using f(4) v(1) by (simp add: tables_ok_def)
  have known: "(tid, rid) \<in> touched L" "log_ids tid rid" using ok_rec [OF ok, of tid rid rec] v by (simp_all add: recs_def)
  have e: "effect s s' (mv_current s) (upd_rec tid rid (with_end (- tx_id (mv_heap s h)) rec) (recs (mv_tables s)))
      (with_ops h (fst (ops_insert (del_op tid rid) (tx_operations (mv_heap s h)))) (mv_heap s))"
    using delete_effect [OF f(4) v, of fsub h] del vis(2) by auto
  have inv': "mvcc_inv s'" using op_inv [OF mvcc_op.delete [OF act vis(1) del] inv] .
  have "log_holds (mv_log s') (L @ [del_log (tx_id (mv_heap s h)) tid rid])"
    using append_holds(1) [OF ok_log [OF ok] del_wfI [OF active_range [OF inv act] known(2)]] room
    unfolding delete_logs [OF m v vis(2) del] by (simp add: room_def)
  then show ?thesis
    by (rule run_okI [OF e inv']) (use ok_rec [OF ok] known ok_fresh [OF ok] in \<open>auto simp: upd_rec_apply touched_append with_ops_def split: if_splits\<close>)
qed

lemma update_ok:
  assumes ok: "run_ok L s" and act: "active s h" and vis: "visited s h tid tb rid rec"
    and at: "at_table s tid tb new_rec" "new_place tb rid2" "log_ids tid rid2"
    and room: "room s (48 + int (length new_rec))" and upd: "MvccTrx_update_record fsub h tid rid (Inr rid2) new_rec s = Some (rc, s')"
  shows "run_ok (L @ [del_log (tx_id (mv_heap s h)) tid rid, ins_log (tx_id (mv_heap s h)) tid rid2 (new_version (tx_id (mv_heap s h)) tb new_rec)]) s'"
proof -
  note inv = ok_inv [OF ok] and f = inv_facts [OF ok_inv [OF ok] act]
  note t = at_table_facts [OF f(4) at(1)]
  let ?t = "tx_id (mv_heap s h)"
  let ?v = "new_version ?t tb new_rec" and ?d = "del_log ?t tid rid"
  let ?l = "ins_log ?t tid rid2 ?v"
  have v: "mv_tables s tid = Some tb" "tb_records tb rid = Some rec" "MvccTrx_visit_record (mv_heap s h) tb rec False = SUCCESS"
    using vis(1) by (simp_all add: visited_def)
  have known: "(tid, rid) \<in> touched L" "log_ids tid rid" using ok_rec [OF ok, of tid rid rec] v by (simp_all add: recs_def)
  have e: "effect s s' (mv_current s) (upd_rec tid rid2 ?v (upd_rec tid rid (with_end (- ?t) rec) (recs (mv_tables s))))
      (with_ops h (fst (ops_insert (ins_op tid rid2) (fst (ops_insert (del_op tid rid) (tx_operations (mv_heap s h)))))) (mv_heap s))"
    using update_effect [OF f(4) v, of new_rec fsub rid2] upd at(1) by (auto simp: at_table_def)
  have "mvcc_op fsub h s s'" using mvcc_op.update [OF act vis at(1) _ upd] at(2) by (simp add: free_place_def new_place_def)
  then have inv': "mvcc_inv s'" using inv by (rule op_inv)
  have size: "0 \<le> lm_total_size (mv_log s)" using ok_log [OF ok] by (auto simp: log_holds_def logrec_sum)
  have w: "log_wf ?l" "log_wf ?d" using room size t(1) by (auto intro!: ins_wfI del_wfI active_range [OF inv act] at(3) known(2) simp: room_def)
  note a = append_holds [OF ok_log [OF ok] w(2)]
  have "log_holds (mv_log s') ((L @ [?d]) @ [?l])"
    using append_holds(1) [OF a(1) w(1)] a(3) room t(1) unfolding update_logs [OF t(1) v upd] by (simp add: room_def)
  then have "log_holds (mv_log s') (L @ [?d, ?l])" by simp
  then show ?thesis
    by (rule run_okI [OF e inv']) (use ok_rec [OF ok] known at(3) ok_fresh [OF ok] in \<open>auto simp: upd_rec_apply touched_append with_ops_def split: if_splits\<close>)
qed

lemma commit_ok:
  assumes ok: "run_ok L s" and act: "active s h" and cur: "mv_current s + 1 < max_trx_id" and room: "room s 4"
  shows "run_ok (L @ [build_commit_record (tx_id (mv_heap s h)) (mv_current s + 1)]) (snd (MvccTrx_commit h s))"
    "lm_records (mv_log (snd (MvccTrx_commit h s))) = []"
proof -
  note inv = ok_inv [OF ok] and f = inv_facts [OF ok_inv [OF ok] act]
  have inv': "mvcc_inv (snd (MvccTrx_commit h s))" by (rule commit_inv [OF _ inv]) (use f(2) cur in \<open>simp add: mvcc_commit_def\<close>)
  have r: "i32_range (mv_current s + 1)" using f(5) cur by (simp add: inv0_def i32_range_def max_trx_id_def)
  note c = commit_holds [OF ok_log [OF ok] active_range [OF inv act] r]
  note l = commit_logs [OF inv f(2) cur ok_fresh [OF ok f(2)]]
  show "lm_records (mv_log (snd (MvccTrx_commit h s))) = []" using c(2) room unfolding l by (simp add: room_def)
  have "log_holds (mv_log (snd (MvccTrx_commit h s))) (L @ [build_commit_record (tx_id (mv_heap s h)) (mv_current s + 1)])"
    using c(1) room unfolding l by (simp add: room_def)
  then show "run_ok (L @ [build_commit_record (tx_id (mv_heap s h)) (mv_current s + 1)]) (snd (MvccTrx_commit h s))"
    by (rule run_okI [OF commit_effect [OF inv f(2) cur] inv']) (use ok_rec [OF ok] ok_fresh [OF ok] in \<open>auto simp: touched_append\<close>)
qed

lemma rollback_ok:
  assumes ok: "run_ok L s" and act: "active s h" and room: "room s 0" and rb: "MvccTrx_rollback fsub h s = Some (rc, s')"
  shows "run_ok (L @ [build_mtr_record MTR_ROLLBACK (tx_id (mv_heap s h))]) s'"
proof -
  note inv = ok_inv [OF ok] and f = inv_facts [OF ok_inv [OF ok] act]
  have e: "effect s s' (mv_current s) (\<lambda>tid rid. undo_version (tx_operations (mv_heap s h)) tid rid (recs (mv_tables s) tid rid))
    ((mv_heap s)(h := (mv_heap s h)\<lparr>tx_started := False, tx_operations := []\<rparr>))" using rollback_effect [OF inv f(2), of fsub] rb by auto
  have inv': "mvcc_inv s'" using op_inv [OF mvcc_op.rollback [OF f(2) rb] inv] .
  have "log_holds (mv_log s') (L @ [build_mtr_record MTR_ROLLBACK (tx_id (mv_heap s h))])"
    using append_holds(1) [OF ok_log [OF ok] mtr_wfI [OF _ active_range [OF inv act], of MTR_ROLLBACK]] room
    unfolding rollback_logs [OF ok_fresh [OF ok f(2)] rb] by (simp add: room_def)
  then show ?thesis
    by (rule run_okI [OF e inv']) (use ok_rec [OF ok] ok_fresh [OF ok] in \<open>auto simp: touched_append undo_version_def split: if_splits\<close>)
qed

lemma start_ok:
  assumes ok: "run_ok L s" and h: "h \<in> set (mv_trxes s)" "\<not> tx_started (mv_heap s h)" and cur: "mv_current s + 1 < max_trx_id" and room: "room s 0"
  shows "run_ok (L @ [build_mtr_record MTR_BEGIN (mv_current s + 1)]) (snd (start_if_need h s))"
proof -
  note inv = ok_inv [OF ok]
  have inv': "mvcc_inv (snd (start_if_need h s))" by (rule op_inv [OF mvcc_op.start [OF h(1) cur] inv])
  have r: "i32_range (mv_current s + 1)" using inv cur by (simp add: mvcc_inv_def inv0_def i32_range_def max_trx_id_def)
  have "log_holds (mv_log (snd (start_if_need h s))) (L @ [build_mtr_record MTR_BEGIN (mv_current s + 1)])"
    using append_holds(1) [OF ok_log [OF ok] mtr_wfI [OF _ r, of MTR_BEGIN]] room unfolding start_logs [OF inv cur h(2)] by (simp add: room_def)
  then show ?thesis
    by (rule run_okI [OF start_effect(2) [OF inv cur h(2)] inv']) (use ok_rec [OF ok] ok_fresh [OF ok] in \<open>auto simp: touched_append\<close>)
qed

lemma created_run_ok: "run_ok L s \<Longrightarrow> h \<notin> set (mv_trxes s) \<Longrightarrow> run_ok L (create_trx h s)"
  using op_inv [OF mvcc_op.create [of h s]] by (auto simp: run_ok_def create_trx_def)

lemma destroy_ok: "run_ok L s \<Longrightarrow> run_ok L (destroy_trx h s)"
  using op_inv [OF mvcc_op.destroy [of _ h s]] set_remove1_subset [of h "mv_trxes s"] by (auto simp: run_ok_def destroy_trx_def)

lemma execution_ok:
  "execution fsub s0 L s \<Longrightarrow> initial s0 \<Longrightarrow> run_ok L s"
  by (induction rule: execution.induct)
    (simp_all add: initial_ok created_run_ok destroy_ok start_ok insert_ok delete_ok update_ok commit_ok rollback_ok)

text \<open>Redoing a log piece by piece.\<close>

definition begins :: "CLogRecord list \<Rightarrow> nat" where
  "begins L = length (filter (\<lambda>x. log_type x = Some MTR_BEGIN) L)"

definition last_begun :: "CLogRecord list \<Rightarrow> int" where
  "last_begun L = fold (\<lambda>x m. if log_type x = Some MTR_BEGIN then log_trx_id x else m) L 0"

lemma redo_append:
  "redo_records fsub a L r0 = Some (SUCCESS, r) \<Longrightarrow> redo_records fsub a (L @ xs) r0 = redo_records fsub (a + begins L) xs r"
  by (induction L arbitrary: a r0) (auto simp: begins_def split: if_splits option.splits prod.splits)

lemma runs_active: "runs s (tx_id (mv_heap s h)) (tx_operations (mv_heap s h))" if "active s h"
  using that by (auto simp: runs_def)

lemma runs_start:
  assumes "mvcc_inv s" "h \<in> set (mv_trxes s)" "\<not> tx_started (mv_heap s h)" "mv_current s + 1 < max_trx_id"
  shows "runs (snd (start_if_need h s)) = (\<lambda>t o'. runs s t o' \<or> t = mv_current s + 1 \<and> o' = [])"
proof (intro ext)
  fix t o'
  let ?s = "snd (start_if_need h s)"
  note e = start_effect(2) [OF assms(1,4,3)]
  have ops: "tx_operations (mv_heap s h) = []" using assms(1-3) by (auto simp: mvcc_inv_def inv0_def trx_ok_def)
  have act: "active ?s g \<longleftrightarrow> active s g \<or> g = h" for g using e assms(2) by (auto simp: active_def effect_def)
  have heap: "mv_heap ?s g = (if g = h then (mv_heap s h)\<lparr>tx_id := mv_current s + 1, tx_started := True\<rparr> else mv_heap s g)" for g
    using e by (simp add: effect_def)
  have "\<not> active s h" using assms(3) by (simp add: active_def)
  then show "runs ?s t o' = (runs s t o' \<or> t = mv_current s + 1 \<and> o' = [])"
    unfolding runs_def act heap using ops by auto
qed

lemma runs_create: "h \<notin> set (mv_trxes s) \<Longrightarrow> runs (create_trx h s) = runs s"
  by (intro ext) (auto simp: runs_def active_def create_trx_def)

lemma runs_destroy:
  assumes "\<not> tx_started (mv_heap s h)" "mvcc_inv s"
  shows "runs (destroy_trx h s) = runs s"
proof -
  have "distinct (mv_trxes s)" using assms(2) by (simp add: mvcc_inv_def inv0_def)
  then have "active (destroy_trx h s) g \<longleftrightarrow> active s g" for g using assms(1) by (auto simp: active_def destroy_trx_def)
  then show ?thesis by (intro ext) (simp add: runs_def destroy_trx_def)
qed

lemma ops_known_active:
  assumes "run_ok L s" "active s h"
  shows "ops_known (touched L) (recs (mv_tables s)) (tx_operations (mv_heap s h))"
proof -
  have "trx_ok (mv_current s) (recs (mv_tables s)) (mv_heap s h)" using ok_inv [OF assms(1)] assms(2) by (simp add: mvcc_inv_def inv0_def active_def)
  then show ?thesis using ok_rec [OF assms(1)] by (fastforce simp: ops_known_def trx_ok_def op_ok_def)
qed

abbreviation follows :: "nat \<Rightarrow> (int \<Rightarrow> RID \<rightharpoonup> byte list) \<Rightarrow> CLogRecord list \<Rightarrow> Mvcc \<Rightarrow> Mvcc \<Rightarrow> bool" where
  "follows a R1 L s r \<equiv> rsim (a + begins L) (last_begun L) (touched L) R1 (mv_current s) (metas (mv_tables s)) (recs (mv_tables s)) (runs s) r"

lemma begins_simps [simp]: "begins (L @ [x]) = begins L + (if log_type x = Some MTR_BEGIN then 1 else 0)"
  "last_begun (L @ [x]) = (if log_type x = Some MTR_BEGIN then log_trx_id x else last_begun L)"
  "log_type x \<noteq> Some MTR_BEGIN \<Longrightarrow> log_type y \<noteq> Some MTR_BEGIN \<Longrightarrow> begins (L @ [x, y]) = begins L \<and> last_begun (L @ [x, y]) = last_begun L"
  by (simp_all add: begins_def last_begun_def)

text \<open>The steps of an execution, each with the redo of its log records.\<close>

lemma start_redo:
  assumes ok: "run_ok L s" and h: "h \<in> set (mv_trxes s)" "\<not> tx_started (mv_heap s h)" "mv_current s + 1 < max_trx_id" and f: "follows a R1 L s r"
  shows "\<exists>r'. redo_records fsub (a + begins L) [build_mtr_record MTR_BEGIN (mv_current s + 1)] r = Some (SUCCESS, r') \<and>
    follows a R1 (L @ [build_mtr_record MTR_BEGIN (mv_current s + 1)]) (snd (start_if_need h s)) r'"
  using redo_begin [OF f, of fsub] start_effect(2) [OF ok_inv [OF ok] h(3,2)] runs_start [OF ok_inv [OF ok] h]
  by (simp add: effect_def touched_append)

lemma insert_redo:
  assumes ok: "run_ok L s" and act: "active s h" and at: "at_table s tid tb rec" "new_place tb rid"
    and ins: "MvccTrx_insert_record fsub h tid (Inr rid) rec s = Some (rc, s')" and f: "follows a R1 L s r"
  shows "\<exists>r'. redo_records fsub (a + begins L) [ins_log (tx_id (mv_heap s h)) tid rid (new_version (tx_id (mv_heap s h)) tb rec)] r = Some (SUCCESS, r') \<and>
    follows a R1 (L @ [ins_log (tx_id (mv_heap s h)) tid rid (new_version (tx_id (mv_heap s h)) tb rec)]) s' r'"
proof -
  note i = inv_facts [OF ok_inv [OF ok] act]
  note t = at_table_facts [OF i(4) at(1)]
  let ?ops = "fst (ops_insert (ins_op tid rid) (tx_operations (mv_heap s h)))"
  have e: "effect s s' (mv_current s) (upd_rec tid rid (new_version (tx_id (mv_heap s h)) tb rec) (recs (mv_tables s))) (with_ops h ?ops (mv_heap s))"
    using insert_effect [OF i(4) at(1), of fsub h rid] ins by auto
  have "runs s' = (\<lambda>t o'. if t = tx_id (mv_heap s h) then o' = ?ops else runs s t o')"
    by (rule runs_ops [OF inv_unique [OF ok_inv [OF ok]] act]) (use e in \<open>simp_all add: effect_def\<close>)
  moreover have "metas (mv_tables s) tid = Some (tb_meta tb)" "length (new_version (tx_id (mv_heap s h)) tb rec) = nat (tm_record_size (tb_meta tb))"
    using t at(1) by (simp_all add: metas_def at_table_def)
  ultimately show ?thesis using redo_insert [OF f runs_active [OF act], of tid "tb_meta tb" _ rid fsub] e at(2)
    by (simp add: effect_def touched_append new_place_def)
qed

lemma delete_redo:
  assumes ok: "run_ok L s" and act: "active s h" and vis: "visited s h tid tb rid rec" "v_end rec = max_trx_id"
    and del: "MvccTrx_delete_record fsub h tid rid s = Some (rc, s')" and f: "follows a R1 L s r"
  shows "\<exists>r'. redo_records fsub (a + begins L) [del_log (tx_id (mv_heap s h)) tid rid] r = Some (SUCCESS, r') \<and>
    follows a R1 (L @ [del_log (tx_id (mv_heap s h)) tid rid]) s' r'"
proof -
  note i = inv_facts [OF ok_inv [OF ok] act]
  have v: "mv_tables s tid = Some tb" "tb_records tb rid = Some rec" using vis(1) by (simp_all add: visited_def)
  have r: "recs (mv_tables s) tid rid = Some rec" using v by (simp add: recs_def)
  let ?ops = "fst (ops_insert (del_op tid rid) (tx_operations (mv_heap s h)))"
  have e: "effect s s' (mv_current s) (upd_rec tid rid (with_end (- tx_id (mv_heap s h)) rec) (recs (mv_tables s))) (with_ops h ?ops (mv_heap s))"
    using delete_effect [OF i(4) v, of fsub h] del vis(2) by auto
  have "runs s' = (\<lambda>t o'. if t = tx_id (mv_heap s h) then o' = ?ops else runs s t o')"
    by (rule runs_ops [OF inv_unique [OF ok_inv [OF ok]] act]) (use e in \<open>simp_all add: effect_def\<close>)
  then show ?thesis using redo_delete [OF f runs_active [OF act] r, of fsub] ok_rec [OF ok r] e
    by (simp add: effect_def touched_append)
qed

lemma update_redo:
  assumes ok: "run_ok L s" and act: "active s h" and vis: "visited s h tid tb rid rec"
    and at: "at_table s tid tb new_rec" "new_place tb rid2"
    and upd: "MvccTrx_update_record fsub h tid rid (Inr rid2) new_rec s = Some (rc, s')" and f: "follows a R1 L s r"
    and L': "L' = [del_log (tx_id (mv_heap s h)) tid rid, ins_log (tx_id (mv_heap s h)) tid rid2 (new_version (tx_id (mv_heap s h)) tb new_rec)]"
  shows "\<exists>r'. redo_records fsub (a + begins L) L' r = Some (SUCCESS, r') \<and> follows a R1 (L @ L') s' r'"
proof -
  note i = inv_facts [OF ok_inv [OF ok] act]
  note t = at_table_facts [OF i(4) at(1)]
  let ?t = "tx_id (mv_heap s h)" and ?d = "del_log (tx_id (mv_heap s h)) tid rid"
  let ?v = "new_version ?t tb new_rec" and ?R = "upd_rec tid rid (with_end (- tx_id (mv_heap s h)) rec) (recs (mv_tables s))"
  let ?ops1 = "fst (ops_insert (del_op tid rid) (tx_operations (mv_heap s h)))"
  let ?ops2 = "fst (ops_insert (ins_op tid rid2) ?ops1)"
  let ?P1 = "\<lambda>t o'. if t = ?t then o' = ?ops1 else runs s t o'"
  have v: "mv_tables s tid = Some tb" "tb_records tb rid = Some rec" "MvccTrx_visit_record (mv_heap s h) tb rec False = SUCCESS"
    using vis(1) by (simp_all add: visited_def)
  have r: "recs (mv_tables s) tid rid = Some rec" using v by (simp add: recs_def)
  have e: "effect s s' (mv_current s) (upd_rec tid rid2 ?v ?R) (with_ops h ?ops2 (mv_heap s))"
    using update_effect [OF i(4) v, of new_rec fsub rid2] upd at(1) by (auto simp: at_table_def)
  have s': "runs s' = (\<lambda>t o'. if t = ?t then o' = ?ops2 else runs s t o')"
    by (rule runs_ops [OF inv_unique [OF ok_inv [OF ok]] act]) (use e in \<open>simp_all add: effect_def\<close>)
  obtain r1 where r1: "redo_records fsub (a + begins L) [?d] r = Some (SUCCESS, r1)"
    "rsim (a + begins L) (last_begun L) (touched L) R1 (mv_current s) (metas (mv_tables s)) ?R ?P1 r1"
    using redo_delete [OF f runs_active [OF act] r, of fsub] ok_rec [OF ok r] by blast
  have m: "metas (mv_tables s) tid = Some (tb_meta tb)" "length ?v = nat (tm_record_size (tb_meta tb))"
    using t at(1) by (simp_all add: metas_def at_table_def)
  obtain r2 where r2: "redo_records fsub (a + begins L) [ins_log ?t tid rid2 ?v] r1 = Some (SUCCESS, r2)"
    "rsim (a + begins L) (last_begun L) (insert (tid, rid2) (touched L)) R1 (mv_current s) (metas (mv_tables s)) (upd_rec tid rid2 ?v ?R)
       (\<lambda>t o'. if t = ?t then o' = ?ops2 else ?P1 t o') r2"
    using redo_insert [OF r1(2) _ m, of ?t ?ops1 rid2 fsub] at(2) by (auto simp: new_place_def)
  have "(\<lambda>t o'. if t = ?t then o' = ?ops2 else ?P1 t o') = runs s'" unfolding s' by (intro ext) simp
  then have "follows a R1 ((L @ [?d]) @ [ins_log ?t tid rid2 ?v]) s' r2"
    using r2(2) e by (simp add: effect_def touched_append)
  moreover have "redo_records fsub (a + begins L) ([?d] @ [ins_log ?t tid rid2 ?v]) r = Some (SUCCESS, r2)"
    using redo_append [OF r1(1)] r2(1) by (simp add: begins_def)
  ultimately show ?thesis unfolding L' by (intro exI [of _ r2]) simp
qed

lemma commit_redo:
  assumes ok: "run_ok L s" and act: "active s h" and cur: "mv_current s + 1 < max_trx_id" and f: "follows a R1 L s r"
  shows "\<exists>r'. redo_records fsub (a + begins L) [build_commit_record (tx_id (mv_heap s h)) (mv_current s + 1)] r = Some (SUCCESS, r') \<and>
    follows a R1 (L @ [build_commit_record (tx_id (mv_heap s h)) (mv_current s + 1)]) (snd (MvccTrx_commit h s)) r'"
proof -
  note i = inv_facts [OF ok_inv [OF ok] act]
  note e = commit_effect [OF ok_inv [OF ok] i(2) cur]
  have "runs (snd (MvccTrx_commit h s)) = (\<lambda>t o'. t \<noteq> tx_id (mv_heap s h) \<and> runs s t o')"
    by (rule runs_finish [OF inv_unique [OF ok_inv [OF ok]] act]) (use e in \<open>simp_all add: effect_def\<close>)
  then show ?thesis
    using redo_commit [OF rsim_later [OF f, of "mv_current s + 1"] runs_active [OF act] ops_known_active [OF ok act], of fsub "mv_current s + 1"] e
    by (simp add: effect_def touched_append)
qed

lemma rollback_redo:
  assumes ok: "run_ok L s" and act: "active s h" and rb: "MvccTrx_rollback fsub h s = Some (rc, s')" and f: "follows a R1 L s r"
  shows "\<exists>r'. redo_records fsub (a + begins L) [build_mtr_record MTR_ROLLBACK (tx_id (mv_heap s h))] r = Some (SUCCESS, r') \<and>
    follows a R1 (L @ [build_mtr_record MTR_ROLLBACK (tx_id (mv_heap s h))]) s' r'"
proof -
  note i = inv_facts [OF ok_inv [OF ok] act]
  have e: "effect s s' (mv_current s) (\<lambda>tid rid. undo_version (tx_operations (mv_heap s h)) tid rid (recs (mv_tables s) tid rid))
    ((mv_heap s)(h := (mv_heap s h)\<lparr>tx_started := False, tx_operations := []\<rparr>))" using rollback_effect [OF ok_inv [OF ok] i(2), of fsub] rb by auto
  have "runs s' = (\<lambda>t o'. t \<noteq> tx_id (mv_heap s h) \<and> runs s t o')"
    by (rule runs_finish [OF inv_unique [OF ok_inv [OF ok]] act]) (use e in \<open>simp_all add: effect_def\<close>)
  then show ?thesis using redo_rollback [OF f runs_active [OF act] ops_known_active [OF ok act], of fsub] e
    by (simp add: effect_def touched_append)
qed

definition redone :: "float_sub \<Rightarrow> nat \<Rightarrow> Mvcc \<Rightarrow> (int \<Rightarrow> RID \<rightharpoonup> byte list) \<Rightarrow> CLogRecord list \<Rightarrow> Mvcc \<Rightarrow> bool" where
  "redone fsub a r0 R1 L s \<longleftrightarrow> (\<exists>r. redo_records fsub a L r0 = Some (SUCCESS, r) \<and> follows a R1 L s r)"

lemma redone_step:
  assumes "redone fsub a r0 R1 L s"
    and "\<And>r. follows a R1 L s r \<Longrightarrow> \<exists>r'. redo_records fsub (a + begins L) L' r = Some (SUCCESS, r') \<and> follows a R1 (L @ L') s' r'"
  shows "redone fsub a r0 R1 (L @ L') s'"
  using assms redo_append unfolding redone_def by metis

lemma execution_redone:
  assumes "execution fsub s0 L s" "initial s0" "follows a R1 [] s0 r0"
  shows "redone fsub a r0 R1 L s"
  using assms(1)
proof (induction rule: execution.induct)
  case ex_nil
  then show ?case using assms(3) by (simp add: redone_def)
next
  case (ex_create L s h)
  then show ?case using runs_create [of h s] by (simp add: redone_def) (simp add: create_trx_def)
next
  case (ex_destroy L s h)
  then show ?case using runs_destroy [of s h] ok_inv [OF execution_ok [OF ex_destroy(1) assms(2)]] by (simp add: redone_def) (simp add: destroy_trx_def)
qed (rule redone_step, assumption, blast intro: start_redo insert_redo delete_redo update_redo commit_redo rollback_redo execution_ok assms(2))+


section \<open>Rolling back what did not finish\<close>

definition undone :: "nat list \<Rightarrow> (nat \<Rightarrow> MvccTrx) \<Rightarrow> (int \<Rightarrow> RID \<rightharpoonup> byte list) \<Rightarrow> int \<Rightarrow> RID \<rightharpoonup> byte list" where
  "undone ks H R tid rid =
     (if \<exists>k \<in> set ks. ops_of OP_INSERT (tx_operations (H k)) tid rid then None
      else if \<exists>k \<in> set ks. ops_of OP_DELETE (tx_operations (H k)) tid rid then map_option (with_end max_trx_id) (R tid rid) else R tid rid)"

lemma undone_Cons:
  assumes "inv0 c R (k # ks) H" "\<And>g. g \<in> set ks \<Longrightarrow> H' g = H g"
  shows "undone ks H' (\<lambda>tid rid. undo_version (tx_operations (H k)) tid rid (R tid rid)) = undone (k # ks) H R"
proof (intro ext)
  fix tid rid
  have "k \<notin> set ks" using assms(1) by (simp add: inv0_def)
  then have "\<not> ops_of OP_DELETE (tx_operations (H g)) tid rid" if "g \<in> set ks" "ops_of OP_DELETE (tx_operations (H k)) tid rid" for g
    using ops_disjoint [OF assms(1), of k g "del_op tid rid" "del_op tid rid"] that by (auto simp: ops_of_def)
  moreover have "(\<exists>g \<in> set ks. ops_of K (tx_operations (H' g)) tid rid) \<longleftrightarrow> (\<exists>g \<in> set ks. ops_of K (tx_operations (H g)) tid rid)" for K
    using assms(2) by simp
  ultimately show "undone ks H' (\<lambda>tid rid. undo_version (tx_operations (H k)) tid rid (R tid rid)) tid rid = undone (k # ks) H R tid rid"
    by (auto simp: undone_def undo_version_def)
qed

lemma rollback_all_ok:
  "tables_ok (mv_tables r) \<Longrightarrow> mv_trxes r = ks \<Longrightarrow> inv0 c (recs (mv_tables r)) ks (mv_heap r) \<Longrightarrow>
     \<exists>r'. rollback_all fsub ks r = Some r' \<and> tables_ok (mv_tables r') \<and> mv_trxes r' = [] \<and> mv_current r' = mv_current r \<and>
       recs (mv_tables r') = undone ks (mv_heap r) (recs (mv_tables r)) \<and> coms (recs (mv_tables r')) = coms (recs (mv_tables r)) \<and>
       inv0 c (recs (mv_tables r')) [] (mv_heap r')"
proof (induction ks arbitrary: r)
  case Nil
  then show ?case by (simp add: undone_def fun_eq_iff)
next
  case (Cons k ks)
  let ?R = "\<lambda>tid rid. undo_version (tx_operations (mv_heap r k)) tid rid (recs (mv_tables r) tid rid)"
  have ok: "trx_ok c (recs (mv_tables r)) (mv_heap r k)" using Cons.prems(3) by (simp add: inv0_def)
  obtain rc r1 where r1: "MvccTrx_rollback fsub k r = Some (rc, r1)"
    "effect r r1 (mv_current r) ?R ((mv_heap r)(k := (mv_heap r k)\<lparr>tx_started := False, tx_operations := []\<rparr>))"
    using rollback_effect0 [OF Cons.prems(1), of k fsub] trx_ok_stored [OF ok] by blast
  let ?r = "destroy_trx k r1"
  have p: "tables_ok (mv_tables ?r)" "mv_trxes ?r = ks" "recs (mv_tables ?r) = ?R" "mv_current ?r = mv_current r" "mv_heap ?r = mv_heap r1"
    using r1(2) Cons.prems(2) by (simp_all add: destroy_trx_def effect_def)
  have "inv0 c ?R (k # ks) (mv_heap r1)" using inv0_rollback [OF Cons.prems(3), of k] r1(2) by (simp add: effect_def)
  then have i: "inv0 c (recs (mv_tables ?r)) ks (mv_heap ?r)" using inv0_destroy [of c ?R "k # ks" "mv_heap r1" k] p by simp
  obtain r' where r': "rollback_all fsub ks ?r = Some r'" "tables_ok (mv_tables r')" "mv_trxes r' = []" "mv_current r' = mv_current ?r"
    "recs (mv_tables r') = undone ks (mv_heap ?r) (recs (mv_tables ?r))" "coms (recs (mv_tables r')) = coms (recs (mv_tables ?r))"
    "inv0 c (recs (mv_tables r')) [] (mv_heap r')"
    using Cons.IH [OF p(1,2) i] by (elim exE conjE) (rule that)
  have "k \<notin> set ks" using Cons.prems(3) by (simp add: inv0_def)
  then have "g \<in> set ks \<Longrightarrow> mv_heap ?r g = mv_heap r g" for g using p(5) r1(2) by (auto simp: effect_def)
  then have u: "undone ks (mv_heap ?r) ?R = undone (k # ks) (mv_heap r) (recs (mv_tables r))" by (intro undone_Cons [OF Cons.prems(3)])
  let ?v = "\<lparr>vs_cur = c, vs_recs = recs (mv_tables r), vs_trxes = k # ks, vs_heap = mv_heap r\<rparr>"
  have "coms ?R = coms (recs (mv_tables r))"
    using vop_coms [OF v_rollback [of k ?v]] Cons.prems(3) by (simp add: vinv_def)
  then show ?case using r1(1) r' p u by (intro exI [of _ r']) simp
qed

lemma follows_inv:
  assumes "follows a R1 L s r" "mvcc_inv s" "recs (mv_tables r) = recs (mv_tables s)"
  shows "inv0 (mv_current s) (recs (mv_tables r)) (mv_trxes r) (mv_heap r)"
  unfolding inv0_def assms(3)
proof (intro conjI ballI allI impI)
  have inv: "inv0 (mv_current s) (recs (mv_tables s)) (mv_trxes s) (mv_heap s)" using assms(2) by (simp add: mvcc_inv_def)
  show "0 \<le> mv_current s" "mv_current s < max_trx_id" using inv by (simp_all add: inv0_def)
  show "version_ok (mv_current s) rec" if "recs (mv_tables s) tid rid = Some rec" for tid rid rec using inv that by (simp add: inv0_def)
  show d: "distinct (mv_trxes r)" using assms(1) by (simp add: rsim_def distinct_map)
  fix k assume k: "k \<in> set (mv_trxes r)"
  show "trx_ok (mv_current s) (recs (mv_tables s)) (mv_heap r k)"
  proof (cases "tx_started (mv_heap r k)")
    case True
    then have "runs s (tx_id (mv_heap r k)) (tx_operations (mv_heap r k))" using assms(1) k runs_active [of r k] by (simp add: rsim_def active_def)
    then obtain h where h: "active s h" "tx_id (mv_heap s h) = tx_id (mv_heap r k)" "tx_operations (mv_heap s h) = tx_operations (mv_heap r k)"
      by (auto simp: runs_def)
    then have "trx_ok (mv_current s) (recs (mv_tables s)) (mv_heap s h)" using inv by (simp add: inv0_def active_def)
    then show ?thesis using h True by (simp add: trx_ok_def active_def)
  next
    case False
    then have "tx_operations (mv_heap r k) = []" using assms(1) k by (simp add: rsim_def)
    then show ?thesis using False by (simp add: trx_ok_def ops_distinct_def)
  qed
next
  fix k g assume "k \<in> set (mv_trxes r)" "g \<in> set (mv_trxes r)"
    "tx_started (mv_heap r k) \<and> tx_started (mv_heap r g) \<and> tx_id (mv_heap r k) = tx_id (mv_heap r g)"
  then show "k = g" using rsim_unique [OF assms(1)] by (simp add: unique_ids_def active_def)
qed

lemma follows_ops:
  assumes "follows a R1 L s r"
  shows "(\<exists>k \<in> set (mv_trxes r). ops_of K (tx_operations (mv_heap r k)) tid rid) \<longleftrightarrow> (\<exists>h. active s h \<and> ops_of K (tx_operations (mv_heap s h)) tid rid)"
proof -
  have "k \<in> set (mv_trxes r) \<and> ops_of K (tx_operations (mv_heap r k)) tid rid \<longleftrightarrow> active r k \<and> ops_of K (tx_operations (mv_heap r k)) tid rid" for k
    using assms by (auto simp: rsim_def active_def ops_of_def)
  then have "(\<exists>k \<in> set (mv_trxes r). ops_of K (tx_operations (mv_heap r k)) tid rid) \<longleftrightarrow> (\<exists>t ops. runs r t ops \<and> ops_of K ops tid rid)"
    by (auto simp: runs_def)
  also have "runs r = runs s" using assms by (simp add: rsim_def)
  also have "(\<exists>t ops. runs s t ops \<and> ops_of K ops tid rid) \<longleftrightarrow> (\<exists>h. active s h \<and> ops_of K (tx_operations (mv_heap s h)) tid rid)"
    by (auto simp: runs_def)
  finally show ?thesis .
qed

text \<open>The state of a new process after a crash: the data files hold the tables \<open>T1\<close>, and the log file is as the process left it.\<close>

definition restarted :: "(int \<rightharpoonup> Table) \<Rightarrow> Mvcc \<Rightarrow> Mvcc" where
  "restarted T1 s = s\<lparr>mv_tables := T1, mv_current := 0, mv_trxes := [],
     mv_log := \<lparr>lm_records = [], lm_total_size = 0, lm_file = (lm_file (mv_log s))\<lparr>lf_pos := 0, lf_eof := False\<rparr>\<rparr>\<rparr>"

lemma restarted_follows:
  assumes "initial s0" "tables_ok T1" "metas T1 = metas (mv_tables s0)"
  shows "follows a (recs T1) [] s0 (restarted T1 s)"
  using assms by (auto simp: rsim_def restarted_def initial_def runs_def active_def begins_def last_begun_def fun_eq_iff)

lemma restarted_log:
  assumes "log_holds (mv_log s) L" "lm_records (mv_log s) = []"
  shows "read_records (lm_file (mv_log (restarted T1 s))) = (L, RECORD_EOF)"
  by (rule read_written [where pre = "[]"]) (use assms in \<open>auto simp: log_holds_def restarted_def\<close>)

lemma redo_log_file: "redo_records fsub a L r0 = Some (SUCCESS, r) \<Longrightarrow> read_records (lm_file (mv_log r0)) = (L, RECORD_EOF) \<Longrightarrow>
    CLogManager_recover fsub a r0 = map_option (\<lambda>s. (SUCCESS, s)) (rollback_all fsub (mv_trxes r) r)"
  by (simp add: CLogManager_recover_def)

lemma row_later: "version_ok cur rec \<Longrightarrow> 0 \<le> cur \<Longrightarrow> cur < t \<Longrightarrow> t < max_trx_id \<Longrightarrow> row t rec = com_row rec"
  by (auto simp: row_def com_row_def sees_def version_ok_def)

lemma recover_ok:
  assumes "initial s0" "execution fsub s0 L s" "lm_records (mv_log s) = []" "tables_ok T1" "metas T1 = metas (mv_tables s0)"
    "\<forall>tid rid. recs T1 tid rid \<noteq> None \<longrightarrow> (tid, rid) \<in> touched L"
  shows "\<exists>r. CLogManager_recover fsub a (restarted T1 s) = Some (SUCCESS, r) \<and> mv_trxes r = [] \<and> mv_current r = last_begun L \<and>
    tables_ok (mv_tables r) \<and> inv0 (mv_current s) (recs (mv_tables r)) [] (mv_heap r) \<and> coms (recs (mv_tables r)) = coms (recs (mv_tables s)) \<and>
    (\<forall>tid rid. recs (mv_tables r) tid rid =
       (if \<exists>h. active s h \<and> ops_of OP_INSERT (tx_operations (mv_heap s h)) tid rid then None
        else if \<exists>h. active s h \<and> ops_of OP_DELETE (tx_operations (mv_heap s h)) tid rid
        then map_option (with_end max_trx_id) (recs (mv_tables s) tid rid) else recs (mv_tables s) tid rid))"
proof -
  have ok: "run_ok L s" using execution_ok [OF assms(2,1)] .
  obtain r where r: "redo_records fsub a L (restarted T1 s) = Some (SUCCESS, r)" "follows a (recs T1) L s r"
    using execution_redone [OF assms(2,1) restarted_follows [OF assms(1,4,5)]] by (auto simp: redone_def)
  have same: "recs (mv_tables r) = recs (mv_tables s)"
  proof (intro ext)
    fix tid rid
    have "recs (mv_tables r) tid rid = (if (tid, rid) \<in> touched L then recs (mv_tables s) tid rid else recs T1 tid rid)"
      using r(2) by (simp add: rsim_def)
    moreover have "recs T1 tid rid = None" if "(tid, rid) \<notin> touched L" using that assms(6) by blast
    moreover have "recs (mv_tables s) tid rid = None" if "(tid, rid) \<notin> touched L"
      using that ok_rec [OF ok, of tid rid] by (cases "recs (mv_tables s) tid rid") auto
    ultimately show "recs (mv_tables r) tid rid = recs (mv_tables s) tid rid" by simp
  qed
  have t: "tables_ok (mv_tables r)" "mv_current r = last_begun L" using r(2) by (simp_all add: rsim_def)
  obtain r' where r': "rollback_all fsub (mv_trxes r) r = Some r'" "tables_ok (mv_tables r')" "mv_trxes r' = []" "mv_current r' = mv_current r"
    "recs (mv_tables r') = undone (mv_trxes r) (mv_heap r) (recs (mv_tables r))" "coms (recs (mv_tables r')) = coms (recs (mv_tables r))"
    "inv0 (mv_current s) (recs (mv_tables r')) [] (mv_heap r')"
    using rollback_all_ok [OF t(1) refl follows_inv [OF r(2) ok_inv [OF ok] same], of fsub] by (elim exE conjE) (rule that)
  have u: "\<forall>tid rid. recs (mv_tables r') tid rid =
       (if \<exists>h. active s h \<and> ops_of OP_INSERT (tx_operations (mv_heap s h)) tid rid then None
        else if \<exists>h. active s h \<and> ops_of OP_DELETE (tx_operations (mv_heap s h)) tid rid
        then map_option (with_end max_trx_id) (recs (mv_tables s) tid rid) else recs (mv_tables s) tid rid)"
    unfolding r'(5) undone_def follows_ops [OF r(2)] same by simp
  have rec: "CLogManager_recover fsub a (restarted T1 s) = Some (SUCCESS, r')"
    using redo_log_file [OF r(1) restarted_log [OF ok_log [OF ok] assms(3)]] r'(1) by simp
  show ?thesis by (rule exI [of _ r'], intro conjI rec r'(2,3,7) u) (use r'(4,6) t(2) same in simp_all)
qed
end
