(* ===== verification/RecoveryProps.thy ===== *)
theory RecoveryProps
  imports Recovery MvccProps
begin

text \<open>
  What recovery gives, on an execution of two transactions too, and two situations in which it fails.
\<close>

section \<open>An execution\<close>

definition demo_init :: Mvcc where
  "demo_init = \<lparr>mv_tables = [1 \<mapsto> demo_table Map.empty],
     mv_log = \<lparr>lm_records = [], lm_total_size = 0, lm_file = \<lparr>lf_bytes = [], lf_pos = 0, lf_eof = False\<rparr>\<rparr>,
     mv_current = 0, mv_trxes = [], mv_heap = (\<lambda>h. demo_trx 0)\<rparr>"

lemma demo_init_ok: "initial demo_init"
  using demo_table_ok [of Map.empty] by (simp add: initial_def demo_init_def tables_ok_def recs_def demo_table_def fun_eq_iff)

lemma room_small: "run_ok L s \<Longrightarrow> sum_list (map logrec_len L) + n < CLOG_BUFFER_SIZE \<Longrightarrow> room s n"
proof -
  assume ok: "run_ok L s" and n: "sum_list (map logrec_len L) + n < CLOG_BUFFER_SIZE"
  obtain W where W: "W @ lm_records (mv_log s) = L" "lm_total_size (mv_log s) = sum_list (map logrec_len (lm_records (mv_log s)))"
    "\<forall>r \<in> set L. log_wf r" using ok_log [OF ok] by (auto simp: log_holds_def)
  then have "0 \<le> sum_list (map logrec_len W)" by (intro logrec_sum) auto
  then have "lm_total_size (mv_log s) \<le> sum_list (map logrec_len L)" using W(2) by (simp flip: W(1))
  then show ?thesis using n by (simp add: room_def)
qed

lemma demo_started:
  obtains s where "execution fsub demo_init [build_mtr_record MTR_BEGIN 1, build_mtr_record MTR_BEGIN 2] s"
    "mv_current s = 2" "mv_trxes s = [0, 1]" "mv_tables s 1 = Some (demo_table Map.empty)"
    "mv_heap s 0 = \<lparr>tx_id = 1, tx_started = True, tx_recovering = False, tx_operations = []\<rparr>"
    "mv_heap s 1 = \<lparr>tx_id = 2, tx_started = True, tx_recovering = False, tx_operations = []\<rparr>"
proof -
  let ?s0 = "create_trx 1 (create_trx 0 demo_init)"
  have e0: "execution fsub demo_init [] ?s0" by (intro ex_create ex_nil) (simp_all add: create_trx_def demo_init_def)
  have p0: "mv_current ?s0 = 0" "mv_trxes ?s0 = [0, 1]" "mv_tables ?s0 = mv_tables demo_init" "\<not> tx_started (mv_heap ?s0 0)" "\<not> tx_started (mv_heap ?s0 1)"
    "mv_heap ?s0 0 = \<lparr>tx_id = -1, tx_started = False, tx_recovering = False, tx_operations = []\<rparr>"
    "mv_heap ?s0 1 = \<lparr>tx_id = -1, tx_started = False, tx_recovering = False, tx_operations = []\<rparr>"
    by (simp_all add: create_trx_def demo_init_def)
  note ok0 = execution_ok [OF e0 demo_init_ok]
  let ?s1 = "snd (start_if_need 0 ?s0)"
  have e1: "execution fsub demo_init [build_mtr_record MTR_BEGIN 1] ?s1"
    using ex_start [OF e0, of 0] p0 room_small [OF ok0, of 0] by (simp add: max_trx_id_def CLOG_BUFFER_SIZE_def)
  have t1: "mv_tables ?s1 = mv_tables ?s0" "mv_tables (snd (start_if_need 1 ?s1)) = mv_tables ?s1"
    by (simp_all add: start_if_need_def next_trx_id_def Let_def trx_update_def split: prod.splits)
  have f1: "effect ?s0 ?s1 1 (recs (mv_tables ?s0)) ((mv_heap ?s0)(0 := (mv_heap ?s0 0)\<lparr>tx_id := 1, tx_started := True\<rparr>))"
    using start_effect(2) [OF ok_inv [OF ok0], of 0] p0 by (simp add: max_trx_id_def)
  have p1: "mv_current ?s1 = 1" "mv_trxes ?s1 = [0, 1]" "mv_heap ?s1 1 = mv_heap ?s0 1"
    "mv_heap ?s1 0 = \<lparr>tx_id = 1, tx_started = True, tx_recovering = False, tx_operations = []\<rparr>"
    using f1 p0 by (simp_all add: effect_def)
  note ok1 = execution_ok [OF e1 demo_init_ok]
  let ?s2 = "snd (start_if_need 1 ?s1)"
  have e2: "execution fsub demo_init [build_mtr_record MTR_BEGIN 1, build_mtr_record MTR_BEGIN 2] ?s2"
    using ex_start [OF e1, of 1] p1 p0 room_small [OF ok1, of 0] by (simp add: max_trx_id_def CLOG_BUFFER_SIZE_def)
  have f2: "effect ?s1 ?s2 2 (recs (mv_tables ?s1)) ((mv_heap ?s1)(1 := (mv_heap ?s1 1)\<lparr>tx_id := 2, tx_started := True\<rparr>))"
    using start_effect(2) [OF ok_inv [OF ok1], of 1] p1 p0 by (simp add: max_trx_id_def)
  show ?thesis
    by (rule that [OF e2]) (use f2 p1 p0 t1 in \<open>simp_all add: effect_def demo_init_def\<close>)
qed

text \<open>Transaction 2 inserts a row, then transaction 1 and transaction 2 commit, with the numbers 3 and 4.\<close>

definition demo_row :: "byte list" where "demo_row = replicate 19 7"

lemma demo_slots: "0 < record_slots demo_meta"
proof -
  have "(0::int) < 19" "(19::int) \<le> 2147483640" by simp_all
  from init_empty_ok [OF this, of "\<lambda>_. 0"] show ?thesis by (auto simp: record_slots_def demo_fields)
qed

lemma demo_committed:
  obtains L s where "execution fsub demo_init L s" "lm_records (mv_log s) = []" "last_begun L = 2" "mv_current s = 4" "\<forall>h. \<not> active s h"
    "map_option (\<lambda>v. (v_begin v, v_end v, v_rest v)) (recs (mv_tables s) 1 demo_rid) = Some (4, max_trx_id, replicate 11 7)"
proof -
  obtain s where s: "execution fsub demo_init [build_mtr_record MTR_BEGIN 1, build_mtr_record MTR_BEGIN 2] s"
    "mv_current s = 2" "mv_trxes s = [0, 1]" "mv_tables s 1 = Some (demo_table Map.empty)"
    "mv_heap s 0 = \<lparr>tx_id = 1, tx_started = True, tx_recovering = False, tx_operations = []\<rparr>"
    "mv_heap s 1 = \<lparr>tx_id = 2, tx_started = True, tx_recovering = False, tx_operations = []\<rparr>" by (rule demo_started)
  let ?tb = "demo_table Map.empty" and ?v = "new_version 2 (demo_table Map.empty) demo_row"
  let ?B = "[build_mtr_record MTR_BEGIN 1, build_mtr_record MTR_BEGIN 2]" and ?I = "ins_log 2 1 demo_rid (new_version 2 (demo_table Map.empty) demo_row)"
  note ok = execution_ok [OF s(1) demo_init_ok]
  have act: "active s 0" "active s 1" using s(3,5,6) by (simp_all add: active_def)
  have at: "at_table s 1 ?tb demo_row" "new_place ?tb demo_rid" "log_ids 1 demo_rid"
    using s(4) demo_slots by (simp_all add: at_table_def new_place_def demo_table_def demo_fields demo_row_def log_ids_def demo_rid_def)
  have m: "mvcc_table ?tb" by (rule demo_table_ok) simp
  have v: "v_begin ?v = -2" "v_end ?v = max_trx_id" "v_rest ?v = replicate 11 7" "8 \<le> length ?v" "length ?v = 19"
    using new_version_simps [OF m, of demo_row 2] m by (simp_all add: demo_row_def v_rest_def i32_range_def)
  obtain rc s1 where s1: "MvccTrx_insert_record fsub 1 1 (Inr demo_rid) demo_row s = Some (rc, s1)"
    "effect s s1 2 (upd_rec 1 demo_rid ?v (recs (mv_tables s))) (with_ops 1 [ins_op 1 demo_rid] (mv_heap s))"
    using insert_effect [OF inv_facts(4) [OF ok_inv [OF ok] act(1)] at(1), of fsub 1 demo_rid] s(2,6) by (auto simp: ops_insert_def)
  have e1: "execution fsub demo_init (?B @ [?I]) s1"
    using ex_insert [OF s(1) act(2) at room_small [OF ok] s1(1)] s(6) by (simp add: demo_row_def CLOG_BUFFER_SIZE_def)
  note ok1 = execution_ok [OF e1 demo_init_ok]
  have p1: "mv_current s1 = 2" "active s1 0" "active s1 1" "tx_id (mv_heap s1 0) = 1" "tx_operations (mv_heap s1 0) = []" "mv_heap s1 1 = (mv_heap s 1)\<lparr>tx_operations := [ins_op 1 demo_rid]\<rparr>"
    "mv_trxes s1 = [0, 1]" "recs (mv_tables s1) 1 demo_rid = Some ?v"
    using s1(2) s(3,5,6) by (simp_all add: effect_def active_def with_ops_def upd_rec_apply)
  let ?s2 = "snd (MvccTrx_commit 0 s1)"
  have sz: "sum_list (map logrec_len (?B @ [?I])) = 43" using v(5) by simp
  have cur1: "mv_current s1 + 1 < max_trx_id" using p1(1) by (simp add: max_trx_id_def)
  have e2: "execution fsub demo_init ((?B @ [?I]) @ [build_commit_record 1 3]) ?s2"
    using ex_commit [OF e1 p1(2) cur1 room_small [OF ok1]] p1(1,4) sz by (simp add: CLOG_BUFFER_SIZE_def)
  note ok2 = execution_ok [OF e2 demo_init_ok]
  have c2: "effect s1 ?s2 3 (\<lambda>tid rid. map_option (commit_version 3 [] tid rid) (recs (mv_tables s1) tid rid))
    ((mv_heap s1)(0 := (mv_heap s1 0)\<lparr>tx_started := False, tx_operations := []\<rparr>))"
    using commit_effect [OF ok_inv [OF ok1] _ cur1, of 0] p1 by simp
  have p2: "mv_current ?s2 = 3" "active ?s2 1" "mv_trxes ?s2 = [0, 1]" "mv_heap ?s2 1 = mv_heap s1 1" "\<not> tx_started (mv_heap ?s2 0)"
    "recs (mv_tables ?s2) 1 demo_rid = Some ?v"
    using c2 p1 s(6) by (simp_all add: effect_def active_def commit_version_def ops_of_def)
  let ?s3 = "snd (MvccTrx_commit 1 ?s2)"
  let ?L = "((?B @ [?I]) @ [build_commit_record 1 3]) @ [build_commit_record 2 4]"
  have cur2: "mv_current ?s2 + 1 < max_trx_id" using p2(1) by (simp add: max_trx_id_def)
  have r2: "room ?s2 4" by (rule room_small [OF ok2]) (use v(5) in \<open>simp add: CLOG_BUFFER_SIZE_def\<close>)
  have e3: "execution fsub demo_init ?L ?s3"
    using ex_commit [OF e2 p2(2) cur2 r2] p2(1,4) p1(6) s(6) by simp
  have c3: "effect ?s2 ?s3 4 (\<lambda>tid rid. map_option (commit_version 4 [ins_op 1 demo_rid] tid rid) (recs (mv_tables ?s2) tid rid))
    ((mv_heap ?s2)(1 := (mv_heap ?s2 1)\<lparr>tx_started := False, tx_operations := []\<rparr>))"
    using commit_effect [OF ok_inv [OF ok2] _ cur2, of 1] p2 p1(6) by simp
  have p3: "mv_current ?s3 = 4" "\<forall>h. \<not> active ?s3 h"
    using c3 p2(3,5) by (auto simp: effect_def active_def)
  have "recs (mv_tables ?s3) 1 demo_rid = Some (with_begin 4 ?v)"
    using c3 p2(6) by (simp add: effect_def commit_version_def ops_of_def)
  then have "map_option (\<lambda>v. (v_begin v, v_end v, v_rest v)) (recs (mv_tables ?s3) 1 demo_rid) = Some (4, max_trx_id, replicate 11 7)"
    using v by simp
  moreover have "last_begun ?L = 2" by (simp add: last_begun_def)
  ultimately show ?thesis using that [OF e3 commit_ok(2) [OF ok2 p2(2) cur2 r2]] p3 by blast
qed


section \<open>Recovery\<close>


lemma demo_restart:
  assumes "execution fsub demo_init L s"
  shows "tables_ok (mv_tables demo_init)" "\<forall>tid rid. recs (mv_tables demo_init) tid rid \<noteq> None \<longrightarrow> (tid, rid) \<in> touched L"
  using demo_init_ok by (simp_all add: initial_def)


text \<open>C26: Recovery sets the transaction counter from the numbers of the transactions in the log and not from their commit numbers. A row that
  was committed with a larger number is there after recovery, but the next transaction does not see it.\<close>

theorem recovered_rows_invisible:
  assumes "initial s0" "execution fsub s0 L s" "lm_records (mv_log s) = []" "tables_ok T1" "metas T1 = metas (mv_tables s0)"
    "\<forall>tid rid. recs T1 tid rid \<noteq> None \<longrightarrow> (tid, rid) \<in> touched L" "mv_current s + 1 < max_trx_id"
    "\<forall>h. \<not> active s h" "recs (mv_tables s) tid rid = Some rec" "v_end rec = max_trx_id" "last_begun L + 1 < v_begin rec" "0 \<le> last_begun L"
  shows "committed s tid rid = Some (v_rest rec) \<and>
    (\<exists>r. CLogManager_recover fsub a (restarted T1 s) = Some (SUCCESS, r) \<and> recs (mv_tables r) tid rid = Some rec \<and>
       visible_rows (snd (start_if_need h (create_trx h r))) h tid rid = None)"
proof -
  have inv: "mvcc_inv s" using ok_inv [OF execution_ok [OF assms(2,1)]] .
  obtain r where r: "CLogManager_recover fsub a (restarted T1 s) = Some (SUCCESS, r)" "mv_current r = last_begun L" "tables_ok (mv_tables r)"
    "recs (mv_tables r) tid rid = Some rec"
    using recover_ok [OF assms(1-6), of a] assms(8,9) by auto
  let ?s = "snd (start_if_need h (create_trx h r))"
  have "version_ok (mv_current s) rec" using inv assms(9) by (simp add: mvcc_inv_def inv0_def)
  then have bound: "v_begin rec \<le> mv_current s" using assms(11,12) by (auto simp: version_ok_def)
  then have w: "wrap_i32 (last_begun L + 1) = last_begun L + 1"
    using assms(7,11,12) by (intro wrap_i32_id) (simp add: i32_range_def max_trx_id_def)
  have "mv_tables ?s = mv_tables r" "tx_id (mv_heap ?s h) = last_begun L + 1"
    using w r(2) by (simp_all add: start_if_need_def create_trx_def next_trx_id_def Let_def trx_update_def split: prod.splits)
  then have "visible_rows ?s h tid rid = row (last_begun L + 1) rec" using r(3,4) by (simp add: visible_rows_def rows_row)
  also have "row (last_begun L + 1) rec = None" using assms(10-12) by (simp add: row_def sees_def max_trx_id_def)
  finally have "visible_rows ?s h tid rid = None" .
  moreover have "committed s tid rid = Some (v_rest rec)"
    using assms(9-12) by (simp add: committed_coms [OF inv assms(7)] coms_def com_row_def)
  ultimately show ?thesis using r(1,4) by blast
qed

theorem recovered_rows_invisible_witness:
  "\<exists>L s r. execution (\<lambda>_ _. 0) demo_init L s \<and> committed s 1 demo_rid = Some (replicate 11 7) \<and>
     CLogManager_recover (\<lambda>_ _. 0) 0 (restarted (mv_tables demo_init) s) = Some (SUCCESS, r) \<and>
     visible_rows (snd (start_if_need 7 (create_trx 7 r))) 7 1 demo_rid = None"
proof -
  obtain L s where s: "execution (\<lambda>_ _. 0) demo_init L s" "lm_records (mv_log s) = []" "last_begun L = 2" "mv_current s = 4" "\<forall>h. \<not> active s h"
    "map_option (\<lambda>v. (v_begin v, v_end v, v_rest v)) (recs (mv_tables s) 1 demo_rid) = Some (4, max_trx_id, replicate 11 7)" by (rule demo_committed)
  then obtain rec where rec: "recs (mv_tables s) 1 demo_rid = Some rec" "v_end rec = max_trx_id" "v_begin rec = 4" "v_rest rec = replicate 11 7" by auto
  have n: "mv_current s + 1 < max_trx_id" "last_begun L + 1 < v_begin rec" "0 \<le> last_begun L" using s(3,4) rec(3) by (simp_all add: max_trx_id_def)
  from recovered_rows_invisible [OF demo_init_ok s(1,2) demo_restart(1) [OF s(1)] refl demo_restart(2) [OF s(1)] n(1) s(5) rec(1,2) n(2,3), of 0 7]
  obtain r where "committed s 1 demo_rid = Some (replicate 11 7)" "CLogManager_recover (\<lambda>_ _. 0) 0 (restarted (mv_tables demo_init) s) = Some (SUCCESS, r)"
    "visible_rows (snd (start_if_need 7 (create_trx 7 r))) 7 1 demo_rid = None" using rec(4) by auto
  then show ?thesis using s(1) by blast
qed

text \<open>A commit in a session that has done nothing yet, in which the transaction object never started, writes a log record of a transaction
  that no other record of the log mentions; every recovery from this log fails.\<close>

lemma unstarted_commit_breaks_recovery:
  assumes "initial s0" "execution fsub s0 L s" "h \<notin> set (mv_trxes s)" "mv_current s + 1 < max_trx_id" "room s 4"
    "tables_ok T1" "metas T1 = metas (mv_tables s0)"
  shows "\<exists>r. CLogManager_recover fsub a (restarted T1 (snd (MvccTrx_commit h (create_trx h s)))) = Some (INTERNAL, r)"
proof -
  let ?c = "create_trx h s" and ?L = "L @ [build_commit_record (-1) (mv_current s + 1)]"
  have e: "execution fsub s0 L ?c" using assms(2,3) by (rule ex_create)
  note ok = execution_ok [OF e assms(1)]
  have p: "mv_current ?c = mv_current s" "h \<in> set (mv_trxes ?c)" "tx_id (mv_heap ?c h) = -1" "\<not> tx_recovering (mv_heap ?c h)" "mv_log ?c = mv_log s"
    by (simp_all add: create_trx_def)
  have l: "mv_log (snd (MvccTrx_commit h ?c)) = snd (commit_trx (-1) (mv_current s + 1) (mv_log ?c))"
    using commit_logs [OF ok_inv [OF ok] p(2)] p assms(4) by simp
  have "i32_range (mv_current s + 1)" using ok_inv [OF ok] assms(4) p(1) by (simp add: mvcc_inv_def inv0_def i32_range_def max_trx_id_def)
  note c = commit_holds [OF ok_log [OF ok] _ this, of "-1"]
  have lg: "log_holds (mv_log (snd (MvccTrx_commit h ?c))) ?L" "lm_records (mv_log (snd (MvccTrx_commit h ?c))) = []"
    using c assms(5) p(5) unfolding l by (simp_all add: room_def)
  let ?r0 = "restarted T1 (snd (MvccTrx_commit h ?c))"
  obtain r where r: "redo_records fsub a L ?r0 = Some (SUCCESS, r)" "follows a (recs T1) L s r"
    using execution_redone [OF assms(2,1) restarted_follows [OF assms(1,6,7)]] by (auto simp: redone_def)
  have "find_trx (-1) r = None" using r(2) by (fastforce simp: find_trx_def find_None_iff rsim_def)
  then have "redo_records fsub (a + begins L) [build_commit_record (-1) (mv_current s + 1)] r = Some (INTERNAL, r)" by simp
  then have "redo_records fsub a ?L ?r0 = Some (INTERNAL, r)" using redo_append [OF r(1)] by simp
  then show ?thesis using restarted_log [OF lg] by (simp add: CLogManager_recover_def)
qed

lemma unstarted_commit_breaks_recovery_witness:
  "\<exists>r. CLogManager_recover (\<lambda>_ _. 0) 0 (restarted (mv_tables demo_init) (snd (MvccTrx_commit 3 (create_trx 3 demo_init)))) = Some (INTERNAL, r)"
  by (rule unstarted_commit_breaks_recovery [OF demo_init_ok ex_nil])
    (use demo_init_ok in \<open>simp_all add: initial_def room_def CLOG_BUFFER_SIZE_def max_trx_id_def\<close>)

end
