(* ===== verification/Expression.thy ===== *)
theory Expression
  imports RecordLayout
begin

text \<open>
  \<^verbatim>\<open>sql/expr\<close>: tuples (\<^verbatim>\<open>tuple.h\<close>, \<^verbatim>\<open>tuple_cell.h\<close>) and the expressions that are evaluated on them
  (\<^verbatim>\<open>expression.h\<close>, \<^verbatim>\<open>expression.cpp\<close>).

  \<^item> A function of the code that fills a reference parameter takes the old value of the parameter and
    returns the new one with the return code. The result \<open>None\<close> stands for undefined behaviour: a null
    pointer is dereferenced, the front of an empty vector is read, an object is cast to a class it is
    not of.
  \<^item> Subqueries, which are value lists that a plan of its own fills (\<^verbatim>\<open>sub_query_expr.cpp\<close>), and the
    tuples of \<^verbatim>\<open>CALC\<close> are left out.
  \<^item> What the evaluation needs of its surroundings is the record \<open>EvalEnv\<close>: the fields of the transaction
    manager, the arithmetic of floats, regular expressions, and the content of uninitialised variables.
\<close>

section \<open>Aggregates and cell specifications\<close>

datatype AggreType = AGGRE_NONE | AGGRE_MAX | AGGRE_MIN | AGGRE_COUNT | AGGRE_COUNT_ALL | AGGRE_AVG | AGGRE_SUM

record AggreExpression =
  ae_type :: AggreType
  ae_table :: string
  ae_field :: FieldMeta

record TupleCellSpec =
  cs_table_name :: string
  cs_field_name :: string
  cs_aggre_type :: AggreType

text \<open>The constructor without an aggregate leaves \<open>aggre_type_\<close> uninitialised: the argument \<open>junk\<close>.\<close>

definition TupleCellSpec_init :: "AggreType \<Rightarrow> string \<Rightarrow> string \<Rightarrow> TupleCellSpec" where
  "TupleCellSpec_init junk table_name field_name =
     \<lparr>cs_table_name = table_name, cs_field_name = field_name, cs_aggre_type = junk\<rparr>"

definition spec_is_aggre :: "TupleCellSpec \<Rightarrow> AggreExpression \<Rightarrow> bool" where
  "spec_is_aggre spec e =
     (if ae_table e \<noteq> cs_table_name spec then False
      else if fm_name (ae_field e) \<noteq> cs_field_name spec then False
      else if ae_type e \<noteq> cs_aggre_type spec then False
      else True)"


section \<open>The surroundings of an evaluation\<close>

text \<open>The operations on single precision floats that only expressions use.\<close>

record FloatArith =
  fa_sub :: "byte list \<Rightarrow> byte list \<Rightarrow> byte list"
  fa_mul :: "byte list \<Rightarrow> byte list \<Rightarrow> byte list"
  fa_div :: "byte list \<Rightarrow> byte list \<Rightarrow> byte list"
  fa_neg :: "byte list \<Rightarrow> byte list"
  fa_max :: "byte list" \<comment> \<open>\<^verbatim>\<open>numeric_limits<float>::max()\<close>\<close>
  fa_near_zero :: "byte list \<Rightarrow> bool" \<comment> \<open>between \<open>-EPSILON\<close> and \<open>EPSILON\<close>\<close>
  fa_mean :: "int \<Rightarrow> int \<Rightarrow> byte list" \<comment> \<open>the quotient of two integers, by way of \<^verbatim>\<open>double\<close>\<close>

record EvalEnv =
  ee_trx :: "FieldMeta list option"
  ee_fo :: FloatOps
  ee_fa :: FloatArith
  ee_regex :: "byte list \<Rightarrow> byte list \<Rightarrow> bool"
  ee_junk_num :: "byte list"
  ee_junk_date :: "int \<times> int \<times> int"
  ee_junk_aggre :: AggreType

text \<open>\<^verbatim>\<open>Value::Value()\<close>, which leaves the number uninitialised.\<close>

definition Value_init :: "EvalEnv \<Rightarrow> Value" where
  "Value_init env = set_null \<lparr>attr_type = UNDEFINED, v_length = 0, num_value = ee_junk_num env, str_value = []\<rparr>"


section \<open>Tuples\<close>

datatype Tuple =
    RowTuple TableMeta "byte list"
  | ProjectTuple "TupleCellSpec option list" "Tuple option" \<comment> \<open>null pointers for what is no field and no aggregate\<close>
  | JoinedTuple Tuple Tuple
  | CompoundTuple Tuple Tuple
  | ValueListTuple "Value list"
  | AggregationTuple "AggreExpression list" "Value list" "Tuple option"

fun cell_num :: "Tuple \<Rightarrow> nat option" where
  "cell_num (RowTuple tm rec) = Some (length (tm_fields tm))"
| "cell_num (ProjectTuple speces tuple) = Some (length speces)"
| "cell_num (JoinedTuple left right) =
     (case (cell_num left, cell_num right) of (Some m, Some n) \<Rightarrow> Some (m + n) | _ \<Rightarrow> None)"
| "cell_num (CompoundTuple left right) =
     (case (cell_num left, cell_num right) of (Some m, Some n) \<Rightarrow> Some (m + n) | _ \<Rightarrow> None)"
| "cell_num (ValueListTuple cells) = Some (length cells)"
| "cell_num (AggregationTuple exprs results (Some tuple)) = cell_num tuple"
| "cell_num (AggregationTuple exprs results None) = None"

definition field_pos :: "TableMeta \<Rightarrow> string \<Rightarrow> nat" where
  "field_pos tm name = length (takeWhile (\<lambda>f. fm_name f \<noteq> name) (tm_fields tm))"

fun find_aggre :: "TupleCellSpec \<Rightarrow> AggreExpression list \<Rightarrow> Value list \<Rightarrow> Value option" where
  "find_aggre spec (e # es) (r # rs) = (if spec_is_aggre spec e then Some r else find_aggre spec es rs)"
| "find_aggre spec _ _ = None"

fun find_cell :: "EvalEnv \<Rightarrow> Tuple \<Rightarrow> TupleCellSpec \<Rightarrow> Value \<Rightarrow> (RC \<times> Value) option" where
  "find_cell env (RowTuple tm rec) spec cell =
     (if cs_table_name spec \<noteq> tm_name tm then Some (NOTFOUND, cell)
      else if field_pos tm (cs_field_name spec) < length (tm_fields tm)
      then Some (cell_at (ee_trx env) tm rec (int (field_pos tm (cs_field_name spec))) cell)
      else Some (NOTFOUND, cell))"
| "find_cell env (ProjectTuple speces (Some tuple)) spec cell = find_cell env tuple spec cell"
| "find_cell env (ProjectTuple speces None) spec cell = None"
| "find_cell env (JoinedTuple left right) spec cell =
     (case find_cell env left spec cell of
        None \<Rightarrow> None
      | Some (rc, cell) \<Rightarrow> if rc = SUCCESS \<or> rc \<noteq> NOTFOUND then Some (rc, cell) else find_cell env right spec cell)"
| "find_cell env (CompoundTuple left right) spec cell =
     (case find_cell env left spec cell of
        None \<Rightarrow> None
      | Some (rc, cell) \<Rightarrow> if rc = SUCCESS then Some (rc, cell) else find_cell env right spec cell)"
| "find_cell env (ValueListTuple cells) spec cell = Some (INTERNAL, cell)"
| "find_cell env (AggregationTuple exprs results tuple) spec cell =
     (if AGGRE_NONE \<noteq> cs_aggre_type spec
      then (case find_aggre spec exprs results of Some r \<Rightarrow> Some (SUCCESS, r) | None \<Rightarrow> Some (NOTFOUND, cell))
      else Some (NOTFOUND, cell))"

fun tuple_cell_at :: "EvalEnv \<Rightarrow> Tuple \<Rightarrow> int \<Rightarrow> Value \<Rightarrow> (RC \<times> Value) option" where
  "tuple_cell_at env (RowTuple tm rec) index cell = Some (cell_at (ee_trx env) tm rec index cell)"
| "tuple_cell_at env (ProjectTuple speces tuple) index cell =
     (if index < 0 \<or> index \<ge> int (length speces) then Some (INTERNAL, cell)
      else
        case tuple of
          None \<Rightarrow> Some (INTERNAL, cell)
        | Some tuple \<Rightarrow> (case speces ! nat index of None \<Rightarrow> None | Some spec \<Rightarrow> find_cell env tuple spec cell))"
| "tuple_cell_at env (JoinedTuple left right) index cell =
     (case (cell_num left, cell_num right) of
        (Some m, Some n) \<Rightarrow>
          if 0 \<le> index \<and> index < int m then tuple_cell_at env left index cell
          else if index \<ge> int m \<and> index < int m + int n then tuple_cell_at env right (index - int m) cell
          else Some (NOTFOUND, cell)
      | _ \<Rightarrow> None)"
| "tuple_cell_at env (CompoundTuple left right) index cell =
     (case cell_num left of
        Some m \<Rightarrow>
          if index < int m then tuple_cell_at env left index cell
          else tuple_cell_at env right (index - int m) cell
      | None \<Rightarrow> None)"
| "tuple_cell_at env (ValueListTuple cells) index cell =
     (if index < 0 \<or> index \<ge> int (length cells) then Some (NOTFOUND, cell) else Some (SUCCESS, cells ! nat index))"
| "tuple_cell_at env (AggregationTuple exprs results (Some tuple)) index cell = tuple_cell_at env tuple index cell"
| "tuple_cell_at env (AggregationTuple exprs results None) index cell = Some (EMPTY, cell)"


section \<open>Expressions\<close>

datatype ConjunctionType = CONJ_AND | CONJ_OR

datatype ArithmeticType = ADD | SUB | MUL | DIV | NEGATIVE

datatype Expression =
    FieldExpr string FieldMeta
  | ValueExpr Value
  | CastExpr Expression AttrType
  | ComparisonExpr CompOp Expression Expression
  | ConjunctionExpr ConjunctionType "Expression list"
  | ArithmeticExpr ArithmeticType Expression "Expression option"
  | ValueListExpr "Value list"
  | InExpr Expression CompOp Expression
  | ExistsExpr CompOp Expression
  | AggreExpr AggreExpression

datatype ExprType =
    ET_NONE | ET_STAR | ET_FIELD | ET_VALUE | ET_CAST | ET_COMPARISON | ET_CONJUNCTION | ET_ARITHMETIC
  | ET_IN | ET_EXISTS | ET_VALUELIST | ET_SUBQUERY | ET_AGGREGATION

fun expr_type :: "Expression \<Rightarrow> ExprType" where
  "expr_type (FieldExpr _ _) = ET_FIELD"
| "expr_type (ValueExpr _) = ET_VALUE"
| "expr_type (CastExpr _ _) = ET_CAST"
| "expr_type (ComparisonExpr _ _ _) = ET_COMPARISON"
| "expr_type (ConjunctionExpr _ _) = ET_CONJUNCTION"
| "expr_type (ArithmeticExpr _ _ _) = ET_ARITHMETIC"
| "expr_type (ValueListExpr _) = ET_VALUELIST"
| "expr_type (InExpr _ _ _) = ET_IN"
| "expr_type (ExistsExpr _ _) = ET_EXISTS"
| "expr_type (AggreExpr _) = ET_AGGREGATION"

definition aggre_value_type :: "AggreExpression \<Rightarrow> AttrType" where
  "aggre_value_type e =
     (case ae_type e of
        AGGRE_MAX \<Rightarrow> fm_type (ae_field e)
      | AGGRE_MIN \<Rightarrow> fm_type (ae_field e)
      | AGGRE_SUM \<Rightarrow> fm_type (ae_field e)
      | AGGRE_AVG \<Rightarrow> FLOATS
      | AGGRE_COUNT \<Rightarrow> INTS
      | AGGRE_COUNT_ALL \<Rightarrow> INTS
      | AGGRE_NONE \<Rightarrow> UNDEFINED)"

text \<open>\<^verbatim>\<open>ArithmeticExpr::value_type\<close>, given the types of the operands.\<close>

definition arith_value_type :: "ArithmeticType \<Rightarrow> AttrType \<Rightarrow> AttrType option \<Rightarrow> AttrType" where
  "arith_value_type arithmetic_type left right =
     (case right of
        None \<Rightarrow> left
      | Some right \<Rightarrow> if left = INTS \<and> right = INTS \<and> arithmetic_type \<noteq> DIV then INTS else FLOATS)"

fun value_type :: "Expression \<Rightarrow> AttrType option" where
  "value_type (FieldExpr table f) = Some (fm_type f)"
| "value_type (ValueExpr v) = Some (attr_type v)"
| "value_type (CastExpr child cast_type) = Some cast_type"
| "value_type (ComparisonExpr comp_op left right) = Some BOOLEANS"
| "value_type (ConjunctionExpr type children) = Some BOOLEANS"
| "value_type (ArithmeticExpr type left None) = map_option (\<lambda>l. arith_value_type type l None) (value_type left)"
| "value_type (ArithmeticExpr type left (Some right)) =
     (case (value_type left, value_type right) of
        (Some l, Some r) \<Rightarrow> Some (arith_value_type type l (Some r))
      | _ \<Rightarrow> None)"
| "value_type (ValueListExpr value_list) = (case value_list of [] \<Rightarrow> None | v # _ \<Rightarrow> Some (attr_type v))"
| "value_type (InExpr left comp_op right) = Some BOOLEANS"
| "value_type (ExistsExpr comp_op right) = Some BOOLEANS"
| "value_type (AggreExpr e) = Some (aggre_value_type e)"

definition expr_cast :: "EvalEnv \<Rightarrow> AttrType \<Rightarrow> Value \<Rightarrow> RC \<times> Value" where
  "expr_cast env cast_type value =
     (if cast_type = attr_type value then (SUCCESS, value)
      else if cast_type = BOOLEANS then (SUCCESS, set_boolean (get_boolean (ee_fo env) value) value)
      else (INTERNAL, value))"

text \<open>
  \<open>compare\<close> may convert one of the compared values in place (a string compared with a date becomes a date), through a
  \<^verbatim>\<open>const_cast\<close>. Only the answer is kept here: the operands of a comparison are copies of cells or constants of the plan, and
  a constant that has been converted gives the same answers afterwards.
\<close>

definition compare_result :: "EvalEnv \<Rightarrow> CompOp \<Rightarrow> Value \<Rightarrow> Value \<Rightarrow> bool" where
  "compare_result env comp_op left right =
     fst (compare (ee_fo env) (ee_regex env) (ee_junk_num env) (ee_junk_date env) comp_op left right)"

definition calc_value ::
  "EvalEnv \<Rightarrow> ArithmeticType \<Rightarrow> AttrType \<Rightarrow> Value \<Rightarrow> Value \<Rightarrow> Value \<Rightarrow> RC \<times> Value" where
  "calc_value env arithmetic_type target_type left_value right_value value =
     (let fo = ee_fo env; fa = ee_fa env;
          li = get_int fo left_value; ri = get_int fo right_value;
          lf = get_float fo left_value; rf = get_float fo right_value in
      case arithmetic_type of
        ADD \<Rightarrow> (SUCCESS, if target_type = INTS then set_int (li + ri) value else set_float (fo_add fo lf rf) value)
      | SUB \<Rightarrow> (SUCCESS, if target_type = INTS then set_int (li - ri) value else set_float (fa_sub fa lf rf) value)
      | MUL \<Rightarrow> (SUCCESS, if target_type = INTS then set_int (li * ri) value else set_float (fa_mul fa lf rf) value)
      | DIV \<Rightarrow>
          (SUCCESS,
           if target_type = INTS
           then if ri = 0 then set_int 2147483647 value else set_int (li sdiv ri) value
           else if fa_near_zero fa rf then set_float (fa_max fa) value else set_float (fa_div fa lf rf) value)
      | NEGATIVE \<Rightarrow> (SUCCESS, if target_type = INTS then set_int (- li) value else set_float (fa_neg fa lf) value))"

definition value_list_value :: "EvalEnv \<Rightarrow> Value list \<Rightarrow> Value \<Rightarrow> RC \<times> Value" where
  "value_list_value env value_list value =
     (if value_list = [] then (SUCCESS, Value_init env)
      else if length value_list = 1 then (SUCCESS, hd value_list)
      else (INTERNAL, value))"

definition value_list_contains :: "EvalEnv \<Rightarrow> Value list \<Rightarrow> Value \<Rightarrow> bool" where
  "value_list_contains env value_list value \<longleftrightarrow> (\<exists>v \<in> set value_list. value_eq (ee_fo env) v value)"

definition exists_value :: "CompOp \<Rightarrow> Value list \<Rightarrow> Value \<Rightarrow> Value" where
  "exists_value comp_op value_list value = set_boolean ((value_list \<noteq> []) \<noteq> (comp_op = NOT_EXISTS)) value"

text \<open>
  \<open>get_value\<close> of all classes. \<open>conj_loop\<close> is the loop of \<open>ConjunctionExpr\<close>, with the variable \<open>tmp_value\<close>
  that all children share.
\<close>

fun get_value :: "EvalEnv \<Rightarrow> Tuple \<Rightarrow> Expression \<Rightarrow> Value \<Rightarrow> (RC \<times> Value) option"
and conj_loop :: "EvalEnv \<Rightarrow> Tuple \<Rightarrow> ConjunctionType \<Rightarrow> Expression list \<Rightarrow> Value \<Rightarrow> Value \<Rightarrow> (RC \<times> Value) option" where
  "get_value env tuple (FieldExpr table f) value =
     find_cell env tuple (TupleCellSpec_init (ee_junk_aggre env) table (fm_name f)) value"
| "get_value env tuple (ValueExpr v) value = Some (SUCCESS, v)"
| "get_value env tuple (CastExpr child cast_type) cell =
     (case get_value env tuple child cell of
        None \<Rightarrow> None
      | Some (rc, cell) \<Rightarrow> if rc \<noteq> SUCCESS then Some (rc, cell) else Some (expr_cast env cast_type cell))"
| "get_value env tuple (ComparisonExpr comp_op left right) value =
     (case get_value env tuple left (Value_init env) of
        None \<Rightarrow> None
      | Some (rc, left_value) \<Rightarrow>
          if rc \<noteq> SUCCESS then Some (rc, value)
          else
            (case get_value env tuple right (Value_init env) of
               None \<Rightarrow> None
             | Some (rc, right_value) \<Rightarrow>
                 if rc \<noteq> SUCCESS then Some (rc, value)
                 else Some (SUCCESS, set_boolean (compare_result env comp_op left_value right_value) value)))"
| "get_value env tuple (ConjunctionExpr type children) value =
     (if children = [] then Some (SUCCESS, set_boolean True value)
      else conj_loop env tuple type children (Value_init env) value)"
| "get_value env tuple (ArithmeticExpr type left right) value =
     (case get_value env tuple left (Value_init env) of
        None \<Rightarrow> None
      | Some (rc, left_value) \<Rightarrow>
          if rc \<noteq> SUCCESS then Some (rc, value)
          else
            (case right of
               None \<Rightarrow> None
             | Some right \<Rightarrow>
                 (case get_value env tuple right (Value_init env) of
                    None \<Rightarrow> None
                  | Some (rc, right_value) \<Rightarrow>
                      if rc \<noteq> SUCCESS then Some (rc, value)
                      else
                        (case value_type (ArithmeticExpr type left (Some right)) of
                           None \<Rightarrow> None
                         | Some target_type \<Rightarrow> Some (calc_value env type target_type left_value right_value value)))))"
| "get_value env tuple (ValueListExpr value_list) value = Some (value_list_value env value_list value)"
| "get_value env tuple (InExpr left comp_op right) value =
     (case get_value env tuple left (Value_init env) of
        None \<Rightarrow> None
      | Some (rc, left_value) \<Rightarrow>
          if rc \<noteq> SUCCESS then Some (rc, value)
          else
            (case right of
               ValueListExpr value_list \<Rightarrow>
                 Some (rc, set_boolean (value_list_contains env value_list left_value \<noteq> (comp_op = NOT_IN)) value)
             | _ \<Rightarrow> None))"
| "get_value env tuple (ExistsExpr comp_op right) value =
     (case right of ValueListExpr value_list \<Rightarrow> Some (SUCCESS, exists_value comp_op value_list value) | _ \<Rightarrow> None)"
| "get_value env tuple (AggreExpr e) value =
     find_cell env tuple
       \<lparr>cs_table_name = ae_table e, cs_field_name = fm_name (ae_field e), cs_aggre_type = ae_type e\<rparr> value"
| "conj_loop env tuple type [] tmp_value value = Some (SUCCESS, set_boolean (type = CONJ_AND) value)"
| "conj_loop env tuple type (expr # children) tmp_value value =
     (case get_value env tuple expr tmp_value of
        None \<Rightarrow> None
      | Some (rc, tmp_value) \<Rightarrow>
          if rc \<noteq> SUCCESS then Some (rc, value)
          else
            let bool_value = get_boolean (ee_fo env) tmp_value in
            if type = CONJ_AND \<and> \<not> bool_value \<or> type = CONJ_OR \<and> bool_value
            then Some (rc, set_boolean bool_value value)
            else conj_loop env tuple type children tmp_value value)"

fun try_get_value :: "EvalEnv \<Rightarrow> Expression \<Rightarrow> Value \<Rightarrow> (RC \<times> Value) option" where
  "try_get_value env (ValueExpr v) value = Some (SUCCESS, v)"
| "try_get_value env (CastExpr child cast_type) value =
     (case try_get_value env child value of
        None \<Rightarrow> None
      | Some (rc, value) \<Rightarrow> if rc \<noteq> SUCCESS then Some (rc, value) else Some (expr_cast env cast_type value))"
| "try_get_value env (ComparisonExpr comp_op left right) cell =
     (case (left, right) of
        (ValueExpr left_cell, ValueExpr right_cell) \<Rightarrow>
          Some (SUCCESS, set_boolean (compare_result env comp_op left_cell right_cell) cell)
      | _ \<Rightarrow> Some (INVALID_ARGUMENT, cell))"
| "try_get_value env (ArithmeticExpr type left right) value =
     (case try_get_value env left (Value_init env) of
        None \<Rightarrow> None
      | Some (rc, left_value) \<Rightarrow>
          if rc \<noteq> SUCCESS then Some (rc, value)
          else
            (case (case right of None \<Rightarrow> Some (SUCCESS, Value_init env)
                             | Some right \<Rightarrow> try_get_value env right (Value_init env)) of
               None \<Rightarrow> None
             | Some (rc, right_value) \<Rightarrow>
                 if rc \<noteq> SUCCESS then Some (rc, value)
                 else
                   (case value_type (ArithmeticExpr type left right) of
                      None \<Rightarrow> None
                    | Some target_type \<Rightarrow> Some (calc_value env type target_type left_value right_value value))))"
| "try_get_value env (ValueListExpr value_list) value = Some (value_list_value env value_list value)"
| "try_get_value env (ExistsExpr comp_op right) value =
     (case right of ValueListExpr value_list \<Rightarrow> Some (SUCCESS, exists_value comp_op value_list value) | _ \<Rightarrow> None)"
| "try_get_value env (FieldExpr table f) value = Some (UNIMPLENMENT, value)"
| "try_get_value env (ConjunctionExpr type children) value = Some (UNIMPLENMENT, value)"
| "try_get_value env (InExpr left comp_op right) value = Some (UNIMPLENMENT, value)"
| "try_get_value env (AggreExpr e) value = Some (UNIMPLENMENT, value)"



section \<open>Which expressions a tuple can answer\<close>

text \<open>The field that \<open>find_cell\<close> finds for a table and a name.\<close>

fun lookup_field :: "Tuple \<Rightarrow> string \<Rightarrow> string \<Rightarrow> FieldMeta option" where
  "lookup_field (RowTuple tm rec) table name = (if table = tm_name tm then find_field tm name else None)"
| "lookup_field (ProjectTuple speces (Some tuple)) table name = lookup_field tuple table name"
| "lookup_field (JoinedTuple left right) table name =
     (case lookup_field left table name of Some f \<Rightarrow> Some f | None \<Rightarrow> lookup_field right table name)"
| "lookup_field (CompoundTuple left right) table name =
     (case lookup_field left table name of Some f \<Rightarrow> Some f | None \<Rightarrow> lookup_field right table name)"
| "lookup_field _ table name = None"

text \<open>Tuples made of rows.\<close>

fun of_rows :: "Tuple \<Rightarrow> bool" where
  "of_rows (RowTuple tm rec) \<longleftrightarrow> True"
| "of_rows (ProjectTuple speces (Some tuple)) \<longleftrightarrow> of_rows tuple"
| "of_rows (JoinedTuple left right) \<longleftrightarrow> of_rows left \<and> of_rows right"
| "of_rows (CompoundTuple left right) \<longleftrightarrow> of_rows left \<and> of_rows right"
| "of_rows _ \<longleftrightarrow> False"

text \<open>
  Every field of the expression is one of the tuple, and no operand is missing. This leaves out every negation, an arithmetic expression
  without a right operand, for which \<open>get_value\<close> follows the null pointer \<open>right_\<close> (\<^verbatim>\<open>expression.cpp:427\<close>); and aggregates, which are
  computed by another operator and have no value of their own. The right side of \<open>IN\<close> and \<open>EXISTS\<close> is a list of values.
\<close>

fun evaluable :: "Tuple \<Rightarrow> Expression \<Rightarrow> bool" where
  "evaluable t (FieldExpr table f) \<longleftrightarrow> lookup_field t table (fm_name f) = Some f"
| "evaluable t (ValueExpr v) \<longleftrightarrow> True"
| "evaluable t (CastExpr child cast_type) \<longleftrightarrow> evaluable t child"
| "evaluable t (ComparisonExpr comp_op left right) \<longleftrightarrow> evaluable t left \<and> evaluable t right"
| "evaluable t (ConjunctionExpr type children) \<longleftrightarrow> (\<forall>c \<in> set children. evaluable t c)"
| "evaluable t (ArithmeticExpr type left (Some right)) \<longleftrightarrow>
     evaluable t left \<and> evaluable t right \<and> value_type left \<noteq> None \<and> value_type right \<noteq> None"
| "evaluable t (ArithmeticExpr type left None) \<longleftrightarrow> False"
| "evaluable t (ValueListExpr value_list) \<longleftrightarrow> True"
| "evaluable t (InExpr left comp_op right) \<longleftrightarrow> evaluable t left \<and> expr_type right = ET_VALUELIST"
| "evaluable t (ExistsExpr comp_op right) \<longleftrightarrow> expr_type right = ET_VALUELIST"
| "evaluable t (AggreExpr e) \<longleftrightarrow> False"

lemma expr_type_valuelist [simp]: "expr_type e = ET_VALUELIST \<longleftrightarrow> (\<exists>vs. e = ValueListExpr vs)"
  by (cases e) simp_all

lemma expr_type_simps [simp]:
  "expr_type e = ET_FIELD \<longleftrightarrow> (\<exists>table f. e = FieldExpr table f)"
  "expr_type e = ET_VALUE \<longleftrightarrow> (\<exists>v. e = ValueExpr v)"
  "expr_type e = ET_CONJUNCTION \<longleftrightarrow> (\<exists>type cs. e = ConjunctionExpr type cs)"
  "expr_type e = ET_COMPARISON \<longleftrightarrow> (\<exists>comp_op l r. e = ComparisonExpr comp_op l r)"
  by (cases e; simp)+

lemma attr_type_setters [simp]:
  "attr_type (set_boolean b v) = BOOLEANS" "attr_type (set_int i v) = INTS" "attr_type (set_float x v) = FLOATS"
  "attr_type (set_type ty v) = ty"
  by (simp_all add: set_boolean_def set_int_def set_float_def set_type_def)

lemma attr_type_value_set_data [simp]: "attr_type (value_set_data dat len v) = attr_type v"
  by (cases "attr_type v") (simp_all add: value_set_data_def set_text_def set_string_def set_date_def)

lemma get_boolean_set [simp]: "num_value v \<noteq> [] \<Longrightarrow> get_boolean fo (set_boolean b v) = b"
  by (cases "num_value v") (simp_all add: get_boolean_def set_boolean_def)

lemma field_pos_find:
  "find_field tm name = Some f \<Longrightarrow> field_pos tm name < length (tm_fields tm) \<and> tm_fields tm ! field_pos tm name = f"
  "find_field tm name = None \<Longrightarrow> \<not> field_pos tm name < length (tm_fields tm)"
proof -
  have "(case find (\<lambda>f. fm_name f = name) fs of
      Some f \<Rightarrow> length (takeWhile (\<lambda>f. fm_name f \<noteq> name) fs) < length fs \<and> fs ! length (takeWhile (\<lambda>f. fm_name f \<noteq> name) fs) = f
    | None \<Rightarrow> \<not> length (takeWhile (\<lambda>f. fm_name f \<noteq> name) fs) < length fs)" for fs
    by (induction fs) (auto split: option.splits)
  from this [of "tm_fields tm"]
  show "find_field tm name = Some f \<Longrightarrow> field_pos tm name < length (tm_fields tm) \<and> tm_fields tm ! field_pos tm name = f"
    and "find_field tm name = None \<Longrightarrow> \<not> field_pos tm name < length (tm_fields tm)"
    by (simp_all add: find_field_def field_pos_def)
qed

lemma cell_at_typed:
  assumes "i < length (tm_fields tm)"
  shows "\<exists>c. cell_at trx tm rec (int i) cell = (SUCCESS, c) \<and> (attr_type c = fm_type (tm_fields tm ! i) \<or> is_null c)"
  using assms by (simp add: cell_at_def Let_def is_null_def)

lemma fst_cell_at: "i < length (tm_fields tm) \<Longrightarrow> fst (cell_at trx tm rec (int i) cell) = SUCCESS"
  by (simp add: cell_at_def Let_def)

lemma find_cell_missing:
  "of_rows t \<Longrightarrow> lookup_field t (cs_table_name spec) (cs_field_name spec) = None \<Longrightarrow>
     find_cell env t spec cell = Some (NOTFOUND, cell)"
proof (induction t arbitrary: cell rule: of_rows.induct)
  case (1 tm rec)
  then show ?case using field_pos_find(2) [of tm "cs_field_name spec"] by (cases "cs_table_name spec = tm_name tm") simp_all
qed (simp_all split: option.splits)

text \<open>Where the tuple finds a cell, whatever the variable holds that it is copied to.\<close>

lemma find_cell_row:
  "of_rows t \<Longrightarrow> lookup_field t (cs_table_name spec) (cs_field_name spec) = Some f \<Longrightarrow>
     \<exists>tm rec i. i < length (tm_fields tm) \<and> tm_fields tm ! i = f \<and>
       (\<forall>cell. find_cell env t spec cell = Some (SUCCESS, snd (cell_at (ee_trx env) tm rec (int i) cell)))"
proof (induction t rule: of_rows.induct)
  case (1 tm rec)
  then have f: "find_field tm (cs_field_name spec) = Some f" and t: "cs_table_name spec = tm_name tm" by (simp_all split: if_splits)
  show ?case using field_pos_find(1) [OF f] t by (intro exI [of _ tm] exI [of _ rec]) (auto simp: prod_eq_iff fst_cell_at)
next
  case (3 left right)
  show ?case
  proof (cases "lookup_field left (cs_table_name spec) (cs_field_name spec)")
    case None
    then show ?thesis using 3 by (simp add: find_cell_missing)
  next
    case (Some g)
    then show ?thesis using 3(1) 3(3,4) by fastforce
  qed
next
  case (4 left right)
  show ?case
  proof (cases "lookup_field left (cs_table_name spec) (cs_field_name spec)")
    case None
    then show ?thesis using 4 by (simp add: find_cell_missing)
  next
    case (Some g)
    then show ?thesis using 4(1) 4(3,4) by fastforce
  qed
qed simp_all

lemma find_cell_found:
  assumes "of_rows t" "lookup_field t (cs_table_name spec) (cs_field_name spec) = Some f"
  shows "\<exists>c. find_cell env t spec cell = Some (SUCCESS, c) \<and> (attr_type c = fm_type f \<or> is_null c)"
proof -
  obtain tm rec i where r: "i < length (tm_fields tm)" "tm_fields tm ! i = f"
    "find_cell env t spec cell = Some (SUCCESS, snd (cell_at (ee_trx env) tm rec (int i) cell))"
    using find_cell_row [OF assms] by blast
  show ?thesis using cell_at_typed [OF r(1), of "ee_trx env" rec cell] r(2,3) by auto
qed


section \<open>Evaluation\<close>

definition has_type :: "AttrType option \<Rightarrow> Value \<Rightarrow> bool" where
  "has_type ty v \<longleftrightarrow> ty = None \<or> ty = Some (attr_type v) \<or> is_null v"

definition evaluates :: "AttrType option \<Rightarrow> (RC \<times> Value) option \<Rightarrow> bool" where
  "evaluates ty r \<longleftrightarrow> (\<exists>rc v. r = Some (rc, v) \<and> rc \<in> {SUCCESS, INTERNAL} \<and> (rc = SUCCESS \<longrightarrow> has_type ty v))"

lemma evaluates_simps [simp]:
  "\<not> evaluates ty None"
  "evaluates ty (Some (rc, v)) \<longleftrightarrow> rc = SUCCESS \<and> has_type ty v \<or> rc = INTERNAL"
  by (auto simp: evaluates_def)

lemma evaluatesE:
  assumes "evaluates ty r"
  obtains v where "r = Some (SUCCESS, v)" "has_type ty v" | v where "r = Some (INTERNAL, v)"
  using assms by (auto simp: evaluates_def)

lemma has_type_boolean [simp]: "has_type (Some BOOLEANS) (set_boolean b v)"
  by (simp add: has_type_def)

lemma cast_evaluates: "evaluates (Some cast_type) (Some (expr_cast env cast_type v))"
  by (simp add: expr_cast_def has_type_def)

lemma calc_evaluates: "evaluates (Some (arith_value_type type l (Some r))) (Some (calc_value env type (arith_value_type type l (Some r)) lv rv v))"
  by (cases type) (simp_all add: calc_value_def arith_value_type_def has_type_def Let_def)

lemma value_list_evaluates: "evaluates (value_type (ValueListExpr vs)) (Some (value_list_value env vs v))"
  by (cases vs) (simp_all add: value_list_value_def has_type_def)

lemma get_value_evaluates:
  "of_rows t \<Longrightarrow> evaluable t e \<Longrightarrow> evaluates (value_type e) (get_value env t e v)"
  "of_rows t \<Longrightarrow> \<forall>c \<in> set cs. evaluable t c \<Longrightarrow> evaluates (Some BOOLEANS) (conj_loop env t type cs tmp v)"
proof (induction env t e v and env t type cs tmp v rule: get_value_conj_loop.induct)
  case (1 env tuple table f v)
  then show ?case using find_cell_found [of tuple "TupleCellSpec_init (ee_junk_aggre env) table (fm_name f)" f env v]
    by (auto simp: TupleCellSpec_init_def has_type_def)
next
  case (3 env tuple child cast_type cell)
  then have "evaluates (value_type child) (get_value env tuple child cell)" by simp
  then show ?case by (cases rule: evaluatesE) (simp_all add: cast_evaluates)
next
  case (4 env tuple comp_op left right v)
  then have l: "evaluates (value_type left) (get_value env tuple left (Value_init env))" by simp
  show ?case using l
  proof (cases rule: evaluatesE)
    case (1 lv)
    then have "evaluates (value_type right) (get_value env tuple right (Value_init env))" using 4 by simp
    then show ?thesis using 1 by (cases rule: evaluatesE) simp_all
  qed simp
next
  case (6 env tuple type left right v)
  obtain r where r: "right = Some r" using 6(4) by (cases right) simp_all
  have l: "evaluates (value_type left) (get_value env tuple left (Value_init env))" using 6 r by simp
  obtain tl tr where ty: "value_type left = Some tl" "value_type r = Some tr" using 6(4) r by auto
  show ?case using l
  proof (cases rule: evaluatesE)
    case (1 lv)
    then have "evaluates (value_type r) (get_value env tuple r (Value_init env))" using 6 r by simp
    then show ?thesis using 1 r ty calc_evaluates by (cases rule: evaluatesE) simp_all
  qed (simp add: r)
next
  case (7 env tuple vs v)
  show ?case using value_list_evaluates by (simp only: get_value.simps)
next
  case (8 env tuple left comp_op right v)
  then have "evaluates (value_type left) (get_value env tuple left (Value_init env))" by simp
  then show ?case using 8(3) by (cases rule: evaluatesE) auto
next
  case (12 env tuple type expr children tmp v)
  then have "evaluates (value_type expr) (get_value env tuple expr tmp)" by simp
  then show ?case
  proof (cases rule: evaluatesE)
    case (1 w)
    then show ?thesis using 12(2) [OF 1(1) refl] 12(3,4) by (simp add: Let_def)
  qed simp
qed (auto simp: has_type_def exists_value_def)


definition demo_env :: EvalEnv where
  "demo_env = \<lparr>ee_trx = Some mvcc_fields, ee_fo = no_floats,
     ee_fa = \<lparr>fa_sub = \<lambda>a _. a, fa_mul = \<lambda>a _. a, fa_div = \<lambda>a _. a, fa_neg = \<lambda>a. a, fa_max = [0, 0, 0, 0],
       fa_near_zero = \<lambda>_. False, fa_mean = \<lambda>_ _. [0, 0, 0, 0]\<rparr>,
     ee_regex = \<lambda>_ _. False, ee_junk_num = [0, 0, 0, 0], ee_junk_date = (0, 0, 0), ee_junk_aggre = AGGRE_NONE\<rparr>"

definition demo_field :: FieldMeta where
  "demo_field = tm_fields demo_meta ! 3"

lemma demo_field_found: "find_field demo_meta (fm_name demo_field) = Some demo_field" "tm_name demo_meta = ''t''" "fm_type demo_field = INTS"
  by (simp_all add: demo_field_def find_field_def demo_meta_def TableMeta_init_def demo_attrs_def FieldMeta_init_def is_blank_def
      Let_def mvcc_fields_def null_field_len_def sys_field_num_def wrap_i32_def)


text \<open>A value that is known without a tuple is the value on every tuple.\<close>

lemma try_get_value_sound:
  "evaluable t e \<Longrightarrow> try_get_value env e v = Some (SUCCESS, w) \<Longrightarrow> get_value env t e v = Some (SUCCESS, w)"
proof (induction env e v arbitrary: w rule: try_get_value.induct)
  case (2 env child cast_type v)
  then show ?case by (auto split: option.splits if_splits)
next
  case (3 env comp_op left right v)
  then show ?case by (cases left; cases right) simp_all
next
  case (4 env type left right v)
  obtain r where r: "right = Some r" using 4(3) by (cases right) simp_all
  obtain lv where l: "try_get_value env left (Value_init env) = Some (SUCCESS, lv)"
    using 4(4) r by (auto split: option.splits if_splits)
  obtain rv where rr: "try_get_value env r (Value_init env) = Some (SUCCESS, rv)"
    using 4(4) r l by (auto split: option.splits if_splits)
  show ?case using 4 l rr r by simp
qed (auto split: option.splits)

end
