(* ===== verification/Aggregation.thy ===== *)
theory Aggregation
  imports Expression
begin

text \<open>
  The tuple of the aggregation operator (\<^verbatim>\<open>AggregationTuple\<close> in \<^verbatim>\<open>sql/expr/tuple.h\<close> and \<^verbatim>\<open>tuple.cpp\<close>): it takes
  one row after the other and keeps, for every aggregate, the number of values that are not null and
  the result so far. Unused members (\<open>field_exprs_\<close>, \<open>field_results_\<close>) are left out.
\<close>

section \<open>The tuple\<close>

record AggreColumn =
  ac_all_null :: bool
  ac_count :: int
  ac_result :: Value

record AggreState =
  ag_exprs :: "AggreExpression list"
  ag_count :: int
  ag_columns :: "AggreColumn list"
  ag_tuple :: "Tuple option"

definition is_count :: "AggreType \<Rightarrow> bool" where
  "is_count type \<longleftrightarrow> type = AGGRE_COUNT_ALL \<or> type = AGGRE_COUNT"

definition fresh_column :: "EvalEnv \<Rightarrow> AggreExpression \<Rightarrow> AggreColumn" where
  "fresh_column env e =
     \<lparr>ac_all_null = False, ac_count = 0,
      ac_result = if is_count (ae_type e) then set_int 0 (Value_init env) else Value_init env\<rparr>"

definition AggregationTuple_init :: "EvalEnv \<Rightarrow> AggreExpression list \<Rightarrow> AggreState" where
  "AggregationTuple_init env exprs =
     \<lparr>ag_exprs = exprs, ag_count = 0, ag_columns = map (fresh_column env) exprs, ag_tuple = None\<rparr>"

definition AggregationTuple_reinit :: "EvalEnv \<Rightarrow> AggreState \<Rightarrow> AggreState" where
  "AggregationTuple_reinit env s = s\<lparr>ag_count := 0, ag_columns := map (fresh_column env) (ag_exprs s)\<rparr>"

definition do_aggregation_begin :: "AggreState \<Rightarrow> AggreState" where
  "do_aggregation_begin s =
     s\<lparr>ag_count := 0, ag_columns := map (\<lambda>c. c\<lparr>ac_all_null := True, ac_count := 0\<rparr>) (ag_columns s)\<rparr>"

text \<open>The body of the loop of \<open>do_aggregation\<close> for a column, with the current value.\<close>

definition aggregate_value :: "EvalEnv \<Rightarrow> AggreType \<Rightarrow> Value \<Rightarrow> AggreColumn \<Rightarrow> AggreColumn" where
  "aggregate_value env type cur_value c =
     (if is_null cur_value then c
      else
        let c = c\<lparr>ac_count := ac_count c + 1\<rparr> in
        if is_count type then c
        else
          let c = c\<lparr>ac_all_null := False\<rparr>;
              res = (if is_null (ac_result c)
                     then if type = AGGRE_AVG \<or> type = AGGRE_SUM
                          then if attr_type cur_value = INTS then set_int 0 (Value_init env)
                               else set_float (fo_of_int (ee_fo env) 0) (Value_init env)
                          else cur_value
                     else ac_result c)
          in c\<lparr>ac_result :=
               (case type of
                  AGGRE_MAX \<Rightarrow> if value_lt (ee_fo env) res cur_value then cur_value else res
                | AGGRE_MIN \<Rightarrow> if value_lt (ee_fo env) cur_value res then cur_value else res
                | AGGRE_AVG \<Rightarrow> value_plus (ee_fo env) (Value_init env) res cur_value
                | AGGRE_SUM \<Rightarrow> value_plus (ee_fo env) (Value_init env) res cur_value
                | _ \<Rightarrow> res)\<rparr>)"

text \<open>
  The loop over the columns. The columns share the variable \<open>cur_value\<close>, and the return code of
  \<open>get_value\<close> is not looked at.
\<close>

fun aggregate_columns ::
  "EvalEnv \<Rightarrow> Tuple \<Rightarrow> Value \<Rightarrow> AggreExpression list \<Rightarrow> AggreColumn list \<Rightarrow> AggreColumn list option" where
  "aggregate_columns env t cur_value (e # es) (c # cs) =
     (case get_value env t (AggreExpr e) cur_value of
        None \<Rightarrow> None
      | Some (rc, cur_value) \<Rightarrow>
          map_option ((#) (aggregate_value env (ae_type e) cur_value c)) (aggregate_columns env t cur_value es cs))"
| "aggregate_columns env t cur_value _ cs = Some cs"

definition do_aggregation :: "EvalEnv \<Rightarrow> AggreState \<Rightarrow> AggreState option" where
  "do_aggregation env s =
     (case ag_tuple s of
        None \<Rightarrow> if ag_exprs s = [] then Some (s\<lparr>ag_count := ag_count s + 1\<rparr>) else None
      | Some t \<Rightarrow>
          map_option (\<lambda>cs. s\<lparr>ag_count := ag_count s + 1, ag_columns := cs\<rparr>)
            (aggregate_columns env t (Value_init env) (ag_exprs s) (ag_columns s)))"

definition finish_column :: "EvalEnv \<Rightarrow> int \<Rightarrow> AggreType \<Rightarrow> AggreColumn \<Rightarrow> AggreColumn" where
  "finish_column env count type c =
     (let fo = ee_fo env; fa = ee_fa env; res = ac_result c in
      c\<lparr>ac_result :=
        (if ac_all_null c \<and> \<not> is_count type then set_null res
         else
           case type of
             AGGRE_COUNT \<Rightarrow> set_int (ac_count c) res
           | AGGRE_COUNT_ALL \<Rightarrow> set_int count res
           | AGGRE_AVG \<Rightarrow>
               let tot = ac_count c in
               if attr_type res = INTS
               then let val = get_int fo res in
                    if val smod tot = 0 then set_int (val sdiv tot) res else set_float (fa_mean fa val tot) res
               else set_float (fa_div fa (get_float fo res) (fo_of_int fo tot)) res
           | _ \<Rightarrow> res)\<rparr>)"

definition do_aggregation_end :: "EvalEnv \<Rightarrow> AggreState \<Rightarrow> AggreState" where
  "do_aggregation_end env s =
     s\<lparr>ag_columns := map2 (\<lambda>e c. finish_column env (ag_count s) (ae_type e) c) (ag_exprs s) (ag_columns s)\<rparr>"

text \<open>The tuple as others see it.\<close>

definition aggre_view :: "AggreState \<Rightarrow> Tuple" where
  "aggre_view s = AggregationTuple (ag_exprs s) (map ac_result (ag_columns s)) (ag_tuple s)"


section \<open>All rows\<close>

text \<open>The aggregation of a list of rows, as the operator performs it.\<close>

fun aggregate_all :: "EvalEnv \<Rightarrow> Tuple list \<Rightarrow> AggreState \<Rightarrow> AggreState option" where
  "aggregate_all env [] s = Some s"
| "aggregate_all env (t # ts) s =
     Option.bind (do_aggregation env (s\<lparr>ag_tuple := Some t\<rparr>)) (aggregate_all env ts)"

definition aggregate_rows :: "EvalEnv \<Rightarrow> AggreExpression list \<Rightarrow> Tuple list \<Rightarrow> AggreState option" where
  "aggregate_rows env exprs ts =
     (if ts = [] then Some (AggregationTuple_init env exprs)
      else map_option (do_aggregation_end env)
        (aggregate_all env ts (do_aggregation_begin (AggregationTuple_init env exprs))))"



section \<open>Aggregates of integers\<close>

definition int_value :: "int \<Rightarrow> Value \<Rightarrow> bool" where
  "int_value x v \<longleftrightarrow> attr_type v = INTS \<and> bytes_i32 (num_value v) = x"

text \<open>The integer in the column of an aggregate, \<open>None\<close> for null.\<close>

definition cell_int :: "EvalEnv \<Rightarrow> AggreExpression \<Rightarrow> Tuple \<Rightarrow> int option" where
  "cell_int env e t =
     (case get_value env t (AggreExpr e) (Value_init env) of
        Some (rc, v) \<Rightarrow> if is_null v then None else Some (bytes_i32 (num_value v))
      | None \<Rightarrow> None)"

definition column_ints :: "EvalEnv \<Rightarrow> AggreExpression \<Rightarrow> Tuple list \<Rightarrow> int list" where
  "column_ints env e ts = List.map_filter (cell_int env e) ts"

definition int_column :: "AggreExpression \<Rightarrow> Tuple \<Rightarrow> bool" where
  "int_column e t \<longleftrightarrow> of_rows t \<and> lookup_field t (ae_table e) (fm_name (ae_field e)) = Some (ae_field e) \<and> fm_type (ae_field e) = INTS"

text \<open>The result of an aggregate other than the counts, for the integers of its column.\<close>

fun int_aggregate :: "AggreType \<Rightarrow> int list \<Rightarrow> int" where
  "int_aggregate AGGRE_MAX xs = Max (set xs)"
| "int_aggregate AGGRE_MIN xs = Min (set xs)"
| "int_aggregate _ xs = wrap_i32 (sum_list xs)"

lemma i32_bytes_wrap: "i32_bytes (wrap_i32 v) = i32_bytes v"
proof -
  define q where "q = (v + 2147483648) div 4294967296"
  have w: "wrap_i32 v = v + (- q) * 4294967296" unfolding wrap_i32_def q_def by (simp add: minus_div_mult_eq_mod [symmetric])
  have "(v + (- q) * 4294967296) div 256 ^ k = v div 256 ^ k + (- q) * 256 ^ (4 - k)" if "k \<le> 3" for k :: nat
  proof -
    have "(4294967296 :: int) = 256 ^ (4 - k) * 256 ^ k" using that by (simp flip: power_add)
    then have "v + (- q) * 4294967296 = v + ((- q) * 256 ^ (4 - k)) * 256 ^ k" by (simp add: mult.assoc)
    then show ?thesis by (simp only: div_mult_self1 [OF power_not_zero])
  qed
  from this [of 0] this [of 1] this [of 2] this [of 3]
  have d: "(v + (- q) * 4294967296) div 256 ^ 0 = v + (- q * 16777216) * 256"
    "(v + (- q) * 4294967296) div 256 ^ 1 = v div 256 + (- q * 65536) * 256"
    "(v + (- q) * 4294967296) div 256 ^ 2 = v div 65536 + (- q * 256) * 256"
    "(v + (- q) * 4294967296) div 256 ^ 3 = v div 16777216 + (- q) * 256" by simp_all
  have m: "word_of_int (a + k * 256) = (word_of_int a :: byte)" for a k
    unfolding word_of_int_eq_iff take_bit_eq_mod by simp
  show ?thesis unfolding w i32_bytes_def list.map d m by simp
qed

lemma bytes_i32_wrap: "bytes_i32 (i32_bytes v) = wrap_i32 v"
proof -
  have "i32_range (wrap_i32 v)" by (simp add: i32_range_def wrap_i32_def)
  from bytes_i32_i32_bytes [OF this, of "[]"] show ?thesis by (simp add: i32_bytes_wrap)
qed

lemma wrap_i32_bytes [simp]: "wrap_i32 (bytes_i32 bs) = bytes_i32 bs"
  unfolding bytes_i32_def by (metis bytes_i32_def bytes_i32_wrap bytes_i32_i32_bytes append_Nil2 load_i32_range)

lemma int_value_set [simp]: "int_value x (set_int y v) \<longleftrightarrow> wrap_i32 y = x"
  by (simp add: int_value_def set_int_def bytes_i32_wrap)

text \<open>One more integer in a column.\<close>

definition column_inv :: "AggreType \<Rightarrow> int list \<Rightarrow> AggreColumn \<Rightarrow> bool" where
  "column_inv type xs c \<longleftrightarrow>
     ac_count c = int (length xs) \<and>
     (\<not> is_count type \<longrightarrow> (ac_all_null c \<longleftrightarrow> xs = []) \<and>
        (if xs = [] then is_null (ac_result c) else int_value (int_aggregate type xs) (ac_result c)))"

lemma int_aggregate_snoc:
  "int_aggregate AGGRE_MAX (xs @ [x]) = (if xs = [] then x else max (int_aggregate AGGRE_MAX xs) x)"
  "int_aggregate AGGRE_MIN (xs @ [x]) = (if xs = [] then x else min (int_aggregate AGGRE_MIN xs) x)"
  by (simp_all add: max.commute min.commute)

lemma value_lt_ints: "int_value x v \<Longrightarrow> int_value y w \<Longrightarrow> value_lt fo v w \<longleftrightarrow> x < y"
  by (auto simp: value_lt_def compare_value_def int_value_def same_type_compare_def compare_int_def is_null_def Let_def)

lemma value_plus_ints: "int_value x v \<Longrightarrow> int_value y w \<Longrightarrow> int_value (wrap_i32 (x + y)) (value_plus fo f v w)"
  by (simp add: value_plus_def int_value_def is_null_def get_int_def set_int_def bytes_i32_wrap)

lemma aggregate_value_inv:
  assumes "column_inv type xs c" "int_value x v" "type \<noteq> AGGRE_NONE"
  shows "column_inv type (xs @ [x]) (aggregate_value env type v c)"
proof -
  have n: "\<not> is_null v" "attr_type v = INTS" using assms(2) by (simp_all add: int_value_def is_null_def)
  have r: "int_value y w \<Longrightarrow> \<not> is_null w" for y w by (simp add: int_value_def is_null_def)
  have x: "wrap_i32 x = x" using assms(2) by (auto simp: int_value_def)
  have old: "\<not> is_null (ac_result c)" if "xs \<noteq> []" "\<not> is_count type" using assms(1) that r by (auto simp: column_inv_def)
  show ?thesis
  proof (cases type)
    case AGGRE_MAX
    then show ?thesis using assms n r value_lt_ints [OF _ assms(2)]
      by (cases "xs = []") (auto simp: column_inv_def aggregate_value_def is_count_def Let_def int_aggregate_snoc simp del: int_aggregate.simps, simp)
  next
    case AGGRE_MIN
    then show ?thesis using assms n r value_lt_ints [OF assms(2)]
      by (cases "xs = []") (auto simp: column_inv_def aggregate_value_def is_count_def Let_def int_aggregate_snoc simp del: int_aggregate.simps, simp)
  next
    case AGGRE_AVG
    have "int_value (int_aggregate type (xs @ [x])) (value_plus (ee_fo env) (Value_init env) w v)"
      if "int_value (int_aggregate type xs) w" for w
      using value_plus_ints [OF that assms(2)] AGGRE_AVG by (simp add: wrap_i32_add)
    moreover have "int_value (int_aggregate type []) (set_int 0 (Value_init env))" using AGGRE_AVG by simp
    ultimately show ?thesis using assms n old AGGRE_AVG
      by (cases "xs = []") (simp_all add: column_inv_def aggregate_value_def is_count_def Let_def)
  next
    case AGGRE_SUM
    have "int_value (int_aggregate type (xs @ [x])) (value_plus (ee_fo env) (Value_init env) w v)"
      if "int_value (int_aggregate type xs) w" for w
      using value_plus_ints [OF that assms(2)] AGGRE_SUM by (simp add: wrap_i32_add)
    moreover have "int_value (int_aggregate type []) (set_int 0 (Value_init env))" using AGGRE_SUM by simp
    ultimately show ?thesis using assms n old AGGRE_SUM
      by (cases "xs = []") (simp_all add: column_inv_def aggregate_value_def is_count_def Let_def)
  qed (use assms n in \<open>simp_all add: column_inv_def aggregate_value_def is_count_def Let_def\<close>)
qed


lemma find_cell_of_rows: "of_rows t \<Longrightarrow> \<exists>rc v. find_cell env t spec cell = Some (rc, v)"
  by (cases "lookup_field t (cs_table_name spec) (cs_field_name spec)")
    (auto simp: find_cell_missing dest: find_cell_found [of _ _ _ env cell])

lemma aggregate_columns_nth:
  "of_rows t \<Longrightarrow> length cs = length es \<Longrightarrow>
     \<exists>cs'. aggregate_columns env t cur es cs = Some cs' \<and> length cs' = length es \<and>
       (\<forall>i < length es. \<exists>cur rc v. get_value env t (AggreExpr (es ! i)) cur = Some (rc, v) \<and>
          cs' ! i = aggregate_value env (ae_type (es ! i)) v (cs ! i))"
proof (induction env t cur es cs rule: aggregate_columns.induct)
  case (1 env t cur e es c cs)
  obtain rc v where v: "get_value env t (AggreExpr e) cur = Some (rc, v)"
    unfolding get_value.simps using find_cell_of_rows [OF 1(2)] by blast
  obtain cs' where cs: "aggregate_columns env t v es cs = Some cs'" "length cs' = length es"
    "\<forall>i < length es. \<exists>cur rc v. get_value env t (AggreExpr (es ! i)) cur = Some (rc, v) \<and>
          cs' ! i = aggregate_value env (ae_type (es ! i)) v (cs ! i)"
    using 1(1) [OF v refl 1(2)] 1(3) by auto
  show ?case
  proof (intro exI [of _ "aggregate_value env (ae_type e) v c # cs'"] conjI allI impI)
    fix i assume "i < length (e # es)"
    then show "\<exists>cur rc w. get_value env t (AggreExpr ((e # es) ! i)) cur = Some (rc, w) \<and>
        (aggregate_value env (ae_type e) v c # cs') ! i = aggregate_value env (ae_type ((e # es) ! i)) w ((c # cs) ! i)"
      using v cs(3) by (cases i) (auto simp del: get_value.simps)
  qed (use v cs in \<open>simp_all del: get_value.simps\<close>)
qed simp_all

lemma cell_int_value:
  assumes "int_column e t" "get_value env t (AggreExpr e) cur = Some (rc, v)"
  shows "case cell_int env e t of None \<Rightarrow> is_null v | Some x \<Rightarrow> int_value x v"
proof -
  let ?spec = "\<lparr>cs_table_name = ae_table e, cs_field_name = fm_name (ae_field e), cs_aggre_type = ae_type e\<rparr>"
  obtain tm rec i where r: "i < length (tm_fields tm)" "tm_fields tm ! i = ae_field e"
    "\<And>cell. find_cell env t ?spec cell = Some (SUCCESS, snd (cell_at (ee_trx env) tm rec (int i) cell))"
    using find_cell_row [of t ?spec "ae_field e" env] assms(1) by (auto simp: int_column_def)
  show ?thesis using assms r
    by (auto simp: cell_int_def cell_at_def int_column_def is_null_def value_set_data_def set_type_def int_value_def Let_def)
qed

lemma aggregate_value_step:
  assumes "column_inv type xs c" "int_column e t" "get_value env t (AggreExpr e) cur = Some (rc, v)" "type \<noteq> AGGRE_NONE"
  shows "column_inv type (xs @ column_ints env e [t]) (aggregate_value env type v c)"
  using cell_int_value [OF assms(2,3)] aggregate_value_inv [OF assms(1) _ assms(4)] assms(1)
  by (cases "cell_int env e t") (simp_all add: column_ints_def List.map_filter_simps aggregate_value_def)

lemma column_ints_Cons: "column_ints env e (t # ts) = column_ints env e [t] @ column_ints env e ts"
  by (simp add: column_ints_def List.map_filter_simps split: option.splits)

lemma aggregate_all_inv:
  assumes "i < length (ag_exprs s)" "length (ag_columns s) = length (ag_exprs s)" "ae_type (ag_exprs s ! i) \<noteq> AGGRE_NONE"
    "column_inv (ae_type (ag_exprs s ! i)) xs (ag_columns s ! i)" "\<forall>t \<in> set ts. int_column (ag_exprs s ! i) t"
  shows "\<exists>s'. aggregate_all env ts s = Some s' \<and> ag_exprs s' = ag_exprs s \<and> length (ag_columns s') = length (ag_exprs s) \<and>
     ag_count s' = ag_count s + int (length ts) \<and>
     column_inv (ae_type (ag_exprs s ! i)) (xs @ column_ints env (ag_exprs s ! i) ts) (ag_columns s' ! i)"
  using assms
proof (induction ts arbitrary: s xs)
  case Nil
  then show ?case by (simp add: column_ints_def List.map_filter_simps)
next
  case (Cons t ts)
  let ?e = "ag_exprs s ! i"
  have t: "int_column ?e t" "of_rows t" using Cons(6) by (auto simp: int_column_def)
  obtain cs where cs: "aggregate_columns env t (Value_init env) (ag_exprs s) (ag_columns s) = Some cs" "length cs = length (ag_exprs s)"
    "\<exists>cur rc v. get_value env t (AggreExpr ?e) cur = Some (rc, v) \<and> cs ! i = aggregate_value env (ae_type ?e) v (ag_columns s ! i)"
    using aggregate_columns_nth [OF t(2) Cons(3), of env "Value_init env"] Cons(2) by blast
  define s1 where "s1 = s\<lparr>ag_tuple := Some t, ag_count := ag_count s + 1, ag_columns := cs\<rparr>"
  have "column_inv (ae_type ?e) (xs @ column_ints env ?e [t]) (cs ! i)" using cs(3) aggregate_value_step [OF Cons(5) t(1) _ Cons(4)] by auto
  then obtain s' where "aggregate_all env ts s1 = Some s'" "ag_exprs s' = ag_exprs s1" "length (ag_columns s') = length (ag_exprs s1)"
    "ag_count s' = ag_count s1 + int (length ts)"
    "column_inv (ae_type ?e) ((xs @ column_ints env ?e [t]) @ column_ints env ?e ts) (ag_columns s' ! i)"
    using Cons(1) [of s1 "xs @ column_ints env ?e [t]"] Cons(2-) cs by (auto simp: s1_def)
  moreover have "do_aggregation env (s\<lparr>ag_tuple := Some t\<rparr>) = Some s1" using cs by (simp add: do_aggregation_def s1_def)
  ultimately show ?case unfolding column_ints_Cons [of env ?e t ts] by (simp add: s1_def)
qed

text \<open>
  C36: The aggregates over integer columns are what SQL says: the number of rows, the number of values
  that are not null, their sum (modulo the width of an integer), maximum and minimum, and null for the
  last three when there is no value.
\<close>

theorem aggregate_ints:
  assumes "ts \<noteq> []" "i < length exprs" "ae_type (exprs ! i) \<noteq> AGGRE_NONE" "\<forall>t \<in> set ts. int_column (exprs ! i) t"
  shows "\<exists>s. aggregate_rows env exprs ts = Some s \<and>
     (let xs = column_ints env (exprs ! i) ts; res = ac_result (ag_columns s ! i) in
      case ae_type (exprs ! i) of
        AGGRE_COUNT_ALL \<Rightarrow> int_value (wrap_i32 (int (length ts))) res
      | AGGRE_COUNT \<Rightarrow> int_value (wrap_i32 (int (length xs))) res
      | AGGRE_SUM \<Rightarrow> if xs = [] then is_null res else int_value (wrap_i32 (sum_list xs)) res
      | AGGRE_MAX \<Rightarrow> if xs = [] then is_null res else int_value (Max (set xs)) res
      | AGGRE_MIN \<Rightarrow> if xs = [] then is_null res else int_value (Min (set xs)) res
      | _ \<Rightarrow> if xs = [] then is_null res else attr_type res \<in> {INTS, FLOATS})"
proof -
  let ?s = "do_aggregation_begin (AggregationTuple_init env exprs)"
  have s: "ag_exprs ?s = exprs" "length (ag_columns ?s) = length exprs" "ag_count ?s = 0"
    by (simp_all add: do_aggregation_begin_def AggregationTuple_init_def)
  have "column_inv (ae_type (exprs ! i)) [] (ag_columns ?s ! i)"
    using assms(2) by (simp add: do_aggregation_begin_def AggregationTuple_init_def column_inv_def fresh_column_def Value_init_def is_null_def set_null_def)
  then obtain s' where r: "aggregate_all env ts ?s = Some s'" "ag_exprs s' = exprs" "length (ag_columns s') = length exprs"
    "ag_count s' = int (length ts)" "column_inv (ae_type (exprs ! i)) (column_ints env (exprs ! i) ts) (ag_columns s' ! i)"
    using aggregate_all_inv [of i ?s "[]" ts env] assms(2-) s by auto
  have "ag_columns (do_aggregation_end env s') ! i = finish_column env (int (length ts)) (ae_type (exprs ! i)) (ag_columns s' ! i)"
    using assms(2) r(2-4) by (simp add: do_aggregation_end_def)
  then show ?thesis using assms(1) r(1,5)
    by (cases "ae_type (exprs ! i)")
      (auto simp: aggregate_rows_def finish_column_def column_inv_def is_count_def Let_def set_null_def is_null_def assms(3))
qed


definition demo_count :: AggreExpression where
  "demo_count = \<lparr>ae_type = AGGRE_COUNT_ALL, ae_table = ''t'', ae_field = demo_field\<rparr>"

theorem aggregate_ints_witness:
  "\<exists>s. aggregate_rows demo_env [demo_count] [RowTuple demo_meta (replicate 19 0), RowTuple demo_meta (replicate 19 0)] = Some s \<and>
     int_value 2 (ac_result (ag_columns s ! 0))"
  using aggregate_ints [of "[RowTuple demo_meta (replicate 19 0), RowTuple demo_meta (replicate 19 0)]" 0 "[demo_count]" demo_env]
  by (simp add: demo_count_def int_column_def demo_field_found wrap_i32_def)

end
