(* ===== verification/LogicalPlan.thy ===== *)
theory LogicalPlan
  imports Aggregation
begin

text \<open>
  Logical plans: the operators of \<^verbatim>\<open>sql/operator/*_logical_operator.h\<close>, their generation for a select
  statement (\<^verbatim>\<open>sql/optimizer/logical_plan_generator.cpp\<close>) and, as the reference for the optimizer and
  the physical operators, the list of the tuples that a plan describes.

  \<^item> An operator is the data of its class together with the members of the base class, its expressions
    and its children.
  \<^item> A table is a \<open>Relation\<close>: its description and the records that a scan hands out to the transaction of
    the query, in their order.
  \<^item> \<^verbatim>\<open>std::sort\<close> is the argument \<open>srt\<close>.
  \<^item> Statements that change tables keep only their type here.
\<close>

section \<open>Statements and operators\<close>

record Relation =
  rl_meta :: TableMeta
  rl_rows :: "byte list list"

record OrderByUnit =
  ou_table :: string
  ou_field :: FieldMeta
  ou_asc :: bool

record FilterUnit =
  fu_comp :: CompOp
  fu_left :: Expression
  fu_right :: Expression

record FilterStmt =
  fs_filter_units :: "FilterUnit list"
  fs_has_or :: bool

record SelectStmt =
  ss_tables :: "Relation list"
  ss_expressions :: "Expression list"
  ss_filter_stmt :: FilterStmt
  ss_order_units :: "OrderByUnit list"

datatype OperatorData =
    CALC
  | TABLE_GET Relation bool "Expression list"
  | PREDICATE
  | PROJECTION "Expression list"
  | JOIN
  | INSERT_OPER
  | UPDATE_OPER
  | DELETE_OPER
  | EXPLAIN
  | ORDER_BY "OrderByUnit list"
  | AGGREGATION "AggreExpression list"

datatype LogicalOperator =
  LogicalOperator (lo_data: OperatorData) (lo_expressions: "Expression list") (lo_children: "LogicalOperator list")


section \<open>The plan of a select statement\<close>

text \<open>The copies of the two sides of a condition; \<open>None\<close> for a null pointer.\<close>

fun filter_operand :: "Expression \<Rightarrow> Expression option" where
  "filter_operand (FieldExpr table f) = Some (FieldExpr table f)"
| "filter_operand (ValueExpr v) = Some (ValueExpr v)"
| "filter_operand (ValueListExpr vs) = Some (ValueListExpr vs)"
| "filter_operand _ = None"

definition filter_expr :: "FilterUnit \<Rightarrow> Expression option" where
  "filter_expr u =
     (let left = filter_operand (fu_left u); right = filter_operand (fu_right u) in
      if fu_comp u \<in> {EQUAL_TO, LESS_EQUAL, NOT_EQUAL, LESS_THAN, GREAT_EQUAL, GREAT_THAN, LIKE, NOT_LIKE, IS, IS_NOT}
      then (case (left, right) of (Some l, Some r) \<Rightarrow> Some (ComparisonExpr (fu_comp u) l r) | _ \<Rightarrow> None)
      else if fu_comp u \<in> {IN, NOT_IN}
      then (case (left, right) of (Some l, Some r) \<Rightarrow> Some (InExpr l (fu_comp u) r) | _ \<Rightarrow> None)
      else if fu_comp u \<in> {EXISTS, NOT_EXISTS} then map_option (ExistsExpr (fu_comp u)) right
      else None)"

text \<open>The predicate above an operator, if there are conditions; \<open>None\<close> when a null pointer gets into the plan.\<close>

definition add_filter :: "FilterStmt \<Rightarrow> LogicalOperator \<Rightarrow> LogicalOperator option" where
  "add_filter stmt root_oper =
     (let expr_list = map filter_expr (fs_filter_units stmt) in
      if None \<in> set expr_list then None
      else if expr_list = [] then Some root_oper
      else Some (LogicalOperator PREDICATE
             [ConjunctionExpr (if fs_has_or stmt then CONJ_OR else CONJ_AND) (map the expr_list)] [root_oper]))"

fun join_tables :: "LogicalOperator \<Rightarrow> Relation list \<Rightarrow> LogicalOperator" where
  "join_tables table_oper [] = table_oper"
| "join_tables table_oper (table # tables) =
     join_tables (LogicalOperator JOIN [] [table_oper, LogicalOperator (TABLE_GET table True []) [] []]) tables"

fun get_aggre_expression :: "Expression \<Rightarrow> AggreExpression list" where
  "get_aggre_expression (AggreExpr e) = [e]"
| "get_aggre_expression _ = []"

definition create_plan :: "SelectStmt \<Rightarrow> LogicalOperator option" where
  "create_plan stmt =
     (case ss_tables stmt of
        [] \<Rightarrow> None
      | table # tables \<Rightarrow>
          (case add_filter (ss_filter_stmt stmt) (join_tables (LogicalOperator (TABLE_GET table True []) [] []) tables) of
             None \<Rightarrow> None
           | Some root_oper \<Rightarrow>
               let aggre_exprs = concat (map get_aggre_expression (ss_expressions stmt));
                   root_oper = (if aggre_exprs \<noteq> [] then LogicalOperator (AGGREGATION aggre_exprs) [] [root_oper] else root_oper);
                   root_oper = (if ss_order_units stmt \<noteq> [] then LogicalOperator (ORDER_BY (ss_order_units stmt)) [] [root_oper]
                                else root_oper)
               in Some (LogicalOperator (PROJECTION (ss_expressions stmt)) [] [root_oper])))"


section \<open>The order of tuples\<close>

text \<open>
  \<open>comprule\<close> of \<^verbatim>\<open>order_physical_operator.h\<close>: the loop over the keys with the variables \<open>vleft\<close> and
  \<open>vright\<close>; a cell that is not found leaves them as they are.
\<close>

fun comprule_loop :: "EvalEnv \<Rightarrow> Tuple \<Rightarrow> Tuple \<Rightarrow> OrderByUnit list \<Rightarrow> Value \<Rightarrow> Value \<Rightarrow> bool option" where
  "comprule_loop env left right [] vleft vright = Some False"
| "comprule_loop env left right (u # us) vleft vright =
     (let spec = TupleCellSpec_init (ee_junk_aggre env) (ou_table u) (fm_name (ou_field u)) in
      case (find_cell env left spec vleft, find_cell env right spec vright) of
        (Some (_, vleft), Some (_, vright)) \<Rightarrow>
          (case compare_value (ee_fo env) vleft vright of
             EQUAL_TO \<Rightarrow> comprule_loop env left right us vleft vright
           | LESS_THAN \<Rightarrow> Some (ou_asc u)
           | GREAT_THAN \<Rightarrow> Some (\<not> ou_asc u)
           | _ \<Rightarrow> comprule_loop env left right us vleft vright)
      | _ \<Rightarrow> None)"

definition comprule :: "EvalEnv \<Rightarrow> OrderByUnit list \<Rightarrow> Tuple \<Rightarrow> Tuple \<Rightarrow> bool" where
  "comprule env units left right \<longleftrightarrow> comprule_loop env left right units (Value_init env) (Value_init env) = Some True"


section \<open>The tuples of a plan\<close>

definition holds :: "EvalEnv \<Rightarrow> Tuple \<Rightarrow> Expression \<Rightarrow> bool" where
  "holds env t e \<longleftrightarrow>
     (case get_value env t e (Value_init env) of Some (SUCCESS, v) \<Rightarrow> get_boolean (ee_fo env) v | _ \<Rightarrow> False)"

text \<open>\<open>add_projection\<close> of \<^verbatim>\<open>project_physical_operator.cpp\<close>.\<close>

fun projection_spec :: "EvalEnv \<Rightarrow> Expression \<Rightarrow> TupleCellSpec option" where
  "projection_spec env (FieldExpr table f) = Some (TupleCellSpec_init (ee_junk_aggre env) table (fm_name f))"
| "projection_spec env (AggreExpr e) =
     Some \<lparr>cs_table_name = ae_table e, cs_field_name = fm_name (ae_field e), cs_aggre_type = ae_type e\<rparr>"
| "projection_spec env _ = None"

definition table_tuples :: "Relation \<Rightarrow> Tuple list" where
  "table_tuples rel = map (RowTuple (rl_meta rel)) (rl_rows rel)"

type_synonym std_sort = "(Tuple \<Rightarrow> Tuple \<Rightarrow> bool) \<Rightarrow> Tuple list \<Rightarrow> Tuple list"

fun plan_rows :: "EvalEnv \<Rightarrow> std_sort \<Rightarrow> LogicalOperator \<Rightarrow> Tuple list" where
  "plan_rows env srt (LogicalOperator d es cs) =
     (let rs = map (plan_rows env srt) cs in
      case d of
        TABLE_GET rel readonly predicates \<Rightarrow> filter (\<lambda>t. \<forall>p \<in> set predicates. holds env t p) (table_tuples rel)
      | PREDICATE \<Rightarrow> filter (\<lambda>t. \<forall>e \<in> set es. holds env t e) (concat rs)
      | PROJECTION exprs \<Rightarrow> map (\<lambda>t. ProjectTuple (map (projection_spec env) exprs) (Some t)) (concat rs)
      | JOIN \<Rightarrow> (case rs of [ls, rs] \<Rightarrow> concat (map (\<lambda>l. map (JoinedTuple l) rs) ls) | _ \<Rightarrow> [])
      | ORDER_BY units \<Rightarrow> srt (comprule env units) (concat rs)
      | AGGREGATION exprs \<Rightarrow> (case aggregate_rows env exprs (concat rs) of Some s \<Rightarrow> [aggre_view s] | None \<Rightarrow> [])
      | _ \<Rightarrow> [])"

end
