(* ===== verification/Optimizer.thy ===== *)
theory Optimizer
  imports LogicalPlan
begin

text \<open>
  The rewriting of logical plans (\<^verbatim>\<open>sql/optimizer\<close>): constant comparisons and conjunctions
  (\<^verbatim>\<open>comparison_simplification_rule.cpp\<close>, \<^verbatim>\<open>conjunction_simplification_rule.cpp\<close>, \<^verbatim>\<open>expression_rewriter.cpp\<close>),
  constant predicates (\<^verbatim>\<open>predicate_rewrite.cpp\<close>), predicates that move into the scan of a table
  (\<^verbatim>\<open>predicate_pushdown_rewriter.cpp\<close>), all rules on a plan (\<^verbatim>\<open>rewriter.cpp\<close>) and their repetition until
  nothing changes (\<^verbatim>\<open>optimize_stage.cpp\<close>).

  A rule returns the new expression or operator and whether it reports a change. The return code of all
  of them is always \<open>SUCCESS\<close> and is left out.
\<close>

section \<open>Rules for expressions\<close>

definition ComparisonSimplificationRule_rewrite :: "EvalEnv \<Rightarrow> Expression \<Rightarrow> Expression \<times> bool" where
  "ComparisonSimplificationRule_rewrite env expr =
     (if expr_type expr = ET_COMPARISON
      then (case try_get_value env expr (Value_init env) of
              Some (rc, v) \<Rightarrow> if rc = SUCCESS then (ValueExpr v, True) else (expr, False)
            | None \<Rightarrow> (expr, False))
      else (expr, False))"

fun try_to_get_bool_constant :: "EvalEnv \<Rightarrow> Expression \<Rightarrow> bool option" where
  "try_to_get_bool_constant env (ValueExpr v) =
     (if attr_type v = BOOLEANS then Some (get_boolean (ee_fo env) v) else None)"
| "try_to_get_bool_constant env _ = None"

text \<open>
  The loop over the children: those that stay so far and those to come. The left result is the child
  that replaces the whole conjunction, the first of those that are still there.
\<close>

fun simplify_children ::
  "EvalEnv \<Rightarrow> ConjunctionType \<Rightarrow> Expression list \<Rightarrow> Expression list \<Rightarrow> Expression + Expression list" where
  "simplify_children env type kept [] = Inr kept"
| "simplify_children env type kept (e # es) =
     (case try_to_get_bool_constant env e of
        None \<Rightarrow> simplify_children env type (kept @ [e]) es
      | Some constant_value \<Rightarrow>
          if type = CONJ_AND
          then if constant_value then simplify_children env type kept es else Inl (hd (kept @ e # es))
          else if constant_value then Inl (hd (kept @ e # es)) else simplify_children env type kept es)"

fun ConjunctionSimplificationRule_rewrite :: "EvalEnv \<Rightarrow> Expression \<Rightarrow> Expression \<times> bool" where
  "ConjunctionSimplificationRule_rewrite env (ConjunctionExpr type children) =
     (case simplify_children env type [] children of
        Inl child \<Rightarrow> (child, False)
      | Inr children \<Rightarrow>
          if length children = 1 then (hd children, True) else (ConjunctionExpr type children, False))"
| "ConjunctionSimplificationRule_rewrite env expr = (expr, False)"

text \<open>The number of nodes of an expression.\<close>

fun expr_nodes :: "Expression \<Rightarrow> nat" where
  "expr_nodes (CastExpr child cast_type) = expr_nodes child + 1"
| "expr_nodes (ComparisonExpr comp_op left right) = expr_nodes left + expr_nodes right + 1"
| "expr_nodes (ConjunctionExpr type children) = sum_list (map expr_nodes children) + 1"
| "expr_nodes _ = 1"

lemma expr_nodes_pos [simp]: "0 < expr_nodes e"
  by (cases e) simp_all

lemma expr_nodes_member: "e \<in> set es \<Longrightarrow> expr_nodes e \<le> sum_list (map expr_nodes es)"
  by (induction es) auto

lemma comparison_rule_cases:
  "ComparisonSimplificationRule_rewrite env e = (e, False) \<or>
   (\<exists>comp_op l r. e = ComparisonExpr comp_op (ValueExpr l) (ValueExpr r) \<and>
      ComparisonSimplificationRule_rewrite env e =
        (ValueExpr (set_boolean (compare_result env comp_op l r) (Value_init env)), True))"
proof (cases e)
  case (ComparisonExpr comp_op l r)
  then show ?thesis by (cases l; cases r) (simp_all add: ComparisonSimplificationRule_rewrite_def)
qed (simp_all add: ComparisonSimplificationRule_rewrite_def)

text \<open>A constant child either decides the conjunction or is neutral.\<close>

definition decides :: "EvalEnv \<Rightarrow> ConjunctionType \<Rightarrow> Expression \<Rightarrow> bool" where
  "decides env type e \<longleftrightarrow> try_to_get_bool_constant env e = Some (type = CONJ_OR)"

lemma simplify_children_undecided:
  "\<forall>e \<in> set es. \<not> decides env type e \<Longrightarrow>
     simplify_children env type kept es = Inr (kept @ filter (\<lambda>e. try_to_get_bool_constant env e = None) es)"
  by (induction es arbitrary: kept; cases type) (auto simp: decides_def split: option.splits)

lemma simplify_children_decided:
  "\<forall>e \<in> set pre. \<not> decides env type e \<Longrightarrow> decides env type d \<Longrightarrow>
     simplify_children env type kept (pre @ d # post) =
       Inl (hd (kept @ filter (\<lambda>e. try_to_get_bool_constant env e = None) pre @ d # post))"
  by (induction pre arbitrary: kept; cases type) (auto simp: decides_def split: option.splits)

lemma simplify_children_cases:
  obtains "simplify_children env type [] es = Inr (filter (\<lambda>e. try_to_get_bool_constant env e = None) es)"
      "\<forall>e \<in> set es. \<not> decides env type e"
    | pre d post where "es = pre @ d # post" "\<forall>e \<in> set pre. \<not> decides env type e" "decides env type d"
      "simplify_children env type [] es = Inl (hd (filter (\<lambda>e. try_to_get_bool_constant env e = None) pre @ d # post))"
proof (cases "\<exists>e \<in> set es. decides env type e")
  case True
  then obtain pre d post where "es = pre @ d # post" "decides env type d" "\<forall>e \<in> set pre. \<not> decides env type e"
    using split_list_first_prop [of es "decides env type"] by blast
  then show ?thesis using that(2) simplify_children_decided [of pre env type d "[]" post] by simp
next
  case False
  then show ?thesis using that(1) simplify_children_undecided [of es env type "[]"] by simp
qed

lemma hd_append_in: "hd (filter P xs @ d # ys) \<in> set (xs @ d # ys)"
  by (cases "filter P xs") (auto dest: filter_eq_ConsD)

lemma conjunction_rule_nodes:
  assumes "ConjunctionSimplificationRule_rewrite env e = (e', c)"
  shows "expr_nodes e' \<le> expr_nodes e \<and> (c \<longrightarrow> expr_nodes e' < expr_nodes e)"
proof (cases e)
  case (ConjunctionExpr type cs)
  show ?thesis
  proof (cases rule: simplify_children_cases [of env type cs])
    case 1
    let ?rest = "filter (\<lambda>e. try_to_get_bool_constant env e = None) cs"
    have "hd ?rest \<in> set cs" if "length ?rest = 1" using that by (metis filter_is_subset hd_in_set length_0_conv one_neq_zero subsetD)
    moreover have "sum_list (map expr_nodes ?rest) \<le> sum_list (map expr_nodes cs)" by (rule sum_list_filter_le_nat)
    ultimately show ?thesis using assms 1(1) ConjunctionExpr expr_nodes_member [of "hd ?rest" cs] by (auto split: if_splits)
  next
    case (2 pre d post)
    then show ?thesis using assms ConjunctionExpr expr_nodes_member [OF hd_append_in, of "\<lambda>e. try_to_get_bool_constant env e = None" pre d post]
      by (simp del: map_append)
  qed
qed (use assms in auto)

lemma comparison_rule_nodes:
  assumes "ComparisonSimplificationRule_rewrite env e = (e', c)"
  shows "expr_nodes e' \<le> expr_nodes e \<and> (c \<longrightarrow> expr_nodes e' < expr_nodes e)"
  using comparison_rule_cases [of env e] assms by auto

text \<open>\<^verbatim>\<open>ExpressionRewriter::rewrite_expression\<close>: both rules, then the children if no rule reported a change.\<close>

function rewrite_expression :: "EvalEnv \<Rightarrow> Expression \<Rightarrow> Expression \<times> bool" where
  "rewrite_expression env expr =
     (let (expr1, change1) = ComparisonSimplificationRule_rewrite env expr;
          (expr2, change2) = ConjunctionSimplificationRule_rewrite env expr1 in
      if change1 \<or> change2 then (expr2, True)
      else
        case expr2 of
          CastExpr child cast_type \<Rightarrow>
            let (child, change_made) = rewrite_expression env child in (CastExpr child cast_type, change_made)
        | ComparisonExpr comp_op left right \<Rightarrow>
            let (left, left_change_made) = rewrite_expression env left;
                (right, right_change_made) = rewrite_expression env right
            in (ComparisonExpr comp_op left right, left_change_made \<or> right_change_made)
        | ConjunctionExpr type children \<Rightarrow>
            let rs = map (rewrite_expression env) children
            in (ConjunctionExpr type (map fst rs), \<exists>r \<in> set rs. snd r)
        | _ \<Rightarrow> (expr2, False))"
  by pat_completeness auto

termination
  by (relation "measure (\<lambda>(env, e). expr_nodes e)")
    (auto dest!: comparison_rule_nodes [OF sym] conjunction_rule_nodes [OF sym] expr_nodes_member)


declare rewrite_expression.simps [simp del]

text \<open>A rewriting never adds nodes, and one that reports a change removes some.\<close>

definition shrinks :: "nat \<Rightarrow> nat \<Rightarrow> bool \<Rightarrow> bool" where
  "shrinks m n c \<longleftrightarrow> n \<le> m \<and> (c \<longrightarrow> n < m)"

lemma shrinks_trans: "shrinks l m c \<Longrightarrow> shrinks m n d \<Longrightarrow> shrinks l n (c \<or> d)"
  by (auto simp: shrinks_def)

lemma shrinks_same [simp]: "shrinks n n False"
  by (simp add: shrinks_def)

lemma shrinks_sum:
  "\<forall>x \<in> set xs. shrinks (f x) (g x) (c x) \<Longrightarrow> shrinks (sum_list (map f xs)) (sum_list (map g xs)) (\<exists>x \<in> set xs. c x)"
  by (induction xs) (auto simp: shrinks_def)

lemma rewrite_expression_nodes: "shrinks (expr_nodes e) (expr_nodes (fst (rewrite_expression env e))) (snd (rewrite_expression env e))"
proof (induction env e rule: rewrite_expression.induct)
  case (1 env e)
  obtain e1 c1 where r1: "ComparisonSimplificationRule_rewrite env e = (e1, c1)" by fastforce
  obtain e2 c2 where r2: "ConjunctionSimplificationRule_rewrite env e1 = (e2, c2)" by fastforce
  have s: "shrinks (expr_nodes e) (expr_nodes e2) (c1 \<or> c2)"
    using comparison_rule_nodes [OF r1] conjunction_rule_nodes [OF r2] by (auto simp: shrinks_def)
  show ?case
  proof (cases "c1 \<or> c2")
    case True
    then show ?thesis using s r1 r2 by (simp add: rewrite_expression.simps [of env e] shrinks_def)
  next
    case False
    note IH = 1 [OF r1 [symmetric] refl r2 [symmetric] refl False]
    have "shrinks (expr_nodes e2) (expr_nodes (fst (rewrite_expression env e))) (snd (rewrite_expression env e))"
    proof (cases e2)
      case (CastExpr child t)
      then show ?thesis using IH(1) [OF CastExpr] r1 r2 False
        by (auto simp: rewrite_expression.simps [of env e] shrinks_def split: prod.splits)
    next
      case (ComparisonExpr comp_op l r)
      obtain l' lc where l: "rewrite_expression env l = (l', lc)" by fastforce
      show ?thesis using IH(2) [OF ComparisonExpr] IH(3) [OF ComparisonExpr l [symmetric] refl] l r1 r2 False ComparisonExpr
        by (auto simp: rewrite_expression.simps [of env e] shrinks_def split: prod.splits)
    next
      case (ConjunctionExpr type cs)
      have "shrinks (sum_list (map expr_nodes cs)) (sum_list (map (\<lambda>c. expr_nodes (fst (rewrite_expression env c))) cs))
          (\<exists>c \<in> set cs. snd (rewrite_expression env c))"
        by (rule shrinks_sum) (use IH(4) [OF ConjunctionExpr] in blast)
      then show ?thesis using ConjunctionExpr r1 r2 False
        by (simp add: rewrite_expression.simps [of env e] shrinks_def comp_def)
    qed (use r1 r2 False in \<open>simp_all add: rewrite_expression.simps [of env e]\<close>)
    then show ?thesis using s False by (auto simp: shrinks_def)
  qed
qed



section \<open>Rules for operators\<close>

text \<open>\<^verbatim>\<open>ExpressionRewriter::rewrite\<close>: the expressions of an operator and of all operators below.\<close>

fun ExpressionRewriter_rewrite :: "EvalEnv \<Rightarrow> LogicalOperator \<Rightarrow> LogicalOperator \<times> bool" where
  "ExpressionRewriter_rewrite env (LogicalOperator d es cs) =
     (let es' = map (rewrite_expression env) es; cs' = map (ExpressionRewriter_rewrite env) cs
      in (LogicalOperator d (map fst es') (map fst cs'), (\<exists>r \<in> set es'. snd r) \<or> (\<exists>r \<in> set cs'. snd r)))"

text \<open>\<^verbatim>\<open>PredicateRewriteRule::rewrite\<close>: a child that is a constant predicate.\<close>

definition PredicateRewriteRule_rewrite :: "EvalEnv \<Rightarrow> LogicalOperator \<Rightarrow> LogicalOperator \<times> bool" where
  "PredicateRewriteRule_rewrite env oper =
     (case lo_children oper of
        [LogicalOperator PREDICATE [ValueExpr v] grand_child_opers] \<Rightarrow>
          (LogicalOperator (lo_data oper) (lo_expressions oper)
             (if get_boolean (ee_fo env) v then grand_child_opers else []), True)
      | _ \<Rightarrow> (oper, False))"

text \<open>
  \<open>get_exprs_can_pushdown\<close>: what is left of the expression, \<open>None\<close> when all of it is pushed down, and
  the list of pushed expressions. The test of both sides (\<^verbatim>\<open>&&\<close> where a side should be excluded) is
  written out as it is.
\<close>

definition pushable :: "CompOp \<Rightarrow> Expression \<Rightarrow> Expression \<Rightarrow> bool" where
  "pushable comp_op left right =
     (if comp_op \<noteq> EQUAL_TO then False
      else if expr_type left \<noteq> ET_FIELD \<and> expr_type right \<noteq> ET_FIELD then False
      else if expr_type left \<noteq> ET_FIELD \<and> expr_type left \<noteq> ET_VALUE \<and>
              expr_type right \<noteq> ET_FIELD \<and> expr_type right \<noteq> ET_VALUE then False
      else True)"

fun get_exprs_can_pushdown :: "Expression \<Rightarrow> Expression list \<Rightarrow> Expression option \<times> Expression list"
and pushdown_children :: "Expression list \<Rightarrow> Expression list \<Rightarrow> Expression list \<times> Expression list" where
  "get_exprs_can_pushdown (ConjunctionExpr type children) pushdown_exprs =
     (if type = CONJ_OR then (Some (ConjunctionExpr type children), pushdown_exprs)
      else let (children, pushdown_exprs) = pushdown_children children pushdown_exprs
           in (Some (ConjunctionExpr type children), pushdown_exprs))"
| "get_exprs_can_pushdown (ComparisonExpr comp_op left right) pushdown_exprs =
     (if pushable comp_op left right then (None, pushdown_exprs @ [ComparisonExpr comp_op left right])
      else (Some (ComparisonExpr comp_op left right), pushdown_exprs))"
| "get_exprs_can_pushdown expr pushdown_exprs = (Some expr, pushdown_exprs)"
| "pushdown_children [] pushdown_exprs = ([], pushdown_exprs)"
| "pushdown_children (e # es) pushdown_exprs =
     (let (rest, pushdown_exprs) = get_exprs_can_pushdown e pushdown_exprs;
          (es, pushdown_exprs) = pushdown_children es pushdown_exprs
      in (case rest of None \<Rightarrow> es | Some e \<Rightarrow> e # es, pushdown_exprs))"

text \<open>The constant that takes the place of a predicate that was pushed down as a whole.\<close>

definition true_value :: "EvalEnv \<Rightarrow> Value" where
  "true_value env = set_boolean True \<lparr>attr_type = UNDEFINED, v_length = 0, num_value = ee_junk_num env, str_value = []\<rparr>"

definition PredicatePushdownRewriter_rewrite :: "EvalEnv \<Rightarrow> LogicalOperator \<Rightarrow> LogicalOperator \<times> bool" where
  "PredicatePushdownRewriter_rewrite env oper =
     (case oper of
        LogicalOperator PREDICATE [predicate_expr] [LogicalOperator (TABLE_GET table readonly predicates) es cs] \<Rightarrow>
          let (rest, pushdown_exprs) = get_exprs_can_pushdown predicate_expr [];
              predicate_expr = (case rest of None \<Rightarrow> ValueExpr (true_value env) | Some e \<Rightarrow> e)
          in if pushdown_exprs \<noteq> []
             then (LogicalOperator PREDICATE [predicate_expr]
                     [LogicalOperator (TABLE_GET table readonly pushdown_exprs) es cs], True)
             else (LogicalOperator PREDICATE [predicate_expr]
                     [LogicalOperator (TABLE_GET table readonly predicates) es cs], False)
      | _ \<Rightarrow> (oper, False))"

text \<open>The number of nodes of a plan, without the predicates inside the scans.\<close>

fun plan_nodes :: "LogicalOperator \<Rightarrow> nat" where
  "plan_nodes (LogicalOperator d es cs) = 1 + sum_list (map expr_nodes es) + sum_list (map plan_nodes cs)"

lemma plan_nodes_member: "p \<in> set ps \<Longrightarrow> plan_nodes p \<le> sum_list (map plan_nodes ps)"
  by (induction ps) auto

lemma plan_nodes_children: "p \<in> set (lo_children q) \<Longrightarrow> plan_nodes p < plan_nodes q"
  by (cases q) (auto dest: plan_nodes_member)

lemma expression_rewriter_nodes:
  "shrinks (plan_nodes p) (plan_nodes (fst (ExpressionRewriter_rewrite env p))) (snd (ExpressionRewriter_rewrite env p))"
proof (induction env p rule: ExpressionRewriter_rewrite.induct)
  case (1 env d es cs)
  have "shrinks (sum_list (map expr_nodes es)) (sum_list (map (\<lambda>e. expr_nodes (fst (rewrite_expression env e))) es))
      (\<exists>e \<in> set es. snd (rewrite_expression env e))"
    by (rule shrinks_sum) (simp add: rewrite_expression_nodes)
  moreover have "shrinks (sum_list (map plan_nodes cs)) (sum_list (map (\<lambda>c. plan_nodes (fst (ExpressionRewriter_rewrite env c))) cs))
      (\<exists>c \<in> set cs. snd (ExpressionRewriter_rewrite env c))"
    by (rule shrinks_sum) (use 1 in blast)
  ultimately show ?case by (auto simp: shrinks_def comp_def)
qed

lemma predicate_rewrite_cases:
  "PredicateRewriteRule_rewrite env p = (p, False) \<or>
   (\<exists>d es v gs. p = LogicalOperator d es [LogicalOperator PREDICATE [ValueExpr v] gs] \<and>
      PredicateRewriteRule_rewrite env p = (LogicalOperator d es (if get_boolean (ee_fo env) v then gs else []), True))"
  by (cases p) (auto simp: PredicateRewriteRule_rewrite_def split: list.splits LogicalOperator.splits OperatorData.splits Expression.splits)

lemma predicate_rewrite_nodes:
  "shrinks (plan_nodes p) (plan_nodes (fst (PredicateRewriteRule_rewrite env p))) (snd (PredicateRewriteRule_rewrite env p))"
  using predicate_rewrite_cases [of env p] by (auto simp: shrinks_def)


text \<open>What is pushed down comes behind what was pushed down before.\<close>

lemma pushdown_nodes:
  "fst (get_exprs_can_pushdown e ps) = None \<longrightarrow> snd (get_exprs_can_pushdown e ps) \<noteq> ps \<and> 1 < expr_nodes e"
  "\<exists>qs. snd (get_exprs_can_pushdown e ps) = ps @ qs \<and>
     (\<forall>e'. fst (get_exprs_can_pushdown e ps) = Some e' \<longrightarrow> shrinks (expr_nodes e) (expr_nodes e') (qs \<noteq> []))"
  "\<exists>qs. snd (pushdown_children es ps) = ps @ qs \<and>
     shrinks (sum_list (map expr_nodes es)) (sum_list (map expr_nodes (fst (pushdown_children es ps)))) (qs \<noteq> [])"
proof -
  show "fst (get_exprs_can_pushdown e ps) = None \<longrightarrow> snd (get_exprs_can_pushdown e ps) \<noteq> ps \<and> 1 < expr_nodes e"
    by (cases e) (simp_all add: case_prod_unfold Let_def)
  show "\<exists>qs. snd (get_exprs_can_pushdown e ps) = ps @ qs \<and>
     (\<forall>e'. fst (get_exprs_can_pushdown e ps) = Some e' \<longrightarrow> shrinks (expr_nodes e) (expr_nodes e') (qs \<noteq> []))"
    and "\<exists>qs. snd (pushdown_children es ps) = ps @ qs \<and>
     shrinks (sum_list (map expr_nodes es)) (sum_list (map expr_nodes (fst (pushdown_children es ps)))) (qs \<noteq> [])"
  proof (induction e ps and es ps rule: get_exprs_can_pushdown_pushdown_children.induct)
    case (1 type children ps)
    then show ?case by (cases type) (auto simp: shrinks_def case_prod_unfold Let_def)
  next
    case (5 e es ps)
    obtain rest ps1 where g: "get_exprs_can_pushdown e ps = (rest, ps1)" by fastforce
    obtain es' ps2 where c: "pushdown_children es ps1 = (es', ps2)" by fastforce
    obtain qs1 where q1: "ps1 = ps @ qs1" "\<And>e'. rest = Some e' \<Longrightarrow> shrinks (expr_nodes e) (expr_nodes e') (qs1 \<noteq> [])"
      using 5(1) g by auto
    obtain qs2 where q2: "ps2 = ps1 @ qs2" "shrinks (sum_list (map expr_nodes es)) (sum_list (map expr_nodes es')) (qs2 \<noteq> [])"
      using 5(2) [OF g [symmetric] refl] c by auto
    show ?case using g c q1 q2 expr_nodes_pos [of e] by (cases rest) (auto simp: shrinks_def simp del: expr_nodes_pos)
  qed (auto simp: shrinks_def)
qed


lemma pushdown_cases:
  "PredicatePushdownRewriter_rewrite env p = (p, False) \<or>
   (\<exists>e table readonly predicates es cs rest pushed.
      p = LogicalOperator PREDICATE [e] [LogicalOperator (TABLE_GET table readonly predicates) es cs] \<and>
      get_exprs_can_pushdown e [] = (rest, pushed) \<and> pushed \<noteq> [] \<and>
      PredicatePushdownRewriter_rewrite env p =
        (LogicalOperator PREDICATE [case rest of None \<Rightarrow> ValueExpr (true_value env) | Some e \<Rightarrow> e]
           [LogicalOperator (TABLE_GET table readonly pushed) es cs], True)) \<or>
   (\<exists>e e' table readonly predicates es cs.
      p = LogicalOperator PREDICATE [e] [LogicalOperator (TABLE_GET table readonly predicates) es cs] \<and>
      get_exprs_can_pushdown e [] = (Some e', []) \<and>
      PredicatePushdownRewriter_rewrite env p =
        (LogicalOperator PREDICATE [e'] [LogicalOperator (TABLE_GET table readonly predicates) es cs], False))"
proof (cases "\<exists>e table readonly predicates es cs. p = LogicalOperator PREDICATE [e] [LogicalOperator (TABLE_GET table readonly predicates) es cs]")
  case True
  then obtain e table readonly predicates es cs where
    p: "p = LogicalOperator PREDICATE [e] [LogicalOperator (TABLE_GET table readonly predicates) es cs]" by blast
  obtain rest pushed where g: "get_exprs_can_pushdown e [] = (rest, pushed)" by fastforce
  show ?thesis
  proof (cases "pushed = []")
    case True
    then obtain e' where "rest = Some e'" using pushdown_nodes(1) [of e "[]"] g by (cases rest) simp_all
    then have r: "PredicatePushdownRewriter_rewrite env p =
        (LogicalOperator PREDICATE [e'] [LogicalOperator (TABLE_GET table readonly predicates) es cs], False)"
      and g': "get_exprs_can_pushdown e [] = (Some e', [])"
      using True g p by (simp_all add: PredicatePushdownRewriter_rewrite_def)
    show ?thesis by (rule disjI2, rule disjI2, intro exI conjI, rule p, rule g', rule r)
  next
    case False
    then have r: "PredicatePushdownRewriter_rewrite env p =
        (LogicalOperator PREDICATE [case rest of None \<Rightarrow> ValueExpr (true_value env) | Some e \<Rightarrow> e]
           [LogicalOperator (TABLE_GET table readonly pushed) es cs], True)"
      using g p by (simp add: PredicatePushdownRewriter_rewrite_def)
    show ?thesis by (rule disjI2, rule disjI1, intro exI conjI, rule p, rule g, rule False, rule r)
  qed
next
  case False
  then have "PredicatePushdownRewriter_rewrite env p = (p, False)"
    unfolding PredicatePushdownRewriter_rewrite_def
    by (cases p) (auto split: list.splits LogicalOperator.splits OperatorData.splits)
  then show ?thesis by (rule disjI1)
qed

lemma pushdown_rewrite_nodes:
  "shrinks (plan_nodes p) (plan_nodes (fst (PredicatePushdownRewriter_rewrite env p))) (snd (PredicatePushdownRewriter_rewrite env p))"
  using pushdown_cases [of env p]
proof (elim disjE exE conjE)
  fix e table readonly predicates es cs rest pushed
  assume p: "p = LogicalOperator PREDICATE [e] [LogicalOperator (TABLE_GET table readonly predicates) es cs]"
    and g: "get_exprs_can_pushdown e [] = (rest, pushed)" "pushed \<noteq> []"
    and r: "PredicatePushdownRewriter_rewrite env p =
        (LogicalOperator PREDICATE [case rest of None \<Rightarrow> ValueExpr (true_value env) | Some e \<Rightarrow> e]
           [LogicalOperator (TABLE_GET table readonly pushed) es cs], True)"
  have "(case rest of None \<Rightarrow> 1 | Some e' \<Rightarrow> expr_nodes e') < expr_nodes e"
    using pushdown_nodes(1,2) [of e "[]"] g by (cases rest) (auto simp: shrinks_def)
  then show ?thesis using p r by (cases rest) (auto simp: shrinks_def)
next
  fix e e' table readonly predicates es cs
  assume p: "p = LogicalOperator PREDICATE [e] [LogicalOperator (TABLE_GET table readonly predicates) es cs]"
    and g: "get_exprs_can_pushdown e [] = (Some e', [])"
    and r: "PredicatePushdownRewriter_rewrite env p =
        (LogicalOperator PREDICATE [e'] [LogicalOperator (TABLE_GET table readonly predicates) es cs], False)"
  show ?thesis using pushdown_nodes(2) [of e "[]"] g p r by (simp add: shrinks_def)
qed simp


section \<open>All rules\<close>

definition apply_rules :: "EvalEnv \<Rightarrow> LogicalOperator \<Rightarrow> LogicalOperator \<times> bool" where
  "apply_rules env oper =
     (let (oper, change1) = ExpressionRewriter_rewrite env oper;
          (oper, change2) = PredicateRewriteRule_rewrite env oper;
          (oper, change3) = PredicatePushdownRewriter_rewrite env oper
      in (oper, change1 \<or> change2 \<or> change3))"

lemma apply_rules_nodes: "shrinks (plan_nodes p) (plan_nodes (fst (apply_rules env p))) (snd (apply_rules env p))"
proof -
  obtain p1 c1 where 1: "ExpressionRewriter_rewrite env p = (p1, c1)" by fastforce
  obtain p2 c2 where 2: "PredicateRewriteRule_rewrite env p1 = (p2, c2)" by fastforce
  obtain p3 c3 where 3: "PredicatePushdownRewriter_rewrite env p2 = (p3, c3)" by fastforce
  show ?thesis using expression_rewriter_nodes [of p env] predicate_rewrite_nodes [of p1 env] pushdown_rewrite_nodes [of p2 env] 1 2 3
    by (auto simp: apply_rules_def shrinks_def)
qed

function Rewriter_rewrite :: "EvalEnv \<Rightarrow> LogicalOperator \<Rightarrow> LogicalOperator \<times> bool" where
  "Rewriter_rewrite env oper =
     (let (oper, change_made) = apply_rules env oper;
          rs = map (Rewriter_rewrite env) (lo_children oper)
      in (LogicalOperator (lo_data oper) (lo_expressions oper) (map fst rs), change_made \<or> (\<exists>r \<in> set rs. snd r)))"
  by pat_completeness auto

termination
proof (relation "measure (\<lambda>(env, p). plan_nodes p)")
  fix env oper p xa y z
  assume "p = apply_rules env oper" "(xa, y) = p" "z \<in> set (lo_children xa)"
  then show "((env, z), (env, oper)) \<in> measure (\<lambda>(env, p). plan_nodes p)"
    using plan_nodes_children [of z xa] apply_rules_nodes [of oper env]
    by (cases "apply_rules env oper") (auto simp: shrinks_def)
qed simp

declare Rewriter_rewrite.simps [simp del]

text \<open>\<^verbatim>\<open>OptimizeStage::rewrite\<close>: the loop until no rule reports a change.\<close>

partial_function (option) OptimizeStage_rewrite :: "EvalEnv \<Rightarrow> LogicalOperator \<Rightarrow> LogicalOperator option" where
  "OptimizeStage_rewrite env oper =
     (case Rewriter_rewrite env oper of (oper, change_made) \<Rightarrow>
        if change_made then OptimizeStage_rewrite env oper else Some oper)"

lemma rewriter_nodes: "shrinks (plan_nodes p) (plan_nodes (fst (Rewriter_rewrite env p))) (snd (Rewriter_rewrite env p))"
proof (induction env p rule: Rewriter_rewrite.induct)
  case (1 env p)
  obtain p1 c1 where r: "apply_rules env p = (p1, c1)" by fastforce
  obtain d es cs where p1: "p1 = LogicalOperator d es cs" by (cases p1)
  have "shrinks (sum_list (map plan_nodes cs)) (sum_list (map (\<lambda>c. plan_nodes (fst (Rewriter_rewrite env c))) cs))
      (\<exists>c \<in> set cs. snd (Rewriter_rewrite env c))"
    by (rule shrinks_sum) (use 1 [OF r [symmetric] refl] p1 in auto)
  then show ?case using apply_rules_nodes [of p env] r p1
    by (auto simp: Rewriter_rewrite.simps [of env p] shrinks_def comp_def)
qed

text \<open>
  The loop ends: the result of any number of rounds is an optimised plan, and what every round keeps,
  the loop keeps.
\<close>

lemma optimize_induct:
  assumes "P p" "\<And>q. P q \<Longrightarrow> P (fst (Rewriter_rewrite env q))"
  shows "\<exists>q. OptimizeStage_rewrite env p = Some q \<and> P q"
  using assms(1)
proof (induction p rule: measure_induct_rule [of plan_nodes])
  case (less p)
  obtain q c where r: "Rewriter_rewrite env p = (q, c)" by fastforce
  show ?case
  proof (cases c)
    case True
    then have "plan_nodes q < plan_nodes p" using rewriter_nodes [of p env] r by (simp add: shrinks_def)
    moreover have "P q" using assms(2) [OF less(2)] r by simp
    ultimately show ?thesis using less(1) r True by (simp add: OptimizeStage_rewrite.simps [of env p])
  next
    case False
    then show ?thesis using assms(2) [OF less(2)] r by (simp add: OptimizeStage_rewrite.simps [of env p])
  qed
qed

end
