(* ===== verification/Executor.thy ===== *)
theory Executor
  imports Optimizer
begin

text \<open>
  The physical operators of a query (\<^verbatim>\<open>sql/operator/*_physical_operator.cpp\<close>): each is opened, hands out one
  tuple after the other (\<open>next\<close>, \<open>current_tuple\<close>) and is closed; operators call the operators below them.
  \<open>create_physical\<close> is \<^verbatim>\<open>physical_plan_generator.cpp\<close>.

  \<^item> The state of an operator is in its constructor: the records that the scan has still to hand out and
    the tuples it has made, the flags of a join, the sorted tuples and the position in them, the
    aggregates so far.
  \<^item> Opening a scan positions it at the first record. A join opens its right side again when it is drained,
    for which this holds; the scan of an index is not modelled, so tables have no index here.
  \<^item> \<open>None\<close> stands for undefined behaviour, as in \<open>Expression\<close>, and for a loop that does not end. A pointer
    to a tuple is an option in addition.
  \<^item> The operators run in a query of its own: there is no tuple of a surrounding query. \<open>do_expr\<close>
    (\<^verbatim>\<open>do_expr.cpp\<close>) executes the subqueries of an expression; there are none in the model, and the test
    for existence, which casts its operand to a subquery, is undefined.
\<close>

section \<open>Operators\<close>

datatype PhysicalOperator =
    TableScan Relation bool "Expression list" "byte list list" "Tuple list"
  | Predicate Expression "PhysicalOperator list"
  | Project "Expression list" "PhysicalOperator list"
  | NestedLoopJoin bool bool "Tuple option" "Tuple option" "PhysicalOperator list"
      \<comment> \<open>\<open>round_done_\<close>, \<open>right_closed_\<close>, \<open>left_tuple_\<close>, \<open>right_tuple_\<close>\<close>
  | Order "OrderByUnit list" bool "Tuple list" nat "PhysicalOperator list"
      \<comment> \<open>\<open>is_inited_\<close>, \<open>ordered_tuples_\<close>, \<open>iterator_\<close>\<close>
  | Aggre bool bool AggreState "PhysicalOperator list" \<comment> \<open>\<open>is_started_\<close>, \<open>is_record_eof\<close>, \<open>tuple_\<close>\<close>

fun do_expr :: "Expression \<Rightarrow> RC option" where
  "do_expr (ConjunctionExpr type children) = (if None \<in> set (map do_expr children) then None else Some SUCCESS)"
| "do_expr (ExistsExpr comp_op right) = None"
| "do_expr _ = Some SUCCESS"

text \<open>The loop of \<open>open\<close> over the predicates of a scan, with the return code of the last of them.\<close>

fun do_exprs :: "RC \<Rightarrow> Expression list \<Rightarrow> RC option" where
  "do_exprs rc [] = Some rc"
| "do_exprs rc (e # es) = Option.bind (do_expr e) (\<lambda>rc. do_exprs rc es)"

text \<open>
  \<open>open\<close> of the classes, with \<open>open\<close> of the operators below as an argument. The predicate goes on when its
  child cannot be opened.
\<close>

type_synonym oper_call = "PhysicalOperator \<Rightarrow> (RC \<times> PhysicalOperator) option"

definition scan_open :: "Relation \<Rightarrow> bool \<Rightarrow> Expression list \<Rightarrow> Tuple list \<Rightarrow> (RC \<times> PhysicalOperator) option" where
  "scan_open rel readonly predicates tuples =
     map_option (\<lambda>rc. (rc, TableScan rel readonly predicates (rl_rows rel) tuples)) (do_exprs SUCCESS predicates)"

definition predicate_open :: "oper_call \<Rightarrow> Expression \<Rightarrow> PhysicalOperator list \<Rightarrow> (RC \<times> PhysicalOperator) option" where
  "predicate_open opn e children =
     (case children of
        [child] \<Rightarrow> Option.bind (opn child) (\<lambda>(_, child). map_option (\<lambda>rc. (rc, Predicate e [child])) (do_expr e))
      | _ \<Rightarrow> Some (INTERNAL, Predicate e children))"

definition project_open :: "oper_call \<Rightarrow> Expression list \<Rightarrow> PhysicalOperator list \<Rightarrow> (RC \<times> PhysicalOperator) option" where
  "project_open opn exprs children =
     (case children of
        [] \<Rightarrow> Some (SUCCESS, Project exprs [])
      | child # children \<Rightarrow> map_option (\<lambda>(rc, child). (rc, Project exprs (child # children))) (opn child))"

definition join_open ::
  "oper_call \<Rightarrow> bool \<Rightarrow> bool \<Rightarrow> Tuple option \<Rightarrow> Tuple option \<Rightarrow> PhysicalOperator list \<Rightarrow> (RC \<times> PhysicalOperator) option" where
  "join_open opn round_done right_closed lt rt children =
     (case children of
        [left, right] \<Rightarrow> map_option (\<lambda>(rc, left). (rc, NestedLoopJoin True True lt rt [left, right])) (opn left)
      | _ \<Rightarrow> Some (INTERNAL, NestedLoopJoin round_done right_closed lt rt children))"

definition order_open ::
  "oper_call \<Rightarrow> OrderByUnit list \<Rightarrow> bool \<Rightarrow> Tuple list \<Rightarrow> nat \<Rightarrow> PhysicalOperator list \<Rightarrow> (RC \<times> PhysicalOperator) option" where
  "order_open opn units inited ordered iter children =
     (case children of
        [] \<Rightarrow> None
      | [child] \<Rightarrow> map_option (\<lambda>(rc, child). (rc, Order units inited ordered iter [child])) (opn child)
      | _ \<Rightarrow> Some (INTERNAL, Order units inited ordered iter children))"

definition aggre_open :: "oper_call \<Rightarrow> bool \<Rightarrow> bool \<Rightarrow> AggreState \<Rightarrow> PhysicalOperator list \<Rightarrow> (RC \<times> PhysicalOperator) option" where
  "aggre_open opn started eof s children =
     (case children of
        [child] \<Rightarrow> map_option (\<lambda>(rc, child). (rc, Aggre started eof s [child])) (opn child)
      | _ \<Rightarrow> Some (SUCCESS, Aggre started eof s children))"

lemmas open_defs [simp] = scan_open_def predicate_open_def project_open_def join_open_def order_open_def aggre_open_def

lemma open_cong [fundef_cong]:
  assumes "children = children'" "\<And>c. c \<in> set children' \<Longrightarrow> f c = g c"
  shows "predicate_open f e children = predicate_open g e children'"
    "project_open f exprs children = project_open g exprs children'"
    "join_open f round_done right_closed lt rt children = join_open g round_done right_closed lt rt children'"
    "order_open f units inited ordered iter children = order_open g units inited ordered iter children'"
    "aggre_open f started eof s children = aggre_open g started eof s children'"
  using assms by (auto split: list.split cong: if_cong)

fun open_oper :: "EvalEnv \<Rightarrow> PhysicalOperator \<Rightarrow> (RC \<times> PhysicalOperator) option" where
  "open_oper env (TableScan rel readonly predicates recs tuples) = scan_open rel readonly predicates tuples"
| "open_oper env (Predicate e children) = predicate_open (open_oper env) e children"
| "open_oper env (Project exprs children) = project_open (open_oper env) exprs children"
| "open_oper env (NestedLoopJoin round_done right_closed lt rt children) =
     join_open (open_oper env) round_done right_closed lt rt children"
| "open_oper env (Order units inited ordered iter children) = order_open (open_oper env) units inited ordered iter children"
| "open_oper env (Aggre started eof s children) = aggre_open (open_oper env) started eof s children"

text \<open>\<open>close\<close>. Predicate and projection do not look at the return code of their child.\<close>

definition predicate_close :: "oper_call \<Rightarrow> Expression \<Rightarrow> PhysicalOperator list \<Rightarrow> (RC \<times> PhysicalOperator) option" where
  "predicate_close cls e children =
     (case children of
        [] \<Rightarrow> None
      | child # children \<Rightarrow> map_option (\<lambda>(_, child). (SUCCESS, Predicate e (child # children))) (cls child))"

definition project_close :: "oper_call \<Rightarrow> Expression list \<Rightarrow> PhysicalOperator list \<Rightarrow> (RC \<times> PhysicalOperator) option" where
  "project_close cls exprs children =
     (case children of
        [] \<Rightarrow> Some (SUCCESS, Project exprs [])
      | child # children \<Rightarrow> map_option (\<lambda>(_, child). (SUCCESS, Project exprs (child # children))) (cls child))"

definition join_close ::
  "oper_call \<Rightarrow> bool \<Rightarrow> bool \<Rightarrow> Tuple option \<Rightarrow> Tuple option \<Rightarrow> PhysicalOperator list \<Rightarrow> (RC \<times> PhysicalOperator) option" where
  "join_close cls round_done right_closed lt rt children =
     (case children of
        [left, right] \<Rightarrow>
          Option.bind (cls left) (\<lambda>(rc, left).
            if right_closed then Some (rc, NestedLoopJoin round_done right_closed lt rt [left, right])
            else map_option (\<lambda>(rc, right). (rc, NestedLoopJoin round_done (rc = SUCCESS) lt rt [left, right])) (cls right))
      | _ \<Rightarrow> None)"

definition order_close ::
  "oper_call \<Rightarrow> OrderByUnit list \<Rightarrow> bool \<Rightarrow> Tuple list \<Rightarrow> nat \<Rightarrow> PhysicalOperator list \<Rightarrow> (RC \<times> PhysicalOperator) option" where
  "order_close cls units inited ordered iter children =
     (case children of
        [] \<Rightarrow> Some (SUCCESS, Order units inited ordered iter [])
      | child # children \<Rightarrow> map_option (\<lambda>(rc, child). (rc, Order units inited ordered iter (child # children))) (cls child))"

definition aggre_close ::
  "EvalEnv \<Rightarrow> oper_call \<Rightarrow> bool \<Rightarrow> bool \<Rightarrow> AggreState \<Rightarrow> PhysicalOperator list \<Rightarrow> (RC \<times> PhysicalOperator) option" where
  "aggre_close env cls started eof s children =
     (case children of
        [] \<Rightarrow> Some (SUCCESS, Aggre started eof s [])
      | child # children \<Rightarrow>
          map_option (\<lambda>(rc, child). (rc, Aggre False False (AggregationTuple_reinit env s) (child # children))) (cls child))"

lemmas close_defs [simp] = predicate_close_def project_close_def join_close_def order_close_def aggre_close_def

lemma close_cong [fundef_cong]:
  assumes "children = children'" "\<And>c. c \<in> set children' \<Longrightarrow> f c = g c"
  shows "predicate_close f e children = predicate_close g e children'"
    "project_close f exprs children = project_close g exprs children'"
    "join_close f round_done right_closed lt rt children = join_close g round_done right_closed lt rt children'"
    "order_close f units inited ordered iter children = order_close g units inited ordered iter children'"
    "aggre_close env f started eof s children = aggre_close env g started eof s children'"
  using assms by (auto split: list.split cong: if_cong)

fun close_oper :: "EvalEnv \<Rightarrow> PhysicalOperator \<Rightarrow> (RC \<times> PhysicalOperator) option" where
  "close_oper env (TableScan rel readonly predicates recs tuples) = Some (SUCCESS, TableScan rel readonly predicates recs tuples)"
| "close_oper env (Predicate e children) = predicate_close (close_oper env) e children"
| "close_oper env (Project exprs children) = project_close (close_oper env) exprs children"
| "close_oper env (NestedLoopJoin round_done right_closed lt rt children) =
     join_close (close_oper env) round_done right_closed lt rt children"
| "close_oper env (Order units inited ordered iter children) = order_close (close_oper env) units inited ordered iter children"
| "close_oper env (Aggre started eof s children) = aggre_close env (close_oper env) started eof s children"

text \<open>The pointer that \<open>current_tuple\<close> returns.\<close>

definition project_current :: "EvalEnv \<Rightarrow> Expression list \<Rightarrow> Tuple option \<Rightarrow> Tuple" where
  "project_current env exprs t = ProjectTuple (map (projection_spec env) exprs) t"

definition join_current :: "Tuple option \<Rightarrow> Tuple option \<Rightarrow> Tuple option option" where
  "join_current lt rt = (case (lt, rt) of (Some l, Some r) \<Rightarrow> Some (Some (JoinedTuple l r)) | _ \<Rightarrow> None)"

definition order_current :: "Tuple list \<Rightarrow> nat \<Rightarrow> Tuple option option" where
  "order_current ordered iter =
     (if ordered = [] then Some None else if iter < length ordered then Some (Some (ordered ! iter)) else None)"

lemmas current_defs [simp] = project_current_def join_current_def order_current_def

fun current_tuple :: "EvalEnv \<Rightarrow> PhysicalOperator \<Rightarrow> Tuple option option" where
  "current_tuple env (TableScan rel readonly predicates recs tuples) = (if tuples = [] then None else Some (Some (last tuples)))"
| "current_tuple env (Predicate e children) = (case children of [] \<Rightarrow> None | child # _ \<Rightarrow> current_tuple env child)"
| "current_tuple env (Project exprs children) =
     (case children of
        [] \<Rightarrow> None
      | child # _ \<Rightarrow> map_option (\<lambda>t. Some (project_current env exprs t)) (current_tuple env child))"
| "current_tuple env (NestedLoopJoin round_done right_closed lt rt children) = join_current lt rt"
| "current_tuple env (Order units inited ordered iter children) = order_current ordered iter"
| "current_tuple env (Aggre started eof s children) = Some (Some (aggre_view s))"


section \<open>The next tuple\<close>

text \<open>\<open>TableScanPhysicalOperator::filter\<close>, with the variable \<open>value\<close> that the predicates share.\<close>

fun scan_filter :: "EvalEnv \<Rightarrow> Tuple \<Rightarrow> Value \<Rightarrow> Expression list \<Rightarrow> (RC \<times> bool) option" where
  "scan_filter env t v [] = Some (SUCCESS, True)"
| "scan_filter env t v (e # es) =
     Option.bind (get_value env t e v) (\<lambda>(rc, v).
       if rc \<noteq> SUCCESS then Some (rc, False)
       else if \<not> get_boolean (ee_fo env) v then Some (rc, False)
       else scan_filter env t v es)"

text \<open>
  \<open>TableScanPhysicalOperator::next\<close>: the return code, the records that are left and the new tuple. The tuple holds the bytes of
  its record. \<open>RowTuple::set_record\<close> (\<^verbatim>\<open>tuple.h:136\<close>) keeps a record that does not own its bytes but points into a page, and a
  sort or a join reads it after the scan has moved on: the model is that of a query whose pages stay in their frames until it is closed.
\<close>

fun scan_next :: "EvalEnv \<Rightarrow> Relation \<Rightarrow> Expression list \<Rightarrow> byte list list \<Rightarrow> (RC \<times> byte list list \<times> Tuple list) option" where
  "scan_next env rel predicates [] = Some (RECORD_EOF, [], [])"
| "scan_next env rel predicates (record # records) =
     Option.bind (scan_filter env (RowTuple (rl_meta rel) record) (Value_init env) predicates) (\<lambda>(rc, filter_result).
       if rc \<noteq> SUCCESS then Some (rc, records, [])
       else if filter_result then Some (SUCCESS, records, [RowTuple (rl_meta rel) record])
       else scan_next env rel predicates records)"

text \<open>
  \<open>next\<close> of the other classes, with \<open>next\<close> of the operators below as an argument. The loops of the
  predicate, of the initialisation of a sort and of the aggregation, which take tuples from the child, call
  it on the changed operator itself.
\<close>

definition predicate_next :: "EvalEnv \<Rightarrow> oper_call \<Rightarrow> Expression \<Rightarrow> PhysicalOperator list \<Rightarrow> (RC \<times> PhysicalOperator) option" where
  "predicate_next env nxt e children =
     (case children of
        [] \<Rightarrow> None
      | child # rest \<Rightarrow>
          Option.bind (nxt child) (\<lambda>(rc, child).
            if rc \<noteq> SUCCESS then Some (rc, Predicate e (child # rest))
            else
              Option.bind (current_tuple env child) (\<lambda>tuple.
                case tuple of
                  None \<Rightarrow> Some (INTERNAL, Predicate e (child # rest))
                | Some tuple \<Rightarrow>
                    Option.bind (do_expr e) (\<lambda>rc.
                      if rc \<noteq> SUCCESS then Some (rc, Predicate e (child # rest))
                      else
                        Option.bind (get_value env tuple e (Value_init env)) (\<lambda>(rc, v).
                          if rc \<noteq> SUCCESS then Some (rc, Predicate e (child # rest))
                          else if get_boolean (ee_fo env) v then Some (rc, Predicate e (child # rest))
                          else nxt (Predicate e (child # rest)))))))"

definition project_next :: "oper_call \<Rightarrow> Expression list \<Rightarrow> PhysicalOperator list \<Rightarrow> (RC \<times> PhysicalOperator) option" where
  "project_next nxt exprs children =
     (case children of
        [] \<Rightarrow> Some (RECORD_EOF, Project exprs [])
      | child # rest \<Rightarrow> Option.bind (nxt child) (\<lambda>(rc, child). Some (rc, Project exprs (child # rest))))"

text \<open>
  The join, with \<open>left_next\<close> and \<open>right_next\<close>. The round of the right side is done whenever the left side
  steps, so that \<open>right_next\<close> opens the right side again then.
\<close>

definition join_step ::
  "EvalEnv \<Rightarrow> oper_call \<Rightarrow> bool \<Rightarrow> Tuple option \<Rightarrow> Tuple option \<Rightarrow> PhysicalOperator \<Rightarrow> PhysicalOperator \<Rightarrow>
   (RC \<times> PhysicalOperator) option" where
  "join_step env nxt right_closed lt rt left right =
     Option.bind (nxt left) (\<lambda>(rc, left).
       if rc \<noteq> SUCCESS then Some (rc, NestedLoopJoin True right_closed lt rt [left, right])
       else
         Option.bind (current_tuple env left) (\<lambda>lt.
           Option.bind (if right_closed then Some (SUCCESS, right) else close_oper env right) (\<lambda>(rc, right).
             if rc \<noteq> SUCCESS then Some (rc, NestedLoopJoin True True lt rt [left, right])
             else
               Option.bind (open_oper env right) (\<lambda>(rc, right).
                 if rc \<noteq> SUCCESS then Some (rc, NestedLoopJoin True True lt rt [left, right])
                 else
                   Option.bind (nxt right) (\<lambda>(rc, right).
                     if rc \<noteq> SUCCESS then Some (rc, NestedLoopJoin (rc = RECORD_EOF) False lt rt [left, right])
                     else
                       Option.bind (current_tuple env right) (\<lambda>rt.
                         Some (rc, NestedLoopJoin False False lt rt [left, right])))))))"

definition join_next ::
  "EvalEnv \<Rightarrow> oper_call \<Rightarrow> bool \<Rightarrow> bool \<Rightarrow> Tuple option \<Rightarrow> Tuple option \<Rightarrow> PhysicalOperator list \<Rightarrow>
   (RC \<times> PhysicalOperator) option" where
  "join_next env nxt round_done right_closed lt rt children =
     (case children of
        [left, right] \<Rightarrow>
          if round_done then join_step env nxt right_closed lt rt left right
          else
            Option.bind (nxt right) (\<lambda>(rc, right).
              if rc = SUCCESS
              then Option.bind (current_tuple env right) (\<lambda>rt. Some (rc, NestedLoopJoin False right_closed lt rt [left, right]))
              else if rc \<noteq> RECORD_EOF then Some (rc, NestedLoopJoin False right_closed lt rt [left, right])
              else join_step env nxt right_closed lt rt left right)
      | _ \<Rightarrow> None)"

text \<open>The sort takes all tuples from its child first, and takes an error of the child for the end.\<close>

definition order_next ::
  "EvalEnv \<Rightarrow> std_sort \<Rightarrow> oper_call \<Rightarrow> OrderByUnit list \<Rightarrow> bool \<Rightarrow> Tuple list \<Rightarrow> nat \<Rightarrow> PhysicalOperator list \<Rightarrow>
   (RC \<times> PhysicalOperator) option" where
  "order_next env srt nxt units inited ordered iter children =
     (if inited
      then Some (if ordered = [] \<or> iter + 1 = length ordered then RECORD_EOF else SUCCESS,
             Order units True ordered (if ordered = [] then iter else iter + 1) children)
      else
        case children of
          [] \<Rightarrow> None
        | child # rest \<Rightarrow>
            Option.bind (nxt child) (\<lambda>(rc, child).
              if rc = SUCCESS
              then Option.bind (current_tuple env child) (\<lambda>tuple.
                case tuple of
                  None \<Rightarrow> Some (INTERNAL, Order units False ordered iter (child # rest))
                | Some t \<Rightarrow> nxt (Order units False (ordered @ [t]) iter (child # rest)))
              else Some (SUCCESS, Order units True (srt (comprule env units) ordered) 0 (child # rest))))"

definition aggre_next ::
  "EvalEnv \<Rightarrow> oper_call \<Rightarrow> bool \<Rightarrow> bool \<Rightarrow> AggreState \<Rightarrow> PhysicalOperator list \<Rightarrow> (RC \<times> PhysicalOperator) option" where
  "aggre_next env nxt started eof s children =
     (if eof then Some (RECORD_EOF, Aggre started eof s children)
      else
        case children of
          [] \<Rightarrow> Some (SUCCESS, Aggre started True s [])
        | child # rest \<Rightarrow>
            Option.bind (nxt child) (\<lambda>(rc, child).
              if rc = SUCCESS
              then Option.bind (current_tuple env child) (\<lambda>tuple.
                Option.bind (do_aggregation env ((if started then s else do_aggregation_begin s)\<lparr>ag_tuple := tuple\<rparr>)) (\<lambda>s.
                  nxt (Aggre True False s (child # rest))))
              else if rc = RECORD_EOF
              then Some (SUCCESS, Aggre started True (if started then do_aggregation_end env s else s) (child # rest))
              else Some (rc, Aggre started False s (child # rest))))"

lemma mono_case:
  "(\<And>a b. mono_option (\<lambda>f. P f a b)) \<Longrightarrow> mono_option (\<lambda>f. case x of (a, b) \<Rightarrow> P f a b)"
  "mono_option Q \<Longrightarrow> (\<And>a. mono_option (\<lambda>f. R f a)) \<Longrightarrow> mono_option (\<lambda>f. case y of None \<Rightarrow> Q f | Some a \<Rightarrow> R f a)"
  "mono_option N \<Longrightarrow> (\<And>a as. mono_option (\<lambda>f. C f a as)) \<Longrightarrow> mono_option (\<lambda>f. case l of [] \<Rightarrow> N f | a # as \<Rightarrow> C f a as)"
  by (cases x; cases y; cases l; simp)+

lemma next_mono [partial_function_mono]:
  assumes "\<And>p. mono_option (\<lambda>f. F f p)"
  shows "mono_option (\<lambda>f. predicate_next env (F f) e children)"
    "mono_option (\<lambda>f. project_next (F f) exprs children)"
    "mono_option (\<lambda>f. join_next env (F f) round_done right_closed lt rt children)"
    "mono_option (\<lambda>f. order_next env srt (F f) units inited ordered iter children)"
    "mono_option (\<lambda>f. aggre_next env (F f) started eof s children)"
  unfolding predicate_next_def project_next_def join_next_def join_step_def order_next_def aggre_next_def
  by (intro mono_case bind_mono if_mono option.const_mono assms)+

partial_function (option) next_oper ::
  "EvalEnv \<Rightarrow> std_sort \<Rightarrow> PhysicalOperator \<Rightarrow> (RC \<times> PhysicalOperator) option" where
  "next_oper env srt oper =
     (case oper of
        TableScan rel readonly predicates recs tuples \<Rightarrow>
          map_option (\<lambda>(rc, recs, ts). (rc, TableScan rel readonly predicates recs (tuples @ ts))) (scan_next env rel predicates recs)
      | Predicate e children \<Rightarrow> predicate_next env (\<lambda>p. next_oper env srt p) e children
      | Project exprs children \<Rightarrow> project_next (\<lambda>p. next_oper env srt p) exprs children
      | NestedLoopJoin round_done right_closed lt rt children \<Rightarrow>
          join_next env (\<lambda>p. next_oper env srt p) round_done right_closed lt rt children
      | Order units inited ordered iter children \<Rightarrow>
          order_next env srt (\<lambda>p. next_oper env srt p) units inited ordered iter children
      | Aggre started eof s children \<Rightarrow> aggre_next env (\<lambda>p. next_oper env srt p) started eof s children)"

lemma next_oper_simps [simp]:
  "next_oper env srt (TableScan rel readonly predicates recs tuples) =
     map_option (\<lambda>(rc, recs, ts). (rc, TableScan rel readonly predicates recs (tuples @ ts))) (scan_next env rel predicates recs)"
  "next_oper env srt (Predicate e children) = predicate_next env (next_oper env srt) e children"
  "next_oper env srt (Project exprs children) = project_next (next_oper env srt) exprs children"
  "next_oper env srt (NestedLoopJoin round_done right_closed lt rt children) =
     join_next env (next_oper env srt) round_done right_closed lt rt children"
  "next_oper env srt (Order units inited ordered iter children) =
     order_next env srt (next_oper env srt) units inited ordered iter children"
  "next_oper env srt (Aggre started eof s children) = aggre_next env (next_oper env srt) started eof s children"
  by (subst next_oper.simps, simp)+


section \<open>Physical plans\<close>

text \<open>
  \<open>create\<close> and \<open>create_plan\<close> of \<^verbatim>\<open>physical_plan_generator.cpp\<close> for the operators of a select statement, on
  tables without an index. The operator is an option, since a sort without a child leaves the pointer
  null; the outer \<open>None\<close> is a failed assertion or a null pointer in the list of children.
\<close>

type_synonym oper_create = "LogicalOperator \<Rightarrow> (RC \<times> PhysicalOperator option) option"

definition physical_predicate :: "oper_create \<Rightarrow> Expression list \<Rightarrow> LogicalOperator list \<Rightarrow> (RC \<times> PhysicalOperator option) option" where
  "physical_predicate create es cs =
     (case cs of
        [c] \<Rightarrow>
          Option.bind (create c) (\<lambda>(rc, child).
            if rc \<noteq> SUCCESS then Some (rc, None)
            else
              case (es, child) of
                ([e], Some child) \<Rightarrow>
                  if value_type e = Some BOOLEANS then Some (SUCCESS, Some (Predicate e [child])) else None
              | _ \<Rightarrow> None)
      | _ \<Rightarrow> None)"

definition physical_project :: "oper_create \<Rightarrow> Expression list \<Rightarrow> LogicalOperator list \<Rightarrow> (RC \<times> PhysicalOperator option) option" where
  "physical_project create exprs cs =
     (case cs of
        [] \<Rightarrow> Some (SUCCESS, Some (Project exprs []))
      | c # _ \<Rightarrow>
          Option.bind (create c) (\<lambda>(rc, child).
            if rc \<noteq> SUCCESS then Some (rc, None)
            else Some (SUCCESS, Some (Project exprs (case child of None \<Rightarrow> [] | Some child \<Rightarrow> [child])))))"

definition physical_join :: "oper_create \<Rightarrow> LogicalOperator list \<Rightarrow> (RC \<times> PhysicalOperator option) option" where
  "physical_join create cs =
     (case cs of
        [left, right] \<Rightarrow>
          Option.bind (create left) (\<lambda>(rc, l).
            if rc \<noteq> SUCCESS then Some (rc, None)
            else
              Option.bind (create right) (\<lambda>(rc, r).
                if rc \<noteq> SUCCESS then Some (rc, None)
                else
                  case (l, r) of
                    (Some l, Some r) \<Rightarrow> Some (SUCCESS, Some (NestedLoopJoin True True None None [l, r]))
                  | _ \<Rightarrow> None))
      | _ \<Rightarrow> Some (INTERNAL, None))"

definition physical_order :: "oper_create \<Rightarrow> OrderByUnit list \<Rightarrow> LogicalOperator list \<Rightarrow> (RC \<times> PhysicalOperator option) option" where
  "physical_order create units cs =
     (case cs of
        [] \<Rightarrow> Some (SUCCESS, None)
      | c # _ \<Rightarrow>
          Option.bind (create c) (\<lambda>(rc, child).
            if rc \<noteq> SUCCESS then Some (rc, None)
            else Some (SUCCESS, Some (Order units False [] 0 (case child of None \<Rightarrow> [] | Some child \<Rightarrow> [child])))))"

definition physical_aggre ::
  "EvalEnv \<Rightarrow> oper_create \<Rightarrow> AggreExpression list \<Rightarrow> LogicalOperator list \<Rightarrow> (RC \<times> PhysicalOperator option) option" where
  "physical_aggre env create exprs cs =
     (case cs of
        [] \<Rightarrow> Some (SUCCESS, Some (Aggre False False (AggregationTuple_init env exprs) []))
      | [c] \<Rightarrow>
          Option.bind (create c) (\<lambda>(rc, child).
            if rc \<noteq> SUCCESS then Some (rc, None)
            else Some (SUCCESS, Some (Aggre False False (AggregationTuple_init env exprs)
                   (case child of None \<Rightarrow> [] | Some child \<Rightarrow> [child]))))
      | _ \<Rightarrow> None)"

lemmas physical_defs [simp] = physical_predicate_def physical_project_def physical_join_def physical_order_def physical_aggre_def

lemma physical_cong [fundef_cong]:
  assumes "cs = cs'" "\<And>c. c \<in> set cs' \<Longrightarrow> f c = g c"
  shows "physical_predicate f es cs = physical_predicate g es cs'"
    "physical_project f exprs cs = physical_project g exprs cs'"
    "physical_join f cs = physical_join g cs'"
    "physical_order f units cs = physical_order g units cs'"
    "physical_aggre env f aggres cs = physical_aggre env g aggres cs'"
  using assms by (auto split: list.split cong: if_cong)

fun create_physical :: "EvalEnv \<Rightarrow> LogicalOperator \<Rightarrow> (RC \<times> PhysicalOperator option) option" where
  "create_physical env (LogicalOperator d es cs) =
     (case d of
        TABLE_GET rel readonly predicates \<Rightarrow> Some (SUCCESS, Some (TableScan rel readonly predicates [] []))
      | PREDICATE \<Rightarrow> physical_predicate (create_physical env) es cs
      | PROJECTION exprs \<Rightarrow> physical_project (create_physical env) exprs cs
      | JOIN \<Rightarrow> physical_join (create_physical env) cs
      | ORDER_BY units \<Rightarrow> physical_order (create_physical env) units cs
      | AGGREGATION exprs \<Rightarrow> physical_aggre env (create_physical env) exprs cs
      | _ \<Rightarrow> None)"


section \<open>The reply to the client\<close>

text \<open>
  \<^verbatim>\<open>sql_result.cpp\<close>. Outside a transaction of several statements, closing the result ends the transaction;
  \<open>commit\<close> is the return code of its commit, \<open>None\<close> inside such a transaction.
\<close>

definition SqlResult_next_tuple ::
  "EvalEnv \<Rightarrow> std_sort \<Rightarrow> PhysicalOperator \<Rightarrow> (RC \<times> Tuple option \<times> PhysicalOperator) option" where
  "SqlResult_next_tuple env srt oper =
     Option.bind (next_oper env srt oper) (\<lambda>(rc, oper).
       if rc \<noteq> SUCCESS then Some (rc, None, oper)
       else map_option (\<lambda>tuple. (rc, tuple, oper)) (current_tuple env oper))"

definition SqlResult_close :: "EvalEnv \<Rightarrow> RC option \<Rightarrow> PhysicalOperator \<Rightarrow> RC option" where
  "SqlResult_close env commit oper =
     map_option (\<lambda>(rc, oper). case commit of None \<Rightarrow> rc | Some rc_commit \<Rightarrow> if rc = SUCCESS then rc_commit else rc)
       (close_oper env oper)"

text \<open>
  \<^verbatim>\<open>write_result_internal\<close> of \<^verbatim>\<open>plain_communicator.cpp\<close>, as the calls of the buffered writer, which do not
  fail here. The names are the aliases of the schema.
\<close>

datatype WriterCall = Writen "byte list" | Clear

definition delim :: "byte list" where
  "delim = [32, 124, 32]"

definition write_state :: "RC \<Rightarrow> WriterCall list" where
  "write_state return_code =
     [Writen (if return_code = SUCCESS then [83, 85, 67, 67, 69, 83, 83, 10] else [70, 65, 73, 76, 85, 82, 69, 10])]"

fun write_names :: "nat \<Rightarrow> byte list list \<Rightarrow> WriterCall list" where
  "write_names i [] = []"
| "write_names i (alias # names) = (if 0 \<noteq> i then [Writen delim] else []) @ Writen alias # write_names (i + 1) names"

definition write_header :: "byte list list \<Rightarrow> WriterCall list" where
  "write_header names = write_names 0 names @ (if names \<noteq> [] then [Writen [10]] else [])"

fun write_cells :: "EvalEnv \<Rightarrow> Tuple \<Rightarrow> nat list \<Rightarrow> (RC \<times> WriterCall list) option" where
  "write_cells env tuple [] = Some (SUCCESS, [])"
| "write_cells env tuple (i # is) =
     (let delims = (if i \<noteq> 0 then [Writen delim] else []) in
      Option.bind (tuple_cell_at env tuple (int i) (Value_init env)) (\<lambda>(rc, value).
        if rc \<noteq> SUCCESS then Some (rc, delims)
        else map_option (\<lambda>(rc, calls). (rc, delims @ Writen (value_to_string (ee_fo env) value) # calls)) (write_cells env tuple is)))"

text \<open>The loop over the tuples; the flag tells whether it ended, or returned for a cell that cannot be read.\<close>

partial_function (option) write_rows ::
  "EvalEnv \<Rightarrow> std_sort \<Rightarrow> WriterCall list \<Rightarrow> PhysicalOperator \<Rightarrow> (bool \<times> RC \<times> WriterCall list \<times> PhysicalOperator) option" where
  "write_rows env srt calls oper =
     Option.bind (SqlResult_next_tuple env srt oper) (\<lambda>(rc, tuple, oper).
       if rc \<noteq> SUCCESS then Some (True, rc, calls, oper)
       else
         case tuple of
           None \<Rightarrow> None
         | Some tuple \<Rightarrow>
             Option.bind (cell_num tuple) (\<lambda>n.
               Option.bind (write_cells env tuple [0..<n]) (\<lambda>(rc, cells).
                 if rc \<noteq> SUCCESS then Some (False, rc, calls @ cells, oper)
                 else write_rows env srt (calls @ cells @ [Writen [10]]) oper)))"

text \<open>The return code, \<open>need_disconnect\<close> and what was written.\<close>

definition write_result_internal ::
  "EvalEnv \<Rightarrow> std_sort \<Rightarrow> RC option \<Rightarrow> byte list list \<Rightarrow> PhysicalOperator \<Rightarrow> (RC \<times> bool \<times> WriterCall list) option" where
  "write_result_internal env srt commit names oper =
     Option.bind (open_oper env oper) (\<lambda>(rc, oper).
       if rc \<noteq> SUCCESS then map_option (\<lambda>_. (SUCCESS, False, write_state rc)) (SqlResult_close env commit oper)
       else
         Option.bind (write_rows env srt (write_header names) oper) (\<lambda>(ended, rc, calls, oper).
           Option.bind (SqlResult_close env commit oper) (\<lambda>rc_close.
             if \<not> ended then Some (rc, True, calls)
             else
               let calls = (if rc = RECORD_EOF then calls else calls @ [Clear]);
                   rc = (if rc = RECORD_EOF then SUCCESS else rc);
                   rc' = (if rc = SUCCESS then rc_close else rc)
               in if names = [] \<or> rc \<noteq> SUCCESS then Some (SUCCESS, False, calls @ write_state rc')
                  else Some (rc', False, calls))))"

end
