(* ===== verification/OptimizerProps.thy ===== *)
theory OptimizerProps
  imports Optimizer
begin

text \<open>
  The optimised plan of a select statement gives the same tuples as the plan of the generator, and the
  conjunctions for which it does not.

  \<^item> A \<open>condition\<close> is what the plan generator makes of a condition of the statement, or a boolean constant.
  \<^item> \<open>good_expr\<close> and \<open>good_plan\<close> describe the plans between the rounds of the optimizer.
\<close>

section \<open>Conditions and their truth\<close>

fun leaf :: "Expression \<Rightarrow> bool" where
  "leaf (FieldExpr table f) \<longleftrightarrow> True"
| "leaf (ValueExpr v) \<longleftrightarrow> True"
| "leaf (ValueListExpr vs) \<longleftrightarrow> length vs \<le> 1"
| "leaf _ \<longleftrightarrow> False"

fun condition :: "Expression \<Rightarrow> bool" where
  "condition (ComparisonExpr comp_op left right) \<longleftrightarrow> leaf left \<and> leaf right"
| "condition (InExpr left comp_op right) \<longleftrightarrow> leaf left"
| "condition (ValueExpr v) \<longleftrightarrow> attr_type v = BOOLEANS \<and> num_value v \<noteq> []"
| "condition _ \<longleftrightarrow> False"

definition env_ok :: "EvalEnv \<Rightarrow> bool" where
  "env_ok env \<longleftrightarrow> ee_junk_num env \<noteq> []"

lemma num_value_simps [simp]:
  "num_value (set_boolean b v) = [] \<longleftrightarrow> num_value v = []" "num_value (Value_init env) = ee_junk_num env"
  by (simp_all add: set_boolean_def Value_init_def set_null_def)

lemma leaf_value:
  assumes "leaf e" "of_rows t" "evaluable t e"
  shows "\<exists>w. get_value env t e v = Some (SUCCESS, w)"
proof (cases e)
  case (FieldExpr table f)
  then show ?thesis
    using find_cell_found [of t "TupleCellSpec_init (ee_junk_aggre env) table (fm_name f)" f env v] assms by (auto simp: TupleCellSpec_init_def)
next
  case (ValueListExpr vs)
  then show ?thesis using assms(1) by (cases vs) (auto simp: value_list_value_def)
qed (use assms in auto)

lemma condition_value:
  assumes "condition e" "of_rows t" "evaluable t e" "env_ok env" "num_value v \<noteq> []"
  shows "\<exists>w. get_value env t e v = Some (SUCCESS, w) \<and> num_value w \<noteq> [] \<and> get_boolean (ee_fo env) w = holds env t e"
proof (cases e)
  case (ComparisonExpr comp_op l r)
  then show ?thesis
    using leaf_value [of l t env "Value_init env"] leaf_value [of r t env "Value_init env"] assms
    by (auto simp: holds_def env_ok_def)
next
  case (InExpr l comp_op r)
  then show ?thesis using leaf_value [of l t env "Value_init env"] assms by (auto simp: holds_def env_ok_def)
next
  case (ValueExpr w)
  then show ?thesis using assms by (auto simp: holds_def)
qed (use assms in auto)

lemma conj_loop_holds:
  assumes "\<forall>c \<in> set cs. condition c \<and> evaluable t c" "of_rows t" "env_ok env" "num_value tmp \<noteq> []"
  shows "conj_loop env t type cs tmp v =
     Some (SUCCESS, set_boolean (if type = CONJ_AND then \<forall>c \<in> set cs. holds env t c else \<exists>c \<in> set cs. holds env t c) v)"
  using assms
proof (induction cs arbitrary: tmp)
  case Nil
  then show ?case by (cases type) simp_all
next
  case (Cons c cs)
  obtain w where w: "get_value env t c tmp = Some (SUCCESS, w)" "num_value w \<noteq> []" "get_boolean (ee_fo env) w = holds env t c"
    using condition_value [of c t env tmp] Cons(2-) by auto
  have IH: "conj_loop env t type cs w v =
     Some (SUCCESS, set_boolean (if type = CONJ_AND then \<forall>c \<in> set cs. holds env t c else \<exists>c \<in> set cs. holds env t c) v)"
    by (rule Cons(1)) (use Cons(2-) w in auto)
  show ?case
  proof (cases type)
    case CONJ_AND
    then show ?thesis using w IH by (cases "holds env t c") (simp_all add: Let_def)
  next
    case CONJ_OR
    then show ?thesis using w IH by (cases "holds env t c") (simp_all add: Let_def)
  qed
qed

lemma holds_conj:
  assumes "\<forall>c \<in> set cs. condition c \<and> evaluable t c" "of_rows t" "env_ok env"
  shows "holds env t (ConjunctionExpr type cs) \<longleftrightarrow>
    cs = [] \<or> (if type = CONJ_AND then \<forall>c \<in> set cs. holds env t c else \<exists>c \<in> set cs. holds env t c)"
proof -
  have n: "num_value (Value_init env) \<noteq> []" using assms(3) by (simp add: env_ok_def)
  show ?thesis unfolding holds_def [of env t "ConjunctionExpr type cs"]
    using conj_loop_holds [OF assms n, of type "Value_init env"] n by (auto simp del: num_value_simps(2))
qed

text \<open>The truth of a condition that is known without a tuple.\<close>

fun known :: "EvalEnv \<Rightarrow> Expression \<Rightarrow> bool option" where
  "known env (ValueExpr v) = Some (get_boolean (ee_fo env) v)"
| "known env (ComparisonExpr comp_op (ValueExpr l) (ValueExpr r)) = Some (compare_result env comp_op l r)"
| "known env _ = None"

lemma known_holds: "known env c = Some b \<Longrightarrow> env_ok env \<Longrightarrow> holds env t c \<longleftrightarrow> b"
  by (induction env c rule: known.induct) (auto simp: holds_def env_ok_def)

fun is_value :: "Expression \<Rightarrow> bool" where
  "is_value (ValueExpr v) \<longleftrightarrow> True"
| "is_value _ \<longleftrightarrow> False"

lemma is_value_iff: "is_value e \<longleftrightarrow> (\<exists>v. e = ValueExpr v)"
  by (cases e) simp_all

lemma bool_constant: "condition c \<Longrightarrow> try_to_get_bool_constant env c = (if is_value c then known env c else None)"
  by (cases c) simp_all

text \<open>
  The children of a conjunction that the optimizer treats correctly: unless no known child decides it,
  the first child that is not neutral does; an empty disjunction must not remain.
\<close>

definition safe :: "EvalEnv \<Rightarrow> ConjunctionType \<Rightarrow> Expression list \<Rightarrow> bool" where
  "safe env type cs \<longleftrightarrow>
     (case find (\<lambda>c. known env c \<noteq> Some (type = CONJ_AND)) cs of
        None \<Rightarrow> type = CONJ_AND
      | Some c \<Rightarrow> known env c = Some (type = CONJ_OR) \<or> (\<forall>c \<in> set cs. known env c \<noteq> Some (type = CONJ_OR)))"

text \<open>Before the first round no child is a constant; afterwards all known children are.\<close>

definition raw_or_folded :: "EvalEnv \<Rightarrow> Expression list \<Rightarrow> bool" where
  "raw_or_folded env cs \<longleftrightarrow> (\<forall>c \<in> set cs. \<not> is_value c) \<or> (\<forall>c \<in> set cs. known env c \<noteq> None \<longrightarrow> is_value c)"

fun good_expr :: "EvalEnv \<Rightarrow> Expression \<Rightarrow> bool" where
  "good_expr env (ConjunctionExpr type cs) \<longleftrightarrow> (\<forall>c \<in> set cs. condition c) \<and> raw_or_folded env cs \<and> safe env type cs"
| "good_expr env e \<longleftrightarrow> condition e"

fun no_pushable :: "Expression \<Rightarrow> bool" where
  "no_pushable (ConjunctionExpr type cs) \<longleftrightarrow> (\<forall>c \<in> set cs. no_pushable c)"
| "no_pushable (ComparisonExpr comp_op l r) \<longleftrightarrow> \<not> pushable comp_op l r"
| "no_pushable _ \<longleftrightarrow> True"



section \<open>Rewriting an expression\<close>

lemma rewrite_leaf: "leaf e \<Longrightarrow> rewrite_expression env e = (e, False)"
  by (cases e; subst rewrite_expression.simps) (simp_all add: ComparisonSimplificationRule_rewrite_def)

text \<open>A known comparison becomes a constant, every other condition stays as it is.\<close>

definition folded :: "EvalEnv \<Rightarrow> Expression \<Rightarrow> Expression" where
  "folded env e =
     (case e of
        ComparisonExpr comp_op (ValueExpr l) (ValueExpr r) \<Rightarrow>
          ValueExpr (set_boolean (compare_result env comp_op l r) (Value_init env))
      | _ \<Rightarrow> e)"

lemma rewrite_condition: "condition e \<Longrightarrow> fst (rewrite_expression env e) = folded env e"
proof (cases e)
  case (ComparisonExpr comp_op l r)
  assume "condition e"
  then have l: "leaf l" "leaf r" using ComparisonExpr by simp_all
  show ?thesis
  proof (cases "is_value l \<and> is_value r")
    case True
    then show ?thesis unfolding rewrite_expression.simps [of env e] using ComparisonExpr
      by (auto simp: is_value_iff folded_def ComparisonSimplificationRule_rewrite_def)
  next
    case False
    then have "ComparisonSimplificationRule_rewrite env e = (e, False)" "folded env e = e"
      using comparison_rule_cases [of env e] ComparisonExpr by (auto simp: is_value_iff folded_def split: Expression.splits)
    then show ?thesis unfolding rewrite_expression.simps [of env e] using ComparisonExpr rewrite_leaf [OF l(1)] rewrite_leaf [OF l(2)]
      by simp
  qed
qed (subst rewrite_expression.simps, simp add: folded_def ComparisonSimplificationRule_rewrite_def)+

lemma folded_facts:
  assumes "condition c" "env_ok env"
  shows "condition (folded env c)" "known env (folded env c) = known env c" "evaluable t c \<Longrightarrow> evaluable t (folded env c)"
    "known env c \<noteq> None \<Longrightarrow> is_value (folded env c)" "holds env t (folded env c) = holds env t c"
    "no_pushable c \<Longrightarrow> no_pushable (folded env c)"
proof -
  have cases: "folded env c = c \<and> (known env c \<noteq> None \<longrightarrow> is_value c) \<or>
      (\<exists>comp_op l r. c = ComparisonExpr comp_op (ValueExpr l) (ValueExpr r))"
    by (induction env c rule: known.induct) (auto simp: folded_def split: Expression.splits)
  have n: "num_value (Value_init env) \<noteq> []" using assms(2) by (simp add: env_ok_def)
  show k: "known env (folded env c) = known env c" using cases n by (auto simp: folded_def)
  show "condition (folded env c)" "evaluable t c \<Longrightarrow> evaluable t (folded env c)"
    "known env c \<noteq> None \<Longrightarrow> is_value (folded env c)" "no_pushable c \<Longrightarrow> no_pushable (folded env c)"
    using cases n assms(1) by (auto simp: folded_def)
  show "holds env t (folded env c) = holds env t c"
    using cases known_holds [of env c _ t] known_holds [of env "folded env c" _ t] k assms(2) by auto
qed

lemma safe_filter:
  assumes "\<forall>c \<in> set cs. \<not> P c \<longrightarrow> known env c = Some (type = CONJ_AND)"
  shows "safe env type (filter P cs) \<longleftrightarrow> safe env type cs"
proof -
  have "find (\<lambda>c. known env c \<noteq> Some (type = CONJ_AND)) (filter P cs) = find (\<lambda>c. known env c \<noteq> Some (type = CONJ_AND)) cs"
    using assms by (induction cs) auto
  moreover have "(\<forall>c \<in> set (filter P cs). known env c \<noteq> Some (type = CONJ_OR)) \<longleftrightarrow> (\<forall>c \<in> set cs. known env c \<noteq> Some (type = CONJ_OR))"
    using assms by (cases type) auto
  ultimately show ?thesis by (simp add: safe_def split: option.splits)
qed

lemma safe_map:
  assumes "\<forall>c \<in> set cs. known env (f c) = known env c"
  shows "safe env type (map f cs) \<longleftrightarrow> safe env type cs"
proof -
  have "find (\<lambda>c. known env c \<noteq> Some (type = CONJ_AND)) (map f cs) = map_option f (find (\<lambda>c. known env c \<noteq> Some (type = CONJ_AND)) cs)"
    using assms by (induction cs) auto
  moreover have "c \<in> set cs" if "find (\<lambda>c. known env c \<noteq> Some (type = CONJ_AND)) cs = Some c" for c
    using that by (auto simp: find_Some_iff)
  ultimately show ?thesis using assms by (auto simp: safe_def split: option.splits)
qed

lemma safe_nonempty: "safe env CONJ_OR cs \<Longrightarrow> cs \<noteq> []"
  by (auto simp: safe_def)

text \<open>
  One rewriting of a good expression: the truth on every tuple, the fields that are needed and the
  form stay.
\<close>

definition same_expr :: "EvalEnv \<Rightarrow> Expression \<Rightarrow> Expression \<Rightarrow> bool" where
  "same_expr env e e' \<longleftrightarrow>
     good_expr env e' \<and> (no_pushable e \<longrightarrow> no_pushable e') \<and>
     (\<forall>t. of_rows t \<longrightarrow> evaluable t e \<longrightarrow> evaluable t e' \<and> holds env t e' = holds env t e)"

lemma conj_undecided:
  assumes "env_ok env" "\<forall>c \<in> set cs. condition c" "raw_or_folded env cs" "safe env type cs" "\<forall>c \<in> set cs. \<not> decides env type c"
  defines "rest \<equiv> filter (\<lambda>c. \<not> is_value c) cs"
  shows "same_expr env (ConjunctionExpr type cs) (ConjunctionExpr type (map (folded env) rest))"
    "length rest = 1 \<Longrightarrow> same_expr env (ConjunctionExpr type cs) (hd rest)"
proof -
  have neutral: "known env c = Some (type = CONJ_AND)" if "c \<in> set cs" "is_value c" for c
    using that assms(2,5) bool_constant [of c env] by (cases type) (auto simp: decides_def is_value_iff)
  have safe: "safe env type rest" unfolding rest_def using safe_filter [of cs "\<lambda>c. \<not> is_value c" env type] neutral assms(4) by blast
  have truth: "holds env t (ConjunctionExpr type rest) = holds env t (ConjunctionExpr type cs)"
    if t: "of_rows t" "\<forall>c \<in> set cs. evaluable t c" for t
  proof -
    have v: "holds env t c \<longleftrightarrow> type = CONJ_AND" if "c \<in> set cs" "is_value c" for c
      using known_holds [OF neutral [OF that] assms(1)] .
    have "holds env t (ConjunctionExpr type cs) \<longleftrightarrow>
        cs = [] \<or> (if type = CONJ_AND then \<forall>c \<in> set cs. holds env t c else \<exists>c \<in> set cs. holds env t c)"
      by (rule holds_conj) (use assms(1,2) t in auto)
    moreover have "holds env t (ConjunctionExpr type rest) \<longleftrightarrow>
        rest = [] \<or> (if type = CONJ_AND then \<forall>c \<in> set rest. holds env t c else \<exists>c \<in> set rest. holds env t c)"
      by (rule holds_conj) (use assms(1,2) t in \<open>auto simp: rest_def\<close>)
    ultimately show ?thesis using v safe_nonempty [of env rest] safe by (cases type) (auto simp: rest_def filter_empty_conv)
  qed
  have fold: "holds env t (ConjunctionExpr type (map (folded env) rest)) = holds env t (ConjunctionExpr type rest)"
    if t: "of_rows t" "\<forall>c \<in> set cs. evaluable t c" for t
  proof -
    have "holds env t (ConjunctionExpr type (map (folded env) rest)) \<longleftrightarrow> map (folded env) rest = [] \<or>
        (if type = CONJ_AND then \<forall>c \<in> set (map (folded env) rest). holds env t c else \<exists>c \<in> set (map (folded env) rest). holds env t c)"
      by (rule holds_conj) (use assms(1,2) t folded_facts in \<open>auto simp: rest_def\<close>)
    moreover have "holds env t (ConjunctionExpr type rest) \<longleftrightarrow>
        rest = [] \<or> (if type = CONJ_AND then \<forall>c \<in> set rest. holds env t c else \<exists>c \<in> set rest. holds env t c)"
      by (rule holds_conj) (use assms(1,2) t in \<open>auto simp: rest_def\<close>)
    ultimately show ?thesis using assms(1,2) folded_facts(5) by (auto simp: rest_def)
  qed
  show "same_expr env (ConjunctionExpr type cs) (ConjunctionExpr type (map (folded env) rest))"
    unfolding same_expr_def
  proof (intro conjI allI impI)
    show "good_expr env (ConjunctionExpr type (map (folded env) rest))"
      using assms(1,2) safe safe_map [of rest env "folded env" type] folded_facts(1,2,4) by (auto simp: rest_def raw_or_folded_def)
  qed (use assms(1,2) truth fold folded_facts(3,6) in \<open>auto simp: rest_def\<close>)
  assume "length rest = 1"
  then obtain c where c: "rest = [c]" by (auto simp: length_Suc_conv)
  then have m: "c \<in> set cs" by (metis filter_is_subset list.set_intros(1) rest_def subsetD)
  show "same_expr env (ConjunctionExpr type cs) (hd rest)" unfolding same_expr_def
  proof (intro conjI allI impI)
    show "good_expr env (hd rest)" using assms(2) m c by (cases c) auto
    show "holds env t (hd rest) = holds env t (ConjunctionExpr type cs)" if "of_rows t" "evaluable t (ConjunctionExpr type cs)" for t
      using truth [of t] holds_conj [of "[c]" t env type] that assms(1,2) m c by (cases type) auto
  qed (use m c in auto)
qed


text \<open>A child that decides a folded conjunction takes its place.\<close>

lemma conj_decided:
  assumes "env_ok env" "\<forall>c \<in> set cs. condition c" "raw_or_folded env cs" "safe env type cs"
    "cs = pre @ d # post" "\<forall>c \<in> set pre. \<not> decides env type c" "decides env type d"
  shows "hd (filter (\<lambda>c. try_to_get_bool_constant env c = None) pre @ d # post) = d" "is_value d"
    "same_expr env (ConjunctionExpr type cs) d"
proof -
  have d: "is_value d" "known env d = Some (type = CONJ_OR)"
    using assms(2,5,7) bool_constant [of d env] by (auto simp: decides_def split: if_splits)
  then have all: "is_value c" if "c \<in> set cs" "known env c \<noteq> None" for c
    using assms(3,5) that by (auto simp: raw_or_folded_def)
  obtain c0 where c0: "find (\<lambda>c. known env c \<noteq> Some (type = CONJ_AND)) cs = Some c0" "known env c0 = Some (type = CONJ_OR)"
    using assms(4,5) d by (auto simp: safe_def find_None_iff split: option.splits)
  have pre: "known env c = Some (type = CONJ_AND)" if "c \<in> set pre" for c
  proof (rule ccontr)
    assume c: "known env c \<noteq> Some (type = CONJ_AND)"
    then have "c0 \<in> set pre" using c0(1) that unfolding assms(5) by (induction pre) (auto split: if_splits)
    moreover then have "is_value c0" using all c0(2) assms(5) by auto
    ultimately have "decides env type c0" using c0(2) assms(2,5) bool_constant [of c0 env] by (auto simp: decides_def)
    then show False using assms(6) \<open>c0 \<in> set pre\<close> by blast
  qed
  have "filter (\<lambda>c. try_to_get_bool_constant env c = None) pre = []"
    using pre all assms(2,5) bool_constant [of _ env] by (auto simp: filter_empty_conv)
  then show "hd (filter (\<lambda>c. try_to_get_bool_constant env c = None) pre @ d # post) = d" by simp
  show "is_value d" by (rule d(1))
  show "same_expr env (ConjunctionExpr type cs) d" unfolding same_expr_def
  proof (intro conjI allI impI)
    show "good_expr env d" using assms(2,5) d(1) by (auto simp: is_value_iff)
    show "holds env t d = holds env t (ConjunctionExpr type cs)" if "of_rows t" "evaluable t (ConjunctionExpr type cs)" for t
      using holds_conj [of cs t env type] known_holds [OF d(2) assms(1), of t] that assms(1,2,5) by (cases type) auto
  qed (use assms(5) d(1) in \<open>auto simp: is_value_iff\<close>)
qed

lemma same_expr_refl: "good_expr env e \<Longrightarrow> same_expr env e e"
  by (simp add: same_expr_def)

lemma rewrite_good:
  assumes "env_ok env" "good_expr env e"
  shows "same_expr env e (fst (rewrite_expression env e))"
proof (cases "condition e")
  case True
  have "good_expr env (folded env e)" using folded_facts(1) [OF True assms(1)] by (cases "folded env e") simp_all
  then show ?thesis using rewrite_condition [OF True, of env] folded_facts [OF True assms(1)] by (simp add: same_expr_def)
next
  case False
  then obtain type cs where e: "e = ConjunctionExpr type cs" using assms(2) by (cases e) auto
  have g: "\<forall>c \<in> set cs. condition c" "raw_or_folded env cs" "safe env type cs" using assms(2) e by simp_all
  have no: "ComparisonSimplificationRule_rewrite env e = (e, False)" by (simp add: e ComparisonSimplificationRule_rewrite_def)
  show ?thesis
  proof (cases rule: simplify_children_cases [of env type cs])
    case 1
    let ?rest = "filter (\<lambda>c. \<not> is_value c) cs"
    have r: "filter (\<lambda>c. try_to_get_bool_constant env c = None) cs = ?rest"
      by (rule filter_cong) (use g(1) bool_constant [of _ env] in \<open>auto simp: is_value_iff\<close>)
    have m: "map (fst \<circ> rewrite_expression env) ?rest = map (folded env) ?rest" using g(1) rewrite_condition by auto
    note same = conj_undecided [OF assms(1) g 1(2)]
    show ?thesis
    proof (cases "length ?rest = 1")
      case True
      then have "fst (rewrite_expression env e) = hd ?rest"
        unfolding rewrite_expression.simps [of env e] no using 1(1) r by (simp add: e)
      then show ?thesis using same(2) [OF True] e by simp
    next
      case False
      then have "fst (rewrite_expression env e) = ConjunctionExpr type (map (folded env) ?rest)"
        unfolding rewrite_expression.simps [of env e] no using 1(1) r m by (simp add: e)
      then show ?thesis using same(1) e by simp
    qed
  next
    case (2 pre d post)
    note same = conj_decided [OF assms(1) g 2(1-3)]
    have "fst (rewrite_expression env e) = d"
      unfolding rewrite_expression.simps [of env e] no using 2(4) same(1,2) by (auto simp: e is_value_iff)
    then show ?thesis using same(3) e by simp
  qed
qed



section \<open>Pushing conditions into a scan\<close>

lemma pushdown_condition:
  "condition c \<Longrightarrow> get_exprs_can_pushdown c ps = (if no_pushable c then (Some c, ps) else (None, ps @ [c]))"
  by (cases c) simp_all

lemma pushdown_conditions:
  "\<forall>c \<in> set cs. condition c \<Longrightarrow>
     pushdown_children cs ps = (filter no_pushable cs, ps @ filter (\<lambda>c. \<not> no_pushable c) cs)"
  by (induction cs arbitrary: ps) (simp_all add: pushdown_condition)

lemma pushable_unknown: "condition c \<Longrightarrow> \<not> no_pushable c \<Longrightarrow> known env c = None"
  by (induction env c rule: known.induct) (auto simp: pushable_def split: if_splits)

lemma safe_drop_unknown:
  assumes "safe env CONJ_AND cs" "\<forall>c \<in> set cs. \<not> P c \<longrightarrow> known env c = None"
  shows "safe env CONJ_AND (filter P cs)"
proof (cases "\<forall>c \<in> set cs. known env c \<noteq> Some False")
  case True
  then show ?thesis by (auto simp: safe_def split: option.splits)
next
  case False
  then obtain c0 where c0: "find (\<lambda>c. known env c \<noteq> Some True) cs = Some c0" "known env c0 = Some False"
    using assms(1) by (auto simp: safe_def find_None_iff split: option.splits)
  then have "find (\<lambda>c. known env c \<noteq> Some True) (filter P cs) = Some c0"
    using assms(2) by (induction cs) (auto split: if_splits)
  then show ?thesis using c0(2) by (simp add: safe_def)
qed

lemma true_value_holds: "env_ok env \<Longrightarrow> condition (ValueExpr (true_value env)) \<and> holds env t (ValueExpr (true_value env))"
  by (simp add: true_value_def holds_def env_ok_def)

lemma pushdown_good:
  assumes "env_ok env" "good_expr env e" "get_exprs_can_pushdown e [] = (rest, pushed)" "pushed \<noteq> []"
  defines "e' \<equiv> (case rest of None \<Rightarrow> ValueExpr (true_value env) | Some e \<Rightarrow> e)"
  shows "good_expr env e' \<and> no_pushable e' \<and> (\<forall>p \<in> set pushed. condition p) \<and>
    (\<forall>t. of_rows t \<longrightarrow> evaluable t e \<longrightarrow> evaluable t e' \<and> (\<forall>p \<in> set pushed. evaluable t p) \<and>
       (holds env t e \<longleftrightarrow> holds env t e' \<and> (\<forall>p \<in> set pushed. holds env t p)))"
proof (cases "condition e")
  case True
  then have "rest = None" "pushed = [e]" using assms(3,4) pushdown_condition [of e "[]"] by (auto split: if_splits)
  then show ?thesis using True true_value_holds [OF assms(1)] by (simp add: e'_def)
next
  case False
  then obtain type cs where e: "e = ConjunctionExpr type cs" using assms(2) by (cases e) auto
  have g: "\<forall>c \<in> set cs. condition c" "raw_or_folded env cs" "safe env type cs" using assms(2) e by simp_all
  have t: "type = CONJ_AND" using assms(3,4) e by (cases type) simp_all
  have r: "e' = ConjunctionExpr CONJ_AND (filter no_pushable cs)" "pushed = filter (\<lambda>c. \<not> no_pushable c) cs"
    using assms(3) pushdown_conditions [OF g(1), of "[]"] e t by (auto simp: e'_def)
  have "safe env CONJ_AND (filter no_pushable cs)"
    by (rule safe_drop_unknown) (use g t pushable_unknown in auto)
  then have "good_expr env e'" using g by (auto simp: r raw_or_folded_def)
  moreover have "holds env t e \<longleftrightarrow> holds env t e' \<and> (\<forall>p \<in> set pushed. holds env t p)" if "of_rows t" "evaluable t e" for t
  proof -
    have "holds env t e \<longleftrightarrow> (\<forall>c \<in> set cs. holds env t c)"
      using holds_conj [of cs t env CONJ_AND] that assms(1) g(1) by (auto simp: e \<open>type = CONJ_AND\<close>)
    moreover have "holds env t e' \<longleftrightarrow> (\<forall>c \<in> set (filter no_pushable cs). holds env t c)"
      using holds_conj [of "filter no_pushable cs" t env CONJ_AND] that assms(1) g(1) by (auto simp: e r filter_empty_conv)
    ultimately show ?thesis by (auto simp: r)
  qed
  ultimately show ?thesis using g(1) by (auto simp: r e)
qed

lemma pushdown_nothing:
  assumes "good_expr env e" "get_exprs_can_pushdown e [] = (Some e', [])"
  shows "e' = e"
proof (cases "condition e")
  case True
  then show ?thesis using assms(2) pushdown_condition [of e "[]"] by (auto split: if_splits)
next
  case False
  then obtain type cs where e: "e = ConjunctionExpr type cs" using assms(1) by (cases e) auto
  then show ?thesis using assms pushdown_conditions [of cs "[]"]
    by (cases type) (auto simp: filter_empty_conv)
qed



section \<open>Plans\<close>

text \<open>The operators below the predicate: the tables of the statement and their joins.\<close>

fun source_tuples :: "LogicalOperator \<Rightarrow> Tuple list" where
  "source_tuples (LogicalOperator (TABLE_GET rel readonly predicates) es cs) = table_tuples rel"
| "source_tuples (LogicalOperator JOIN es [l, r]) = concat (map (\<lambda>t. map (JoinedTuple t) (source_tuples r)) (source_tuples l))"
| "source_tuples _ = []"

fun source :: "LogicalOperator \<Rightarrow> bool" where
  "source (LogicalOperator (TABLE_GET rel readonly predicates) [] []) \<longleftrightarrow>
     (\<forall>p \<in> set predicates. condition p \<and> (\<forall>t \<in> set (table_tuples rel). evaluable t p))"
| "source (LogicalOperator JOIN [] [l, r]) \<longleftrightarrow> source l \<and> source r"
| "source _ \<longleftrightarrow> False"

text \<open>Conditions are pushed down at most once, since the scan forgets what was pushed down before.\<close>

definition pushed_once :: "LogicalOperator \<Rightarrow> Expression \<Rightarrow> bool" where
  "pushed_once c e \<longleftrightarrow>
     (case lo_data c of TABLE_GET rel readonly predicates \<Rightarrow> predicates \<noteq> [] \<longrightarrow> no_pushable e | _ \<Rightarrow> True)"

fun good_plan :: "EvalEnv \<Rightarrow> LogicalOperator \<Rightarrow> bool" where
  "good_plan env (LogicalOperator PREDICATE [e] [c]) \<longleftrightarrow>
     source c \<and> good_expr env e \<and> (\<forall>t \<in> set (source_tuples c). evaluable t e) \<and> pushed_once c e"
| "good_plan env (LogicalOperator (PROJECTION exprs) [] cs) \<longleftrightarrow> length cs \<le> 1 \<and> (\<forall>c \<in> set cs. good_plan env c)"
| "good_plan env (LogicalOperator (ORDER_BY units) [] cs) \<longleftrightarrow> length cs \<le> 1 \<and> (\<forall>c \<in> set cs. good_plan env c)"
| "good_plan env (LogicalOperator (AGGREGATION exprs) [] cs) \<longleftrightarrow> length cs \<le> 1 \<and> (\<forall>c \<in> set cs. good_plan env c)"
| "good_plan env p \<longleftrightarrow> source p"

lemma source_of_rows: "t \<in> set (source_tuples p) \<Longrightarrow> of_rows t"
  by (induction p arbitrary: t rule: source_tuples.induct) (auto simp: table_tuples_def)

lemma source_rows: "source p \<Longrightarrow> t \<in> set (plan_rows env srt p) \<Longrightarrow> t \<in> set (source_tuples p)"
  by (induction p arbitrary: t rule: source.induct) auto

lemma source_not_predicate: "source (LogicalOperator d es cs) \<Longrightarrow> d \<noteq> PREDICATE \<and> length cs \<noteq> 1"
  by (cases "LogicalOperator d es cs" rule: source.cases) auto

lemma source_fixed:
  "source p \<Longrightarrow> ExpressionRewriter_rewrite env p = (p, False)"
  "source p \<Longrightarrow> PredicateRewriteRule_rewrite env p = (p, False)"
  "source p \<Longrightarrow> PredicatePushdownRewriter_rewrite env p = (p, False)"
proof -
  show "source p \<Longrightarrow> ExpressionRewriter_rewrite env p = (p, False)" by (induction p rule: source.induct) simp_all
  show "source p \<Longrightarrow> PredicateRewriteRule_rewrite env p = (p, False)"
    using predicate_rewrite_cases [of env p] by (auto dest: source_not_predicate)
  show "source p \<Longrightarrow> PredicatePushdownRewriter_rewrite env p = (p, False)"
    using pushdown_cases [of env p] by (auto dest: source_not_predicate)
qed

lemma source_rewrite: "source p \<Longrightarrow> Rewriter_rewrite env p = (p, False)"
proof (induction p rule: source.induct)
  case (1 rel readonly predicates)
  then show ?case by (subst Rewriter_rewrite.simps) (simp add: apply_rules_def source_fixed)
next
  case (2 l r)
  then show ?case by (subst Rewriter_rewrite.simps) (simp add: apply_rules_def source_fixed del: ExpressionRewriter_rewrite.simps)
qed simp_all

lemma good_plan_cases:
  assumes "good_plan env p"
  obtains "source p"
    | e c where "p = LogicalOperator PREDICATE [e] [c]" "source c" "good_expr env e"
      "\<forall>t \<in> set (source_tuples c). evaluable t e" "pushed_once c e"
    | d cs where "p = LogicalOperator d [] cs" "length cs \<le> 1" "\<forall>c \<in> set cs. good_plan env c"
      "(\<exists>exprs. d = PROJECTION exprs) \<or> (\<exists>units. d = ORDER_BY units) \<or> (\<exists>exprs. d = AGGREGATION exprs)"
  using assms by (cases "(env, p)" rule: good_plan.cases) auto

lemma good_plan_unary:
  assumes "(\<exists>exprs. d = PROJECTION exprs) \<or> (\<exists>units. d = ORDER_BY units) \<or> (\<exists>exprs. d = AGGREGATION exprs)"
  shows "good_plan env (LogicalOperator d [] cs) \<longleftrightarrow> length cs \<le> 1 \<and> (\<forall>c \<in> set cs. good_plan env c)"
    "concat (map (plan_rows env srt) cs) = concat (map (plan_rows env srt) cs') \<Longrightarrow>
       plan_rows env srt (LogicalOperator d [] cs) = plan_rows env srt (LogicalOperator d [] cs')"
  using assms by auto

definition same_plan :: "EvalEnv \<Rightarrow> std_sort \<Rightarrow> LogicalOperator \<Rightarrow> LogicalOperator \<Rightarrow> bool" where
  "same_plan env srt p q \<longleftrightarrow> good_plan env q \<and> plan_rows env srt q = plan_rows env srt p"

lemma same_plan_unary:
  assumes "(\<exists>exprs. d = PROJECTION exprs) \<or> (\<exists>units. d = ORDER_BY units) \<or> (\<exists>exprs. d = AGGREGATION exprs)"
    "length cs \<le> 1" "\<forall>c \<in> set cs. same_plan env srt c (f c)"
  shows "same_plan env srt (LogicalOperator d [] cs) (LogicalOperator d [] (map f cs))"
proof -
  have "map (plan_rows env srt) (map f cs) = map (plan_rows env srt) cs" using assms(3) by (auto simp: same_plan_def)
  then have "plan_rows env srt (LogicalOperator d [] (map f cs)) = plan_rows env srt (LogicalOperator d [] cs)"
    by (intro good_plan_unary(2) [OF assms(1)]) (simp only:)
  moreover have "good_plan env (LogicalOperator d [] (map f cs))"
    unfolding good_plan_unary(1) [OF assms(1)] using assms(2,3) by (simp add: same_plan_def)
  ultimately show ?thesis by (simp only: same_plan_def)
qed

lemma expression_rewriter_same:
  assumes "env_ok env"
  shows "good_plan env p \<Longrightarrow> same_plan env srt p (fst (ExpressionRewriter_rewrite env p))"
proof (induction p)
  case (LogicalOperator d es cs)
  show ?case using LogicalOperator(2)
  proof (cases rule: good_plan_cases)
    case 1
    then show ?thesis using LogicalOperator(2) by (simp add: source_fixed same_plan_def del: ExpressionRewriter_rewrite.simps)
  next
    case (2 e c)
    then have same: "same_expr env e (fst (rewrite_expression env e))" using rewrite_good [OF assms] by simp
    have r: "holds env t (fst (rewrite_expression env e)) = holds env t e \<and> evaluable t (fst (rewrite_expression env e))"
      if "t \<in> set (source_tuples c)" for t
      using same 2(4) that source_of_rows [OF that] by (simp add: same_expr_def)
    have "filter (\<lambda>t. holds env t (fst (rewrite_expression env e))) (plan_rows env srt c) = filter (\<lambda>t. holds env t e) (plan_rows env srt c)"
      by (rule filter_cong) (use r source_rows [OF 2(2)] in auto)
    moreover have "pushed_once c (fst (rewrite_expression env e))" using same 2(5) by (auto simp: same_expr_def pushed_once_def split: OperatorData.splits)
    ultimately show ?thesis using 2 r same by (simp add: source_fixed same_plan_def same_expr_def)
  next
    case (3 d' cs')
    then show ?thesis using same_plan_unary [OF 3(4,2), of env srt "fst \<circ> ExpressionRewriter_rewrite env"] LogicalOperator(1)
      by (simp add: comp_def)
  qed
qed

lemma predicate_rewrite_same:
  assumes "env_ok env" "good_plan env p"
  shows "same_plan env srt p (fst (PredicateRewriteRule_rewrite env p))"
  using predicate_rewrite_cases [of env p]
proof (elim disjE exE conjE)
  fix d es v gs
  assume p: "p = LogicalOperator d es [LogicalOperator PREDICATE [ValueExpr v] gs]"
    and r: "PredicateRewriteRule_rewrite env p = (LogicalOperator d es (if get_boolean (ee_fo env) v then gs else []), True)"
  show ?thesis using assms(2)
  proof (cases rule: good_plan_cases)
    case 1
    then show ?thesis using p by (auto dest: source_not_predicate)
  next
    case (2 e c)
    then show ?thesis using p by (auto dest: source_not_predicate)
  next
    case (3 d' cs')
    then have g: "good_plan env (LogicalOperator PREDICATE [ValueExpr v] gs)" using p by auto
    then obtain c where c: "gs = [c]" "source c" by (cases "(env, LogicalOperator PREDICATE [ValueExpr v] gs)" rule: good_plan.cases) auto
    let ?gs = "if get_boolean (ee_fo env) v then gs else []"
    have d: "es = []" "d' = d" using 3(1) p by simp_all
    note unary = good_plan_unary [OF 3(4), unfolded d(2)]
    have "good_plan env c" using c(2) by (cases c rule: source.cases) auto
    then have "good_plan env (LogicalOperator d es ?gs)" unfolding d(1) unary(1) by (simp add: c(1))
    moreover have "concat (map (plan_rows env srt) ?gs) = concat (map (plan_rows env srt) [LogicalOperator PREDICATE [ValueExpr v] gs])"
      by (simp add: c holds_def)
    then have "plan_rows env srt (LogicalOperator d es ?gs) = plan_rows env srt p" unfolding p d(1) by (rule unary(2))
    ultimately show ?thesis by (simp only: same_plan_def r fst_conv)
  qed
qed (use assms in \<open>simp add: same_plan_def\<close>)

lemma pushdown_rewrite_same:
  assumes "env_ok env" "good_plan env p"
  shows "same_plan env srt p (fst (PredicatePushdownRewriter_rewrite env p))"
  using pushdown_cases [of env p]
proof (elim disjE exE conjE)
  fix e table readonly predicates es cs rest pushed
  assume p: "p = LogicalOperator PREDICATE [e] [LogicalOperator (TABLE_GET table readonly predicates) es cs]"
    and g: "get_exprs_can_pushdown e [] = (rest, pushed)" "pushed \<noteq> []"
    and r: "PredicatePushdownRewriter_rewrite env p =
        (LogicalOperator PREDICATE [case rest of None \<Rightarrow> ValueExpr (true_value env) | Some e \<Rightarrow> e]
           [LogicalOperator (TABLE_GET table readonly pushed) es cs], True)"
  let ?c = "LogicalOperator (TABLE_GET table readonly predicates) es cs"
  let ?e = "case rest of None \<Rightarrow> ValueExpr (true_value env) | Some e \<Rightarrow> e"
  have c: "source ?c" "good_expr env e" "\<forall>t \<in> set (source_tuples ?c). evaluable t e" "pushed_once ?c e" using assms(2) p by simp_all
  have n: "es = []" "cs = []" using c(1) by (cases ?c rule: source.cases; simp)+
  note good = pushdown_good [OF assms(1) c(2) g]
  have e: "evaluable t ?e \<and> (\<forall>p \<in> set pushed. evaluable t p) \<and> (holds env t e \<longleftrightarrow> holds env t ?e \<and> (\<forall>p \<in> set pushed. holds env t p))"
    if "t \<in> set (table_tuples table)" for t
    using good c(3) that source_of_rows [of t ?c] by simp
  have "predicates = []"
  proof (rule ccontr)
    assume "predicates \<noteq> []"
    then have "no_pushable e" using c(4) by (simp add: pushed_once_def)
    then show False using g c(2) pushdown_condition [of e "[]"] pushdown_conditions [of _ "[]"]
      by (cases e) (auto split: if_splits simp: filter_empty_conv)
  qed
  then have "plan_rows env srt (fst (PredicatePushdownRewriter_rewrite env p)) = plan_rows env srt p"
    unfolding r by (simp add: p n) (rule filter_cong, use e in auto)
  moreover have "good_plan env (fst (PredicatePushdownRewriter_rewrite env p))"
    using good e by (simp add: r n pushed_once_def)
  ultimately show ?thesis by (simp add: same_plan_def)
next
  fix e e' table readonly predicates es cs
  assume p: "p = LogicalOperator PREDICATE [e] [LogicalOperator (TABLE_GET table readonly predicates) es cs]"
    and g: "get_exprs_can_pushdown e [] = (Some e', [])"
    and r: "PredicatePushdownRewriter_rewrite env p =
        (LogicalOperator PREDICATE [e'] [LogicalOperator (TABLE_GET table readonly predicates) es cs], False)"
  have "good_expr env e" using assms(2) p by simp
  then have "e' = e" using g by (rule pushdown_nothing)
  then show ?thesis using p r assms(2) by (simp add: same_plan_def)
qed (use assms in \<open>simp add: same_plan_def\<close>)


lemma same_plan_trans: "same_plan env srt p q \<Longrightarrow> same_plan env srt q r \<Longrightarrow> same_plan env srt p r"
  by (simp add: same_plan_def)

lemma apply_rules_same:
  assumes "env_ok env" "good_plan env p"
  shows "same_plan env srt p (fst (apply_rules env p))"
proof -
  obtain p1 c1 where 1: "ExpressionRewriter_rewrite env p = (p1, c1)" by fastforce
  obtain p2 c2 where 2: "PredicateRewriteRule_rewrite env p1 = (p2, c2)" by fastforce
  obtain p3 c3 where 3: "PredicatePushdownRewriter_rewrite env p2 = (p3, c3)" by fastforce
  have s1: "same_plan env srt p p1" using expression_rewriter_same [OF assms, of srt] 1 by simp
  have s2: "same_plan env srt p1 p2" using predicate_rewrite_same [OF assms(1), of p1 srt] s1 2 by (simp add: same_plan_def)
  have s3: "same_plan env srt p2 p3" using pushdown_rewrite_same [OF assms(1), of p2 srt] s2 3 by (simp add: same_plan_def)
  show ?thesis using s1 s2 s3 1 2 3 by (simp add: apply_rules_def same_plan_def)
qed

lemma rewriter_same: "env_ok env \<Longrightarrow> good_plan env p \<Longrightarrow> same_plan env srt p (fst (Rewriter_rewrite env p))"
proof (induction env p rule: Rewriter_rewrite.induct)
  case (1 env p)
  obtain q c where r: "apply_rules env p = (q, c)" by fastforce
  have q: "same_plan env srt p q" using apply_rules_same [OF 1(2,3), of srt] r by simp
  then have "good_plan env q" by (simp add: same_plan_def)
  then have "same_plan env srt q (LogicalOperator (lo_data q) (lo_expressions q) (map (fst \<circ> Rewriter_rewrite env) (lo_children q)))"
  proof (cases rule: good_plan_cases)
    case 1
    then have "map (fst \<circ> Rewriter_rewrite env) (lo_children q) = lo_children q"
      by (cases q rule: source.cases) (auto simp: source_rewrite)
    then show ?thesis using \<open>good_plan env q\<close> by (simp add: same_plan_def del: plan_rows.simps)
  next
    case (2 e c)
    then show ?thesis using \<open>good_plan env q\<close> by (simp add: source_rewrite same_plan_def)
  next
    case (3 d cs)
    then show ?thesis using same_plan_unary [OF 3(4,2), of env srt "fst \<circ> Rewriter_rewrite env"] 1(1) [OF r [symmetric] refl] 1(2) by simp
  qed
  moreover have "fst (Rewriter_rewrite env p) = LogicalOperator (lo_data q) (lo_expressions q) (map (fst \<circ> Rewriter_rewrite env) (lo_children q))"
    by (simp add: Rewriter_rewrite.simps [of env p] r)
  ultimately show ?case using q same_plan_trans by simp
qed

lemma optimize_same:
  assumes "env_ok env" "good_plan env p"
  shows "\<exists>q. OptimizeStage_rewrite env p = Some q \<and> same_plan env srt p q"
proof (rule optimize_induct)
  show "same_plan env srt p p" using assms(2) by (simp add: same_plan_def)
  show "same_plan env srt p (fst (Rewriter_rewrite env q))" if "same_plan env srt p q" for q
    using rewriter_same [OF assms(1), of q srt] that same_plan_trans by (auto simp: same_plan_def)
qed


section \<open>Select statements\<close>

text \<open>
  The conditions of a statement: comparisons and membership tests between fields of its tables and
  constants, such that the known ones among them are harmless for the optimizer.
\<close>

definition filter_conditions :: "FilterStmt \<Rightarrow> Expression list" where
  "filter_conditions stmt = List.map_filter filter_expr (fs_filter_units stmt)"

definition statement_tuples :: "SelectStmt \<Rightarrow> Tuple list" where
  "statement_tuples stmt =
     source_tuples (join_tables (LogicalOperator (TABLE_GET (hd (ss_tables stmt)) True []) [] []) (tl (ss_tables stmt)))"

definition good_statement :: "EvalEnv \<Rightarrow> SelectStmt \<Rightarrow> bool" where
  "good_statement env stmt \<longleftrightarrow>
     (\<forall>c \<in> set (filter_conditions (ss_filter_stmt stmt)). condition c \<and> (\<forall>t \<in> set (statement_tuples stmt). evaluable t c)) \<and>
     safe env (if fs_has_or (ss_filter_stmt stmt) then CONJ_OR else CONJ_AND) (filter_conditions (ss_filter_stmt stmt))"

lemma join_tables_source: "source p \<Longrightarrow> source (join_tables p tables)"
  by (induction p tables rule: join_tables.induct) simp_all

lemma filter_expr_not_value: "filter_expr u = Some e \<Longrightarrow> \<not> is_value e"
  by (auto simp: filter_expr_def Let_def split: if_splits option.splits)

lemma map_filter_all: "None \<notin> set (map f xs) \<Longrightarrow> List.map_filter f xs = map the (map f xs)"
  by (induction xs) (auto simp: List.map_filter_simps split: option.splits)

lemma add_filter_good:
  assumes "add_filter stmt p = Some q" "source p" "\<forall>c \<in> set (filter_conditions stmt). condition c \<and> (\<forall>t \<in> set (source_tuples p). evaluable t c)"
    "safe env (if fs_has_or stmt then CONJ_OR else CONJ_AND) (filter_conditions stmt)"
    "\<forall>rel readonly predicates. lo_data p = TABLE_GET rel readonly predicates \<longrightarrow> predicates = []"
  shows "good_plan env q"
proof (cases "fs_filter_units stmt = []")
  case True
  then have "q = p" using assms(1) by (simp add: add_filter_def)
  then show ?thesis using assms(2) by (cases p rule: source.cases) auto
next
  case False
  have n: "None \<notin> set (map filter_expr (fs_filter_units stmt))" using assms(1) by (auto simp: add_filter_def Let_def split: if_splits)
  have q: "q = LogicalOperator PREDICATE [ConjunctionExpr (if fs_has_or stmt then CONJ_OR else CONJ_AND) (filter_conditions stmt)] [p]"
    using assms(1) False n map_filter_all [OF n] by (auto simp: add_filter_def Let_def filter_conditions_def)
  have "\<forall>c \<in> set (filter_conditions stmt). \<not> is_value c"
    unfolding filter_conditions_def by (auto simp: List.map_filter_def dest: filter_expr_not_value)
  then have "raw_or_folded env (filter_conditions stmt)" by (simp add: raw_or_folded_def)
  then show ?thesis using assms(2-5) by (simp add: q pushed_once_def split: OperatorData.splits)
qed

lemma create_plan_good:
  assumes "create_plan stmt = Some p" "good_statement env stmt"
  shows "good_plan env p"
proof -
  obtain table tables where t: "ss_tables stmt = table # tables" using assms(1) by (auto simp: create_plan_def split: list.splits)
  let ?src = "join_tables (LogicalOperator (TABLE_GET table True []) [] []) tables"
  obtain q where q: "add_filter (ss_filter_stmt stmt) ?src = Some q" using assms(1) t by (auto simp: create_plan_def split: option.splits)
  have src: "source ?src" by (rule join_tables_source) simp
  have data: "\<forall>rel readonly predicates. lo_data (join_tables p0 ts) = TABLE_GET rel readonly predicates \<longrightarrow> predicates = []"
    if "\<forall>rel readonly predicates. lo_data p0 = TABLE_GET rel readonly predicates \<longrightarrow> predicates = []" for p0 ts
    using that by (induction p0 ts rule: join_tables.induct) simp_all
  have "good_plan env q"
    by (rule add_filter_good [OF q src])
      (use assms(2) t data [of "LogicalOperator (TABLE_GET table True []) [] []" tables] in \<open>auto simp: good_statement_def statement_tuples_def\<close>)
  then show ?thesis using assms(1) t q by (auto simp: create_plan_def Let_def)
qed

text \<open>
  C34: Optimising the plan of a select statement ends, and the optimised plan gives the same tuples in
  the same order. The statement compares fields of its tables and constants; a condition on constants
  that decides the whole where clause must not stand behind one that depends on the row, and a
  disjunction must not consist of false constants only.
\<close>

theorem optimize_keeps_rows:
  assumes "env_ok env" "create_plan stmt = Some p" "good_statement env stmt"
  shows "\<exists>q. OptimizeStage_rewrite env p = Some q \<and> plan_rows env srt q = plan_rows env srt p"
  using optimize_same [OF assms(1) create_plan_good [OF assms(2,3)], of srt] by (auto simp: same_plan_def)


definition demo_relation :: Relation where
  "demo_relation = \<lparr>rl_meta = demo_meta, rl_rows = [replicate 19 0]\<rparr>"

definition demo_select :: "FilterUnit list \<Rightarrow> SelectStmt" where
  "demo_select units = \<lparr>ss_tables = [demo_relation], ss_expressions = [FieldExpr ''t'' demo_field],
     ss_filter_stmt = \<lparr>fs_filter_units = units, fs_has_or = False\<rparr>, ss_order_units = []\<rparr>"

definition demo_unit :: FilterUnit where
  "demo_unit = \<lparr>fu_comp = EQUAL_TO, fu_left = FieldExpr ''t'' demo_field, fu_right = ValueExpr (set_int 0 fresh_value)\<rparr>"

theorem optimize_keeps_rows_witness:
  "\<exists>p q. create_plan (demo_select [demo_unit]) = Some p \<and> OptimizeStage_rewrite demo_env p = Some q \<and>
     plan_rows demo_env (\<lambda>_. id) q = plan_rows demo_env (\<lambda>_. id) p"
proof -
  have ok: "env_ok demo_env" by (simp add: env_ok_def demo_env_def)
  obtain p where p: "create_plan (demo_select [demo_unit]) = Some p"
    by (simp add: create_plan_def demo_select_def add_filter_def filter_expr_def demo_unit_def)
  have "good_statement demo_env (demo_select [demo_unit])"
    by (simp add: good_statement_def demo_select_def filter_conditions_def List.map_filter_simps filter_expr_def demo_unit_def
        statement_tuples_def table_tuples_def demo_relation_def demo_field_found safe_def)
  from optimize_keeps_rows [OF ok p this, of "\<lambda>_. id"] p show ?thesis by auto
qed

text \<open>
  C37: A false constant behind a condition on the row is forgotten: the optimised plan gives all rows
  that satisfy the first condition, although no row satisfies both. The rule moves the first child of
  the conjunction to its place instead of the constant that decides it.
\<close>

theorem optimizer_forgets_false:
  fixes rel :: Relation and f :: FieldMeta and v a b :: Value
  defines "c \<equiv> ComparisonExpr GREAT_THAN (FieldExpr (tm_name (rl_meta rel)) f) (ValueExpr v)"
  defines "stmt \<equiv> \<lparr>ss_tables = [rel], ss_expressions = [FieldExpr (tm_name (rl_meta rel)) f],
     ss_filter_stmt = \<lparr>fs_filter_units =
       [\<lparr>fu_comp = GREAT_THAN, fu_left = FieldExpr (tm_name (rl_meta rel)) f, fu_right = ValueExpr v\<rparr>,
        \<lparr>fu_comp = EQUAL_TO, fu_left = ValueExpr a, fu_right = ValueExpr b\<rparr>], fs_has_or = False\<rparr>, ss_order_units = []\<rparr>"
  assumes "env_ok env" "find_field (rl_meta rel) (fm_name f) = Some f" "\<not> compare_result env EQUAL_TO a b"
  shows "\<exists>p q. create_plan stmt = Some p \<and> OptimizeStage_rewrite env p = Some q \<and>
     plan_rows env srt p = [] \<and>
     plan_rows env srt q =
       map (\<lambda>t. ProjectTuple [Some (TupleCellSpec_init (ee_junk_aggre env) (tm_name (rl_meta rel)) (fm_name f))] (Some t))
         (filter (\<lambda>t. holds env t c) (table_tuples rel))"
proof -
  define k where "k = ComparisonExpr EQUAL_TO (ValueExpr a) (ValueExpr b)"
  define false where "false = ValueExpr (set_boolean False (Value_init env))"
  define get where "get = LogicalOperator (TABLE_GET rel True []) [] []"
  define plan where "plan = (\<lambda>e. LogicalOperator (PROJECTION [FieldExpr (tm_name (rl_meta rel)) f]) [] [LogicalOperator PREDICATE [e] [get]])"
  have cond: "condition c" "condition k" "condition false" "\<not> is_value c" using assms(3) by (simp_all add: c_def k_def false_def env_ok_def)
  have rc: "rewrite_expression env c = (c, False)"
    by (subst rewrite_expression.simps) (simp add: c_def ComparisonSimplificationRule_rewrite_def rewrite_leaf)
  have rk: "rewrite_expression env k = (false, True)"
    using assms(5) by (subst rewrite_expression.simps) (simp add: k_def false_def ComparisonSimplificationRule_rewrite_def)
  have bc: "try_to_get_bool_constant env c = None" "try_to_get_bool_constant env k = None" "try_to_get_bool_constant env false = Some False"
    using assms(3) by (simp_all add: c_def k_def false_def env_ok_def)
  have r1: "rewrite_expression env (ConjunctionExpr CONJ_AND [c, k]) = (ConjunctionExpr CONJ_AND [c, false], True)"
    by (subst rewrite_expression.simps) (simp add: ComparisonSimplificationRule_rewrite_def bc rc rk)
  have r2: "rewrite_expression env (ConjunctionExpr CONJ_AND [c, false]) = (c, False)"
    using rc by (subst rewrite_expression.simps) (simp add: ComparisonSimplificationRule_rewrite_def bc c_def rewrite_leaf)
  have src: "source get" by (simp add: get_def)
  have get: "ExpressionRewriter_rewrite env get = (get, False)" "Rewriter_rewrite env get = (get, False)"
    using source_fixed(1) [OF src] source_rewrite [OF src] by blast+
  have push: "get_exprs_can_pushdown c [] = (Some c, [])" by (simp add: c_def pushable_def)
  have pred: "Rewriter_rewrite env (LogicalOperator PREDICATE [e] [get]) = (LogicalOperator PREDICATE [c] [get], False)"
    if "rewrite_expression env e = (c, False)" for e
    using that get push
    by (subst Rewriter_rewrite.simps)
      (simp add: apply_rules_def PredicateRewriteRule_rewrite_def PredicatePushdownRewriter_rewrite_def get_def)
  have no: "PredicateRewriteRule_rewrite env (plan e) = (plan e, False)" "PredicatePushdownRewriter_rewrite env (plan e) = (plan e, False)"
    if "\<not> is_value e" for e
    using that by (cases e; simp add: plan_def PredicateRewriteRule_rewrite_def PredicatePushdownRewriter_rewrite_def)+
  have top: "Rewriter_rewrite env (plan e) = (plan c, ch)"
    if "rewrite_expression env e = (e', ch)" "rewrite_expression env e' = (c, False)" "\<not> is_value e'" for e e' ch
    using that get(1) pred [OF that(2)] no [OF that(3)] by (subst Rewriter_rewrite.simps) (simp add: apply_rules_def plan_def)
  have opt: "OptimizeStage_rewrite env (plan (ConjunctionExpr CONJ_AND [c, k])) = Some (plan c)"
    using top [OF r1 r2] top [OF rc rc cond(4)] by (simp add: OptimizeStage_rewrite.simps [of env])
  have create: "create_plan stmt = Some (plan (ConjunctionExpr CONJ_AND [c, k]))"
    by (simp add: create_plan_def stmt_def add_filter_def filter_expr_def plan_def c_def k_def get_def)
  have "\<not> holds env t (ConjunctionExpr CONJ_AND [c, k])" if "t \<in> set (table_tuples rel)" for t
    using that holds_conj [of "[c, k]" t env CONJ_AND] cond assms(3-5) known_holds [of env k False t]
    by (auto simp: table_tuples_def c_def k_def)
  then have "plan_rows env srt (plan (ConjunctionExpr CONJ_AND [c, k])) = []" by (auto simp: plan_def get_def filter_empty_conv)
  moreover have "plan_rows env srt (plan c) =
      map (\<lambda>t. ProjectTuple [Some (TupleCellSpec_init (ee_junk_aggre env) (tm_name (rl_meta rel)) (fm_name f))] (Some t))
         (filter (\<lambda>t. holds env t c) (table_tuples rel))"
    by (simp add: plan_def get_def)
  ultimately show ?thesis using create opt by blast
qed


lemma demo_row_passes:
  "holds demo_env (RowTuple demo_meta (replicate 19 0))
     (ComparisonExpr GREAT_THAN (FieldExpr ''t'' demo_field) (ValueExpr (set_int (- 1) fresh_value)))"
  by code_simp

theorem optimizer_forgets_false_witness:
  "\<exists>p q. create_plan (demo_select
        [\<lparr>fu_comp = GREAT_THAN, fu_left = FieldExpr ''t'' demo_field, fu_right = ValueExpr (set_int (- 1) fresh_value)\<rparr>,
         \<lparr>fu_comp = EQUAL_TO, fu_left = ValueExpr (set_int 1 fresh_value), fu_right = ValueExpr (set_int 2 fresh_value)\<rparr>]) = Some p \<and>
     OptimizeStage_rewrite demo_env p = Some q \<and> plan_rows demo_env (\<lambda>_. id) p = [] \<and> length (plan_rows demo_env (\<lambda>_. id) q) = 1"
proof -
  have ok: "env_ok demo_env" by (simp add: env_ok_def demo_env_def)
  have f: "find_field (rl_meta demo_relation) (fm_name demo_field) = Some demo_field" by (simp add: demo_relation_def demo_field_found)
  have ne: "\<not> compare_result demo_env EQUAL_TO (set_int 1 fresh_value) (set_int 2 fresh_value)" by code_simp
  show ?thesis using optimizer_forgets_false [OF ok f ne, of "set_int (- 1) fresh_value" "\<lambda>_. id"] demo_row_passes
    by (auto simp: demo_select_def demo_relation_def demo_field_found table_tuples_def)
qed

end
