(* ===== verification/ExecutorProps.thy ===== *)
theory ExecutorProps
  imports Executor OptimizerProps
begin

text \<open>
  Executing the optimised physical plan of a select statement sends the rows that its logical plan
  describes; and the case in which it does not, a sort without tuples.

  \<^item> \<open>delivers\<close>: the tuples that an open operator hands out until the end, with an invariant of its states.
  \<^item> \<open>reusable\<close>: the same whenever the operator is opened again, which a join needs of its right side.
  \<^item> \<open>operator_ok\<close>: the contract of an operator from \<open>open\<close> to \<open>close\<close>.
\<close>

section \<open>What an operator delivers\<close>

primrec delivers :: "EvalEnv \<Rightarrow> std_sort \<Rightarrow> (PhysicalOperator \<Rightarrow> bool) \<Rightarrow> PhysicalOperator \<Rightarrow> Tuple list \<Rightarrow> bool" where
  "delivers env srt I p [] \<longleftrightarrow> (\<exists>q. next_oper env srt p = Some (RECORD_EOF, q) \<and> I q)"
| "delivers env srt I p (t # ts) \<longleftrightarrow>
     (\<exists>q. next_oper env srt p = Some (SUCCESS, q) \<and> current_tuple env q = Some (Some t) \<and> I q \<and> delivers env srt I q ts)"

lemma delivers_next: "next_oper env srt p = next_oper env srt q \<Longrightarrow> delivers env srt I q ts \<Longrightarrow> delivers env srt I p ts"
  by (cases ts) simp_all

definition operator_ok :: "EvalEnv \<Rightarrow> std_sort \<Rightarrow> PhysicalOperator \<Rightarrow> Tuple list \<Rightarrow> bool" where
  "operator_ok env srt p ts \<longleftrightarrow>
     (\<exists>I q. open_oper env p = Some (SUCCESS, q) \<and> delivers env srt I q ts \<and> (\<forall>r. I r \<longrightarrow> (\<exists>r'. close_oper env r = Some (SUCCESS, r'))))"

lemma operator_okI:
  assumes "open_oper env p = Some (SUCCESS, q)" "delivers env srt I q ts"
    "\<And>r. I r \<Longrightarrow> \<exists>r'. close_oper env r = Some (SUCCESS, r')"
  shows "operator_ok env srt p ts"
  using assms unfolding operator_ok_def by blast

lemma operator_okE:
  assumes "operator_ok env srt p ts"
  obtains I q where "open_oper env p = Some (SUCCESS, q)" "delivers env srt I q ts"
    "\<And>r. I r \<Longrightarrow> \<exists>r'. close_oper env r = Some (SUCCESS, r')"
  using assms unfolding operator_ok_def by blast

text \<open>An operator without what its state adds.\<close>

fun shape :: "PhysicalOperator \<Rightarrow> PhysicalOperator" where
  "shape (TableScan rel readonly predicates recs tuples) = TableScan rel readonly predicates [] []"
| "shape (NestedLoopJoin round_done right_closed lt rt children) = NestedLoopJoin True True None None (map shape children)"
| "shape p = p"

definition reusable :: "EvalEnv \<Rightarrow> std_sort \<Rightarrow> PhysicalOperator \<Rightarrow> Tuple list \<Rightarrow> bool" where
  "reusable env srt s ts \<longleftrightarrow>
     (\<forall>p. shape p = s \<longrightarrow>
        (\<exists>q. open_oper env p = Some (SUCCESS, q) \<and> shape q = s \<and> delivers env srt (\<lambda>r. shape r = s) q ts) \<and>
        (\<exists>q. close_oper env p = Some (SUCCESS, q) \<and> shape q = s))"

lemma reusable_open:
  assumes "reusable env srt s ts" "shape p = s"
  obtains q where "open_oper env p = Some (SUCCESS, q)" "shape q = s" "delivers env srt (\<lambda>r. shape r = s) q ts"
  using assms unfolding reusable_def by blast

lemma reusable_close:
  assumes "reusable env srt s ts" "shape p = s"
  obtains q where "close_oper env p = Some (SUCCESS, q)" "shape q = s"
  using assms unfolding reusable_def by blast

lemma reusable_ok: "reusable env srt s ts \<Longrightarrow> shape s = s \<Longrightarrow> operator_ok env srt s ts"
proof -
  assume r: "reusable env srt s ts" and s: "shape s = s"
  obtain q where q: "open_oper env s = Some (SUCCESS, q)" "delivers env srt (\<lambda>r. shape r = s) q ts"
    using reusable_open [OF r s] by blast
  show ?thesis by (rule operator_okI [OF q]) (use r in \<open>auto simp: reusable_def\<close>)
qed


section \<open>Scans\<close>

definition passes :: "EvalEnv \<Rightarrow> Expression list \<Rightarrow> Tuple \<Rightarrow> bool" where
  "passes env predicates t \<longleftrightarrow> (\<forall>p \<in> set predicates. holds env t p)"

lemma do_expr_condition: "condition e \<Longrightarrow> do_expr e = Some SUCCESS"
  by (cases e) simp_all

lemma do_exprs_conditions: "\<forall>e \<in> set es. condition e \<Longrightarrow> do_exprs SUCCESS es = Some SUCCESS"
  by (induction es) (simp_all add: do_expr_condition)

lemma scan_filter_passes:
  assumes "\<forall>p \<in> set ps. condition p \<and> evaluable t p" "of_rows t" "env_ok env" "num_value v \<noteq> []"
  shows "scan_filter env t v ps = Some (SUCCESS, passes env ps t)"
  using assms
proof (induction ps arbitrary: v)
  case (Cons p ps)
  obtain w where "get_value env t p v = Some (SUCCESS, w)" "num_value w \<noteq> []" "get_boolean (ee_fo env) w = holds env t p"
    using condition_value [of p t env v] Cons(2-) by auto
  then show ?case using Cons by (simp add: passes_def)
qed (simp add: passes_def)

lemma scan_delivers:
  assumes "\<forall>p \<in> set ps. condition p \<and> (\<forall>r \<in> set recs. evaluable (RowTuple (rl_meta rel) r) p)" "env_ok env"
  shows "delivers env srt (\<lambda>q. shape q = TableScan rel readonly ps [] []) (TableScan rel readonly ps recs tuples)
    (filter (passes env ps) (map (RowTuple (rl_meta rel)) recs))"
  using assms(1)
proof (induction recs arbitrary: tuples)
  case Nil
  then show ?case by simp
next
  case (Cons r recs)
  let ?t = "RowTuple (rl_meta rel) r"
  have f: "scan_filter env ?t (Value_init env) ps = Some (SUCCESS, passes env ps ?t)"
    by (rule scan_filter_passes) (use Cons(2) assms(2) in \<open>auto simp: env_ok_def\<close>)
  have IH: "delivers env srt (\<lambda>q. shape q = TableScan rel readonly ps [] []) (TableScan rel readonly ps recs ts)
    (filter (passes env ps) (map (RowTuple (rl_meta rel)) recs))" for ts
    by (rule Cons(1)) (use Cons(2) in auto)
  show ?case
  proof (cases "passes env ps ?t")
    case True
    then show ?thesis using IH [of "tuples @ [?t]"] f by simp
  next
    case False
    have "next_oper env srt (TableScan rel readonly ps (r # recs) tuples) = next_oper env srt (TableScan rel readonly ps recs tuples)"
      using f False by simp
    from delivers_next [OF this IH [of tuples]] False show ?thesis by simp
  qed
qed

lemma scan_shape: "shape p = TableScan rel readonly ps [] [] \<longleftrightarrow> (\<exists>recs tuples. p = TableScan rel readonly ps recs tuples)"
  by (cases p) auto

lemma scan_reusable:
  assumes "\<forall>p \<in> set ps. condition p \<and> (\<forall>t \<in> set (table_tuples rel). evaluable t p)" "env_ok env"
  shows "reusable env srt (TableScan rel readonly ps [] []) (filter (passes env ps) (table_tuples rel))"
proof -
  have "delivers env srt (\<lambda>q. shape q = TableScan rel readonly ps [] []) (TableScan rel readonly ps (rl_rows rel) tuples)
      (filter (passes env ps) (table_tuples rel))" for tuples
    using scan_delivers [of ps "rl_rows rel" rel env srt readonly tuples] assms by (auto simp: table_tuples_def)
  then show ?thesis using assms(1) by (auto simp: reusable_def scan_shape do_exprs_conditions)
qed


section \<open>Joins\<close>

lemma join_shape:
  "shape p = NestedLoopJoin True True None None [l, r] \<longleftrightarrow>
     (\<exists>rd rcl lt rt l' r'. p = NestedLoopJoin rd rcl lt rt [l', r'] \<and> shape l' = l \<and> shape r' = r)"
  by (cases p) auto

lemma join_next_simps:
  "join_next env nxt True rcl lt rt [l, r] = join_step env nxt rcl lt rt l r"
  "join_next env nxt False rcl lt rt [l, r] =
     Option.bind (nxt r) (\<lambda>(rc, r).
       if rc = SUCCESS then Option.bind (current_tuple env r) (\<lambda>rt. Some (rc, NestedLoopJoin False rcl lt rt [l, r]))
       else if rc \<noteq> RECORD_EOF then Some (rc, NestedLoopJoin False rcl lt rt [l, r])
       else join_step env nxt rcl lt rt l r)"
  by (simp_all add: join_next_def)

text \<open>The right side in the middle of a round, given what comes when the round is done.\<close>

lemma join_round:
  assumes "delivers env srt (\<lambda>q. shape q = sr) r ts" "shape l = sl"
    "\<And>r' rt. shape r' = sr \<Longrightarrow> delivers env srt I (NestedLoopJoin True False (Some t) rt [l, r']) us"
    "\<And>r' rt. shape r' = sr \<Longrightarrow> I (NestedLoopJoin False False (Some t) rt [l, r'])"
  shows "delivers env srt I (NestedLoopJoin False False (Some t) rt [l, r]) (map (JoinedTuple t) ts @ us)"
  using assms(1)
proof (induction ts arbitrary: r rt)
  case Nil
  then obtain r' where r': "next_oper env srt r = Some (RECORD_EOF, r')" "shape r' = sr" by auto
  then have "next_oper env srt (NestedLoopJoin False False (Some t) rt [l, r]) = next_oper env srt (NestedLoopJoin True False (Some t) rt [l, r'])"
    by (simp add: join_next_simps)
  from delivers_next [OF this assms(3) [OF r'(2)]] show ?case by simp
next
  case (Cons u ts)
  then obtain r' where r': "next_oper env srt r = Some (SUCCESS, r')" "current_tuple env r' = Some (Some u)" "shape r' = sr"
    "delivers env srt (\<lambda>q. shape q = sr) r' ts" by auto
  show ?case using r' Cons(1) [OF r'(4)] assms(4) [OF r'(3)] by (simp add: join_next_simps)
qed

lemma join_delivers:
  assumes "reusable env srt sr rs" "delivers env srt (\<lambda>q. shape q = sl) l ls" "shape r = sr"
  shows "delivers env srt (\<lambda>q. shape q = NestedLoopJoin True True None None [sl, sr]) (NestedLoopJoin True rcl lt rt [l, r])
    (concat (map (\<lambda>t. map (JoinedTuple t) rs) ls))"
  using assms(2,3)
proof (induction ls arbitrary: l r rcl lt rt)
  case Nil
  then show ?case by (auto simp: join_next_simps join_step_def)
next
  case (Cons t ls)
  then obtain l' where l': "next_oper env srt l = Some (SUCCESS, l')" "current_tuple env l' = Some (Some t)" "shape l' = sl"
    "delivers env srt (\<lambda>q. shape q = sl) l' ls" by auto
  obtain r1 where r1: "(if rcl then Some (SUCCESS, r) else close_oper env r) = Some (SUCCESS, r1)" "shape r1 = sr"
    using reusable_close [OF assms(1) Cons(3), of "\<exists>q. close_oper env r = Some (SUCCESS, q) \<and> shape q = sr"] Cons(3) by (cases rcl) auto
  obtain r2 where r2: "open_oper env r1 = Some (SUCCESS, r2)" "shape r2 = sr" "delivers env srt (\<lambda>q. shape q = sr) r2 rs"
    using reusable_open [OF assms(1) r1(2)] by blast
  show ?case
  proof (cases rs)
    case Nil
    then obtain r3 where "next_oper env srt r2 = Some (RECORD_EOF, r3)" "shape r3 = sr" using r2(3) by auto
    then have n: "next_oper env srt (NestedLoopJoin True rcl lt rt [l, r]) = Some (RECORD_EOF, NestedLoopJoin True False (Some t) rt [l', r3])"
      using l' r1 r2 by (simp add: join_next_simps join_step_def)
    have c: "concat (map (\<lambda>t. map (JoinedTuple t) rs) (t # ls)) = []" using Nil by auto
    show ?thesis unfolding c using n \<open>shape r3 = sr\<close> l'(3) by simp
  next
    case (Cons u us)
    then obtain r3 where r3: "next_oper env srt r2 = Some (SUCCESS, r3)" "current_tuple env r3 = Some (Some u)" "shape r3 = sr"
      "delivers env srt (\<lambda>q. shape q = sr) r3 us" using r2(3) by auto
    have "next_oper env srt (NestedLoopJoin True rcl lt rt [l, r]) = Some (SUCCESS, NestedLoopJoin False False (Some t) (Some u) [l', r3])"
      using l' r1 r2 r3 by (simp add: join_next_simps join_step_def)
    moreover have "delivers env srt (\<lambda>q. shape q = NestedLoopJoin True True None None [sl, sr])
        (NestedLoopJoin False False (Some t) (Some u) [l', r3]) (map (JoinedTuple t) us @ concat (map (\<lambda>t. map (JoinedTuple t) rs) ls))"
      by (rule join_round [OF r3(4) l'(3) Cons.IH [OF l'(4)]]) (use l'(3) in simp_all)
    ultimately show ?thesis using l'(3) r3(3) \<open>rs = u # us\<close> by simp
  qed
qed

lemma join_reusable:
  assumes "reusable env srt sl ls" "reusable env srt sr rs"
  shows "reusable env srt (NestedLoopJoin True True None None [sl, sr]) (concat (map (\<lambda>t. map (JoinedTuple t) rs) ls))"
  unfolding reusable_def
proof (intro allI impI conjI)
  fix p assume "shape p = NestedLoopJoin True True None None [sl, sr]"
  then obtain rd rcl lt rt l r where p: "p = NestedLoopJoin rd rcl lt rt [l, r]" "shape l = sl" "shape r = sr" by (auto simp: join_shape)
  obtain l' where l': "open_oper env l = Some (SUCCESS, l')" "shape l' = sl" "delivers env srt (\<lambda>q. shape q = sl) l' ls"
    using reusable_open [OF assms(1) p(2)] by blast
  show "\<exists>q. open_oper env p = Some (SUCCESS, q) \<and> shape q = NestedLoopJoin True True None None [sl, sr] \<and>
      delivers env srt (\<lambda>r. shape r = NestedLoopJoin True True None None [sl, sr]) q (concat (map (\<lambda>t. map (JoinedTuple t) rs) ls))"
    using p l' join_delivers [OF assms(2) l'(3) p(3)] by simp
  obtain l'' where l'': "close_oper env l = Some (SUCCESS, l'')" "shape l'' = sl" using reusable_close [OF assms(1) p(2)] by blast
  obtain r'' where r'': "close_oper env r = Some (SUCCESS, r'')" "shape r'' = sr" using reusable_close [OF assms(2) p(3)] by blast
  show "\<exists>q. close_oper env p = Some (SUCCESS, q) \<and> shape q = NestedLoopJoin True True None None [sl, sr]"
    using p l'' r'' by (cases rcl) simp_all
qed

text \<open>The tables of a statement and their joins.\<close>

lemma source_executes:
  assumes "source p" "env_ok env"
  shows "\<exists>oper. create_physical env p = Some (SUCCESS, Some oper) \<and> shape oper = oper \<and> reusable env srt oper (plan_rows env srt p)"
  using assms(1)
proof (induction p rule: source.induct)
  case (1 rel readonly predicates)
  then show ?case using scan_reusable [of predicates rel env srt readonly] assms(2) by (simp add: passes_def [abs_def])
next
  case (2 l r)
  then show ?case using join_reusable [of env srt _ "plan_rows env srt l" _ "plan_rows env srt r"] by auto
qed simp_all


section \<open>Predicates, projections, sorts and aggregations\<close>

lemma predicate_ok:
  assumes "operator_ok env srt c ts" "do_expr e = Some SUCCESS"
    "\<forall>t \<in> set ts. \<exists>v. get_value env t e (Value_init env) = Some (SUCCESS, v)"
  shows "operator_ok env srt (Predicate e [c]) (filter (\<lambda>t. holds env t e) ts)"
proof (rule operator_okE [OF assms(1)])
  fix I q assume q: "open_oper env c = Some (SUCCESS, q)" "delivers env srt I q ts"
    and cl: "\<And>r. I r \<Longrightarrow> \<exists>r'. close_oper env r = Some (SUCCESS, r')"
  let ?J = "\<lambda>p. \<exists>c. p = Predicate e [c] \<and> I c"
  have "delivers env srt ?J (Predicate e [q]) (filter (\<lambda>t. holds env t e) ts)"
    using q(2) assms(3)
  proof (induction ts arbitrary: q)
    case Nil
    then show ?case by (auto simp: predicate_next_def)
  next
    case (Cons t ts)
    then obtain q' where q': "next_oper env srt q = Some (SUCCESS, q')" "current_tuple env q' = Some (Some t)" "I q'"
      "delivers env srt I q' ts" by auto
    have IH: "delivers env srt ?J (Predicate e [q']) (filter (\<lambda>t. holds env t e) ts)" using Cons(1) [OF q'(4)] Cons(3) by simp
    obtain v where v: "get_value env t e (Value_init env) = Some (SUCCESS, v)" using Cons(3) by auto
    show ?case
    proof (cases "holds env t e")
      case True
      then show ?thesis using IH q' v assms(2) by (auto simp: predicate_next_def holds_def)
    next
      case False
      then have "next_oper env srt (Predicate e [q]) = next_oper env srt (Predicate e [q'])"
        using q' v assms(2) by (simp add: predicate_next_def [of env _ e "[q]"] holds_def)
      from delivers_next [OF this IH] False show ?thesis by simp
    qed
  qed
  then show ?thesis by (rule operator_okI [rotated]) (use q assms(2) cl in fastforce)+
qed

lemma project_ok:
  assumes "operator_ok env srt c ts"
  shows "operator_ok env srt (Project exprs [c]) (map (\<lambda>t. ProjectTuple (map (projection_spec env) exprs) (Some t)) ts)"
proof (rule operator_okE [OF assms])
  fix I q assume q: "open_oper env c = Some (SUCCESS, q)" "delivers env srt I q ts"
    and cl: "\<And>r. I r \<Longrightarrow> \<exists>r'. close_oper env r = Some (SUCCESS, r')"
  have "delivers env srt (\<lambda>p. \<exists>c. p = Project exprs [c] \<and> I c) (Project exprs [q])
      (map (\<lambda>t. ProjectTuple (map (projection_spec env) exprs) (Some t)) ts)"
    using q(2) by (induction ts arbitrary: q) (fastforce simp: project_next_def)+
  then show ?thesis by (rule operator_okI [rotated]) (use q cl in fastforce)+
qed

lemma project_none_ok: "operator_ok env srt (Project exprs []) []"
  by (rule operator_okI [of _ _ "Project exprs []" _ "\<lambda>p. p = Project exprs []"]) (simp_all add: project_next_def)

text \<open>The sort first takes all tuples, then hands them out by position.\<close>

lemma order_collects:
  assumes "delivers env srt I q ts"
  shows "\<exists>q'. next_oper env srt (Order units False acc i [q]) = Some (SUCCESS, Order units True (srt (comprule env units) (acc @ ts)) 0 [q']) \<and> I q'"
  using assms
proof (induction ts arbitrary: q acc)
  case Nil
  then show ?case by (auto simp: order_next_def)
next
  case (Cons t ts)
  then obtain q' where q': "next_oper env srt q = Some (SUCCESS, q')" "current_tuple env q' = Some (Some t)" "delivers env srt I q' ts" by auto
  then show ?case using Cons(1) [OF q'(3), of "acc @ [t]"] by (simp add: order_next_def [of _ _ _ _ _ acc])
qed

lemma order_hands_out:
  assumes "i < length xs" "I q"
  shows "delivers env srt (\<lambda>p. \<exists>i q. p = Order units True xs i [q] \<and> I q) (Order units True xs i [q]) (drop (Suc i) xs)"
  using assms(1)
proof (induction "length xs - i" arbitrary: i rule: less_induct)
  case less
  show ?case
  proof (cases "Suc i < length xs")
    case True
    then have "drop (Suc i) xs = xs ! Suc i # drop (Suc (Suc i)) xs" by (simp add: Cons_nth_drop_Suc)
    moreover have "delivers env srt (\<lambda>p. \<exists>i q. p = Order units True xs i [q] \<and> I q) (Order units True xs (Suc i) [q]) (drop (Suc (Suc i)) xs)"
      by (rule less(1)) (use True in simp_all)
    ultimately show ?thesis using True assms(2) by (auto simp: order_next_def)
  next
    case False
    then have "length xs = Suc i" using less by simp
    then show ?thesis using assms(2) by (auto simp: order_next_def)
  qed
qed

lemma order_ok:
  assumes "operator_ok env srt c ts" "ts \<noteq> []" "length (srt (comprule env units) ts) = length ts"
  shows "operator_ok env srt (Order units False [] 0 [c]) (srt (comprule env units) ts)"
proof (rule operator_okE [OF assms(1)])
  fix I q assume q: "open_oper env c = Some (SUCCESS, q)" "delivers env srt I q ts"
    and cl: "\<And>r. I r \<Longrightarrow> \<exists>r'. close_oper env r = Some (SUCCESS, r')"
  define xs where "xs = srt (comprule env units) ts"
  obtain q' where q': "next_oper env srt (Order units False [] 0 [q]) = Some (SUCCESS, Order units True xs 0 [q'])" "I q'"
    using order_collects [OF q(2), of units "[]" 0] by (auto simp: xs_def)
  have x: "xs \<noteq> []" "xs = xs ! 0 # drop (Suc 0) xs" using assms(2,3) by (cases xs; auto simp: xs_def)+
  have "delivers env srt (\<lambda>p. \<exists>i q. p = Order units True xs i [q] \<and> I q) (Order units False [] 0 [q]) (xs ! 0 # drop (Suc 0) xs)"
    using q' x(1) order_hands_out [of 0 xs I q'] by auto
  then have "delivers env srt (\<lambda>p. \<exists>i q. p = Order units True xs i [q] \<and> I q) (Order units False [] 0 [q]) xs" using x(2) by simp
  then show ?thesis unfolding xs_def [symmetric] by (rule operator_okI [rotated]) (use q cl in fastforce)+
qed

lemma aggre_collects:
  assumes "delivers env srt I q ts" "aggregate_all env ts s = Some s'"
  shows "\<exists>q'. next_oper env srt (Aggre True False s [q]) = Some (SUCCESS, Aggre True True (do_aggregation_end env s') [q']) \<and> I q'"
  using assms
proof (induction ts arbitrary: q s)
  case Nil
  then show ?case by (auto simp: aggre_next_def)
next
  case (Cons t ts)
  then obtain q' where q': "next_oper env srt q = Some (SUCCESS, q')" "current_tuple env q' = Some (Some t)" "delivers env srt I q' ts" by auto
  obtain s1 where s1: "do_aggregation env (s\<lparr>ag_tuple := Some t\<rparr>) = Some s1" "aggregate_all env ts s1 = Some s'"
    using Cons(3) by (auto simp: bind_eq_Some_conv)
  then show ?case using q' Cons(1) [OF q'(3) s1(2)] by (simp add: aggre_next_def [of _ _ True False s])
qed

lemma aggre_ok:
  assumes "operator_ok env srt c ts" "aggregate_rows env exprs ts = Some s"
  shows "operator_ok env srt (Aggre False False (AggregationTuple_init env exprs) [c]) [aggre_view s]"
proof (rule operator_okE [OF assms(1)])
  fix I q assume q: "open_oper env c = Some (SUCCESS, q)" "delivers env srt I q ts"
    and cl: "\<And>r. I r \<Longrightarrow> \<exists>r'. close_oper env r = Some (SUCCESS, r')"
  let ?i = "AggregationTuple_init env exprs"
  have "\<exists>b q'. next_oper env srt (Aggre False False ?i [q]) = Some (SUCCESS, Aggre b True s [q']) \<and> I q'"
  proof (cases ts)
    case Nil
    then show ?thesis using q(2) assms(2) by (auto simp: aggre_next_def aggregate_rows_def)
  next
    case (Cons t ts')
    then obtain q' where q': "next_oper env srt q = Some (SUCCESS, q')" "current_tuple env q' = Some (Some t)" "delivers env srt I q' ts'"
      using q(2) by auto
    obtain s1 s2 where s: "do_aggregation env ((do_aggregation_begin ?i)\<lparr>ag_tuple := Some t\<rparr>) = Some s1"
      "aggregate_all env ts' s1 = Some s2" "s = do_aggregation_end env s2"
      using assms(2) Cons by (auto simp: aggregate_rows_def bind_eq_Some_conv)
    show ?thesis using aggre_collects [OF q'(3) s(2)] q' s by (auto simp: aggre_next_def [of _ _ False])
  qed
  then obtain b q' where n: "next_oper env srt (Aggre False False ?i [q]) = Some (SUCCESS, Aggre b True s [q'])" "I q'" by blast
  then have "delivers env srt (\<lambda>p. \<exists>c. p = Aggre b True s [c] \<and> I c) (Aggre False False ?i [q]) [aggre_view s]"
    by (auto simp: aggre_next_def [of _ _ _ True])
  then show ?thesis by (rule operator_okI [rotated]) (use q cl in fastforce)+
qed

lemma aggre_none_ok: "operator_ok env srt (Aggre False False s []) [aggre_view s]"
  by (rule operator_okI [of _ _ "Aggre False False s []" _ "\<lambda>p. p = Aggre False True s []"]) (auto simp: aggre_next_def)


section \<open>Plans\<close>

text \<open>
  A plan in which nothing below an aggregation is a sort or an aggregation; with \<open>False\<close>, one without
  sorts and aggregations at all. The optimizer keeps both.
\<close>

fun tame :: "bool \<Rightarrow> LogicalOperator \<Rightarrow> bool" where
  "tame a (LogicalOperator d es cs) \<longleftrightarrow>
     (case d of
        ORDER_BY units \<Rightarrow> a \<and> (\<forall>c \<in> set cs. tame a c)
      | AGGREGATION exprs \<Rightarrow> a \<and> (\<forall>c \<in> set cs. tame False c)
      | _ \<Rightarrow> (\<forall>c \<in> set cs. tame a c))"

lemma tame_mono: "tame False p \<Longrightarrow> tame a p"
  by (induction p) (auto split: OperatorData.splits)

lemma tame_map: "(\<And>a c. c \<in> set cs \<Longrightarrow> tame a c \<Longrightarrow> tame a (f c)) \<Longrightarrow> tame a (LogicalOperator d es cs) \<Longrightarrow> tame a (LogicalOperator d es' (map f cs))"
  by (auto split: OperatorData.splits)

lemma tame_rules:
  "tame a p \<Longrightarrow> tame a (fst (ExpressionRewriter_rewrite env p))"
  "tame a p \<Longrightarrow> tame a (fst (PredicateRewriteRule_rewrite env p))"
  "tame a p \<Longrightarrow> tame a (fst (PredicatePushdownRewriter_rewrite env p))"
proof -
  show "tame a p \<Longrightarrow> tame a (fst (ExpressionRewriter_rewrite env p))"
  proof (induction env p arbitrary: a rule: ExpressionRewriter_rewrite.induct)
    case (1 env d es cs)
    then show ?case using tame_map [of cs "fst \<circ> ExpressionRewriter_rewrite env" a d es] by simp
  qed
  show "tame a p \<Longrightarrow> tame a (fst (PredicateRewriteRule_rewrite env p))"
    using predicate_rewrite_cases [of env p] by (auto split: OperatorData.splits)
  show "tame a p \<Longrightarrow> tame a (fst (PredicatePushdownRewriter_rewrite env p))"
    using pushdown_cases [of env p] by auto
qed

lemma tame_rewriter: "tame a p \<Longrightarrow> tame a (fst (Rewriter_rewrite env p))"
proof (induction env p arbitrary: a rule: Rewriter_rewrite.induct)
  case (1 env p)
  obtain q c where r: "apply_rules env p = (q, c)" by fastforce
  have "tame a q" using r tame_rules [of a _ env] 1(2) by (auto simp: apply_rules_def case_prod_unfold Let_def)
  then have "tame a (LogicalOperator (lo_data q) (lo_expressions q) (map (fst \<circ> Rewriter_rewrite env) (lo_children q)))"
    by (intro tame_map [of "lo_children q" _ a _ "lo_expressions q"]) (use 1(1) [OF r [symmetric] refl] in simp_all)
  then show ?case by (simp add: Rewriter_rewrite.simps [of env p] r)
qed

text \<open>
  The physical plan of a good plan delivers its rows; a sort that has lost its child has no operator and
  no rows. A plan with a sort or an aggregation must have rows.
\<close>

definition executes :: "EvalEnv \<Rightarrow> std_sort \<Rightarrow> LogicalOperator \<Rightarrow> bool" where
  "executes env srt p \<longleftrightarrow>
     (\<exists>oper. create_physical env p = Some (SUCCESS, Some oper) \<and> operator_ok env srt oper (plan_rows env srt p)) \<or>
     create_physical env p = Some (SUCCESS, None) \<and> plan_rows env srt p = []"

lemma good_expr_static: "good_expr env e \<Longrightarrow> do_expr e = Some SUCCESS \<and> value_type e = Some BOOLEANS"
  by (cases e) (auto simp: do_expr_condition)

lemma good_expr_value:
  assumes "good_expr env e" "of_rows t" "evaluable t e" "env_ok env"
  shows "\<exists>v. get_value env t e (Value_init env) = Some (SUCCESS, v)"
proof (cases "\<exists>type cs. e = ConjunctionExpr type cs")
  case True
  then show ?thesis using conj_loop_holds [of _ t env "Value_init env" _ "Value_init env"] assms by (auto simp: env_ok_def)
next
  case False
  then have "condition e" using assms(1) by (cases e) simp_all
  then show ?thesis using condition_value [of e t env "Value_init env"] assms by (auto simp: env_ok_def)
qed

lemma good_plan_executes:
  assumes "good_plan env p" "tame True p" "plan_rows env srt p \<noteq> [] \<or> tame False p" "env_ok env"
    "\<And>r ts. length (srt r ts) = length ts"
  shows "executes env srt p"
  using assms(1-3)
proof (induction p)
  case (LogicalOperator d es cs)
  show ?case
  proof (cases rule: good_plan_cases [OF LogicalOperator(2)])
    case 1
    then show ?thesis using source_executes [OF 1 assms(4), of srt] by (auto simp: executes_def intro: reusable_ok)
  next
    case (2 e c)
    obtain oper where oper: "create_physical env c = Some (SUCCESS, Some oper)" "operator_ok env srt oper (plan_rows env srt c)"
      using source_executes [OF 2(2) assms(4), of srt] by (auto intro: reusable_ok)
    have "\<forall>t \<in> set (plan_rows env srt c). \<exists>v. get_value env t e (Value_init env) = Some (SUCCESS, v)"
      using good_expr_value [OF 2(3) _ _ assms(4)] source_of_rows source_rows [OF 2(2)] 2(4) by blast
    from predicate_ok [OF oper(2) _ this] show ?thesis using good_expr_static [OF 2(3)] 2(1) oper(1) by (simp add: executes_def)
  next
    case (3 d' cs')
    then have p: "d' = d" "es = []" "cs' = cs" by simp_all
    show ?thesis
    proof (cases cs)
      case Nil
      from 3(4) show ?thesis
        using project_none_ok aggre_none_ok assms(5) [of _ "[]"] by (auto simp: p Nil executes_def aggregate_rows_def)
    next
      case (Cons c rest)
      then have c: "cs = [c]" "good_plan env c" using 3(2,3) p by (cases rest; simp)+
      have IH: "executes env srt c" if "tame True c" "plan_rows env srt c \<noteq> [] \<or> tame False c"
        using LogicalOperator(1) [of c] c that by simp
      from 3(4) [unfolded p(1)] show ?thesis
      proof (elim disjE exE)
        fix exprs assume d: "d = PROJECTION exprs"
        then have "executes env srt c" using IH LogicalOperator(3,4) c(1) by (auto simp: p)
        then show ?thesis using project_ok [of env srt _ "plan_rows env srt c" exprs] project_none_ok
          by (auto simp: executes_def d p c(1))
      next
        fix units assume d: "d = ORDER_BY units"
        have ne: "plan_rows env srt c \<noteq> []" using LogicalOperator(4) assms(5) [of _ "[]"] by (auto simp: d p c(1))
        then have "executes env srt c" using IH LogicalOperator(3) c(1) by (auto simp: d p)
        then show ?thesis using order_ok [of env srt _ "plan_rows env srt c" units] assms(5) ne by (auto simp: executes_def d p c(1))
      next
        fix exprs assume d: "d = AGGREGATION exprs"
        have "tame False c" using LogicalOperator(3) by (simp add: d p c(1))
        then have "executes env srt c" using IH tame_mono by blast
        moreover obtain s where "aggregate_rows env exprs (plan_rows env srt c) = Some s"
          using LogicalOperator(4) by (auto simp: d p c(1) split: option.splits)
        ultimately show ?thesis using aggre_ok [of env srt _ "plan_rows env srt c" exprs s] aggre_none_ok
          by (auto simp: executes_def d p c(1) aggregate_rows_def)
      qed
    qed
  qed
qed


section \<open>The reply\<close>

text \<open>The cells of a tuple, if all of them can be read, and the line that shows some texts.\<close>

definition tuple_cells :: "EvalEnv \<Rightarrow> Tuple \<Rightarrow> Value list \<Rightarrow> bool" where
  "tuple_cells env t vs \<longleftrightarrow>
     cell_num t = Some (length vs) \<and> (\<forall>i < length vs. tuple_cell_at env t (int i) (Value_init env) = Some (SUCCESS, vs ! i))"

fun join_texts :: "byte list list \<Rightarrow> byte list" where
  "join_texts [] = []"
| "join_texts [x] = x"
| "join_texts (x # xs) = x @ delim @ join_texts xs"

definition text_line :: "byte list list \<Rightarrow> byte list" where
  "text_line xs = join_texts xs @ [10]"

definition separated :: "nat \<Rightarrow> byte list list \<Rightarrow> byte list" where
  "separated i xs = concat (map2 (\<lambda>j x. (if j \<noteq> 0 then delim else []) @ x) [i..<i + length xs] xs)"

lemma separated_Nil [simp]: "separated i [] = []"
  by (simp add: separated_def)

lemma separated_Cons: "separated i (x # xs) = (if i \<noteq> 0 then delim else []) @ x @ separated (Suc i) xs"
  by (simp add: separated_def upt_conv_Cons del: upt_Suc)

lemma separated_join: "separated i xs = (if i \<noteq> 0 \<and> xs \<noteq> [] then delim else []) @ join_texts xs"
  by (induction xs arbitrary: i rule: join_texts.induct) (simp_all add: separated_Cons)

lemma write_names_text: "\<exists>cs. write_names i names = map Writen cs \<and> concat cs = separated i names"
proof (induction i names rule: write_names.induct)
  case (2 i name names)
  then obtain cs where cs: "write_names (i + 1) names = map Writen cs" "concat cs = separated (i + 1) names" by blast
  then show ?case by (intro exI [of _ "(if i \<noteq> 0 then [delim] else []) @ name # cs"]) (auto simp: separated_Cons)
qed (simp add: separated_def)

lemma write_cells_text:
  assumes "\<forall>i < length vs. tuple_cell_at env t (int (k + i)) (Value_init env) = Some (SUCCESS, vs ! i)"
  shows "\<exists>cs. write_cells env t [k..<k + length vs] = Some (SUCCESS, map Writen cs) \<and>
    concat cs = separated k (map (value_to_string (ee_fo env)) vs)"
  using assms
proof (induction vs arbitrary: k)
  case (Cons v vs)
  have "\<forall>i < length vs. tuple_cell_at env t (int (Suc k + i)) (Value_init env) = Some (SUCCESS, vs ! i)"
    using Cons(2) by (metis Suc_less_eq add_Suc add_Suc_right length_Cons nth_Cons_Suc)
  then obtain cs where cs: "write_cells env t [Suc k..<Suc k + length vs] = Some (SUCCESS, map Writen cs)"
    "concat cs = separated (Suc k) (map (value_to_string (ee_fo env)) vs)" using Cons(1) by blast
  have "tuple_cell_at env t (int k) (Value_init env) = Some (SUCCESS, v)" using Cons(2) by (auto dest: spec [of _ 0])
  then show ?case using cs
    by (intro exI [of _ "(if k \<noteq> 0 then [delim] else []) @ value_to_string (ee_fo env) v # cs"])
      (auto simp: separated_Cons upt_conv_Cons simp del: upt_Suc)
qed (simp add: separated_def)

lemma write_rows_text:
  assumes "delivers env srt I p ts" "list_all2 (tuple_cells env) ts rows"
  shows "\<exists>cs q. write_rows env srt calls p = Some (True, RECORD_EOF, calls @ map Writen cs, q) \<and> I q \<and>
    concat cs = concat (map (\<lambda>vs. text_line (map (value_to_string (ee_fo env)) vs)) rows)"
  using assms
proof (induction ts arbitrary: p calls rows)
  case Nil
  then show ?case by (subst write_rows.simps) (auto simp: SqlResult_next_tuple_def)
next
  case (Cons t ts)
  obtain vs rows' where r: "rows = vs # rows'" "tuple_cells env t vs" "list_all2 (tuple_cells env) ts rows'"
    using Cons(3) by (auto simp: list_all2_Cons1)
  obtain q where q: "next_oper env srt p = Some (SUCCESS, q)" "current_tuple env q = Some (Some t)" "delivers env srt I q ts"
    using Cons(2) by auto
  obtain cs where cs: "write_cells env t [0..<length vs] = Some (SUCCESS, map Writen cs)"
    "concat cs = separated 0 (map (value_to_string (ee_fo env)) vs)"
    using write_cells_text [of vs env t 0] r(2) by (auto simp: tuple_cells_def)
  obtain cs' q' where cs': "write_rows env srt (calls @ map Writen cs @ [Writen [10]]) q =
      Some (True, RECORD_EOF, (calls @ map Writen cs @ [Writen [10]]) @ map Writen cs', q')" "I q'"
    "concat cs' = concat (map (\<lambda>vs. text_line (map (value_to_string (ee_fo env)) vs)) rows')"
    using Cons(1) [OF q(3) r(3)] by blast
  have "write_rows env srt calls p = Some (True, RECORD_EOF, calls @ map Writen (cs @ [10] # cs'), q')"
    using q(1,2) cs(1) cs'(1) r(2) by (subst write_rows.simps) (simp add: SqlResult_next_tuple_def tuple_cells_def)
  then show ?case using cs'(2,3) cs(2) r(1) by (intro exI [of _ "cs @ [10] # cs'"]) (simp add: text_line_def separated_join)
qed

lemma operator_reply:
  assumes "operator_ok env srt oper ts" "list_all2 (tuple_cells env) ts rows" "names \<noteq> []"
  shows "\<exists>cs. write_result_internal env srt commit names oper =
      Some (case commit of None \<Rightarrow> SUCCESS | Some rc \<Rightarrow> rc, False, map Writen cs) \<and>
    concat cs = text_line names @ concat (map (\<lambda>vs. text_line (map (value_to_string (ee_fo env)) vs)) rows)"
proof (rule operator_okE [OF assms(1)])
  fix I q assume q: "open_oper env oper = Some (SUCCESS, q)" "delivers env srt I q ts"
    and cl: "\<And>r. I r \<Longrightarrow> \<exists>r'. close_oper env r = Some (SUCCESS, r')"
  obtain hs where hs: "write_header names = map Writen hs" "concat hs = text_line names"
  proof -
    obtain cs where "write_names 0 names = map Writen cs" "concat cs = separated 0 names" using write_names_text by blast
    then show ?thesis using that [of "cs @ [[10]]"] assms(3) by (simp add: write_header_def text_line_def separated_join)
  qed
  obtain cs q' where w: "write_rows env srt (write_header names) q = Some (True, RECORD_EOF, write_header names @ map Writen cs, q')" "I q'"
    "concat cs = concat (map (\<lambda>vs. text_line (map (value_to_string (ee_fo env)) vs)) rows)"
    using write_rows_text [OF q(2) assms(2)] by blast
  obtain r' where "close_oper env q' = Some (SUCCESS, r')" using cl [OF w(2)] by blast
  then have "write_result_internal env srt commit names oper =
      Some (case commit of None \<Rightarrow> SUCCESS | Some rc \<Rightarrow> rc, False, map Writen (hs @ cs))"
    using q(1) w(1) hs(1) assms(3) by (cases commit) (simp_all add: write_result_internal_def SqlResult_close_def)
  then show ?thesis using hs(2) w(3) by (intro exI [of _ "hs @ cs"]) simp
qed


section \<open>Select statements\<close>

lemma join_tables_tame: "tame a p \<Longrightarrow> tame a (join_tables p tables)"
  by (induction p tables rule: join_tables.induct) simp_all

lemma add_filter_tame: "add_filter stmt p = Some q \<Longrightarrow> tame a p \<Longrightarrow> tame a q"
  by (auto simp: add_filter_def Let_def split: if_splits)

definition aggregates :: "SelectStmt \<Rightarrow> bool" where
  "aggregates stmt \<longleftrightarrow> concat (map get_aggre_expression (ss_expressions stmt)) \<noteq> []"

lemma create_plan_tame:
  assumes "create_plan stmt = Some p"
  shows "tame True p \<and> (ss_order_units stmt = [] \<and> \<not> aggregates stmt \<longrightarrow> tame False p)"
proof -
  obtain table tables where t: "ss_tables stmt = table # tables" using assms by (auto simp: create_plan_def split: list.splits)
  obtain q where q: "add_filter (ss_filter_stmt stmt) (join_tables (LogicalOperator (TABLE_GET table True []) [] []) tables) = Some q"
    using assms t by (auto simp: create_plan_def split: option.splits)
  have "tame False q" by (rule add_filter_tame [OF q join_tables_tame]) simp
  then show ?thesis using assms t q tame_mono [of q True] by (auto simp: create_plan_def Let_def aggregates_def)
qed

lemma projection_kept:
  assumes "lo_data p = PROJECTION exprs"
  shows "lo_data (fst (Rewriter_rewrite env p)) = PROJECTION exprs"
proof -
  have e: "lo_data (fst (ExpressionRewriter_rewrite env q)) = lo_data q" for q by (cases q) simp
  have r: "lo_data (fst (PredicateRewriteRule_rewrite env q)) = lo_data q" for q using predicate_rewrite_cases [of env q] by auto
  have d: "lo_data (fst (PredicatePushdownRewriter_rewrite env q)) = lo_data q" for q using pushdown_cases [of env q] by auto
  show ?thesis using assms by (simp add: Rewriter_rewrite.simps [of env p] apply_rules_def case_prod_unfold Let_def e r d)
qed

lemma create_physical_projection: "lo_data p = PROJECTION exprs \<Longrightarrow> create_physical env p \<noteq> Some (SUCCESS, None)"
  by (cases p) (auto split: list.splits simp: bind_eq_Some_conv)

lemma optimized_executes:
  assumes "env_ok env" "create_plan stmt = Some p" "good_statement env stmt" "\<And>r ts. length (srt r ts) = length ts"
    "ss_order_units stmt \<noteq> [] \<or> aggregates stmt \<Longrightarrow> plan_rows env srt p \<noteq> []"
  shows "\<exists>q oper. OptimizeStage_rewrite env p = Some q \<and> create_physical env q = Some (SUCCESS, Some oper) \<and>
    operator_ok env srt oper (plan_rows env srt p)"
proof -
  define plain where "plain \<longleftrightarrow> ss_order_units stmt = [] \<and> \<not> aggregates stmt"
  define J where "J = (\<lambda>q. same_plan env srt p q \<and> lo_data q = PROJECTION (ss_expressions stmt) \<and> tame True q \<and> (plain \<longrightarrow> tame False q))"
  have "\<exists>q. OptimizeStage_rewrite env p = Some q \<and> J q"
  proof (rule optimize_induct)
    show "J p" using create_plan_tame [OF assms(2)] create_plan_good [OF assms(2,3)] assms(2)
      by (auto simp: J_def plain_def same_plan_def create_plan_def Let_def split: list.splits option.splits)
    show "J (fst (Rewriter_rewrite env q))" if "J q" for q
      using that rewriter_same [OF assms(1), of q srt] same_plan_trans tame_rewriter projection_kept
      unfolding J_def same_plan_def by metis
  qed
  then obtain q where q: "OptimizeStage_rewrite env p = Some q" "same_plan env srt p q" "lo_data q = PROJECTION (ss_expressions stmt)"
    "tame True q" "plain \<longrightarrow> tame False q" by (auto simp: J_def)
  have "executes env srt q"
    by (rule good_plan_executes [OF _ q(4) _ assms(1,4)]) (use q(2,5) assms(5) in \<open>auto simp: same_plan_def plain_def\<close>)
  then show ?thesis using q(1,2) create_physical_projection [OF q(3)] by (auto simp: executes_def same_plan_def)
qed

lemma demo_select_good:
  "env_ok demo_env" "good_statement demo_env (demo_select [demo_unit])"
  by (simp_all add: env_ok_def demo_env_def good_statement_def demo_select_def filter_conditions_def List.map_filter_simps
      filter_expr_def demo_unit_def statement_tuples_def table_tuples_def demo_relation_def demo_field_found safe_def)

lemma demo_select_cells:
  "tuple_cells demo_env (ProjectTuple [projection_spec demo_env (FieldExpr ''t'' demo_field)] (Some (RowTuple demo_meta (replicate 19 0))))
     [set_type INTS fresh_value\<lparr>v_length := 4\<rparr>]"
  "holds demo_env (RowTuple demo_meta (replicate 19 0)) (ConjunctionExpr CONJ_AND
     [ComparisonExpr EQUAL_TO (FieldExpr ''t'' demo_field) (ValueExpr (set_int 0 fresh_value))])"
  by code_simp+

lemma demo_lines:
  "text_line [[105, 100]] = [105, 100, 10]"
  "text_line [value_to_string (ee_fo demo_env) (set_type INTS fresh_value\<lparr>v_length := 4\<rparr>)] = [48, 10]"
  by code_simp+

lemma demo_select_plan:
  obtains p where "create_plan (demo_select [demo_unit]) = Some p"
    "plan_rows demo_env (\<lambda>_. id) p =
       [ProjectTuple [projection_spec demo_env (FieldExpr ''t'' demo_field)] (Some (RowTuple demo_meta (replicate 19 0)))]"
  using demo_select_cells(2)
  by (simp add: create_plan_def demo_select_def add_filter_def filter_expr_def demo_unit_def demo_relation_def table_tuples_def)

text \<open>A sort that gets no tuples hands out a null pointer once, which makes the reply fail.\<close>

lemma order_empty_reply:
  assumes "operator_ok env srt c []" "\<And>r. srt r [] = []" "exprs \<noteq> []" "names \<noteq> []"
  shows "write_result_internal env srt commit names (Project exprs [Order units False [] 0 [c]]) =
    Some (INTERNAL, True, write_header names)"
proof (rule operator_okE [OF assms(1)])
  fix I q assume q: "open_oper env c = Some (SUCCESS, q)" "delivers env srt I q []"
    and cl: "\<And>r. I r \<Longrightarrow> \<exists>r'. close_oper env r = Some (SUCCESS, r')"
  obtain q' where q': "next_oper env srt (Order units False [] 0 [q]) = Some (SUCCESS, Order units True [] 0 [q'])" "I q'"
    using order_collects [OF q(2), of units "[]" 0] assms(2) by auto
  obtain r' where r': "close_oper env q' = Some (SUCCESS, r')" using cl [OF q'(2)] by blast
  have "write_cells env (ProjectTuple (map (projection_spec env) exprs) None) [0..<length exprs] = Some (INTERNAL, [])"
    using assms(3) by (simp add: upt_rec [of 0])
  then have "write_rows env srt (write_header names) (Project exprs [Order units False [] 0 [q]]) =
      Some (False, INTERNAL, write_header names, Project exprs [Order units True [] 0 [q']])"
    using q'(1) by (subst write_rows.simps) (simp add: SqlResult_next_tuple_def project_next_def)
  then show ?thesis using q(1) r' by (simp add: write_result_internal_def SqlResult_close_def split: option.splits)
qed

text \<open>
  C40: A select statement with a sort on a table without visible rows does not give an empty result: the
  reply fails with an internal error after the header, and the server closes the connection.
\<close>

theorem order_by_empty_disconnects:
  fixes rel :: Relation and exprs :: "Expression list" and units :: "OrderByUnit list"
  defines "stmt \<equiv> \<lparr>ss_tables = [rel], ss_expressions = exprs, ss_filter_stmt = \<lparr>fs_filter_units = [], fs_has_or = False\<rparr>,
     ss_order_units = units\<rparr>"
  assumes "env_ok env" "rl_rows rel = []" "exprs \<noteq> []" "\<not> aggregates stmt" "units \<noteq> []" "\<And>r. srt r [] = []" "names \<noteq> []"
  shows "\<exists>p q oper. create_plan stmt = Some p \<and> OptimizeStage_rewrite env p = Some q \<and>
     create_physical env q = Some (SUCCESS, Some oper) \<and> plan_rows env srt p = [] \<and>
     write_result_internal env srt commit names oper = Some (INTERNAL, True, write_header names)"
proof -
  define get where "get = LogicalOperator (TABLE_GET rel True []) [] []"
  define sorted where "sorted = LogicalOperator (ORDER_BY units) [] [get]"
  define p where "p = LogicalOperator (PROJECTION exprs) [] [sorted]"
  have src: "source get" by (simp add: get_def)
  have create: "create_plan stmt = Some p"
    using assms(5,6) by (simp add: create_plan_def stmt_def add_filter_def p_def sorted_def get_def aggregates_def)
  have fixed: "apply_rules env (LogicalOperator d [] [c]) = (LogicalOperator d [] [c], False)"
    if "ExpressionRewriter_rewrite env c = (c, False)" "lo_data c \<noteq> PREDICATE" "d \<noteq> PREDICATE" for d c
    using that by (cases c) (auto simp: apply_rules_def PredicateRewriteRule_rewrite_def PredicatePushdownRewriter_rewrite_def split: OperatorData.splits)
  have g: "ExpressionRewriter_rewrite env get = (get, False)" "Rewriter_rewrite env get = (get, False)"
    using source_fixed(1) [OF src] source_rewrite [OF src] by blast+
  have s: "ExpressionRewriter_rewrite env sorted = (sorted, False)" using g(1) by (simp add: sorted_def)
  have "Rewriter_rewrite env sorted = (sorted, False)"
    using fixed [of get "ORDER_BY units"] g by (subst Rewriter_rewrite.simps) (simp add: sorted_def get_def)
  then have "Rewriter_rewrite env p = (p, False)"
    using fixed [of sorted "PROJECTION exprs"] s by (subst Rewriter_rewrite.simps) (simp add: p_def sorted_def)
  then have opt: "OptimizeStage_rewrite env p = Some p" by (subst OptimizeStage_rewrite.simps) simp
  have rows: "plan_rows env srt get = []" using assms(3) by (simp add: get_def table_tuples_def)
  obtain c where c: "create_physical env get = Some (SUCCESS, Some c)" "operator_ok env srt c []"
    using source_executes [OF src assms(2), of srt] rows by (auto intro: reusable_ok)
  have "create_physical env p = Some (SUCCESS, Some (Project exprs [Order units False [] 0 [c]]))"
    using c(1) by (simp add: p_def sorted_def)
  moreover have "plan_rows env srt p = []" using rows assms(7) by (simp add: p_def sorted_def)
  ultimately show ?thesis using create opt order_empty_reply [OF c(2) assms(7,4,8)] by blast
qed

theorem order_by_empty_disconnects_witness:
  "\<exists>p q oper. create_plan \<lparr>ss_tables = [\<lparr>rl_meta = demo_meta, rl_rows = []\<rparr>], ss_expressions = [FieldExpr ''t'' demo_field],
        ss_filter_stmt = \<lparr>fs_filter_units = [], fs_has_or = False\<rparr>,
        ss_order_units = [\<lparr>ou_table = ''t'', ou_field = demo_field, ou_asc = True\<rparr>]\<rparr> = Some p \<and>
     OptimizeStage_rewrite demo_env p = Some q \<and> create_physical demo_env q = Some (SUCCESS, Some oper) \<and>
     plan_rows demo_env (\<lambda>_. id) p = [] \<and>
     write_result_internal demo_env (\<lambda>_. id) None [[105, 100]] oper = Some (INTERNAL, True, write_header [[105, 100]])"
  by (rule order_by_empty_disconnects) (simp_all add: demo_select_good aggregates_def)

end
