(* ===== verification/OrderProps.thy ===== *)
theory OrderProps
  imports ExecutorProps "HOL-Library.Multiset"
begin

text \<open>
  The order of a sorted result. The comparison that the sort gives to \<^verbatim>\<open>std::sort\<close> is the lexicographic order
  of the ranks of the key cells, ascending or descending for every key; it is a strict weak order, which
  \<^verbatim>\<open>std::sort\<close> requires.
\<close>

section \<open>Keys\<close>

definition sort_cell :: "EvalEnv \<Rightarrow> Tuple \<Rightarrow> OrderByUnit \<Rightarrow> Value" where
  "sort_cell env t u =
     (case find_cell env t (TupleCellSpec_init (ee_junk_aggre env) (ou_table u) (fm_name (ou_field u))) (Value_init env) of
        Some (rc, v) \<Rightarrow> v | None \<Rightarrow> Value_init env)"

text \<open>The key is a column of integers, dates or strings of the tuple, the strings being plain ASCII.\<close>

definition sortable :: "EvalEnv \<Rightarrow> Tuple \<Rightarrow> OrderByUnit \<Rightarrow> bool" where
  "sortable env t u \<longleftrightarrow>
     of_rows t \<and> lookup_field t (ou_table u) (fm_name (ou_field u)) = Some (ou_field u) \<and>
     fm_type (ou_field u) \<in> {INTS, DATES, CHARS, TEXTS} \<and> column_value (fm_type (ou_field u)) (sort_cell env t u)"

text \<open>The specification: the first key that differs decides.\<close>

fun row_less :: "EvalEnv \<Rightarrow> OrderByUnit list \<Rightarrow> Tuple \<Rightarrow> Tuple \<Rightarrow> bool" where
  "row_less env [] l r \<longleftrightarrow> False"
| "row_less env (u # us) l r \<longleftrightarrow>
     (let a = value_rank (sort_cell env l u); b = value_rank (sort_cell env r u) in
      if a = b then row_less env us l r else if ou_asc u then a < b else b < a)"

lemma cell_at_same:
  assumes "fm_type (tm_fields tm ! i) \<in> {INTS, DATES, CHARS, TEXTS}" "i < length (tm_fields tm)"
  shows "value_rank (snd (cell_at trx tm rec (int i) c)) = value_rank (snd (cell_at trx tm rec (int i) d)) \<and>
    column_value t (snd (cell_at trx tm rec (int i) c)) = column_value t (snd (cell_at trx tm rec (int i) d))"
proof (cases "Table_is_null trx tm (tm_fields tm ! i) rec")
  case True
  then show ?thesis using assms(2) by (simp add: cell_at_def Let_def value_rank_def column_value_def set_type_def)
next
  case False
  have c: "snd (cell_at trx tm rec (int i) c) =
      value_set_data (drop (nat (fm_offset (tm_fields tm ! i))) rec) (fm_len (tm_fields tm ! i)) (set_type (fm_type (tm_fields tm ! i)) c)" for c
    using False assms(2) by (simp add: cell_at_def Let_def)
  from assms(1) show ?thesis unfolding c
    by (elim insertE emptyE;
        cases t; simp add: value_rank_def column_value_def value_set_data_def set_type_def set_string_def set_text_def set_date_def)
qed

lemma sort_cell_found:
  assumes "sortable env t u"
  shows "\<exists>v. find_cell env t (TupleCellSpec_init (ee_junk_aggre env) (ou_table u) (fm_name (ou_field u))) c = Some (SUCCESS, v) \<and>
    value_rank v = value_rank (sort_cell env t u) \<and> column_value (fm_type (ou_field u)) v"
proof -
  let ?spec = "TupleCellSpec_init (ee_junk_aggre env) (ou_table u) (fm_name (ou_field u))"
  obtain tm rec i where r: "i < length (tm_fields tm)" "tm_fields tm ! i = ou_field u"
    "\<forall>cell. find_cell env t ?spec cell = Some (SUCCESS, snd (cell_at (ee_trx env) tm rec (int i) cell))"
    using find_cell_row [of t ?spec "ou_field u" env] assms by (auto simp: sortable_def TupleCellSpec_init_def)
  show ?thesis using r cell_at_same [of tm i "ee_trx env" rec c "Value_init env"] assms by (auto simp: sortable_def sort_cell_def)
qed

lemma comprule_less:
  assumes "\<forall>u \<in> set units. sortable env l u \<and> sortable env r u"
  shows "comprule_loop env l r units v w = Some (row_less env units l r)"
  using assms
proof (induction units arbitrary: v w)
  case (Cons u us)
  let ?spec = "TupleCellSpec_init (ee_junk_aggre env) (ou_table u) (fm_name (ou_field u))"
  obtain a where a: "find_cell env l ?spec v = Some (SUCCESS, a)" "value_rank a = value_rank (sort_cell env l u)"
    "column_value (fm_type (ou_field u)) a" using sort_cell_found [of env l u v] Cons(2) by auto
  obtain b where b: "find_cell env r ?spec w = Some (SUCCESS, b)" "value_rank b = value_rank (sort_cell env r u)"
    "column_value (fm_type (ou_field u)) b" using sort_cell_found [of env r u w] Cons(2) by auto
  have t: "fm_type (ou_field u) \<in> {INTS, DATES, CHARS, TEXTS}" using Cons(2) by (auto simp: sortable_def)
  have IH: "comprule_loop env l r us v w = Some (row_less env us l r)" for v w using Cons by simp
  show ?case
    using compare_value_rank [OF t a(3) b(3), of "ee_fo env"] a(1,2) b(1,2) IH
    by (cases "value_rank a" "value_rank b" rule: linorder_cases) (auto simp: Let_def dest: less_imp_neq order_less_not_sym)
qed simp

section \<open>A strict weak order\<close>

definition strict_weak :: "('a \<Rightarrow> 'a \<Rightarrow> bool) \<Rightarrow> 'a set \<Rightarrow> bool" where
  "strict_weak r S \<longleftrightarrow>
     (\<forall>x \<in> S. \<forall>y \<in> S. r x y \<longrightarrow> \<not> r y x) \<and> (\<forall>x \<in> S. \<forall>y \<in> S. \<forall>z \<in> S. \<not> r x y \<longrightarrow> \<not> r y z \<longrightarrow> \<not> r x z)"

lemma strict_weak_asym: "strict_weak r S \<Longrightarrow> x \<in> S \<Longrightarrow> y \<in> S \<Longrightarrow> r x y \<Longrightarrow> \<not> r y x"
  unfolding strict_weak_def by blast

lemma strict_weak_trans: "strict_weak r S \<Longrightarrow> x \<in> S \<Longrightarrow> y \<in> S \<Longrightarrow> z \<in> S \<Longrightarrow> \<not> r x y \<Longrightarrow> \<not> r y z \<Longrightarrow> \<not> r x z"
  unfolding strict_weak_def by blast

lemma strict_weak_subset: "strict_weak r S \<Longrightarrow> T \<subseteq> S \<Longrightarrow> strict_weak r T"
  unfolding strict_weak_def by blast

lemma row_less_asym: "row_less env us x y \<Longrightarrow> \<not> row_less env us y x"
  by (induction us) (auto simp: Let_def split: if_splits)

lemma row_less_neg_trans: "\<not> row_less env us x y \<Longrightarrow> \<not> row_less env us y z \<Longrightarrow> \<not> row_less env us x z"
  by (induction us) (auto simp: Let_def split: if_splits)

text \<open>What is documented of \<^verbatim>\<open>std::sort\<close>: a sorted rearrangement, if the comparison is a strict weak order.\<close>

definition std_sort_ok :: "std_sort \<Rightarrow> bool" where
  "std_sort_ok srt \<longleftrightarrow>
     (\<forall>r ts. strict_weak r (set ts) \<longrightarrow> mset (srt r ts) = mset ts \<and> sorted_wrt (\<lambda>x y. \<not> r y x) (srt r ts))"

lemma sorted_wrt_on: "sorted_wrt P xs \<Longrightarrow> (\<And>x y. x \<in> set xs \<Longrightarrow> y \<in> set xs \<Longrightarrow> P x y \<Longrightarrow> Q x y) \<Longrightarrow> sorted_wrt Q xs"
  by (rule sorted_wrt_mono_rel)

text \<open>
  C38: When all keys are columns of integers, of dates or of plain ASCII strings, the tuples of a sorted plan
  are those of the plan below, rearranged such that no tuple comes before one with a smaller key: the keys
  are compared in their order, each ascending or descending as requested, null being the least value of a
  column. Floats and strings with other bytes are left out: the code's comparison is no order on them
  (floats closer than \<open>EPSILON\<close> count as equal, which is not transitive; a tail of the longer string
  that begins with a byte above 127 makes it the smaller one).
\<close>

theorem order_by_sorts:
  assumes "std_sort_ok srt" "\<And>t u. t \<in> set (plan_rows env srt c) \<Longrightarrow> u \<in> set units \<Longrightarrow> sortable env t u"
  shows "mset (plan_rows env srt (LogicalOperator (ORDER_BY units) [] [c])) = mset (plan_rows env srt c) \<and>
    sorted_wrt (\<lambda>x y. \<not> row_less env units y x) (plan_rows env srt (LogicalOperator (ORDER_BY units) [] [c]))"
proof -
  let ?ts = "plan_rows env srt c"
  have r: "comprule env units x y \<longleftrightarrow> row_less env units x y" if "x \<in> set ?ts" "y \<in> set ?ts" for x y
    using comprule_less [of units env x y] assms(2) that by (auto simp: comprule_def)
  have "strict_weak (comprule env units) (set ?ts)"
    unfolding strict_weak_def using r row_less_asym row_less_neg_trans by blast
  then have s: "mset (srt (comprule env units) ?ts) = mset ?ts" "sorted_wrt (\<lambda>x y. \<not> comprule env units y x) (srt (comprule env units) ?ts)"
    using assms(1) by (auto simp: std_sort_ok_def)
  have "sorted_wrt (\<lambda>x y. \<not> row_less env units y x) (srt (comprule env units) ?ts)"
    by (rule sorted_wrt_on [OF s(2)]) (use r mset_eq_setD [OF s(1)] in auto)
  then show ?thesis using s(1) by simp
qed

text \<open>A sort that keeps the contract: by insertion.\<close>

fun insert_by :: "('a \<Rightarrow> 'a \<Rightarrow> bool) \<Rightarrow> 'a \<Rightarrow> 'a list \<Rightarrow> 'a list" where
  "insert_by r x [] = [x]"
| "insert_by r x (y # ys) = (if r y x then y # insert_by r x ys else x # y # ys)"

definition insertion_sort :: "('a \<Rightarrow> 'a \<Rightarrow> bool) \<Rightarrow> 'a list \<Rightarrow> 'a list" where
  "insertion_sort r xs = foldr (insert_by r) xs []"

lemma mset_insert_by [simp]: "mset (insert_by r x ys) = add_mset x (mset ys)"
  by (induction ys) auto

lemma set_insert_by [simp]: "set (insert_by r x ys) = insert x (set ys)"
  by (induction ys) auto

lemma sorted_insert_by:
  "strict_weak r (insert x (set ys)) \<Longrightarrow> sorted_wrt (\<lambda>x y. \<not> r y x) ys \<Longrightarrow> sorted_wrt (\<lambda>x y. \<not> r y x) (insert_by r x ys)"
proof (induction ys)
  case (Cons y ys)
  have sub: "strict_weak r (insert x (set ys))" by (rule strict_weak_subset [OF Cons(2)]) auto
  show ?case
  proof (cases "r y x")
    case True
    then have "\<not> r x y" using strict_weak_asym [OF Cons(2), of y x] by simp
    then show ?thesis using True Cons(1) [OF sub] Cons(3) by simp
  next
    case False
    then have "\<forall>z \<in> set ys. \<not> r z x" using strict_weak_trans [OF Cons(2), of _ y x] Cons(3) by auto
    then show ?thesis using False Cons(3) by simp
  qed
qed simp

lemma insertion_sort_ok: "std_sort_ok insertion_sort"
proof -
  have "mset (insertion_sort r ts) = mset ts \<and> set (insertion_sort r ts) = set ts \<and> sorted_wrt (\<lambda>x y. \<not> r y x) (insertion_sort r ts)"
    if "strict_weak r (set ts)" for r :: "Tuple \<Rightarrow> Tuple \<Rightarrow> bool" and ts
    using that
  proof (induction ts)
    case (Cons t ts)
    have "strict_weak r (set ts)" by (rule strict_weak_subset [OF Cons(2)]) auto
    then show ?case using Cons sorted_insert_by [of r t "insertion_sort r ts"] by (simp add: insertion_sort_def)
  qed (simp add: insertion_sort_def)
  then show ?thesis by (simp add: std_sort_ok_def)
qed

theorem order_by_sorts_witness:
  "sorted_wrt (\<lambda>x y. \<not> row_less demo_env [\<lparr>ou_table = ''t'', ou_field = demo_field, ou_asc = False\<rparr>] y x)
     (plan_rows demo_env insertion_sort (LogicalOperator (ORDER_BY [\<lparr>ou_table = ''t'', ou_field = demo_field, ou_asc = False\<rparr>]) []
        [LogicalOperator (TABLE_GET demo_relation True []) [] []]))"
proof -
  have "column_value INTS (sort_cell demo_env (RowTuple demo_meta (replicate 19 0)) \<lparr>ou_table = ''t'', ou_field = demo_field, ou_asc = False\<rparr>)"
    by code_simp
  then have "sortable demo_env t u"
    if "t \<in> set (plan_rows demo_env insertion_sort (LogicalOperator (TABLE_GET demo_relation True []) [] []))"
      "u \<in> set [\<lparr>ou_table = ''t'', ou_field = demo_field, ou_asc = False\<rparr>]" for t u
    using that by (auto simp: sortable_def demo_relation_def table_tuples_def demo_field_found)
  from order_by_sorts [OF insertion_sort_ok this] show ?thesis by blast
qed

end
