(* ===== verification/RingBuffer.thy ===== *)
theory RingBuffer
  imports Prelude
begin

text \<open>
  The ring buffer of the communicators (\<^verbatim>\<open>net/ring_buffer.h\<close>, \<^verbatim>\<open>net/ring_buffer.cpp\<close>): an array of bytes with the
  position of the next byte to write and the number of bytes that are stored. It is a queue of bounded
  length; the interface \<open>byte_queue\<close> says what the buffered writer relies on.

  Sizes and positions are never negative and natural numbers here; the length of the data that is written
  is that of the list. In the code they are 32-bit ints, and the sum in \<open>read_pos\<close> would overflow for a buffer of more than
  \<open>2\<^sup>3\<^sup>0\<close> bytes; the program makes buffers of 16384 bytes only.
\<close>

section \<open>Operations\<close>

record RingBuffer =
  rb_buffer :: "byte list"
  rb_data_size :: nat
  rb_write_pos :: nat

definition RingBuffer_init :: "nat \<Rightarrow> RingBuffer" where
  "RingBuffer_init n = \<lparr>rb_buffer = replicate n 0, rb_data_size = 0, rb_write_pos = 0\<rparr>"

definition rb_capacity :: "RingBuffer \<Rightarrow> nat" where
  "rb_capacity b = length (rb_buffer b)"

definition rb_remain :: "RingBuffer \<Rightarrow> nat" where
  "rb_remain b = rb_capacity b - rb_data_size b"

definition rb_read_pos :: "RingBuffer \<Rightarrow> nat" where
  "rb_read_pos b = (rb_write_pos b + rb_capacity b - rb_data_size b) mod rb_capacity b"

text \<open>\<open>buffer\<close>: the bytes at the pointer, as many as it says.\<close>

definition rb_peek :: "RingBuffer \<Rightarrow> byte list" where
  "rb_peek b =
     (if rb_data_size b = 0 then []
      else
        let read_pos = rb_read_pos b;
            read_size = (if read_pos < rb_write_pos b then rb_write_pos b - read_pos else rb_capacity b - read_pos)
        in take read_size (drop read_pos (rb_buffer b)))"

definition rb_forward :: "int \<Rightarrow> RingBuffer \<Rightarrow> RC \<times> RingBuffer" where
  "rb_forward n b =
     (if n \<le> 0 then (INVALID_ARGUMENT, b)
      else if n > int (rb_data_size b) then (INVALID_ARGUMENT, b)
      else (SUCCESS, b\<lparr>rb_data_size := rb_data_size b - nat n\<rparr>))"

text \<open>The loops of \<open>write\<close> and \<open>read\<close>, with what was written or read so far.\<close>

partial_function (option) rb_write_loop :: "byte list \<Rightarrow> nat \<Rightarrow> RingBuffer \<Rightarrow> (RC \<times> nat \<times> RingBuffer) option" where
  "rb_write_loop data write_size b =
     (if write_size < length data \<and> rb_remain b > 0
      then
        let read_pos = rb_read_pos b; w = rb_write_pos b;
            tmp_buf_size = (if read_pos \<le> w then rb_capacity b - w else read_pos - w);
            copy_size = min (length data - write_size) tmp_buf_size
        in rb_write_loop data (write_size + copy_size)
             (b\<lparr>rb_buffer := take w (rb_buffer b) @ take copy_size (drop write_size data) @ drop (w + copy_size) (rb_buffer b),
                rb_write_pos := (w + copy_size) mod rb_capacity b, rb_data_size := rb_data_size b + copy_size\<rparr>)
      else Some (SUCCESS, write_size, b))"

definition rb_write :: "byte list \<Rightarrow> RingBuffer \<Rightarrow> (RC \<times> nat \<times> RingBuffer) option" where
  "rb_write data b = rb_write_loop data 0 b"

partial_function (option) rb_read_loop :: "nat \<Rightarrow> byte list \<Rightarrow> RingBuffer \<Rightarrow> (RC \<times> byte list \<times> RingBuffer) option" where
  "rb_read_loop n buf b =
     (if length buf < n \<and> rb_data_size b > 0
      then
        let copy_size = min (n - length buf) (length (rb_peek b));
            buf = buf @ take copy_size (rb_peek b)
        in case rb_forward (int copy_size) b of
             (rc, b) \<Rightarrow> if rc = SUCCESS then rb_read_loop n buf b else Some (rc, buf, b)
      else Some (SUCCESS, buf, b))"

definition rb_read :: "int \<Rightarrow> RingBuffer \<Rightarrow> (RC \<times> byte list \<times> RingBuffer) option" where
  "rb_read n b = (if n < 0 then Some (INVALID_ARGUMENT, [], b) else rb_read_loop (nat n) [] b)"

definition rb_clear :: "RingBuffer \<Rightarrow> RingBuffer" where
  "rb_clear b = b\<lparr>rb_write_pos := 0, rb_data_size := 0\<rparr>"


section \<open>The queue\<close>

definition rb_inv :: "RingBuffer \<Rightarrow> bool" where
  "rb_inv b \<longleftrightarrow> rb_data_size b \<le> rb_capacity b \<and> 0 < rb_capacity b \<and> rb_write_pos b < rb_capacity b"

text \<open>The stored bytes, read around the end of the array.\<close>

definition rb_contents :: "RingBuffer \<Rightarrow> byte list" where
  "rb_contents b = take (rb_data_size b) (drop (rb_read_pos b) (rb_buffer b @ rb_buffer b))"

lemma read_pos_cases:
  assumes "rb_inv b"
  obtains "rb_data_size b \<le> rb_write_pos b" "rb_read_pos b = rb_write_pos b - rb_data_size b"
    | "rb_write_pos b < rb_data_size b" "rb_read_pos b = rb_write_pos b + rb_capacity b - rb_data_size b"
proof (cases "rb_data_size b \<le> rb_write_pos b")
  case True
  then have eq: "rb_write_pos b + rb_capacity b - rb_data_size b = (rb_write_pos b - rb_data_size b) + rb_capacity b" by simp
  have "rb_read_pos b = rb_write_pos b - rb_data_size b" unfolding rb_read_pos_def eq mod_add_self2
    by (rule mod_less) (use assms in \<open>auto simp: rb_inv_def\<close>)
  then show ?thesis using True that(1) by blast
next
  case False
  have "rb_read_pos b = rb_write_pos b + rb_capacity b - rb_data_size b" unfolding rb_read_pos_def
    by (rule mod_less) (use False assms in \<open>auto simp: rb_inv_def\<close>)
  then show ?thesis using False that(2) by simp
qed

lemma contents_straight:
  "rb_inv b \<Longrightarrow> rb_data_size b \<le> rb_write_pos b \<Longrightarrow>
     rb_contents b = take (rb_data_size b) (drop (rb_write_pos b - rb_data_size b) (rb_buffer b))"
  by (cases rule: read_pos_cases [of b]) (auto simp: rb_contents_def rb_inv_def rb_capacity_def)

lemma contents_around:
  "rb_inv b \<Longrightarrow> rb_write_pos b < rb_data_size b \<Longrightarrow>
     rb_contents b = drop (rb_write_pos b + rb_capacity b - rb_data_size b) (rb_buffer b) @ take (rb_write_pos b) (rb_buffer b)"
  by (cases rule: read_pos_cases [of b]) (auto simp: rb_contents_def rb_inv_def rb_capacity_def)

lemma length_contents: "rb_inv b \<Longrightarrow> length (rb_contents b) = rb_data_size b"
  by (cases rule: read_pos_cases [of b]) (auto simp: rb_contents_def rb_inv_def rb_capacity_def)

lemma peek_prefix:
  assumes "rb_inv b"
  shows "\<exists>rest. rb_contents b = rb_peek b @ rest" "rb_contents b \<noteq> [] \<Longrightarrow> rb_peek b \<noteq> []"
proof -
  have "(\<exists>rest. rb_contents b = rb_peek b @ rest) \<and> (rb_contents b \<noteq> [] \<longrightarrow> rb_peek b \<noteq> [])"
  proof (cases rule: read_pos_cases [OF assms])
    case 1
    then show ?thesis using assms contents_straight [OF assms 1(1)] by (auto simp: rb_peek_def rb_inv_def rb_capacity_def Let_def)
  next
    case 2
    then show ?thesis using assms contents_around [OF assms 2(1)] by (auto simp: rb_peek_def rb_inv_def rb_capacity_def Let_def)
  qed
  then show "\<exists>rest. rb_contents b = rb_peek b @ rest" "rb_contents b \<noteq> [] \<Longrightarrow> rb_peek b \<noteq> []" by blast+
qed

lemma take_drop_twice: "j + k \<le> length xs \<Longrightarrow> take k (drop j (xs @ xs)) = take k (drop j xs)"
  by simp

lemma forward_contents:
  assumes "rb_inv b" "0 < n" "n \<le> length (rb_contents b)"
  shows "\<exists>b'. rb_forward (int n) b = (SUCCESS, b') \<and> rb_inv b' \<and> rb_capacity b' = rb_capacity b \<and> rb_contents b' = drop n (rb_contents b)"
proof -
  let ?b = "b\<lparr>rb_data_size := rb_data_size b - n\<rparr>"
  have n: "n \<le> rb_data_size b" using assms(1,3) by (simp add: length_contents)
  have i: "rb_inv ?b" "rb_capacity ?b = rb_capacity b" using assms(1) by (auto simp: rb_inv_def rb_capacity_def)
  have "rb_contents ?b = drop n (rb_contents b)"
  proof (cases "rb_data_size b \<le> rb_write_pos b")
    case True
    then show ?thesis using n contents_straight [OF assms(1) True] contents_straight [OF i(1)] by (auto simp: drop_take add.commute)
  next
    case False
    then have c: "rb_contents b = drop (rb_write_pos b + rb_capacity b - rb_data_size b) (rb_buffer b) @ take (rb_write_pos b) (rb_buffer b)"
      using contents_around [OF assms(1)] by simp
    show ?thesis
    proof (cases "rb_data_size b - n \<le> rb_write_pos b")
      case True
      then show ?thesis using n False c contents_straight [OF i(1)] assms(1) by (auto simp: rb_inv_def rb_capacity_def drop_take add.commute)
    next
      case False
      then show ?thesis using n c contents_around [OF i(1)] assms(1) i(2) by (auto simp: rb_inv_def rb_capacity_def ac_simps)
    qed
  qed
  then show ?thesis using i n assms(2) by (simp add: rb_forward_def)
qed

text \<open>One round of \<open>write\<close> appends what it copies.\<close>

lemma write_step:
  fixes b :: RingBuffer
  defines "w \<equiv> rb_write_pos b" and "t \<equiv> (if rb_read_pos b \<le> rb_write_pos b then rb_capacity b - rb_write_pos b else rb_read_pos b - rb_write_pos b)"
  assumes "rb_inv b" "0 < rb_remain b" "length bs \<le> t"
  defines "b' \<equiv> b\<lparr>rb_buffer := take w (rb_buffer b) @ bs @ drop (w + length bs) (rb_buffer b),
     rb_write_pos := (w + length bs) mod rb_capacity b, rb_data_size := rb_data_size b + length bs\<rparr>"
  shows "0 < t" "t \<le> rb_remain b" "rb_inv b'" "rb_capacity b' = rb_capacity b" "rb_contents b' = rb_contents b @ bs"
proof -
  define d where "d = rb_data_size b"
  define c where "c = rb_capacity b"
  have i: "d < c" "w < c" "length (rb_buffer b) = c" using assms(3,4) by (simp_all add: rb_inv_def rb_remain_def d_def c_def w_def rb_capacity_def)
  have t: "t = (if d \<le> w then c - w else c - d)"
    by (cases rule: read_pos_cases [OF assms(3)]) (use i in \<open>auto simp: t_def d_def w_def c_def\<close>)
  show "0 < t" "t \<le> rb_remain b" using i by (auto simp: t rb_remain_def d_def c_def)
  have l: "w + length bs \<le> c" "d + length bs \<le> c" using assms(5) i by (auto simp: t split: if_splits)
  show cap: "rb_capacity b' = rb_capacity b" using l i by (simp add: b'_def rb_capacity_def)
  then show inv: "rb_inv b'" using l i by (simp add: rb_inv_def b'_def d_def c_def)
  have b': "rb_data_size b' = d + length bs" "rb_write_pos b' = (if w + length bs = c then 0 else w + length bs)"
    "rb_buffer b' = take w (rb_buffer b) @ bs @ drop (w + length bs) (rb_buffer b)"
    using l by (auto simp: b'_def d_def c_def)
  show "rb_contents b' = rb_contents b @ bs"
  proof (cases "d \<le> w")
    case True
    have old: "rb_contents b = take d (drop (w - d) (rb_buffer b))" using contents_straight [OF assms(3)] True by (simp add: d_def w_def)
    show ?thesis
    proof (cases "w + length bs = c")
      case False
      then show ?thesis using True i l contents_straight [OF inv] by (simp add: b' old drop_take)
    next
      case full: True
      show ?thesis
      proof (cases "d + length bs = 0")
        case False
        then have "rb_contents b' = drop (c - (d + length bs)) (rb_buffer b')" using full contents_around [OF inv] cap by (simp add: b' c_def)
        moreover have "c - (d + length bs) = w - d" using full by simp
        ultimately show ?thesis using True i full by (simp add: b' old drop_take)
      qed (use full i in simp)
    qed
  next
    case False
    then have s: "length bs \<le> c - d" using assms(5) by (simp add: t)
    have old: "rb_contents b = drop (w + c - d) (rb_buffer b) @ take w (rb_buffer b)" using contents_around [OF assms(3)] False by (simp add: d_def w_def c_def)
    have "w + length bs < c" using False s i by simp
    then have "rb_contents b' = drop (w + c - d) (rb_buffer b') @ take (w + length bs) (rb_buffer b')"
      using False contents_around [OF inv] cap by (simp add: b' c_def)
    then show ?thesis using False s i by (simp add: b' old add.commute)
  qed
qed

lemma write_loop_contents:
  assumes "rb_inv b" "k \<le> length data"
  shows "\<exists>b'. rb_write_loop data k b = Some (SUCCESS, k + min (length data - k) (rb_remain b), b') \<and> rb_inv b' \<and>
    rb_capacity b' = rb_capacity b \<and> rb_contents b' = rb_contents b @ take (rb_remain b) (drop k data)"
  using assms
proof (induction "length data - k" arbitrary: k b rule: less_induct)
  case less
  show ?case
  proof (cases "k < length data \<and> 0 < rb_remain b")
    case False
    then show ?thesis using less(2,3) by (subst rb_write_loop.simps) auto
  next
    case True
    define w where "w = rb_write_pos b"
    define t where "t = (if rb_read_pos b \<le> w then rb_capacity b - w else rb_read_pos b - w)"
    define c where "c = min (length data - k) t"
    define bs where "bs = take c (drop k data)"
    define b' where "b' = b\<lparr>rb_buffer := take w (rb_buffer b) @ bs @ drop (w + c) (rb_buffer b),
      rb_write_pos := (w + c) mod rb_capacity b, rb_data_size := rb_data_size b + c\<rparr>"
    have lbs: "length bs = c" by (simp add: bs_def c_def)
    have st: "0 < t" "t \<le> rb_remain b" "rb_inv b'" "rb_capacity b' = rb_capacity b" "rb_contents b' = rb_contents b @ bs"
    proof -
      have le: "length bs \<le> (if rb_read_pos b \<le> rb_write_pos b then rb_capacity b - rb_write_pos b else rb_read_pos b - rb_write_pos b)"
        unfolding lbs c_def t_def w_def by (rule min.cobounded2)
      note s = write_step [OF less(2) conjunct2 [OF True] le, unfolded lbs]
      show "0 < t" "t \<le> rb_remain b" using s(1,2) unfolding t_def w_def by blast+
      show "rb_inv b'" "rb_capacity b' = rb_capacity b" "rb_contents b' = rb_contents b @ bs"
        using s(3-5) unfolding b'_def w_def by blast+
    qed
    have run: "rb_write_loop data k b = rb_write_loop data (k + c) b'"
      using True by (subst rb_write_loop.simps) (simp add: Let_def w_def t_def c_def bs_def b'_def)
    have c: "0 < c" "c \<le> length data - k" "c \<le> rb_remain b" using True st(1,2) by (auto simp: c_def)
    have rem: "rb_remain b' = rb_remain b - c" using st(4) by (simp add: rb_remain_def b'_def)
    have m: "length data - (k + c) < length data - k" "k + c \<le> length data" using c True by linarith+
    obtain b'' where b'': "rb_write_loop data (k + c) b' = Some (SUCCESS, k + c + min (length data - (k + c)) (rb_remain b'), b'')" "rb_inv b''"
      "rb_capacity b'' = rb_capacity b'" "rb_contents b'' = rb_contents b' @ take (rb_remain b') (drop (k + c) data)"
      using less(1) [OF m(1) st(3) m(2)] by blast
    have "k + c + min (length data - (k + c)) (rb_remain b') = k + min (length data - k) (rb_remain b)" using c rem by auto
    moreover have "bs @ take (rb_remain b') (drop (k + c) data) = take (rb_remain b) (drop k data)"
      using c(3) take_add [of c "rb_remain b - c" "drop k data"] by (simp add: bs_def rem add.commute)
    ultimately show ?thesis using run b'' st(4,5) by simp
  qed
qed

lemma write_contents:
  assumes "rb_inv b"
  shows "\<exists>b'. rb_write data b = Some (SUCCESS, min (length data) (rb_remain b), b') \<and> rb_inv b' \<and>
    rb_capacity b' = rb_capacity b \<and> rb_contents b' = rb_contents b @ take (rb_remain b) data"
  using write_loop_contents [OF assms, of 0 data] by (simp add: rb_write_def)


section \<open>The interface\<close>

text \<open>A bounded queue of bytes: what is written comes behind what is stored, as far as there is room.\<close>

locale byte_queue =
  fixes inv :: "'s \<Rightarrow> bool" and contents :: "'s \<Rightarrow> byte list" and capacity :: "'s \<Rightarrow> nat"
    and enq :: "byte list \<Rightarrow> 's \<Rightarrow> (RC \<times> nat \<times> 's) option" and peek :: "'s \<Rightarrow> byte list" and forward :: "int \<Rightarrow> 's \<Rightarrow> RC \<times> 's"
  assumes enq_law: "inv q \<Longrightarrow> \<exists>q'. enq data q = Some (SUCCESS, min (length data) (capacity q - length (contents q)), q') \<and> inv q' \<and>
      capacity q' = capacity q \<and> contents q' = contents q @ take (capacity q - length (contents q)) data"
    and peek_law: "inv q \<Longrightarrow> \<exists>rest. contents q = peek q @ rest" "inv q \<Longrightarrow> contents q \<noteq> [] \<Longrightarrow> peek q \<noteq> []"
    and forward_law: "inv q \<Longrightarrow> 0 < n \<Longrightarrow> n \<le> length (contents q) \<Longrightarrow>
      \<exists>q'. forward (int n) q = (SUCCESS, q') \<and> inv q' \<and> capacity q' = capacity q \<and> contents q' = drop n (contents q)"

text \<open>A client that writes, and that takes some of the bytes that it is shown: what was accepted and what was taken.\<close>

datatype QueueOp = Put "byte list" | Take nat

fun queue_run ::
  "(byte list \<Rightarrow> 's \<Rightarrow> (RC \<times> nat \<times> 's) option) \<Rightarrow> ('s \<Rightarrow> byte list) \<Rightarrow> (int \<Rightarrow> 's \<Rightarrow> RC \<times> 's) \<Rightarrow>
   QueueOp list \<Rightarrow> 's \<Rightarrow> (byte list \<times> byte list \<times> 's) option" where
  "queue_run enq peek forward [] q = Some ([], [], q)"
| "queue_run enq peek forward (Put data # ops) q =
     Option.bind (enq data q) (\<lambda>(rc, n, q).
       map_option (\<lambda>(acc, out, q). (take n data @ acc, out, q)) (queue_run enq peek forward ops q))"
| "queue_run enq peek forward (Take n # ops) q =
     (let bs = take n (peek q) in
      map_option (\<lambda>(acc, out, q). (acc, bs @ out, q)) (queue_run enq peek forward ops (snd (forward (int (length bs)) q))))"

context byte_queue
begin

lemma take_step:
  assumes "inv q" "\<And>q. forward 0 q = (INVALID_ARGUMENT, q)"
  shows "inv (snd (forward (int (length (take n (peek q)))) q)) \<and>
    capacity (snd (forward (int (length (take n (peek q)))) q)) = capacity q \<and>
    take n (peek q) @ contents (snd (forward (int (length (take n (peek q)))) q)) = contents q"
proof (cases "take n (peek q) = []")
  case True
  then show ?thesis using assms by (simp del: take_eq_Nil)
next
  case False
  define bs where "bs = take n (peek q)"
  obtain rest where "contents q = peek q @ rest" using peek_law(1) [OF assms(1)] by blast
  then have c: "contents q = bs @ drop n (peek q) @ rest" by (simp add: bs_def)
  have "0 < length bs" "length bs \<le> length (contents q)" using False c by (auto simp: bs_def)
  then obtain q' where "forward (int (length bs)) q = (SUCCESS, q')" "inv q'" "capacity q' = capacity q"
    "contents q' = drop (length bs) (contents q)"
    using forward_law [OF assms(1)] by blast
  then show ?thesis using c by (simp flip: bs_def)
qed

lemma fifo:
  assumes "inv q" "\<And>q. forward 0 q = (INVALID_ARGUMENT, q)"
  shows "\<exists>acc out q'. queue_run enq peek forward ops q = Some (acc, out, q') \<and> inv q' \<and> capacity q' = capacity q \<and>
    contents q @ acc = out @ contents q'"
  using assms(1)
proof (induction ops arbitrary: q)
  case (Cons a ops)
  show ?case
  proof (cases a)
    case (Put data)
    obtain q1 where q1: "enq data q = Some (SUCCESS, min (length data) (capacity q - length (contents q)), q1)" "inv q1" "capacity q1 = capacity q"
      "contents q1 = contents q @ take (capacity q - length (contents q)) data" using enq_law [OF Cons(2)] by blast
    moreover have "take (min (length data) k) data = take k data" for k by (simp add: min_def)
    ultimately show ?thesis using Cons(1) [OF q1(2)] Put by auto
  next
    case (Take n)
    then show ?thesis using Cons(1) [of "snd (forward (int (length (take n (peek q)))) q)"] take_step [OF Cons(2) assms(2), of n]
      by (auto simp: Let_def) (metis append.assoc)
  qed
qed simp

end

interpretation rb: byte_queue rb_inv rb_contents rb_capacity rb_write rb_peek rb_forward
  by unfold_locales (use write_contents peek_prefix forward_contents in \<open>simp_all add: length_contents rb_remain_def\<close>)

text \<open>
  C39: The ring buffer is a queue: after any sequence of writes and of taking bytes from its front, the bytes
  that were accepted are those that were taken followed by those that are stored. It never holds more
  than its capacity, accepts as many bytes as there is room for, and shows some of its bytes if it has any.
\<close>

theorem ring_buffer_fifo:
  "\<exists>acc out b. queue_run rb_write rb_peek rb_forward ops (RingBuffer_init (Suc n)) = Some (acc, out, b) \<and>
     acc = out @ rb_contents b \<and> length (rb_contents b) \<le> Suc n \<and> (rb_peek b = [] \<longleftrightarrow> rb_contents b = []) \<and>
     (\<forall>data. \<exists>b'. rb_write data b = Some (SUCCESS, min (length data) (Suc n - length (rb_contents b)), b'))"
proof -
  have i: "rb_inv (RingBuffer_init (Suc n))" "rb_contents (RingBuffer_init (Suc n)) = []" "rb_capacity (RingBuffer_init (Suc n)) = Suc n"
    by (simp_all add: rb_inv_def RingBuffer_init_def rb_capacity_def rb_contents_def)
  obtain acc out b where r: "queue_run rb_write rb_peek rb_forward ops (RingBuffer_init (Suc n)) = Some (acc, out, b)" "rb_inv b"
    "rb_capacity b = Suc n" "acc = out @ rb_contents b"
    using rb.fifo [OF i(1), of ops] i(2,3) by (auto simp: rb_forward_def)
  moreover have "length (rb_contents b) \<le> Suc n" using r(2,3) length_contents [OF r(2)] by (simp add: rb_inv_def)
  moreover have "rb_peek b = [] \<longleftrightarrow> rb_contents b = []" using rb.peek_law [OF r(2)] by auto
  moreover have "\<exists>b'. rb_write data b = Some (SUCCESS, min (length data) (Suc n - length (rb_contents b)), b')" for data
    using rb.enq_law [OF r(2), of data] r(3) by auto
  ultimately show ?thesis by blast
qed

text \<open>\<open>read\<close> takes bytes from the front, as many as are asked for or stored.\<close>

lemma read_loop_contents:
  assumes "rb_inv b" "length buf \<le> n"
  shows "\<exists>b'. rb_read_loop n buf b = Some (SUCCESS, buf @ take (n - length buf) (rb_contents b), b') \<and> rb_inv b' \<and>
    rb_contents b' = drop (n - length buf) (rb_contents b)"
  using assms
proof (induction "n - length buf" arbitrary: buf b rule: less_induct)
  case less
  show ?case
  proof (cases "length buf < n \<and> 0 < rb_data_size b")
    case False
    then show ?thesis using less(2,3) length_contents [OF less(2)] by (subst rb_read_loop.simps) auto
  next
    case True
    define bs where "bs = take (min (n - length buf) (length (rb_peek b))) (rb_peek b)"
    obtain rest where "rb_contents b = rb_peek b @ rest" using peek_prefix(1) [OF less(2)] by blast
    then have c: "rb_contents b = bs @ drop (length bs) (rb_contents b)" by (simp add: bs_def)
    have "rb_contents b \<noteq> []" using True length_contents [OF less(2)] by auto
    then have "rb_peek b \<noteq> []" by (rule peek_prefix(2) [OF less(2)])
    then have l: "0 < length bs" "length bs \<le> n - length buf" "length bs \<le> length (rb_contents b)"
      using True arg_cong [OF c, of length] by (auto simp: bs_def)
    obtain b1 where b1: "rb_forward (int (length bs)) b = (SUCCESS, b1)" "rb_inv b1" "rb_contents b1 = drop (length bs) (rb_contents b)"
      using forward_contents [OF less(2) l(1,3)] by blast
    have run: "rb_read_loop n buf b = rb_read_loop n (buf @ bs) b1"
      using True b1(1) by (subst rb_read_loop.simps) (simp add: Let_def bs_def)
    have m: "n - length (buf @ bs) < n - length buf" "length (buf @ bs) \<le> n" using l True unfolding length_append by linarith+
    obtain b2 where b2: "rb_read_loop n (buf @ bs) b1 = Some (SUCCESS, (buf @ bs) @ take (n - length (buf @ bs)) (rb_contents b1), b2)" "rb_inv b2"
      "rb_contents b2 = drop (n - length (buf @ bs)) (rb_contents b1)" using less(1) [OF m(1) b1(2) m(2)] by blast
    have "take (n - length buf) (rb_contents b) = bs @ take (n - length (buf @ bs)) (rb_contents b1)"
      unfolding b1(3) using l(2) by (subst c) simp
    moreover have "drop (n - length buf) (rb_contents b) = drop (n - length (buf @ bs)) (rb_contents b1)"
    proof -
      have "n - length (buf @ bs) + length bs = n - length buf" using l(2) by simp
      then show ?thesis unfolding b1(3) drop_drop by simp
    qed
    ultimately show ?thesis using run b2 by simp
  qed
qed

end
