(* ===== verification/BufferedWriter.thy ===== *)
theory BufferedWriter
  imports RingBuffer
begin

text \<open>
  The buffered writer of the communicators (\<^verbatim>\<open>net/buffered_writer.cpp\<close>), between the reply to a client and its
  socket, on the interface of the ring buffer.

  The system call \<^verbatim>\<open>write\<close> is the argument \<open>sys\<close>: it may depend on the number of calls before and on the
  bytes, and transmits some of them, asks to try again (\<^verbatim>\<open>EAGAIN\<close>, \<^verbatim>\<open>EINTR\<close>) or fails. The bytes that the
  socket got are kept beside the number of calls.
\<close>

section \<open>Operations\<close>

datatype SysWrite = Wrote nat | Again | Failed

type_synonym sys_write = "nat \<Rightarrow> byte list \<Rightarrow> SysWrite"

record Socket =
  sk_calls :: nat
  sk_sent :: "byte list"

record BufferedWriter =
  bw_fd :: int
  bw_buffer :: RingBuffer

text \<open>The inner loop of \<open>flush_internal\<close>: until some bytes are transmitted; \<open>None\<close> for a failure.\<close>

partial_function (option) write_some :: "sys_write \<Rightarrow> byte list \<Rightarrow> Socket \<Rightarrow> (nat option \<times> Socket) option" where
  "write_some sys buf sk =
     (case sys (sk_calls sk) buf of
        Failed \<Rightarrow> Some (None, sk\<lparr>sk_calls := sk_calls sk + 1\<rparr>)
      | Again \<Rightarrow> write_some sys buf (sk\<lparr>sk_calls := sk_calls sk + 1\<rparr>)
      | Wrote n \<Rightarrow>
          if n = 0 then write_some sys buf (sk\<lparr>sk_calls := sk_calls sk + 1\<rparr>)
          else Some (Some n, sk\<lparr>sk_calls := sk_calls sk + 1, sk_sent := sk_sent sk @ take n buf\<rparr>))"

partial_function (option) flush_loop ::
  "sys_write \<Rightarrow> nat \<Rightarrow> nat \<Rightarrow> RingBuffer \<Rightarrow> Socket \<Rightarrow> (RC \<times> RingBuffer \<times> Socket) option" where
  "flush_loop sys n write_size b sk =
     (if rb_data_size b > 0 \<and> n > write_size
      then
        Option.bind (write_some sys (rb_peek b) sk) (\<lambda>(r, sk).
          case r of
            None \<Rightarrow> Some (IOERR_WRITE, b, sk)
          | Some m \<Rightarrow> flush_loop sys n (write_size + m) (snd (rb_forward (int m) b)) sk)
      else Some (SUCCESS, b, sk))"

definition flush_internal :: "sys_write \<Rightarrow> nat \<Rightarrow> BufferedWriter \<Rightarrow> Socket \<Rightarrow> (RC \<times> BufferedWriter \<times> Socket) option" where
  "flush_internal sys n w sk =
     (if bw_fd w < 0 then Some (INVALID_ARGUMENT, w, sk)
      else map_option (\<lambda>(rc, b, sk). (rc, w\<lparr>bw_buffer := b\<rparr>, sk)) (flush_loop sys n 0 (bw_buffer w) sk))"

text \<open>\<open>write\<close>: the return code, the number of bytes that were accepted, the writer and the socket.\<close>

definition BufferedWriter_write ::
  "sys_write \<Rightarrow> byte list \<Rightarrow> BufferedWriter \<Rightarrow> Socket \<Rightarrow> (RC \<times> nat \<times> BufferedWriter \<times> Socket) option" where
  "BufferedWriter_write sys data w sk =
     (if bw_fd w < 0 then Some (INVALID_ARGUMENT, 0, w, sk)
      else
        Option.bind (if rb_remain (bw_buffer w) = 0 then flush_internal sys (length data) w sk else Some (SUCCESS, w, sk)) (\<lambda>(rc, w, sk).
          if rc \<noteq> SUCCESS then Some (rc, 0, w, sk)
          else map_option (\<lambda>(rc, m, b). (rc, m, w\<lparr>bw_buffer := b\<rparr>, sk)) (rb_write data (bw_buffer w))))"

partial_function (option) writen_loop ::
  "sys_write \<Rightarrow> byte list \<Rightarrow> BufferedWriter \<Rightarrow> Socket \<Rightarrow> (RC \<times> BufferedWriter \<times> Socket) option" where
  "writen_loop sys data w sk =
     (if data = [] then Some (SUCCESS, w, sk)
      else
        Option.bind (BufferedWriter_write sys data w sk) (\<lambda>(rc, m, w, sk).
          if rc \<noteq> SUCCESS then Some (rc, w, sk) else writen_loop sys (drop m data) w sk))"

definition BufferedWriter_writen :: "sys_write \<Rightarrow> byte list \<Rightarrow> BufferedWriter \<Rightarrow> Socket \<Rightarrow> (RC \<times> BufferedWriter \<times> Socket) option" where
  "BufferedWriter_writen sys data w sk =
     (if bw_fd w < 0 then Some (INVALID_ARGUMENT, w, sk) else writen_loop sys data w sk)"

partial_function (option) BufferedWriter_flush :: "sys_write \<Rightarrow> BufferedWriter \<Rightarrow> Socket \<Rightarrow> (RC \<times> BufferedWriter \<times> Socket) option" where
  "BufferedWriter_flush sys w sk =
     (if bw_fd w < 0 then Some (INVALID_ARGUMENT, w, sk)
      else if rb_data_size (bw_buffer w) > 0
      then
        Option.bind (flush_internal sys (rb_data_size (bw_buffer w)) w sk) (\<lambda>(rc, w, sk).
          if rc \<noteq> SUCCESS then Some (rc, w, sk) else BufferedWriter_flush sys w sk)
      else Some (SUCCESS, w, sk))"

definition BufferedWriter_close :: "sys_write \<Rightarrow> BufferedWriter \<Rightarrow> Socket \<Rightarrow> (RC \<times> BufferedWriter \<times> Socket) option" where
  "BufferedWriter_close sys w sk =
     (if bw_fd w < 0 then Some (SUCCESS, w, sk)
      else
        map_option (\<lambda>(rc, w, sk). if rc \<noteq> SUCCESS then (rc, w, sk) else (SUCCESS, w\<lparr>bw_fd := - 1\<rparr>, sk)) (BufferedWriter_flush sys w sk))"

definition BufferedWriter_clear :: "BufferedWriter \<Rightarrow> RC \<times> BufferedWriter" where
  "BufferedWriter_clear w =
     (if bw_fd w < 0 then (INVALID_ARGUMENT, w) else (SUCCESS, w\<lparr>bw_buffer := rb_clear (bw_buffer w)\<rparr>))"


section \<open>What arrives\<close>

text \<open>A socket that never fails, does not take more than it is given, and always takes something again.\<close>

definition sys_ok :: "sys_write \<Rightarrow> bool" where
  "sys_ok sys \<longleftrightarrow>
     (\<forall>k buf. sys k buf \<noteq> Failed) \<and> (\<forall>k buf n. sys k buf = Wrote n \<longrightarrow> n \<le> length buf) \<and>
     (\<forall>k. \<exists>j \<ge> k. \<forall>buf. buf \<noteq> [] \<longrightarrow> (\<exists>n > 0. sys j buf = Wrote n))"

lemma write_some_progress:
  assumes "sys_ok sys" "buf \<noteq> []"
  shows "\<exists>n sk'. write_some sys buf sk = Some (Some n, sk') \<and> sk_sent sk' = sk_sent sk @ take n buf \<and> 0 < n \<and> n \<le> length buf"
proof -
  obtain j where j: "j \<ge> sk_calls sk" "\<exists>n > 0. sys j buf = Wrote n" using assms unfolding sys_ok_def by meson
  then show ?thesis
  proof (induction "j - sk_calls sk" arbitrary: sk)
    case 0
    then obtain n where n: "sys (sk_calls sk) buf = Wrote n" "0 < n" by (auto simp: le_antisym)
    moreover have "n \<le> length buf" using n(1) assms(1) by (auto simp: sys_ok_def)
    ultimately show ?case by (subst write_some.simps) auto
  next
    case (Suc d)
    have IH: "\<exists>n sk'. write_some sys buf (sk\<lparr>sk_calls := sk_calls sk + 1\<rparr>) = Some (Some n, sk') \<and>
        sk_sent sk' = sk_sent sk @ take n buf \<and> 0 < n \<and> n \<le> length buf"
      using Suc(1) [of "sk\<lparr>sk_calls := sk_calls sk + 1\<rparr>"] Suc(2-) by simp
    show ?case
    proof (cases "sys (sk_calls sk) buf")
      case (Wrote n)
      moreover have "n \<le> length buf" using Wrote assms(1) by (auto simp: sys_ok_def)
      ultimately show ?thesis using IH by (subst write_some.simps) auto
    next
      case Again
      then show ?thesis using IH by (subst write_some.simps) auto
    next
      case Failed
      then show ?thesis using assms(1) by (simp add: sys_ok_def)
    qed
  qed
qed

text \<open>The stream: what the socket got and what is still buffered.\<close>

definition stream :: "BufferedWriter \<Rightarrow> Socket \<Rightarrow> byte list" where
  "stream w sk = sk_sent sk @ rb_contents (bw_buffer w)"

definition writer_ok :: "BufferedWriter \<Rightarrow> bool" where
  "writer_ok w \<longleftrightarrow> 0 \<le> bw_fd w \<and> rb_inv (bw_buffer w)"

lemma flush_loop_stream:
  assumes "sys_ok sys" "rb_inv b"
  shows "\<exists>b' sk'. flush_loop sys n k b sk = Some (SUCCESS, b', sk') \<and> rb_inv b' \<and> rb_capacity b' = rb_capacity b \<and>
    sk_sent sk' @ rb_contents b' = sk_sent sk @ rb_contents b \<and>
    (k < n \<longrightarrow> rb_contents b \<noteq> [] \<longrightarrow> length (rb_contents b') < length (rb_contents b))"
  using assms(2)
proof (induction "length (rb_contents b)" arbitrary: b k sk rule: less_induct)
  case less
  show ?case
  proof (cases "rb_data_size b > 0 \<and> n > k")
    case False
    then show ?thesis using less(2) length_contents [OF less(2)] by (subst flush_loop.simps) auto
  next
    case True
    then have ne: "rb_contents b \<noteq> []" using length_contents [OF less(2)] by auto
    obtain rest where rest: "rb_contents b = rb_peek b @ rest" using rb.peek_law(1) [OF less(2)] by blast
    obtain m sk1 where m: "write_some sys (rb_peek b) sk = Some (Some m, sk1)"
      "0 < m" "m \<le> length (rb_peek b)" "sk_sent sk1 = sk_sent sk @ take m (rb_peek b)" using write_some_progress [OF assms(1) rb.peek_law(2) [OF less(2) ne], of sk] by blast
    obtain b1 where b1: "rb_forward (int m) b = (SUCCESS, b1)" "rb_inv b1" "rb_capacity b1 = rb_capacity b" "rb_contents b1 = drop m (rb_contents b)"
      using rb.forward_law [OF less(2) m(2)] m(3) rest by auto
    have run: "flush_loop sys n k b sk = flush_loop sys n (k + m) b1 sk1"
      using True m(1) b1(1) by (subst flush_loop.simps) simp
    have s: "length (rb_contents b1) < length (rb_contents b)" using b1(4) m(2) ne by simp
    have e: "take m (rb_peek b) @ rb_contents b1 = rb_contents b" using b1(4) rest m(3) by simp
    obtain b2 sk2 where b2: "flush_loop sys n (k + m) b1 sk1 = Some (SUCCESS, b2, sk2)" "rb_inv b2" "rb_capacity b2 = rb_capacity b1"
      "sk_sent sk2 @ rb_contents b2 = sk_sent sk1 @ rb_contents b1"
      "k + m < n \<longrightarrow> rb_contents b1 \<noteq> [] \<longrightarrow> length (rb_contents b2) < length (rb_contents b1)"
      using less(1) [OF s b1(2), of "k + m" sk1] by blast
    have "length (rb_contents b2) \<le> length (rb_contents b1)"
    proof (cases "k + m < n \<and> rb_contents b1 \<noteq> []")
      case False
      then have "flush_loop sys n (k + m) b1 sk1 = Some (SUCCESS, b1, sk1)"
        using length_contents [OF b1(2)] by (subst flush_loop.simps) auto
      then show ?thesis using b2(1) by simp
    qed (use b2(5) in auto)
    then show ?thesis using run b2 b1(3) s e m(4) by auto
  qed
qed

lemma write_stream:
  assumes "sys_ok sys" "writer_ok w" "data \<noteq> []"
  shows "\<exists>m w' sk'. BufferedWriter_write sys data w sk = Some (SUCCESS, m, w', sk') \<and> 0 < m \<and> m \<le> length data \<and> writer_ok w' \<and>
    stream w' sk' = stream w sk @ take m data"
proof -
  let ?b = "bw_buffer w"
  have i: "rb_inv ?b" "0 \<le> bw_fd w" using assms(2) by (simp_all add: writer_ok_def)
  obtain b1 sk1 where b1: "(if rb_remain ?b = 0 then flush_internal sys (length data) w sk else Some (SUCCESS, w, sk)) =
      Some (SUCCESS, w\<lparr>bw_buffer := b1\<rparr>, sk1)" "rb_inv b1" "0 < rb_remain b1" "sk_sent sk1 @ rb_contents b1 = stream w sk"
  proof (cases "rb_remain ?b = 0")
    case False
    then show ?thesis using that [of ?b sk] i by (simp add: stream_def)
  next
    case True
    then have full: "length (rb_contents ?b) = rb_capacity ?b" "rb_contents ?b \<noteq> []"
      using length_contents [OF i(1)] i(1) by (auto simp: rb_remain_def rb_inv_def)
    obtain b1 sk1 where b1: "flush_loop sys (length data) 0 ?b sk = Some (SUCCESS, b1, sk1)" "rb_inv b1" "rb_capacity b1 = rb_capacity ?b"
      "sk_sent sk1 @ rb_contents b1 = sk_sent sk @ rb_contents ?b" "length (rb_contents b1) < length (rb_contents ?b)"
      using flush_loop_stream [OF assms(1) i(1), of "length data" 0 sk] full(2) assms(3) by auto
    have "0 < rb_remain b1" using b1(2,3,5) full(1) length_contents [OF b1(2)] by (simp add: rb_remain_def)
    then show ?thesis using that [of b1 sk1] b1 True i(2) by (simp add: flush_internal_def stream_def)
  qed
  obtain b2 where b2: "rb_write data b1 = Some (SUCCESS, min (length data) (rb_remain b1), b2)" "rb_inv b2"
    "rb_contents b2 = rb_contents b1 @ take (rb_remain b1) data" using write_contents [OF b1(2)] by blast
  have "take (min (length data) (rb_remain b1)) data = take (rb_remain b1) data" by (simp add: min_def)
  then show ?thesis using b1 b2 i(2) assms(3)
    by (simp add: BufferedWriter_write_def stream_def writer_ok_def flip: append_assoc)
qed

lemma writen_stream:
  assumes "sys_ok sys" "writer_ok w"
  shows "\<exists>w' sk'. BufferedWriter_writen sys data w sk = Some (SUCCESS, w', sk') \<and> writer_ok w' \<and> stream w' sk' = stream w sk @ data"
proof -
  have "\<exists>w' sk'. writen_loop sys data w sk = Some (SUCCESS, w', sk') \<and> writer_ok w' \<and> stream w' sk' = stream w sk @ data"
    using assms(2)
  proof (induction "length data" arbitrary: data w sk rule: less_induct)
    case less
    show ?case
    proof (cases "data = []")
      case True
      then show ?thesis using less(2) by (subst writen_loop.simps) simp
    next
      case False
      obtain m w1 sk1 where m: "BufferedWriter_write sys data w sk = Some (SUCCESS, m, w1, sk1)" "0 < m" "m \<le> length data" "writer_ok w1"
        "stream w1 sk1 = stream w sk @ take m data" using write_stream [OF assms(1) less(2) False] by blast
      have "length (drop m data) < length data" using m(2) False by simp
      from less(1) [OF this m(4), of sk1] obtain w2 sk2 where "writen_loop sys (drop m data) w1 sk1 = Some (SUCCESS, w2, sk2)" "writer_ok w2"
        "stream w2 sk2 = stream w1 sk1 @ drop m data" by blast
      then show ?thesis using m(1,5) False by (subst writen_loop.simps) simp
    qed
  qed
  then show ?thesis using assms(2) by (simp add: BufferedWriter_writen_def writer_ok_def)
qed

lemma flush_stream:
  assumes "sys_ok sys" "writer_ok w"
  shows "\<exists>w' sk'. BufferedWriter_flush sys w sk = Some (SUCCESS, w', sk') \<and> writer_ok w' \<and> rb_contents (bw_buffer w') = [] \<and>
    sk_sent sk' = stream w sk"
  using assms(2)
proof (induction "length (rb_contents (bw_buffer w))" arbitrary: w sk rule: less_induct)
  case less
  have i: "rb_inv (bw_buffer w)" "0 \<le> bw_fd w" using less(2) by (simp_all add: writer_ok_def)
  show ?case
  proof (cases "rb_contents (bw_buffer w) = []")
    case True
    then show ?thesis using less(2) i length_contents [OF i(1)] by (subst BufferedWriter_flush.simps) (auto simp: stream_def)
  next
    case False
    then have d: "0 < rb_data_size (bw_buffer w)" using length_contents [OF i(1)] by (metis length_greater_0_conv)
    obtain b1 sk1 where b1: "flush_loop sys (rb_data_size (bw_buffer w)) 0 (bw_buffer w) sk = Some (SUCCESS, b1, sk1)" "rb_inv b1"
      "sk_sent sk1 @ rb_contents b1 = sk_sent sk @ rb_contents (bw_buffer w)" "length (rb_contents b1) < length (rb_contents (bw_buffer w))"
      using flush_loop_stream [OF assms(1) i(1), of "rb_data_size (bw_buffer w)" 0 sk] d False by auto
    let ?w = "w\<lparr>bw_buffer := b1\<rparr>"
    have "writer_ok ?w" "length (rb_contents (bw_buffer ?w)) < length (rb_contents (bw_buffer w))" using i b1 by (simp_all add: writer_ok_def)
    from less(1) [OF this(2,1), of sk1] show ?thesis using b1(1,3) d i(2)
      by (subst BufferedWriter_flush.simps) (simp add: flush_internal_def stream_def)
  qed
qed

end
