(* ===== verification/Reply.thy ===== *)
theory Reply
  imports ExecutorProps BufferedWriter
begin

text \<open>
  The reply to a select statement on the wire: \<^verbatim>\<open>PlainCommunicator::write_result\<close>, which sends what
  \<open>write_result_internal\<close> writes through the buffered writer, ends it by a zero byte and flushes.
  Debug messages are off. Writing to the socket does not fail here: a failure is \<open>None\<close>.
\<close>

fun send_calls :: "sys_write \<Rightarrow> WriterCall list \<Rightarrow> BufferedWriter \<Rightarrow> Socket \<Rightarrow> (BufferedWriter \<times> Socket) option" where
  "send_calls sys [] w sk = Some (w, sk)"
| "send_calls sys (Writen data # calls) w sk =
     (case BufferedWriter_writen sys data w sk of
        Some (SUCCESS, w, sk) \<Rightarrow> send_calls sys calls w sk
      | _ \<Rightarrow> None)"
| "send_calls sys (Clear # calls) w sk = send_calls sys calls (snd (BufferedWriter_clear w)) sk"

definition PlainCommunicator_write_result ::
  "sys_write \<Rightarrow> EvalEnv \<Rightarrow> std_sort \<Rightarrow> RC option \<Rightarrow> byte list list \<Rightarrow> PhysicalOperator \<Rightarrow> BufferedWriter \<Rightarrow> Socket \<Rightarrow>
   (RC \<times> bool \<times> BufferedWriter \<times> Socket) option" where
  "PlainCommunicator_write_result sys env srt commit names oper w sk =
     Option.bind (write_result_internal env srt commit names oper) (\<lambda>(rc, need_disconnect, calls).
       Option.bind (send_calls sys (calls @ (if need_disconnect then [] else [Writen [0]])) w sk) (\<lambda>(w, sk).
         Option.bind (BufferedWriter_flush sys w sk) (\<lambda>(_, w, sk).
           Some (if need_disconnect then rc else SUCCESS, need_disconnect, w, sk))))"

lemma send_calls_stream:
  assumes "sys_ok sys" "writer_ok w"
  shows "\<exists>w' sk'. send_calls sys (map Writen cs) w sk = Some (w', sk') \<and> writer_ok w' \<and> stream w' sk' = stream w sk @ concat cs"
  using assms(2)
proof (induction cs arbitrary: w sk)
  case (Cons c cs)
  obtain w1 sk1 where w1: "BufferedWriter_writen sys c w sk = Some (SUCCESS, w1, sk1)" "writer_ok w1" "stream w1 sk1 = stream w sk @ c"
    using writen_stream [OF assms(1) Cons(2)] by blast
  then show ?case using Cons(1) [OF w1(2), of sk1] by auto
qed simp

text \<open>
  C5: What the client of a select statement receives is the header, one line for every tuple that the plan
  of the statement describes, in its order, and a zero byte: through all layers from the plan generator to
  the socket, which may take the bytes in pieces of any size. The statement is as for the optimizer (C34: the
  conditions can be evaluated, no deciding constant stands behind a condition on the row, no disjunction has
  only false constants; C37 shows wrong rows otherwise); the tables have no index and there are no subqueries;
  \<^verbatim>\<open>std::sort\<close> keeps the number of tuples; a statement with a sort or an aggregate has a tuple (C40
  shows the failure of the sort otherwise); all cells can be read; the pages of the rows stay in the buffer pool while the query runs,
  since tuples point into them; the socket does not fail.
\<close>

theorem client_receives:
  assumes "env_ok env" "create_plan stmt = Some p" "good_statement env stmt" "\<And>r ts. length (srt r ts) = length ts"
    "ss_order_units stmt \<noteq> [] \<or> aggregates stmt \<Longrightarrow> plan_rows env srt p \<noteq> []"
    "list_all2 (tuple_cells env) (plan_rows env srt p) rows" "names \<noteq> []" "sys_ok sys" "writer_ok w" "rb_contents (bw_buffer w) = []"
  shows "\<exists>q oper w' sk'. OptimizeStage_rewrite env p = Some q \<and> create_physical env q = Some (SUCCESS, Some oper) \<and>
    PlainCommunicator_write_result sys env srt None names oper w sk = Some (SUCCESS, False, w', sk') \<and>
    writer_ok w' \<and> rb_contents (bw_buffer w') = [] \<and>
    sk_sent sk' = sk_sent sk @ text_line names @ concat (map (\<lambda>vs. text_line (map (value_to_string (ee_fo env)) vs)) rows) @ [0]"
proof -
  obtain q oper where q: "OptimizeStage_rewrite env p = Some q" "create_physical env q = Some (SUCCESS, Some oper)"
    "operator_ok env srt oper (plan_rows env srt p)" using optimized_executes [OF assms(1-5)] by blast
  obtain cs where cs: "write_result_internal env srt None names oper = Some (SUCCESS, False, map Writen cs)"
    "concat cs = text_line names @ concat (map (\<lambda>vs. text_line (map (value_to_string (ee_fo env)) vs)) rows)"
    using operator_reply [OF q(3) assms(6,7), of None] by auto
  obtain w1 sk1 where w1: "send_calls sys (map Writen (cs @ [[0]])) w sk = Some (w1, sk1)" "writer_ok w1" "stream w1 sk1 = stream w sk @ concat (cs @ [[0]])"
    using send_calls_stream [OF assms(8,9), of "cs @ [[0]]"] by blast
  obtain w2 sk2 where "BufferedWriter_flush sys w1 sk1 = Some (SUCCESS, w2, sk2)" "writer_ok w2" "rb_contents (bw_buffer w2) = []"
    "sk_sent sk2 = stream w1 sk1" using flush_stream [OF assms(8) w1(2)] by blast
  then show ?thesis using q(1,2) cs w1 assms(10) by (simp add: PlainCommunicator_write_result_def stream_def)
qed

theorem client_receives_witness:
  "\<exists>p q oper w' sk'. create_plan (demo_select [demo_unit]) = Some p \<and> OptimizeStage_rewrite demo_env p = Some q \<and>
     create_physical demo_env q = Some (SUCCESS, Some oper) \<and>
     PlainCommunicator_write_result (\<lambda>k buf. if even k then Again else Wrote (min 3 (length buf))) demo_env (\<lambda>_. id) None [[105, 100]] oper
       \<lparr>bw_fd = 5, bw_buffer = RingBuffer_init 4\<rparr> \<lparr>sk_calls = 0, sk_sent = []\<rparr> = Some (SUCCESS, False, w', sk') \<and>
     sk_sent sk' = [105, 100, 10, 48, 10, 0]"
proof -
  obtain p where p: "create_plan (demo_select [demo_unit]) = Some p"
    "plan_rows demo_env (\<lambda>_. id) p =
       [ProjectTuple [projection_spec demo_env (FieldExpr ''t'' demo_field)] (Some (RowTuple demo_meta (replicate 19 0)))]"
    by (rule demo_select_plan)
  have r: "list_all2 (tuple_cells demo_env) (plan_rows demo_env (\<lambda>_. id) p) [[set_type INTS fresh_value\<lparr>v_length := 4\<rparr>]]"
    using p(2) demo_select_cells(1) by simp
  have s: "sys_ok (\<lambda>k buf. if even k then Again else Wrote (min 3 (length buf)))"
    unfolding sys_ok_def
  proof (intro conjI allI impI)
    show "\<exists>j \<ge> k. \<forall>buf. buf \<noteq> [] \<longrightarrow> (\<exists>n > 0. (if even j then Again else Wrote (min 3 (length buf))) = Wrote n)" for k :: nat
      by (rule exI [of _ "2 * k + 1"]) simp
  qed (auto split: if_splits)
  have w: "writer_ok \<lparr>bw_fd = 5, bw_buffer = RingBuffer_init 4\<rparr>" "rb_contents (bw_buffer \<lparr>bw_fd = 5, bw_buffer = RingBuffer_init 4\<rparr>) = []"
    by (simp_all add: writer_ok_def rb_inv_def RingBuffer_init_def rb_capacity_def rb_contents_def)
  show ?thesis
    using client_receives [OF demo_select_good(1) p(1) demo_select_good(2) _ _ r _ s w, of "[[105, 100]]" "\<lparr>sk_calls = 0, sk_sent = []\<rparr>"] p demo_lines
    by fastforce
qed

end
