(* ===== verification/Spec2Isabelle.thy ===== *)
theory Spec2Isabelle
  imports RecordScan RecordStore BplusIndex MvccFlaws RecoveryProps OrderProps Reply
begin

text \<open>
  This development models the storage engine of the database under \<^verbatim>\<open>src/src/observer/storage\<close> with
  the containers it is built on (\<^verbatim>\<open>src/deps/common\<close>) and the values it stores, and the execution of select
  statements (\<^verbatim>\<open>src/src/observer/sql\<close>, \<^verbatim>\<open>src/src/observer/net\<close>). It proves what makes them correct, from the bits of
  a page up to the isolation and recovery of transactions, and from the plan of a statement to the bytes
  that its client receives.

  \<^bold>\<open>The parts and how they interact.\<close> Everything the engine stores is in files of pages. The buffer pool
  (\<^verbatim>\<open>storage/buffer\<close>) keeps pages of open files in a fixed number of frames, finds frames through an LRU cache
  and page numbers through a bitmap. The record manager (\<^verbatim>\<open>storage/record\<close>) keeps records of a fixed size
  in the pages of one file. The B+ tree (\<^verbatim>\<open>storage/index\<close>) keeps sorted entries in the pages of another. A
  table (\<^verbatim>\<open>storage/table\<close>) is a record file with its indexes; its metadata fix where the fields lie in a
  record. Transactions (\<^verbatim>\<open>storage/trx\<close>) put version numbers into two fields of every record, decide by them who
  sees a record, and write the commit log (\<^verbatim>\<open>storage/clog\<close>), from which the tables are recovered. A select statement
  becomes a logical plan (\<^verbatim>\<open>sql/optimizer\<close>), which is rewritten and turned into physical operators
  (\<^verbatim>\<open>sql/operator\<close>); these evaluate expressions on tuples (\<^verbatim>\<open>sql/expr\<close>), and the communicator (\<^verbatim>\<open>net\<close>)
  fetches their tuples and writes them to a buffered socket.

  \<^bold>\<open>Theories, in the order of their dependencies.\<close>

  \<^item> \<open>Prelude\<close>: return codes (\<^verbatim>\<open>common/rc.h\<close>), memory as a function from addresses to bytes, 32-bit integers in it.
  \<^item> \<open>Bitmap\<close>: \<^verbatim>\<open>deps/common/lang/bitmap.cpp\<close>. The searches give the first bit they look for, where that holds.
  \<^item> \<open>LruCache\<close>: \<^verbatim>\<open>deps/common/lang/lru_cache.h\<close>, nodes in an explicit heap. The cache refines a list of entries
    ordered by their last use.
  \<^item> \<open>BufferPool\<close>: \<^verbatim>\<open>frame.h\<close>, \<^verbatim>\<open>frame.cpp\<close>, \<^verbatim>\<open>disk_buffer_pool.h\<close>, \<^verbatim>\<open>disk_buffer_pool.cpp\<close>. The state is the record of all
    frames, the open files and the disk. \<open>BufferPoolInv\<close> holds the invariant and what every operation does to the
    pages its clients see; \<open>BufferPoolFiles\<close> opens, closes and flushes files and has the properties.
  \<^item> \<open>RecordPage\<close>, \<open>RecordFile\<close>: \<^verbatim>\<open>record_manager.cpp\<close>, the page and the file, with the scanner. \<open>RecordFileInv\<close> shows what
    the operations do to the stored records, \<open>RecordScan\<close> that a scan lists all of them and when the pointers it hands
    out still lead to them, \<open>RecordStore\<close> that the file refines a map from identifiers to records under any client.
  \<^item> \<open>Comparator\<close>: \<^verbatim>\<open>comparator.cpp\<close>, \<^verbatim>\<open>lower_bound.h\<close>, the comparison of keys in \<^verbatim>\<open>bplus_tree.h\<close>.
  \<^item> \<open>BplusTree\<close>: nodes, search, insertion and deletion of \<^verbatim>\<open>bplus_tree.cpp\<close> on a map from page numbers to nodes, with
    the deferred page operations of \<^verbatim>\<open>latch_memo.cpp\<close>. \<open>BplusInv\<close> describes a well-formed tree by the key range of every
    node; \<open>BplusInsert\<close> shows that insertion, with all its splits, keeps it and adds one entry; \<open>BplusScan\<close> models the
    scanner and shows that it lists the entries of a range in order; \<open>BplusIndex\<close> has the properties for keys of a table,
    and that dirty marks suffice for evictions, \<open>sync\<close> and reopening from the file on disk.
  \<^item> \<open>Value\<close>: \<^verbatim>\<open>sql/parser/value.cpp\<close>, the values of attributes, their comparison and conversion.
  \<^item> \<open>RecordLayout\<close>: \<^verbatim>\<open>field_meta.cpp\<close>, \<^verbatim>\<open>table_meta.cpp\<close>, \<open>make_record\<close> of \<^verbatim>\<open>table.cpp\<close>, \<open>cell_at\<close> of \<^verbatim>\<open>sql/expr/tuple.h\<close>.
    Offsets and the record size wrap around at 32 bits.
  \<^item> \<open>TableStore\<close>: the operations of \<^verbatim>\<open>table.cpp\<close> on records and index entries. The record file is the map it refines;
    changes through \<open>visit_record\<close> are taken to last, although the code does not mark their page dirty.
  \<^item> \<open>CLog\<close>: \<^verbatim>\<open>clog.cpp\<close>, log records, their bytes, the buffer and the file. What was written is what is read.
  \<^item> \<open>MvccTrx\<close>: \<^verbatim>\<open>mvcc_trx.cpp\<close>, \<^verbatim>\<open>vacuous_trx.cpp\<close> and \<open>recover\<close> of \<^verbatim>\<open>clog.cpp\<close>. \<open>MvccInv\<close> has the invariant of versions and
    operation sets; \<open>MvccSteps\<close> the step relation of any number of transactions in any order and the simulation of its
    steps by steps on versions alone; \<open>MvccIsolation\<close> and \<open>MvccProps\<close> what transactions see of each other and of
    themselves, stale updates excepted; \<open>MvccFlaws\<close> the situations in which the code does not give that.
  \<^item> \<open>Recovery\<close>: executions together with the log they write, and the redo of that log as a simulation of the
    execution; \<open>RecoveryProps\<close>: recovery after the first crash restores the committed database, and rows that are then invisible.
  \<^item> \<open>Expression\<close>: \<^verbatim>\<open>sql/expr/tuple.h\<close>, \<^verbatim>\<open>expression.h\<close>, \<^verbatim>\<open>expression.cpp\<close>, tuples and the evaluation of expressions, which
    respects their types. \<open>Aggregation\<close>: \<^verbatim>\<open>AggregationTuple\<close> of \<^verbatim>\<open>tuple.cpp\<close> against sums, counts and extrema of lists.
  \<^item> \<open>LogicalPlan\<close>: statements, operators, \<^verbatim>\<open>logical_plan_generator.cpp\<close>, and the tuples that a plan describes, the
    reference for everything below.
  \<^item> \<open>Optimizer\<close>: all rules of \<^verbatim>\<open>sql/optimizer\<close> and the proof that their repetition ends; \<open>OptimizerProps\<close>: they keep the
    tuples of a plan, and the conjunctions for which they do not.
  \<^item> \<open>Executor\<close>: the physical operators, \<^verbatim>\<open>physical_plan_generator.cpp\<close>, \<^verbatim>\<open>sql_result.cpp\<close> and the reply of
    \<^verbatim>\<open>plain_communicator.cpp\<close>; \<open>ExecutorProps\<close>: an operator delivers the tuples of its plan, and the empty sort,
    which fails; \<open>OrderProps\<close>: the comparison of a sort is a strict weak order, the lexicographic one of its keys.
  \<^item> \<open>RingBuffer\<close>, \<open>BufferedWriter\<close>: \<^verbatim>\<open>net/ring_buffer.cpp\<close>, \<^verbatim>\<open>net/buffered_writer.cpp\<close>, a queue of bytes and the stream through
    it; \<open>Reply\<close> composes all of these: what the client of a select statement receives.

  \<^bold>\<open>State and operations.\<close> A class is a record with a field for every member that matters, an operation a function from
  the state to its return code and the new state, named after the method, with the class in front where two classes have
  a method of that name. Fallible operations return a sum or a pair with a return code, all branches included. What the
  code leaves uninitialised is an argument named \<open>junk\<close>. Pointers are addresses into an explicit heap where the code
  changes shared nodes (LRU cache, transactions), and page numbers in the B+ tree. A record that a scan hands out is a frame
  and an offset, and its bytes are what the frame holds when they are read; the tuples of a query hold bytes.

  \<^bold>\<open>Termination.\<close> Loops whose end depends on the data, in particular the descent in a tree, the links of its leaves and
  the search for a frame, are partial functions into an option: not to return is the value \<open>None\<close>, and the theorems show
  that the result is \<open>Some\<close>, or when exactly it is. All other recursions have a termination proof. There is no fuel.

  \<^bold>\<open>Interfaces.\<close> Locales state what one part relies on in another: \<open>slot_bitmap\<close> (pages of records on the bitmap),
  \<open>lru_spec\<close> (the frame manager on the cache), \<open>page_store\<close> (records on the buffer pool), \<open>record_store\<close> (clients of the
  record file), \<open>key_order\<close> (search in a node), \<open>ordered_index\<close> (clients of the index), \<open>kept_steps\<close> and \<open>isolated_steps\<close> (steps of any and of other
  transactions), \<open>byte_queue\<close> (the writer on the ring buffer). Each is interpreted on the definitions that model the code.

  \<^bold>\<open>Parameters.\<close> Arithmetic of single precision floats, parsing and printing of numbers, \<^verbatim>\<open>std::regex\<close>,
  \<^verbatim>\<open>std::sort\<close> and the system call \<^verbatim>\<open>write\<close> are arguments of the definitions; the properties that need something of them name it as a hypothesis.

  \<^bold>\<open>Not modelled.\<close> Latches and mutexes do nothing with one thread and are left out; interleavings of transactions are at the
  granularity of their operations, a commit being one of them. Failing system calls are modelled only where the code reacts to the end of a file or a
  full pool. The generated scanner and parser, name resolution, JSON metadata, the MySQL protocol, sessions and
  the utilities have no model. Of queries, subqueries and scans of an index are left out, and the operators for insert,
  update, delete, explain and calc: the first three hand their rows to the operations of transactions, which are modelled. Properties of transactions are for tables without indexes, since the code
  does not restore index entries on rollback; properties of the B+ tree cover insertion and search, and deletion is
  modelled without a proof of its invariant.
\<close>

end
